(* ===== verification/Prelude.thy ===== *)
theory Prelude
  imports Complex_Main "HOL-Library.Word"
begin

text \<open>
  Shared vocabulary of the development: byte and word types, the C conversions the sources
  use, binary32 values seen through the comparisons of C, and the generic list lemmas on
  which the component theories rest.

  Conventions. A C \<open>int\<close>, \<open>long\<close> or \<open>int32_t\<close> is an \<open>int\<close> (with the wrap of a narrowing
  cast written out by the \<open>cast\<close> functions below); a \<open>size_t\<close> or position is a \<open>nat\<close> where
  the code keeps it away from its bound, and a \<open>word\<close> where wrap-around is reachable.
\<close>

unbundle bit_operations_syntax

named_theorems wf_intros \<open>preservation of the well-formedness invariants\<close>
named_theorems frame_simps \<open>fields an operation leaves alone\<close>

subsection \<open>Types\<close>

type_synonym byte = "8 word"
type_synonym u16 = "16 word"
type_synonym u32 = "32 word"
type_synonym u64 = "64 word"
type_synonym token = int

text \<open>An operation that may refuse: the named refusal on the left, the result on the right.\<close>

type_synonym ('e, 'a) result = "'e + 'a"

text \<open>A NUL-terminated C string or a byte buffer is a list of bytes.\<close>

type_synonym bytes = "byte list"

definition bytes_of :: "string \<Rightarrow> bytes" where
  "bytes_of s = map (\<lambda>c. word_of_nat (of_char c)) s"

subsection \<open>C integer conversions\<close>

definition INT32_MAX :: int where "INT32_MAX = 2147483647"
definition UINT32_MAX :: nat where "UINT32_MAX = 4294967295"
definition UINT64_MAX :: nat where "UINT64_MAX = 18446744073709551615"
definition INT64_MAX :: int where "INT64_MAX = 9223372036854775807"

text \<open>\<open>(int32_t)v\<close> of a wider integer: reduction modulo \<open>2 ^ 32\<close> to two's complement.\<close>

definition cast_i32 :: "int \<Rightarrow> int" where
  "cast_i32 v = (v + 2147483648) mod 4294967296 - 2147483648"

definition cast_u32 :: "int \<Rightarrow> nat" where
  "cast_u32 v = nat (v mod 4294967296)"

lemma cast_i32_range: "- 2147483648 \<le> cast_i32 v \<and> cast_i32 v \<le> INT32_MAX"
proof -
  have "0 \<le> (v + 2147483648) mod 4294967296" "(v + 2147483648) mod 4294967296 < 4294967296"
    by simp_all
  then show ?thesis unfolding cast_i32_def INT32_MAX_def by linarith
qed

lemma cast_i32_id:
  "- 2147483648 \<le> v \<Longrightarrow> v \<le> INT32_MAX \<Longrightarrow> cast_i32 v = v"
  by (simp add: cast_i32_def INT32_MAX_def)

subsection \<open>Words\<close>

lemma unat_u64_less: "unat (w :: u64) < 18446744073709551616"
  using unsigned_less [of w, where ?'a = nat] by simp

lemma unat_u32_less: "unat (w :: u32) < 4294967296"
  using unsigned_less [of w, where ?'a = nat] by simp

lemma unat_ucast_u32_u64 [simp]: "unat (ucast (w :: u32) :: u64) = unat w"
  using unat_u32_less [of w] by (simp add: unsigned_ucast_eq take_bit_nat_eq_self)

lemma unat_of_nat_u64: "n < 2 ^ 64 \<Longrightarrow> unat (of_nat n :: u64) = n"
  by (simp add: unsigned_of_nat take_bit_nat_eq_self)

lemma unat_of_nat_u32: "n < 2 ^ 32 \<Longrightarrow> unat (of_nat n :: u32) = n"
  by (simp add: unsigned_of_nat take_bit_nat_eq_self)

text \<open>A word is its low byte and the rest shifted by one byte.\<close>

lemma u64_low_byte: "push_bit 8 (drop_bit 8 w) OR ucast (ucast w :: byte) = (w :: u64)"
  by (rule bit_word_eqI) (auto simp: bit_simps)

subsection \<open>binary32 values under the comparisons of C\<close>

text \<open>
  A \<open>float\<close> as the code observes it: a NaN, an infinity or a finite value. The two zeros
  compare equal in C, so one value stands for both.
\<close>

datatype f32 = F32_NaN | F32_NInf | F32 rat | F32_PInf

fun f32_lt :: "f32 \<Rightarrow> f32 \<Rightarrow> bool" where
  "f32_lt F32_NaN _ = False"
| "f32_lt _ F32_NaN = False"
| "f32_lt F32_NInf F32_NInf = False"
| "f32_lt F32_NInf _ = True"
| "f32_lt _ F32_NInf = False"
| "f32_lt F32_PInf _ = False"
| "f32_lt (F32 _) F32_PInf = True"
| "f32_lt (F32 a) (F32 b) = (a < b)"

fun f32_eq :: "f32 \<Rightarrow> f32 \<Rightarrow> bool" where
  "f32_eq F32_NaN _ = False"
| "f32_eq _ F32_NaN = False"
| "f32_eq a b = (a = b)"

definition f32_gt :: "f32 \<Rightarrow> f32 \<Rightarrow> bool" where
  "f32_gt a b = f32_lt b a"

definition f32_ge :: "f32 \<Rightarrow> f32 \<Rightarrow> bool" where
  "f32_ge a b = (f32_lt b a \<or> f32_eq a b)"

definition f32_is_nan :: "f32 \<Rightarrow> bool" where
  "f32_is_nan a = (\<not> f32_eq a a)"

lemma f32_is_nan_iff [simp]: "f32_is_nan a \<longleftrightarrow> a = F32_NaN"
  by (cases a) (auto simp: f32_is_nan_def)

lemma f32_lt_irrefl [simp]: "\<not> f32_lt a a"
  by (cases a) auto

lemma f32_lt_trans: "f32_lt a b \<Longrightarrow> f32_lt b c \<Longrightarrow> f32_lt a c"
  by (cases a; cases b; cases c) auto

lemma f32_lt_linear:
  "a \<noteq> F32_NaN \<Longrightarrow> b \<noteq> F32_NaN \<Longrightarrow> f32_lt a b \<or> a = b \<or> f32_lt b a"
  by (cases a; cases b) auto

lemma f32_not_lt_trans:
  assumes "b \<noteq> F32_NaN" "\<not> f32_lt b a" "f32_lt b c"
  shows "f32_lt a c \<or> a = F32_NaN"
  using assms by (cases a; cases b; cases c) auto

subsection \<open>Lists\<close>

lemma foldl_take_Suc:
  "k < length xs \<Longrightarrow> foldl f a (take (Suc k) xs) = f (foldl f a (take k xs)) (xs ! k)"
  by (simp add: take_Suc_conv_app_nth)

lemma nth_take_drop:
  "i < n \<Longrightarrow> k + i < length xs \<Longrightarrow> take n (drop k xs) ! i = xs ! (k + i)"
  by simp

end
