(* ===== verification/Mtp_Rollback.thy ===== *)
theory Mtp_Rollback
  imports Prelude
begin

text \<open>
  The rollback contract of \<open>ds4_qwen4exp_mtp.c\<close>: the seven carried state objects of a
  qwen4exp session, the class each must register as, registration with its refusals, the
  completeness check, and the two sweeps a rejecting round runs over the set.

  The objects live in the session, which is a type parameter \<open>'m\<close>. A callback takes the
  session and its argument and returns the session and whether it succeeded (C's return
  value 0). A null function pointer is \<open>None\<close>.
\<close>

subsection \<open>Constants\<close>

definition IMPLEMENTED_DEPTH :: nat where "IMPLEMENTED_DEPTH = 6"
definition MTP_MAX_COMMIT :: nat where "MTP_MAX_COMMIT = IMPLEMENTED_DEPTH + 1"
definition MTP_HC_ROWS :: nat where "MTP_HC_ROWS = MTP_MAX_COMMIT + 2"

lemmas mtp_consts = IMPLEMENTED_DEPTH_def MTP_MAX_COMMIT_def MTP_HC_ROWS_def

datatype rollback_kind = ROLLBACK_SELECT_ROW | ROLLBACK_TRUNCATE

definition STATE_GDN_RECURRENT :: int where "STATE_GDN_RECURRENT = 0"
definition STATE_GDN_CONV :: int where "STATE_GDN_CONV = 1"
definition STATE_QSA_KV :: int where "STATE_QSA_KV = 2"
definition STATE_QSA_INDEXER_TAPE :: int where "STATE_QSA_INDEXER_TAPE = 3"
definition STATE_PLE_HISTORY :: int where "STATE_PLE_HISTORY = 4"
definition STATE_PLE_CONV :: int where "STATE_PLE_CONV = 5"
definition STATE_MTP_HEAD_CACHE :: int where "STATE_MTP_HEAD_CACHE = 6"
definition STATE_COUNT :: int where "STATE_COUNT = 7"

lemmas state_ids = STATE_GDN_RECURRENT_def STATE_GDN_CONV_def STATE_QSA_KV_def
  STATE_QSA_INDEXER_TAPE_def STATE_PLE_HISTORY_def STATE_PLE_CONV_def
  STATE_MTP_HEAD_CACHE_def STATE_COUNT_def

definition state_kind :: "int \<Rightarrow> rollback_kind" where
  "state_kind sid =
     (if sid = STATE_GDN_RECURRENT \<or> sid = STATE_GDN_CONV \<or>
         sid = STATE_PLE_HISTORY \<or> sid = STATE_PLE_CONV
      then ROLLBACK_SELECT_ROW else ROLLBACK_TRUNCATE)"

definition state_name :: "int \<Rightarrow> string" where
  "state_name sid =
     (if sid = STATE_GDN_RECURRENT then ''gdn recurrent state''
      else if sid = STATE_GDN_CONV then ''gdn conv history''
      else if sid = STATE_QSA_KV then ''qsa kv cache''
      else if sid = STATE_QSA_INDEXER_TAPE then ''qsa indexer tape''
      else if sid = STATE_PLE_HISTORY then ''ple n-gram history''
      else if sid = STATE_PLE_CONV then ''ple conv state''
      else if sid = STATE_MTP_HEAD_CACHE then ''mtp head cache''
      else ''unknown state'')"

subsection \<open>Objects, sets and refusals\<close>

type_synonym 'm rb_call = "'m \<Rightarrow> nat \<Rightarrow> 'm \<times> bool"

record 'm rollback_object =
  select_row :: "'m rb_call option"
  truncate_to :: "'m rb_call option"

record 'm rollback_set =
  obj :: "'m rollback_object list"
  registered :: "bool list"

text \<open>The named refusals of the cycle and its set-up, one constructor per message.\<close>

datatype mtp_error =
    Draft_Tokens_Below_One int
  | Depth_Not_Implemented int
  | Yield_Guard_Armed string
  | State_Id_Out_Of_Range int
  | Select_Row_Missing string
  | Truncate_On_Select_Row string
  | Truncate_Missing string
  | Select_Row_On_Truncate string
  | Not_Registered string
  | Select_Row_Failed string nat
  | Truncate_Failed string nat
  | No_Rollback_Set
  | Widths_Not_Positive nat nat
  | Out_Of_Memory
  | Counters_Empty_Round nat
  | Counters_Rounds nat nat
  | Counters_Committed nat nat
  | Counters_Drafted nat nat
  | Counters_Accepted nat nat
  | Counters_Disagreements nat nat
  | Counters_Commit_Sum nat nat nat
  | Counters_Quenched nat
  | State_Not_Initialised
  | No_Logit_Buffer
  | No_Room_For_Fed_Token int int
  | Width_Mismatch nat nat nat nat
  | Decode_Failed token nat
  | Verify_Failed nat nat
  | Logit_Row_Read_Failed nat
  | Head_Forward_Failed nat nat
  | Head_Seed_Failed token nat
  | Draft_Step_Failed nat token nat

definition null_object :: "'m rollback_object" where
  "null_object = \<lparr>select_row = None, truncate_to = None\<rparr>"

definition rollback_init :: "'m rollback_set" where
  "rollback_init = \<lparr>obj = replicate 7 null_object, registered = replicate 7 False\<rparr>"

definition rollback_register ::
  "'m rollback_set \<Rightarrow> int \<Rightarrow> 'm rollback_object \<Rightarrow> (mtp_error, 'm rollback_set) result" where
  "rollback_register S sid ob =
     (if sid < 0 \<or> sid \<ge> STATE_COUNT then Inl (State_Id_Out_Of_Range sid)
      else if state_kind sid = ROLLBACK_SELECT_ROW \<and> select_row ob = None
        then Inl (Select_Row_Missing (state_name sid))
      else if state_kind sid = ROLLBACK_SELECT_ROW \<and> truncate_to ob \<noteq> None
        then Inl (Truncate_On_Select_Row (state_name sid))
      else if state_kind sid \<noteq> ROLLBACK_SELECT_ROW \<and> truncate_to ob = None
        then Inl (Truncate_Missing (state_name sid))
      else if state_kind sid \<noteq> ROLLBACK_SELECT_ROW \<and> select_row ob \<noteq> None
        then Inl (Select_Row_On_Truncate (state_name sid))
      else Inr (S\<lparr>obj := (obj S)[nat sid := ob],
                    registered := (registered S)[nat sid := True]\<rparr>))"

primrec rollback_check_from :: "nat \<Rightarrow> bool list \<Rightarrow> mtp_error option" where
  "rollback_check_from i [] = None"
| "rollback_check_from i (r # rs) =
     (if \<not> r then Some (Not_Registered (state_name (int i))) else rollback_check_from (Suc i) rs)"

definition rollback_check :: "'m rollback_set \<Rightarrow> mtp_error option" where
  "rollback_check S = rollback_check_from 0 (registered S)"

subsection \<open>The two sweeps\<close>

text \<open>
  Both sweeps walk the objects in registration order, skip the ones without the entry point
  and stop at the first that reports failure.
\<close>

primrec rb_sweep ::
  "('m rollback_object \<Rightarrow> 'm rb_call option) \<Rightarrow> (string \<Rightarrow> nat \<Rightarrow> mtp_error) \<Rightarrow> nat \<Rightarrow>
     'm rollback_object list \<Rightarrow> 'm \<Rightarrow> nat \<Rightarrow> 'm \<times> mtp_error option" where
  "rb_sweep entry err i [] m x = (m, None)"
| "rb_sweep entry err i (ob # obs) m x =
     (case entry ob of
        None \<Rightarrow> rb_sweep entry err (Suc i) obs m x
      | Some f \<Rightarrow>
          (case f m x of
             (m', ok) \<Rightarrow>
               if \<not> ok then (m', Some (err (state_name (int i)) x))
               else rb_sweep entry err (Suc i) obs m' x))"

definition rollback_select_row :: "'m rollback_set \<Rightarrow> 'm \<Rightarrow> nat \<Rightarrow> 'm \<times> mtp_error option" where
  "rollback_select_row S m row = rb_sweep select_row Select_Row_Failed 0 (obj S) m row"

definition rollback_truncate_all :: "'m rollback_set \<Rightarrow> 'm \<Rightarrow> nat \<Rightarrow> 'm \<times> mtp_error option" where
  "rollback_truncate_all S m pos = rb_sweep truncate_to Truncate_Failed 0 (obj S) m pos"

definition mtp_head_cache_truncate ::
  "'m rollback_set \<Rightarrow> 'm \<Rightarrow> nat \<Rightarrow> 'm \<times> mtp_error option" where
  "mtp_head_cache_truncate S m pos =
     (case truncate_to (obj S ! nat STATE_MTP_HEAD_CACHE) of
        None \<Rightarrow> (m, None)
      | Some f \<Rightarrow>
          (case f m pos of
             (m', ok) \<Rightarrow>
               if \<not> ok then (m', Some (Truncate_Failed (state_name STATE_MTP_HEAD_CACHE) pos))
               else (m', None)))"

subsection \<open>What a complete set guarantees\<close>

text \<open>
  Every registered slot holds an object with exactly the entry point its class requires, and
  every unregistered slot is null.
\<close>

definition rollback_wf :: "'m rollback_set \<Rightarrow> bool" where
  "rollback_wf S \<longleftrightarrow>
     length (obj S) = 7 \<and> length (registered S) = 7 \<and>
     (\<forall>i < 7. if registered S ! i
        then (if state_kind (int i) = ROLLBACK_SELECT_ROW
              then select_row (obj S ! i) \<noteq> None \<and> truncate_to (obj S ! i) = None
              else select_row (obj S ! i) = None \<and> truncate_to (obj S ! i) \<noteq> None)
        else obj S ! i = null_object)"

lemma rollback_init_wf [wf_intros]: "rollback_wf rollback_init"
  by (simp add: rollback_wf_def rollback_init_def)

lemma rollback_register_wf [wf_intros]:
  assumes "rollback_wf S" "rollback_register S sid ob = Inr S'"
  shows "rollback_wf S'"
proof -
  have sid: "0 \<le> sid" "sid < 7" and S': "S' = S\<lparr>obj := (obj S)[nat sid := ob],
      registered := (registered S)[nat sid := True]\<rparr>"
    using assms(2) by (auto simp: rollback_register_def state_ids split: if_splits)
  have ok: "if state_kind sid = ROLLBACK_SELECT_ROW
      then select_row ob \<noteq> None \<and> truncate_to ob = None
      else select_row ob = None \<and> truncate_to ob \<noteq> None"
    using assms(2) by (auto simp: rollback_register_def split: if_splits)
  show ?thesis
    using assms(1) sid ok unfolding S' rollback_wf_def
    by (auto simp: nth_list_update)
qed

lemma rollback_check_from_None: "rollback_check_from i rs = None \<longleftrightarrow> (\<forall>r \<in> set rs. r)"
  by (induction rs arbitrary: i) auto

lemma rollback_check_None:
  "rollback_check s = None \<longleftrightarrow> (\<forall>i < length (registered s). registered s ! i)"
  by (auto simp: rollback_check_def rollback_check_from_None all_set_conv_all_nth)

text \<open>The refusal names the first missing object.\<close>

lemma rollback_check_from_Some:
  "rollback_check_from k rs = Some e \<Longrightarrow>
     \<exists>i < length rs. \<not> rs ! i \<and> (\<forall>j < i. rs ! j) \<and> e = Not_Registered (state_name (int (k + i)))"
proof (induction rs arbitrary: k)
  case (Cons r rs)
  show ?case
  proof (cases r)
    case True
    with Cons obtain i where i: "i < length rs" "\<not> rs ! i" "\<forall>j < i. rs ! j"
        "e = Not_Registered (state_name (int (Suc k + i)))"
      by fastforce
    then show ?thesis using True by (intro exI [of _ "Suc i"]) (auto simp: less_Suc_eq_0_disj)
  next
    case False
    with Cons.prems show ?thesis by auto
  qed
qed simp

definition rollback_complete :: "'m rollback_set \<Rightarrow> bool" where
  "rollback_complete S \<longleftrightarrow> rollback_wf S \<and> rollback_check S = None"

lemma rollback_complete_objs:
  assumes "rollback_complete s" "i < 7"
  shows "if state_kind (int i) = ROLLBACK_SELECT_ROW
         then select_row (obj s ! i) \<noteq> None \<and> truncate_to (obj s ! i) = None
         else select_row (obj s ! i) = None \<and> truncate_to (obj s ! i) \<noteq> None"
  using assms unfolding rollback_complete_def rollback_wf_def rollback_check_None by auto

lemma rollback_complete_length: "rollback_complete s \<Longrightarrow> length (obj s) = 7"
  by (simp add: rollback_complete_def rollback_wf_def)

text \<open>
  The invariant rule of a sweep: \<open>P i m\<close> says what holds when it stands before object \<open>i\<close>.
\<close>

lemma rb_sweep_rule:
  assumes "rb_sweep entry err i obs m x = (m', None)" "P i m"
    and "\<And>j f s s'. i \<le> j \<Longrightarrow> j < i + length obs \<Longrightarrow> P j s \<Longrightarrow>
           entry (obs ! (j - i)) = Some f \<Longrightarrow> f s x = (s', True) \<Longrightarrow> P (Suc j) s'"
    and "\<And>j s. i \<le> j \<Longrightarrow> j < i + length obs \<Longrightarrow> P j s \<Longrightarrow>
           entry (obs ! (j - i)) = None \<Longrightarrow> P (Suc j) s"
  shows "P (i + length obs) m'"
  using assms
proof (induction obs arbitrary: i m)
  case Nil
  then show ?case by simp
next
  case (Cons ob obs)
  have rest: "P (Suc i + length obs) m'"
    if "rb_sweep entry err (Suc i) obs s x = (m', None)" "P (Suc i) s" for s
  proof (rule Cons.IH [OF that])
    fix j f s s'
    assume "Suc i \<le> j" "j < Suc i + length obs" "P j s"
      "entry (obs ! (j - Suc i)) = Some f" "f s x = (s', True)"
    then show "P (Suc j) s'"
      using Cons.prems(3) [of j s f s'] by (simp add: nth_Cons' Suc_diff_le)
  next
    fix j s
    assume "Suc i \<le> j" "j < Suc i + length obs" "P j s" "entry (obs ! (j - Suc i)) = None"
    then show "P (Suc j) s"
      using Cons.prems(4) [of j s] by (simp add: nth_Cons' Suc_diff_le)
  qed
  show ?case
  proof (cases "entry ob")
    case None
    then show ?thesis using Cons.prems(1,2) Cons.prems(4) [of i m] rest by simp
  next
    case (Some f)
    then obtain s' where "f m x = (s', True)" "rb_sweep entry err (Suc i) obs s' x = (m', None)"
      using Cons.prems(1) by (auto split: prod.splits if_splits)
    then show ?thesis using Cons.prems(2) Cons.prems(3) [of i m f s'] rest Some by simp
  qed
qed

text \<open>With entry points that succeed, a sweep reports no refusal.\<close>

lemma rb_sweep_ok:
  assumes "I m" "\<And>ob f s. ob \<in> set obs \<Longrightarrow> entry ob = Some f \<Longrightarrow> I s \<Longrightarrow>
             snd (f s x) \<and> I (fst (f s x))"
  shows "snd (rb_sweep entry err i obs m x) = None"
  using assms
proof (induction obs arbitrary: i m)
  case (Cons ob obs)
  have IH: "snd (rb_sweep entry err j obs s x) = None" if "I s" for j s
    using that Cons.IH Cons.prems(2) by (meson list.set_intros(2))
  show ?case
  proof (cases "entry ob")
    case None
    then show ?thesis using IH [OF Cons.prems(1)] by simp
  next
    case (Some f)
    then have "snd (f m x) \<and> I (fst (f m x))"
      using Cons.prems(1) Cons.prems(2) [of ob f m] by simp
    then show ?thesis using Some IH by (simp add: split_beta)
  qed
qed simp

end
