(* ===== verification/Mtp_Cycle.thy ===== *)
theory Mtp_Cycle
  imports Mtp_Rollback
begin

text \<open>
  The speculative cycle of \<open>ds4_qwen4exp_mtp.c\<close>: greedy argmax, the depth envelope, the
  cycle's state and counters, the draft chain and \<open>ds4_qwen4exp_mtp_cycle\<close> itself.

  The model seam is a record of callbacks over the session \<open>'m\<close>, as the C struct of function
  pointers; \<open>'h\<close> is one hyper-connection row (\<open>hc_dim\<close> floats). A callback returns the
  session and \<open>None\<close> when it reports failure. The row scratch is the code's block of
  \<open>MTP_HC_ROWS\<close> rows, addressed by row index, so that a row read and a row written in the
  same call can be told apart. A \<open>multi\<close> row that the code drops by passing a null pointer
  is dropped by the model.

  Not modelled: the wall-clock counters \<open>verify_ns\<close>, \<open>draft_ns\<close>, \<open>rollback_ns\<close> and the
  \<open>margin_log\<close> line on stderr, neither of which any decision reads. Positions and counters
  are \<open>nat\<close>: the context bounds the first far below \<open>2 ^ 32\<close> and \<open>2 ^ 64\<close> rounds are out of
  reach.
\<close>

subsection \<open>Greedy argmax\<close>

primrec argmax_from :: "nat \<Rightarrow> nat \<Rightarrow> f32 \<Rightarrow> f32 list \<Rightarrow> nat" where
  "argmax_from i best bv [] = best"
| "argmax_from i best bv (v # vs) =
     (if f32_gt v bv then argmax_from (Suc i) i v vs else argmax_from (Suc i) best bv vs)"

definition mtp_argmax :: "f32 list \<Rightarrow> nat \<Rightarrow> int" where
  "mtp_argmax logits n_vocab =
     int (argmax_from 1 0 (logits ! 0) (drop 1 (take n_vocab logits)))"

subsection \<open>The depth envelope\<close>

definition mtp_depth_from_draft_tokens :: "int \<Rightarrow> (mtp_error, nat) result" where
  "mtp_depth_from_draft_tokens draft_tokens =
     (if draft_tokens < 1 then Inl (Draft_Tokens_Below_One draft_tokens)
      else if draft_tokens - 1 > int IMPLEMENTED_DEPTH
        then Inl (Depth_Not_Implemented (draft_tokens - 1))
      else Inr (nat (draft_tokens - 1)))"

text \<open>The environment is a function from names to values.\<close>

type_synonym environ = "string \<Rightarrow> string option"

definition mtp_check_no_yield_guard :: "environ \<Rightarrow> mtp_error option" where
  "mtp_check_no_yield_guard env =
     (case env ''DS4_QWEN_MTP_QUENCH'' of
        None \<Rightarrow> None
      | Some raw \<Rightarrow> if raw \<noteq> [] \<and> raw \<noteq> ''0'' then Some (Yield_Guard_Armed raw) else None)"

subsection \<open>The model seam\<close>

record ('m, 'h) mtp_model =
  seam_hc_dim :: nat
  seam_n_vocab :: nat
  verify_rows :: "'m \<Rightarrow> token list \<Rightarrow> nat \<Rightarrow> 'm \<times> ('h list \<times> f32 list list) option"
  verify_rows_top1 :: "('m \<Rightarrow> token list \<Rightarrow> nat \<Rightarrow> 'm \<times> ('h list \<times> int list) option) option"
  read_logit_row :: "('m \<Rightarrow> nat \<Rightarrow> 'm \<times> f32 list option) option"
  defer_frontier_logits :: bool
  decode_token :: "'m \<Rightarrow> token \<Rightarrow> nat \<Rightarrow> 'm \<times> ('h \<times> f32 list) option"
  draft_step :: "'m \<Rightarrow> token \<Rightarrow> 'h \<Rightarrow> nat \<Rightarrow> 'm \<times> (token \<times> 'h) option"
  draft_rows :: "('m \<Rightarrow> token list \<Rightarrow> 'h list \<Rightarrow> nat \<Rightarrow> 'm \<times> (token \<times> 'h) option) option"
  draft_margin :: "('m \<Rightarrow> f32) option"

subsection \<open>Counters and state\<close>

record mtp_counters =
  rounds :: nat
  drafted :: nat
  accepted :: nat
  committed :: nat
  quenches :: nat
  verify_replay_disagreements :: nat
  commit_hist :: "nat list"

definition counters_zero :: mtp_counters where
  "counters_zero = \<lparr>rounds = 0, drafted = 0, accepted = 0, committed = 0, quenches = 0,
     verify_replay_disagreements = 0, commit_hist = replicate (MTP_MAX_COMMIT + 1) 0\<rparr>"

record ('m, 'h) mtp_state =
  rollback :: "'m rollback_set"
  depth :: nat
  pending :: "token list"
  n_pending :: nat
  pending_parent :: token
  pending_margin :: "f32 list"
  stop_margin :: f32
  drop_margin :: f32
  drop_keep :: nat
  head_rows :: nat
  hc_scratch :: "'h list option"
  logits_rows :: "f32 list list option"
  hc_dim :: nat
  n_vocab :: nat
  frontier_top1 :: int
  frontier_row :: nat
  frontier_top1_valid :: bool
  frontier_logits_deferred :: bool
  counters :: mtp_counters

definition mtp_invalidate :: "('m, 'h) mtp_state \<Rightarrow> ('m, 'h) mtp_state" where
  "mtp_invalidate st = st\<lparr>
     pending := replicate IMPLEMENTED_DEPTH (- 1),
     pending_margin := replicate IMPLEMENTED_DEPTH (F32 (- 1)),
     n_pending := 0, pending_parent := - 1,
     frontier_top1_valid := False, frontier_logits_deferred := False\<rparr>"

text \<open>
  \<open>mtp_env_margin\<close>: a non-negative float from the environment or the fallback. \<open>strtof\<close> is
  the C library's: the value and the number of characters it consumed.
\<close>

definition mtp_env_margin ::
  "(string \<Rightarrow> f32 \<times> nat) \<Rightarrow> environ \<Rightarrow> string \<Rightarrow> f32 \<Rightarrow> f32" where
  "mtp_env_margin strtof env name fallback =
     (case env name of
        None \<Rightarrow> fallback
      | Some v \<Rightarrow>
          if v = [] then fallback
          else (case strtof v of (x, used) \<Rightarrow>
            if used \<noteq> 0 \<and> f32_ge x (F32 0) then x else fallback))"

text \<open>
  \<open>mtp_state_init\<close>: \<open>alloc\<close> and \<open>alloc_l\<close> are what the two \<open>malloc\<close> calls return, their
  contents arbitrary; \<open>atoi\<close> is the C library's.
\<close>

definition mtp_state_init ::
  "(string \<Rightarrow> f32 \<times> nat) \<Rightarrow> (string \<Rightarrow> int) \<Rightarrow> environ \<Rightarrow> 'h list option \<Rightarrow>
     f32 list list option \<Rightarrow> int \<Rightarrow> 'm rollback_set option \<Rightarrow> nat \<Rightarrow> nat \<Rightarrow>
     (mtp_error, ('m, 'h) mtp_state) result" where
  "mtp_state_init strtof atoi env alloc alloc_l dep rb hc nv =
     (case rb of
        None \<Rightarrow> Inl No_Rollback_Set
      | Some S \<Rightarrow>
          (case rollback_check S of
             Some e \<Rightarrow> Inl e
           | None \<Rightarrow>
               if dep < 0 \<or> dep > int IMPLEMENTED_DEPTH then Inl (Depth_Not_Implemented dep)
               else if hc = 0 \<or> nv = 0 then Inl (Widths_Not_Positive hc nv)
               else
                 let gated = dep \<ge> 2;
                     keep = (case env ''DS4_QWEN4EXP_MTP_DROP_KEEP'' of
                               Some k \<Rightarrow> if k \<noteq> [] then atoi k else (if gated then 1 else 0)
                             | None \<Rightarrow> (if gated then 1 else 0));
                     st = mtp_invalidate \<lparr>
                       rollback = S, depth = nat dep, pending = [], n_pending = 0,
                       pending_parent = 0, pending_margin = [],
                       stop_margin = mtp_env_margin strtof env ''DS4_QWEN4EXP_MTP_STOP_MARGIN''
                         (if gated then F32 2 else F32 0),
                       drop_margin = mtp_env_margin strtof env ''DS4_QWEN4EXP_MTP_DROP_MARGIN''
                         (if gated then F32 2 else F32 0),
                       drop_keep = (if keep < 0 then 0 else nat keep),
                       head_rows = 0, hc_scratch = alloc, logits_rows = alloc_l,
                       hc_dim = hc, n_vocab = nv, frontier_top1 = 0, frontier_row = 0,
                       frontier_top1_valid = False, frontier_logits_deferred = False,
                       counters = counters_zero\<rparr>
                 in if alloc = None \<or> alloc_l = None then Inl Out_Of_Memory else Inr st))"

definition hist_sum :: "nat list \<Rightarrow> nat" where
  "hist_sum h = sum_list (map (\<lambda>i. h ! i) [1..<MTP_MAX_COMMIT + 1])"

definition hist_weighted :: "nat list \<Rightarrow> nat" where
  "hist_weighted h = sum_list (map (\<lambda>i. h ! i * i) [1..<MTP_MAX_COMMIT + 1])"

definition mtp_counters_check :: "mtp_counters \<Rightarrow> mtp_error option" where
  "mtp_counters_check c =
     (if commit_hist c ! 0 \<noteq> 0 then Some (Counters_Empty_Round (commit_hist c ! 0))
      else if hist_sum (commit_hist c) \<noteq> rounds c
        then Some (Counters_Rounds (hist_sum (commit_hist c)) (rounds c))
      else if hist_weighted (commit_hist c) \<noteq> committed c
        then Some (Counters_Committed (hist_weighted (commit_hist c)) (committed c))
      else if drafted c > rounds c * IMPLEMENTED_DEPTH
        then Some (Counters_Drafted (drafted c) (rounds c))
      else if accepted c > drafted c then Some (Counters_Accepted (accepted c) (drafted c))
      else if verify_replay_disagreements c > drafted c - accepted c
        then Some (Counters_Disagreements (verify_replay_disagreements c) (drafted c - accepted c))
      else if committed c \<noteq> rounds c + accepted c
        then Some (Counters_Commit_Sum (rounds c) (accepted c) (committed c))
      else if quenches c \<noteq> 0 then Some (Counters_Quenched (quenches c))
      else None)"

definition count_commit :: "nat \<Rightarrow> mtp_counters \<Rightarrow> mtp_counters" where
  "count_commit n c = c\<lparr>committed := committed c + n,
     commit_hist := (commit_hist c)[n := Suc (commit_hist c ! n)]\<rparr>"

subsection \<open>The draft chain\<close>

definition margin_of :: "('m, 'h) mtp_model \<Rightarrow> 'm \<Rightarrow> f32" where
  "margin_of model m = (case draft_margin model of Some g \<Rightarrow> g m | None \<Rightarrow> F32 (- 1))"

definition PING :: nat where "PING = MTP_MAX_COMMIT"

text \<open>Record draft \<open>k\<close> of the chain and the head row it wrote.\<close>

definition put_draft ::
  "nat \<Rightarrow> token \<Rightarrow> f32 \<Rightarrow> nat \<Rightarrow> ('m, 'h) mtp_state \<Rightarrow> ('m, 'h) mtp_state" where
  "put_draft k d mg rows st = st\<lparr>pending := (pending st)[k := d],
     pending_margin := (pending_margin st)[k := mg], n_pending := Suc k, head_rows := rows\<rparr>"

definition put_row :: "nat \<Rightarrow> 'h \<Rightarrow> ('m, 'h) mtp_state \<Rightarrow> ('m, 'h) mtp_state" where
  "put_row i h st = st\<lparr>hc_scratch := map_option (\<lambda>xs. xs[i := h]) (hc_scratch st)\<rparr>"

definition get_row :: "('m, 'h) mtp_state \<Rightarrow> nat \<Rightarrow> 'h" where
  "get_row st i = the (hc_scratch st) ! i"

definition chain_gate :: "('m, 'h) mtp_state \<Rightarrow> nat \<Rightarrow> bool" where
  "chain_gate st k \<longleftrightarrow>
     k > 0 \<and> f32_gt (stop_margin st) (F32 0) \<and>
     f32_ge (pending_margin st ! (k - 1)) (F32 0) \<and>
     f32_lt (pending_margin st ! (k - 1)) (stop_margin st)"

text \<open>
  The chain's loop from step \<open>k\<close>: \<open>cur\<close> is the scratch row the step reads, and the row the
  step writes (\<open>PING\<close> or the one after it, by the parity of \<open>k\<close>) is the next step's \<open>cur\<close>.
\<close>

function mtp_chain_loop ::
  "('m, 'h) mtp_model \<Rightarrow> ('m, 'h) mtp_state \<Rightarrow> 'm \<Rightarrow> nat \<Rightarrow> token \<Rightarrow> nat \<Rightarrow> nat \<Rightarrow>
     ('m, 'h) mtp_state \<times> 'm \<times> mtp_error option" where
  "mtp_chain_loop model st m k cur_tok cur p =
     (if \<not> k < depth st \<or> chain_gate st k then (st, m, None)
      else
        (case draft_step model m cur_tok (get_row st cur) p of
           (m', None) \<Rightarrow> (st, m', Some (Draft_Step_Failed k cur_tok p))
         | (m', Some (draft, multi)) \<Rightarrow>
             let out = PING + k mod 2;
                 st1 = (if k + 1 < depth st then put_row out multi st else st);
                 st2 = put_draft k draft (margin_of model m') (p + 1) st1
             in mtp_chain_loop model st2 m' (Suc k) draft out (p + 1)))"
  by pat_completeness auto
termination
  by (relation "measure (\<lambda>(model, st, m, k, cur_tok, cur, p). depth st - k)")
     (auto simp: put_row_def put_draft_def)

text \<open>The seed rows through \<open>draft_step\<close>, one call per row, for \<open>j0 \<le> j < start\<close>.\<close>

primrec mtp_seed_loop ::
  "('m, 'h) mtp_model \<Rightarrow> ('m, 'h) mtp_state \<Rightarrow> token list \<Rightarrow> nat \<Rightarrow> nat list \<Rightarrow> 'm \<Rightarrow>
     'm \<times> mtp_error option" where
  "mtp_seed_loop model st toks pos [] m = (m, None)"
| "mtp_seed_loop model st toks pos (j # js) m =
     (case draft_step model m (toks ! (j - pos + 1)) (get_row st (j - pos)) j of
        (m', None) \<Rightarrow> (m', Some (Head_Seed_Failed (toks ! (j - pos + 1)) j))
      | (m', Some _) \<Rightarrow> mtp_seed_loop model st toks pos js m')"

text \<open>Where the chain starts: the seeded state, the session and step \<open>k\<close>'s inputs.\<close>

definition mtp_chain_start ::
  "('m, 'h) mtp_model \<Rightarrow> ('m, 'h) mtp_state \<Rightarrow> 'm \<Rightarrow> token list \<Rightarrow> nat \<Rightarrow> nat \<Rightarrow> token \<Rightarrow>
     ('m, 'h) mtp_state \<times> 'm \<times> (mtp_error, nat \<times> token \<times> nat \<times> nat) result" where
  "mtp_chain_start model st m toks n pos next_fed =
     (let start = pos + n;
          j0 = (if head_rows st < pos then pos else head_rows st)
      in case draft_rows model of
           Some dr \<Rightarrow>
             (let k0 = j0 - pos; seeds = start - j0;
                  rows_tok = map (\<lambda>i. toks ! (k0 + i + 1)) [0..<seeds] @ [next_fed]
              in case dr m rows_tok (take (seeds + 1) (drop k0 (the (hc_scratch st)))) j0 of
                   (m', None) \<Rightarrow> (st, m', Inl (Head_Forward_Failed (seeds + 1) j0))
                 | (m', Some (draft, multi)) \<Rightarrow>
                     let st1 = (if 1 < depth st then put_row PING multi st else st)
                     in (put_draft 0 draft (margin_of model m') (start + 1) st1, m',
                         Inr (1, draft, PING, start + 1)))
         | None \<Rightarrow>
             (case mtp_seed_loop model st toks pos [j0..<start] m of
                (m', Some e) \<Rightarrow> (st, m', Inl e)
              | (m', None) \<Rightarrow>
                  (st\<lparr>head_rows := start\<rparr>, m', Inr (0, next_fed, n, start))))"

definition mtp_draft_chain ::
  "('m, 'h) mtp_model \<Rightarrow> ('m, 'h) mtp_state \<Rightarrow> 'm \<Rightarrow> token list \<Rightarrow> nat \<Rightarrow> nat \<Rightarrow> token \<Rightarrow>
     ('m, 'h) mtp_state \<times> 'm \<times> mtp_error option" where
  "mtp_draft_chain model st0 m0 toks n pos next_fed =
     (let st1 = mtp_invalidate st0; start = pos + n
      in case mtp_head_cache_truncate (rollback st1) m0 start of
           (m1, Some e) \<Rightarrow> (st1, m1, Some e)
         | (m1, None) \<Rightarrow>
             let st2 = (if head_rows st1 > start then st1\<lparr>head_rows := start\<rparr> else st1)
             in if depth st2 < 1 then (st2, m1, None)
                else case mtp_chain_start model st2 m1 toks n pos next_fed of
                       (st3, m2, Inl e) \<Rightarrow> (st3, m2, Some e)
                     | (st3, m2, Inr (k, tok, cur, p)) \<Rightarrow>
                         (case mtp_chain_loop model st3 m2 k tok cur p of
                            (st4, m3, Some e) \<Rightarrow> (st4, m3, Some e)
                          | (st4, m3, None) \<Rightarrow> (st4\<lparr>pending_parent := next_fed\<rparr>, m3, None)))"

subsection \<open>The plain path\<close>

text \<open>
  A round returns the state, the session, the frontier logits it leaves and either the
  refusal or the committed tokens; the C return value is the length of the latter.
\<close>

type_synonym ('m, 'h) round = "('m, 'h) mtp_state \<times> 'm \<times> f32 list \<times> (mtp_error, token list) result"

definition mtp_commit_one ::
  "('m, 'h) mtp_model \<Rightarrow> ('m, 'h) mtp_state \<Rightarrow> 'm \<Rightarrow> token \<Rightarrow> nat \<Rightarrow> f32 list \<Rightarrow> ('m, 'h) round" where
  "mtp_commit_one model st m first_token pos logits =
     (case decode_token model m first_token pos of
        (m1, None) \<Rightarrow> (st, m1, logits, Inl (Decode_Failed first_token pos))
      | (m1, Some (hc0, lg)) \<Rightarrow>
          let st1 = put_row 0 hc0 st; nxt = mtp_argmax lg (seam_n_vocab model)
          in case mtp_draft_chain model st1 m1 [] 0 pos nxt of
               (st2, m2, Some e) \<Rightarrow> (st2, m2, lg, Inl e)
             | (st2, m2, None) \<Rightarrow>
                 (st2\<lparr>counters := count_commit 1 (counters st2)\<rparr>, m2, lg, Inr [first_token]))"

subsection \<open>The cycle\<close>

text \<open>How many carried drafts the round offers, then how many the margin gate keeps.\<close>

definition n_offered :: "('m, 'h) mtp_state \<Rightarrow> int \<Rightarrow> int \<Rightarrow> nat" where
  "n_offered st budget cap = min (n_pending st) (min (nat (budget - 1)) (nat (cap - 1)))"

primrec drop_unsure :: "f32 list \<Rightarrow> f32 \<Rightarrow> nat \<Rightarrow> nat \<Rightarrow> nat" where
  "drop_unsure mg dm keep 0 = 0"
| "drop_unsure mg dm keep (Suc n) =
     (if Suc n > keep \<and> f32_ge (mg ! n) (F32 0) \<and> f32_lt (mg ! n) dm
      then drop_unsure mg dm keep n else Suc n)"

definition n_verified :: "('m, 'h) mtp_state \<Rightarrow> int \<Rightarrow> int \<Rightarrow> nat" where
  "n_verified st budget cap =
     (if f32_gt (drop_margin st) (F32 0)
      then drop_unsure (pending_margin st) (drop_margin st) (drop_keep st) (n_offered st budget cap)
      else n_offered st budget cap)"

text \<open>
  The verify forward: the state with the rows and the row logits stored, and each row's
  winner. The compact seam is used when both its callbacks are present.
\<close>

definition compact_logits :: "('m, 'h) mtp_model \<Rightarrow> bool" where
  "compact_logits model \<longleftrightarrow> verify_rows_top1 model \<noteq> None \<and> read_logit_row model \<noteq> None"

definition put_rows :: "'h list \<Rightarrow> ('m, 'h) mtp_state \<Rightarrow> ('m, 'h) mtp_state" where
  "put_rows hs st =
     st\<lparr>hc_scratch := map_option (\<lambda>xs. hs @ drop (length hs) xs) (hc_scratch st)\<rparr>"

definition put_logit_rows :: "f32 list list \<Rightarrow> ('m, 'h) mtp_state \<Rightarrow> ('m, 'h) mtp_state" where
  "put_logit_rows ls st =
     st\<lparr>logits_rows := map_option (\<lambda>xs. ls @ drop (length ls) xs) (logits_rows st)\<rparr>"

definition mtp_verify ::
  "('m, 'h) mtp_model \<Rightarrow> ('m, 'h) mtp_state \<Rightarrow> 'm \<Rightarrow> token list \<Rightarrow> nat \<Rightarrow>
     ('m, 'h) mtp_state \<times> 'm \<times> int list option" where
  "mtp_verify model st m toks pos =
     (if compact_logits model then
        (case the (verify_rows_top1 model) m toks pos of
           (m1, None) \<Rightarrow> (st, m1, None)
         | (m1, Some (hs, top1)) \<Rightarrow> (put_rows hs st, m1, Some top1))
      else
        (case verify_rows model m toks pos of
           (m1, None) \<Rightarrow> (st, m1, None)
         | (m1, Some (hs, ls)) \<Rightarrow>
             (put_logit_rows ls (put_rows hs st), m1,
              Some (map (\<lambda>l. mtp_argmax l (n_vocab st)) ls))))"

text \<open>
  The accept scan: the number of drafts the target confirmed, and the token it chose at the
  first mismatch (\<open>-1\<close> when there is none). \<open>winners ! a\<close> is row \<open>a\<close>'s argmax.
\<close>

function accept_scan :: "int list \<Rightarrow> token list \<Rightarrow> nat \<Rightarrow> nat \<Rightarrow> nat \<times> int" where
  "accept_scan winners toks n a =
     (if a < n then
        (if winners ! a \<noteq> toks ! (a + 1) then (a, winners ! a)
         else accept_scan winners toks n (Suc a))
      else (a, - 1))"
  by pat_completeness auto
termination by (relation "measure (\<lambda>(winners, toks, n, a). n - a)") auto

text \<open>The frontier row's distribution: read back, copied, or left on the device.\<close>

definition mtp_frontier ::
  "('m, 'h) mtp_model \<Rightarrow> ('m, 'h) mtp_state \<Rightarrow> 'm \<Rightarrow> nat \<Rightarrow> int \<Rightarrow> f32 list \<Rightarrow>
     'm \<times> (mtp_error, f32 list \<times> bool) result" where
  "mtp_frontier model st m a top1 logits =
     (let defer = compact_logits model \<and> defer_frontier_logits model \<and>
                  top1 \<ge> 0 \<and> top1 < int (n_vocab st)
      in if compact_logits model then
           (if defer then (m, Inr (logits, True))
            else (case the (read_logit_row model) m a of
                    (m1, None) \<Rightarrow> (m1, Inl (Logit_Row_Read_Failed a))
                  | (m1, Some lg) \<Rightarrow> (m1, Inr (lg, False))))
         else (m, Inr (the (logits_rows st) ! a, False)))"

definition note_frontier ::
  "('m, 'h) mtp_model \<Rightarrow> nat \<Rightarrow> int \<Rightarrow> bool \<Rightarrow> ('m, 'h) mtp_state \<Rightarrow> ('m, 'h) mtp_state" where
  "note_frontier model a top1 defer st =
     (if compact_logits model then
        st\<lparr>frontier_row := a, frontier_top1 := top1,
           frontier_top1_valid := (top1 \<ge> 0 \<and> top1 < int (n_vocab st)),
           frontier_logits_deferred := defer\<rparr>
      else st)"

text \<open>
  Commit the first \<open>a + 1\<close> tokens of the verify, draft the next chain from \<open>next_fed\<close> and
  note the frontier: the tail of both the accepting and the rejecting branch.
\<close>

definition mtp_finish ::
  "('m, 'h) mtp_model \<Rightarrow> ('m, 'h) mtp_state \<Rightarrow> 'm \<Rightarrow> token list \<Rightarrow> nat \<Rightarrow> nat \<Rightarrow> token \<Rightarrow>
     int \<Rightarrow> bool \<Rightarrow> f32 list \<Rightarrow> ('m, 'h) round" where
  "mtp_finish model st m toks a pos next_fed top1 defer lg =
     (case mtp_draft_chain model (st\<lparr>counters := count_commit (a + 1) (counters st)\<rparr>)
             m toks a pos next_fed of
        (st1, m1, Some e) \<Rightarrow> (st1, m1, lg, Inl e)
      | (st1, m1, None) \<Rightarrow>
          (note_frontier model a top1 defer st1, m1, lg, Inr (take (a + 1) toks)))"

definition mtp_reject ::
  "('m, 'h) mtp_model \<Rightarrow> ('m, 'h) mtp_state \<Rightarrow> 'm \<Rightarrow> token list \<Rightarrow> nat \<Rightarrow> nat \<Rightarrow> int \<Rightarrow> bool \<Rightarrow>
     f32 list \<Rightarrow> ('m, 'h) round" where
  "mtp_reject model st m toks a pos mismatch defer lg =
     (case rollback_select_row (rollback st) m a of
        (m1, Some e) \<Rightarrow> (st, m1, lg, Inl e)
      | (m1, None) \<Rightarrow>
          (case rollback_truncate_all (rollback st) m1 (pos + a + 1) of
             (m2, Some e) \<Rightarrow> (st, m2, lg, Inl e)
           | (m2, None) \<Rightarrow> mtp_finish model st m2 toks a pos mismatch mismatch defer lg))"

definition mtp_spec_round ::
  "('m, 'h) mtp_model \<Rightarrow> ('m, 'h) mtp_state \<Rightarrow> 'm \<Rightarrow> token list \<Rightarrow> nat \<Rightarrow> nat \<Rightarrow> f32 list \<Rightarrow>
     ('m, 'h) round" where
  "mtp_spec_round model st0 m0 toks n pos logits =
     (let st1 = (mtp_invalidate st0)\<lparr>counters := (counters st0)\<lparr>drafted := drafted (counters st0) + n\<rparr>\<rparr>
      in case mtp_verify model st1 m0 toks pos of
           (st2, m1, None) \<Rightarrow> (st2, m1, logits, Inl (Verify_Failed (n + 1) pos))
         | (st2, m1, Some winners) \<Rightarrow>
             (case accept_scan winners toks n 0 of
                (a, mismatch) \<Rightarrow>
                  let st3 = st2\<lparr>counters := (counters st2)\<lparr>accepted := accepted (counters st2) + a\<rparr>\<rparr>;
                      top1 = (if compact_logits model
                              then (if a = n then winners ! n else mismatch) else - 1)
                  in case mtp_frontier model st3 m1 a top1 logits of
                       (m2, Inl e) \<Rightarrow> (st3, m2, logits, Inl e)
                     | (m2, Inr (lg, defer)) \<Rightarrow>
                         if a = n then
                           mtp_finish model st3 m2 toks n pos
                             (if compact_logits model then top1 else mtp_argmax lg (n_vocab st3))
                             top1 defer lg
                         else mtp_reject model st3 m2 toks a pos mismatch defer lg))"

text \<open>The round is counted, and a chain drafted from another token is dropped whole.\<close>

definition mtp_open_round :: "('m, 'h) mtp_state \<Rightarrow> token \<Rightarrow> ('m, 'h) mtp_state" where
  "mtp_open_round st0 first_token =
     (let st1 = st0\<lparr>counters := (counters st0)\<lparr>rounds := rounds (counters st0) + 1\<rparr>,
                    frontier_top1_valid := False, frontier_logits_deferred := False\<rparr>
      in if n_pending st1 > 0 \<and> first_token \<noteq> pending_parent st1
         then mtp_invalidate st1 else st1)"

definition mtp_cycle ::
  "('m, 'h) mtp_model \<Rightarrow> ('m, 'h) mtp_state \<Rightarrow> 'm \<Rightarrow> token \<Rightarrow> nat \<Rightarrow> int \<Rightarrow> int \<Rightarrow>
     f32 list option \<Rightarrow> ('m, 'h) round" where
  "mtp_cycle model st0 m first_token pos budget cap logits_buf =
     (if hc_scratch st0 = None \<or> logits_rows st0 = None
        then (st0, m, [], Inl State_Not_Initialised)
      else case logits_buf of
        None \<Rightarrow> (st0, m, [], Inl No_Logit_Buffer)
      | Some logits \<Rightarrow>
        if cap < 1 \<or> budget < 1 then (st0, m, logits, Inl (No_Room_For_Fed_Token budget cap))
        else if seam_hc_dim model \<noteq> hc_dim st0 \<or> seam_n_vocab model \<noteq> n_vocab st0
          then (st0, m, logits, Inl (Width_Mismatch (seam_hc_dim model) (seam_n_vocab model)
                                       (hc_dim st0) (n_vocab st0)))
        else
          let st2 = mtp_open_round st0 first_token; n = n_verified st2 budget cap
          in if n < 1 \<or> depth st2 < 1
             then mtp_commit_one model st2 m first_token pos logits
             else mtp_spec_round model st2 m (first_token # take n (pending st2)) n pos logits)"

end
