(* ===== verification/Mtp_Wf.thy ===== *)
theory Mtp_Wf
  imports Mtp_Cycle
begin

text \<open>
  Facts about the cycle that hold for every model behind the seam: the argmax and the accept
  scan, the offer and its gate, the depth envelope, the well-formedness of the cycle's state
  and the fields the draft chain leaves alone, and the counters' self-consistency.
\<close>

subsection \<open>Argmax\<close>

lemma argmax_from_bounds:
  "best < i \<Longrightarrow> argmax_from i best bv vs < i + length vs"
proof (induction vs arbitrary: i best bv)
  case (Cons v vs)
  show ?case
    using Cons.IH [of i "Suc i" v] Cons.IH [of best "Suc i" bv] Cons.prems by simp
qed simp

lemma mtp_argmax_range:
  assumes "0 < n" "length lg = n"
  shows "0 \<le> mtp_argmax lg n \<and> mtp_argmax lg n < int n"
proof -
  have "argmax_from 1 0 (lg ! 0) (drop 1 (take n lg)) < 1 + length (drop 1 (take n lg))"
    by (rule argmax_from_bounds) simp
  then show ?thesis using assms by (simp add: mtp_argmax_def)
qed

text \<open>
  The scan's invariant: \<open>best\<close> is the lowest index of a maximum of what was read. Stated
  over the whole row \<open>w\<close>, of which \<open>vs\<close> is the unread rest.
\<close>

lemma argmax_from_max:
  assumes "w = us @ vs" "i = length us" "best < i" "bv = w ! best" "F32_NaN \<notin> set w"
    and "\<forall>j < i. \<not> f32_lt bv (w ! j)" "\<forall>j < best. f32_lt (w ! j) bv"
  shows "let b = argmax_from i best bv vs in
     b < length w \<and> (\<forall>j < length w. \<not> f32_lt (w ! b) (w ! j)) \<and> (\<forall>j < b. f32_lt (w ! j) (w ! b))"
  using assms
proof (induction vs arbitrary: us i best bv)
  case Nil
  then show ?case by (simp add: Let_def)
next
  case (Cons v vs)
  have v: "w ! i = v" using Cons.prems(1,2) by simp
  have w': "w = (us @ [v]) @ vs" "Suc i = length (us @ [v])"
    using Cons.prems(1,2) by simp_all
  have nn: "\<And>j. j < length w \<Longrightarrow> w ! j \<noteq> F32_NaN"
    using Cons.prems(5) nth_mem by metis
  have il: "i < length w" using Cons.prems(1,2) by simp
  show ?case
  proof (cases "f32_lt bv v")
    case True
    have "\<forall>j < i. f32_lt (w ! j) v"
    proof (intro allI impI)
      fix j assume "j < i"
      then have "\<not> f32_lt bv (w ! j)" "w ! j \<noteq> F32_NaN" "bv \<noteq> F32_NaN"
        using Cons.prems(3,4,6) nn il by auto
      then show "f32_lt (w ! j) v" using f32_not_lt_trans [of bv "w ! j" v] True by auto
    qed
    moreover have "\<forall>j < Suc i. \<not> f32_lt v (w ! j)"
      using calculation v f32_lt_trans f32_lt_irrefl by (metis less_Suc_eq)
    ultimately show ?thesis
      using Cons.IH [OF w'(1) w'(2), of i v] True v Cons.prems(5) by (simp add: f32_gt_def)
  next
    case False
    then have "\<forall>j < Suc i. \<not> f32_lt bv (w ! j)"
      using Cons.prems(6) v by (simp add: less_Suc_eq)
    then show ?thesis
      using Cons.IH [OF w'(1) w'(2), of best bv] False Cons.prems(3,4,5,7) by (simp add: f32_gt_def)
  qed
qed

lemma mtp_argmax_lowest_max:
  assumes "lg \<noteq> []" "length lg = n" "F32_NaN \<notin> set lg"
  shows "let b = nat (mtp_argmax lg n) in
     b < n \<and> (\<forall>j < n. \<not> f32_lt (lg ! b) (lg ! j)) \<and> (\<forall>j < b. f32_lt (lg ! j) (lg ! b))"
proof -
  obtain v vs where lg: "lg = v # vs" using assms(1) by (cases lg) auto
  have rest: "drop 1 (take n lg) = vs" "lg ! 0 = v" using assms(2) lg by auto
  have "let b = argmax_from 1 0 v vs in
      b < length lg \<and> (\<forall>j < length lg. \<not> f32_lt (lg ! b) (lg ! j)) \<and>
      (\<forall>j < b. f32_lt (lg ! j) (lg ! b))"
    by (rule argmax_from_max [where us = "[v]"]) (use assms(3) lg in auto)
  then show ?thesis unfolding mtp_argmax_def rest assms(2) nat_int .
qed

subsection \<open>The accept scan\<close>

declare accept_scan.simps [simp del]

lemma accept_scan_prefix:
  assumes "accept_scan winners toks n a0 = (a, mis)" "a0 \<le> n" "\<forall>j < a0. winners ! j = toks ! (j + 1)"
  shows "a \<le> n \<and> (\<forall>j < a. winners ! j = toks ! (j + 1)) \<and>
         (a < n \<longrightarrow> winners ! a \<noteq> toks ! (a + 1) \<and> mis = winners ! a) \<and> (a = n \<longrightarrow> mis = - 1)"
  using assms
proof (induction winners toks n a0 rule: accept_scan.induct)
  case (1 winners toks n a0)
  show ?case
  proof (cases "a0 < n \<and> winners ! a0 = toks ! (a0 + 1)")
    case True
    then have "accept_scan winners toks n (Suc a0) = (a, mis)"
      using "1.prems"(1) by (simp add: accept_scan.simps [of winners toks n a0])
    then show ?thesis using "1.IH" True "1.prems"(3) by (auto simp: less_Suc_eq)
  next
    case False
    then show ?thesis
      using "1.prems" by (auto simp: accept_scan.simps [of winners toks n a0] split: if_splits)
  qed
qed

subsection \<open>The offer and its gate\<close>

lemma n_offered_le:
  "n_offered st budget cap \<le> n_pending st"
  "1 \<le> budget \<Longrightarrow> int (n_offered st budget cap) + 1 \<le> budget"
  "1 \<le> cap \<Longrightarrow> int (n_offered st budget cap) + 1 \<le> cap"
  by (auto simp: n_offered_def min_def)

lemma drop_unsure_le: "drop_unsure mg dm keep n \<le> n"
  by (induction n) auto

lemma drop_unsure_keeps: "min keep n \<le> drop_unsure mg dm keep n"
  by (induction n) (auto simp: min_def split: if_splits)

lemma n_verified_le: "n_verified st budget cap \<le> n_offered st budget cap"
  by (simp add: n_verified_def drop_unsure_le)

subsection \<open>Well-formed cycle states\<close>

definition mtp_wf :: "('m, 'h) mtp_state \<Rightarrow> bool" where
  "mtp_wf st \<longleftrightarrow>
     rollback_complete (rollback st) \<and> depth st \<le> IMPLEMENTED_DEPTH \<and>
     length (pending st) = IMPLEMENTED_DEPTH \<and> length (pending_margin st) = IMPLEMENTED_DEPTH \<and>
     n_pending st \<le> depth st \<and>
     (\<exists>hs. hc_scratch st = Some hs \<and> length hs = MTP_HC_ROWS) \<and>
     (\<exists>ls. logits_rows st = Some ls \<and> length ls = MTP_MAX_COMMIT)"

lemma mtp_state_init_wf:
  assumes "mtp_state_init strtof atoi env alloc alloc_l dep (Some S) hc nv = Inr st"
    and "rollback_wf S" "\<And>hs. alloc = Some hs \<Longrightarrow> length hs = MTP_HC_ROWS"
    "\<And>ls. alloc_l = Some ls \<Longrightarrow> length ls = MTP_MAX_COMMIT"
  shows "mtp_wf st \<and> n_pending st = 0 \<and> depth st = nat dep \<and> counters st = counters_zero \<and>
         hc_dim st = hc \<and> n_vocab st = nv \<and> rollback st = S"
  using assms
  by (auto simp: mtp_state_init_def mtp_wf_def Let_def mtp_invalidate_def rollback_complete_def
      split: option.splits if_splits)

lemma mtp_invalidate_wf [wf_intros]: "mtp_wf st \<Longrightarrow> mtp_wf (mtp_invalidate st)"
  by (auto simp: mtp_wf_def mtp_invalidate_def)

lemma put_row_wf [wf_intros]: "mtp_wf st \<Longrightarrow> mtp_wf (put_row i h st)"
  by (auto simp: mtp_wf_def put_row_def)

lemma put_draft_wf [wf_intros]: "mtp_wf st \<Longrightarrow> k < depth st \<Longrightarrow> mtp_wf (put_draft k d mg r st)"
  by (auto simp: mtp_wf_def put_draft_def)

lemma put_rows_wf [wf_intros]:
  "mtp_wf st \<Longrightarrow> length hs \<le> MTP_HC_ROWS \<Longrightarrow> mtp_wf (put_rows hs st)"
  by (auto simp: mtp_wf_def put_rows_def)

lemma put_logit_rows_wf [wf_intros]:
  "mtp_wf st \<Longrightarrow> length ls \<le> MTP_MAX_COMMIT \<Longrightarrow> mtp_wf (put_logit_rows ls st)"
  by (auto simp: mtp_wf_def put_logit_rows_def)

lemma mtp_wf_upd [wf_intros]:
  "mtp_wf st \<Longrightarrow> mtp_wf (st\<lparr>counters := c\<rparr>)"
  "mtp_wf st \<Longrightarrow> mtp_wf (st\<lparr>head_rows := r\<rparr>)"
  "mtp_wf st \<Longrightarrow> mtp_wf (st\<lparr>pending_parent := t\<rparr>)"
  "mtp_wf st \<Longrightarrow> mtp_wf (st\<lparr>counters := c, frontier_top1_valid := v, frontier_logits_deferred := d\<rparr>)"
  "mtp_wf st \<Longrightarrow> mtp_wf (note_frontier model a top1 df st)"
  by (auto simp: mtp_wf_def note_frontier_def)

lemma mtp_open_round_wf [wf_intros]: "mtp_wf st \<Longrightarrow> mtp_wf (mtp_open_round st x)"
  unfolding mtp_open_round_def Let_def by (auto intro!: mtp_invalidate_wf mtp_wf_upd(4))

lemma mtp_open_round_fields [frame_simps]:
  "rollback (mtp_open_round st x) = rollback st" "depth (mtp_open_round st x) = depth st"
  "n_vocab (mtp_open_round st x) = n_vocab st" "hc_dim (mtp_open_round st x) = hc_dim st"
  "\<not> frontier_top1_valid (mtp_open_round st x)"
  "\<not> frontier_logits_deferred (mtp_open_round st x)"
  "counters (mtp_open_round st x) = (counters st)\<lparr>rounds := rounds (counters st) + 1\<rparr>"
  by (simp_all add: mtp_open_round_def Let_def mtp_invalidate_def)

text \<open>The guards of the cycle, passed.\<close>

lemma mtp_cycle_guards:
  assumes "mtp_cycle model st m x pos budget cap (Some lg0) = (st', m', lg, Inr acc)"
  shows "1 \<le> budget" "1 \<le> cap" "seam_n_vocab model = n_vocab st" "seam_hc_dim model = hc_dim st"
  using assms by (auto simp: mtp_cycle_def split: if_splits)

lemma mtp_cycle_body:
  assumes "hc_scratch st \<noteq> None" "logits_rows st \<noteq> None" "1 \<le> budget" "1 \<le> cap"
    "seam_n_vocab model = n_vocab st" "seam_hc_dim model = hc_dim st"
  shows "mtp_cycle model st m x pos budget cap (Some lg0) =
    (let st2 = mtp_open_round st x; n = n_verified st2 budget cap
     in if n < 1 \<or> depth st2 < 1 then mtp_commit_one model st2 m x pos lg0
        else mtp_spec_round model st2 m (x # take n (pending st2)) n pos lg0)"
proof -
  have "\<not> (cap < 1 \<or> budget < 1)" using assms(3,4) by simp
  then show ?thesis using assms by (simp only: mtp_cycle_def option.case) simp
qed

subsection \<open>What the draft chain leaves alone\<close>

definition chain_frame :: "('m, 'h) mtp_state \<Rightarrow> ('m, 'h) mtp_state \<Rightarrow> bool" where
  "chain_frame st st' \<longleftrightarrow>
     rollback st' = rollback st \<and> depth st' = depth st \<and> logits_rows st' = logits_rows st \<and>
     hc_dim st' = hc_dim st \<and> n_vocab st' = n_vocab st \<and> counters st' = counters st \<and>
     stop_margin st' = stop_margin st \<and> drop_margin st' = drop_margin st \<and>
     drop_keep st' = drop_keep st \<and>
     frontier_top1_valid st' = frontier_top1_valid st \<and>
     frontier_logits_deferred st' = frontier_logits_deferred st"

lemma chain_frame_refl [simp]: "chain_frame st st"
  by (simp add: chain_frame_def)

lemma chain_frame_trans: "chain_frame a b \<Longrightarrow> chain_frame b c \<Longrightarrow> chain_frame a c"
  by (simp add: chain_frame_def)

lemma chain_frame_put [simp]:
  "chain_frame st (put_row i h st)" "chain_frame st (put_draft k d mg r st)"
  "chain_frame st (st\<lparr>head_rows := r\<rparr>)" "chain_frame st (st\<lparr>pending_parent := t\<rparr>)"
  by (simp_all add: chain_frame_def put_row_def put_draft_def)

declare mtp_chain_loop.simps [simp del]

lemma mtp_chain_loop_frame:
  assumes "mtp_chain_loop model st m k tok cur p = (st', m', r)" "mtp_wf st"
    and "I m" "\<And>m tok h p m' x. I m \<Longrightarrow> draft_step model m tok h p = (m', Some x) \<Longrightarrow> I m'"
  shows "chain_frame st st' \<and> mtp_wf st' \<and> (r = None \<longrightarrow> I m')"
  using assms
proof (induction model st m k tok cur p rule: mtp_chain_loop.induct)
  case (1 model st m k tok cur p)
  show ?case
  proof (cases "\<not> k < depth st \<or> chain_gate st k")
    case True
    then show ?thesis
      using "1.prems" by (auto simp: mtp_chain_loop.simps [of model st m k tok cur p])
  next
    case False
    obtain m1 o1 where ds: "draft_step model m tok (get_row st cur) p = (m1, o1)"
      by (cases "draft_step model m tok (get_row st cur) p")
    show ?thesis
    proof (cases o1)
      case None
      then show ?thesis
        using "1.prems" False ds by (auto simp: mtp_chain_loop.simps [of model st m k tok cur p])
    next
      case (Some dm)
      obtain d multi where dm: "dm = (d, multi)" by (cases dm)
      have I1: "I m1" using "1.prems"(3,4) ds Some by blast
      define st1 where "st1 = (if k + 1 < depth st then put_row (PING + k mod 2) multi st else st)"
      define st2 where "st2 = put_draft k d (margin_of model m1) (p + 1) st1"
      have fr: "chain_frame st st2"
        unfolding st2_def st1_def by (simp add: chain_frame_def put_row_def put_draft_def)
      have wf: "mtp_wf st2"
        using "1.prems"(2) False unfolding st2_def st1_def
        by (auto simp: mtp_wf_def put_row_def put_draft_def)
      have rec: "mtp_chain_loop model st2 m1 (Suc k) d (PING + k mod 2) (p + 1) = (st', m', r)"
        using "1.prems"(1) False ds Some dm
        by (simp add: mtp_chain_loop.simps [of model st m k tok cur p] Let_def st1_def st2_def)
      have "chain_frame st2 st' \<and> mtp_wf st' \<and> (r = None \<longrightarrow> I m')"
        by (rule "1.IH" [OF False ds [symmetric] Some dm [symmetric] refl st1_def st2_def rec wf I1])
           (rule "1.prems"(4))
      then show ?thesis using fr chain_frame_trans by blast
    qed
  qed
qed

lemma mtp_seed_loop_inv:
  assumes "mtp_seed_loop model st toks pos js m = (m', r)"
    and "I m" "\<And>m tok h p m' x. I m \<Longrightarrow> draft_step model m tok h p = (m', Some x) \<Longrightarrow> I m'"
  shows "r = None \<longrightarrow> I m'"
  using assms(1,2)
proof (induction js arbitrary: m)
  case (Cons j js)
  obtain m1 o1 where ds:
      "draft_step model m (toks ! (j - pos + 1)) (get_row st (j - pos)) j = (m1, o1)"
    by (cases "draft_step model m (toks ! (j - pos + 1)) (get_row st (j - pos)) j")
  then have "o1 \<noteq> None \<longrightarrow> I m1" using assms(3) Cons.prems(2) by blast
  then show ?case using Cons ds by (cases o1) auto
qed (use assms in simp)

text \<open>
  The whole chain, over any property \<open>I\<close> of the session that the head's own calls keep: the
  chain writes the pending drafts, the head rows and the scratch, and nothing else.
\<close>

lemma mtp_chain_start_frame:
  assumes "mtp_chain_start model st m toks n pos nf = (st', m', r)" "mtp_wf st" "1 \<le> depth st"
    and "I m" "\<And>m tok h p m' x. I m \<Longrightarrow> draft_step model m tok h p = (m', Some x) \<Longrightarrow> I m'"
    and "\<And>dr m ts hs p m' x. draft_rows model = Some dr \<Longrightarrow> I m \<Longrightarrow>
           dr m ts hs p = (m', Some x) \<Longrightarrow> I m'"
  shows "chain_frame st st' \<and> mtp_wf st' \<and> (\<forall>q. r = Inr q \<longrightarrow> I m')"
proof (cases "draft_rows model")
  case None
  obtain m1 o1 where sl: "mtp_seed_loop model st toks pos
      [if head_rows st < pos then pos else head_rows st..<pos + n] m = (m1, o1)"
    by (meson surj_pair)
  have "o1 = None \<longrightarrow> I m1" using mtp_seed_loop_inv [where I = I, OF sl assms(4)] assms(5) by blast
  then show ?thesis
    using assms(1,2) None sl
    by (auto simp: mtp_chain_start_def Let_def intro: mtp_wf_upd split: option.splits)
next
  case (Some dr)
  define j0 where "j0 = (if head_rows st < pos then pos else head_rows st)"
  define ts where "ts = map (\<lambda>i. toks ! (j0 - pos + i + 1)) [0..<pos + n - j0] @ [nf]"
  define hs where "hs = take (pos + n - j0 + 1) (drop (j0 - pos) (the (hc_scratch st)))"
  obtain m1 o1 where d: "dr m ts hs j0 = (m1, o1)" by (meson surj_pair)
  have I: "\<And>x. o1 = Some x \<Longrightarrow> I m1" using assms(6) [OF Some assms(4)] d by blast
  have wf: "mtp_wf (put_draft 0 dd mg r (if 1 < depth st then put_row PING hh st else st))"
    for dd mg r hh
    using assms(2,3) by (auto simp: mtp_wf_def put_row_def put_draft_def)
  have fr: "chain_frame st (put_draft 0 dd mg r (if 1 < depth st then put_row PING hh st else st))"
    for dd mg r hh
    by (simp add: chain_frame_def put_row_def put_draft_def)
  have "mtp_chain_start model st m toks n pos nf =
      (case dr m ts hs j0 of
         (m', None) \<Rightarrow> (st, m', Inl (Head_Forward_Failed (pos + n - j0 + 1) j0))
       | (m', Some (draft, multi)) \<Rightarrow>
           (put_draft 0 draft (margin_of model m') (pos + n + 1)
              (if 1 < depth st then put_row PING multi st else st), m',
            Inr (1, draft, PING, pos + n + 1)))"
    by (simp only: mtp_chain_start_def Let_def Some option.case ts_def hs_def j0_def)
  then show ?thesis
    using assms(1,2) d I wf fr by (auto split: option.splits prod.splits)
qed

definition head_calls_keep ::
  "('m, 'h) mtp_model \<Rightarrow> 'm rollback_set \<Rightarrow> ('m \<Rightarrow> bool) \<Rightarrow> bool" where
  "head_calls_keep model S I \<longleftrightarrow>
     (\<forall>m tok h p m' x. I m \<longrightarrow> draft_step model m tok h p = (m', Some x) \<longrightarrow> I m') \<and>
     (\<forall>dr m ts hs p m' x. draft_rows model = Some dr \<longrightarrow> I m \<longrightarrow>
        dr m ts hs p = (m', Some x) \<longrightarrow> I m') \<and>
     (\<forall>f m p m'. truncate_to (obj S ! nat STATE_MTP_HEAD_CACHE) = Some f \<longrightarrow> I m \<longrightarrow>
        f m p = (m', True) \<longrightarrow> I m')"

lemma mtp_draft_chain_frame:
  assumes "mtp_draft_chain model st m toks n pos nf = (st', m', r)" "mtp_wf st"
    and "I m" "head_calls_keep model (rollback st) I"
  shows "chain_frame (mtp_invalidate st) st' \<and> mtp_wf st' \<and> (r = None \<longrightarrow> I m')"
proof -
  define st1 where "st1 = mtp_invalidate st"
  define st2 where "st2 = (if head_rows st1 > pos + n then st1\<lparr>head_rows := pos + n\<rparr> else st1)"
  have wf2: "mtp_wf st2" and wf1: "mtp_wf st1" and fr2: "chain_frame st1 st2"
    using assms(2) by (auto simp: st2_def st1_def intro: wf_intros)
  have rb: "rollback st1 = rollback st" by (simp add: st1_def mtp_invalidate_def)
  obtain m1 o1 where tr: "mtp_head_cache_truncate (rollback st1) m (pos + n) = (m1, o1)"
    by (meson surj_pair)
  have KT: "\<And>f m p m'. truncate_to (obj (rollback st) ! nat STATE_MTP_HEAD_CACHE) = Some f \<Longrightarrow> I m \<Longrightarrow>
      f m p = (m', True) \<Longrightarrow> I m'"
    using assms(4) unfolding head_calls_keep_def by blast
  have I1: "I m1" if "o1 = None"
  proof (cases "truncate_to (obj (rollback st) ! nat STATE_MTP_HEAD_CACHE)")
    case None
    then show ?thesis using tr assms(3) rb by (simp add: mtp_head_cache_truncate_def)
  next
    case (Some f)
    obtain m' ok where f: "f m (pos + n) = (m', ok)" by (meson surj_pair)
    then have "ok" "m' = m1"
      using tr that rb Some by (auto simp: mtp_head_cache_truncate_def split: if_splits)
    then show ?thesis using KT [OF Some assms(3)] f by simp
  qed
  have K: "\<And>m tok h p m' x. I m \<Longrightarrow> draft_step model m tok h p = (m', Some x) \<Longrightarrow> I m'"
    "\<And>dr m ts hs p m' x. draft_rows model = Some dr \<Longrightarrow> I m \<Longrightarrow>
       dr m ts hs p = (m', Some x) \<Longrightarrow> I m'"
    using assms(4) unfolding head_calls_keep_def by blast+
  have eq: "mtp_draft_chain model st m toks n pos nf =
      (case mtp_head_cache_truncate (rollback st1) m (pos + n) of
         (m1, Some e) \<Rightarrow> (st1, m1, Some e)
       | (m1, None) \<Rightarrow>
           if depth st2 < 1 then (st2, m1, None)
           else case mtp_chain_start model st2 m1 toks n pos nf of
                  (st3, m2, Inl e) \<Rightarrow> (st3, m2, Some e)
                | (st3, m2, Inr (k, tok, cur, p)) \<Rightarrow>
                    (case mtp_chain_loop model st3 m2 k tok cur p of
                       (st4, m3, Some e) \<Rightarrow> (st4, m3, Some e)
                     | (st4, m3, None) \<Rightarrow> (st4\<lparr>pending_parent := nf\<rparr>, m3, None)))"
    by (simp only: mtp_draft_chain_def Let_def st1_def st2_def)
  have "chain_frame st1 st' \<and> mtp_wf st' \<and> (r = None \<longrightarrow> I m')"
  proof (cases "o1 \<noteq> None \<or> depth st2 < 1")
    case True
    then show ?thesis
      using assms(1) tr I1 wf1 wf2 fr2 unfolding eq by (auto split: option.splits)
  next
    case False
    obtain st3 m2 r3 where cs: "mtp_chain_start model st2 m1 toks n pos nf = (st3, m2, r3)"
      using prod_cases3 by blast
    have "o1 = None" using False by simp
    have 3: "chain_frame st2 st3 \<and> mtp_wf st3 \<and> (\<forall>q. r3 = Inr q \<longrightarrow> I m2)"
    proof (rule mtp_chain_start_frame [where I = I, OF cs wf2 _ I1 [OF \<open>o1 = None\<close>]])
      show "1 \<le> depth st2" using False by simp
    qed (fact K)+
    show ?thesis
    proof (cases r3)
      case (Inl e)
      then show ?thesis
        using assms(1) tr cs False 3 fr2 chain_frame_trans unfolding eq by auto
    next
      case (Inr q)
      obtain k tok cur p where q: "q = (k, tok, cur, p)" using prod_cases4 by blast
      obtain st4 m3 o4 where cl: "mtp_chain_loop model st3 m2 k tok cur p = (st4, m3, o4)"
        using prod_cases3 by blast
      have I2: "I m2" using 3 Inr by blast
      have 4: "chain_frame st3 st4 \<and> mtp_wf st4 \<and> (o4 = None \<longrightarrow> I m3)"
        by (rule mtp_chain_loop_frame [where I = I, OF cl _ I2]) (use 3 in blast, fact K(1))
      have "chain_frame st1 st4" using fr2 3 4 chain_frame_trans by blast
      moreover have "chain_frame st1 (st4\<lparr>pending_parent := nf\<rparr>)"
        using calculation by (simp add: chain_frame_def)
      ultimately show ?thesis
        using assms(1) tr cs cl q Inr False 4 mtp_wf_upd(3) [of st4 nf]
        unfolding eq by (auto split: option.splits)
    qed
  qed
  then show ?thesis unfolding st1_def .
qed

lemma mtp_invalidate_fields [frame_simps]:
  "rollback (mtp_invalidate st) = rollback st" "depth (mtp_invalidate st) = depth st"
  "counters (mtp_invalidate st) = counters st" "n_vocab (mtp_invalidate st) = n_vocab st"
  "hc_dim (mtp_invalidate st) = hc_dim st" "logits_rows (mtp_invalidate st) = logits_rows st"
  "hc_scratch (mtp_invalidate st) = hc_scratch st" "head_rows (mtp_invalidate st) = head_rows st"
  "n_pending (mtp_invalidate st) = 0"
  by (simp_all add: mtp_invalidate_def)

end
