(* ===== verification/Mtp_Exact.thy ===== *)
theory Mtp_Exact
  imports Mtp_Wf
begin

text \<open>
  Exactness of the speculative cycle: whatever the draft head proposes and however many rows
  a round verifies, the committed tokens are the serial greedy stream of the target, and a
  rejecting round leaves every carried object as a serial feed would have left it.

  The target is an abstract token-serial machine: a state type \<open>'t\<close>, a step, the greedy
  choice in a state and its position. The contract between the cycle and the session behind the seam is
  the locale \<open>mtp_seam\<close>; its laws are what \<open>ds4_qwen4exp_mtp.h\<close> requires of the callbacks.
\<close>

subsection \<open>The serial greedy stream\<close>

primrec greedy ::
  "('t \<Rightarrow> token \<Rightarrow> 't) \<Rightarrow> ('t \<Rightarrow> token) \<Rightarrow> 't \<Rightarrow> token \<Rightarrow> nat \<Rightarrow> token list" where
  "greedy tstep pick t x 0 = []"
| "greedy tstep pick t x (Suc n) =
     x # greedy tstep pick (tstep t x) (pick (tstep t x)) n"

lemma length_greedy [simp]: "length (greedy tstep pick t x n) = n"
  by (induction n arbitrary: t x) auto

text \<open>Tokens confirmed one by one by the target's own choice are its greedy stream.\<close>

lemma greedy_of_confirmed:
  assumes "a < length toks" "toks ! 0 = x"
    and "\<And>j. j < a \<Longrightarrow> pick (foldl tstep t (take (Suc j) toks)) = toks ! Suc j"
  shows "take (Suc a) toks = greedy tstep pick t x (Suc a)"
  using assms
proof (induction a arbitrary: toks t x)
  case 0
  then show ?case by (cases toks) auto
next
  case (Suc a)
  obtain toks' where toks: "toks = x # toks'" using Suc.prems(1,2) by (cases toks) auto
  have c: "pick (foldl tstep (tstep t x) (take j toks')) = toks' ! j" if "j < Suc a" for j
    using Suc.prems(3) [of j] that toks by simp
  have "take (Suc a) toks' = greedy tstep pick (tstep t x) (toks' ! 0) (Suc a)"
    by (rule Suc.IH) (use Suc.prems(1) toks c in auto)
  moreover have "toks' ! 0 = pick (tstep t x)" using c [of 0] by simp
  ultimately show ?case unfolding toks greedy.simps(2) [of tstep pick t x] by simp
qed

text \<open>The stream continues where it stopped.\<close>

lemma greedy_append:
  assumes "0 < n"
  shows "greedy tstep pick t x (n + k) =
    (let xs = greedy tstep pick t x n; t' = foldl tstep t xs
     in xs @ greedy tstep pick t' (pick t') k)"
  using assms
proof (induction n arbitrary: t x)
  case (Suc n)
  then show ?case by (cases n) (simp_all add: Let_def)
qed simp

subsection \<open>The contract behind the seam\<close>

definition in_sync :: "(nat \<Rightarrow> 'm \<Rightarrow> 't \<Rightarrow> bool) \<Rightarrow> 'm \<Rightarrow> 't \<Rightarrow> bool" where
  "in_sync holds m t \<longleftrightarrow> (\<forall>i < 6. holds i m t)"

text \<open>
  What a verify of \<open>toks\<close> from target state \<open>t\<close> leaves: the live state after the last row, a
  hyper row per token, and the state after each row but the last in that row's slot of every
  object that is rolled back by adopting one.
\<close>

definition verified ::
  "(nat \<Rightarrow> 'm \<Rightarrow> 't \<Rightarrow> bool) \<Rightarrow> (nat \<Rightarrow> nat \<Rightarrow> 'm \<Rightarrow> 't \<Rightarrow> bool) \<Rightarrow> ('t \<Rightarrow> token \<Rightarrow> 't) \<Rightarrow>
     't \<Rightarrow> token list \<Rightarrow> 'h list \<Rightarrow> 'm \<Rightarrow> bool" where
  "verified holds mirrored tstep t toks hs m \<longleftrightarrow>
     in_sync holds m (foldl tstep t toks) \<and> length hs = length toks \<and>
     (\<forall>j i. j + 1 < length toks \<longrightarrow> i < 6 \<longrightarrow> state_kind (int i) = ROLLBACK_SELECT_ROW \<longrightarrow>
        mirrored i j m (foldl tstep t (take (Suc j) toks)))"

text \<open>
  \<open>holds i m t\<close>: object \<open>i\<close> of the session is what the target state \<open>t\<close> has there.
  \<open>mirrored i r m t\<close>: so is its slot of verify row \<open>r\<close>. \<open>lrow r m\<close>: the logits of verify row
  \<open>r\<close> still on the device. \<open>pick t\<close> is the target's greedy choice in state \<open>t\<close> and \<open>ldist l t\<close> says
  that \<open>l\<close> renders the state's distribution. All that is asked of a rendering is its argmax:
  the two-row target head screens the vocabulary and leaves the rows it omits at \<open>-FLT_MAX\<close>,
  so not every row the device holds is the full distribution. Every law speaks of calls that
  succeed.
\<close>

locale mtp_seam =
  fixes model :: "('m, 'h) mtp_model"
    and S :: "'m rollback_set"
    and holds :: "nat \<Rightarrow> 'm \<Rightarrow> 't \<Rightarrow> bool"
    and mirrored :: "nat \<Rightarrow> nat \<Rightarrow> 'm \<Rightarrow> 't \<Rightarrow> bool"
    and lrow :: "nat \<Rightarrow> 'm \<Rightarrow> f32 list"
    and tstep :: "'t \<Rightarrow> token \<Rightarrow> 't"
    and pick :: "'t \<Rightarrow> token"
    and ldist :: "f32 list \<Rightarrow> 't \<Rightarrow> bool"
    and tpos :: "'t \<Rightarrow> nat"
  assumes complete: "rollback_complete S"
    and pick_range: "0 \<le> pick t" "pick t < int (seam_n_vocab model)"
    and ldist_pick: "ldist l t \<Longrightarrow> mtp_argmax l (seam_n_vocab model) = pick t"
    and tpos_step: "tpos (tstep t x) = Suc (tpos t)"
    and decode_law: "in_sync holds m t \<Longrightarrow> decode_token model m x (tpos t) = (m', Some (h, lg)) \<Longrightarrow>
          in_sync holds m' (tstep t x) \<and> ldist lg (tstep t x)"
    and verify_law: "in_sync holds m t \<Longrightarrow> toks \<noteq> [] \<Longrightarrow> length toks \<le> MTP_MAX_COMMIT \<Longrightarrow>
          verify_rows model m toks (tpos t) = (m', Some (hs, ls)) \<Longrightarrow>
          verified holds mirrored tstep t toks hs m' \<and>
          length ls = length toks \<and>
          (\<forall>j < length toks. ldist (ls ! j) (foldl tstep t (take (Suc j) toks)))"
    and top1_law: "in_sync holds m t \<Longrightarrow> toks \<noteq> [] \<Longrightarrow> length toks \<le> MTP_MAX_COMMIT \<Longrightarrow>
          verify_rows_top1 model = Some vf \<Longrightarrow> vf m toks (tpos t) = (m', Some (hs, ws)) \<Longrightarrow>
          verified holds mirrored tstep t toks hs m' \<and>
          ws = map (\<lambda>j. pick (foldl tstep t (take (Suc j) toks))) [0..<length toks] \<and>
          (\<forall>j < length toks. ldist (lrow j m') (foldl tstep t (take (Suc j) toks)))"
    and logit_law: "read_logit_row model = Some g \<Longrightarrow> a < MTP_MAX_COMMIT \<Longrightarrow>
          g m a = (m', Some lg) \<Longrightarrow>
          lg = lrow a m \<and> (\<forall>i t. holds i m t \<longrightarrow> holds i m' t) \<and>
          (\<forall>i r t. mirrored i r m t \<longrightarrow> mirrored i r m' t)"
    and select_law: "i < 6 \<Longrightarrow> select_row (obj S ! i) = Some f \<Longrightarrow> mirrored i r m t \<Longrightarrow>
          f m r = (m', True) \<Longrightarrow> holds i m' t"
    and select_frame: "i < 6 \<Longrightarrow> select_row (obj S ! i) = Some f \<Longrightarrow> f m r = (m', True) \<Longrightarrow>
          lrow q m' = lrow q m \<and>
          (j \<noteq> i \<longrightarrow> (holds j m u \<longrightarrow> holds j m' u) \<and> (mirrored j r m u \<longrightarrow> mirrored j r m' u))"
    and truncate_law: "i < 6 \<Longrightarrow> truncate_to (obj S ! i) = Some f \<Longrightarrow> k \<le> length toks \<Longrightarrow>
          length toks \<le> MTP_MAX_COMMIT \<Longrightarrow> holds i m (foldl tstep t toks) \<Longrightarrow>
          f m (tpos t + k) = (m', True) \<Longrightarrow> holds i m' (foldl tstep t (take k toks))"
    and truncate_frame: "i < 7 \<Longrightarrow> truncate_to (obj S ! i) = Some f \<Longrightarrow> f m p = (m', True) \<Longrightarrow>
          lrow q m' = lrow q m \<and> (j \<noteq> i \<longrightarrow> holds j m u \<longrightarrow> holds j m' u)"
    and draft_frame: "draft_step model m x h p = (m', Some y) \<Longrightarrow>
          lrow q m' = lrow q m \<and> (j < 6 \<longrightarrow> holds j m u \<longrightarrow> holds j m' u)"
    and draft_rows_frame: "draft_rows model = Some dr \<Longrightarrow> dr m xs hs p = (m', Some y) \<Longrightarrow>
          lrow q m' = lrow q m \<and> (j < 6 \<longrightarrow> holds j m u \<longrightarrow> holds j m' u)"
begin

lemma tpos_foldl: "tpos (foldl tstep t xs) = tpos t + length xs"
  by (induction xs arbitrary: t) (simp_all add: tpos_step)

subsection \<open>The head never touches the target\<close>

definition at_target :: "'t \<Rightarrow> (nat \<Rightarrow> f32 list) \<Rightarrow> 'm \<Rightarrow> bool" where
  "at_target t L m \<longleftrightarrow> in_sync holds m t \<and> (\<forall>q. lrow q m = L q)"

lemma head_keeps_target: "head_calls_keep model S (at_target t L)"
proof -
  have six: "nat STATE_MTP_HEAD_CACHE = 6" by (simp add: state_ids)
  have T: "at_target t L m'"
    if "truncate_to (obj S ! 6) = Some f" "at_target t L m" "f m p = (m', True)" for f m p m'
    using that(2) truncate_frame [OF _ that(1,3)] by (auto simp: at_target_def in_sync_def)
  have D: "at_target t L m'" if "draft_step model m x h p = (m', Some y)" "at_target t L m"
    for m x h p m' y
    using that(2) draft_frame [OF that(1)] by (auto simp: at_target_def in_sync_def)
  have R: "at_target t L m'"
    if "draft_rows model = Some dr" "dr m xs hs p = (m', Some y)" "at_target t L m"
    for dr m xs hs p m' y
    using that(3) draft_rows_frame [OF that(1,2)] by (auto simp: at_target_def in_sync_def)
  show ?thesis
    unfolding head_calls_keep_def six by (intro conjI allI impI) (rule D R T; assumption)+
qed

lemma draft_chain_keeps:
  assumes "mtp_draft_chain model st m toks n pos nf = (st', m', None)" "mtp_wf st" "rollback st = S"
    and "at_target t L m"
  shows "chain_frame (mtp_invalidate st) st' \<and> mtp_wf st' \<and> at_target t L m'"
  using mtp_draft_chain_frame [where I = "at_target t L", OF assms(1,2,4)] assms(3) head_keeps_target
  by simp

subsection \<open>A rejecting round's rollback\<close>

text \<open>
  The select sweep moves the objects of that class, one by one, from the state after the whole
  verify to the state after row \<open>a\<close>, and the truncate sweep moves the others.
\<close>

definition selecting :: "nat \<Rightarrow> 't \<Rightarrow> 't \<Rightarrow> (nat \<Rightarrow> f32 list) \<Rightarrow> nat \<Rightarrow> 'm \<Rightarrow> bool" where
  "selecting a ta te L j m \<longleftrightarrow> (\<forall>q. lrow q m = L q) \<and>
     (\<forall>i < 6. if state_kind (int i) = ROLLBACK_SELECT_ROW
        then (if i < j then holds i m ta else mirrored i a m ta) else holds i m te)"

definition truncating :: "'t \<Rightarrow> 't \<Rightarrow> (nat \<Rightarrow> f32 list) \<Rightarrow> nat \<Rightarrow> 'm \<Rightarrow> bool" where
  "truncating ta te L j m \<longleftrightarrow> (\<forall>q. lrow q m = L q) \<and>
     (\<forall>i < 6. if state_kind (int i) = ROLLBACK_SELECT_ROW \<or> i < j then holds i m ta
        else holds i m te)"

lemma select_sweep:
  assumes "rollback_select_row S m a = (m', None)" "selecting a ta te L 0 m"
  shows "selecting a ta te L 7 m'"
proof -
  have "selecting a ta te L (0 + length (obj S)) m'"
  proof (rule rb_sweep_rule [where P = "selecting a ta te L", OF assms(1) [unfolded rollback_select_row_def] assms(2)])
    fix j f s s'
    assume j: "0 \<le> j" "j < 0 + length (obj S)" and P: "selecting a ta te L j s"
      and f: "select_row (obj S ! (j - 0)) = Some f" "f s a = (s', True)"
    have f': "select_row (obj S ! j) = Some f" using f(1) by simp
    have "j < 7" using j rollback_complete_length [OF complete] by simp
    then have k: "state_kind (int j) = ROLLBACK_SELECT_ROW"
      using rollback_complete_objs [OF complete, of j] f' by (auto split: if_splits)
    then have "j \<noteq> 6" by (auto simp: state_kind_def state_ids)
    then have j6: "j < 6" using \<open>j < 7\<close> by simp
    have hj: "holds j s' ta"
      using select_law [OF j6 f' _ f(2)] P k j6 by (auto simp: selecting_def)
    show "selecting a ta te L (Suc j) s'"
      unfolding selecting_def
    proof (intro conjI allI impI)
      fix i :: nat assume "i < 6"
      then have "if state_kind (int i) = ROLLBACK_SELECT_ROW
          then (if i < j then holds i s ta else mirrored i a s ta) else holds i s te"
        using P by (simp add: selecting_def)
      then show "if state_kind (int i) = ROLLBACK_SELECT_ROW
          then (if i < Suc j then holds i s' ta else mirrored i a s' ta) else holds i s' te"
        using hj k select_frame [OF j6 f' f(2), of _ i] by (cases "i = j") (auto simp: less_Suc_eq split: if_splits)
    qed (use select_frame [OF j6 f' f(2)] P in \<open>auto simp: selecting_def\<close>)
  next
    fix j s
    assume j: "0 \<le> j" "j < 0 + length (obj S)" and P: "selecting a ta te L j s"
      and f: "select_row (obj S ! (j - 0)) = None"
    have "j < 7" using j rollback_complete_length [OF complete] by simp
    then have "state_kind (int j) \<noteq> ROLLBACK_SELECT_ROW"
      using rollback_complete_objs [OF complete, of j] f by (auto split: if_splits)
    then show "selecting a ta te L (Suc j) s"
      using P unfolding selecting_def less_Suc_eq by auto
  qed
  then show ?thesis using rollback_complete_length [OF complete] by simp
qed

lemma truncate_sweep:
  assumes "rollback_truncate_all S m (tpos t + k) = (m', None)" "k \<le> length toks"
    "length toks \<le> MTP_MAX_COMMIT"
    "truncating (foldl tstep t (take k toks)) (foldl tstep t toks) L 0 m"
  shows "truncating (foldl tstep t (take k toks)) (foldl tstep t toks) L 7 m'"
proof -
  define ta te where "ta = foldl tstep t (take k toks)" and "te = foldl tstep t toks"
  have "truncating ta te L (0 + length (obj S)) m'"
  proof (rule rb_sweep_rule [OF assms(1) [unfolded rollback_truncate_all_def]])
    show "truncating ta te L 0 m" using assms(4) by (simp add: ta_def te_def)
  next
    fix j f s s'
    assume j: "0 \<le> j" "j < 0 + length (obj S)" and P: "truncating ta te L j s"
      and f: "truncate_to (obj S ! (j - 0)) = Some f" "f s (tpos t + k) = (s', True)"
    have f': "truncate_to (obj S ! j) = Some f" using f(1) by simp
    have j7: "j < 7" using j rollback_complete_length [OF complete] by simp
    then have kd: "state_kind (int j) \<noteq> ROLLBACK_SELECT_ROW"
      using rollback_complete_objs [OF complete, of j] f' by (auto split: if_splits)
    have hj: "holds j s' ta" if "j < 6"
      using truncate_law [OF that f' assms(2,3) _ f(2)] P kd that
      by (auto simp: truncating_def ta_def te_def)
    show "truncating ta te L (Suc j) s'"
      unfolding truncating_def
    proof (intro conjI allI impI)
      fix i :: nat assume "i < 6"
      then have "if state_kind (int i) = ROLLBACK_SELECT_ROW \<or> i < j
          then holds i s ta else holds i s te"
        using P by (simp add: truncating_def)
      then show "if state_kind (int i) = ROLLBACK_SELECT_ROW \<or> i < Suc j
          then holds i s' ta else holds i s' te"
        using hj \<open>i < 6\<close> truncate_frame [OF j7 f' f(2), of _ i]
        by (cases "i = j") (auto simp: less_Suc_eq split: if_splits)
    qed (use truncate_frame [OF j7 f' f(2)] P in \<open>auto simp: truncating_def\<close>)
  next
    fix j s
    assume j: "0 \<le> j" "j < 0 + length (obj S)" and P: "truncating ta te L j s"
      and f: "truncate_to (obj S ! (j - 0)) = None"
    have "j < 7" using j rollback_complete_length [OF complete] by simp
    then have "state_kind (int j) = ROLLBACK_SELECT_ROW"
      using rollback_complete_objs [OF complete, of j] f by (auto split: if_splits)
    then show "truncating ta te L (Suc j) s"
      using P unfolding truncating_def less_Suc_eq by auto
  qed
  then show ?thesis using rollback_complete_length [OF complete] by (simp add: ta_def te_def)
qed

lemma rollback_exact:
  assumes "verified holds mirrored tstep t toks hs m" "Suc a < length toks"
    "length toks \<le> MTP_MAX_COMMIT" "\<forall>q. lrow q m = L q"
    and "rollback_select_row S m a = (m1, None)"
    and "rollback_truncate_all S m1 (tpos t + Suc a) = (m2, None)"
  shows "at_target (foldl tstep t (take (Suc a) toks)) L m2"
proof -
  let ?ta = "foldl tstep t (take (Suc a) toks)" and ?te = "foldl tstep t toks"
  have "selecting a ?ta ?te L 0 m"
    using assms(1,2,4) by (auto simp: verified_def selecting_def in_sync_def)
  then have "selecting a ?ta ?te L 7 m1" by (rule select_sweep [OF assms(5)])
  then have "truncating ?ta ?te L 0 m1" by (auto simp: selecting_def truncating_def)
  then have "truncating ?ta ?te L 7 m2"
    using truncate_sweep [OF assms(6) _ assms(3)] assms(2) by simp
  then show ?thesis by (auto simp: truncating_def at_target_def in_sync_def)
qed

subsection \<open>One round\<close>

text \<open>
  The frontier a round leaves: the token the session samples next is the target's own choice,
  and the distribution it would read is that state's, copied out or deferred.
\<close>

definition frontier_ok :: "('m, 'h) mtp_state \<Rightarrow> 'm \<Rightarrow> f32 list \<Rightarrow> 't \<Rightarrow> bool" where
  "frontier_ok st m lg t \<longleftrightarrow>
     (if frontier_top1_valid st then frontier_top1 st else mtp_argmax lg (n_vocab st)) = pick t \<and>
     ldist (if frontier_logits_deferred st then lrow (frontier_row st) m else lg) t \<and>
     (frontier_logits_deferred st \<longrightarrow> frontier_top1_valid st)"

definition ready :: "('m, 'h) mtp_state \<Rightarrow> bool" where
  "ready st \<longleftrightarrow> mtp_wf st \<and> rollback st = S \<and> n_vocab st = seam_n_vocab model"

definition round_ok ::
  "('m, 'h) mtp_state \<Rightarrow> 't \<Rightarrow> token \<Rightarrow> ('m, 'h) mtp_state \<Rightarrow> 'm \<Rightarrow> f32 list \<Rightarrow> token list \<Rightarrow> bool" where
  "round_ok st t x st' m' lg acc \<longleftrightarrow>
     acc \<noteq> [] \<and> acc = greedy tstep pick t x (length acc) \<and>
     in_sync holds m' (foldl tstep t acc) \<and> frontier_ok st' m' lg (foldl tstep t acc) \<and>
     ready st' \<and> depth st' = depth st \<and> hc_dim st' = hc_dim st"

lemma finish_exact:
  assumes "mtp_finish model st m toks a (tpos t) nf top1 df lg = (st', m', lg', Inr acc)"
    and "ready st" "at_target (foldl tstep t (take (Suc a) toks)) L m" "a < length toks"
    and "take (Suc a) toks = greedy tstep pick t x (Suc a)"
    and "if compact_logits model then top1 = pick (foldl tstep t (take (Suc a) toks)) else \<not> df"
    and "ldist (if df then L a else lg) (foldl tstep t (take (Suc a) toks))"
  shows "acc = take (Suc a) toks \<and> round_ok st t x st' m' lg' acc"
proof -
  let ?st = "st\<lparr>counters := count_commit (a + 1) (counters st)\<rparr>" and ?t = "foldl tstep t (take (Suc a) toks)"
  obtain st1 m1 where d: "mtp_draft_chain model ?st m toks a (tpos t) nf = (st1, m1, None)"
    and res: "st' = note_frontier model a top1 df st1" "m' = m1" "lg' = lg" "acc = take (Suc a) toks"
    using assms(1) by (auto simp: mtp_finish_def split: prod.splits option.splits)
  have wf: "mtp_wf ?st" "rollback ?st = S" using assms(2) by (auto simp: ready_def intro: mtp_wf_upd)
  have k: "chain_frame (mtp_invalidate ?st) st1" "mtp_wf st1" "at_target ?t L m1"
    using draft_chain_keeps [OF d wf assms(3)] by auto
  have f: "rollback st1 = S" "n_vocab st1 = seam_n_vocab model" "depth st1 = depth st"
    "hc_dim st1 = hc_dim st" "\<not> frontier_top1_valid st1" "\<not> frontier_logits_deferred st1"
    using k(1) assms(2) by (auto simp: chain_frame_def mtp_invalidate_def ready_def)
  have fr: "frontier_ok st' m' lg ?t"
    using assms(6,7) f k(3) pick_range [of ?t] ldist_pick [of lg ?t] unfolding res(1,2)
    by (auto simp: frontier_ok_def note_frontier_def at_target_def split: if_splits)
  show ?thesis
    using assms(4,5) res k f fr mtp_wf_upd(5) [OF k(2)]
    by (auto simp: round_ok_def ready_def at_target_def note_frontier_def min_def)
qed

lemma commit_one_exact:
  assumes "mtp_commit_one model st m x (tpos t) lg0 = (st', m', lg, Inr acc)"
    and "ready st" "in_sync holds m t" "\<not> frontier_top1_valid st"
  shows "acc = [x] \<and> round_ok st t x st' m' lg acc"
proof -
  obtain m1 h l where dec: "decode_token model m x (tpos t) = (m1, Some (h, l))"
    using assms(1) by (auto simp: mtp_commit_one_def split: prod.splits option.splits)
  have d: "in_sync holds m1 (tstep t x)" "ldist l (tstep t x)"
    using decode_law [OF assms(3) dec] by auto
  obtain st2 m2 where c: "mtp_draft_chain model (put_row 0 h st) m1 [] 0 (tpos t)
      (mtp_argmax l (seam_n_vocab model)) = (st2, m2, None)"
    and res: "st' = st2\<lparr>counters := count_commit 1 (counters st2)\<rparr>" "m' = m2" "lg = l" "acc = [x]"
    using assms(1) dec by (auto simp: mtp_commit_one_def Let_def split: prod.splits option.splits)
  have wf: "mtp_wf (put_row 0 h st)" "rollback (put_row 0 h st) = S"
    using assms(2) by (auto simp: ready_def put_row_def intro: put_row_wf [unfolded put_row_def])
  have at: "at_target (tstep t x) (\<lambda>q. lrow q m1) m1" using d(1) by (simp add: at_target_def)
  have k: "chain_frame (mtp_invalidate (put_row 0 h st)) st2" "mtp_wf st2"
    "in_sync holds m2 (tstep t x)"
    using draft_chain_keeps [OF c wf at] by (auto simp: at_target_def)
  then show ?thesis
    using assms(2) res d mtp_wf_upd(1) [OF k(2)] ldist_pick [OF d(2)]
    by (auto simp: round_ok_def ready_def frontier_ok_def chain_frame_def
        mtp_invalidate_def put_row_def)
qed

definition after_row :: "'t \<Rightarrow> token list \<Rightarrow> nat \<Rightarrow> 't" where
  "after_row t toks j = foldl tstep t (take (Suc j) toks)"

lemma verify_exact:
  assumes "mtp_verify model st m toks (tpos t) = (st2, m1, Some ws)" "ready st"
    "in_sync holds m t" "toks \<noteq> []" "length toks \<le> MTP_MAX_COMMIT"
  shows "\<exists>hs :: 'h list. verified holds mirrored tstep t toks hs m1 \<and>
    ws = map (\<lambda>j. pick (after_row t toks j)) [0..<length toks] \<and>
    ready st2 \<and> depth st2 = depth st \<and> hc_dim st2 = hc_dim st \<and> counters st2 = counters st \<and>
    (\<forall>j < length toks. ldist (if compact_logits model then lrow j m1 else the (logits_rows st2) ! j)
       (after_row t toks j))"
proof (cases "compact_logits model")
  case True
  then obtain vf where vf: "verify_rows_top1 model = Some vf" by (auto simp: compact_logits_def)
  obtain hs where v: "vf m toks (tpos t) = (m1, Some (hs, ws))" "st2 = put_rows hs st"
    using assms(1) True vf by (auto simp: mtp_verify_def split: prod.splits option.splits)
  note law = top1_law [OF assms(3,4,5) vf v(1)]
  have "length hs \<le> MTP_HC_ROWS" using law assms(5) by (simp add: verified_def mtp_consts)
  then have "ready st2"
    using assms(2) put_rows_wf [of st hs] by (simp add: v(2) ready_def put_rows_def)
  then show ?thesis
    using law True v(2) by (intro exI [of _ hs]) (simp add: after_row_def put_rows_def)
next
  case False
  obtain hs ls where v: "verify_rows model m toks (tpos t) = (m1, Some (hs, ls))"
    "st2 = put_logit_rows ls (put_rows hs st)" "ws = map (\<lambda>l. mtp_argmax l (n_vocab st)) ls"
    using assms(1) False by (auto simp: mtp_verify_def split: prod.splits option.splits)
  note law = verify_law [OF assms(3,4,5) v(1)]
  have len: "length ls = length toks" "length hs = length toks" using law by (simp_all add: verified_def)
  have "mtp_wf (put_logit_rows ls (put_rows hs st))"
    by (rule put_logit_rows_wf [OF put_rows_wf])
       (use assms(2,5) len in \<open>simp_all add: ready_def mtp_consts\<close>)
  moreover obtain L where "logits_rows st = Some L" using assms(2) by (auto simp: ready_def mtp_wf_def)
  moreover have "ws = map (\<lambda>j. pick (after_row t toks j)) [0..<length toks]"
    by (rule nth_equalityI)
       (use law assms(2) v(3) len in \<open>auto simp: after_row_def ready_def ldist_pick\<close>)
  ultimately show ?thesis
    using law False v(2) len assms(2)
    by (intro exI [of _ hs])
       (simp add: after_row_def put_logit_rows_def put_rows_def ready_def nth_append)
qed

lemma frontier_exact:
  assumes "mtp_frontier model st m a top1 lg0 = (m', Inr (lg, df))" "a < MTP_MAX_COMMIT"
    "verified holds mirrored tstep t toks hs m"
    "ldist (if compact_logits model then lrow a m else the (logits_rows st) ! a) u"
  shows "verified holds mirrored tstep t toks hs m' \<and> ldist (if df then lrow a m' else lg) u \<and>
    (\<not> compact_logits model \<longrightarrow> \<not> df)"
proof (cases "compact_logits model \<and> \<not> df")
  case True
  then obtain g where g: "read_logit_row model = Some g" by (auto simp: compact_logits_def)
  have "g m a = (m', Some lg)"
    using assms(1) True g by (auto simp: mtp_frontier_def Let_def split: if_splits prod.splits option.splits)
  then show ?thesis
    using logit_law [OF g assms(2)] True assms(3,4) by (auto simp: verified_def in_sync_def)
next
  case False
  then show ?thesis
    using assms
    by (auto simp: mtp_frontier_def Let_def split: if_splits prod.splits option.splits)
qed

lemma spec_round_exact:
  assumes "mtp_spec_round model st m (x # ds) n (tpos t) lg0 = (st', m', lg, Inr acc)"
    and "ready st" "in_sync holds m t" "length ds = n" "n < MTP_MAX_COMMIT"
  shows "length acc \<le> Suc n \<and> round_ok st t x st' m' lg acc"
proof -
  define toks where "toks = x # ds"
  define st1 where "st1 = (mtp_invalidate st)\<lparr>counters := (counters st)\<lparr>drafted := drafted (counters st) + n\<rparr>\<rparr>"
  have len: "toks \<noteq> []" "length toks = Suc n" "length toks \<le> MTP_MAX_COMMIT" "toks ! 0 = x"
    using assms(4,5) by (auto simp: toks_def)
  have r1: "ready st1" using assms(2) mtp_invalidate_wf mtp_wf_upd(1)
    by (auto simp: ready_def st1_def mtp_invalidate_fields)
  obtain st2 m1 ws where v: "mtp_verify model st1 m toks (tpos t) = (st2, m1, Some ws)"
    using assms(1) by (auto simp: mtp_spec_round_def toks_def st1_def Let_def split: prod.splits option.splits)
  obtain hs :: "'h list" where vd: "verified holds mirrored tstep t toks hs m1"
    and ws: "ws = map (\<lambda>j. pick (after_row t toks j)) [0..<length toks]"
    and r2: "ready st2" "depth st2 = depth st1" "hc_dim st2 = hc_dim st1"
    and rows: "\<forall>j < length toks. ldist (if compact_logits model then lrow j m1
         else the (logits_rows st2) ! j) (after_row t toks j)"
    using verify_exact [OF v r1 assms(3) len(1,3)] by blast
  obtain a mis where sc: "accept_scan ws toks n 0 = (a, mis)" by (meson surj_pair)
  have acc: "a \<le> n" "\<forall>j < a. ws ! j = toks ! (j + 1)" "a < n \<longrightarrow> mis = ws ! a"
    using accept_scan_prefix [OF sc] by auto
  have wsj: "ws ! j = pick (after_row t toks j)" if "j \<le> n" for j
    using that len(2) unfolding ws by (simp del: upt_Suc)
  define st3 where "st3 = st2\<lparr>counters := (counters st2)\<lparr>accepted := accepted (counters st2) + a\<rparr>\<rparr>"
  define top1 where "top1 = (if compact_logits model then (if a = n then ws ! n else mis) else - 1)"
  have r3: "ready st3" "depth st3 = depth st" "hc_dim st3 = hc_dim st" "logits_rows st3 = logits_rows st2"
    using r2 mtp_wf_upd(1) by (auto simp: ready_def st3_def st1_def mtp_invalidate_fields)
  have top: "if compact_logits model then top1 = pick (after_row t toks a) else True"
    using acc wsj by (auto simp: top1_def le_less)
  have eq: "mtp_spec_round model st m toks n (tpos t) lg0 =
      (case mtp_frontier model st3 m1 a top1 lg0 of
         (m2, Inl e) \<Rightarrow> (st3, m2, lg0, Inl e)
       | (m2, Inr (lg, df)) \<Rightarrow>
           if a = n then mtp_finish model st3 m2 toks n (tpos t)
             (if compact_logits model then top1 else mtp_argmax lg (n_vocab st3)) top1 df lg
           else mtp_reject model st3 m2 toks a (tpos t) mis df lg)"
    by (simp only: mtp_spec_round_def Let_def st1_def [symmetric] v sc prod.case option.case
        st3_def [symmetric] top1_def [symmetric])
  obtain m2 lg2 df where fr: "mtp_frontier model st3 m1 a top1 lg0 = (m2, Inr (lg2, df))"
    and fin: "(if a = n then mtp_finish model st3 m2 toks n (tpos t)
                 (if compact_logits model then top1 else mtp_argmax lg2 (n_vocab st3)) top1 df lg2
               else mtp_reject model st3 m2 toks a (tpos t) mis df lg2) = (st', m', lg, Inr acc)"
    using assms(1) unfolding toks_def [symmetric] eq by (auto split: prod.splits sum.splits)
  have al: "a < length toks" and am: "a < MTP_MAX_COMMIT" using acc(1) len(2) assms(5) by auto
  have rowa: "ldist (if compact_logits model then lrow a m1 else the (logits_rows st3) ! a)
      (after_row t toks a)"
    using rows [rule_format, OF al] unfolding r3(4) .
  have f2: "verified holds mirrored tstep t toks hs m2"
    "ldist (if df then lrow a m2 else lg2) (after_row t toks a)" "\<not> compact_logits model \<longrightarrow> \<not> df"
    using frontier_exact [OF fr am vd rowa] by auto
  have gr: "take (Suc a) toks = greedy tstep pick t x (Suc a)"
    by (rule greedy_of_confirmed [OF _ len(4)])
       (use acc(1,2) len wsj in \<open>auto simp: after_row_def le_less_trans\<close>)
  have "acc = take (Suc a) toks \<and> round_ok st3 t x st' m' lg acc"
  proof (cases "a = n")
    case True
    have at: "at_target (foldl tstep t (take (Suc a) toks)) (\<lambda>q. lrow q m2) m2"
      using f2(1) len True by (simp add: verified_def at_target_def)
    have "mtp_finish model st3 m2 toks a (tpos t)
        (if compact_logits model then top1 else mtp_argmax lg2 (n_vocab st3)) top1 df lg2 =
        (st', m', lg, Inr acc)"
      using fin True by simp
    then show ?thesis
      by (rule finish_exact [OF _ r3(1) at al gr])
         (use top f2 in \<open>auto simp: after_row_def split: if_splits\<close>)
  next
    case False
    obtain m3 m4 where rb: "rollback_select_row S m2 a = (m3, None)"
        "rollback_truncate_all S m3 (tpos t + Suc a) = (m4, None)"
      and fin': "mtp_finish model st3 m4 toks a (tpos t) mis mis df lg2 = (st', m', lg, Inr acc)"
      using fin False r3(1) by (auto simp: mtp_reject_def ready_def split: prod.splits option.splits)
    have at: "at_target (foldl tstep t (take (Suc a) toks)) (\<lambda>q. lrow q m2) m4"
      by (rule rollback_exact [OF f2(1) _ len(3) _ rb]) (use False acc(1) len in auto)
    show ?thesis
      by (rule finish_exact [OF fin' r3(1) at al gr])
         (use False acc(1,3) wsj [of a] f2 in \<open>auto simp: after_row_def split: if_splits\<close>)
  qed
  then show ?thesis using r3(2,3) acc(1) len by (auto simp: round_ok_def)
qed

theorem cycle_exact:
  assumes "mtp_cycle model st m x (tpos t) budget cap (Some lg0) = (st', m', lg, Inr acc)"
    and "ready st" "in_sync holds m t"
  shows "int (length acc) \<le> budget \<and> int (length acc) \<le> cap \<and> length acc \<le> depth st + 1 \<and>
    round_ok st t x st' m' lg acc"
proof -
  define st2 where "st2 = mtp_open_round st x"
  define n where "n = n_verified st2 budget cap"
  note g = mtp_cycle_guards [OF assms(1)]
  have wf2: "mtp_wf st2" using assms(2) by (auto simp: st2_def ready_def intro: mtp_open_round_wf)
  have r2: "ready st2" "depth st2 = depth st" "hc_dim st2 = hc_dim st" "\<not> frontier_top1_valid st2"
    using wf2 assms(2) by (auto simp: ready_def st2_def mtp_open_round_fields)
  have body: "(if n < 1 \<or> depth st2 < 1 then mtp_commit_one model st2 m x (tpos t) lg0
       else mtp_spec_round model st2 m (x # take n (pending st2)) n (tpos t) lg0) = (st', m', lg, Inr acc)"
    using assms(1,2) mtp_cycle_body [OF _ _ g, of m x "tpos t" lg0]
    by (auto simp: ready_def mtp_wf_def Let_def st2_def n_def)
  have nb: "int n + 1 \<le> budget" "int n + 1 \<le> cap" "n \<le> n_pending st2"
    using n_verified_le [of st2 budget cap] n_offered_le [where st = st2 and budget = budget and cap = cap] g by (auto simp: n_def)
  have nd: "n \<le> depth st" "length (take n (pending st2)) = n" "n < MTP_MAX_COMMIT"
    using nb(3) wf2 r2(2) by (auto simp: mtp_wf_def mtp_consts)
  show ?thesis
  proof (cases "n < 1 \<or> depth st2 < 1")
    case True
    then have "mtp_commit_one model st2 m x (tpos t) lg0 = (st', m', lg, Inr acc)"
      using body by simp
    then have "acc = [x] \<and> round_ok st2 t x st' m' lg acc"
      by (rule commit_one_exact) (use r2 assms(3) in auto)
    then show ?thesis using g r2 by (auto simp: round_ok_def)
  next
    case False
    then have "length acc \<le> Suc n \<and> round_ok st2 t x st' m' lg acc"
      using spec_round_exact [OF _ r2(1) assms(3) nd(2,3)] body by simp
    then show ?thesis using nb nd r2 by (auto simp: round_ok_def)
  qed
qed

end

subsection \<open>A leg of rounds\<close>

text \<open>
  What a caller of the cycle does: feed a token, take the committed ones, sample the next fed
  token from the frontier and go on. \<open>mtp_leg model st m lg x pos out st' m' lg' x' pos'\<close> says that
  some number of rounds, each with its own budget and capacity, emitted \<open>out\<close>.
\<close>

definition frontier_token :: "('m, 'h) mtp_state \<Rightarrow> f32 list \<Rightarrow> token" where
  "frontier_token st lg =
     (if frontier_top1_valid st then frontier_top1 st else mtp_argmax lg (n_vocab st))"

inductive mtp_leg ::
  "('m, 'h) mtp_model \<Rightarrow> ('m, 'h) mtp_state \<Rightarrow> 'm \<Rightarrow> f32 list \<Rightarrow> token \<Rightarrow> nat \<Rightarrow> token list \<Rightarrow>
     ('m, 'h) mtp_state \<Rightarrow> 'm \<Rightarrow> f32 list \<Rightarrow> token \<Rightarrow> nat \<Rightarrow> bool" for model where
  leg_stop: "mtp_leg model st m lg x pos [] st m lg x pos"
| leg_round: "mtp_cycle model st m x pos budget cap (Some lg) = (st1, m1, lg1, Inr acc) \<Longrightarrow>
     mtp_leg model st1 m1 lg1 (frontier_token st1 lg1) (pos + length acc) out st2 m2 lg2 x2 pos2 \<Longrightarrow>
     mtp_leg model st m lg x pos (acc @ out) st2 m2 lg2 x2 pos2"

context mtp_seam
begin

lemma round_frontier_token: "round_ok st t x st' m' lg acc \<Longrightarrow> frontier_token st' lg = pick (foldl tstep t acc)"
  by (simp add: round_ok_def frontier_ok_def frontier_token_def)

lemma leg_exact:
  assumes "mtp_leg model st m lg x pos out st' m' lg' x' pos'"
    and "ready st" "in_sync holds m t" "pos = tpos t"
  shows "out = greedy tstep pick t x (length out) \<and> in_sync holds m' (foldl tstep t out) \<and>
    pos' = tpos (foldl tstep t out) \<and> ready st' \<and>
    (out = [] \<longrightarrow> x' = x) \<and> (out \<noteq> [] \<longrightarrow> x' = pick (foldl tstep t out))"
  using assms
proof (induction arbitrary: t rule: mtp_leg.induct)
  case (leg_stop st m lg x pos)
  then show ?case by simp
next
  case (leg_round st m x pos budget cap lg st1 m1 lg1 acc out st2 m2 lg2 x2 pos2)
  have ro: "round_ok st t x st1 m1 lg1 acc"
    using cycle_exact leg_round.hyps(1) leg_round.prems by blast
  let ?t = "foldl tstep t acc"
  have ft: "frontier_token st1 lg1 = pick ?t" by (rule round_frontier_token [OF ro])
  have "out = greedy tstep pick ?t (pick ?t) (length out) \<and> in_sync holds m2 (foldl tstep ?t out) \<and>
      pos2 = tpos (foldl tstep ?t out) \<and> ready st2 \<and> x2 = pick (foldl tstep ?t out)"
    using leg_round.IH [of ?t] ro leg_round.prems(3) unfolding ft
    by (auto simp: round_ok_def tpos_foldl)
  moreover have "acc @ out = greedy tstep pick t x (length (acc @ out))"
    using calculation ro greedy_append [of "length acc" tstep pick t x "length out"]
    by (simp add: round_ok_def Let_def)
  moreover have "acc \<noteq> []" using ro by (simp add: round_ok_def)
  ultimately show ?case unfolding foldl_append by blast
qed

end

end
