(* ===== verification/Graph_Session.thy ===== *)
theory Graph_Session
  imports Mtp_Exact
begin

text \<open>
  The qwen4exp graph session (\<open>ds4_qwen4exp_graph.inc\<close>), its rollback objects and the seam
  callbacks of \<open>ds4.c\<close>: the host-side bookkeeping that decides which device buffer a forward
  reads and writes. Lazy rollback (\<open>adopt_state\<close>, \<open>adopt_conv\<close>), the settling copy and the
  checkpoint/replay controller of \<open>ds4_qwen4exp_gdn_replay.h\<close> are modelled as written.

  The device is a parameter: a record of kernels over one type \<open>'v\<close> of tensor contents (all
  layers' recurrent states are one value, all layers' key/value rows of one position another)
  and \<open>'q\<close>, the n-gram history. What the host relies on is the locale \<open>qwen_kernels\<close>: an
  \<open>n\<close>-row forward is \<open>n\<close> one-row forwards, which \<open>ds4_qwen4exp_mtp.h\<close> calls batch invariance.
  A device call that reports failure is \<open>None\<close> or the predicate \<open>fails\<close>.

  Not modelled: buffer allocation and sizes, CUDA graph capture, the trace and timing hooks,
  the test-only forced drafts, and here the fan-out of the n-gram gather over threads, whose
  result \<open>Ple_Pool_Live\<close> shows to be that of the sequential scan.
\<close>

subsection \<open>The replay controller\<close>

definition GDN_REPLAY_ROWS :: nat where "GDN_REPLAY_ROWS = 2"

record replay_step =
  rs_active :: bool
  rs_settle :: bool
  rs_swap :: bool
  rs_prefix :: nat

definition gdn_replay_plan ::
  "bool \<Rightarrow> bool \<Rightarrow> nat \<Rightarrow> nat \<Rightarrow> nat \<Rightarrow> nat \<Rightarrow> nat \<Rightarrow> nat \<Rightarrow> nat \<Rightarrow> replay_step" where
  "gdn_replay_plan enabled previous old_prefix capacity width snapshots max_adopt_width recurrent conv =
     (let active = enabled \<and> width = 2 \<and> snapshots = 1;
          reuse = active \<and> previous \<and> recurrent = 1 \<and> conv = 1
      in \<lparr>rs_active = active,
          rs_settle = (recurrent \<noteq> 0 \<or> conv \<noteq> 0) \<and>
            (width > max_adopt_width \<or> recurrent \<noteq> conv \<or> (active \<and> \<not> reuse) \<or>
             (\<not> active \<and> previous \<and> recurrent \<noteq> 0)),
          rs_swap = active \<and> \<not> reuse,
          rs_prefix = (if reuse then (if old_prefix = capacity then 0 else old_prefix + 1) else 0)\<rparr>)"

subsection \<open>Kernels and session\<close>

text \<open>What one row of the tower leaves: each object's contents after it, and the transition
  the recurrence applied.\<close>

record 'v rowout =
  ro_state :: 'v
  ro_conv :: 'v
  ro_ple :: 'v
  ro_kv :: 'v
  ro_tape :: 'v
  ro_hyper :: 'v
  ro_trans :: 'v

record ('v, 'q) kernels =
  k_n_vocab :: nat
  k_hc_dim :: nat
  k_rows :: "'v \<Rightarrow> 'v \<Rightarrow> 'v \<Rightarrow> (nat \<Rightarrow> 'v) \<Rightarrow> (nat \<Rightarrow> 'v) \<Rightarrow> nat \<Rightarrow> token list \<Rightarrow> 'v list \<Rightarrow>
               'v rowout list option"
  k_apply :: "'v \<Rightarrow> 'v \<Rightarrow> 'v"
  k_gather :: "'q \<Rightarrow> token \<Rightarrow> 'q \<times> 'v option"
  k_logits :: "'v list \<Rightarrow> f32 list list"
  k_top1 :: "'v list \<Rightarrow> int list"
  k_head :: "'v \<Rightarrow> token list \<Rightarrow> 'v list \<Rightarrow> nat \<Rightarrow> 'v \<times> f32 \<times> (token \<times> 'v) option"

record ('v, 'q) gsession =
  g_pos :: nat
  g_n_ctx :: nat
  g_n_batch :: nat
  state_dirty :: bool
  gdn_state :: 'v
  gdn_conv :: 'v
  ple_conv_state :: 'v
  ple_history :: 'q
  gdn_state_snapshot :: "nat \<Rightarrow> 'v"
  gdn_conv_snapshot :: "nat \<Rightarrow> 'v"
  ple_conv_snapshot :: "nat \<Rightarrow> 'v"
  ple_history_rows :: "nat \<Rightarrow> 'q"
  qsa_kv :: "nat \<Rightarrow> 'v"
  idx_tape :: "nat \<Rightarrow> 'v"
  lazy_rollback :: bool
  adopt_state :: nat
  adopt_conv :: nat
  replay_enabled :: bool
  replay_active :: bool
  replay_previous :: bool
  replay_prefix :: nat
  gdn_checkpoint :: 'v
  replay_tape :: "nat \<Rightarrow> 'v"
  indexer_valid_blocks :: nat
  head_cache_pos :: nat
  head_cache :: 'v
  last_margin :: f32
  g_logits :: "f32 list list"
  g_hyper :: "'v list"

type_synonym ('v, 'q) fails = "string \<Rightarrow> ('v, 'q) gsession \<Rightarrow> bool"

text \<open>The state the replay kernel rebuilds from a checkpoint and \<open>n\<close> logged transitions.\<close>

definition replayed :: "('v, 'q) kernels \<Rightarrow> 'v \<Rightarrow> (nat \<Rightarrow> 'v) \<Rightarrow> nat \<Rightarrow> 'v" where
  "replayed K c tape n = foldl (k_apply K) c (map tape [0..<n])"

text \<open>
  \<open>qwen4exp_gdn_replay_snapshot\<close> publishes the virtual row-zero snapshot into its slot; any
  other row is refused while the last forward was a replay.
\<close>

definition replay_snapshot ::
  "('v, 'q) kernels \<Rightarrow> ('v, 'q) gsession \<Rightarrow> nat \<Rightarrow> ('v, 'q) gsession option" where
  "replay_snapshot K s row =
     (if \<not> replay_previous s then Some s
      else if row \<noteq> 0 then None
      else let rows = (if replay_prefix s = GDN_REPLAY_ROWS then 0 else replay_prefix s + 1)
           in Some (s\<lparr>gdn_state_snapshot := (gdn_state_snapshot s)
                       (0 := replayed K (gdn_checkpoint s) (replay_tape s) rows)\<rparr>))"

definition session_copy_layers ::
  "('v, 'q) kernels \<Rightarrow> ('v, 'q) fails \<Rightarrow> ('v, 'q) gsession \<Rightarrow> nat \<Rightarrow> bool \<Rightarrow> bool \<Rightarrow>
     ('v, 'q) gsession \<times> bool" where
  "session_copy_layers K fails s0 row recurrent conv =
     (let s = s0\<lparr>state_dirty := True\<rparr>
      in if row \<ge> IMPLEMENTED_DEPTH \<or> fails ''copy'' s then (s, False)
         else case (if recurrent then replay_snapshot K s row else Some s) of
                None \<Rightarrow> (s, False)
              | Some s1 \<Rightarrow>
                  let s2 = (if recurrent then s1\<lparr>gdn_state := gdn_state_snapshot s1 row\<rparr> else s1);
                      s3 = (if conv then s2\<lparr>gdn_conv := gdn_conv_snapshot s2 row\<rparr> else s2)
                  in (if recurrent then s3\<lparr>replay_previous := False\<rparr> else s3, True))"

definition session_select_layers ::
  "('v, 'q) kernels \<Rightarrow> ('v, 'q) fails \<Rightarrow> ('v, 'q) gsession \<Rightarrow> nat \<Rightarrow> bool \<Rightarrow> bool \<Rightarrow>
     ('v, 'q) gsession \<times> bool" where
  "session_select_layers K fails s0 row recurrent conv =
     (if lazy_rollback s0 then
        (let s = s0\<lparr>state_dirty := True\<rparr>
         in if row \<ge> IMPLEMENTED_DEPTH \<or> (recurrent \<and> replay_previous s \<and> row \<noteq> 0) then (s, False)
            else let s1 = (if recurrent then s\<lparr>adopt_state := row + 1\<rparr> else s)
                 in (if conv then s1\<lparr>adopt_conv := row + 1\<rparr> else s1, True))
      else session_copy_layers K fails s0 row recurrent conv)"

subsection \<open>The forward\<close>

text \<open>The n-gram rows of the tokens, and the history as it stood after each.\<close>

primrec ple_scan ::
  "('v, 'q) kernels \<Rightarrow> 'q \<Rightarrow> token list \<Rightarrow> ('q \<times> 'v option) list" where
  "ple_scan K q [] = []"
| "ple_scan K q (x # xs) = (case k_gather K q x of (q', r) \<Rightarrow> (q', r) # ple_scan K q' xs)"

definition graph_ple_gather ::
  "('v, 'q) kernels \<Rightarrow> ('v, 'q) gsession \<Rightarrow> token list \<Rightarrow> nat \<Rightarrow>
     ('v, 'q) gsession \<times> 'v list option" where
  "graph_ple_gather K s toks snapshots =
     (let sc = ple_scan K (ple_history s) toks;
          s1 = s\<lparr>ple_history := fst (last sc),
                 ple_history_rows := (\<lambda>t. if t < length toks \<and> t < snapshots then fst (sc ! t)
                                          else ple_history_rows s t)\<rparr>
      in (s1, if list_all (\<lambda>r. snd r \<noteq> None) sc then Some (map (the \<circ> snd) sc) else None))"

text \<open>
  Before the batch: settle a pending adoption the kernels cannot read, then swap or extend the
  replay checkpoint.
\<close>

definition graph_settle ::
  "('v, 'q) kernels \<Rightarrow> ('v, 'q) fails \<Rightarrow> ('v, 'q) gsession \<Rightarrow> ('v, 'q) gsession option" where
  "graph_settle K fails s =
     (let rs = adopt_state s; rc = adopt_conv s
      in if rs \<noteq> 0 \<and> rs = rc then
           (case session_copy_layers K fails s (rs - 1) True True of
              (s1, True) \<Rightarrow> Some (s1\<lparr>adopt_state := 0, adopt_conv := 0\<rparr>)
            | _ \<Rightarrow> None)
         else
           (case (if rs \<noteq> 0 then session_copy_layers K fails s (rs - 1) True False else (s, True)) of
              (s1, True) \<Rightarrow>
                (case (if rc \<noteq> 0 then session_copy_layers K fails s1 (rc - 1) False True
                       else (s1, True)) of
                   (s2, True) \<Rightarrow> Some (s2\<lparr>adopt_state := 0, adopt_conv := 0\<rparr>)
                 | _ \<Rightarrow> None)
            | _ \<Rightarrow> None))"

definition replay_prepare :: "replay_step \<Rightarrow> ('v, 'q) gsession \<Rightarrow> ('v, 'q) gsession" where
  "replay_prepare p s =
     (let s1 = s\<lparr>replay_active := rs_active p\<rparr>;
          s2 = (if rs_swap p
                then s1\<lparr>gdn_state := gdn_checkpoint s1, gdn_checkpoint := gdn_state s1\<rparr> else s1)
      in if rs_active p then s2\<lparr>replay_prefix := rs_prefix p\<rparr> else s2)"

text \<open>
  What the layers read: the live recurrent state, the adopted slot, or the replayed
  checkpoint; the convolution through the same flag.
\<close>

definition read_state :: "('v, 'q) kernels \<Rightarrow> ('v, 'q) gsession \<Rightarrow> 'v" where
  "read_state K s =
     (if replay_active s then replayed K (gdn_checkpoint s) (replay_tape s) (replay_prefix s)
      else if lazy_rollback s \<and> adopt_state s \<noteq> 0 then gdn_state_snapshot s (adopt_state s - 1)
      else gdn_state s)"

definition read_conv :: "('v, 'q) gsession \<Rightarrow> 'v" where
  "read_conv s =
     (if lazy_rollback s \<and> adopt_state s \<noteq> 0 then gdn_conv_snapshot s (adopt_state s - 1)
      else gdn_conv s)"

text \<open>What they write, row by row: slots of the first \<open>snapshots\<close> rows, caches, live state.\<close>

definition write_rows ::
  "('v, 'q) kernels \<Rightarrow> nat \<Rightarrow> 'v rowout list \<Rightarrow> ('v, 'q) gsession \<Rightarrow> ('v, 'q) gsession" where
  "write_rows K snapshots outs s =
     (let n = length outs; start = read_state K s;
          slots = (\<lambda>old f t. if t < n \<and> t < snapshots then f (outs ! t) else old t)
      in s\<lparr>gdn_state := ro_state (last outs), gdn_conv := ro_conv (last outs),
           ple_conv_state := ro_ple (last outs),
           gdn_state_snapshot := (if replay_active s then gdn_state_snapshot s
                                  else slots (gdn_state_snapshot s) ro_state),
           gdn_conv_snapshot := slots (gdn_conv_snapshot s) ro_conv,
           ple_conv_snapshot := slots (ple_conv_snapshot s) ro_ple,
           replay_tape := (if replay_active s \<and> replay_prefix s < GDN_REPLAY_ROWS
                           then (replay_tape s)(replay_prefix s := ro_trans (hd outs))
                           else replay_tape s),
           gdn_checkpoint := (if replay_active s \<and> replay_prefix s = GDN_REPLAY_ROWS
                              then k_apply K start (ro_trans (hd outs)) else gdn_checkpoint s),
           qsa_kv := (\<lambda>i. if g_pos s \<le> i \<and> i < g_pos s + n then ro_kv (outs ! (i - g_pos s))
                          else qsa_kv s i),
           idx_tape := (\<lambda>i. if g_pos s \<le> i \<and> i < g_pos s + n then ro_tape (outs ! (i - g_pos s))
                            else idx_tape s i),
           g_hyper := map ro_hyper outs,
           replay_previous := replay_active s, adopt_state := 0, adopt_conv := 0\<rparr>)"

definition graph_forward ::
  "('v, 'q) kernels \<Rightarrow> ('v, 'q) fails \<Rightarrow> ('v, 'q) gsession \<Rightarrow> token list \<Rightarrow> nat \<Rightarrow> bool \<Rightarrow>
     ('v, 'q) gsession \<times> bool" where
  "graph_forward K fails s toks snapshots logit_all =
     (if toks = [] \<or> length toks > g_n_batch s \<or> g_pos s + length toks > g_n_ctx s then (s, False)
      else
        let s0 = s\<lparr>state_dirty := True\<rparr>
        in if \<not> list_all (\<lambda>x. 0 \<le> x \<and> x < int (k_n_vocab K)) toks then (s0, False)
           else case graph_ple_gather K s0 toks snapshots of
             (s1, None) \<Rightarrow> (s1, False)
           | (s1, Some xs) \<Rightarrow>
               let p = gdn_replay_plan (replay_enabled s1) (replay_previous s1) (replay_prefix s1)
                         GDN_REPLAY_ROWS (length toks) snapshots MTP_MAX_COMMIT
                         (adopt_state s1) (adopt_conv s1)
               in case (if rs_settle p then graph_settle K fails s1 else Some s1) of
                    None \<Rightarrow> (s1, False)
                  | Some s2 \<Rightarrow>
                      let s3 = replay_prepare p s2
                      in case k_rows K (read_state K s3) (read_conv s3) (ple_conv_state s3)
                                (qsa_kv s3) (idx_tape s3) (g_pos s3) toks xs of
                           None \<Rightarrow> (s3, False)
                         | Some outs \<Rightarrow>
                             let s4 = write_rows K snapshots outs s3
                             in if fails ''head'' s4 then (s4, False)
                                else
                                  let ls = k_logits K (if logit_all then map ro_hyper outs
                                                       else [ro_hyper (last outs)])
                                  in (s4\<lparr>g_logits := ls @ drop (length ls) (g_logits s4),
                                         g_pos := g_pos s4 + length toks\<rparr>, True))"

definition snapshot_rows :: "nat \<Rightarrow> nat" where
  "snapshot_rows n = (if n > 1 \<and> n \<le> MTP_MAX_COMMIT then n - 1 else 0)"

definition session_reset :: "'v \<Rightarrow> 'q \<Rightarrow> ('v, 'q) gsession \<Rightarrow> ('v, 'q) gsession" where
  "session_reset zero q0 s =
     (let s1 = s\<lparr>head_cache_pos := 0, adopt_state := 0, adopt_conv := 0, replay_active := False,
                 replay_previous := False, replay_prefix := 0\<rparr>
      in if \<not> state_dirty s1 then s1\<lparr>g_pos := 0\<rparr>
         else s1\<lparr>gdn_conv := zero, gdn_state := zero, qsa_kv := (\<lambda>_. zero), idx_tape := (\<lambda>_. zero),
                 ple_conv_state := zero, head_cache := zero, ple_history := q0, g_pos := 0,
                 state_dirty := False\<rparr>)"

subsection \<open>Rollback objects\<close>

definition rb_gdn_recurrent_select ::
  "('v, 'q) kernels \<Rightarrow> ('v, 'q) fails \<Rightarrow> ('v, 'q) gsession rb_call" where
  "rb_gdn_recurrent_select K fails s row = session_select_layers K fails s row True False"

definition rb_gdn_conv_select ::
  "('v, 'q) kernels \<Rightarrow> ('v, 'q) fails \<Rightarrow> ('v, 'q) gsession rb_call" where
  "rb_gdn_conv_select K fails s row = session_select_layers K fails s row False True"

definition rb_ple_hist_select :: "('v, 'q) gsession rb_call" where
  "rb_ple_hist_select s row =
     (if row \<ge> IMPLEMENTED_DEPTH then (s, False)
      else (s\<lparr>state_dirty := True, ple_history := ple_history_rows s row\<rparr>, True))"

definition rb_ple_conv_select :: "('v, 'q) fails \<Rightarrow> ('v, 'q) gsession rb_call" where
  "rb_ple_conv_select fails s row =
     (if row \<ge> IMPLEMENTED_DEPTH then (s, False)
      else let s1 = s\<lparr>state_dirty := True\<rparr>
           in if fails ''ple copy'' s1 then (s1, False)
              else (s1\<lparr>ple_conv_state := ple_conv_snapshot s1 row\<rparr>, True))"

definition rb_qsa_kv_truncate :: "('v, 'q) gsession rb_call" where
  "rb_qsa_kv_truncate s p =
     (if p > g_n_ctx s then (s, False) else (s\<lparr>state_dirty := True, g_pos := p\<rparr>, True))"

text \<open>\<open>DS4_N_INDEXER_COMPRESS_RATIO\<close> is a constant of the model shape.\<close>

definition rb_qsa_indexer_truncate :: "nat \<Rightarrow> ('v, 'q) gsession rb_call" where
  "rb_qsa_indexer_truncate ratio s p =
     (if p > g_n_ctx s then (s, False)
      else (s\<lparr>state_dirty := True, indexer_valid_blocks := p div ratio\<rparr>, True))"

definition rb_head_cache_truncate :: "('v, 'q) gsession rb_call" where
  "rb_head_cache_truncate s p = (s\<lparr>state_dirty := True, head_cache_pos := p\<rparr>, True)"

definition session_objects ::
  "('v, 'q) kernels \<Rightarrow> ('v, 'q) fails \<Rightarrow> nat \<Rightarrow> (int \<times> ('v, 'q) gsession rollback_object) list" where
  "session_objects K fails ratio =
     [(STATE_GDN_RECURRENT, \<lparr>select_row = Some (rb_gdn_recurrent_select K fails), truncate_to = None\<rparr>),
      (STATE_GDN_CONV, \<lparr>select_row = Some (rb_gdn_conv_select K fails), truncate_to = None\<rparr>),
      (STATE_PLE_HISTORY, \<lparr>select_row = Some rb_ple_hist_select, truncate_to = None\<rparr>),
      (STATE_PLE_CONV, \<lparr>select_row = Some (rb_ple_conv_select fails), truncate_to = None\<rparr>),
      (STATE_QSA_KV, \<lparr>select_row = None, truncate_to = Some rb_qsa_kv_truncate\<rparr>),
      (STATE_QSA_INDEXER_TAPE, \<lparr>select_row = None, truncate_to = Some (rb_qsa_indexer_truncate ratio)\<rparr>),
      (STATE_MTP_HEAD_CACHE, \<lparr>select_row = None, truncate_to = Some rb_head_cache_truncate\<rparr>)]"

primrec register_all ::
  "(int \<times> 'm rollback_object) list \<Rightarrow> 'm rollback_set \<Rightarrow> (mtp_error, 'm rollback_set) result" where
  "register_all [] S = Inr S"
| "register_all (x # xs) S =
     (case rollback_register S (fst x) (snd x) of
        Inl e \<Rightarrow> Inl e
      | Inr S' \<Rightarrow> register_all xs S')"

definition session_rollback_set ::
  "('v, 'q) kernels \<Rightarrow> ('v, 'q) fails \<Rightarrow> nat \<Rightarrow>
     (mtp_error, ('v, 'q) gsession rollback_set) result" where
  "session_rollback_set K fails ratio =
     (case register_all (session_objects K fails ratio) rollback_init of
        Inl e \<Rightarrow> Inl e
      | Inr S \<Rightarrow> (case rollback_check S of Some e \<Rightarrow> Inl e | None \<Rightarrow> Inr S))"

subsection \<open>The seam of \<open>ds4.c\<close>\<close>

definition graph_verify_rows ::
  "('v, 'q) kernels \<Rightarrow> ('v, 'q) fails \<Rightarrow> ('v, 'q) gsession \<Rightarrow> token list \<Rightarrow>
     ('v, 'q) gsession \<times> ('v list \<times> f32 list list) option" where
  "graph_verify_rows K fails s toks =
     (if length toks > MTP_MAX_COMMIT then (s, None)
      else case graph_forward K fails s toks (snapshot_rows (length toks)) True of
             (s1, False) \<Rightarrow> (s1, None)
           | (s1, True) \<Rightarrow>
               if fails ''read hyper'' s1 then (s1, None) else (s1, Some (g_hyper s1, take (length toks) (g_logits s1))))"

definition seam_verify_rows ::
  "('v, 'q) kernels \<Rightarrow> ('v, 'q) fails \<Rightarrow> ('v, 'q) gsession \<Rightarrow> token list \<Rightarrow> nat \<Rightarrow>
     ('v, 'q) gsession \<times> ('v list \<times> f32 list list) option" where
  "seam_verify_rows K fails s toks pos0 =
     (if g_pos s \<noteq> pos0 \<or> length toks > MTP_MAX_COMMIT then (s, None)
      else graph_verify_rows K fails s toks)"

definition seam_verify_rows_top1 ::
  "('v, 'q) kernels \<Rightarrow> ('v, 'q) fails \<Rightarrow> ('v, 'q) gsession \<Rightarrow> token list \<Rightarrow> nat \<Rightarrow>
     ('v, 'q) gsession \<times> ('v list \<times> int list) option" where
  "seam_verify_rows_top1 K fails s toks pos0 =
     (if g_pos s \<noteq> pos0 \<or> length toks > MTP_MAX_COMMIT \<or> toks = [] then (s, None)
      else case graph_forward K fails s toks (length toks - 1) True of
             (s1, False) \<Rightarrow> (s1, None)
           | (s1, True) \<Rightarrow>
               if fails ''read top1'' s1 then (s1, None)
               else (s1, Some (g_hyper s1, k_top1 K (g_hyper s1))))"

definition seam_read_logit_row ::
  "('v, 'q) fails \<Rightarrow> ('v, 'q) gsession \<Rightarrow> nat \<Rightarrow> ('v, 'q) gsession \<times> f32 list option" where
  "seam_read_logit_row fails s row =
     (if row \<ge> MTP_MAX_COMMIT \<or> fails ''read logits'' s then (s, None) else (s, Some (g_logits s ! row)))"

definition seam_decode_token ::
  "('v, 'q) kernels \<Rightarrow> ('v, 'q) fails \<Rightarrow> ('v, 'q) gsession \<Rightarrow> token \<Rightarrow> nat \<Rightarrow>
     ('v, 'q) gsession \<times> ('v \<times> f32 list) option" where
  "seam_decode_token K fails s x p =
     (case seam_verify_rows K fails s [x] p of
        (s1, None) \<Rightarrow> (s1, None)
      | (s1, Some (hs, ls)) \<Rightarrow> (s1, Some (hs ! 0, ls ! 0)))"

text \<open>The head runs on its own cache slot; it borrows the session's position and restores it.\<close>

definition seam_draft_rows ::
  "('v, 'q) kernels \<Rightarrow> ('v, 'q) gsession \<Rightarrow> token list \<Rightarrow> 'v list \<Rightarrow> nat \<Rightarrow>
     ('v, 'q) gsession \<times> (token \<times> 'v) option" where
  "seam_draft_rows K s xs hs p =
     (case k_head K (head_cache s) xs hs p of
        (c, mg, r) \<Rightarrow> (s\<lparr>state_dirty := True, head_cache := c, last_margin := mg\<rparr>, r))"

definition seam_draft_step ::
  "('v, 'q) kernels \<Rightarrow> ('v, 'q) gsession \<Rightarrow> token \<Rightarrow> 'v \<Rightarrow> nat \<Rightarrow>
     ('v, 'q) gsession \<times> (token \<times> 'v) option" where
  "seam_draft_step K s x h p = seam_draft_rows K s [x] [h] p"

definition qwen4exp_seam ::
  "('v, 'q) kernels \<Rightarrow> ('v, 'q) fails \<Rightarrow> (('v, 'q) gsession, 'v) mtp_model" where
  "qwen4exp_seam K fails =
     \<lparr>seam_hc_dim = k_hc_dim K, seam_n_vocab = k_n_vocab K,
      verify_rows = seam_verify_rows K fails,
      verify_rows_top1 = Some (seam_verify_rows_top1 K fails),
      read_logit_row = Some (seam_read_logit_row fails),
      defer_frontier_logits = True,
      decode_token = seam_decode_token K fails,
      draft_step = seam_draft_step K,
      draft_rows = Some (seam_draft_rows K),
      draft_margin = Some last_margin\<rparr>"

end
