(* ===== verification/Graph_Exact.thy ===== *)
theory Graph_Exact
  imports Graph_Session
begin

text \<open>
  The graph session keeps the seam's contract: with kernels that are batch invariant, the
  session's forward, its lazy or copying rollback and its replay controller implement
  \<open>mtp_seam\<close>. The abstract target is the one-row forward over plain values; the session
  represents it through adopted slots, checkpoints and position-addressed caches.
\<close>

subsection \<open>The abstract target\<close>

record ('v, 'q) target =
  t_state :: 'v
  t_conv :: 'v
  t_ple :: 'v
  t_hist :: 'q
  t_kv :: "'v list"
  t_tape :: "'v list"
  t_hyper :: 'v

type_synonym 'v row_forward = "'v \<Rightarrow> 'v \<Rightarrow> 'v \<Rightarrow> 'v list \<Rightarrow> 'v list \<Rightarrow> token \<Rightarrow> 'v \<Rightarrow> 'v rowout"

primrec serial_rows ::
  "'v row_forward \<Rightarrow> 'v \<Rightarrow> 'v \<Rightarrow> 'v \<Rightarrow> 'v list \<Rightarrow> 'v list \<Rightarrow> (token \<times> 'v) list \<Rightarrow> 'v rowout list" where
  "serial_rows row r c p kv tp [] = []"
| "serial_rows row r c p kv tp (xg # xgs) =
     (let out = row r c p kv tp (fst xg) (snd xg)
      in out # serial_rows row (ro_state out) (ro_conv out) (ro_ple out)
                 (kv @ [ro_kv out]) (tp @ [ro_tape out]) xgs)"

definition target_row :: "('v, 'q) kernels \<Rightarrow> 'v row_forward \<Rightarrow> ('v, 'q) target \<Rightarrow> token \<Rightarrow> 'v rowout" where
  "target_row K row t x =
     row (t_state t) (t_conv t) (t_ple t) (t_kv t) (t_tape t) x (the (snd (k_gather K (t_hist t) x)))"

definition target_step ::
  "('v, 'q) kernels \<Rightarrow> 'v row_forward \<Rightarrow> ('v, 'q) target \<Rightarrow> token \<Rightarrow> ('v, 'q) target" where
  "target_step K row t x =
     (let out = target_row K row t x
      in \<lparr>t_state = ro_state out, t_conv = ro_conv out, t_ple = ro_ple out,
          t_hist = fst (k_gather K (t_hist t) x), t_kv = t_kv t @ [ro_kv out],
          t_tape = t_tape t @ [ro_tape out], t_hyper = ro_hyper out\<rparr>)"

definition target_pos :: "('v, 'q) target \<Rightarrow> nat" where
  "target_pos t = length (t_kv t)"

definition target_pick :: "('v, 'q) kernels \<Rightarrow> ('v, 'q) target \<Rightarrow> token" where
  "target_pick K t = mtp_argmax (k_logits K [t_hyper t] ! 0) (k_n_vocab K)"

text \<open>A row of logits renders a state when the device produced it and its argmax is the state's.\<close>

definition renders :: "('v, 'q) kernels \<Rightarrow> f32 list \<Rightarrow> ('v, 'q) target \<Rightarrow> bool" where
  "renders K l t \<longleftrightarrow> mtp_argmax l (k_n_vocab K) = target_pick K t \<and> (\<exists>hs. l \<in> set (k_logits K hs))"

subsection \<open>What the session represents\<close>

text \<open>A slot of the recurrent state, virtual when the last forward was a replay, and the state
  the next forward continues from.\<close>

definition slot_state :: "('v, 'q) kernels \<Rightarrow> ('v, 'q) gsession \<Rightarrow> nat \<Rightarrow> 'v" where
  "slot_state K s r =
     (if replay_previous s \<and> r = 0
      then replayed K (gdn_checkpoint s) (replay_tape s)
             (if replay_prefix s = GDN_REPLAY_ROWS then 0 else replay_prefix s + 1)
      else gdn_state_snapshot s r)"

definition eff_state :: "('v, 'q) kernels \<Rightarrow> ('v, 'q) gsession \<Rightarrow> 'v" where
  "eff_state K s = (if adopt_state s = 0 then gdn_state s else slot_state K s (adopt_state s - 1))"

definition eff_conv :: "('v, 'q) gsession \<Rightarrow> 'v" where
  "eff_conv s = (if adopt_conv s = 0 then gdn_conv s else gdn_conv_snapshot s (adopt_conv s - 1))"

text \<open>A pending adoption of the replayed state names its only slot, and nothing is pending
  without lazy rollback.\<close>

definition adopt_ok :: "('v, 'q) gsession \<Rightarrow> bool" where
  "adopt_ok s \<longleftrightarrow> (\<not> lazy_rollback s \<longrightarrow> adopt_state s = 0 \<and> adopt_conv s = 0) \<and>
     (replay_previous s \<longrightarrow> replay_prefix s \<le> GDN_REPLAY_ROWS)"

definition graph_holds ::
  "('v, 'q) kernels \<Rightarrow> nat \<Rightarrow> ('v, 'q) gsession \<Rightarrow> ('v, 'q) target \<Rightarrow> bool" where
  "graph_holds K i s t \<longleftrightarrow>
     (if i = 0 then adopt_ok s \<and> eff_state K s = t_state t
      else if i = 1 then adopt_ok s \<and> eff_conv s = t_conv t
      else if i = 2 then g_pos s = length (t_kv t) \<and> (\<forall>n < length (t_kv t). qsa_kv s n = t_kv t ! n)
      else if i = 3 then length (t_tape t) = length (t_kv t) \<and>
             (\<forall>n < length (t_tape t). idx_tape s n = t_tape t ! n)
      else if i = 4 then ple_history s = t_hist t
      else if i = 5 then ple_conv_state s = t_ple t
      else True)"

definition graph_mirrored ::
  "('v, 'q) kernels \<Rightarrow> nat \<Rightarrow> nat \<Rightarrow> ('v, 'q) gsession \<Rightarrow> ('v, 'q) target \<Rightarrow> bool" where
  "graph_mirrored K i r s t \<longleftrightarrow>
     (if i = 0 then adopt_ok s \<and> slot_state K s r = t_state t
      else if i = 1 then adopt_ok s \<and> gdn_conv_snapshot s r = t_conv t
      else if i = 4 then ple_history_rows s r = t_hist t
      else if i = 5 then ple_conv_snapshot s r = t_ple t
      else True)"

definition device_row :: "nat \<Rightarrow> ('v, 'q) gsession \<Rightarrow> f32 list" where
  "device_row r s = g_logits s ! r"

lemma six_objects: "(\<forall>i < 6. P i) \<longleftrightarrow> P 0 \<and> P 1 \<and> P 2 \<and> P 3 \<and> P 4 \<and> P (5 :: nat)"
proof -
  have "i < 6 \<longleftrightarrow> i = 0 \<or> i = 1 \<or> i = 2 \<or> i = 3 \<or> i = 4 \<or> i = 5" for i :: nat by arith
  then show ?thesis by auto
qed

lemma in_sync_graph:
  "in_sync (graph_holds K) s t \<longleftrightarrow>
     adopt_ok s \<and> eff_state K s = t_state t \<and> eff_conv s = t_conv t \<and>
     g_pos s = length (t_kv t) \<and> (\<forall>n < length (t_kv t). qsa_kv s n = t_kv t ! n) \<and>
     length (t_tape t) = length (t_kv t) \<and> (\<forall>n < length (t_tape t). idx_tape s n = t_tape t ! n) \<and>
     ple_history s = t_hist t \<and> ple_conv_state s = t_ple t"
  unfolding in_sync_def six_objects by (auto simp: graph_holds_def)

subsection \<open>Settling and replay\<close>

text \<open>
  Whatever the plan decides, the layers read the effective state: a pending adoption is read
  through the flag, replayed from the checkpoint, or copied in first.
\<close>

lemma copy_layers_cases:
  assumes "session_copy_layers K fails s r rec cv = (s', True)"
  shows "r < IMPLEMENTED_DEPTH \<and>
    gdn_state s' = (if rec then slot_state K s r else gdn_state s) \<and>
    gdn_conv s' = (if cv then gdn_conv_snapshot s r else gdn_conv s) \<and>
    gdn_conv_snapshot s' = gdn_conv_snapshot s \<and>
    replay_previous s' = (replay_previous s \<and> \<not> rec) \<and>
    (\<not> rec \<longrightarrow> slot_state K s' = slot_state K s) \<and>
    adopt_state s' = adopt_state s \<and> adopt_conv s' = adopt_conv s \<and>
    lazy_rollback s' = lazy_rollback s \<and> replay_prefix s' = replay_prefix s \<and>
    replay_enabled s' = replay_enabled s \<and>
    ple_history s' = ple_history s \<and> ple_history_rows s' = ple_history_rows s \<and>
    ple_conv_state s' = ple_conv_state s \<and> ple_conv_snapshot s' = ple_conv_snapshot s \<and>
    qsa_kv s' = qsa_kv s \<and> idx_tape s' = idx_tape s \<and> g_pos s' = g_pos s \<and> g_logits s' = g_logits s \<and>
    state_dirty s'"
proof -
  have r: "r < IMPLEMENTED_DEPTH" "\<not> fails ''copy'' (s\<lparr>state_dirty := True\<rparr>)"
    using assms by (auto simp: session_copy_layers_def Let_def split: if_splits)
  define s0 where "s0 = s\<lparr>state_dirty := True\<rparr>"
  obtain s1 where s1: "(if rec then replay_snapshot K s0 r else Some s0) = Some s1"
    using assms r unfolding session_copy_layers_def Let_def s0_def
    by (cases "if rec then replay_snapshot K (s\<lparr>state_dirty := True\<rparr>) r
          else Some (s\<lparr>state_dirty := True\<rparr>)") auto
  have s': "s' = (let s2 = (if rec then s1\<lparr>gdn_state := gdn_state_snapshot s1 r\<rparr> else s1);
        s3 = (if cv then s2\<lparr>gdn_conv := gdn_conv_snapshot s2 r\<rparr> else s2)
      in if rec then s3\<lparr>replay_previous := False\<rparr> else s3)"
    using assms r s1 unfolding session_copy_layers_def Let_def s0_def by simp
  show ?thesis
  proof (cases rec)
    case False
    then have "s1 = s0" using s1 by simp
    then show ?thesis
      using False r by (cases cv) (simp_all add: s' s0_def slot_state_def fun_eq_iff)
  next
    case True
    then have sn: "replay_snapshot K s0 r = Some s1" using s1 by simp
    show ?thesis
    proof (cases "replay_previous s")
      case False
      then have "s1 = s0" using sn by (simp add: replay_snapshot_def s0_def)
      then show ?thesis
        using True False r by (cases cv) (simp_all add: s' s0_def slot_state_def)
    next
      case prev: True
      then have "r = 0" "s1 = s0\<lparr>gdn_state_snapshot := (gdn_state_snapshot s0)
          (0 := replayed K (gdn_checkpoint s0) (replay_tape s0)
             (if replay_prefix s0 = GDN_REPLAY_ROWS then 0 else replay_prefix s0 + 1))\<rparr>"
        using sn by (auto simp: replay_snapshot_def s0_def Let_def split: if_splits)
      then show ?thesis
        using True prev r by (cases cv) (simp_all add: s' s0_def slot_state_def)
    qed
  qed
qed

definition same_objects :: "('v, 'q) gsession \<Rightarrow> ('v, 'q) gsession \<Rightarrow> bool" where
  "same_objects s s' \<longleftrightarrow>
     ple_history s' = ple_history s \<and> ple_history_rows s' = ple_history_rows s \<and>
     ple_conv_state s' = ple_conv_state s \<and> ple_conv_snapshot s' = ple_conv_snapshot s \<and>
     qsa_kv s' = qsa_kv s \<and> idx_tape s' = idx_tape s \<and> g_pos s' = g_pos s \<and>
     g_logits s' = g_logits s \<and> lazy_rollback s' = lazy_rollback s"

lemma copy_layers_same: "session_copy_layers K fails s r rec cv = (s', True) \<Longrightarrow> same_objects s s'"
  using copy_layers_cases [of K fails s r rec cv s'] by (simp add: same_objects_def)

lemma same_objects_trans: "same_objects a b \<Longrightarrow> same_objects b c \<Longrightarrow> same_objects a c"
  by (simp add: same_objects_def)

lemma same_objects_upd [simp]:
  "same_objects s (s'\<lparr>adopt_state := a, adopt_conv := b\<rparr>) = same_objects s s'"
  by (simp add: same_objects_def)

lemma settle_ok:
  assumes "graph_settle K fails s = Some s'"
  shows "gdn_state s' = eff_state K s \<and> gdn_conv s' = eff_conv s \<and> adopt_state s' = 0 \<and>
    adopt_conv s' = 0 \<and> same_objects s s'"
proof (cases "adopt_state s \<noteq> 0 \<and> adopt_state s = adopt_conv s")
  case True
  then obtain s1 where c: "session_copy_layers K fails s (adopt_state s - 1) True True = (s1, True)"
    and s': "s' = s1\<lparr>adopt_state := 0, adopt_conv := 0\<rparr>"
    using assms by (auto simp: graph_settle_def Let_def split: prod.splits bool.splits)
  show ?thesis
    using copy_layers_cases [OF c] copy_layers_same [OF c] True s'
    by (auto simp: eff_state_def eff_conv_def)
next
  case False
  define c1 where "c1 = (if adopt_state s \<noteq> 0 then session_copy_layers K fails s (adopt_state s - 1) True False
      else (s, True))"
  have eq: "graph_settle K fails s =
      (case c1 of (s1, True) \<Rightarrow>
         (case (if adopt_conv s \<noteq> 0 then session_copy_layers K fails s1 (adopt_conv s - 1) False True
                else (s1, True)) of
            (s2, True) \<Rightarrow> Some (s2\<lparr>adopt_state := 0, adopt_conv := 0\<rparr>) | _ \<Rightarrow> None)
       | _ \<Rightarrow> None)"
    using False unfolding graph_settle_def Let_def c1_def by argo
  obtain s1 where s1: "c1 = (s1, True)"
    using assms unfolding eq by (auto split: prod.splits bool.splits)
  obtain s2 where s2: "(if adopt_conv s \<noteq> 0 then session_copy_layers K fails s1 (adopt_conv s - 1) False True
                else (s1, True)) = (s2, True)" and s': "s' = s2\<lparr>adopt_state := 0, adopt_conv := 0\<rparr>"
    using assms unfolding eq s1 by (auto split: prod.splits bool.splits)
  have 1: "gdn_state s1 = eff_state K s \<and> gdn_conv s1 = gdn_conv s \<and>
      gdn_conv_snapshot s1 = gdn_conv_snapshot s \<and> same_objects s s1"
  proof (cases "adopt_state s = 0")
    case True
    then show ?thesis using s1 by (simp add: c1_def eff_state_def same_objects_def)
  next
    case False
    then have c: "session_copy_layers K fails s (adopt_state s - 1) True False = (s1, True)"
      using s1 by (simp add: c1_def)
    show ?thesis
      using copy_layers_cases [OF c] copy_layers_same [OF c] False by (simp add: eff_state_def)
  qed
  have 2: "gdn_state s2 = gdn_state s1 \<and> gdn_conv s2 = eff_conv s \<and> same_objects s1 s2"
  proof (cases "adopt_conv s = 0")
    case True
    then show ?thesis using s2 1 by (simp add: eff_conv_def same_objects_def)
  next
    case False
    then have c: "session_copy_layers K fails s1 (adopt_conv s - 1) False True = (s2, True)"
      using s2 by simp
    show ?thesis
      using copy_layers_cases [OF c] copy_layers_same [OF c] False 1 by (simp add: eff_conv_def)
  qed
  show ?thesis using 1 2 s' same_objects_trans by auto
qed

lemma prepare_fields:
  "read_conv (replay_prepare p s) = read_conv s" "same_objects s (replay_prepare p s)"
  "replay_active (replay_prepare p s) = rs_active p"
  "rs_active p \<Longrightarrow> replay_prefix (replay_prepare p s) = rs_prefix p"
  "rs_swap p \<Longrightarrow> gdn_checkpoint (replay_prepare p s) = gdn_state s"
  "\<not> rs_swap p \<Longrightarrow> gdn_checkpoint (replay_prepare p s) = gdn_checkpoint s \<and>
     gdn_state (replay_prepare p s) = gdn_state s"
  "replay_tape (replay_prepare p s) = replay_tape s"
  "adopt_state (replay_prepare p s) = adopt_state s"
  "gdn_state_snapshot (replay_prepare p s) = gdn_state_snapshot s"
  "gdn_conv_snapshot (replay_prepare p s) = gdn_conv_snapshot s"
  by (auto simp: replay_prepare_def Let_def read_conv_def same_objects_def)

lemma reads_effective:
  assumes "adopt_ok s"
    and "p = gdn_replay_plan (replay_enabled s) (replay_previous s) (replay_prefix s)
               GDN_REPLAY_ROWS width snapshots MTP_MAX_COMMIT (adopt_state s) (adopt_conv s)"
    and "(if rs_settle p then graph_settle K fails s else Some s) = Some s2"
  shows "read_state K (replay_prepare p s2) = eff_state K s \<and>
    read_conv (replay_prepare p s2) = eff_conv s \<and> same_objects s (replay_prepare p s2) \<and>
    (rs_active p \<longrightarrow> rs_prefix p \<le> GDN_REPLAY_ROWS)"
proof -
  let ?s3 = "replay_prepare p s2"
  have pre: "rs_active p \<longrightarrow> rs_prefix p \<le> GDN_REPLAY_ROWS"
    using assms(1) unfolding assms(2)
    by (auto simp: gdn_replay_plan_def Let_def adopt_ok_def GDN_REPLAY_ROWS_def)
  show ?thesis
  proof (cases "rs_settle p")
    case True
    then have st: "graph_settle K fails s = Some s2" using assms(3) by simp
    note so = settle_ok [OF st]
    have sw: "rs_active p \<longrightarrow> rs_swap p \<and> rs_prefix p = 0" "\<not> rs_active p \<longrightarrow> \<not> rs_swap p"
      using True unfolding assms(2)
      by (auto simp: gdn_replay_plan_def Let_def MTP_MAX_COMMIT_def IMPLEMENTED_DEPTH_def)
    have "read_state K ?s3 = gdn_state s2"
    proof (cases "rs_active p")
      case True
      then show ?thesis
        using sw prepare_fields(3,4,5) [where p = p and s = s2] by (simp add: read_state_def replayed_def)
    next
      case False
      then show ?thesis
        using sw so prepare_fields(3,6,8) [where p = p and s = s2] by (simp add: read_state_def)
    qed
    moreover have "read_conv ?s3 = gdn_conv s2"
      using so prepare_fields(1) [where p = p and s = s2] by (simp add: read_conv_def)
    ultimately show ?thesis
      using so pre prepare_fields(2) [where p = p and s = s2] same_objects_trans by metis
  next
    case False
    then have s2: "s2 = s" using assms(3) by simp
    show ?thesis
    proof (cases "adopt_state s = 0 \<and> adopt_conv s = 0")
      case True
      then have "rs_active p \<longrightarrow> rs_swap p \<and> rs_prefix p = 0" "\<not> rs_active p \<longrightarrow> \<not> rs_swap p"
        unfolding assms(2) by (auto simp: gdn_replay_plan_def Let_def)
      then have "read_state K ?s3 = gdn_state s"
        using True s2 prepare_fields(3-6,8) [where p = p and s = s2]
        by (cases "rs_active p") (simp_all add: read_state_def replayed_def)
      then show ?thesis
        using True s2 pre prepare_fields(1,2) [where p = p and s = s2]
        by (simp add: eff_state_def eff_conv_def read_conv_def)
    next
      case pend: False
      then have eq: "adopt_conv s = adopt_state s" "adopt_state s \<noteq> 0" and lz: "lazy_rollback s"
        using False assms(1) unfolding assms(2)
        by (auto simp: gdn_replay_plan_def Let_def adopt_ok_def)
      have lz3: "lazy_rollback ?s3" using lz s2 prepare_fields(2) [where p = p and s = s2] by (simp add: same_objects_def)
      have cv: "read_conv ?s3 = eff_conv s"
        using prepare_fields(1) [where p = p and s = s2] eq lz s2 by (simp add: read_conv_def eff_conv_def)
      have "read_state K ?s3 = eff_state K s"
      proof (cases "rs_active p")
        case na_or_act: True
        then have re: "replay_previous s" "adopt_state s = 1" "\<not> rs_swap p"
          "rs_prefix p = (if replay_prefix s = GDN_REPLAY_ROWS then 0 else replay_prefix s + 1)"
          using False pend na_or_act eq unfolding assms(2)
          by (auto simp: gdn_replay_plan_def Let_def split: if_splits)
        then show ?thesis
          using na_or_act s2 prepare_fields(3,4,6,7) [where p = p and s = s2]
          by (simp add: read_state_def eff_state_def slot_state_def)
      next
        case na_or_act: False
        then have "\<not> replay_previous s"
          using False pend na_or_act eq unfolding assms(2)
          by (auto simp: gdn_replay_plan_def Let_def split: if_splits)
        then show ?thesis
          using na_or_act s2 eq lz3 prepare_fields(3,8,9) [where p = p and s = s2]
          by (simp add: read_state_def eff_state_def slot_state_def)
      qed
      then show ?thesis using cv pre s2 prepare_fields(2) [where p = p and s = s2] by simp
    qed
  qed
qed

lemma replayed_snoc: "replayed K c (tp(n := v)) (Suc n) = k_apply K (replayed K c tp n) v"
proof -
  have "map (tp(n := v)) [0..<n] = map tp [0..<n]" by simp
  then show ?thesis by (simp add: replayed_def)
qed

lemma replayed_0: "replayed K c tp 0 = c"
  by (simp add: replayed_def)

subsection \<open>The forward is the serial feed\<close>

definition serial_outs ::
  "('v, 'q) kernels \<Rightarrow> 'v row_forward \<Rightarrow> ('v, 'q) target \<Rightarrow> token list \<Rightarrow> 'v rowout list" where
  "serial_outs K row t toks =
     serial_rows row (t_state t) (t_conv t) (t_ple t) (t_kv t) (t_tape t)
       (zip toks (map (the \<circ> snd) (ple_scan K (t_hist t) toks)))"

lemma serial_outs_Cons:
  "serial_outs K row t (x # xs) =
     target_row K row t x # serial_outs K row (target_step K row t x) xs"
  by (simp add: serial_outs_def target_row_def target_step_def Let_def split: prod.splits)

lemma length_serial_outs [simp]: "length (serial_outs K row t toks) = length toks"
  by (induction toks arbitrary: t) (simp_all add: serial_outs_Cons, simp add: serial_outs_def)

lemma length_ple_scan [simp]: "length (ple_scan K q toks) = length toks"
  by (induction toks arbitrary: q) (auto split: prod.splits)

lemma serial_outs_nth:
  "j < length toks \<Longrightarrow>
     serial_outs K row t toks ! j = target_row K row (foldl (target_step K row) t (take j toks)) (toks ! j)"
proof (induction toks arbitrary: t j)
  case (Cons x xs)
  then show ?case by (cases j) (simp_all add: serial_outs_Cons)
qed simp

lemma ple_scan_nth:
  "j < length toks \<Longrightarrow>
     fst (ple_scan K (t_hist t) toks ! j) = t_hist (foldl (target_step K row) t (take (Suc j) toks))"
proof (induction toks arbitrary: t j)
  case (Cons x xs)
  have "t_hist (target_step K row t x) = fst (k_gather K (t_hist t) x)"
    by (simp add: target_step_def Let_def)
  then show ?case
    using Cons.IH [of _ "target_step K row t x"] Cons.prems
    by (cases j) (simp_all add: split_beta)
qed simp

text \<open>The target after row \<open>j\<close>, read off that row's output.\<close>

lemma target_after_row:
  assumes "j < length toks"
  shows "let u = foldl (target_step K row) t (take (Suc j) toks); out = serial_outs K row t toks ! j
    in t_state u = ro_state out \<and> t_conv u = ro_conv out \<and> t_ple u = ro_ple out \<and>
       t_hyper u = ro_hyper out"
  using assms
  by (simp add: Let_def foldl_take_Suc serial_outs_nth target_step_def)

lemma target_caches:
  "t_kv (foldl (target_step K row) t toks) = t_kv t @ map ro_kv (serial_outs K row t toks)"
  "t_tape (foldl (target_step K row) t toks) = t_tape t @ map ro_tape (serial_outs K row t toks)"
proof (induction toks arbitrary: t)
  case (Cons x xs)
  case 1 show ?case using Cons(1) by (simp add: serial_outs_Cons) (simp add: target_step_def Let_def)
next
  case (Cons x xs)
  case 2 show ?case using Cons(2) by (simp add: serial_outs_Cons) (simp add: target_step_def Let_def)
qed (simp_all add: serial_outs_def)

lemma target_pos_step: "target_pos (target_step K row t x) = Suc (target_pos t)"
  by (simp add: target_pos_def target_step_def Let_def)

text \<open>A prefix of the feed leaves a prefix of each cache.\<close>

lemma target_caches_prefix:
  assumes "k \<le> length toks" "i < length (t_kv t) + k"
  shows "t_kv (foldl (target_step K row) t toks) ! i = t_kv (foldl (target_step K row) t (take k toks)) ! i"
    and "length (t_tape t) = length (t_kv t) \<Longrightarrow> t_tape (foldl (target_step K row) t toks) ! i =
      t_tape (foldl (target_step K row) t (take k toks)) ! i"
proof -
  have pre: "take k (serial_outs K row t toks) = serial_outs K row t (take k toks)"
  proof (rule nth_equalityI)
    fix i assume "i < length (take k (serial_outs K row t toks))"
    then show "take k (serial_outs K row t toks) ! i = serial_outs K row t (take k toks) ! i"
      using assms(1) by (simp add: serial_outs_nth min.absorb1)
  qed (use assms(1) in simp)
  have "map ro_kv (serial_outs K row t toks) ! (i - length (t_kv t)) =
      map ro_kv (serial_outs K row t (take k toks)) ! (i - length (t_kv t))"
    "map ro_tape (serial_outs K row t toks) ! (i - length (t_kv t)) =
      map ro_tape (serial_outs K row t (take k toks)) ! (i - length (t_kv t))"
    if "length (t_kv t) \<le> i"
    using that assms unfolding pre [symmetric] by auto
  then show "t_kv (foldl (target_step K row) t toks) ! i = t_kv (foldl (target_step K row) t (take k toks)) ! i"
    and "length (t_tape t) = length (t_kv t) \<Longrightarrow> t_tape (foldl (target_step K row) t toks) ! i =
      t_tape (foldl (target_step K row) t (take k toks)) ! i"
    by (auto simp: target_caches nth_append)
qed

subsection \<open>The kernel contract\<close>

locale qwen_kernels =
  fixes K :: "('v, 'q) kernels" and row :: "'v row_forward"
  assumes batch_invariance: "length xs = length toks \<Longrightarrow>
        k_rows K r c p kv tp n toks xs = Some outs \<Longrightarrow>
        outs = serial_rows row r c p (map kv [0..<n]) (map tp [0..<n]) (zip toks xs)"
    and recurrence: "ro_state (row r c p kvs tps x g) = k_apply K r (ro_trans (row r c p kvs tps x g))"
    and vocab: "0 < k_n_vocab K"
    and logit_rows: "length (k_logits K hs) = length hs"
      "l \<in> set (k_logits K hs) \<Longrightarrow> length l = k_n_vocab K"
    and screened: "j < length hs \<Longrightarrow>
        mtp_argmax (k_logits K hs ! j) (k_n_vocab K) = mtp_argmax (k_logits K [hs ! j] ! 0) (k_n_vocab K)"
    and top1: "k_top1 K hs = map (\<lambda>l. mtp_argmax l (k_n_vocab K)) (k_logits K hs)"
begin

lemma pick_range: "0 \<le> target_pick K t" "target_pick K t < int (k_n_vocab K)"
proof -
  have "length (k_logits K [t_hyper t] ! 0) = k_n_vocab K"
    by (rule logit_rows(2) [of _ "[t_hyper t]"]) (simp add: logit_rows(1))
  then show "0 \<le> target_pick K t" "target_pick K t < int (k_n_vocab K)"
    using mtp_argmax_range [OF vocab] by (auto simp: target_pick_def)
qed

lemma row_of_logits: "j < length hs \<Longrightarrow> k_logits K hs ! j \<in> set (k_logits K hs)"
  using logit_rows(1) [of hs] by simp

text \<open>
  A forward that succeeds from a session in sync with \<open>t\<close> leaves it in sync with \<open>t\<close> fed the
  tokens, with the state after each earlier row in its slot.
\<close>

text \<open>What one forward did: the rows are the serial ones, read from the effective state.\<close>

definition forward_ran ::
  "('v, 'q) target \<Rightarrow> token list \<Rightarrow> nat \<Rightarrow> ('v, 'q) gsession \<Rightarrow> ('v, 'q) gsession \<Rightarrow> bool" where
  "forward_ran t toks snapshots s1 s3 \<longleftrightarrow> toks \<noteq> [] \<and> same_objects s1 s3
     \<and> ple_conv_state s1 = t_ple t \<and> g_pos s1 = length (t_kv t) \<and> length (t_tape t) = length (t_kv t)
     \<and> (\<forall>n < length (t_kv t). qsa_kv s1 n = t_kv t ! n) \<and> (\<forall>n < length (t_kv t). idx_tape s1 n = t_tape t ! n)
     \<and> read_state K s3 = t_state t \<and> (replay_active s3 \<longrightarrow> replay_prefix s3 \<le> GDN_REPLAY_ROWS)
     \<and> (replay_active s3 \<longrightarrow> length toks = 2)
     \<and> ple_history s1 = t_hist (foldl (target_step K row) t toks)
     \<and> (\<forall>j < length toks. j < snapshots \<longrightarrow>
          ple_history_rows s1 j = t_hist (foldl (target_step K row) t (take (Suc j) toks)))"

lemma write_rows_in_sync:
  assumes ran: "forward_ran t toks snapshots s1 s3"
    and s': "s' = (write_rows K snapshots (serial_outs K row t toks) s3)\<lparr>g_logits := L,
      g_pos := g_pos (write_rows K snapshots (serial_outs K row t toks) s3) + length toks\<rparr>"
  shows "in_sync (graph_holds K) s' (foldl (target_step K row) t toks)" "adopt_ok s'"
proof -
  let ?u = "foldl (target_step K row) t toks" and ?n = "length toks" and ?outs = "serial_outs K row t toks"
  note r = ran [unfolded forward_ran_def]
  have ne: "?outs \<noteq> []" using r by (metis length_0_conv length_serial_outs)
  have last: "last ?outs = ?outs ! (?n - 1)" using ne by (simp add: last_conv_nth)
  have u: "t_state ?u = ro_state (last ?outs)" "t_conv ?u = ro_conv (last ?outs)" "t_ple ?u = ro_ple (last ?outs)"
    using target_after_row [of "?n - 1" toks K row t] r last by (simp_all add: Let_def)
  have so: "same_objects s1 s3" using r by blast
  note so = so [unfolded same_objects_def]
  show ok: "adopt_ok s'" using r unfolding s' by (simp add: adopt_ok_def write_rows_def Let_def)
  show "in_sync (graph_holds K) s' ?u"
    unfolding in_sync_graph
  proof (intro conjI)
    show "\<forall>n < length (t_kv ?u). qsa_kv s' n = t_kv ?u ! n"
      using r so unfolding s' target_caches by (auto simp: write_rows_def Let_def nth_append)
    show "\<forall>n < length (t_tape ?u). idx_tape s' n = t_tape ?u ! n"
      using r so unfolding s' target_caches by (auto simp: write_rows_def Let_def nth_append)
  qed (use ok u r so target_caches [of K row t toks] in
        \<open>simp_all add: s' write_rows_def Let_def eff_state_def eff_conv_def\<close>)
qed

lemma write_rows_slots:
  assumes ran: "forward_ran t toks (length toks - 1) s1 s3" and j: "j + 1 < length toks"
    and s': "s' = (write_rows K (length toks - 1) (serial_outs K row t toks) s3)\<lparr>g_logits := L,
      g_pos := g_pos (write_rows K (length toks - 1) (serial_outs K row t toks) s3) + length toks\<rparr>"
  shows "slot_state K s' j = t_state (foldl (target_step K row) t (take (Suc j) toks))"
    "gdn_conv_snapshot s' j = t_conv (foldl (target_step K row) t (take (Suc j) toks))"
    "ple_conv_snapshot s' j = t_ple (foldl (target_step K row) t (take (Suc j) toks))"
    "ple_history_rows s' j = t_hist (foldl (target_step K row) t (take (Suc j) toks))"
proof -
  let ?outs = "serial_outs K row t toks"
  note r = ran [unfolded forward_ran_def]
  have so: "same_objects s1 s3" using r by blast
  note so = so [unfolded same_objects_def]
  have ne: "?outs \<noteq> []" using r by (metis length_0_conv length_serial_outs)
  have j': "j < length toks" "j < length toks - 1" using j by simp_all
  show "slot_state K s' j = t_state (foldl (target_step K row) t (take (Suc j) toks))"
  proof (cases "replay_active s3")
    case True
    then have j0: "j = 0" using j r by simp
    have hd: "hd ?outs = ?outs ! 0" using ne by (simp add: hd_conv_nth)
    have st0: "t_state (foldl (target_step K row) t (take (Suc 0) toks)) = ro_state (?outs ! 0)"
      using target_after_row [of 0 toks K row t] r by (simp add: Let_def)
    have "?outs ! 0 = row (t_state t) (t_conv t) (t_ple t) (t_kv t) (t_tape t) (toks ! 0)
        (the (snd (k_gather K (t_hist t) (toks ! 0))))"
      using serial_outs_nth [of 0 toks K row t] r by (simp add: target_row_def)
    then have tr: "ro_state (?outs ! 0) = k_apply K (t_state t) (ro_trans (?outs ! 0))" using recurrence by simp
    have rd: "replayed K (gdn_checkpoint s3) (replay_tape s3) (replay_prefix s3) = t_state t"
      and pre: "replay_prefix s3 \<le> GDN_REPLAY_ROWS" and rs: "read_state K s3 = t_state t"
      using r True by (simp_all add: read_state_def)
    show ?thesis
      using True j0 st0 tr rd hd pre rs unfolding s'
      by (cases "replay_prefix s3 = GDN_REPLAY_ROWS")
         (auto simp: slot_state_def write_rows_def Let_def replayed_0 replayed_snoc simp del: fun_upd_apply)
  next
    case False
    then show ?thesis
      using target_after_row [of j toks K row t] j' unfolding s'
      by (simp add: slot_state_def write_rows_def Let_def)
  qed
  show "gdn_conv_snapshot s' j = t_conv (foldl (target_step K row) t (take (Suc j) toks))"
    "ple_conv_snapshot s' j = t_ple (foldl (target_step K row) t (take (Suc j) toks))"
    "ple_history_rows s' j = t_hist (foldl (target_step K row) t (take (Suc j) toks))"
    using j' target_after_row [of j toks K row t] r so unfolding s' by (simp_all add: write_rows_def Let_def)
qed

lemma forward_runs:
  assumes "graph_forward K fails s toks snapshots b = (s', True)"
    and "in_sync (graph_holds K) s t"
  shows "\<exists>s1 s3. forward_ran t toks snapshots s1 s3 \<and>
    s' = (let outs = serial_outs K row t toks; s4 = write_rows K snapshots outs s3;
              ls = k_logits K (if b then map ro_hyper outs else [ro_hyper (last outs)])
          in s4\<lparr>g_logits := ls @ drop (length ls) (g_logits s4), g_pos := g_pos s4 + length toks\<rparr>)"
proof -
  define s0 where "s0 = s\<lparr>state_dirty := True\<rparr>"
  define sc where "sc = ple_scan K (ple_history s0) toks"
  define xs where "xs = map (the \<circ> snd) sc"
  define s1 where "s1 = s0\<lparr>ple_history := fst (last sc),
      ple_history_rows := (\<lambda>t. if t < length toks \<and> t < snapshots then fst (sc ! t)
                               else ple_history_rows s0 t)\<rparr>"
  define p where "p = gdn_replay_plan (replay_enabled s1) (replay_previous s1) (replay_prefix s1)
      GDN_REPLAY_ROWS (length toks) snapshots MTP_MAX_COMMIT (adopt_state s1) (adopt_conv s1)"
  have ne: "toks \<noteq> []" using assms(1) by (auto simp: graph_forward_def)
  have ga: "graph_ple_gather K s0 toks snapshots =
      (s1, if list_all (\<lambda>r. snd r \<noteq> None) sc then Some xs else None)"
    unfolding graph_ple_gather_def Let_def sc_def [symmetric] s1_def xs_def by simp
  obtain s2 where s2: "(if rs_settle p then graph_settle K fails s1 else Some s1) = Some s2"
    and outs0: "k_rows K (read_state K (replay_prepare p s2)) (read_conv (replay_prepare p s2))
        (ple_conv_state (replay_prepare p s2)) (qsa_kv (replay_prepare p s2))
        (idx_tape (replay_prepare p s2)) (g_pos (replay_prepare p s2)) toks xs \<noteq> None"
    using assms(1) unfolding graph_forward_def Let_def s0_def [symmetric] ga prod.case p_def [symmetric]
    by (auto split: if_splits option.splits)
  define s3 where "s3 = replay_prepare p s2"
  obtain outs where outs: "k_rows K (read_state K s3) (read_conv s3) (ple_conv_state s3) (qsa_kv s3)
      (idx_tape s3) (g_pos s3) toks xs = Some outs"
    using outs0 unfolding s3_def by blast
  define s4 where "s4 = write_rows K snapshots outs s3"
  have s': "s' = s4\<lparr>g_logits := k_logits K (if b then map ro_hyper outs else [ro_hyper (last outs)]) @
        drop (length (k_logits K (if b then map ro_hyper outs else [ro_hyper (last outs)]))) (g_logits s4),
        g_pos := g_pos s4 + length toks\<rparr>"
    using assms(1) s2 outs
    unfolding graph_forward_def Let_def s0_def [symmetric] ga prod.case p_def [symmetric] s3_def s4_def
    by (auto split: if_splits option.splits)
  note t = assms(2) [unfolded in_sync_graph]
  have t1: "adopt_ok s1" "eff_state K s1 = t_state t" "eff_conv s1 = t_conv t" "ple_history s0 = t_hist t"
    "g_pos s1 = length (t_kv t)" "ple_conv_state s1 = t_ple t"
    "\<forall>n < length (t_kv t). qsa_kv s1 n = t_kv t ! n" "\<forall>n < length (t_kv t). idx_tape s1 n = t_tape t ! n"
    using t by (auto simp: s1_def s0_def adopt_ok_def eff_state_def eff_conv_def slot_state_def)
  have rd: "read_state K s3 = t_state t" "read_conv s3 = t_conv t" "same_objects s1 s3"
    "rs_active p \<longrightarrow> rs_prefix p \<le> GDN_REPLAY_ROWS"
    using reads_effective [OF t1(1) p_def s2] t1(2,3) by (auto simp: s3_def)
  have act: "replay_active s3 \<longrightarrow> replay_prefix s3 \<le> GDN_REPLAY_ROWS" "replay_active s3 \<longrightarrow> length toks = 2"
    using rd(4) prepare_fields(3,4) [where p = p and s = s2]
    by (auto simp: s3_def p_def gdn_replay_plan_def Let_def)
  have lists: "map (qsa_kv s3) [0..<g_pos s3] = t_kv t" "map (idx_tape s3) [0..<g_pos s3] = t_tape t"
    using t1 t rd(3) by (auto simp: same_objects_def intro!: nth_equalityI)
  have os: "outs = serial_outs K row t toks"
    using batch_invariance [OF _ outs] rd t1(4,6) lists
    by (simp add: serial_outs_def xs_def sc_def same_objects_def)
  have hist: "ple_history s1 = t_hist (foldl (target_step K row) t toks)"
    "\<forall>j < length toks. j < snapshots \<longrightarrow>
       ple_history_rows s1 j = t_hist (foldl (target_step K row) t (take (Suc j) toks))"
    using ple_scan_nth [of _ toks K t row] ne t1(4)
    by (auto simp: s1_def sc_def last_conv_nth simp flip: length_greater_0_conv)
  have "forward_ran t toks snapshots s1 s3" unfolding forward_ran_def using ne rd t1 t act hist by blast
  then show ?thesis using s' unfolding s4_def os Let_def by blast
qed

lemma forward_exact:
  assumes "graph_forward K fails s toks (length toks - 1) True = (s', True)"
    and "in_sync (graph_holds K) s t"
  shows "verified (graph_holds K) (graph_mirrored K) (target_step K row) t toks (g_hyper s') s' \<and>
    g_hyper s' = map (\<lambda>j. t_hyper (foldl (target_step K row) t (take (Suc j) toks))) [0..<length toks] \<and>
    take (length toks) (g_logits s') = k_logits K (g_hyper s')"
proof -
  let ?outs = "serial_outs K row t toks" and ?ls = "k_logits K (map ro_hyper (serial_outs K row t toks))"
  obtain s1 s3 where ran: "forward_ran t toks (length toks - 1) s1 s3"
    and s': "s' = (write_rows K (length toks - 1) ?outs s3)\<lparr>
      g_logits := ?ls @ drop (length ?ls) (g_logits (write_rows K (length toks - 1) ?outs s3)),
      g_pos := g_pos (write_rows K (length toks - 1) ?outs s3) + length toks\<rparr>"
    using forward_runs [OF assms] unfolding Let_def if_True by blast
  have hy: "g_hyper s' = map ro_hyper ?outs" unfolding s' by (simp add: write_rows_def Let_def)
  have vr: "verified (graph_holds K) (graph_mirrored K) (target_step K row) t toks (g_hyper s') s'"
    using write_rows_in_sync [OF ran s'] write_rows_slots [OF ran _ s'] hy
    by (auto simp: verified_def graph_mirrored_def)
  have "g_hyper s' = map (\<lambda>j. t_hyper (foldl (target_step K row) t (take (Suc j) toks))) [0..<length toks]"
    unfolding hy by (rule nth_equalityI) (use target_after_row [of _ toks K row t] in \<open>auto simp: Let_def\<close>)
  moreover have "take (length toks) (g_logits s') = k_logits K (g_hyper s')"
    unfolding hy using logit_rows(1) [of "map ro_hyper ?outs"] by (simp add: s')
  ultimately show ?thesis using vr by blast
qed

text \<open>A serial chunk, of any width and with only the last row's logits.\<close>

lemma forward_serial:
  assumes "graph_forward K fails s toks snapshots False = (s', True)" "in_sync (graph_holds K) s t"
  shows "in_sync (graph_holds K) s' (foldl (target_step K row) t toks)" "toks \<noteq> []"
    "renders K (g_logits s' ! 0) (foldl (target_step K row) t toks)"
    "g_hyper s' = map (\<lambda>j. t_hyper (foldl (target_step K row) t (take (Suc j) toks))) [0..<length toks]"
    "length (g_logits s' ! 0) = k_n_vocab K"
proof -
  let ?outs = "serial_outs K row t toks"
  let ?ls = "k_logits K [ro_hyper (last ?outs)]"
  obtain s1 s3 where ran: "forward_ran t toks snapshots s1 s3"
    and s': "s' = (write_rows K snapshots ?outs s3)\<lparr>
      g_logits := ?ls @ drop (length ?ls) (g_logits (write_rows K snapshots ?outs s3)),
      g_pos := g_pos (write_rows K snapshots ?outs s3) + length toks\<rparr>"
    using forward_runs [OF assms] unfolding Let_def if_False by blast
  show "in_sync (graph_holds K) s' (foldl (target_step K row) t toks)" by (rule write_rows_in_sync(1) [OF ran s'])
  show ne: "toks \<noteq> []" using ran by (simp add: forward_ran_def)
  have hy: "g_hyper s' = map ro_hyper ?outs" unfolding s' by (simp add: write_rows_def Let_def)
  show "g_hyper s' = map (\<lambda>j. t_hyper (foldl (target_step K row) t (take (Suc j) toks))) [0..<length toks]"
    unfolding hy by (rule nth_equalityI) (use target_after_row [of _ toks K row t] in \<open>auto simp: Let_def\<close>)
  have "?outs \<noteq> []" using ne by (metis length_0_conv length_serial_outs)
  then have "t_hyper (foldl (target_step K row) t toks) = ro_hyper (last ?outs)"
    using target_after_row [of "length toks - 1" toks K row t] ne by (simp add: Let_def last_conv_nth)
  moreover have l: "g_logits s' ! 0 = ?ls ! 0" unfolding s' using logit_rows(1) [of "[ro_hyper (last ?outs)]"]
    by (simp add: nth_append)
  ultimately show "renders K (g_logits s' ! 0) (foldl (target_step K row) t toks)"
    using row_of_logits [of 0 "[ro_hyper (last ?outs)]"] by (auto simp: renders_def target_pick_def)
  show "length (g_logits s' ! 0) = k_n_vocab K"
    unfolding l by (rule logit_rows(2) [of _ "[ro_hyper (last ?outs)]"]) (simp add: logit_rows(1))
qed

end

subsection \<open>Frames of the callbacks\<close>

lemma rollback_set_objects:
  assumes "session_rollback_set K fails ratio = Inr S"
  shows "rollback_complete S"
    "select_row (obj S ! 0) = Some (rb_gdn_recurrent_select K fails)"
    "select_row (obj S ! 1) = Some (rb_gdn_conv_select K fails)"
    "select_row (obj S ! 2) = None" "select_row (obj S ! 3) = None"
    "select_row (obj S ! 4) = Some rb_ple_hist_select"
    "select_row (obj S ! 5) = Some (rb_ple_conv_select fails)"
    "truncate_to (obj S ! 0) = None" "truncate_to (obj S ! 1) = None"
    "truncate_to (obj S ! 2) = Some rb_qsa_kv_truncate"
    "truncate_to (obj S ! 3) = Some (rb_qsa_indexer_truncate ratio)"
    "truncate_to (obj S ! 4) = None" "truncate_to (obj S ! 5) = None"
    "truncate_to (obj S ! 6) = Some rb_head_cache_truncate"
proof -
  have reg: "register_all (session_objects K fails ratio) rollback_init = Inr S"
    and chk: "rollback_check S = None"
    using assms by (auto simp: session_rollback_set_def split: sum.splits option.splits)
  have wf: "rollback_wf S0 \<Longrightarrow> register_all xs S0 = Inr S1 \<Longrightarrow> rollback_wf S1" for xs S0 S1
    by (induction xs arbitrary: S0) (auto split: sum.splits intro: rollback_register_wf)
  show "rollback_complete S"
    using wf [OF rollback_init_wf reg] chk by (simp add: rollback_complete_def)
  have objs: "obj S = map snd [session_objects K fails ratio ! 0, session_objects K fails ratio ! 1,
      session_objects K fails ratio ! 4, session_objects K fails ratio ! 5,
      session_objects K fails ratio ! 2, session_objects K fails ratio ! 3,
      session_objects K fails ratio ! 6]"
    using reg
    by (auto simp: session_objects_def rollback_register_def state_ids state_kind_def rollback_init_def
        eval_nat_numeral)
  show "select_row (obj S ! 0) = Some (rb_gdn_recurrent_select K fails)"
    "select_row (obj S ! 1) = Some (rb_gdn_conv_select K fails)"
    "select_row (obj S ! 2) = None" "select_row (obj S ! 3) = None"
    "select_row (obj S ! 4) = Some rb_ple_hist_select"
    "select_row (obj S ! 5) = Some (rb_ple_conv_select fails)"
    "truncate_to (obj S ! 0) = None" "truncate_to (obj S ! 1) = None"
    "truncate_to (obj S ! 2) = Some rb_qsa_kv_truncate"
    "truncate_to (obj S ! 3) = Some (rb_qsa_indexer_truncate ratio)"
    "truncate_to (obj S ! 4) = None" "truncate_to (obj S ! 5) = None"
    "truncate_to (obj S ! 6) = Some rb_head_cache_truncate"
    unfolding objs by (simp_all add: session_objects_def)
qed

lemma select_layers_ok:
  assumes "session_select_layers K fails s r rec cv = (s', True)" "adopt_ok s"
  shows "adopt_ok s' \<and> eff_state K s' = (if rec then slot_state K s r else eff_state K s) \<and>
    eff_conv s' = (if cv then gdn_conv_snapshot s r else eff_conv s) \<and>
    gdn_conv_snapshot s' = gdn_conv_snapshot s \<and>
    (\<not> rec \<longrightarrow> slot_state K s' = slot_state K s) \<and> same_objects s s'"
proof (cases "lazy_rollback s")
  case True
  have g: "\<not> (r \<ge> IMPLEMENTED_DEPTH \<or> (rec \<and> replay_previous s \<and> r \<noteq> 0))"
  proof
    assume "r \<ge> IMPLEMENTED_DEPTH \<or> (rec \<and> replay_previous s \<and> r \<noteq> 0)"
    then have "session_select_layers K fails s r rec cv = (s\<lparr>state_dirty := True\<rparr>, False)"
      using True by (simp add: session_select_layers_def Let_def)
    then show False using assms(1) by simp
  qed
  have e: "s' = (let s1 = (if rec then s\<lparr>state_dirty := True, adopt_state := r + 1\<rparr> else s\<lparr>state_dirty := True\<rparr>)
      in if cv then s1\<lparr>adopt_conv := r + 1\<rparr> else s1)"
    using assms(1) True g unfolding session_select_layers_def Let_def
    by (cases rec; cases cv) (auto split: if_splits)
  show ?thesis
    using assms(2) True unfolding e Let_def
    by (cases rec; cases cv)
       (simp_all add: adopt_ok_def eff_state_def eff_conv_def slot_state_def same_objects_def fun_eq_iff)
next
  case False
  then have c: "session_copy_layers K fails s r rec cv = (s', True)"
    using assms(1) by (simp add: session_select_layers_def)
  show ?thesis
    using copy_layers_cases [OF c] copy_layers_same [OF c] assms(2) False
    by (auto simp: adopt_ok_def eff_state_def eff_conv_def)
qed

lemma ple_select_ok:
  "rb_ple_hist_select s r = (s', True) \<Longrightarrow>
     s' = s\<lparr>state_dirty := True, ple_history := ple_history_rows s r\<rparr>"
  "rb_ple_conv_select fails s r = (s', True) \<Longrightarrow>
     s' = s\<lparr>state_dirty := True, ple_conv_state := ple_conv_snapshot s r\<rparr>"
  by (auto simp: rb_ple_hist_select_def rb_ple_conv_select_def Let_def split: if_splits)

lemma truncate_ok:
  "rb_qsa_kv_truncate s n = (s', True) \<Longrightarrow> s' = s\<lparr>state_dirty := True, g_pos := n\<rparr>"
  "rb_qsa_indexer_truncate ratio s n = (s', True) \<Longrightarrow>
     s' = s\<lparr>state_dirty := True, indexer_valid_blocks := n div ratio\<rparr>"
  "rb_head_cache_truncate s n = (s', True) \<Longrightarrow> s' = s\<lparr>state_dirty := True, head_cache_pos := n\<rparr>"
  by (auto simp: rb_qsa_kv_truncate_def rb_qsa_indexer_truncate_def rb_head_cache_truncate_def
      split: if_splits)

lemmas graph_reps = graph_holds_def graph_mirrored_def adopt_ok_def eff_state_def eff_conv_def
  slot_state_def device_row_def

text \<open>Updates of fields no object is read from.\<close>

lemma holds_irrelevant [simp]:
  "graph_holds K i (s\<lparr>state_dirty := b, indexer_valid_blocks := n\<rparr>) t = graph_holds K i s t"
  "graph_holds K i (s\<lparr>state_dirty := b, head_cache_pos := n\<rparr>) t = graph_holds K i s t"
  "graph_holds K i (s\<lparr>state_dirty := b, head_cache := v, last_margin := mg\<rparr>) t = graph_holds K i s t"
  by (simp_all add: graph_reps)

subsection \<open>The session implements the seam\<close>

locale graph_seam = qwen_kernels K row
  for K :: "('v, 'q) kernels" and row :: "'v row_forward" +
  fixes fails :: "('v, 'q) fails" and ratio :: nat and S :: "('v, 'q) gsession rollback_set"
  assumes set_up: "session_rollback_set K fails ratio = Inr S"
begin

lemmas objs = rollback_set_objects [OF set_up]

lemma select_cases:
  assumes "i < 6" "select_row (obj S ! i) = Some f"
  shows "i = 0 \<and> f = rb_gdn_recurrent_select K fails \<or> i = 1 \<and> f = rb_gdn_conv_select K fails \<or>
    i = 4 \<and> f = rb_ple_hist_select \<or> i = 5 \<and> f = rb_ple_conv_select fails"
proof -
  have "i = 0 \<or> i = 1 \<or> i = 2 \<or> i = 3 \<or> i = 4 \<or> i = 5" using assms(1) by arith
  then show ?thesis using assms(2) objs by auto
qed

lemma truncate_cases:
  assumes "i < 7" "truncate_to (obj S ! i) = Some f"
  shows "i = 2 \<and> f = rb_qsa_kv_truncate \<or> i = 3 \<and> f = rb_qsa_indexer_truncate ratio \<or>
    i = 6 \<and> f = rb_head_cache_truncate"
proof -
  have "i = 0 \<or> i = 1 \<or> i = 2 \<or> i = 3 \<or> i = 4 \<or> i = 5 \<or> i = 6" using assms(1) by arith
  then show ?thesis using assms(2) objs by auto
qed

lemma select_adopts:
  assumes "i < 6" "select_row (obj S ! i) = Some f" "graph_mirrored K i r m t" "f m r = (m', True)"
  shows "graph_holds K i m' t"
  using select_cases [OF assms(1,2)]
proof (elim disjE conjE)
  assume i: "i = 0" and f: "f = rb_gdn_recurrent_select K fails"
  have c: "session_select_layers K fails m r True False = (m', True)"
    using assms(4) unfolding f rb_gdn_recurrent_select_def .
  show ?thesis
    using select_layers_ok [OF c] assms(3) i by (simp add: graph_holds_def graph_mirrored_def)
next
  assume i: "i = 1" and f: "f = rb_gdn_conv_select K fails"
  have c: "session_select_layers K fails m r False True = (m', True)"
    using assms(4) unfolding f rb_gdn_conv_select_def .
  show ?thesis
    using select_layers_ok [OF c] assms(3) i by (simp add: graph_holds_def graph_mirrored_def)
next
  assume i: "i = 4" and f: "f = rb_ple_hist_select"
  show ?thesis
    using ple_select_ok(1) [OF assms(4) [unfolded f]] assms(3) i
    by (simp add: graph_holds_def graph_mirrored_def)
next
  assume i: "i = 5" and f: "f = rb_ple_conv_select fails"
  show ?thesis
    using ple_select_ok(2) [OF assms(4) [unfolded f]] assms(3) i
    by (simp add: graph_holds_def graph_mirrored_def)
qed

lemma layers_same:
  "session_select_layers K fails m r rec cv = (m', True) \<Longrightarrow> same_objects m m'"
  using copy_layers_same [of K fails m r rec cv m']
  by (auto simp: session_select_layers_def Let_def same_objects_def split: if_splits)

lemma layers_frame:
  assumes "session_select_layers K fails m r rec cv = (m', True)"
    and "rec \<longrightarrow> j \<noteq> 0" "cv \<longrightarrow> j \<noteq> 1"
  shows "(graph_holds K j m u \<longrightarrow> graph_holds K j m' u) \<and>
    (graph_mirrored K j q m u \<longrightarrow> graph_mirrored K j q m' u)"
proof (cases "adopt_ok m")
  case True
  show ?thesis
    using select_layers_ok [OF assms(1) True] assms(2,3)
    by (auto simp: graph_holds_def graph_mirrored_def same_objects_def)
next
  case False
  then show ?thesis
    using layers_same [OF assms(1)] by (auto simp: graph_holds_def graph_mirrored_def same_objects_def)
qed

lemma select_keeps:
  assumes "i < 6" "select_row (obj S ! i) = Some f" "f m r = (m', True)"
  shows "device_row q m' = device_row q m \<and>
    (j \<noteq> i \<longrightarrow> (graph_holds K j m u \<longrightarrow> graph_holds K j m' u) \<and>
       (graph_mirrored K j r m u \<longrightarrow> graph_mirrored K j r m' u))"
  using select_cases [OF assms(1,2)]
proof (elim disjE conjE)
  assume i: "i = 0" and f: "f = rb_gdn_recurrent_select K fails"
  have c: "session_select_layers K fails m r True False = (m', True)"
    using assms(3) unfolding f rb_gdn_recurrent_select_def .
  show ?thesis using layers_frame [OF c, of j u r] layers_same [OF c] i by (simp add: device_row_def same_objects_def)
next
  assume i: "i = 1" and f: "f = rb_gdn_conv_select K fails"
  have c: "session_select_layers K fails m r False True = (m', True)"
    using assms(3) unfolding f rb_gdn_conv_select_def .
  show ?thesis using layers_frame [OF c, of j u r] layers_same [OF c] i by (simp add: device_row_def same_objects_def)
next
  assume i: "i = 4" and f: "f = rb_ple_hist_select"
  show ?thesis using ple_select_ok(1) [OF assms(3) [unfolded f]] i by (simp add: graph_reps)
next
  assume i: "i = 5" and f: "f = rb_ple_conv_select fails"
  show ?thesis using ple_select_ok(2) [OF assms(3) [unfolded f]] i by (simp add: graph_reps)
qed

lemma truncate_exact:
  assumes "i < 6" "truncate_to (obj S ! i) = Some f" "k \<le> length toks"
    and "graph_holds K i m (foldl (target_step K row) t toks)" "f m (target_pos t + k) = (m', True)"
  shows "graph_holds K i m' (foldl (target_step K row) t (take k toks))"
proof -
  have len: "length (t_kv (foldl (target_step K row) t xs)) = length (t_kv t) + length xs"
    "length (t_tape (foldl (target_step K row) t xs)) = length (t_tape t) + length xs" for xs
    by (simp_all add: target_caches)
  consider "i = 2" "f = rb_qsa_kv_truncate" | "i = 3" "f = rb_qsa_indexer_truncate ratio"
    using truncate_cases [of i f] assms(1,2) by fastforce
  then show ?thesis
  proof cases
    case 1
    have "m' = m\<lparr>state_dirty := True, g_pos := target_pos t + k\<rparr>"
      using truncate_ok(1) assms(5) 1 by blast
    then show ?thesis
      using assms(3,4) 1 len target_caches_prefix(1) [OF assms(3)]
      by (auto simp: graph_holds_def target_pos_def)
  next
    case 2
    have "m' = m\<lparr>state_dirty := True, indexer_valid_blocks := (target_pos t + k) div ratio\<rparr>"
      using truncate_ok(2) assms(5) 2 by blast
    then show ?thesis
      using assms(3,4) 2 len target_caches_prefix(2) [OF assms(3)]
      by (auto simp: graph_holds_def target_pos_def)
  qed
qed

lemma truncate_keeps:
  assumes "i < 7" "truncate_to (obj S ! i) = Some f" "f m p = (m', True)"
  shows "device_row q m' = device_row q m \<and> (j \<noteq> i \<longrightarrow> graph_holds K j m u \<longrightarrow> graph_holds K j m' u)"
  using truncate_cases [OF assms(1,2)]
proof (elim disjE conjE)
  assume i: "i = 2" and f: "f = rb_qsa_kv_truncate"
  show ?thesis using truncate_ok(1) [OF assms(3) [unfolded f]] i by (simp add: graph_reps)
next
  assume f: "f = rb_qsa_indexer_truncate ratio"
  show ?thesis using truncate_ok(2) [OF assms(3) [unfolded f]] by (simp add: device_row_def)
next
  assume f: "f = rb_head_cache_truncate"
  show ?thesis using truncate_ok(3) [OF assms(3) [unfolded f]] by (simp add: device_row_def)
qed

lemma verify_forward:
  assumes "seam_verify_rows K fails m toks (target_pos t) = (m', Some (hs, ls))"
    and "in_sync (graph_holds K) m t" "toks \<noteq> []"
  shows "verified (graph_holds K) (graph_mirrored K) (target_step K row) t toks hs m' \<and>
    length ls = length toks \<and>
    (\<forall>j < length toks. renders K (ls ! j) (foldl (target_step K row) t (take (Suc j) toks)))"
proof -
  have le: "length toks \<le> MTP_MAX_COMMIT"
    using assms(1) by (auto simp: seam_verify_rows_def split: if_splits)
  then have sn: "snapshot_rows (length toks) = length toks - 1"
    using assms(3) by (cases toks) (auto simp: snapshot_rows_def)
  have fw: "graph_forward K fails m toks (length toks - 1) True = (m', True)"
    and o: "hs = g_hyper m'" "ls = take (length toks) (g_logits m')"
    using assms(1) sn
    by (auto simp: seam_verify_rows_def graph_verify_rows_def split: if_splits prod.splits bool.splits)
  note ex = forward_exact [OF fw assms(2)]
  have "renders K (ls ! j) (foldl (target_step K row) t (take (Suc j) toks))" if "j < length toks" for j
    using ex o that screened [of j "g_hyper m'"] row_of_logits [of j "g_hyper m'"]
    by (auto simp: renders_def target_pick_def)
  moreover have "length ls = length toks"
    using ex o logit_rows(1) [of "g_hyper m'"] by (metis length_map length_upt minus_nat.diff_0)
  ultimately show ?thesis using ex [THEN conjunct1] o(1) by simp
qed

lemma top1_forward:
  assumes "seam_verify_rows_top1 K fails m toks (target_pos t) = (m', Some (hs, ws))"
    and "in_sync (graph_holds K) m t"
  shows "verified (graph_holds K) (graph_mirrored K) (target_step K row) t toks hs m' \<and>
    ws = map (\<lambda>j. target_pick K (foldl (target_step K row) t (take (Suc j) toks))) [0..<length toks] \<and>
    (\<forall>j < length toks. renders K (device_row j m') (foldl (target_step K row) t (take (Suc j) toks)))"
proof -
  have fw: "graph_forward K fails m toks (length toks - 1) True = (m', True)"
    and o: "hs = g_hyper m'" "ws = k_top1 K (g_hyper m')"
    using assms(1) by (auto simp: seam_verify_rows_top1_def split: if_splits prod.splits bool.splits)
  note ex = forward_exact [OF fw assms(2)]
  have row: "g_logits m' ! j = k_logits K (g_hyper m') ! j" if "j < length toks" for j
    using ex that by (metis nth_take)
  have pk: "mtp_argmax (k_logits K (g_hyper m') ! j) (k_n_vocab K) =
      target_pick K (foldl (target_step K row) t (take (Suc j) toks))" if "j < length toks" for j
    using ex that screened [of j "g_hyper m'"] by (simp add: target_pick_def)
  have "ws = map (\<lambda>j. target_pick K (foldl (target_step K row) t (take (Suc j) toks))) [0..<length toks]"
    unfolding o(2) top1
    by (rule nth_equalityI) (use pk ex logit_rows(1) [of "g_hyper m'"] in auto)
  then show ?thesis
    using ex row_of_logits [of _ "g_hyper m'"] o(1) row pk by (auto simp: renders_def device_row_def)
qed

end

sublocale graph_seam \<subseteq> sm: mtp_seam "qwen4exp_seam K fails" S "graph_holds K" "graph_mirrored K" device_row
  "target_step K row" "target_pick K" "renders K" target_pos
proof
  show "rollback_complete S" by (rule objs(1))
next
  fix m t x m' h lg
  assume s: "in_sync (graph_holds K) m t"
    and d: "decode_token (qwen4exp_seam K fails) m x (target_pos t) = (m', Some (h, lg))"
  then obtain hs ls where v: "seam_verify_rows K fails m [x] (target_pos t) = (m', Some (hs, ls))" "lg = ls ! 0"
    by (auto simp: qwen4exp_seam_def seam_decode_token_def split: prod.splits option.splits)
  then show "in_sync (graph_holds K) m' (target_step K row t x) \<and> renders K lg (target_step K row t x)"
    using verify_forward [OF v(1) s] by (simp add: verified_def)
next
  fix g a m m' lg
  assume "read_logit_row (qwen4exp_seam K fails) = Some g" "a < MTP_MAX_COMMIT" "g m a = (m', Some lg)"
  then show "lg = device_row a m \<and> (\<forall>i t. graph_holds K i m t \<longrightarrow> graph_holds K i m' t) \<and>
      (\<forall>i r t. graph_mirrored K i r m t \<longrightarrow> graph_mirrored K i r m' t)"
    by (auto simp: qwen4exp_seam_def seam_read_logit_row_def device_row_def split: if_splits)
next
  fix m x h p m' y q j u
  assume "draft_step (qwen4exp_seam K fails) m x h p = (m', Some y)"
  then show "device_row q m' = device_row q m \<and> (j < 6 \<longrightarrow> graph_holds K j m u \<longrightarrow> graph_holds K j m' u)"
    by (auto simp: qwen4exp_seam_def seam_draft_step_def seam_draft_rows_def device_row_def split: prod.splits)
next
  fix dr m xs hs p m' y q j u
  assume "draft_rows (qwen4exp_seam K fails) = Some dr" "dr m xs hs p = (m', Some y)"
  then show "device_row q m' = device_row q m \<and> (j < 6 \<longrightarrow> graph_holds K j m u \<longrightarrow> graph_holds K j m' u)"
    by (auto simp: qwen4exp_seam_def seam_draft_rows_def device_row_def split: prod.splits)
next
  fix l t assume "renders K l t"
  then show "mtp_argmax l (seam_n_vocab (qwen4exp_seam K fails)) = target_pick K t"
    by (simp add: renders_def qwen4exp_seam_def)
qed (auto simp: qwen4exp_seam_def pick_range target_pos_step verify_forward top1_forward
       select_adopts select_keeps truncate_exact truncate_keeps)

context graph_seam
begin

lemma axioms_seam:
  "mtp_seam (qwen4exp_seam K fails) S (graph_holds K) (graph_mirrored K) device_row
     (target_step K row) (target_pick K) (renders K) target_pos"
  by (rule sm.mtp_seam_axioms)

end

end
