(* ===== verification/Ref_Kernels.thy ===== *)
theory Ref_Kernels
  imports Graph_Exact
begin

text \<open>
  Two instances of the kernel contract. The first is the reduced reference model the
  repository checks the cycle against (\<open>tests/test_qwen4exp_mtp.c\<close>): 64-bit mixing over every
  state class, so that a class rolled back wrongly changes the stream. The second is a trace
  machine, small enough to evaluate whole rounds on.
\<close>

subsection \<open>The reference model\<close>

definition mix64 :: "u64 \<Rightarrow> u64" where
  "mix64 x0 =
     (let x1 = x0 XOR drop_bit 33 x0; x2 = x1 * 0xff51afd7ed558ccd;
          x3 = x2 XOR drop_bit 33 x2; x4 = x3 * 0xc4ceb9fe1a85ec53
      in x4 XOR drop_bit 33 x4)"

definition REF_VOCAB :: nat where "REF_VOCAB = 61"
definition REF_POOL :: nat where "REF_POOL = 4"

definition tok64 :: "token \<Rightarrow> u64" where
  "tok64 x = word_of_int (x mod 4294967296)"

fun ref_pools :: "u64 list \<Rightarrow> u64 list" where
  "ref_pools (a # b # c # d # rest) = mix64 (a XOR b XOR c XOR d) # ref_pools rest"
| "ref_pools _ = []"

definition ref_hidden :: "u64 \<Rightarrow> u64 list \<Rightarrow> u64 list \<Rightarrow> u64 list \<Rightarrow> u64 list \<Rightarrow> u64 list \<Rightarrow> u64" where
  "ref_hidden rec conv ple hist kv tape =
     (let pool = ref_pools tape;
          h1 = foldl (\<lambda>h v. mix64 (h XOR v)) rec (conv @ ple @ hist);
          h2 = foldl (XOR) h1 kv;
          h3 = foldl (\<lambda>h v. mix64 (h XOR v)) h2 pool
      in mix64 (h3 XOR push_bit 32 (word_of_nat (length pool)) XOR word_of_nat (length kv)))"

definition ref_step ::
  "u64 list \<Rightarrow> u64 list \<Rightarrow> u64 list \<Rightarrow> u64 list list \<Rightarrow> u64 list list \<Rightarrow> token \<Rightarrow> u64 list \<Rightarrow> u64 list rowout" where
  "ref_step rec conv ple kv tape x hist =
     (let w = tok64 x; pos = word_of_nat (length kv) :: u64;
          conv' = mix64 (w * 31 + pos) # take 2 conv;
          rec' = mix64 (hd rec * 1000003 + w);
          ple' = mix64 (w XOR push_bit 13 pos) # take 8 ple;
          kv' = mix64 (w XOR push_bit 7 pos);
          tape' = mix64 (w + 17 * pos)
      in \<lparr>ro_state = [rec'], ro_conv = conv', ro_ple = ple', ro_kv = [kv'], ro_tape = [tape'],
          ro_hyper = [ref_hidden rec' conv' ple' hist (map hd kv @ [kv']) (map hd tape @ [tape'])],
          ro_trans = [w]\<rparr>)"

definition ref_logits :: "u64 \<Rightarrow> f32 list" where
  "ref_logits h = map (\<lambda>v. let r = mix64 (h XOR (0x9E3779B97F4A7C15 * (word_of_nat v + 1)))
      in F32 (of_int (uint (drop_bit 40 r AND 0xFFFF)) / 65536)) [0..<REF_VOCAB]"

text \<open>The n-gram history is the pair of previous token ids; the row gathered is that pair.\<close>

definition ref_gather :: "u64 list \<Rightarrow> token \<Rightarrow> u64 list \<times> u64 list option" where
  "ref_gather hist x = (let h = tok64 x # take 1 hist in (h, Some h))"

definition ref_apply :: "u64 list \<Rightarrow> u64 list \<Rightarrow> u64 list" where
  "ref_apply rec tr = [mix64 (hd rec * 1000003 + hd tr)]"

text \<open>The drafter is free; this one repeats the token it is fed.\<close>

definition ref_kernels :: "(u64 list, u64 list) kernels" where
  "ref_kernels = \<lparr>k_n_vocab = REF_VOCAB, k_hc_dim = 16,
     k_rows = (\<lambda>r c p kv tp n toks xs.
        Some (serial_rows ref_step r c p (map kv [0..<n]) (map tp [0..<n]) (zip toks xs))),
     k_apply = ref_apply, k_gather = ref_gather,
     k_logits = map (\<lambda>h. ref_logits (hd h)),
     k_top1 = map (\<lambda>h. mtp_argmax (ref_logits (hd h)) REF_VOCAB),
     k_head = (\<lambda>c xs hs n. (c, F32 (- 1), Some (last xs, last hs)))\<rparr>"

interpretation refk: qwen_kernels ref_kernels ref_step
  by unfold_locales
     (auto simp: ref_kernels_def ref_step_def ref_apply_def ref_logits_def REF_VOCAB_def Let_def)

subsection \<open>A trace machine\<close>

definition trace_row ::
  "int list \<Rightarrow> int list \<Rightarrow> int list \<Rightarrow> int list list \<Rightarrow> int list list \<Rightarrow> token \<Rightarrow> int list \<Rightarrow> int list rowout" where
  "trace_row r c p kv tp x g =
     \<lparr>ro_state = x # r, ro_conv = take 3 (x # c), ro_ple = take 9 (x # p), ro_kv = [x], ro_tape = [x],
      ro_hyper = x # r, ro_trans = [x]\<rparr>"

definition trace_next :: "int list \<Rightarrow> int" where
  "trace_next h = (2 * sum_list h + 1) mod 5"

definition trace_logits :: "int list \<Rightarrow> f32 list" where
  "trace_logits h = map (\<lambda>v. F32 (if v = trace_next h then 1 else 0)) [0, 1, 2, 3, 4]"

text \<open>The drafter guesses the target's next token and is wrong on a third of the states.\<close>

definition trace_guess :: "int list \<Rightarrow> int" where
  "trace_guess h = (if sum_list h mod 3 = 0 then (trace_next h + 1) mod 5 else trace_next h)"

definition trace_kernels :: "(int list, int list) kernels" where
  "trace_kernels = \<lparr>k_n_vocab = 5, k_hc_dim = 1,
     k_rows = (\<lambda>r c p kv tp n toks xs.
        Some (serial_rows trace_row r c p (map kv [0..<n]) (map tp [0..<n]) (zip toks xs))),
     k_apply = (\<lambda>r tr. tr @ r), k_gather = (\<lambda>q x. (take 2 (x # q), Some [x])),
     k_logits = map trace_logits, k_top1 = map (\<lambda>h. mtp_argmax (trace_logits h) 5),
     k_head = (\<lambda>c xs hs n. let h = last xs # last hs in (c, F32 5, Some (trace_guess h, h)))\<rparr>"

interpretation tracek: qwen_kernels trace_kernels trace_row
  by unfold_locales (auto simp: trace_kernels_def trace_row_def trace_logits_def)

definition never_fails :: "('v, 'q) fails" where
  "never_fails what s = False"

definition trace_set :: "(int list, int list) gsession rollback_set" where
  "trace_set = (case session_rollback_set trace_kernels never_fails 4 of Inr S \<Rightarrow> S | Inl _ \<Rightarrow> rollback_init)"

lemma trace_set_ok: "session_rollback_set trace_kernels never_fails 4 = Inr trace_set"
proof -
  have "isl (session_rollback_set trace_kernels never_fails 4) = False"
    by (simp add: session_rollback_set_def session_objects_def rollback_register_def state_ids
        state_kind_def rollback_init_def rollback_check_def eval_nat_numeral)
  then show ?thesis unfolding trace_set_def by (auto split: sum.splits)
qed

interpretation traceg: graph_seam trace_kernels trace_row never_fails 4 trace_set
  by unfold_locales (rule trace_set_ok)

definition trace_session :: "(int list, int list) gsession" where
  "trace_session = \<lparr>g_pos = 0, g_n_ctx = 100, g_n_batch = 8, state_dirty = False, gdn_state = [],
     gdn_conv = [], ple_conv_state = [], ple_history = [], gdn_state_snapshot = (\<lambda>_. []),
     gdn_conv_snapshot = (\<lambda>_. []), ple_conv_snapshot = (\<lambda>_. []), ple_history_rows = (\<lambda>_. []),
     qsa_kv = (\<lambda>_. []), idx_tape = (\<lambda>_. []), lazy_rollback = True, adopt_state = 0, adopt_conv = 0,
     replay_enabled = True, replay_active = False, replay_previous = False, replay_prefix = 0,
     gdn_checkpoint = [], replay_tape = (\<lambda>_. []), indexer_valid_blocks = 0, head_cache_pos = 0,
     head_cache = [], last_margin = F32 (- 1), g_logits = [], g_hyper = []\<rparr>"

definition trace_target :: "(int list, int list) target" where
  "trace_target = \<lparr>t_state = [], t_conv = [], t_ple = [], t_hist = [], t_kv = [], t_tape = [], t_hyper = []\<rparr>"

definition trace_state :: "nat \<Rightarrow> ((int list, int list) gsession, int list) mtp_state" where
  "trace_state d = mtp_invalidate
     \<lparr>rollback = trace_set, depth = d, pending = [], n_pending = 0, pending_parent = 0,
      pending_margin = [], stop_margin = F32 0, drop_margin = F32 0, drop_keep = 0, head_rows = 0,
      hc_scratch = Some (replicate MTP_HC_ROWS []), logits_rows = Some (replicate MTP_MAX_COMMIT []),
      hc_dim = 1, n_vocab = 5, frontier_top1 = 0, frontier_row = 0, frontier_top1_valid = False,
      frontier_logits_deferred = False, counters = counters_zero\<rparr>"

lemma trace_session_sync: "in_sync (graph_holds trace_kernels) trace_session trace_target"
  unfolding in_sync_graph by (simp add: trace_session_def trace_target_def adopt_ok_def eff_state_def eff_conv_def)

lemma trace_state_wf: "d \<le> 6 \<Longrightarrow> mtp_wf (trace_state d)"
  using traceg.objs(1) by (simp add: mtp_wf_def trace_state_def mtp_invalidate_def mtp_consts)

definition trace_seam :: "((int list, int list) gsession, int list) mtp_model" where
  "trace_seam = qwen4exp_seam trace_kernels never_fails"

text \<open>A round of the trace machine, fed the frontier token.\<close>

definition trace_round ::
  "((int list, int list) gsession, int list) round \<Rightarrow> ((int list, int list) gsession, int list) round" where
  "trace_round r = (case r of (st, m, lg, _) \<Rightarrow>
     mtp_cycle trace_seam st m (frontier_token st lg) (g_pos m) 10 10 (Some lg))"

lemma trace_first: "snd (snd (snd (mtp_cycle trace_seam (trace_state 2) trace_session 3 0 10 10 (Some [])))) = Inr [3]"
  by code_simp

lemma trace_second: "snd (snd (snd (trace_round (mtp_cycle trace_seam (trace_state 2) trace_session 3 0 10 10 (Some []))))) = Inr [2, 1]"
  by code_simp
end
