(* ===== verification/Mtp_Counters.thy ===== *)
theory Mtp_Counters
  imports Mtp_Wf
begin

text \<open>
  The counters a leg reports: what one successful round adds to them, that the self-check of
  \<open>ds4_qwen4exp_mtp_counters_check\<close> then always passes, and when a round returns at all.
\<close>

subsection \<open>What a round adds\<close>

definition count_round :: "nat \<Rightarrow> nat \<Rightarrow> mtp_counters \<Rightarrow> mtp_counters" where
  "count_round n k c = c\<lparr>rounds := rounds c + 1, drafted := drafted c + n,
     accepted := accepted c + (k - 1), committed := committed c + k,
     commit_hist := (commit_hist c)[k := Suc (commit_hist c ! k)]\<rparr>"

lemma keep_nothing: "head_calls_keep model S (\<lambda>_. True)"
  by (simp add: head_calls_keep_def)

lemma draft_chain_counters:
  "mtp_draft_chain model st m toks n pos nf = (st', m', r) \<Longrightarrow> mtp_wf st \<Longrightarrow>
     counters st' = counters st \<and> mtp_wf st'"
  using mtp_draft_chain_frame [where I = "\<lambda>_. True", OF _ _ _ keep_nothing]
  by (fastforce simp: chain_frame_def mtp_invalidate_fields)

lemma finish_counters:
  assumes "mtp_finish model st m toks a pos nf top1 df lg = (st', m', lg', Inr acc)" "mtp_wf st"
  shows "counters st' = count_commit (a + 1) (counters st) \<and> acc = take (a + 1) toks \<and> mtp_wf st'"
proof -
  let ?st = "st\<lparr>counters := count_commit (a + 1) (counters st)\<rparr>"
  obtain st1 m1 where d: "mtp_draft_chain model ?st m toks a pos nf = (st1, m1, None)"
    and res: "st' = note_frontier model a top1 df st1" "acc = take (a + 1) toks"
    using assms(1) by (auto simp: mtp_finish_def split: prod.splits option.splits)
  show ?thesis
    using draft_chain_counters [OF d mtp_wf_upd(1) [OF assms(2)]] mtp_wf_upd(5) [of st1 model a top1 df] res
    by (auto simp: note_frontier_def)
qed

text \<open>A seam whose forwards return one row per token, as the contract has them.\<close>

definition rows_in_range :: "('m, 'h) mtp_model \<Rightarrow> bool" where
  "rows_in_range model \<longleftrightarrow>
     (\<forall>m toks pos m' hs ls. verify_rows model m toks pos = (m', Some (hs, ls)) \<longrightarrow>
        length hs = length toks \<and> length ls = length toks) \<and>
     (\<forall>f m toks pos m' hs ws. verify_rows_top1 model = Some f \<longrightarrow> f m toks pos = (m', Some (hs, ws)) \<longrightarrow>
        length hs = length toks)"

lemma verify_wf:
  assumes "mtp_verify model st m toks pos = (st', m', Some ws)" "mtp_wf st" "rows_in_range model"
    "length toks \<le> MTP_MAX_COMMIT"
  shows "counters st' = counters st \<and> mtp_wf st'"
proof (cases "compact_logits model")
  case True
  then obtain f hs where f: "verify_rows_top1 model = Some f" "f m toks pos = (m', Some (hs, ws))"
    "st' = put_rows hs st"
    using assms(1) by (auto simp: mtp_verify_def compact_logits_def split: prod.splits option.splits)
  then have "length hs \<le> MTP_HC_ROWS"
    using assms(3,4) by (fastforce simp: rows_in_range_def mtp_consts)
  then show ?thesis using f(3) put_rows_wf [OF assms(2)] by (simp add: put_rows_def)
next
  case False
  then obtain hs ls where f: "verify_rows model m toks pos = (m', Some (hs, ls))"
    "st' = put_logit_rows ls (put_rows hs st)"
    using assms(1) by (auto simp: mtp_verify_def split: prod.splits option.splits)
  then have l: "length hs \<le> MTP_HC_ROWS" "length ls \<le> MTP_MAX_COMMIT"
    using assms(3,4) by (fastforce simp: rows_in_range_def mtp_consts)+
  show ?thesis
    using f(2) put_logit_rows_wf [OF put_rows_wf [OF assms(2) l(1)] l(2)]
    by (simp add: put_logit_rows_def put_rows_def)
qed

lemma spec_round_counters:
  assumes "mtp_spec_round model st m toks n pos lg0 = (st', m', lg, Inr acc)"
    and "mtp_wf st" "rows_in_range model" "length toks = Suc n" "n < MTP_MAX_COMMIT"
  shows "1 \<le> length acc \<and> length acc \<le> Suc n \<and> mtp_wf st' \<and>
    counters st' = count_commit (length acc) ((counters st)\<lparr>drafted := drafted (counters st) + n,
      accepted := accepted (counters st) + (length acc - 1)\<rparr>)"
proof -
  define st1 where "st1 = (mtp_invalidate st)\<lparr>counters := (counters st)\<lparr>drafted := drafted (counters st) + n\<rparr>\<rparr>"
  have wf1: "mtp_wf st1" unfolding st1_def by (intro mtp_wf_upd mtp_invalidate_wf assms(2))
  obtain st2 m1 ws where v: "mtp_verify model st1 m toks pos = (st2, m1, Some ws)"
    using assms(1) by (auto simp: mtp_spec_round_def st1_def Let_def split: prod.splits option.splits)
  have v2: "counters st2 = counters st1" "mtp_wf st2"
    using verify_wf [OF v wf1 assms(3)] assms(4,5) by auto
  obtain a mis where sc: "accept_scan ws toks n 0 = (a, mis)" by (meson surj_pair)
  have an: "a \<le> n" using accept_scan_prefix [OF sc] by simp
  define st3 where "st3 = st2\<lparr>counters := (counters st2)\<lparr>accepted := accepted (counters st2) + a\<rparr>\<rparr>"
  have wf3: "mtp_wf st3" unfolding st3_def by (rule mtp_wf_upd(1) [OF v2(2)])
  obtain m2 nf top1 df lg2 where fin: "mtp_finish model st3 m2 toks a pos nf top1 df lg2 = (st', m', lg, Inr acc)"
    using assms(1) v sc unfolding mtp_spec_round_def Let_def st1_def [symmetric] v prod.case option.case sc
      st3_def [symmetric] mtp_reject_def
    by (auto split: prod.splits sum.splits if_splits option.splits)
  show ?thesis
    using finish_counters [OF fin wf3] an assms(4) v2(1)
    by (auto simp: st3_def st1_def min_def count_commit_def)
qed

lemma commit_one_counters:
  assumes "mtp_commit_one model st m x pos lg0 = (st', m', lg, Inr acc)" "mtp_wf st"
  shows "length acc = 1 \<and> mtp_wf st' \<and> counters st' = count_commit 1 (counters st)"
proof -
  obtain m1 h l st2 m2 where c: "mtp_draft_chain model (put_row 0 h st) m1 [] 0 pos
      (mtp_argmax l (seam_n_vocab model)) = (st2, m2, None)"
    and res: "st' = st2\<lparr>counters := count_commit 1 (counters st2)\<rparr>" "acc = [x]"
    using assms(1) by (auto simp: mtp_commit_one_def Let_def split: prod.splits option.splits)
  show ?thesis
    using draft_chain_counters [OF c put_row_wf [OF assms(2)]] res mtp_wf_upd(1) [of st2]
    by (simp add: put_row_def)
qed

lemma cycle_counters:
  assumes "mtp_cycle model st m x pos budget cap (Some lg0) = (st', m', lg, Inr acc)"
    and "mtp_wf st" "rows_in_range model"
  defines "n \<equiv> n_verified (mtp_open_round st x) budget cap"
  shows "n \<le> depth st" "1 \<le> length acc" "length acc \<le> Suc n" "mtp_wf st'"
    "counters st' = count_round n (length acc) (counters st)"
proof -
  define st2 where "st2 = mtp_open_round st x"
  note g = mtp_cycle_guards [OF assms(1)]
  have wf2: "mtp_wf st2" unfolding st2_def by (rule mtp_open_round_wf [OF assms(2)])
  have body: "(if n < 1 \<or> depth st2 < 1 then mtp_commit_one model st2 m x pos lg0
       else mtp_spec_round model st2 m (x # take n (pending st2)) n pos lg0) = (st', m', lg, Inr acc)"
    using assms(1,2) mtp_cycle_body [OF _ _ g, of m x pos lg0] by (auto simp: mtp_wf_def Let_def st2_def n_def)
  have nd: "n \<le> depth st" "length (x # take n (pending st2)) = Suc n" "n < MTP_MAX_COMMIT" "depth st2 = depth st"
    using n_verified_le [of st2 budget cap] n_offered_le(1) [of st2 budget cap] wf2
    by (auto simp: n_def st2_def [symmetric] mtp_wf_def mtp_open_round_fields mtp_consts)
      (simp add: st2_def mtp_open_round_fields)+
  have c2: "counters st2 = (counters st)\<lparr>rounds := rounds (counters st) + 1\<rparr>"
    by (simp add: st2_def mtp_open_round_fields)
  have "1 \<le> length acc \<and> length acc \<le> Suc n \<and> mtp_wf st' \<and>
      counters st' = count_round n (length acc) (counters st)"
  proof (cases "n < 1 \<or> depth st2 < 1")
    case True
    then have "mtp_commit_one model st2 m x pos lg0 = (st', m', lg, Inr acc)" "n = 0"
      using body nd(1,4) by auto
    from commit_one_counters [OF this(1) wf2] this(2) show ?thesis
      using c2 by (simp add: count_round_def count_commit_def)
  next
    case False
    then have "mtp_spec_round model st2 m (x # take n (pending st2)) n pos lg0 = (st', m', lg, Inr acc)"
      using body by simp
    from spec_round_counters [OF this wf2 assms(3) nd(2,3)] show ?thesis
      using c2 by (simp add: count_round_def count_commit_def)
  qed
  then show "1 \<le> length acc" "length acc \<le> Suc n" "mtp_wf st'"
    "counters st' = count_round n (length acc) (counters st)" by blast+
  show "n \<le> depth st" by (rule nd(1))
qed

subsection \<open>The self-check\<close>

definition counters_ok :: "mtp_counters \<Rightarrow> bool" where
  "counters_ok c \<longleftrightarrow> length (commit_hist c) = MTP_MAX_COMMIT + 1 \<and> mtp_counters_check c = None"

lemma sum_list_upt: "sum_list (map f [m..<n]) = (\<Sum>i \<in> {m..<n}. f i)"
  by (simp add: interv_sum_list_conv_sum_set_nat)

lemma hist_update:
  assumes "length h = MTP_MAX_COMMIT + 1" "1 \<le> k" "k \<le> MTP_MAX_COMMIT"
  shows "hist_sum (h[k := Suc (h ! k)]) = Suc (hist_sum h)"
    "hist_weighted (h[k := Suc (h ! k)]) = hist_weighted h + k"
    "h[k := Suc (h ! k)] ! 0 = h ! 0"
proof -
  have in_range: "k \<in> {1..<MTP_MAX_COMMIT + 1}" "k < length h" using assms by auto
  have gen: "(\<Sum>i \<in> {1..<MTP_MAX_COMMIT + 1}. h[k := Suc (h ! k)] ! i * w i) =
      (\<Sum>i \<in> {1..<MTP_MAX_COMMIT + 1}. h ! i * w i) + w k" for w :: "nat \<Rightarrow> nat"
  proof -
    have "(\<Sum>i \<in> {1..<MTP_MAX_COMMIT + 1} - {k}. h[k := Suc (h ! k)] ! i * w i) =
        (\<Sum>i \<in> {1..<MTP_MAX_COMMIT + 1} - {k}. h ! i * w i)"
      by (rule sum.cong) auto
    then show ?thesis
      using sum.remove [OF finite_atLeastLessThan in_range(1), of "\<lambda>i. h[k := Suc (h ! k)] ! i * w i"]
        sum.remove [OF finite_atLeastLessThan in_range(1), of "\<lambda>i. h ! i * w i"] in_range(2)
      by simp
  qed
  show "hist_sum (h[k := Suc (h ! k)]) = Suc (hist_sum h)"
    using gen [of "\<lambda>_. 1"] by (simp only: hist_sum_def sum_list_upt) simp
  show "hist_weighted (h[k := Suc (h ! k)]) = hist_weighted h + k"
    using gen [of "\<lambda>i. i"] by (simp only: hist_weighted_def sum_list_upt)
  show "h[k := Suc (h ! k)] ! 0 = h ! 0" using assms(2) by simp
qed

lemma count_round_ok:
  assumes "counters_ok c" "n \<le> IMPLEMENTED_DEPTH" "1 \<le> k" "k \<le> Suc n"
  shows "counters_ok (count_round n k c)"
proof -
  have l: "length (commit_hist c) = MTP_MAX_COMMIT + 1" and k: "k \<le> MTP_MAX_COMMIT"
    using assms by (auto simp: counters_ok_def MTP_MAX_COMMIT_def)
  note h = hist_update [OF l assms(3) k]
  have c: "commit_hist c ! 0 = 0" "hist_sum (commit_hist c) = rounds c"
    "hist_weighted (commit_hist c) = committed c" "drafted c \<le> rounds c * IMPLEMENTED_DEPTH"
    "accepted c \<le> drafted c" "verify_replay_disagreements c \<le> drafted c - accepted c"
    "committed c = rounds c + accepted c" "quenches c = 0"
    using assms(1) by (auto simp: counters_ok_def mtp_counters_check_def split: if_splits)
  have "accepted c + (k - 1) \<le> drafted c + n"
    "verify_replay_disagreements c \<le> drafted c + n - (accepted c + (k - 1))"
    "committed c + k = rounds c + 1 + (accepted c + (k - 1))"
    "drafted c + n \<le> (rounds c + 1) * IMPLEMENTED_DEPTH"
    using assms(2,3,4) c by auto
  then show ?thesis
    using l h c unfolding counters_ok_def count_round_def mtp_counters_check_def by simp
qed

subsection \<open>A round returns\<close>

text \<open>
  With callbacks that report success, no guard inside a round refuses: the only refusals of the
  cycle are its four entry checks and its callbacks' own failures.
\<close>

definition seam_succeeds :: "('m, 'h) mtp_model \<Rightarrow> 'm rollback_set \<Rightarrow> bool" where
  "seam_succeeds model S \<longleftrightarrow>
     (\<forall>m x p. snd (decode_token model m x p) \<noteq> None) \<and>
     (\<forall>m xs p. snd (verify_rows model m xs p) \<noteq> None) \<and>
     (\<forall>f m xs p. verify_rows_top1 model = Some f \<longrightarrow> snd (f m xs p) \<noteq> None) \<and>
     (\<forall>g m a. read_logit_row model = Some g \<longrightarrow> snd (g m a) \<noteq> None) \<and>
     (\<forall>m x h p. snd (draft_step model m x h p) \<noteq> None) \<and>
     (\<forall>d m xs hs p. draft_rows model = Some d \<longrightarrow> snd (d m xs hs p) \<noteq> None) \<and>
     (\<forall>ob \<in> set (obj S). \<forall>f m n. select_row ob = Some f \<or> truncate_to ob = Some f \<longrightarrow> snd (f m n))"

lemma chain_loop_returns:
  assumes "\<And>m x h p. snd (draft_step model m x h p) \<noteq> None"
  shows "snd (snd (mtp_chain_loop model st m k tok cur p)) = None"
  using assms
proof (induction model st m k tok cur p rule: mtp_chain_loop.induct)
  case (1 model st m k tok cur p)
  show ?case
  proof (cases "\<not> k < depth st \<or> chain_gate st k")
    case True
    then show ?thesis by (simp add: mtp_chain_loop.simps [of model st m k tok cur p])
  next
    case False
    obtain m1 d h where d: "draft_step model m tok (get_row st cur) p = (m1, Some (d, h))"
      using "1.prems" [of m tok "get_row st cur" p] by (metis option.exhaust prod.exhaust snd_conv)
    show ?thesis
      using "1.IH" [OF False d [symmetric] refl refl refl refl refl "1.prems"] False d
      by (simp add: mtp_chain_loop.simps [of model st m k tok cur p] Let_def)
  qed
qed

lemma seed_loop_returns:
  assumes "\<And>m x h p. snd (draft_step model m x h p) \<noteq> None"
  shows "snd (mtp_seed_loop model st toks pos js m) = None"
proof (induction js arbitrary: m)
  case (Cons j js)
  obtain m1 y where "draft_step model m (toks ! (j - pos + 1)) (get_row st (j - pos)) j = (m1, Some y)"
    using assms [of m "toks ! (j - pos + 1)" "get_row st (j - pos)" j] by (metis option.exhaust prod.exhaust snd_conv)
  then show ?case using Cons.IH by simp
qed simp

lemma draft_chain_returns:
  assumes "seam_succeeds model (rollback st)" "length (obj (rollback st)) = 7"
  shows "snd (snd (mtp_draft_chain model st m toks n pos nf)) = None"
proof -
  have ds: "\<And>m x h p. snd (draft_step model m x h p) \<noteq> None"
    and dr: "\<And>d m xs hs p. draft_rows model = Some d \<Longrightarrow> snd (d m xs hs p) \<noteq> None"
    using assms(1) by (auto simp: seam_succeeds_def)
  have "obj (rollback st) ! 6 \<in> set (obj (rollback st))" using assms(2) by simp
  then have tr: "snd (mtp_head_cache_truncate (rollback st) m p) = None" for m p
    using assms(1)
    by (auto simp: mtp_head_cache_truncate_def seam_succeeds_def state_ids split: option.splits prod.splits)
       (metis snd_conv)+
  have cs: "\<exists>st3 m2 q. mtp_chain_start model st2 m1 toks n pos nf = (st3, m2, Inr q)" for st2 m1
  proof (cases "draft_rows model")
    case None
    obtain m2 where "mtp_seed_loop model st2 toks pos
        [if head_rows st2 < pos then pos else head_rows st2..<pos + n] m1 = (m2, None)"
      using seed_loop_returns [OF ds] by (metis prod.exhaust snd_conv)
    then show ?thesis using None by (simp add: mtp_chain_start_def Let_def)
  next
    case (Some d)
    define j0 where "j0 = (if head_rows st2 < pos then pos else head_rows st2)"
    obtain m2 dd hh where "d m1 (map (\<lambda>i. toks ! (j0 - pos + i + 1)) [0..<pos + n - j0] @ [nf])
        (take (pos + n - j0 + 1) (drop (j0 - pos) (the (hc_scratch st2)))) j0 = (m2, Some (dd, hh))"
      using dr [OF Some] by (metis option.exhaust prod.exhaust snd_conv)
    then show ?thesis
      unfolding mtp_chain_start_def Let_def Some option.case j0_def [symmetric] by simp
  qed
  have rb: "rollback (mtp_invalidate st) = rollback st" by (simp add: mtp_invalidate_def)
  obtain m1 where m1: "mtp_head_cache_truncate (rollback st) m (pos + n) = (m1, None)"
    using tr [of m "pos + n"] by (metis prod.exhaust snd_conv)
  define st2 where "st2 = (if head_rows (mtp_invalidate st) > pos + n
      then (mtp_invalidate st)\<lparr>head_rows := pos + n\<rparr> else mtp_invalidate st)"
  obtain st3 m2 k tok cur p where c: "mtp_chain_start model st2 m1 toks n pos nf = (st3, m2, Inr (k, tok, cur, p))"
    using cs [of st2 m1] by (metis prod.exhaust)
  obtain st4 m3 where l: "mtp_chain_loop model st3 m2 k tok cur p = (st4, m3, None)"
    using chain_loop_returns [OF ds] by (metis prod.exhaust snd_conv)
  show ?thesis
    unfolding mtp_draft_chain_def Let_def rb m1 prod.case option.case st2_def [symmetric] c sum.case l
    by simp
qed

lemma finish_returns:
  assumes "seam_succeeds model (rollback st)" "length (obj (rollback st)) = 7"
  shows "\<exists>acc. snd (snd (snd (mtp_finish model st m toks a pos nf top1 df lg))) = Inr acc"
  using draft_chain_returns [of model "st\<lparr>counters := count_commit (a + 1) (counters st)\<rparr>"] assms
  unfolding mtp_finish_def by (auto split: prod.splits option.splits) (metis option.distinct(1) snd_conv)

lemma cycle_returns_body:
  assumes "seam_succeeds model (rollback st)" "mtp_wf st"
  shows "\<exists>acc. snd (snd (snd (mtp_commit_one model st m x pos lg))) = Inr acc"
    "\<exists>acc. snd (snd (snd (mtp_spec_round model st m toks n pos lg))) = Inr acc"
proof -
  have len: "length (obj (rollback st)) = 7"
    using assms(2) by (auto simp: mtp_wf_def rollback_complete_length)
  obtain m1 h l where d: "decode_token model m x pos = (m1, Some (h, l))"
    using assms(1) unfolding seam_succeeds_def by (metis option.exhaust prod.exhaust snd_conv)
  have dc: "snd (snd (mtp_draft_chain model (put_row 0 h st) m1 [] 0 pos
      (mtp_argmax l (seam_n_vocab model)))) = None"
    by (rule draft_chain_returns) (use assms(1) len in \<open>simp_all add: put_row_def\<close>)
  show "\<exists>acc. snd (snd (snd (mtp_commit_one model st m x pos lg))) = Inr acc"
    using d dc by (auto simp: mtp_commit_one_def Let_def split: prod.splits option.splits)
  define st1 where "st1 = (mtp_invalidate st)\<lparr>counters := (counters st)\<lparr>drafted := drafted (counters st) + n\<rparr>\<rparr>"
  have rb1: "rollback st1 = rollback st" by (simp add: st1_def mtp_invalidate_def)
  obtain st2 m2 ws where v: "mtp_verify model st1 m toks pos = (st2, m2, Some ws)"
  proof (cases "compact_logits model")
    case True
    then obtain f where f: "verify_rows_top1 model = Some f" by (auto simp: compact_logits_def)
    obtain m2 hs ws where "f m toks pos = (m2, Some (hs, ws))"
      using assms(1) f unfolding seam_succeeds_def by (metis option.exhaust prod.exhaust snd_conv)
    then show ?thesis using that True f by (simp add: mtp_verify_def)
  next
    case False
    obtain m2 hs ls where "verify_rows model m toks pos = (m2, Some (hs, ls))"
      using assms(1) unfolding seam_succeeds_def by (metis option.exhaust prod.exhaust snd_conv)
    then show ?thesis using that False by (simp add: mtp_verify_def)
  qed
  have rb2: "rollback st2 = rollback st"
    using v rb1 by (auto simp: mtp_verify_def put_rows_def put_logit_rows_def split: if_splits prod.splits option.splits)
  obtain a mis where sc: "accept_scan ws toks n 0 = (a, mis)" by (meson surj_pair)
  define st3 where "st3 = st2\<lparr>counters := (counters st2)\<lparr>accepted := accepted (counters st2) + a\<rparr>\<rparr>"
  have rb3: "rollback st3 = rollback st" by (simp add: st3_def rb2)
  have fr: "\<exists>m3 q. mtp_frontier model st3 m2 a t1 lg = (m3, Inr q)" for t1
  proof (cases "read_logit_row model")
    case (Some g)
    obtain m3 l where "g m2 a = (m3, Some l)"
      using assms(1) Some unfolding seam_succeeds_def by (metis option.exhaust prod.exhaust snd_conv)
    then show ?thesis using Some by (auto simp: mtp_frontier_def Let_def)
  qed (auto simp: mtp_frontier_def compact_logits_def)
  have sel: "snd (rollback_select_row (rollback st) m a) = None"
    "snd (rollback_truncate_all (rollback st) m p) = None" for m p
    unfolding rollback_select_row_def rollback_truncate_all_def
    by (rule rb_sweep_ok [where I = "\<lambda>_. True"]; use assms(1) in \<open>auto simp: seam_succeeds_def\<close>)+
  have fin: "\<exists>acc. snd (snd (snd (mtp_finish model st3 m' toks k pos nf t1 df l))) = Inr acc"
    for m' k nf t1 df l
    by (rule finish_returns) (use assms(1) len rb3 in simp_all)
  have rej: "\<exists>acc. snd (snd (snd (mtp_reject model st3 m' toks a pos mis df l))) = Inr acc" for m' df l
  proof -
    obtain x1 where "rollback_select_row (rollback st) m' a = (x1, None)"
      using sel(1) [of m'] by (metis prod.exhaust snd_conv)
    moreover obtain x2 where "rollback_truncate_all (rollback st) x1 (pos + a + 1) = (x2, None)"
      using sel(2) [of x1 "pos + a + 1"] by (metis prod.exhaust snd_conv)
    ultimately show ?thesis using fin by (simp add: mtp_reject_def rb3)
  qed
  show "\<exists>acc. snd (snd (snd (mtp_spec_round model st m toks n pos lg))) = Inr acc"
    unfolding mtp_spec_round_def Let_def st1_def [symmetric] v prod.case option.case sc st3_def [symmetric]
    using fr [of "if compact_logits model then if a = n then ws ! n else mis else - 1"] fin rej by auto
qed

lemma cycle_returns:
  assumes "mtp_wf st" "seam_succeeds model (rollback st)" "1 \<le> budget" "1 \<le> cap"
    "seam_n_vocab model = n_vocab st" "seam_hc_dim model = hc_dim st"
  shows "\<exists>acc. snd (snd (snd (mtp_cycle model st m x pos budget cap (Some lg)))) = Inr acc"
proof -
  have "hc_scratch st \<noteq> None" "logits_rows st \<noteq> None" using assms(1) by (auto simp: mtp_wf_def)
  note body = mtp_cycle_body [OF this assms(3-6), of m x pos lg]
  show ?thesis
    unfolding body Let_def
    using cycle_returns_body [of model "mtp_open_round st x"] assms(1,2)
    by (simp add: mtp_open_round_fields mtp_open_round_wf)
qed

end
