(* ===== verification/Mtp_Keeps.thy ===== *)
theory Mtp_Keeps
  imports Mtp_Exact
begin

text \<open>
  What a round leaves alone however it ends: a failing round too keeps the state well formed and
  its set-up, and keeps every property of the session that each single callback keeps. This is
  what lets a caller reset the session after a refusal and go on.
\<close>

definition calls_keep :: "('m, 'h) mtp_model \<Rightarrow> 'm rollback_set \<Rightarrow> ('m \<Rightarrow> bool) \<Rightarrow> bool" where
  "calls_keep model S I \<longleftrightarrow>
     (\<forall>m xs p. I m \<longrightarrow> I (fst (verify_rows model m xs p))) \<and>
     (\<forall>f m xs p. verify_rows_top1 model = Some f \<longrightarrow> I m \<longrightarrow> I (fst (f m xs p))) \<and>
     (\<forall>f m a. read_logit_row model = Some f \<longrightarrow> I m \<longrightarrow> I (fst (f m a))) \<and>
     (\<forall>m x p. I m \<longrightarrow> I (fst (decode_token model m x p))) \<and>
     (\<forall>m x h p. I m \<longrightarrow> I (fst (draft_step model m x h p))) \<and>
     (\<forall>f m xs hs p. draft_rows model = Some f \<longrightarrow> I m \<longrightarrow> I (fst (f m xs hs p))) \<and>
     (\<forall>ob f m r. ob \<in> set (obj S) \<longrightarrow> select_row ob = Some f \<longrightarrow> I m \<longrightarrow> I (fst (f m r))) \<and>
     (\<forall>ob f m p. ob \<in> set (obj S) \<longrightarrow> truncate_to ob = Some f \<longrightarrow> I m \<longrightarrow> I (fst (f m p)))"

text \<open>A verify hands back no more rows than it was given.\<close>

definition rows_fit :: "('m, 'h) mtp_model \<Rightarrow> bool" where
  "rows_fit model \<longleftrightarrow>
     (\<forall>m xs p m' hs ls. verify_rows model m xs p = (m', Some (hs, ls)) \<longrightarrow> length hs \<le> length xs \<and> length ls \<le> length xs) \<and>
     (\<forall>f m xs p m' hs ws. verify_rows_top1 model = Some f \<longrightarrow> f m xs p = (m', Some (hs, ws)) \<longrightarrow> length hs \<le> length xs)"

definition same_setup :: "('m, 'h) mtp_state \<Rightarrow> ('m, 'h) mtp_state \<Rightarrow> bool" where
  "same_setup st st' \<longleftrightarrow> rollback st' = rollback st \<and> depth st' = depth st \<and> hc_dim st' = hc_dim st \<and>
     n_vocab st' = n_vocab st \<and> (mtp_wf st \<longrightarrow> mtp_wf st')"

lemma same_setup_refl [simp]: "same_setup st st"
  by (simp add: same_setup_def)

lemma same_setup_trans: "same_setup a b \<Longrightarrow> same_setup b c \<Longrightarrow> same_setup a c"
  by (simp add: same_setup_def)

lemma same_setup_upd [simp]:
  "same_setup st (mtp_invalidate st)" "same_setup st (st\<lparr>counters := c\<rparr>)" "same_setup st (put_row i h st)"
  "same_setup st (note_frontier model a top1 df st)" "same_setup st (mtp_open_round st x)"
  "same_setup st (st\<lparr>head_rows := n\<rparr>)"
  by (auto simp: same_setup_def frame_simps put_row_def intro: wf_intros put_row_wf [unfolded put_row_def])
     (simp_all add: note_frontier_def)

lemma same_setup_rows:
  "length hs \<le> MTP_HC_ROWS \<Longrightarrow> same_setup st (put_rows hs st)"
  "length ls \<le> MTP_MAX_COMMIT \<Longrightarrow> same_setup st (put_logit_rows ls st)"
  using put_rows_wf [of st hs] put_logit_rows_wf [of st ls]
  by (auto simp: same_setup_def put_rows_def put_logit_rows_def)

subsection \<open>The parts of a round\<close>

lemma rb_sweep_keeps:
  assumes "I m" "\<And>ob f m r. ob \<in> set obs \<Longrightarrow> entry ob = Some f \<Longrightarrow> I m \<Longrightarrow> I (fst (f m r))"
  shows "I (fst (rb_sweep entry err i obs m r))"
  using assms
proof (induction obs arbitrary: i m)
  case (Cons ob obs)
  have IH: "I (fst (rb_sweep entry err j obs s r))" if "I s" for j s
    using that Cons.IH Cons.prems(2) by (meson list.set_intros(2))
  show ?case
  proof (cases "entry ob")
    case None
    then show ?thesis using IH [OF Cons.prems(1)] by simp
  next
    case (Some f)
    then have "I (fst (f m r))" using Cons.prems(1) Cons.prems(2) [of ob f m r] by simp
    then show ?thesis using Some IH by (simp add: split_beta)
  qed
qed simp

lemma keepsD:
  assumes "calls_keep model S I" "I m"
  shows "I (fst (verify_rows model m xs p))" "verify_rows_top1 model = Some f1 \<Longrightarrow> I (fst (f1 m xs p))"
    "read_logit_row model = Some f2 \<Longrightarrow> I (fst (f2 m a))" "I (fst (decode_token model m x p))"
    "I (fst (draft_step model m x h p))" "draft_rows model = Some f3 \<Longrightarrow> I (fst (f3 m xs hs p))"
  using assms by (simp_all add: calls_keep_def)

lemma keepsD_obj:
  assumes "calls_keep model S I" "I m" "ob \<in> set (obj S)"
  shows "select_row ob = Some f \<Longrightarrow> I (fst (f m r))" "truncate_to ob = Some f \<Longrightarrow> I (fst (f m p))"
  using assms by (simp_all add: calls_keep_def)

lemma sweeps_keep:
  assumes "calls_keep model S I" "I m"
  shows "I (fst (rollback_select_row S m r))" "I (fst (rollback_truncate_all S m p))"
  unfolding rollback_select_row_def rollback_truncate_all_def
  by (rule rb_sweep_keeps [where I = I, OF assms(2)]; rule keepsD_obj [OF assms(1)]; assumption)+

lemma cache_truncate_keeps:
  assumes "calls_keep model S I" "I m" "length (obj S) = 7"
  shows "I (fst (mtp_head_cache_truncate S m p))"
proof (cases "truncate_to (obj S ! 6)")
  case (Some f)
  have "obj S ! 6 \<in> set (obj S)" using assms(3) by simp
  then have "I (fst (f m p))" using keepsD_obj(2) [OF assms(1,2)] Some by blast
  then show ?thesis using Some by (simp add: mtp_head_cache_truncate_def state_ids split_beta)
qed (use assms(2) in \<open>simp add: mtp_head_cache_truncate_def state_ids\<close>)

lemma chain_loop_keeps:
  "calls_keep model S I \<Longrightarrow> I m \<Longrightarrow> I (fst (snd (mtp_chain_loop model st m k tok cur p)))"
proof (induction model st m k tok cur p rule: mtp_chain_loop.induct)
  case (1 model st m k tok cur p)
  show ?case
  proof (cases "\<not> k < depth st \<or> chain_gate st k")
    case True
    then show ?thesis using "1.prems" by (simp add: mtp_chain_loop.simps [of model st m k])
  next
    case False
    obtain m1 o1 where ds: "draft_step model m tok (get_row st cur) p = (m1, o1)" by (meson surj_pair)
    have I1: "I m1" using keepsD(5) [OF "1.prems", of tok "get_row st cur" p] ds by simp
    show ?thesis
    proof (cases o1)
      case None
      then show ?thesis using False ds I1 by (simp add: mtp_chain_loop.simps [of model st m k])
    next
      case (Some dm)
      obtain d multi where dm: "dm = (d, multi)" by (cases dm)
      show ?thesis
        using "1.IH" [OF False ds [symmetric] Some dm [symmetric] refl refl refl "1.prems"(1) I1] False ds Some dm
        by (simp add: mtp_chain_loop.simps [of model st m k] Let_def)
    qed
  qed
qed

lemma seed_loop_keeps:
  "calls_keep model S I \<Longrightarrow> I m \<Longrightarrow> I (fst (mtp_seed_loop model st toks pos js m))"
proof (induction js arbitrary: m)
  case (Cons j js)
  obtain m1 o1 where ds: "draft_step model m (toks ! (j - pos + 1)) (get_row st (j - pos)) j = (m1, o1)"
    by (meson surj_pair)
  have "I m1" using keepsD(5) [OF Cons.prems, of "toks ! (j - pos + 1)" "get_row st (j - pos)" j] ds by simp
  then show ?case using Cons ds by (cases o1) auto
qed simp

lemma chain_start_keeps:
  assumes "calls_keep model S I" "I m"
  shows "I (fst (snd (mtp_chain_start model st m toks n pos nf)))"
proof (cases "draft_rows model")
  case None
  then show ?thesis
    using seed_loop_keeps [OF assms, of st toks pos "[if head_rows st < pos then pos else head_rows st..<pos + n]"]
    by (auto simp: mtp_chain_start_def Let_def split: prod.splits option.splits)
next
  case (Some f)
  then show ?thesis
    using keepsD(6) [OF assms Some]
    by (auto simp: mtp_chain_start_def Let_def split: prod.splits option.splits) (metis fst_conv)+
qed

lemma draft_chain_keeps_all:
  assumes "calls_keep model (rollback st) I" "I m" "mtp_wf st"
    "mtp_draft_chain model st m toks n pos nf = (st', m', r)"
  shows "I m' \<and> same_setup st st'"
proof -
  have "chain_frame (mtp_invalidate st) st' \<and> mtp_wf st' \<and> (r = None \<longrightarrow> True)"
    by (rule mtp_draft_chain_frame [where I = "\<lambda>_. True", OF assms(4,3) TrueI]) (simp add: head_calls_keep_def)
  then have "same_setup st st'" by (simp add: same_setup_def chain_frame_def frame_simps)
  moreover have len: "length (obj (rollback st)) = 7"
    using assms(3) rollback_complete_length by (auto simp: mtp_wf_def)
  have "I m'"
    using cache_truncate_keeps [OF assms(1,2) len, of "pos + n"] chain_start_keeps [OF assms(1)]
      chain_loop_keeps [OF assms(1)] assms(4)
    unfolding mtp_draft_chain_def Let_def
    by (auto simp: frame_simps split: prod.splits option.splits sum.splits if_splits) (metis fst_conv snd_conv)+
  ultimately show ?thesis by simp
qed

subsection \<open>A round\<close>

text \<open>A round's state and session, however it ended.\<close>

definition round_keeps ::
  "('m, 'h) mtp_state \<Rightarrow> ('m \<Rightarrow> bool) \<Rightarrow> ('m, 'h) round \<Rightarrow> bool" where
  "round_keeps st I r \<longleftrightarrow> same_setup st (fst r) \<and> I (fst (snd r))"

lemma round_keeps_trans: "same_setup st st1 \<Longrightarrow> round_keeps st1 I r \<Longrightarrow> round_keeps st I r"
  by (auto simp: round_keeps_def intro: same_setup_trans)

lemma commit_one_keeps:
  assumes "calls_keep model (rollback st) I" "I m" "mtp_wf st"
  shows "round_keeps st I (mtp_commit_one model st m x pos lg)"
proof -
  obtain m1 o1 where d: "decode_token model m x pos = (m1, o1)" by (meson surj_pair)
  have I1: "I m1" using keepsD(4) [OF assms(1,2), of x pos] d by simp
  show ?thesis
  proof (cases o1)
    case None
    then show ?thesis using d I1 by (simp add: mtp_commit_one_def round_keeps_def)
  next
    case (Some hl)
    obtain h l where hl: "hl = (h, l)" by (cases hl)
    obtain st2 m2 r where c: "mtp_draft_chain model (put_row 0 h st) m1 [] 0 pos (mtp_argmax l (seam_n_vocab model)) = (st2, m2, r)"
      using prod_cases3 by blast
    have rb: "rollback (put_row 0 h st) = rollback st" by (simp add: put_row_def)
    have k: "calls_keep model (rollback (put_row 0 h st)) I" using assms(1) rb by simp
    have "I m2 \<and> same_setup st st2"
      using draft_chain_keeps_all [OF k I1 put_row_wf [OF assms(3)] c] same_setup_upd(3) [of st 0 h]
        same_setup_trans by blast
    then show ?thesis
      using d Some hl c same_setup_trans [OF _ same_setup_upd(2)]
      by (auto simp: mtp_commit_one_def round_keeps_def split: option.splits)
  qed
qed

lemma finish_keeps:
  assumes "calls_keep model (rollback st) I" "I m" "mtp_wf st"
  shows "round_keeps st I (mtp_finish model st m toks a pos nf top1 df lg)"
proof -
  let ?st = "st\<lparr>counters := count_commit (a + 1) (counters st)\<rparr>"
  obtain st1 m1 r where c: "mtp_draft_chain model ?st m toks a pos nf = (st1, m1, r)"
    using prod_cases3 by blast
  have k: "calls_keep model (rollback ?st) I" using assms(1) by simp
  have "I m1 \<and> same_setup st st1"
    using draft_chain_keeps_all [OF k assms(2) mtp_wf_upd(1) [OF assms(3)] c] same_setup_upd(2) [of st]
      same_setup_trans by blast
  then show ?thesis
    using c same_setup_trans [OF _ same_setup_upd(4)]
    by (auto simp: mtp_finish_def round_keeps_def split: option.splits)
qed

lemma reject_keeps:
  assumes "calls_keep model (rollback st) I" "I m" "mtp_wf st"
  shows "round_keeps st I (mtp_reject model st m toks a pos mis df lg)"
proof -
  obtain m1 o1 where s: "rollback_select_row (rollback st) m a = (m1, o1)" by (meson surj_pair)
  obtain m2 o2 where t: "rollback_truncate_all (rollback st) m1 (pos + a + 1) = (m2, o2)" by (meson surj_pair)
  have I1: "I m1" using sweeps_keep(1) [OF assms(1,2), of a] s by simp
  have I2: "I m2" using sweeps_keep(2) [OF assms(1) I1, of "pos + a + 1"] t by simp
  show ?thesis
    using s t I1 I2 finish_keeps [OF assms(1) I2 assms(3)]
    by (cases o1; cases o2) (auto simp: mtp_reject_def round_keeps_def)
qed

lemma verify_keeps:
  assumes "calls_keep model (rollback st) I" "I m" "rows_fit model" "length toks \<le> MTP_MAX_COMMIT"
    "mtp_verify model st m toks pos = (st', m', r)"
  shows "same_setup st st' \<and> I m'"
proof (cases "compact_logits model")
  case True
  then obtain f where f: "verify_rows_top1 model = Some f" by (auto simp: compact_logits_def)
  have "length hs \<le> MTP_HC_ROWS" if "f m toks pos = (m', Some (hs, ws))" for hs ws
    using assms(3,4) f that by (fastforce simp: rows_fit_def mtp_consts)
  then show ?thesis
    using assms(5) True f keepsD(2) [OF assms(1,2) f, of toks pos] same_setup_rows(1)
    by (auto simp: mtp_verify_def split: prod.splits option.splits)
next
  case False
  have fit: "length hs \<le> MTP_HC_ROWS \<and> length ls \<le> MTP_MAX_COMMIT"
    if "verify_rows model m toks pos = (m', Some (hs, ls))" for hs ls
    using assms(3,4) that by (fastforce simp: rows_fit_def mtp_consts)
  show ?thesis
    using assms(5) False keepsD(1) [OF assms(1,2), of toks pos] fit same_setup_trans [OF same_setup_rows(1) same_setup_rows(2)]
    by (auto simp: mtp_verify_def split: prod.splits option.splits)
qed

lemma frontier_keeps:
  assumes "calls_keep model S I" "I m" "mtp_frontier model st m a top1 lg = (m', r)"
  shows "I m'"
proof (cases "read_logit_row model")
  case None
  then show ?thesis using assms(2,3) by (auto simp: mtp_frontier_def Let_def compact_logits_def split: if_splits)
next
  case (Some f)
  show ?thesis
    using keepsD(3) [OF assms(1,2) Some, of a] Some assms(2,3)
    by (auto simp: mtp_frontier_def Let_def split: if_splits prod.splits option.splits)
qed

lemma spec_round_keeps:
  assumes "calls_keep model (rollback st) I" "I m" "mtp_wf st" "rows_fit model" "length toks \<le> MTP_MAX_COMMIT"
  shows "round_keeps st I (mtp_spec_round model st m toks n pos lg)"
proof -
  define st1 where "st1 = (mtp_invalidate st)\<lparr>counters := (counters st)\<lparr>drafted := drafted (counters st) + n\<rparr>\<rparr>"
  have ss1: "same_setup st st1"
    unfolding st1_def by (rule same_setup_trans [OF same_setup_upd(1,2)])
  obtain st2 m1 o1 where v: "mtp_verify model st1 m toks pos = (st2, m1, o1)" using prod_cases3 by blast
  have k1: "calls_keep model (rollback st1) I" using assms(1) ss1 by (simp add: same_setup_def)
  have v2: "same_setup st1 st2" "I m1" using verify_keeps [OF k1 assms(2,4,5) v] by auto
  show ?thesis
  proof (cases o1)
    case None
    then show ?thesis
      using v v2 ss1 same_setup_trans unfolding mtp_spec_round_def Let_def st1_def [symmetric]
      by (auto simp: round_keeps_def)
  next
    case (Some ws)
    obtain a mis where sc: "accept_scan ws toks n 0 = (a, mis)" by (meson surj_pair)
    define st3 where "st3 = st2\<lparr>counters := (counters st2)\<lparr>accepted := accepted (counters st2) + a\<rparr>\<rparr>"
    define top1 where "top1 = (if compact_logits model then (if a = n then ws ! n else mis) else - 1)"
    have ss3: "same_setup st st3"
      unfolding st3_def by (rule same_setup_trans [OF same_setup_trans [OF ss1 v2(1)] same_setup_upd(2)])
    then have k3: "calls_keep model (rollback st3) I" "mtp_wf st3" using assms(1,3) by (auto simp: same_setup_def)
    obtain m2 r2 where fr: "mtp_frontier model st3 m1 a top1 lg = (m2, r2)" by (meson surj_pair)
    have I2: "I m2" by (rule frontier_keeps [OF k3(1) v2(2) fr])
    have eq: "mtp_spec_round model st m toks n pos lg =
        (case r2 of Inl e \<Rightarrow> (st3, m2, lg, Inl e)
         | Inr (lg', df) \<Rightarrow>
             if a = n then mtp_finish model st3 m2 toks n pos
               (if compact_logits model then top1 else mtp_argmax lg' (n_vocab st3)) top1 df lg'
             else mtp_reject model st3 m2 toks a pos mis df lg')"
      by (simp only: mtp_spec_round_def Let_def st1_def [symmetric] v Some sc prod.case option.case
          st3_def [symmetric] top1_def [symmetric] fr)
    show ?thesis
      unfolding eq
      by (cases r2)
         (auto simp: round_keeps_def [of st I "(st3, m2, lg, Inl e)" for e] ss3 I2 split: if_splits prod.splits
           intro: round_keeps_trans [OF ss3] finish_keeps [OF k3(1) I2 k3(2)] reject_keeps [OF k3(1) I2 k3(2)])
  qed
qed

theorem cycle_keeps:
  assumes "calls_keep model (rollback st) I" "I m" "mtp_wf st" "rows_fit model"
  shows "round_keeps st I (mtp_cycle model st m x pos budget cap lgb)"
proof -
  define st2 where "st2 = mtp_open_round st x"
  define n where "n = n_verified st2 budget cap"
  have ss: "same_setup st st2" by (simp add: st2_def)
  have k: "calls_keep model (rollback st2) I" "mtp_wf st2" using ss assms(1,3) by (auto simp: same_setup_def)
  have "n \<le> n_pending st2"
    using n_verified_le [of st2 budget cap] by (auto simp: n_def n_offered_def)
  then have "length (x # take n (pending st2)) \<le> MTP_MAX_COMMIT"
    using k(2) by (auto simp: mtp_wf_def mtp_consts)
  then have "round_keeps st2 I (mtp_commit_one model st2 m x pos lg)"
    "round_keeps st2 I (mtp_spec_round model st2 m (x # take n (pending st2)) n pos lg)" for lg
    using commit_one_keeps [OF k(1) assms(2) k(2)] spec_round_keeps [OF k(1) assms(2) k(2) assms(4)] by blast+
  then have "round_keeps st I (mtp_commit_one model st2 m x pos lg)"
    "round_keeps st I (mtp_spec_round model st2 m (x # take n (pending st2)) n pos lg)" for lg
    using round_keeps_trans [OF ss] by blast+
  then show ?thesis
    using assms(2) unfolding mtp_cycle_def Let_def st2_def [symmetric] n_def [symmetric]
    by (auto simp: round_keeps_def [of st I "(st, m, l, Inl e)" for l e] split: option.splits)
qed

end
