(* ===== verification/Graph_Clean.thy ===== *)
theory Graph_Clean
  imports Graph_Exact Mtp_Keeps
begin

text \<open>
  The dirty bit of the graph session: every write sets it, whether the call that made it
  succeeds or fails, so a reset may trust a clear bit. A callback of the seam and a rollback
  object either return the session they were given or a dirty one; hence a whole round, failing
  or not, keeps the meaning of the bit.
\<close>

text \<open>
  A session is clean when nothing was written since its last reset; every write marks it
  dirty, which is what lets a reset skip the zeroing.
\<close>

definition clean_ok :: "'v \<Rightarrow> 'q \<Rightarrow> ('v, 'q) gsession \<Rightarrow> bool" where
  "clean_ok zero q0 s \<longleftrightarrow> (\<not> state_dirty s \<longrightarrow>
     gdn_state s = zero \<and> gdn_conv s = zero \<and> ple_conv_state s = zero \<and> ple_history s = q0 \<and>
     qsa_kv s = (\<lambda>_. zero) \<and> idx_tape s = (\<lambda>_. zero) \<and> head_cache s = zero)"

lemma settle_dirty: "graph_settle K fails s = Some s' \<Longrightarrow> state_dirty s \<Longrightarrow> state_dirty s'"
proof -
  have c: "session_copy_layers K fails x r a b = (y, True) \<Longrightarrow> state_dirty y" for x r a b y
    using copy_layers_cases [of K fails x r a b y] by simp
  show "graph_settle K fails s = Some s' \<Longrightarrow> state_dirty s \<Longrightarrow> state_dirty s'"
    unfolding graph_settle_def Let_def
    by (auto split: if_splits prod.splits bool.splits dest!: c)
qed

lemma forward_dirty:
  assumes "graph_forward K fails s toks n b = (s', ok)"
  shows "s' = s \<or> state_dirty s'"
proof -
  have g: "state_dirty (fst (graph_ple_gather K (s\<lparr>state_dirty := True\<rparr>) toks n))"
    by (simp add: graph_ple_gather_def Let_def)
  have p: "state_dirty (replay_prepare p s2) = state_dirty s2" for p s2
    by (simp add: replay_prepare_def Let_def)
  have w: "state_dirty (write_rows K n outs s3) = state_dirty s3" for outs s3
    by (simp add: write_rows_def Let_def)
  show ?thesis
    using assms g unfolding graph_forward_def Let_def
    by (auto split: if_splits prod.splits option.splits simp: p w dest: settle_dirty)
qed

lemma clean_cases: "clean_ok zero q0 s \<Longrightarrow> s' = s \<or> state_dirty s' \<Longrightarrow> clean_ok zero q0 s'"
  by (auto simp: clean_ok_def)

definition empty_target :: "'v \<Rightarrow> 'q \<Rightarrow> 'v \<Rightarrow> ('v, 'q) target" where
  "empty_target zero q0 h =
     \<lparr>t_state = zero, t_conv = zero, t_ple = zero, t_hist = q0, t_kv = [], t_tape = [], t_hyper = h\<rparr>"

lemma reset_empty:
  assumes "clean_ok zero q0 s"
  shows "in_sync (graph_holds K) (session_reset zero q0 s) (empty_target zero q0 h) \<and>
    qsa_kv (session_reset zero q0 s) = (\<lambda>_. zero) \<and> idx_tape (session_reset zero q0 s) = (\<lambda>_. zero) \<and>
    head_cache (session_reset zero q0 s) = zero \<and> clean_ok zero q0 (session_reset zero q0 s)"
  using assms unfolding in_sync_graph
  by (auto simp: session_reset_def Let_def clean_ok_def adopt_ok_def eff_state_def eff_conv_def empty_target_def)

subsection \<open>Callbacks\<close>

lemma copy_layers_dirty: "state_dirty (fst (session_copy_layers K fails s row rec cv))"
  by (auto simp: session_copy_layers_def Let_def replay_snapshot_def split: option.splits if_splits)

lemma select_layers_dirty: "state_dirty (fst (session_select_layers K fails s row rec cv))"
  by (auto simp: session_select_layers_def Let_def copy_layers_dirty)

lemma objects_dirty:
  "state_dirty (fst (rb_gdn_recurrent_select K fails s r))" "state_dirty (fst (rb_gdn_conv_select K fails s r))"
  "fst (rb_ple_hist_select s r) = s \<or> state_dirty (fst (rb_ple_hist_select s r))"
  "fst (rb_ple_conv_select fails s r) = s \<or> state_dirty (fst (rb_ple_conv_select fails s r))"
  "fst (rb_qsa_kv_truncate s r) = s \<or> state_dirty (fst (rb_qsa_kv_truncate s r))"
  "fst (rb_qsa_indexer_truncate ratio s r) = s \<or> state_dirty (fst (rb_qsa_indexer_truncate ratio s r))"
  "state_dirty (fst (rb_head_cache_truncate s r))"
  by (auto simp: rb_gdn_recurrent_select_def rb_gdn_conv_select_def select_layers_dirty rb_ple_hist_select_def
      rb_ple_conv_select_def rb_qsa_kv_truncate_def rb_qsa_indexer_truncate_def rb_head_cache_truncate_def Let_def)

lemma seam_forward_dirty:
  "fst (graph_verify_rows K fails s xs) = s \<or> state_dirty (fst (graph_verify_rows K fails s xs))"
  "fst (seam_verify_rows K fails s xs p) = s \<or> state_dirty (fst (seam_verify_rows K fails s xs p))"
  "fst (seam_verify_rows_top1 K fails s xs p) = s \<or> state_dirty (fst (seam_verify_rows_top1 K fails s xs p))"
  "fst (seam_decode_token K fails s x p) = s \<or> state_dirty (fst (seam_decode_token K fails s x p))"
proof -
  show v: "fst (graph_verify_rows K fails s xs) = s \<or> state_dirty (fst (graph_verify_rows K fails s xs))" for xs
    unfolding graph_verify_rows_def
    by (auto split: prod.splits bool.splits dest!: forward_dirty)
  show w: "fst (seam_verify_rows K fails s xs p) = s \<or> state_dirty (fst (seam_verify_rows K fails s xs p))" for xs
    using v [of xs] by (auto simp: seam_verify_rows_def)
  show "fst (seam_verify_rows_top1 K fails s xs p) = s \<or> state_dirty (fst (seam_verify_rows_top1 K fails s xs p))"
    unfolding seam_verify_rows_top1_def by (auto split: prod.splits bool.splits dest!: forward_dirty)
  show "fst (seam_decode_token K fails s x p) = s \<or> state_dirty (fst (seam_decode_token K fails s x p))"
    using w [of "[x]"] by (auto simp: seam_decode_token_def split: prod.splits option.splits)
qed

lemma draft_rows_dirty: "state_dirty (fst (seam_draft_rows K s xs hs p))"
  by (simp add: seam_draft_rows_def split: prod.splits)

lemma seam_keeps_clean:
  assumes "session_rollback_set K fails ratio = Inr S"
  shows "calls_keep (qwen4exp_seam K fails) S (clean_ok zero q0)"
proof -
  note o = rollback_set_objects [OF assms]
  have "length (obj S) = 7" using o(1) by (rule rollback_complete_length)
  then have obs: "ob = obj S ! 0 \<or> ob = obj S ! 1 \<or> ob = obj S ! 2 \<or> ob = obj S ! 3 \<or> ob = obj S ! 4
      \<or> ob = obj S ! 5 \<or> ob = obj S ! 6" if "ob \<in> set (obj S)" for ob
    using that by (auto simp: in_set_conv_nth less_Suc_eq numeral_eq_Suc)
  have sel: "fst (f m r) = m \<or> state_dirty (fst (f m r))"
    if "ob \<in> set (obj S)" "select_row ob = Some f \<or> truncate_to ob = Some f" for ob f m r
  proof -
    have "select_row (obj S ! 6) = None"
      using rollback_complete_objs [OF o(1), of 6] by (simp add: state_kind_def state_ids)
    then have "f \<in> {rb_gdn_recurrent_select K fails, rb_gdn_conv_select K fails, rb_ple_hist_select,
        rb_ple_conv_select fails, rb_qsa_kv_truncate, rb_qsa_indexer_truncate ratio, rb_head_cache_truncate}"
      using obs [OF that(1)] that(2) o by (elim disjE) simp_all
    then show ?thesis
      by (elim insertE emptyE; hypsubst) (rule objects_dirty disjI2 [OF objects_dirty(1)]
          disjI2 [OF objects_dirty(2)] disjI2 [OF objects_dirty(7)])+
  qed
  have obj: "clean_ok zero q0 (fst (f m r))"
    if "ob \<in> set (obj S)" "select_row ob = Some f \<or> truncate_to ob = Some f" "clean_ok zero q0 m" for ob f m r
    using clean_cases [OF that(3) sel [OF that(1,2)]] .
  have fwd: "clean_ok zero q0 (fst (seam_verify_rows K fails m xs p))"
    "clean_ok zero q0 (fst (seam_verify_rows_top1 K fails m xs p))"
    "clean_ok zero q0 (fst (seam_decode_token K fails m x p))" if "clean_ok zero q0 m" for m xs x p
    by (rule clean_cases [OF that seam_forward_dirty(2)] clean_cases [OF that seam_forward_dirty(3)]
        clean_cases [OF that seam_forward_dirty(4)])+
  have dr: "clean_ok zero q0 (fst (seam_draft_rows K m xs hs p))" for m xs hs p
    using draft_rows_dirty [of K m xs hs p] by (simp add: clean_ok_def)
  have rd: "fst (seam_read_logit_row fails m a) = m" for m a
    by (simp add: seam_read_logit_row_def)
  show ?thesis
    unfolding calls_keep_def qwen4exp_seam_def seam_draft_step_def
    by (auto simp: fwd dr rd obj)
qed

lemma forward_rows:
  assumes "qwen_kernels K row" "graph_forward K fails s toks n b = (s', True)"
  shows "length (g_hyper s') = length toks"
proof -
  have sr: "length (serial_rows row r c p kv tp xs) = length xs" for r c p kv tp xs
    by (induction xs arbitrary: r c p kv tp) (simp_all add: Let_def)
  have kr: "k_rows K r c p kv tp n toks (map f (ple_scan K q toks)) = Some outs \<Longrightarrow> length outs = length toks"
    for r c p kv tp n f q outs
    using qwen_kernels.batch_invariance [OF assms(1), of "map f (ple_scan K q toks)" toks r c p kv tp n outs]
    by (simp add: sr)
  show ?thesis
    using assms(2)
    unfolding graph_forward_def Let_def graph_ple_gather_def write_rows_def
    by (auto split: if_splits option.splits prod.splits dest: kr)
qed

lemma seam_rows_fit:
  assumes "qwen_kernels K row"
  shows "rows_fit (qwen4exp_seam K fails)"
  unfolding rows_fit_def qwen4exp_seam_def
  by (auto simp: seam_verify_rows_def seam_verify_rows_top1_def graph_verify_rows_def
      dest!: forward_rows [OF assms] split: if_splits prod.splits bool.splits)

end
