(* ===== verification/Mtp_Properties.thy ===== *)
theory Mtp_Properties
  imports Ref_Kernels Mtp_Counters Graph_Clean
begin

text \<open>
  The properties of the speculative path: exactness of a round and of a leg over the graph
  session's own callbacks, the forward and the reset of the session, the rollback set, the
  counters, the accept scan and the argmax, and that a round returns.
\<close>

subsection \<open>Exactness\<close>

lemma seam_nv: "seam_n_vocab (qwen4exp_seam K fails) = k_n_vocab K"
  by (simp add: qwen4exp_seam_def)

lemma graph_seam_seam:
  assumes "graph_seam K row fails ratio S"
  shows "mtp_seam (qwen4exp_seam K fails) S (graph_holds K) (graph_mirrored K) device_row
    (target_step K row) (target_pick K) (renders K) target_pos"
  by (rule graph_seam.axioms_seam [OF assms])

text \<open>
  Property C2. A round of \<open>ds4_qwen4exp_mtp_cycle\<close> over the graph session's seam commits the
  target's own greedy stream. For every draft head, depth, margin setting, budget and capacity:
  if the kernels are batch invariant and the round returns, then it commits at least the fed
  token, at most the budget, the capacity and depth + 1 tokens, exactly the tokens a serial
  greedy feed would have committed; the session is in the state of that serial feed, and the
  token sampled next is the target's choice there.
\<close>

theorem qwen4exp_cycle_exact:
  assumes "graph_seam K row fails ratio S"
    and "mtp_wf st" "rollback st = S" "n_vocab st = k_n_vocab K"
    and "in_sync (graph_holds K) m t"
    and "mtp_cycle (qwen4exp_seam K fails) st m x (target_pos t) budget cap (Some lg0) =
           (st', m', lg, Inr acc)"
  shows "acc \<noteq> [] \<and> int (length acc) \<le> budget \<and> int (length acc) \<le> cap \<and> length acc \<le> depth st + 1 \<and>
    acc = greedy (target_step K row) (target_pick K) t x (length acc) \<and>
    in_sync (graph_holds K) m' (foldl (target_step K row) t acc) \<and>
    frontier_token st' lg = target_pick K (foldl (target_step K row) t acc) \<and>
    mtp_wf st' \<and> rollback st' = S \<and> n_vocab st' = n_vocab st \<and> depth st' = depth st"
proof -
  note seam = graph_seam_seam [OF assms(1)]
  note nv = seam_nv [of K fails]
  have rd: "mtp_seam.ready (qwen4exp_seam K fails) S st"
    using assms(2-4) nv by (simp add: mtp_seam.ready_def [OF seam])
  note ex = mtp_seam.cycle_exact [OF seam assms(6) rd assms(5)]
  note ro = ex [THEN conjunct2, THEN conjunct2, THEN conjunct2]
  show ?thesis
    using ex mtp_seam.round_frontier_token [OF seam ro] assms(4) nv
    by (simp add: mtp_seam.round_ok_def [OF seam] mtp_seam.ready_def [OF seam])
qed

lemma trace_seam_nv: "n_vocab (trace_state d) = k_n_vocab trace_kernels" "rollback (trace_state d) = trace_set"
  by (simp_all add: trace_state_def mtp_invalidate_def trace_kernels_def)

lemma trace_graph_seam: "graph_seam trace_kernels trace_row never_fails 4 trace_set"
  by (rule traceg.graph_seam_axioms)

definition trace_one :: "((int list, int list) gsession, int list) round" where
  "trace_one = mtp_cycle trace_seam (trace_state 2) trace_session 3 0 10 10 (Some [])"

lemma trace_one_tuple: "\<exists>st m lg. trace_one = (st, m, lg, Inr [3])"
proof -
  have "snd (snd (snd trace_one)) = Inr [3]" unfolding trace_one_def by (rule trace_first)
  then show ?thesis by (metis prod.exhaust snd_conv)
qed

lemma trace_two_tuple:
  "\<exists>st m lg st' m' lg'. trace_one = (st, m, lg, Inr [3]) \<and>
     mtp_cycle trace_seam st m (frontier_token st lg) (g_pos m) 10 10 (Some lg) = (st', m', lg', Inr [2, 1])"
proof -
  obtain st m lg where 1: "trace_one = (st, m, lg, Inr [3])" using trace_one_tuple by blast
  have "snd (snd (snd (trace_round trace_one))) = Inr [2, 1]" unfolding trace_one_def by (rule trace_second)
  then have "snd (snd (snd (mtp_cycle trace_seam st m (frontier_token st lg) (g_pos m) 10 10 (Some lg)))) =
      Inr [2, 1]"
    unfolding 1 trace_round_def prod.case .
  then obtain st' m' lg' where
    "mtp_cycle trace_seam st m (frontier_token st lg) (g_pos m) 10 10 (Some lg) = (st', m', lg', Inr [2, 1])"
    by (metis prod.exhaust snd_conv)
  then show ?thesis using 1 by blast
qed

lemma target_pos_trace: "target_pos trace_target = 0" "k_n_vocab trace_kernels = 5"
  by (simp_all add: target_pos_def trace_target_def trace_kernels_def)

text \<open>The second round of the trace machine, which accepts one draft and rejects the next.\<close>

theorem qwen4exp_cycle_exact_witness:
  "\<exists>st m lg st' m' lg'.
     trace_one = (st, m, lg, Inr [3]) \<and>
     mtp_cycle trace_seam st m (frontier_token st lg) 1 10 10 (Some lg) = (st', m', lg', Inr [2, 1]) \<and>
     [2, 1] = greedy (target_step trace_kernels trace_row) (target_pick trace_kernels)
       (target_step trace_kernels trace_row trace_target 3) (frontier_token st lg) 2"
proof -
  obtain st m lg st' m' lg' where 1: "trace_one = (st, m, lg, Inr [3])"
    and 2: "mtp_cycle trace_seam st m (frontier_token st lg) (g_pos m) 10 10 (Some lg) = (st', m', lg', Inr [2, 1])"
    using trace_two_tuple by blast
  have c1: "mtp_cycle (qwen4exp_seam trace_kernels never_fails) (trace_state 2) trace_session 3
      (target_pos trace_target) 10 10 (Some []) = (st, m, lg, Inr [3])"
    using 1 by (simp add: trace_one_def trace_seam_def target_pos_trace)
  have w: "mtp_wf (trace_state 2)" by (rule trace_state_wf) simp
  note e1 = qwen4exp_cycle_exact [OF trace_graph_seam w trace_seam_nv(2) trace_seam_nv(1) trace_session_sync c1]
  let ?t = "target_step trace_kernels trace_row trace_target 3"
  have s1: "in_sync (graph_holds trace_kernels) m ?t" "mtp_wf st" "rollback st = trace_set"
    "n_vocab st = k_n_vocab trace_kernels"
    using e1 trace_seam_nv(1) by simp_all
  have "target_pos ?t = 1" by (simp add: target_pos_step target_pos_trace)
  moreover have "g_pos m = target_pos ?t" using s1(1) by (simp add: in_sync_graph target_pos_def)
  ultimately have p: "target_pos ?t = 1" "g_pos m = 1" by simp_all
  have c2: "mtp_cycle (qwen4exp_seam trace_kernels never_fails) st m (frontier_token st lg)
      (target_pos ?t) 10 10 (Some lg) = (st', m', lg', Inr [2, 1])"
    using 2 p by (simp add: trace_seam_def)
  note e2 = qwen4exp_cycle_exact [OF trace_graph_seam s1(2,3,4,1) c2]
  have "[2, 1] = greedy (target_step trace_kernels trace_row) (target_pick trace_kernels) ?t (frontier_token st lg) 2"
    using e2 by (simp only: list.size numeral_2_eq_2 One_nat_def) simp
  then show ?thesis using 1 2 p by (intro exI conjI) (auto simp: p)
qed

text \<open>
  Property C3. A whole leg is the serial stream: over any sequence of rounds of the cycle, each
  fed the token the previous round left at the frontier and given any budget and capacity, the
  tokens emitted are the target's greedy stream, the session ends in that stream's state and at
  its position, and the next token to feed is the stream's next token.
\<close>

theorem qwen4exp_leg_exact:
  assumes "graph_seam K row fails ratio S"
    and "mtp_wf st" "rollback st = S" "n_vocab st = k_n_vocab K"
    and "in_sync (graph_holds K) m t" "x = target_pick K t"
    and "mtp_leg (qwen4exp_seam K fails) st m lg x (target_pos t) out st' m' lg' x' pos'"
  shows "out = greedy (target_step K row) (target_pick K) t (target_pick K t) (length out) \<and>
    in_sync (graph_holds K) m' (foldl (target_step K row) t out) \<and>
    pos' = target_pos t + length out \<and> x' = target_pick K (foldl (target_step K row) t out) \<and> mtp_wf st'"
proof -
  note seam = graph_seam_seam [OF assms(1)]
  have rd: "mtp_seam.ready (qwen4exp_seam K fails) S st"
    using assms(2-4) by (simp add: mtp_seam.ready_def [OF seam] seam_nv)
  show ?thesis
    using mtp_seam.leg_exact [OF seam assms(7) rd assms(5) refl] assms(6)
      mtp_seam.tpos_foldl [OF seam, of t out]
    by (auto simp: mtp_seam.ready_def [OF seam])
qed

lemma trace_fed_sync:
  "in_sync (graph_holds trace_kernels) trace_session trace_target" "target_pick trace_kernels trace_target = 1"
  by (rule trace_session_sync) code_simp

lemma trace_leg_one:
  "\<exists>st' m' lg' x' pos'. mtp_leg (qwen4exp_seam trace_kernels never_fails) (trace_state 2) trace_session []
     1 0 [1] st' m' lg' x' pos'"
proof -
  have "snd (snd (snd (mtp_cycle trace_seam (trace_state 2) trace_session 1 0 10 10 (Some [])))) = Inr [1]"
    by code_simp
  then obtain st1 m1 lg1 where
    "mtp_cycle (qwen4exp_seam trace_kernels never_fails) (trace_state 2) trace_session 1 0 10 10 (Some [])
       = (st1, m1, lg1, Inr [1])"
    unfolding trace_seam_def by (metis prod.exhaust snd_conv)
  then show ?thesis using leg_round [OF _ leg_stop] by fastforce
qed

theorem qwen4exp_leg_exact_witness:
  "\<exists>st' m' lg' x' pos'.
     mtp_leg (qwen4exp_seam trace_kernels never_fails) (trace_state 2) trace_session [] 1 0 [1] st' m' lg' x' pos' \<and>
     [1] = greedy (target_step trace_kernels trace_row) (target_pick trace_kernels) trace_target 1 1 \<and> pos' = 1"
proof -
  obtain st' m' lg' x' pos' where l: "mtp_leg (qwen4exp_seam trace_kernels never_fails) (trace_state 2)
      trace_session [] 1 0 [1] st' m' lg' x' pos'"
    using trace_leg_one by blast
  have l': "mtp_leg (qwen4exp_seam trace_kernels never_fails) (trace_state 2) trace_session []
      (1 :: token) (target_pos trace_target) [1] st' m' lg' x' pos'"
    using l by (simp add: target_pos_trace)
  have w: "mtp_wf (trace_state 2)" by (rule trace_state_wf) simp
  note e = qwen4exp_leg_exact [OF trace_graph_seam w trace_seam_nv(2) trace_seam_nv(1) trace_session_sync
      trace_fed_sync(2) [symmetric] l']
  then show ?thesis using l by (auto simp: trace_fed_sync(2) target_pos_trace)
qed

text \<open>
  Property C5. Exactness does not depend on the graph: over any session and any callbacks that
  keep the seam's contract, with the compact or the full logit transport, with or without
  \<open>draft_rows\<close>, deferred frontier or not, a round that returns commits the target's greedy
  stream and leaves the carried objects and the frontier where that stream leaves them.
\<close>

theorem mtp_cycle_exact:
  assumes "mtp_seam model S holds mirrored lrow tstep pick ldist tpos"
    and "mtp_wf st" "rollback st = S" "n_vocab st = seam_n_vocab model" "in_sync holds m t"
    and "mtp_cycle model st m x (tpos t) budget cap (Some lg0) = (st', m', lg, Inr acc)"
  shows "acc \<noteq> [] \<and> int (length acc) \<le> min budget cap \<and> length acc \<le> depth st + 1 \<and>
    acc = greedy tstep pick t x (length acc) \<and> in_sync holds m' (foldl tstep t acc) \<and>
    frontier_token st' lg = pick (foldl tstep t acc) \<and>
    ldist (if frontier_logits_deferred st' then lrow (frontier_row st') m' else lg) (foldl tstep t acc) \<and>
    mtp_wf st' \<and> rollback st' = S"
proof -
  note seam = assms(1)
  have rd: "mtp_seam.ready model S st" using assms(2-4) by (simp add: mtp_seam.ready_def [OF seam])
  note ex = mtp_seam.cycle_exact [OF seam assms(6) rd assms(5)]
  note ro = ex [THEN conjunct2, THEN conjunct2, THEN conjunct2]
  show ?thesis
    using ex mtp_seam.round_frontier_token [OF seam ro]
    by (simp add: mtp_seam.round_ok_def [OF seam] mtp_seam.ready_def [OF seam]
        mtp_seam.frontier_ok_def [OF seam])
qed

theorem mtp_cycle_exact_witness:
  "\<exists>st m lg. mtp_cycle (qwen4exp_seam trace_kernels never_fails) (trace_state 2) trace_session 3
       (target_pos trace_target) 10 10 (Some []) = (st, m, lg, Inr [3]) \<and>
     renders trace_kernels lg (foldl (target_step trace_kernels trace_row) trace_target [3])"
proof -
  obtain st m lg where c: "mtp_cycle (qwen4exp_seam trace_kernels never_fails) (trace_state 2) trace_session 3
      (target_pos trace_target) 10 10 (Some []) = (st, m, lg, Inr [3])"
    using trace_one_tuple by (auto simp: trace_one_def trace_seam_def target_pos_trace)
  have nd: "\<not> frontier_logits_deferred (fst trace_one)" unfolding trace_one_def by code_simp
  have w: "mtp_wf (trace_state 2)" by (rule trace_state_wf) simp
  have nv: "n_vocab (trace_state 2) = seam_n_vocab (qwen4exp_seam trace_kernels never_fails)"
    by (simp add: qwen4exp_seam_def trace_seam_nv)
  note e = mtp_cycle_exact [OF graph_seam_seam [OF trace_graph_seam] w trace_seam_nv(2) nv trace_session_sync c]
  have "fst trace_one = st" using c by (simp add: trace_one_def trace_seam_def target_pos_trace)
  then show ?thesis using c e nd by auto
qed

subsection \<open>The session under the cycle\<close>

text \<open>
  Property C6. A forward of the graph session is the serial feed of its tokens, whatever
  rollback is pending: adopted lazily through the device flag, replayed from a checkpoint and
  its transition log, or settled by a copy first. It leaves the session at the target state
  after the last token, the state after every earlier row in that row's slot (virtual under
  replay), and one row of logits and one hyper row per token.
\<close>

theorem graph_forward_exact:
  assumes "qwen_kernels K row" "in_sync (graph_holds K) s t"
    and "graph_forward K fails s toks (length toks - 1) True = (s', True)"
  shows "in_sync (graph_holds K) s' (foldl (target_step K row) t toks) \<and>
    (\<forall>i j. Suc j < length toks \<longrightarrow> i < 6 \<longrightarrow> state_kind (int i) = ROLLBACK_SELECT_ROW \<longrightarrow>
       graph_mirrored K i j s' (foldl (target_step K row) t (take (Suc j) toks))) \<and>
    g_hyper s' = map (\<lambda>j. t_hyper (foldl (target_step K row) t (take (Suc j) toks))) [0..<length toks] \<and>
    take (length toks) (g_logits s') = k_logits K (g_hyper s')"
  using qwen_kernels.forward_exact [OF assms(1,3,2)] by (simp add: verified_def)

theorem graph_forward_exact_witness:
  "\<exists>s'. graph_forward trace_kernels never_fails trace_session [3, 2] 1 True = (s', True) \<and>
     g_hyper s' = [[3], [2, 3]] \<and>
     in_sync (graph_holds trace_kernels) s' (foldl (target_step trace_kernels trace_row) trace_target [3, 2])"
proof -
  have "snd (graph_forward trace_kernels never_fails trace_session [3, 2] 1 True)" by code_simp
  then obtain s' where f: "graph_forward trace_kernels never_fails trace_session [3, 2] 1 True = (s', True)"
    by (cases "graph_forward trace_kernels never_fails trace_session [3, 2] 1 True") auto
  have f': "graph_forward trace_kernels never_fails trace_session [3, 2] (length [3, 2 :: int] - 1) True = (s', True)"
    using f by simp
  have k: "qwen_kernels trace_kernels trace_row" by (rule tracek.qwen_kernels_axioms)
  have h: "[t_hyper (target_step trace_kernels trace_row trace_target 3),
      t_hyper (target_step trace_kernels trace_row (target_step trace_kernels trace_row trace_target 3) 2)] = [[3], [2, 3]]"
    by code_simp
  show ?thesis
    using graph_forward_exact [OF k trace_session_sync f'] f h by (auto simp: upt_rec)
qed

text \<open>
  Property C21. The session's registrations are accepted and complete for every kernel table
  and compression ratio: each of the seven carried objects is registered with exactly the
  entry point its class requires, so the cycle's set-up never refuses the graph's own set.
\<close>

theorem session_rollback_set_complete:
  "\<exists>S. session_rollback_set K fails ratio = Inr S \<and> rollback_complete S \<and>
     list_all (\<lambda>i. (select_row (obj S ! i) \<noteq> None) = (state_kind (int i) = ROLLBACK_SELECT_ROW) \<and>
                    (truncate_to (obj S ! i) \<noteq> None) = (state_kind (int i) = ROLLBACK_TRUNCATE)) [0..<7]"
proof -
  have "\<not> isl (session_rollback_set K fails ratio)"
    by (simp add: session_rollback_set_def session_objects_def rollback_register_def state_ids
        state_kind_def rollback_init_def rollback_check_def eval_nat_numeral)
  then obtain S where S: "session_rollback_set K fails ratio = Inr S"
    by (cases "session_rollback_set K fails ratio") auto
  then have c: "rollback_complete S" by (rule rollback_set_objects(1))
  have "(select_row (obj S ! i) \<noteq> None) = (state_kind (int i) = ROLLBACK_SELECT_ROW) \<and>
      (truncate_to (obj S ! i) \<noteq> None) = (state_kind (int i) = ROLLBACK_TRUNCATE)" if "i < 7" for i
    using rollback_complete_objs [OF c that] by (cases "state_kind (int i)") auto
  then show ?thesis using S c by (auto simp: list_all_iff)
qed

text \<open>
  Property C8. A reset always restores the empty session: from any session in which a clear
  dirty bit means untouched state (which every forward keeps, failing ones included), the
  reset leaves the carried objects, the caches and the draft head's cache at the zero state,
  position 0 and no pending adoption or replay, also when it takes the shortcut that writes
  nothing.
\<close>

theorem session_reset_restores:
  assumes "clean_ok zero q0 s" "graph_forward K fails s toks n b = (s', ok)"
  shows "clean_ok zero q0 s' \<and>
    in_sync (graph_holds K) (session_reset zero q0 s')
      \<lparr>t_state = zero, t_conv = zero, t_ple = zero, t_hist = q0, t_kv = [], t_tape = [], t_hyper = h\<rparr> \<and>
    qsa_kv (session_reset zero q0 s') = (\<lambda>_. zero) \<and> idx_tape (session_reset zero q0 s') = (\<lambda>_. zero) \<and>
    head_cache (session_reset zero q0 s') = zero \<and> clean_ok zero q0 (session_reset zero q0 s')"
proof -
  have c: "clean_ok zero q0 s'" using forward_dirty [OF assms(2)] assms(1) by (auto simp: clean_ok_def)
  then show ?thesis using reset_empty [OF c, of K h] by (simp add: empty_target_def)
qed

theorem session_reset_restores_witness:
  "\<exists>s' ok. graph_forward trace_kernels never_fails trace_session [3, 2] 1 True = (s', ok) \<and> state_dirty s' \<and>
     in_sync (graph_holds trace_kernels) (session_reset [] [] s') trace_target"
proof -
  obtain s' ok where f: "graph_forward trace_kernels never_fails trace_session [3, 2] 1 True = (s', ok)"
    by (meson surj_pair)
  have d: "state_dirty (fst (graph_forward trace_kernels never_fails trace_session [3, 2] 1 True))" by code_simp
  have "clean_ok [] [] trace_session" by (simp add: clean_ok_def trace_session_def)
  from session_reset_restores [OF this f, of "[]"] show ?thesis
    using f d by (auto simp: trace_target_def)
qed

subsection \<open>Counters, returning, and the pieces of a round\<close>

text \<open>A seam on which every call succeeds and one row comes back per token.\<close>

definition echo_object :: "int \<Rightarrow> unit rollback_object" where
  "echo_object sid = (if state_kind sid = ROLLBACK_SELECT_ROW
     then \<lparr>select_row = Some (\<lambda>m _. (m, True)), truncate_to = None\<rparr>
     else \<lparr>select_row = None, truncate_to = Some (\<lambda>m _. (m, True))\<rparr>)"

definition echo_set :: "unit rollback_set" where
  "echo_set = \<lparr>obj = map (echo_object \<circ> int) [0..<7], registered = replicate 7 True\<rparr>"

definition echo_model :: "(unit, unit) mtp_model" where
  "echo_model = \<lparr>seam_hc_dim = 1, seam_n_vocab = 1,
     verify_rows = (\<lambda>m toks p. (m, Some (map (\<lambda>_. ()) toks, map (\<lambda>_. [F32 0]) toks))),
     verify_rows_top1 = None, read_logit_row = None, defer_frontier_logits = False,
     decode_token = (\<lambda>m x p. (m, Some ((), [F32 0]))),
     draft_step = (\<lambda>m x h p. (m, Some (0, ()))), draft_rows = None, draft_margin = None\<rparr>"

definition echo_state :: "(unit, unit) mtp_state" where
  "echo_state = \<lparr>rollback = echo_set, depth = 2, pending = [0, 0, - 1, - 1, - 1, - 1], n_pending = 2,
     pending_parent = 0, pending_margin = replicate 6 (F32 (- 1)), stop_margin = F32 0,
     drop_margin = F32 0, drop_keep = 0, head_rows = 0, hc_scratch = Some (replicate 9 ()),
     logits_rows = Some (replicate 7 []), hc_dim = 1, n_vocab = 1, frontier_top1 = 0, frontier_row = 0,
     frontier_top1_valid = False, frontier_logits_deferred = False, counters = counters_zero\<rparr>"

lemma echo_set_complete: "rollback_complete echo_set"
proof -
  have "rollback_check echo_set = None"
    by (simp add: rollback_check_def echo_set_def rollback_check_from_None)
  then show ?thesis
    unfolding rollback_complete_def rollback_wf_def
    by (auto simp: echo_set_def echo_object_def)
qed

lemma echo_facts: "mtp_wf echo_state" "rows_in_range echo_model" "seam_succeeds echo_model echo_set"
  "counters_ok (counters echo_state)"
proof -
  show "mtp_wf echo_state"
    using echo_set_complete by (simp add: mtp_wf_def echo_state_def mtp_consts)
  show "rows_in_range echo_model" by (simp add: rows_in_range_def echo_model_def)
  show "seam_succeeds echo_model echo_set"
    by (auto simp: seam_succeeds_def echo_model_def echo_set_def echo_object_def)
  show "counters_ok (counters echo_state)"
    by (simp add: echo_state_def counters_ok_def counters_zero_def mtp_counters_check_def
        hist_sum_def hist_weighted_def mtp_consts eval_nat_numeral)
qed

text \<open>
  How many drafts a round verifies, stated without the gate's loop. The round offers the carried
  drafts (none when they were drafted from another token than the one it is fed), cut to the
  budget and the capacity less the fed token. Of those it leaves out exactly a tail of unsure
  ones: every draft left out has a measured margin below the threshold, the last draft kept
  beyond \<open>drop_keep\<close> does not, and at least \<open>drop_keep\<close> of the offered drafts stay. One number
  satisfies this, and it is the one the cycle computes.
\<close>

definition drafts_verified :: "('m, 'h) mtp_state \<Rightarrow> token \<Rightarrow> int \<Rightarrow> int \<Rightarrow> nat \<Rightarrow> bool" where
  "drafts_verified st x budget cap n \<longleftrightarrow>
     (let chain = (if pending_parent st = x then n_pending st else 0);
          k = min chain (min (nat (budget - 1)) (nat (cap - 1)));
          unsure = (\<lambda>j. f32_gt (drop_margin st) (F32 0) \<and> f32_ge (pending_margin st ! j) (F32 0) \<and>
                         f32_lt (pending_margin st ! j) (drop_margin st))
      in n \<le> k \<and> min (drop_keep st) k \<le> n \<and> list_all unsure [n..<k] \<and>
         \<not> (drop_keep st < n \<and> unsure (n - 1)))"

lemma drafts_verified_unique:
  assumes "drafts_verified st x budget cap n" "drafts_verified st x budget cap n'"
  shows "n = n'"
proof -
  have less: "\<not> i < j"
    if "i \<le> k \<and> min keep k \<le> i \<and> (\<forall>t \<in> {i..<k}. U t) \<and> \<not> (keep < i \<and> U (i - 1))"
      "j \<le> k \<and> min keep k \<le> j \<and> (\<forall>t \<in> {j..<k}. U t) \<and> \<not> (keep < j \<and> U (j - 1))"
    for i j k keep and U :: "nat \<Rightarrow> bool"
  proof
    assume ij: "i < j"
    then have "keep < j" "j - 1 \<in> {i..<k}" using that by (auto simp: min_def split: if_splits)
    then show False using that by blast
  qed
  note v = assms [unfolded drafts_verified_def Let_def list_all_iff set_upt]
  show ?thesis using less [OF v(1) v(2)] less [OF v(2) v(1)] by linarith
qed

lemma drop_unsure_gate:
  "drop_unsure mg dm keep k \<le> k \<and> min keep k \<le> drop_unsure mg dm keep k \<and>
   (\<forall>j. drop_unsure mg dm keep k \<le> j \<and> j < k \<longrightarrow> f32_ge (mg ! j) (F32 0) \<and> f32_lt (mg ! j) dm) \<and>
   \<not> (keep < drop_unsure mg dm keep k \<and> f32_ge (mg ! (drop_unsure mg dm keep k - 1)) (F32 0) \<and>
      f32_lt (mg ! (drop_unsure mg dm keep k - 1)) dm)"
  by (induction k) (auto simp: less_Suc_eq)

lemma n_verified_drafts: "drafts_verified st x budget cap (n_verified (mtp_open_round st x) budget cap)"
proof (cases "n_pending st > 0 \<and> x \<noteq> pending_parent st")
  case True
  then have "n_offered (mtp_open_round st x) budget cap = 0"
    by (simp add: n_offered_def mtp_open_round_def mtp_invalidate_def Let_def)
  then show ?thesis using True by (auto simp: drafts_verified_def n_verified_def Let_def)
next
  case False
  define k where "k = min (if pending_parent st = x then n_pending st else 0)
    (min (nat (budget - 1)) (nat (cap - 1)))"
  have "n_verified (mtp_open_round st x) budget cap =
      (if f32_gt (drop_margin st) (F32 0)
       then drop_unsure (pending_margin st) (drop_margin st) (drop_keep st) k else k)"
    using False by (auto simp: n_verified_def n_offered_def mtp_open_round_def Let_def k_def)
  then show ?thesis
    using drop_unsure_gate [of "pending_margin st" "drop_margin st" "drop_keep st" k]
    unfolding drafts_verified_def Let_def k_def [symmetric] list_all_iff set_upt atLeastLessThan_iff
    by (simp split: if_splits)
qed

text \<open>
  Property C10. The counters stay self-consistent and exact: from counters that pass
  \<open>ds4_qwen4exp_mtp_counters_check\<close>, every round that returns leaves counters that pass it and
  that differ from the old ones by the round's own contribution: one round, the \<open>n\<close> drafts it
  verified, where \<open>n\<close> is pinned to the number the cycle computes and to \<open>drafts_verified\<close>
  (the offered drafts less the unsure tail), one accepted draft for each committed token but
  the fed one, the committed tokens, and one histogram entry at their number. No round accepts
  more drafts than it verified, nor verifies more than the depth.
\<close>

theorem mtp_cycle_counters_consistent:
  assumes "mtp_wf st" "rows_in_range model" "counters_ok (counters st)"
    and "mtp_cycle model st m x pos budget cap (Some lg0) = (st', m', lg, Inr acc)"
  shows "counters_ok (counters st') \<and> mtp_wf st' \<and>
    (let n = n_verified (mtp_open_round st x) budget cap in
       drafts_verified st x budget cap n \<and> (\<forall>n'. drafts_verified st x budget cap n' \<longrightarrow> n' = n) \<and>
       length acc - 1 \<le> n \<and> n \<le> depth st \<and>
       counters st' = (counters st)\<lparr>rounds := rounds (counters st) + 1,
         drafted := drafted (counters st) + n,
         accepted := accepted (counters st) + (length acc - 1),
         committed := committed (counters st) + length acc,
         commit_hist := (commit_hist (counters st))
           [length acc := Suc (commit_hist (counters st) ! length acc)]\<rparr>)"
proof -
  define n where "n = n_verified (mtp_open_round st x) budget cap"
  note c = cycle_counters [OF assms(4,1,2), folded n_def]
  have v: "drafts_verified st x budget cap n" unfolding n_def by (rule n_verified_drafts)
  have "counters_ok (count_round n (length acc) (counters st))"
    by (rule count_round_ok [OF assms(3) _ c(2,3)]) (use c(1) assms(1) in \<open>simp add: mtp_wf_def\<close>)
  then have ok: "counters_ok (counters st')" by (simp only: c(5))
  have u: "\<forall>n'. drafts_verified st x budget cap n' \<longrightarrow> n' = n"
    using drafts_verified_unique [OF _ v] by blast
  have l: "length acc - 1 \<le> n" using c(3) by simp
  show ?thesis
    unfolding Let_def n_def [symmetric]
    by (intro conjI ok c(4) v u l c(1) c(5) [unfolded count_round_def])
qed

theorem mtp_cycle_counters_consistent_witness:
  "\<exists>st' m' lg. mtp_cycle echo_model echo_state () 0 0 5 5 (Some []) = (st', m', lg, Inr [0, 0, 0]) \<and>
     counters_ok (counters st') \<and> rounds (counters st') = 1 \<and> drafted (counters st') = 2 \<and>
     accepted (counters st') = 2 \<and> committed (counters st') = 3"
proof -
  have "snd (snd (snd (mtp_cycle echo_model echo_state () 0 0 5 5 (Some [])))) = Inr [0, 0, 0]" by code_simp
  then obtain st' m' lg where c: "mtp_cycle echo_model echo_state () 0 0 5 5 (Some []) = (st', m', lg, Inr [0, 0, 0])"
    by (metis prod.exhaust snd_conv)
  have n: "n_verified (mtp_open_round echo_state 0) 5 5 = 2" by code_simp
  have z: "counters echo_state = counters_zero" by (simp add: echo_state_def)
  note t = mtp_cycle_counters_consistent [OF echo_facts(1,2,4) c, unfolded Let_def n]
  have "counters_ok (counters st')" by (rule conjunct1 [OF t])
  moreover have "rounds (counters st') = 1" "drafted (counters st') = 2" "accepted (counters st') = 2"
    "committed (counters st') = 3"
    using t by (simp_all add: z counters_zero_def)
  ultimately show ?thesis using c by blast
qed

text \<open>
  Property C11. A round returns. With a well-formed state, matching widths, room for the fed
  token and callbacks that report success, the cycle never refuses: none of the checks between
  the verify and the last draft can fail on its own, at any depth.
\<close>

theorem mtp_cycle_returns:
  assumes "mtp_wf st" "seam_succeeds model (rollback st)" "1 \<le> budget" "1 \<le> cap"
    "seam_n_vocab model = n_vocab st" "seam_hc_dim model = hc_dim st"
  shows "\<exists>st' m' lg' acc. mtp_cycle model st m x pos budget cap (Some lg) = (st', m', lg', Inr acc)"
  using cycle_returns [OF assms, of m x pos lg] by (metis prod.exhaust snd_conv)

theorem mtp_cycle_returns_witness:
  "\<exists>st' m' lg' acc. mtp_cycle echo_model echo_state () 4 0 1 1 (Some []) = (st', m', lg', Inr acc)"
  by (rule mtp_cycle_returns)
     (use echo_facts in \<open>simp_all add: echo_state_def echo_model_def\<close>)

text \<open>
  The accept scan finds the longest confirmed prefix: every draft before the
  returned length is the target's own choice at its row, the draft at that length is not, and
  the mismatch reported is the target's choice there (\<open>-1\<close> when every draft stood).
\<close>

lemma accept_scan_longest_prefix:
  "case accept_scan winners toks n 0 of
     (a, mis) \<Rightarrow> a \<le> n \<and> (\<forall>j \<in> {..<a}. winners ! j = toks ! (j + 1)) \<and>
       (if a < n then winners ! a \<noteq> toks ! (a + 1) \<and> mis = winners ! a else mis = - 1)"
proof -
  obtain a mis where sc: "accept_scan winners toks n 0 = (a, mis)" by (meson surj_pair)
  show ?thesis using accept_scan_prefix [OF sc] sc by auto
qed

text \<open>
  \<open>ds4_qwen4exp_mtp_argmax\<close> returns the lowest index of a maximum: no logit is
  greater than the one it names and every logit before it is smaller, so the speculative and the
  serial leg break ties alike. (Logits free of NaN; with one, the scan is order-dependent.)
\<close>

lemma mtp_argmax_lowest_maximum:
  assumes "lg \<noteq> []" "F32_NaN \<notin> set lg"
  shows "let b = nat (mtp_argmax lg (length lg)) in
     0 \<le> mtp_argmax lg (length lg) \<and> b < length lg \<and>
     (\<forall>j < length lg. \<not> f32_lt (lg ! b) (lg ! j)) \<and> (\<forall>j < b. f32_lt (lg ! j) (lg ! b))"
  using mtp_argmax_lowest_max [OF assms(1) refl assms(2)] by (simp add: Let_def mtp_argmax_def)

text \<open>
  Property C22. Set-up refuses an incomplete rollback set by name: whatever else it is given,
  \<open>ds4_qwen4exp_mtp_state_init\<close> returns the refusal that names the first object nothing
  registered, so no cycle runs whose rejecting round would leave that object behind.
\<close>

theorem mtp_state_init_names_missing:
  assumes "i < length (registered S)" "\<not> registered S ! i" "\<forall>j < i. registered S ! j"
  shows "mtp_state_init strtof atoi env alloc alloc_l dep (Some S) hc nv =
    Inl (Not_Registered (state_name (int i)))"
proof -
  obtain e where e: "rollback_check S = Some e"
    using assms(1,2) rollback_check_None [of S] by (cases "rollback_check S") auto
  obtain k where k: "k < length (registered S)" "\<not> registered S ! k" "\<forall>j < k. registered S ! j"
    "e = Not_Registered (state_name (int k))"
    using rollback_check_from_Some [OF e [unfolded rollback_check_def]] by auto
  then have "k = i" using assms by (metis linorder_neqE_nat)
  then show ?thesis using e k by (simp add: mtp_state_init_def)
qed

theorem mtp_state_init_names_missing_witness:
  "mtp_state_init (\<lambda>_. (F32 0, 0)) (\<lambda>_. 0) (\<lambda>_. None) (Some [()]) (Some []) 2
     (Some (rollback_init :: unit rollback_set)) 1 1 = Inl (Not_Registered ''gdn recurrent state'')"
  using mtp_state_init_names_missing [of 0 "rollback_init :: unit rollback_set"]
  by (simp add: rollback_init_def state_name_def state_ids)

end
