(* ===== verification/CLib.thy ===== *)
theory CLib
  imports Prelude
begin

text \<open>
  What the sources use of the C library: decimal conversion in both directions
  (\<open>printf("%d")\<close>, \<open>strtol\<close>, \<open>strtoul\<close>, \<open>strtoull\<close>), \<open>isdigit\<close>, \<open>isspace\<close>, the conversion of
  an integer to \<open>double\<close> and its rounding by \<open>printf("%.0f")\<close> and \<open>printf("%.1f")\<close>. A C string
  is a \<open>string\<close> without its terminating NUL.
\<close>

definition LONG_MAX :: int where "LONG_MAX = 9223372036854775807"
definition LONG_MIN :: int where "LONG_MIN = - 9223372036854775808"
definition ULONG_MAX :: nat where "ULONG_MAX = 18446744073709551615"

subsection \<open>Characters\<close>

definition isdigit :: "char \<Rightarrow> bool" where
  "isdigit c = (48 \<le> (of_char c :: nat) \<and> (of_char c :: nat) \<le> 57)"

definition isspace :: "char \<Rightarrow> bool" where
  "isspace c = ((of_char c :: nat) = 32 \<or> (9 \<le> (of_char c :: nat) \<and> (of_char c :: nat) \<le> 13))"

definition digit_val :: "char \<Rightarrow> nat" where
  "digit_val c = of_char c - 48"

definition digit_char :: "nat \<Rightarrow> char" where
  "digit_char n = char_of (48 + n mod 10)"

lemma digit_char_facts [simp]:
  "isdigit (digit_char n)" "digit_val (digit_char n) = n mod 10" "\<not> isspace (digit_char n)"
proof -
  have b: "48 + n mod 10 < 256" using mod_less_divisor [of 10 n] by linarith
  then have "(of_char (digit_char n) :: nat) = 48 + n mod 10"
    unfolding digit_char_def by (simp only: of_char_of) simp
  then show "isdigit (digit_char n)" "digit_val (digit_char n) = n mod 10" "\<not> isspace (digit_char n)"
    using mod_less_divisor [of 10 n]
    by (simp_all add: isdigit_def isspace_def digit_val_def del: mod_less_divisor)
qed

lemma isdigit_not_isspace: "isdigit c \<Longrightarrow> \<not> isspace c"
  by (simp add: isdigit_def isspace_def)

lemma not_isdigit_lits [simp]:
  "\<not> isdigit CHR '',''" "\<not> isdigit CHR ''-''" "\<not> isdigit CHR ''+''" "\<not> isdigit CHR '' ''"
  "\<not> isdigit CHR 0x09" "\<not> isdigit CHR ''a''" "\<not> isdigit CHR ''g''" "\<not> isdigit CHR ''G''"
  "\<not> isdigit CHR ''b''" "\<not> isdigit CHR ''B''" "\<not> isdigit CHR 0x0A" "\<not> isdigit CHR 0x0D"
  by (simp_all add: isdigit_def)

subsection \<open>Decimal printing\<close>

fun dec :: "nat \<Rightarrow> string" where
  "dec n = (if n < 10 then [digit_char n] else dec (n div 10) @ [digit_char n])"

declare dec.simps [simp del]

definition dec_int :: "int \<Rightarrow> string" where
  "dec_int v = (if v < 0 then CHR ''-'' # dec (nat (- v)) else dec (nat v))"

lemma dec_not_Nil [simp]: "dec n \<noteq> []"
  by (subst dec.simps) simp

lemma dec_digits: "list_all isdigit (dec n)"
proof (induction n rule: dec.induct)
  case (1 n)
  then show ?case by (subst dec.simps) simp
qed

lemma dec_hd_digit: "isdigit (hd (dec n))"
  using dec_digits [of n] dec_not_Nil [of n] by (cases "dec n") auto

subsection \<open>Decimal reading\<close>

definition digits_val :: "string \<Rightarrow> nat" where
  "digits_val ds = foldl (\<lambda>a c. 10 * a + digit_val c) 0 ds"

lemma digits_val_dec [simp]: "digits_val (dec n) = n"
proof (induction n rule: dec.induct)
  case (1 n)
  show ?case
  proof (cases "n < 10")
    case True
    then show ?thesis by (subst dec.simps) (simp add: digits_val_def)
  next
    case False
    have "digits_val (dec n) = 10 * digits_val (dec (n div 10)) + n mod 10"
      using False by (subst dec.simps) (simp add: digits_val_def)
    then show ?thesis using 1 [OF False] by simp
  qed
qed

text \<open>
  The common scan of the \<open>strto*\<close> family in base 10: white space, an optional sign, digits.
  The result is the sign, the digits and the rest; no digits means no conversion.
\<close>

definition strto_scan :: "string \<Rightarrow> bool \<times> string \<times> string" where
  "strto_scan s =
     (let s1 = dropWhile isspace s;
          neg = (s1 \<noteq> [] \<and> hd s1 = CHR ''-'');
          s2 = (if s1 \<noteq> [] \<and> (hd s1 = CHR ''-'' \<or> hd s1 = CHR ''+'') then tl s1 else s1)
      in (neg, takeWhile isdigit s2, dropWhile isdigit s2))"

text \<open>\<open>strtol(s, &end, 10)\<close>: the value, whether \<open>errno\<close> was set to \<open>ERANGE\<close>, and \<open>end\<close>.\<close>

definition strtol :: "string \<Rightarrow> int \<times> bool \<times> string" where
  "strtol s = (case strto_scan s of (neg, ds, rest) \<Rightarrow>
     if ds = [] then (0, False, s)
     else let v = (if neg then - int (digits_val ds) else int (digits_val ds)) in
       if v > LONG_MAX then (LONG_MAX, True, rest)
       else if v < LONG_MIN then (LONG_MIN, True, rest)
       else (v, False, rest))"

text \<open>
  \<open>strtoul\<close> and \<open>strtoull\<close> on a 64-bit target: a minus sign negates modulo \<open>2 ^ 64\<close>, without
  an error.
\<close>

definition strtoul :: "string \<Rightarrow> nat \<times> bool \<times> string" where
  "strtoul s = (case strto_scan s of (neg, ds, rest) \<Rightarrow>
     if ds = [] then (0, False, s)
     else let v = digits_val ds in
       if v > ULONG_MAX then (ULONG_MAX, True, rest)
       else if neg \<and> v \<noteq> 0 then (2 ^ 64 - v, False, rest)
       else (v, False, rest))"

lemma strto_scan_rest: "strto_scan s = (neg, ds, rest) \<Longrightarrow> ds \<noteq> [] \<Longrightarrow> length rest < length s"
proof -
  assume a: "strto_scan s = (neg, ds, rest)" "ds \<noteq> []"
  define s1 where "s1 = dropWhile isspace s"
  define s2 where "s2 = (if s1 \<noteq> [] \<and> (hd s1 = CHR ''-'' \<or> hd s1 = CHR ''+'') then tl s1 else s1)"
  have eq: "ds = takeWhile isdigit s2" "rest = dropWhile isdigit s2"
    using a(1) unfolding strto_scan_def Let_def s1_def [symmetric] s2_def [symmetric] by simp_all
  have "length s1 \<le> length s" by (simp add: s1_def length_dropWhile_le)
  moreover have "length s2 \<le> length s1" by (simp add: s2_def)
  moreover have "length ds + length rest = length s2"
    unfolding eq by (metis length_append takeWhile_dropWhile_id)
  moreover have "0 < length ds" using a(2) by simp
  ultimately show ?thesis by linarith
qed

lemma strtol_rest: "snd (snd (strtol s)) \<noteq> s \<Longrightarrow> length (snd (snd (strtol s))) < length s"
  using strto_scan_rest [of s]
  by (auto simp: strtol_def Let_def split: prod.splits if_splits)

lemma takeWhile_dec_append:
  "(rest = [] \<or> \<not> isdigit (hd rest)) \<Longrightarrow>
   takeWhile isdigit (dec n @ rest) = dec n \<and> dropWhile isdigit (dec n @ rest) = rest"
proof -
  assume r: "rest = [] \<or> \<not> isdigit (hd rest)"
  have all: "\<And>x. x \<in> set (dec n) \<Longrightarrow> isdigit x"
    using dec_digits [of n] by (simp add: list_all_iff)
  have "takeWhile isdigit rest = []" "dropWhile isdigit rest = rest"
    using r by (cases rest; simp)+
  then show ?thesis
    using all by (simp add: takeWhile_append2 dropWhile_append2)
qed

lemma isdigit_not_sign: "isdigit c \<Longrightarrow> c \<noteq> CHR ''-'' \<and> c \<noteq> CHR ''+''"
  by auto

lemma strto_scan_dec:
  assumes "rest = [] \<or> \<not> isdigit (hd rest)"
  shows "strto_scan (dec n @ rest) = (False, dec n, rest)"
proof -
  obtain c cs where c: "dec n = c # cs" using dec_not_Nil [of n] by (cases "dec n") auto
  have d: "isdigit c" using dec_hd_digit [of n] by (simp add: c)
  have ds: "dropWhile isspace (dec n @ rest) = dec n @ rest"
    using isdigit_not_isspace [OF d] by (simp add: c)
  have h: "hd (dec n @ rest) = c" by (simp add: c)
  show ?thesis
    using isdigit_not_sign [OF d] takeWhile_dec_append [OF assms, of n]
    by (simp add: strto_scan_def ds h)
qed

lemma strtol_dec:
  assumes "rest = [] \<or> \<not> isdigit (hd rest)" "int n \<le> LONG_MAX"
  shows "strtol (dec n @ rest) = (int n, False, rest)"
  using assms(2) by (simp add: strtol_def strto_scan_dec [OF assms(1)] LONG_MIN_def)

lemma strtoul_dec:
  assumes "rest = [] \<or> \<not> isdigit (hd rest)" "n \<le> ULONG_MAX"
  shows "strtoul (dec n @ rest) = (n, False, rest)"
  using assms(2) by (simp add: strtoul_def strto_scan_dec [OF assms(1)])

subsection \<open>Integers as \<open>double\<close>, and their rounded printing\<close>

text \<open>Division rounded to the nearest integer, ties to even.\<close>

definition rne :: "nat \<Rightarrow> nat \<Rightarrow> nat" where
  "rne a b = (let q = a div b; r = a mod b in
     if 2 * r > b \<or> (2 * r = b \<and> odd q) then q + 1 else q)"

text \<open>\<open>(double)x\<close> of an unsigned integer: 53 significant bits, ties to even.\<close>

definition bit_len :: "nat \<Rightarrow> nat" where
  "bit_len x = length (takeWhile (\<lambda>k. 2 ^ k \<le> x) [0..<64])"

definition to_double :: "nat \<Rightarrow> nat" where
  "to_double x = (let k = bit_len x in if k \<le> 53 then x else rne x (2 ^ (k - 53)) * 2 ^ (k - 53))"

text \<open>
  \<open>printf("%.0f", (double)x / 2 ^ 30)\<close> and \<open>printf("%.1f", (double)x / 2 ^ 30)\<close>: the quotient by
  a power of two is exact and the decimal rounding is applied to the exact value.
\<close>

definition print_gib0 :: "nat \<Rightarrow> string" where
  "print_gib0 x = dec (rne (to_double x) (2 ^ 30))"

definition print_gib1 :: "nat \<Rightarrow> string" where
  "print_gib1 x = (let t = rne (10 * to_double x) (2 ^ 30) in
     dec (t div 10) @ ''.'' @ [digit_char t])"

lemma rne_exact: "0 < b \<Longrightarrow> rne (a * b) b = a"
  by (simp add: rne_def Let_def)

lemma bit_len_le: "x < 2 ^ k \<Longrightarrow> k \<le> 64 \<Longrightarrow> bit_len x \<le> k"
proof -
  assume a: "x < 2 ^ k" "k \<le> 64"
  let ?P = "\<lambda>j. (2::nat) ^ j \<le> x"
  show "bit_len x \<le> k"
  proof (cases "k < 64")
    case True
    have s: "[0..<64] = [0..<k] @ k # [Suc k..<64]"
      using True upt_add_eq_append [of 0 k "64 - k"] by (simp add: upt_conv_Cons)
    have "\<not> ?P k" using a(1) by simp
    then have "takeWhile ?P [0..<64] = takeWhile ?P [0..<k]"
      unfolding s by (simp add: takeWhile_tail)
    then show ?thesis
      unfolding bit_len_def using length_takeWhile_le [of ?P "[0..<k]"] by simp
  next
    case False
    then show ?thesis
      unfolding bit_len_def using length_takeWhile_le [of ?P "[0..<64]"] by simp
  qed
qed

lemma to_double_small: "x < 2 ^ 53 \<Longrightarrow> to_double x = x"
  using bit_len_le [of x 53] by (simp add: to_double_def Let_def)

lemma print_gib0_exact: "g \<le> 2 ^ 22 \<Longrightarrow> print_gib0 (g * 2 ^ 30) = dec g"
proof -
  assume "g \<le> 2 ^ 22"
  then have "g * 2 ^ 30 < (2::nat) ^ 53" by simp
  then show ?thesis
    unfolding print_gib0_def using to_double_small [of "g * 2 ^ 30"] rne_exact [of "2 ^ 30" g] by simp
qed

end
