(* ===== verification/Layer_Pack.thy ===== *)
theory Layer_Pack
  imports CLib
begin

text \<open>
  The multi-GPU layer packer, \<open>ds4_layer_pack.c\<close>: the greedy monotone placement of the
  model's entries (embedding, layers, output head) on the devices, and the layout summary it
  prints. A \<open>size_t\<close> is a \<open>nat\<close>: the only arithmetic on one is the decrement of a budget by an
  entry that fits it.
\<close>

definition LAYER_PACK_MAX_GPUS :: int where "LAYER_PACK_MAX_GPUS = 16"
definition LAYER_PACK_CPU :: int where "LAYER_PACK_CPU = - 1"

record layer_pack_config =
  lp_budget :: "nat list"
  lp_n_gpus :: int

text \<open>The inner \<open>while\<close>: advance past the devices that cannot hold the entry.\<close>

function pack_advance :: "nat list \<Rightarrow> nat \<Rightarrow> nat \<Rightarrow> nat \<Rightarrow> nat" where
  "pack_advance budget n bytes d =
     (if d < n \<and> bytes > budget ! d then pack_advance budget n bytes (Suc d) else d)"
  by auto

termination by (relation "measure (\<lambda>(_, n, _, d). n - d)") auto

declare pack_advance.simps [simp del]

text \<open>The loop over the entries, with the local copy of the budgets and the current device.\<close>

fun pack_loop :: "nat \<Rightarrow> nat list \<Rightarrow> nat list \<Rightarrow> nat \<Rightarrow> int list" where
  "pack_loop n [] budget d = []"
| "pack_loop n (bytes # es) budget d =
     (let d' = pack_advance budget n bytes d in
      if d' < n then int d' # pack_loop n es (budget[d' := budget ! d' - bytes]) d'
      else LAYER_PACK_CPU # pack_loop n es budget d')"

text \<open>
  \<open>ds4_compute_layer_placement\<close>: a null pointer is \<open>None\<close>; the result is the error code or
  the filled array.
\<close>

definition compute_layer_placement ::
  "nat list option \<Rightarrow> int \<Rightarrow> layer_pack_config option \<Rightarrow> bool \<Rightarrow> (int, int list) result" where
  "compute_layer_placement entry_bytes n_entries cfg out_ok =
     (case (entry_bytes, cfg) of
        (Some es, Some c) \<Rightarrow>
          if \<not> out_ok then Inl 1
          else if n_entries < 0 then Inl 2
          else if lp_n_gpus c < 0 \<or> lp_n_gpus c > LAYER_PACK_MAX_GPUS then Inl 3
          else Inr (pack_loop (nat (lp_n_gpus c)) (take (nat n_entries) es)
                      (take (nat (lp_n_gpus c)) (lp_budget c)) 0)
      | _ \<Rightarrow> Inl 1)"

subsection \<open>The printed layout\<close>

text \<open>\<open>strncat\<close> into a buffer of \<open>buflen\<close> bytes.\<close>

definition strncat_buf :: "nat \<Rightarrow> string \<Rightarrow> string \<Rightarrow> string" where
  "strncat_buf buflen buf s = buf @ take (buflen - length buf - 1) s"

definition append_pseudo_layer_tags ::
  "string \<Rightarrow> nat \<Rightarrow> int list \<Rightarrow> int \<Rightarrow> int \<Rightarrow> int \<Rightarrow> string" where
  "append_pseudo_layer_tags buf buflen dev tier n_entries n_layers =
     (let buf1 = (if n_entries > 0 \<and> dev ! 0 = tier
                  then strncat_buf buflen buf '' + embedding'' else buf)
      in if n_entries > 1 \<and> n_layers + 1 < n_entries \<and> dev ! nat (n_layers + 1) = tier
         then strncat_buf buflen buf1 '' + output head'' else buf1)"

text \<open>The scan of \<open>print_layer_range_for_tier\<close>: \<open>first\<close> and \<open>last\<close>, from entry \<open>i\<close> on.\<close>

function range_scan :: "int list \<Rightarrow> int \<Rightarrow> int \<Rightarrow> int \<Rightarrow> int \<Rightarrow> int \<times> int \<Rightarrow> int \<times> int" where
  "range_scan dev tier n_entries n_layers i (fst_l, lst_l) =
     (if i \<le> n_layers \<and> i < n_entries then
        (if dev ! nat i = tier
         then range_scan dev tier n_entries n_layers (i + 1)
                (if fst_l < 0 then i - 1 else fst_l, i - 1)
         else range_scan dev tier n_entries n_layers (i + 1) (fst_l, lst_l))
      else (fst_l, lst_l))"
  by pat_completeness auto

termination by (relation "measure (\<lambda>(_, _, _, n_layers, i, _). nat (n_layers + 1 - i))") auto

declare range_scan.simps [simp del]

definition layer_range :: "int list \<Rightarrow> int \<Rightarrow> int \<Rightarrow> int \<Rightarrow> int \<times> int" where
  "layer_range dev tier n_entries n_layers = range_scan dev tier n_entries n_layers 1 (- 1, - 1)"

text \<open>The text written, and whether the tier owns a layer.\<close>

definition print_layer_range_for_tier :: "int list \<Rightarrow> int \<Rightarrow> int \<Rightarrow> int \<Rightarrow> string \<times> bool" where
  "print_layer_range_for_tier dev tier n_entries n_layers =
     (case layer_range dev tier n_entries n_layers of (fst_l, lst_l) \<Rightarrow>
        if fst_l < 0 then (''(no transformer layers)'', False)
        else if fst_l = lst_l then (''layer '' @ dec_int fst_l, True)
        else (''layers '' @ dec_int fst_l @ ''-'' @ dec_int lst_l, True))"

definition print_gpu_line ::
  "int list \<Rightarrow> int \<Rightarrow> int \<Rightarrow> nat list option \<Rightarrow> nat list option \<Rightarrow> nat \<Rightarrow> string" where
  "print_gpu_line dev n_entries n_layers used budget d =
     ''  GPU'' @ dec d @ '': ''
     @ fst (print_layer_range_for_tier dev (int d) n_entries n_layers)
     @ append_pseudo_layer_tags [] 64 dev (int d) n_entries n_layers
     @ (case (used, budget) of
          (Some u, Some b) \<Rightarrow> ''  ('' @ print_gib1 (u ! d) @ '' / '' @ print_gib1 (b ! d) @ '' GB)''
        | _ \<Rightarrow> [])
     @ [CHR 0x0A]"

definition layer_pack_print ::
  "int list option \<Rightarrow> int \<Rightarrow> int \<Rightarrow> nat list option \<Rightarrow> nat list option \<Rightarrow> int \<Rightarrow> string" where
  "layer_pack_print dev_opt n_entries n_layers used budget n_gpus =
     (case dev_opt of None \<Rightarrow> []
      | Some dev \<Rightarrow>
          ''multi-GPU layout:'' @ [CHR 0x0A]
          @ concat (map (print_gpu_line dev n_entries n_layers used budget) [0..<nat n_gpus])
          @ (if LAYER_PACK_CPU \<in> set (take (nat n_entries) dev) then
               ''  CPU : '' @ fst (print_layer_range_for_tier dev LAYER_PACK_CPU n_entries n_layers)
               @ append_pseudo_layer_tags [] 64 dev LAYER_PACK_CPU n_entries n_layers
               @ [CHR 0x0A]
             else []))"

subsection \<open>Placements\<close>

text \<open>
  The tiers in the order of the forward pass: the devices, then the CPU. A placement is a list
  of tier ranks, and a feasible one is monotone and keeps every device within its budget.
\<close>

definition tier_rank :: "nat \<Rightarrow> int \<Rightarrow> nat" where
  "tier_rank n d = (if d = LAYER_PACK_CPU then n else nat d)"

fun load_on :: "nat \<Rightarrow> nat list \<Rightarrow> nat list \<Rightarrow> nat" where
  "load_on j (b # es) (p # ps) = (if p = j then b else 0) + load_on j es ps"
| "load_on j _ _ = 0"

definition feasible :: "nat \<Rightarrow> nat list \<Rightarrow> nat list \<Rightarrow> nat list \<Rightarrow> bool" where
  "feasible n budget es ps \<longleftrightarrow>
     length ps = length es \<and> sorted ps \<and> list_all (\<lambda>p. p \<le> n) ps
     \<and> list_all (\<lambda>j. load_on j es ps \<le> budget ! j) [0..<n]"

lemma pack_advance_ge: "d \<le> pack_advance budget n bytes d"
proof (induction budget n bytes d rule: pack_advance.induct)
  case (1 budget n bytes d)
  show ?case
  proof (cases "d < n \<and> budget ! d < bytes")
    case True
    then show ?thesis using 1 by (subst pack_advance.simps) simp
  qed (subst pack_advance.simps, auto)
qed

lemma pack_advance_le: "d \<le> j \<Longrightarrow> j < n \<Longrightarrow> bytes \<le> budget ! j \<Longrightarrow> pack_advance budget n bytes d \<le> j"
proof (induction budget n bytes d rule: pack_advance.induct)
  case (1 budget n bytes d)
  show ?case
  proof (cases "d < n \<and> budget ! d < bytes")
    case True
    then have "d \<noteq> j" using 1(4) by auto
    then show ?thesis using 1 True by (subst pack_advance.simps) simp
  next
    case False
    then show ?thesis using 1(2) by (subst pack_advance.simps) auto
  qed
qed

lemma pack_advance_bound: "d \<le> n \<Longrightarrow> pack_advance budget n bytes d \<le> n"
proof (induction budget n bytes d rule: pack_advance.induct)
  case (1 budget n bytes d)
  then show ?case by (subst pack_advance.simps) simp
qed

lemma pack_advance_fits:
  "pack_advance budget n bytes d < n \<Longrightarrow> bytes \<le> budget ! pack_advance budget n bytes d"
proof (induction budget n bytes d rule: pack_advance.induct)
  case (1 budget n bytes d)
  show ?case
  proof (cases "d < n \<and> budget ! d < bytes")
    case True
    then have e: "pack_advance budget n bytes d = pack_advance budget n bytes (Suc d)"
      by (subst pack_advance.simps) simp
    show ?thesis using 1 True by (simp add: e)
  next
    case False
    then have e: "pack_advance budget n bytes d = d" by (subst pack_advance.simps) auto
    show ?thesis using 1(2) False by (simp add: e)
  qed
qed

lemma tier_rank_simps [simp]: "tier_rank n (int d) = d" "tier_rank n LAYER_PACK_CPU = n"
  by (simp_all add: tier_rank_def LAYER_PACK_CPU_def)

abbreviation pack_ranks :: "nat \<Rightarrow> nat list \<Rightarrow> nat list \<Rightarrow> nat \<Rightarrow> nat list" where
  "pack_ranks n es budget d \<equiv> map (tier_rank n) (pack_loop n es budget d)"

lemma pack_loop_length [simp]: "length (pack_loop n es budget d) = length es"
  by (induction n es budget d rule: pack_loop.induct) (simp_all add: Let_def)

lemma pack_loop_tiers:
  "d \<le> n \<Longrightarrow> list_all (\<lambda>t. t = LAYER_PACK_CPU \<or> (int d \<le> t \<and> t < int n)) (pack_loop n es budget d)"
proof (induction n es budget d rule: pack_loop.induct)
  case (2 n bytes es budget d)
  let ?d = "pack_advance budget n bytes d"
  have b: "d \<le> ?d" "?d \<le> n" using pack_advance_ge pack_advance_bound [OF 2(3)] by auto
  have mono: "list_all (\<lambda>t. t = LAYER_PACK_CPU \<or> (int d \<le> t \<and> t < int n)) xs"
    if "list_all (\<lambda>t. t = LAYER_PACK_CPU \<or> (int ?d \<le> t \<and> t < int n)) xs" for xs
    using that b(1) by (auto simp: list_all_iff)
  show ?case
    using 2(1) [OF refl] 2(2) [OF refl] b by (auto simp: Let_def intro!: mono)
qed simp

lemma pack_ranks_ge: "d \<le> n \<Longrightarrow> r \<in> set (pack_ranks n es budget d) \<Longrightarrow> d \<le> r \<and> r \<le> n"
  using pack_loop_tiers [of d n es budget]
  by (auto simp: list_all_iff tier_rank_def)

lemma pack_ranks_sorted: "d \<le> n \<Longrightarrow> sorted (pack_ranks n es budget d)"
proof (induction n es budget d rule: pack_loop.induct)
  case (2 n bytes es budget d)
  let ?d = "pack_advance budget n bytes d"
  have b: "?d \<le> n" by (rule pack_advance_bound [OF 2(3)])
  show ?case
  proof (cases "?d < n")
    case True
    then show ?thesis
      using 2(1) [OF refl True b] pack_ranks_ge [OF b] by (auto simp: Let_def)
  next
    case False
    then have "?d = n" using b by simp
    then show ?thesis
      using 2(2) [OF refl False b] pack_ranks_ge [of n n _ es budget] by (auto simp: Let_def)
  qed
qed simp

lemma load_on_zero: "j \<notin> set ps \<Longrightarrow> load_on j es ps = 0"
  by (induction j es ps rule: load_on.induct) auto

lemma load_on_pack:
  "d \<le> n \<Longrightarrow> n \<le> length budget \<Longrightarrow> j < n \<Longrightarrow>
   load_on j es (pack_ranks n es budget d) \<le> budget ! j"
proof (induction n es budget d rule: pack_loop.induct)
  case (2 n bytes es budget d)
  let ?d = "pack_advance budget n bytes d"
  have b: "?d \<le> n" by (rule pack_advance_bound [OF 2(3)])
  show ?case
  proof (cases "?d < n")
    case True
    have f: "bytes \<le> budget ! ?d" by (rule pack_advance_fits [OF True])
    show ?thesis
      using 2(1) [OF refl True b] 2(4,5) f True by (cases "j = ?d") (auto simp: Let_def)
  next
    case False
    then show ?thesis using 2(2) [OF refl False b] 2(4,5) b by (simp add: Let_def)
  qed
qed simp

lemma pack_feasible:
  "n \<le> length budget \<Longrightarrow> feasible n budget es (pack_ranks n es budget 0)"
  unfolding feasible_def
  using pack_ranks_sorted [of 0 n es budget] pack_ranks_ge [of 0 n _ es budget]
    load_on_pack [of 0 n budget _ es]
  by (auto simp: list_all_iff)

text \<open>The greedy choice stays ahead of every monotone placement within the budgets.\<close>

lemma pack_stays_ahead:
  assumes "d \<le> n" "n \<le> length budget" "length ps = length es" "sorted ps"
    "\<And>p. p \<in> set ps \<Longrightarrow> d \<le> p"
    "\<And>j. d \<le> j \<Longrightarrow> j < n \<Longrightarrow> load_on j es ps \<le> budget ! j"
  shows "list_all2 (\<le>) (pack_ranks n es budget d) ps"
  using assms
proof (induction n es budget d arbitrary: ps rule: pack_loop.induct)
  case (2 n bytes es budget d)
  let ?d = "pack_advance budget n bytes d"
  obtain p ps' where ps: "ps = p # ps'" using 2(5) by (cases ps) auto
  have b: "?d \<le> n" by (rule pack_advance_bound [OF 2(3)])
  have dp: "d \<le> p" using 2(7) ps by simp
  have sp: "sorted ps'" "\<And>q. q \<in> set ps' \<Longrightarrow> p \<le> q" "length ps' = length es"
    using 2(5,6) ps by auto
  have le: "?d \<le> p"
  proof (cases "p < n")
    case True
    have "bytes \<le> budget ! p" using 2(8) [OF dp True] ps by simp
    then show ?thesis by (rule pack_advance_le [OF dp True])
  qed (use b in simp)
  have q: "\<And>q. q \<in> set ps' \<Longrightarrow> ?d \<le> q" using sp(2) le by (meson le_trans)
  have tail: "load_on j es ps' \<le> budget ! j" if "?d \<le> j" "j < n" for j
    using 2(8) [of j] that pack_advance_ge [of d budget n bytes] ps by simp
  show ?case
  proof (cases "?d < n")
    case True
    have "load_on j es ps' \<le> budget[?d := budget ! ?d - bytes] ! j" if j: "?d \<le> j" "j < n" for j
    proof (cases "j = ?d")
      case False
      then show ?thesis using tail [OF j] by simp
    next
      case jd: True
      show ?thesis
      proof (cases "p = ?d")
        case True
        have "load_on ?d (bytes # es) ps \<le> budget ! ?d"
          using 2(8) [of ?d] pack_advance_ge [of d budget n bytes] \<open>?d < n\<close> by simp
        then show ?thesis using True jd ps 2(4) \<open>?d < n\<close> by simp
      next
        case False
        have "load_on j es ps' = 0" using sp(2) le False jd by (intro load_on_zero) force
        then show ?thesis by simp
      qed
    qed
    then show ?thesis
      using 2(1) [OF refl True b _ sp(3,1) q] 2(4) True le ps by (simp add: Let_def)
  next
    case False
    then show ?thesis
      using 2(2) [OF refl False b 2(4) sp(3,1) q tail] le ps b by (simp add: Let_def)
  qed
qed simp

subsection \<open>The printed range\<close>

text \<open>What the scan knows of the entries before \<open>i\<close>.\<close>

definition scanned :: "int list \<Rightarrow> int \<Rightarrow> int \<Rightarrow> int \<times> int \<Rightarrow> bool" where
  "scanned dev tier i r \<longleftrightarrow>
     (if fst r < 0 then (\<forall>k. 1 \<le> k \<longrightarrow> k < i \<longrightarrow> dev ! nat k \<noteq> tier)
      else fst r \<le> snd r \<and> snd r + 1 < i \<and> dev ! nat (fst r + 1) = tier \<and> dev ! nat (snd r + 1) = tier
        \<and> (\<forall>k. 1 \<le> k \<longrightarrow> k < i \<longrightarrow> dev ! nat k = tier \<longrightarrow> fst r + 1 \<le> k \<and> k \<le> snd r + 1))"

lemma scanned_hit:
  assumes "scanned dev tier i (f, l)" "1 \<le> i" "dev ! nat i = tier"
  shows "scanned dev tier (i + 1) (if f < 0 then i - 1 else f, i - 1)"
proof (cases "f < 0")
  case True
  have "k = i" if "1 \<le> k" "k < i + 1" "dev ! nat k = tier" for k
    using assms(1) True that by (force simp: scanned_def)
  then show ?thesis using True assms(2,3) by (auto simp: scanned_def)
next
  case False
  then show ?thesis using assms by (auto simp: scanned_def)
qed

lemma scanned_miss:
  assumes "scanned dev tier i r" "dev ! nat i \<noteq> tier"
  shows "scanned dev tier (i + 1) r"
proof (cases "fst r < 0")
  case True
  have "dev ! nat k \<noteq> tier" if "1 \<le> k" "k < i + 1" for k
    using assms True that by (cases "k = i") (auto simp: scanned_def)
  then show ?thesis using True by (simp add: scanned_def)
next
  case False
  have "fst r + 1 \<le> k \<and> k \<le> snd r + 1" if "1 \<le> k" "k < i + 1" "dev ! nat k = tier" for k
    using assms False that by (cases "k = i") (auto simp: scanned_def)
  then show ?thesis using False assms(1) by (simp add: scanned_def)
qed

lemma range_scan_scanned:
  assumes "scanned dev tier i r" "1 \<le> i" "i \<le> n_layers + 1" "n_layers < n_entries"
  shows "scanned dev tier (n_layers + 1) (range_scan dev tier n_entries n_layers i r)"
  using assms
proof (induction dev tier n_entries n_layers i r rule: range_scan.induct)
  case (1 dev tier n_entries n_layers i f l)
  show ?case
  proof (cases "i \<le> n_layers")
    case False
    then have "i = n_layers + 1" using 1(5) by simp
    then show ?thesis using 1(3) by (subst range_scan.simps) simp
  next
    case True
    then have g: "i \<le> n_layers \<and> i < n_entries" using 1(6) by simp
    show ?thesis
    proof (cases "dev ! nat i = tier")
      case hit: True
      have e: "range_scan dev tier n_entries n_layers i (f, l) =
          range_scan dev tier n_entries n_layers (i + 1) (if f < 0 then i - 1 else f, i - 1)"
        using g hit by (subst range_scan.simps) simp
      show ?thesis unfolding e
        by (rule 1(1) [OF g hit]) (use scanned_hit [OF 1(3,4) hit] 1 g in auto)
    next
      case miss: False
      have e: "range_scan dev tier n_entries n_layers i (f, l) =
          range_scan dev tier n_entries n_layers (i + 1) (f, l)"
        using g miss by (subst range_scan.simps) simp
      show ?thesis unfolding e
        by (rule 1(2) [OF g miss]) (use scanned_miss [OF 1(3) miss] 1 g in auto)
    qed
  qed
qed

lemma layer_range_scanned:
  assumes "0 \<le> n_layers" "n_layers < n_entries"
  shows "scanned dev tier (n_layers + 1) (layer_range dev tier n_entries n_layers)"
  unfolding layer_range_def
  by (rule range_scan_scanned) (use assms in \<open>auto simp: scanned_def\<close>)

text \<open>In a monotone placement the tiers between two entries of one tier are that tier.\<close>

definition valid_tier :: "nat \<Rightarrow> int \<Rightarrow> bool" where
  "valid_tier n t \<longleftrightarrow> t = LAYER_PACK_CPU \<or> (0 \<le> t \<and> t < int n)"

lemma tier_rank_inj:
  "valid_tier n s \<Longrightarrow> valid_tier n t \<Longrightarrow> tier_rank n s = tier_rank n t \<Longrightarrow> s = t"
  by (auto simp: valid_tier_def tier_rank_def split: if_splits)

lemma monotone_sandwich:
  assumes "sorted (map (tier_rank n) dev)" "list_all (valid_tier n) dev"
    "i \<le> k" "k \<le> j" "j < length dev" "dev ! i = t" "dev ! j = t"
  shows "dev ! k = t"
proof -
  have v: "valid_tier n (dev ! k)" "valid_tier n (dev ! i)"
    using assms by (auto simp: list_all_length)
  have "tier_rank n (dev ! i) \<le> tier_rank n (dev ! k)" "tier_rank n (dev ! k) \<le> tier_rank n (dev ! j)"
    using sorted_nth_mono [OF assms(1), of i k] sorted_nth_mono [OF assms(1), of k j] assms by auto
  then have "tier_rank n (dev ! k) = tier_rank n (dev ! i)" using assms(6,7) by simp
  then show ?thesis using tier_rank_inj [OF v] assms(6) by simp
qed

lemma layer_range_exact:
  assumes "sorted (map (tier_rank n) dev)" "list_all (valid_tier n) dev"
    "int (length dev) = n_entries" "0 \<le> n_layers" "n_layers < n_entries"
    "layer_range dev t n_entries n_layers = (f, l)" "0 \<le> i" "i < n_layers"
  shows "dev ! nat (i + 1) = t \<longleftrightarrow> 0 \<le> f \<and> f \<le> i \<and> i \<le> l"
proof -
  have s: "scanned dev t (n_layers + 1) (f, l)"
    using layer_range_scanned [OF assms(4,5), of dev t] assms(6) by simp
  show ?thesis
  proof (cases "f < 0")
    case True
    then show ?thesis using s assms(7,8) by (force simp: scanned_def)
  next
    case False
    have inside: "dev ! nat (i + 1) = t" if "f \<le> i" "i \<le> l"
      by (rule monotone_sandwich [OF assms(1,2), of "nat (f + 1)" _ "nat (l + 1)"])
        (use s False that assms in \<open>auto simp: scanned_def\<close>)
    have "f + 1 \<le> i + 1 \<and> i + 1 \<le> l + 1" if "dev ! nat (i + 1) = t"
    proof -
      have bd: "\<And>k. 1 \<le> k \<Longrightarrow> k < n_layers + 1 \<Longrightarrow> dev ! nat k = t \<Longrightarrow> f + 1 \<le> k \<and> k \<le> l + 1"
        using s False by (simp add: scanned_def)
      show ?thesis by (rule bd [OF _ _ that]) (use assms(7,8) in simp_all)
    qed
    then show ?thesis using False inside by auto
  qed
qed

subsection \<open>Properties\<close>

definition pack_example :: layer_pack_config where
  "pack_example = \<lparr> lp_budget = [10, 7, 3], lp_n_gpus = 3 \<rparr>"

text \<open>
  Property C23. The placement of \<open>ds4_compute_layer_placement\<close> is monotone in the order of the
  forward pass, keeps every device within its budget, and is the best of its kind: any other
  monotone placement within the budgets puts each entry on the same tier or a later one, so no
  such placement leaves fewer entries to the CPU.\<close>

theorem compute_layer_placement_greedy_optimal:
  assumes "length es = nat n" "0 \<le> n" "0 \<le> lp_n_gpus c" "lp_n_gpus c \<le> LAYER_PACK_MAX_GPUS"
    "nat (lp_n_gpus c) \<le> length (lp_budget c)"
  shows "\<exists>dev. compute_layer_placement (Some es) n (Some c) True = Inr dev
     \<and> feasible (nat (lp_n_gpus c)) (lp_budget c) es (map (tier_rank (nat (lp_n_gpus c))) dev)
     \<and> (\<forall>ps. feasible (nat (lp_n_gpus c)) (lp_budget c) es ps \<longrightarrow>
          list_all2 (\<le>) (map (tier_rank (nat (lp_n_gpus c))) dev) ps)"
proof -
  let ?n = "nat (lp_n_gpus c)" and ?B = "take (nat (lp_n_gpus c)) (lp_budget c)"
  have len: "?n \<le> length ?B" "?n \<le> length (lp_budget c)"
    using assms(5) by simp_all
  have fB: "feasible ?n ?B es ps \<longleftrightarrow> feasible ?n (lp_budget c) es ps" for ps
    by (auto simp: feasible_def list_all_iff)
  have r: "compute_layer_placement (Some es) n (Some c) True = Inr (pack_loop ?n es ?B 0)"
    using assms(1-4) by (simp add: compute_layer_placement_def)
  have "list_all2 (\<le>) (pack_ranks ?n es ?B 0) ps" if "feasible ?n ?B es ps" for ps
    by (rule pack_stays_ahead [OF _ len(1)]) (use that in \<open>auto simp: feasible_def list_all_iff\<close>)
  then show ?thesis using r pack_feasible [OF len(1), of es] fB by auto
qed

theorem compute_layer_placement_greedy_optimal_witness:
  "\<exists>dev. compute_layer_placement (Some [4, 5, 2, 7, 3, 1]) 6 (Some pack_example) True = Inr dev
     \<and> feasible 3 [10, 7, 3] [4, 5, 2, 7, 3, 1] (map (tier_rank 3) dev)"
  using compute_layer_placement_greedy_optimal [of "[4, 5, 2, 7, 3, 1]" 6 pack_example]
  by (auto simp: pack_example_def LAYER_PACK_MAX_GPUS_def)

text \<open>
  The layer range the summary prints for a tier is exactly the set of layers the
  packer placed there: a layer is on the tier if and only if its number lies in the printed
  range, on every device and on the CPU.\<close>

lemma layer_pack_print_range_exact:
  assumes "compute_layer_placement (Some es) n (Some c) True = Inr dev"
    "length es = nat n" "0 \<le> n_layers" "n_layers < n" "nat (lp_n_gpus c) \<le> length (lp_budget c)"
    "layer_range dev t n n_layers = (f, l)" "0 \<le> i" "i < n_layers"
  shows "dev ! nat (i + 1) = t \<longleftrightarrow> 0 \<le> f \<and> f \<le> i \<and> i \<le> l"
proof -
  let ?n = "nat (lp_n_gpus c)" and ?B = "take (nat (lp_n_gpus c)) (lp_budget c)"
  have dev: "dev = pack_loop ?n es ?B 0"
    using assms(1,2) by (auto simp: compute_layer_placement_def split: if_splits)
  show ?thesis
  proof (rule layer_range_exact [OF _ _ _ assms(3,4,6,7,8)])
    show "sorted (map (tier_rank ?n) dev)" unfolding dev by (rule pack_ranks_sorted) simp
    show "list_all (valid_tier ?n) dev"
      using pack_loop_tiers [of 0 ?n es ?B] unfolding dev
      by (auto simp: list_all_iff valid_tier_def)
    show "int (length dev) = n" using assms(2,3,4) by (simp add: dev)
  qed
qed

end
