(* ===== verification/Gpu_Args.thy ===== *)
theory Gpu_Args
  imports CLib
begin

text \<open>
  The shared parser of \<open>--gpu-vram\<close> and \<open>--gpu-devices\<close>, \<open>ds4_gpu_args.c\<close>: the list parser, the
  four cases of the budget argument and the layout line echoed before the engine is created.
  The CUDA probe behind \<open>auto\<close> is a parameter.
\<close>

definition MAX_GPUS :: nat where "MAX_GPUS = 16"
definition GPU_ARGS_DEFAULT_SAFETY_MARGIN :: nat where
  "GPU_ARGS_DEFAULT_SAFETY_MARGIN = 512 * 1024 * 1024"
definition GPU_ARGS_MAX_VRAM_GB :: int where "GPU_ARGS_MAX_VRAM_GB = 16384"
definition GPU_ARGS_MAX_DEVICE_INDEX :: int where "GPU_ARGS_MAX_DEVICE_INDEX = 1023"

record gpu_config =
  gc_n_gpus :: int
  gc_device_indices :: "int list"
  gc_vram_bytes :: "nat list"
  gc_safety_margin_bytes :: nat

subsection \<open>The list parser\<close>

datatype csv_error =
    Csv_Empty
  | Csv_Not_A_Number string
  | Csv_Out_Of_Range string int
  | Csv_Too_Many nat
  | Csv_Empty_Entry string
  | Csv_Junk string
  | Csv_No_Values

definition is_blank :: "char \<Rightarrow> bool" where
  "is_blank c = (c = CHR '' '' \<or> c = CHR 0x09)"

text \<open>
  One pass of the \<open>while (*p)\<close> loop per call: the blanks, the number, the blanks, the comma.
  \<open>acc\<close> holds the values stored so far.
\<close>

function csv_loop :: "nat \<Rightarrow> int \<Rightarrow> string \<Rightarrow> int list \<Rightarrow> (csv_error, int list) result" where
  "csv_loop max_count max_value [] acc = (if acc = [] then Inl Csv_No_Values else Inr acc)"
| "csv_loop max_count max_value (c # cs) acc =
     (let p = dropWhile is_blank (c # cs) in
      case strtol p of (v, erange, rest) \<Rightarrow>
        if length rest = length p then Inl (Csv_Not_A_Number p)
        else if erange \<or> v < 0 \<or> v > max_value then Inl (Csv_Out_Of_Range p max_value)
        else if length acc \<ge> max_count then Inl (Csv_Too_Many max_count)
        else let rest' = dropWhile is_blank rest in
          if rest' \<noteq> [] \<and> hd rest' = CHR '','' then
            (let q = tl rest' in
             if q = [] \<or> hd q = CHR '','' then Inl (Csv_Empty_Entry q)
             else csv_loop max_count max_value q (acc @ [v]))
          else if rest' \<noteq> [] then Inl (Csv_Junk rest')
          else csv_loop max_count max_value [] (acc @ [v]))"
  by pat_completeness auto

lemma strtol_rest_le: "length (snd (snd (strtol p))) \<le> length p"
  using strtol_rest [of p] by (cases "snd (snd (strtol p)) = p") auto

lemma csv_consumes:
  assumes "strtol (dropWhile is_blank (c # cs)) = (v, e, rest)" "dropWhile is_blank rest \<noteq> []"
  shows "length (tl (dropWhile is_blank rest)) < Suc (length cs)"
proof -
  have "length rest \<le> length (dropWhile is_blank (c # cs))"
    using strtol_rest_le [of "dropWhile is_blank (c # cs)"] assms(1) by simp
  moreover have "length (dropWhile is_blank (c # cs)) \<le> length (c # cs)" by (rule length_dropWhile_le)
  moreover have "length (dropWhile is_blank rest) \<le> length rest" by (rule length_dropWhile_le)
  moreover have "0 < length (dropWhile is_blank rest)" using assms(2) by simp
  ultimately show ?thesis by simp
qed

termination csv_loop
proof (relation "measure (\<lambda>(_, _, s, _). length s)", goal_cases)
  case (2 max_count max_value c cs acc p v y erange rest rest' q)
  have s: "strtol (dropWhile is_blank (c # cs)) = (v, erange, rest)" using 2(1,2,3) by simp
  have n: "dropWhile is_blank rest \<noteq> []" using 2 by blast
  have "length (tl (dropWhile is_blank rest)) < Suc (length cs)" by (rule csv_consumes [OF s n])
  then show ?case using 2(7,9) by simp
qed simp_all

declare csv_loop.simps(2) [simp del]

definition parse_csv_int_list ::
  "string option \<Rightarrow> nat \<Rightarrow> int \<Rightarrow> (csv_error, int list) result" where
  "parse_csv_int_list s max_count max_value =
     (case s of None \<Rightarrow> Inl Csv_Empty
      | Some t \<Rightarrow> if t = [] then Inl Csv_Empty else csv_loop max_count max_value t [])"

text \<open>The text of a refusal, as \<open>errbuf_setf\<close> formats it, and the copy into the buffer.\<close>

fun csv_message :: "string \<Rightarrow> csv_error \<Rightarrow> string" where
  "csv_message what Csv_Empty = what @ '': empty value''"
| "csv_message what (Csv_Not_A_Number p) = what @ '': not a number: '' @ [CHR 0x27] @ p @ [CHR 0x27]"
| "csv_message what (Csv_Out_Of_Range p mx) =
     what @ '': out-of-range value: '' @ [CHR 0x27] @ p @ [CHR 0x27] @ '' (allowed 0..''
     @ dec_int mx @ '')''"
| "csv_message what (Csv_Too_Many mx) = what @ '': too many entries (max '' @ dec mx @ '')''"
| "csv_message what (Csv_Empty_Entry p) =
     what @ '': empty entry near '' @ [CHR 0x27] @ p @ [CHR 0x27]"
| "csv_message what (Csv_Junk p) = what @ '': junk after value: '' @ [CHR 0x27] @ p @ [CHR 0x27]"
| "csv_message what Csv_No_Values = what @ '': no values parsed''"

definition errbuf_set :: "nat \<Rightarrow> string \<Rightarrow> string" where
  "errbuf_set outlen msg =
     (if outlen = 0 then [] else if length msg \<ge> outlen then take (outlen - 1) msg else msg)"

subsection \<open>The argument parser\<close>

datatype gpu_arg_error =
    Ga_Devices csv_error
  | Ga_Vram csv_error
  | Ga_Both_Null
  | Ga_Zero_Conflict
  | Ga_Probe string
  | Ga_Count_Mismatch nat nat

text \<open>
  The probe receives the device filter (\<open>None\<close> for all devices) and the safety margin, and
  fills the configuration. The result is the configuration and the \<open>skip CUDA\<close> flag.
\<close>

type_synonym gpu_probe = "int list option \<Rightarrow> nat \<Rightarrow> (string, gpu_config) result"

definition explicit_config :: "int list \<Rightarrow> int list \<Rightarrow> gpu_config" where
  "explicit_config devs vram =
     \<lparr> gc_n_gpus = int (length vram),
       gc_device_indices = map (\<lambda>i. if devs \<noteq> [] then cast_i32 (devs ! i) else int i) [0..<length vram],
       gc_vram_bytes = map (\<lambda>v. (nat v * 1024 * 1024 * 1024) mod 2 ^ 64) vram,
       gc_safety_margin_bytes = GPU_ARGS_DEFAULT_SAFETY_MARGIN \<rparr>"

definition empty_gpu_config :: gpu_config where
  "empty_gpu_config = \<lparr> gc_n_gpus = 0, gc_device_indices = [], gc_vram_bytes = [],
     gc_safety_margin_bytes = GPU_ARGS_DEFAULT_SAFETY_MARGIN \<rparr>"

definition parse_devices :: "string option \<Rightarrow> (csv_error, int list) result" where
  "parse_devices d = (case d of None \<Rightarrow> Inr []
     | Some _ \<Rightarrow> parse_csv_int_list d MAX_GPUS GPU_ARGS_MAX_DEVICE_INDEX)"

definition parse_gpu_vram_arg ::
  "gpu_probe \<Rightarrow> string option \<Rightarrow> string option \<Rightarrow> (gpu_arg_error, gpu_config \<times> bool) result" where
  "parse_gpu_vram_arg probe vram_arg devices_arg =
     (case parse_devices devices_arg of
        Inl e \<Rightarrow> Inl (Ga_Devices e)
      | Inr devs \<Rightarrow>
          if vram_arg = None \<and> devices_arg = None then Inl Ga_Both_Null
          else let vram = (case vram_arg of None \<Rightarrow> ''auto'' | Some v \<Rightarrow> v) in
            if vram = ''0'' then
              (if devices_arg \<noteq> None then Inl Ga_Zero_Conflict else Inr (empty_gpu_config, True))
            else if vram = ''auto'' then
              (case probe (if devs \<noteq> [] then Some (map cast_i32 devs) else None)
                      GPU_ARGS_DEFAULT_SAFETY_MARGIN of
                 Inl msg \<Rightarrow> Inl (Ga_Probe msg) | Inr cfg \<Rightarrow> Inr (cfg, False))
            else (case parse_csv_int_list (Some vram) MAX_GPUS GPU_ARGS_MAX_VRAM_GB of
                    Inl e \<Rightarrow> Inl (Ga_Vram e)
                  | Inr vs \<Rightarrow>
                      if devs \<noteq> [] \<and> length devs \<noteq> length vs
                      then Inl (Ga_Count_Mismatch (length devs) (length vs))
                      else Inr (explicit_config devs vs, False)))"

subsection \<open>The layout line\<close>

text \<open>
  A run of \<open>snprintf\<close> calls at the end of what was written, each followed by the test whether
  the buffer is full: the text in the buffer and the returned count.
\<close>

fun snprintf_run :: "nat \<Rightarrow> string \<Rightarrow> nat \<Rightarrow> string list \<Rightarrow> string \<times> nat" where
  "snprintf_run outlen buf written [] = (buf, written)"
| "snprintf_run outlen buf written (piece # ps) =
     (let buf' = buf @ take (outlen - written - 1) piece in
      if written + length piece \<ge> outlen then (buf', written + length piece)
      else snprintf_run outlen buf' (written + length piece) ps)"

definition comma_pieces :: "string list \<Rightarrow> string list" where
  "comma_pieces xs = map (\<lambda>i. (if i \<noteq> 0 then '','' else []) @ xs ! i) [0..<length xs]"

definition layout_pieces :: "gpu_config \<Rightarrow> bool \<Rightarrow> string list" where
  "layout_pieces cfg was_auto =
     [''ds4: GPU config: '' @ dec_int (gc_n_gpus cfg) @ '' device''
        @ (if gc_n_gpus cfg = 1 then [] else ''s'') @ '' ['']
     @ comma_pieces (map dec_int (take (nat (gc_n_gpus cfg)) (gc_device_indices cfg)))
     @ [''] requested, budgets '']
     @ comma_pieces (map print_gib0 (take (nat (gc_n_gpus cfg)) (gc_vram_bytes cfg)))
     @ ['' GB; auto='' @ (if was_auto then ''true'' else ''false'')]"

definition format_gpu_layout_line :: "gpu_config option \<Rightarrow> bool \<Rightarrow> nat \<Rightarrow> (string \<times> nat) option" where
  "format_gpu_layout_line cfg was_auto outlen =
     (case cfg of None \<Rightarrow> None
      | Some c \<Rightarrow> if outlen = 0 then None
                  else Some (snprintf_run outlen [] 0 (layout_pieces c was_auto)))"

subsection \<open>Lemmas\<close>

fun csv_text :: "int list \<Rightarrow> string" where
  "csv_text [] = []"
| "csv_text [x] = dec (nat x)"
| "csv_text (x # y # xs) = dec (nat x) @ '','' @ csv_text (y # xs)"

lemma csv_text_not_Nil: "xs \<noteq> [] \<Longrightarrow> csv_text xs \<noteq> []"
  by (cases xs rule: csv_text.cases) auto

lemma csv_text_hd_digit: "xs \<noteq> [] \<Longrightarrow> isdigit (hd (csv_text xs))"
  by (cases xs rule: csv_text.cases) (auto simp: dec_hd_digit)

lemma isdigit_not_blank: "isdigit c \<Longrightarrow> \<not> is_blank c \<and> c \<noteq> CHR '',''"
  by (auto simp: is_blank_def)

lemma dropWhile_blank_dec: "dropWhile is_blank (dec n @ r) = dec n @ r"
proof -
  obtain c cs where c: "dec n = c # cs" using dec_not_Nil [of n] by (cases "dec n") auto
  have "isdigit c" using dec_hd_digit [of n] c by simp
  then show ?thesis using isdigit_not_blank by (simp add: c)
qed

lemma csv_loop_dec:
  assumes "s = dec n @ rest" "rest = [] \<or> hd rest = CHR '',''" "int n \<le> max_value"
    "max_value \<le> LONG_MAX" "length acc < max_count"
  shows "csv_loop max_count max_value s acc =
    (if rest = [] then Inr (acc @ [int n])
     else if tl rest = [] \<or> hd (tl rest) = CHR '','' then Inl (Csv_Empty_Entry (tl rest))
     else csv_loop max_count max_value (tl rest) (acc @ [int n]))"
proof -
  obtain c cs where c: "s = c # cs" using assms(1) dec_not_Nil [of n] by (cases "dec n") auto
  have r: "rest = [] \<or> \<not> isdigit (hd rest)" using assms(2) by auto
  have t: "strtol s = (int n, False, rest)" unfolding assms(1)
    by (rule strtol_dec [OF r]) (use assms in simp)
  have p: "dropWhile is_blank (c # cs) = s"
    unfolding c [symmetric] assms(1) by (rule dropWhile_blank_dec)
  have l: "length rest \<noteq> length s" using assms(1) dec_not_Nil [of n] by simp
  have b: "dropWhile is_blank rest = rest"
    using assms(2) by (cases rest) (auto simp: is_blank_def)
  have "csv_loop max_count max_value (c # cs) acc =
    (if rest = [] then Inr (acc @ [int n])
     else if tl rest = [] \<or> hd (tl rest) = CHR '','' then Inl (Csv_Empty_Entry (tl rest))
     else csv_loop max_count max_value (tl rest) (acc @ [int n]))"
    unfolding csv_loop.simps(2) Let_def p t prod.case b using l assms(2-5) by auto
  then show ?thesis by (simp only: c)
qed

lemma csv_loop_text:
  "xs \<noteq> [] \<Longrightarrow> list_all (\<lambda>x. 0 \<le> x \<and> x \<le> max_value) xs \<Longrightarrow> max_value \<le> LONG_MAX \<Longrightarrow>
   length acc + length xs \<le> max_count \<Longrightarrow>
   csv_loop max_count max_value (csv_text xs) acc = Inr (acc @ xs)"
proof (induction xs arbitrary: acc rule: csv_text.induct)
  case (2 x)
  then show ?case using csv_loop_dec [of "dec (nat x)" "nat x" "[]" max_value acc max_count] by simp
next
  case (3 x y xs)
  let ?t = "csv_text (y # xs)"
  have ne: "?t \<noteq> []" "hd ?t \<noteq> CHR '',''"
    using csv_text_not_Nil [of "y # xs"] csv_text_hd_digit [of "y # xs"] isdigit_not_blank by auto
  have "csv_loop max_count max_value (csv_text (x # y # xs)) acc
      = csv_loop max_count max_value ?t (acc @ [x])"
    using csv_loop_dec [of "csv_text (x # y # xs)" "nat x" "'','' @ ?t" max_value acc max_count] 3 ne
    by simp
  also have "\<dots> = Inr ((acc @ [x]) @ y # xs)" by (rule 3(1)) (use 3 in auto)
  finally show ?case by simp
qed simp

lemma csv_loop_step:
  assumes "csv_loop max_count max_value (c # cs) acc = Inr xs"
  obtains v q where "csv_loop max_count max_value q (acc @ [v]) = Inr xs" "length q < length (c # cs)"
    "0 \<le> v" "v \<le> max_value" "length acc < max_count"
proof -
  obtain v e rest where t: "strtol (dropWhile is_blank (c # cs)) = (v, e, rest)"
    by (metis prod.exhaust)
  let ?r = "dropWhile is_blank rest"
  have run: "\<not> v < 0" "\<not> v > max_value" "\<not> length acc \<ge> max_count"
    "(?r \<noteq> [] \<and> csv_loop max_count max_value (tl ?r) (acc @ [v]) = Inr xs)
     \<or> csv_loop max_count max_value [] (acc @ [v]) = Inr xs"
    using assms unfolding csv_loop.simps(2) Let_def t prod.case
    by (simp_all only: split: if_splits) simp_all
  then show ?thesis
    using that [of "tl ?r" v] that [of "[]" v] csv_consumes [OF t] by auto
qed

lemma csv_loop_sound:
  "csv_loop max_count max_value s acc = Inr xs \<Longrightarrow> length acc \<le> max_count \<Longrightarrow>
   list_all (\<lambda>x. 0 \<le> x \<and> x \<le> max_value) acc \<Longrightarrow>
   xs \<noteq> [] \<and> length xs \<le> max_count \<and> list_all (\<lambda>x. 0 \<le> x \<and> x \<le> max_value) xs"
proof (induction s arbitrary: acc rule: length_induct)
  case (1 s)
  show ?case
  proof (cases s)
    case Nil
    then show ?thesis using 1(2,3,4) by (auto split: if_splits)
  next
    case (Cons c cs)
    obtain v q where "csv_loop max_count max_value q (acc @ [v]) = Inr xs" "length q < length s"
      "0 \<le> v" "v \<le> max_value" "length acc < max_count"
      using csv_loop_step [OF 1(2) [unfolded Cons]] Cons by metis
    then show ?thesis using 1(1,4) by auto
  qed
qed

lemma csv_loop_sound_Nil:
  "csv_loop max_count max_value s [] = Inr xs \<Longrightarrow>
   xs \<noteq> [] \<and> length xs \<le> max_count \<and> list_all (\<lambda>x. 0 \<le> x \<and> x \<le> max_value) xs"
  by (rule csv_loop_sound) auto

lemma snprintf_run_spec:
  "length buf = written \<Longrightarrow> written < outlen \<Longrightarrow>
   (let full = buf @ concat ps in
    fst (snprintf_run outlen buf written ps) = take (outlen - 1) full
    \<and> (length full < outlen \<longrightarrow> snd (snprintf_run outlen buf written ps) = length full)
    \<and> (outlen \<le> length full \<longrightarrow> outlen \<le> snd (snprintf_run outlen buf written ps)))"
proof (induction outlen buf written ps rule: snprintf_run.induct)
  case (2 outlen buf written piece ps)
  show ?case
  proof (cases "written + length piece \<ge> outlen")
    case True
    then show ?thesis using 2(2,3) by (auto simp: Let_def)
  next
    case False
    then have e: "buf @ take (outlen - written - 1) piece = buf @ piece" by simp
    show ?thesis using 2(1) [OF refl False] 2(2) False by (simp add: Let_def e)
  qed
qed (auto simp: Let_def)

lemma concat_comma_pieces_Cons:
  "concat (comma_pieces (x # xs)) = x @ concat (map (\<lambda>y. '','' @ y) xs)"
proof -
  have u: "[0..<Suc (length xs)] = 0 # map Suc [0..<length xs]"
    by (simp add: upt_conv_Cons map_Suc_upt del: upt_Suc)
  have "map (\<lambda>i. (if i \<noteq> 0 then '','' else []) @ (x # xs) ! i) [0..<Suc (length xs)]
      = x # map (\<lambda>i. '','' @ xs ! i) [0..<length xs]"
    unfolding u by simp
  also have "map (\<lambda>i. '','' @ xs ! i) [0..<length xs] = map (\<lambda>y. '','' @ y) xs"
    by (rule nth_equalityI) simp_all
  finally show ?thesis by (simp add: comma_pieces_def)
qed

lemma csv_text_commas:
  "csv_text (x # xs) = dec (nat x) @ concat (map (\<lambda>y. '','' @ dec (nat y)) xs)"
  by (induction xs arbitrary: x) simp_all

lemma concat_comma_dec_int:
  "list_all (\<lambda>x. 0 \<le> x) xs \<Longrightarrow> concat (comma_pieces (map dec_int xs)) = csv_text xs"
proof (cases xs)
  case (Cons a ys)
  assume nn: "list_all (\<lambda>x. 0 \<le> x) xs"
  then have e: "map dec_int xs = map (\<lambda>x. dec (nat x)) xs" by (auto simp: list_all_iff dec_int_def)
  show ?thesis unfolding e unfolding Cons list.map concat_comma_pieces_Cons csv_text_commas
    by (simp add: o_def)
qed (simp add: comma_pieces_def)

lemma csv_text_digits_hd: "csv_text xs \<noteq> ''auto''"
proof (cases "xs = []")
  case False
  then show ?thesis using csv_text_hd_digit [OF False] by auto
qed simp

lemma parse_csv_text:
  assumes "xs \<noteq> []" "length xs \<le> max_count" "list_all (\<lambda>x. 0 \<le> x \<and> x \<le> max_value) xs"
    "max_value \<le> LONG_MAX"
  shows "parse_csv_int_list (Some (csv_text xs)) max_count max_value = Inr xs"
  using csv_loop_text [OF assms(1,3,4), of "[]" max_count] assms(2) csv_text_not_Nil [OF assms(1)]
  by (simp add: parse_csv_int_list_def)

lemma parse_csv_sound:
  "parse_csv_int_list s max_count max_value = Inr xs \<Longrightarrow>
   xs \<noteq> [] \<and> length xs \<le> max_count \<and> list_all (\<lambda>x. 0 \<le> x \<and> x \<le> max_value) xs"
  using csv_loop_sound_Nil by (auto simp: parse_csv_int_list_def split: option.splits if_splits)

subsection \<open>Properties\<close>

definition no_probe :: gpu_probe where
  "no_probe f margin = Inl ''no devices''"

text \<open>
  Every list of budgets and of device indices within the documented limits can be
  written on the command line and is read back exactly: the explicit configuration has the
  listed devices, budgets of that many GiB without wrap-around, and the default margin; and
  the layout line echoed for several devices shows the same two lists.\<close>

lemma gpu_args_explicit_roundtrip:
  assumes "vs \<noteq> []" "length vs \<le> MAX_GPUS" "length devs = length vs"
    "list_all (\<lambda>v. 0 \<le> v \<and> v \<le> GPU_ARGS_MAX_VRAM_GB) vs"
    "list_all (\<lambda>d. 0 \<le> d \<and> d \<le> GPU_ARGS_MAX_DEVICE_INDEX) devs" "csv_text vs \<noteq> ''0''"
  shows "\<exists>cfg. parse_gpu_vram_arg probe (Some (csv_text vs)) (Some (csv_text devs)) = Inr (cfg, False)
    \<and> gc_n_gpus cfg = int (length vs) \<and> gc_device_indices cfg = devs
    \<and> gc_vram_bytes cfg = map (\<lambda>v. nat v * 2 ^ 30) vs
    \<and> (1 < length vs \<longrightarrow> concat (layout_pieces cfg False) =
        ''ds4: GPU config: '' @ dec (length vs) @ '' devices ['' @ csv_text devs
        @ ''] requested, budgets '' @ csv_text vs @ '' GB; auto=false'')"
proof -
  have dne: "devs \<noteq> []" using assms(1,3) by auto
  have p1: "parse_devices (Some (csv_text devs)) = Inr devs"
    using dne parse_csv_text [of devs MAX_GPUS GPU_ARGS_MAX_DEVICE_INDEX] assms(1,2,3,5)
    by (auto simp: parse_devices_def GPU_ARGS_MAX_DEVICE_INDEX_def LONG_MAX_def)
  have p2: "parse_csv_int_list (Some (csv_text vs)) MAX_GPUS GPU_ARGS_MAX_VRAM_GB = Inr vs"
    using parse_csv_text [of vs MAX_GPUS GPU_ARGS_MAX_VRAM_GB] assms(1,2,4)
    by (auto simp: GPU_ARGS_MAX_VRAM_GB_def LONG_MAX_def)
  let ?c = "explicit_config devs vs"
  have d: "gc_device_indices ?c = devs"
  proof (rule nth_equalityI)
    show "gc_device_indices ?c ! i = devs ! i" if "i < length (gc_device_indices ?c)" for i
      using that assms(1,3,5)
      by (auto simp: explicit_config_def list_all_length GPU_ARGS_MAX_DEVICE_INDEX_def INT32_MAX_def
          intro!: cast_i32_id)
  qed (simp add: explicit_config_def assms(3))
  have v: "gc_vram_bytes ?c = map (\<lambda>v. nat v * 2 ^ 30) vs"
    using assms(4) by (auto simp: explicit_config_def list_all_iff GPU_ARGS_MAX_VRAM_GB_def)
  have g: "map print_gib0 (gc_vram_bytes ?c) = map dec_int vs"
    using assms(4) print_gib0_exact
    by (auto simp: v list_all_iff GPU_ARGS_MAX_VRAM_GB_def dec_int_def)
  have tk: "take (nat (int (length vs))) (gc_vram_bytes ?c) = gc_vram_bytes ?c" by (simp add: v)
  have nn: "list_all (\<lambda>x. 0 \<le> x) devs" "list_all (\<lambda>x. 0 \<le> x) vs"
    using assms(4,5) by (auto simp: list_all_iff)
  have n: "gc_n_gpus ?c = int (length vs)" by (simp add: explicit_config_def)
  have "parse_gpu_vram_arg probe (Some (csv_text vs)) (Some (csv_text devs)) = Inr (?c, False)"
    unfolding parse_gpu_vram_arg_def p1 sum.case Let_def
    using assms(3,6) csv_text_digits_hd [of vs] by (simp add: p2)
  moreover have "concat (layout_pieces ?c False) =
        ''ds4: GPU config: '' @ dec (length vs) @ '' devices ['' @ csv_text devs
        @ ''] requested, budgets '' @ csv_text vs @ '' GB; auto=false''" if "1 < length vs"
    unfolding layout_pieces_def n d tk g
    using that assms(3) concat_comma_dec_int [OF nn(1)] concat_comma_dec_int [OF nn(2)]
    by (simp add: dec_int_def)
  ultimately show ?thesis using n d v by blast
qed

text \<open>
  Whatever text the flags hold, an accepted explicit configuration is within the
  limits the engine sizes its arrays by: between 1 and 16 devices, as many indices and budgets,
  indices up to 1023 and budgets of whole GiB up to 16 TiB, computed without wrap-around.\<close>

lemma parse_gpu_vram_arg_bounds:
  assumes "parse_gpu_vram_arg probe (Some s) devices_arg = Inr (cfg, skip)" "s \<noteq> ''auto''"
    "\<not> skip"
  shows "1 \<le> gc_n_gpus cfg \<and> gc_n_gpus cfg \<le> int MAX_GPUS
    \<and> int (length (gc_device_indices cfg)) = gc_n_gpus cfg
    \<and> int (length (gc_vram_bytes cfg)) = gc_n_gpus cfg
    \<and> list_all (\<lambda>d. 0 \<le> d \<and> d \<le> GPU_ARGS_MAX_DEVICE_INDEX) (gc_device_indices cfg)
    \<and> list_all (\<lambda>b. 2 ^ 30 dvd b \<and> b \<le> 16384 * 2 ^ 30) (gc_vram_bytes cfg)"
proof -
  obtain devs where d: "parse_devices devices_arg = Inr devs"
    using assms(1) by (auto simp: parse_gpu_vram_arg_def split: sum.splits)
  obtain vs where v: "parse_csv_int_list (Some s) MAX_GPUS GPU_ARGS_MAX_VRAM_GB = Inr vs"
    and c: "cfg = explicit_config devs vs" "devs \<noteq> [] \<Longrightarrow> length devs = length vs"
    using assms by (auto simp: parse_gpu_vram_arg_def d Let_def split: sum.splits if_splits)
  have dv: "list_all (\<lambda>x. 0 \<le> x \<and> x \<le> GPU_ARGS_MAX_DEVICE_INDEX) devs"
    using d parse_csv_sound by (auto simp: parse_devices_def split: option.splits)
  have vv: "vs \<noteq> []" "length vs \<le> MAX_GPUS" "list_all (\<lambda>x. 0 \<le> x \<and> x \<le> GPU_ARGS_MAX_VRAM_GB) vs"
    using parse_csv_sound [OF v] by auto
  have "0 \<le> cast_i32 (devs ! i) \<and> cast_i32 (devs ! i) \<le> GPU_ARGS_MAX_DEVICE_INDEX"
    if "i < length devs" for i
  proof -
    have "0 \<le> devs ! i \<and> devs ! i \<le> GPU_ARGS_MAX_DEVICE_INDEX"
      using dv that by (simp add: list_all_length)
    then show ?thesis
      using cast_i32_id [of "devs ! i"] by (simp add: GPU_ARGS_MAX_DEVICE_INDEX_def INT32_MAX_def)
  qed
  then have "list_all (\<lambda>d. 0 \<le> d \<and> d \<le> GPU_ARGS_MAX_DEVICE_INDEX) (gc_device_indices cfg)"
    using c(2) vv(2)
    by (cases "devs = []")
      (auto simp: c(1) explicit_config_def list_all_iff MAX_GPUS_def GPU_ARGS_MAX_DEVICE_INDEX_def)
  moreover have "list_all (\<lambda>b. 2 ^ 30 dvd b \<and> b \<le> 16384 * 2 ^ 30) (gc_vram_bytes cfg)"
  proof -
    have "2 ^ 30 dvd (nat x * 1024 * 1024 * 1024) mod 2 ^ 64
        \<and> (nat x * 1024 * 1024 * 1024) mod 2 ^ 64 \<le> 16384 * (2::nat) ^ 30"
      if "x \<in> set vs" for x
    proof -
      have x: "nat x \<le> 16384" using vv(3) that by (auto simp: list_all_iff GPU_ARGS_MAX_VRAM_GB_def)
      then have "(nat x * 1024 * 1024 * 1024) mod 2 ^ 64 = nat x * (2::nat) ^ 30" by simp
      then show ?thesis using x by simp
    qed
    then show ?thesis by (auto simp: c(1) explicit_config_def list_all_iff)
  qed
  moreover have "1 \<le> length vs" using vv(1) by (cases vs) auto
  ultimately show ?thesis using vv(2) by (simp add: c(1) explicit_config_def)
qed

end
