(* ===== verification/Ssd.thy ===== *)
theory Ssd
  imports CLib
begin

text \<open>
  The SSD-streaming options, \<open>ds4_ssd.c\<close>: the parsers of byte budgets and expert counts, the
  automatic split of memory between the model and its expert cache, and the memory lock that
  simulates used memory. A \<open>uint64_t\<close> is a \<open>nat\<close> below \<open>2 ^ 64\<close> with every product reduced
  modulo \<open>2 ^ 64\<close>.
\<close>

definition GIB :: nat where "GIB = 1024 * 1024 * 1024"

definition gb_suffix :: "string \<Rightarrow> bool" where
  "gb_suffix s = (length s > 2
     \<and> (s ! (length s - 2) = CHR ''g'' \<or> s ! (length s - 2) = CHR ''G'')
     \<and> (s ! (length s - 1) = CHR ''b'' \<or> s ! (length s - 1) = CHR ''B''))"

text \<open>\<open>None\<close> is the refusal, with \<open>*bytes\<close> zero.\<close>

definition parse_gib_arg :: "string option \<Rightarrow> nat option" where
  "parse_gib_arg arg =
     (case arg of None \<Rightarrow> None
      | Some s \<Rightarrow>
         if s = [] then None
         else let len = (if gb_suffix s then length s - 2 else length s); num = take len s in
           if len = 0 then None
           else if \<not> list_all isdigit num then None
           else if len \<ge> 32 then None
           else (case strtoul num of (v, erange, rest) \<Rightarrow>
             if erange \<or> v = 0 \<or> v > UINT64_MAX div GIB then None
             else Some ((v * GIB) mod 2 ^ 64)))"

text \<open>The result is \<open>(experts, bytes)\<close>; one of the two is zero.\<close>

definition parse_streaming_cache_experts_arg :: "string option \<Rightarrow> (nat \<times> nat) option" where
  "parse_streaming_cache_experts_arg arg =
     (case arg of None \<Rightarrow> None
      | Some s \<Rightarrow>
         if s = [] then None
         else if gb_suffix s then map_option (\<lambda>b. (0, b)) (parse_gib_arg (Some s))
         else if \<not> list_all isdigit s then None
         else (case strtoul s of (v, erange, rest) \<Rightarrow>
           if erange \<or> v = 0 \<or> v > UINT32_MAX then None else Some (v, 0)))"

definition ssd_cache_experts_for_byte_budget :: "nat \<Rightarrow> nat \<Rightarrow> nat" where
  "ssd_cache_experts_for_byte_budget bytes per_expert =
     (if bytes = 0 \<or> per_expert = 0 then 0
      else let experts = bytes div per_expert in
        if experts = 0 \<or> experts > UINT32_MAX then 0 else experts)"

text \<open>The environment variable \<open>DS4_SSD_AUTO_CACHE_PCT\<close> is the argument.\<close>

definition ssd_auto_cache_percent :: "string option \<Rightarrow> nat" where
  "ssd_auto_cache_percent env =
     (case env of None \<Rightarrow> 80
      | Some s \<Rightarrow>
         if s = [] then 80
         else (case strtoul s of (v, erange, rest) \<Rightarrow>
           if length rest \<noteq> length s \<and> rest = [] \<and> \<not> erange \<and> v \<ge> 50 \<and> v \<le> 95 then v else 80))"

record ssd_cache_plan =
  cp_model_target_bytes :: nat
  cp_cache_bytes :: nat
  cp_effective_cache_bytes :: nat
  cp_cache_experts :: nat

definition plan_target :: "nat \<Rightarrow> nat \<Rightarrow> nat" where
  "plan_target recommended pct =
     (if recommended > UINT64_MAX div pct then UINT64_MAX else ((recommended * pct) mod 2 ^ 64) div 100)"

definition plan_experts :: "nat \<Rightarrow> nat \<Rightarrow> nat \<Rightarrow> nat" where
  "plan_experts cache per_expert max_model =
     (let e0 = cache div per_expert;
          e1 = (if e0 = 0 then 1 else e0);
          e2 = (if max_model \<noteq> 0 \<and> e1 > max_model then max_model else e1)
      in if e2 > UINT32_MAX then UINT32_MAX else e2)"

definition ssd_auto_cache_plan :: "string option \<Rightarrow> nat \<Rightarrow> nat \<Rightarrow> nat \<Rightarrow> nat \<Rightarrow> ssd_cache_plan option" where
  "ssd_auto_cache_plan env recommended non_routed per_expert max_model =
     (if recommended = 0 \<or> per_expert = 0 then None
      else
        let target = plan_target recommended (ssd_auto_cache_percent env);
            cache = (if target > non_routed then target - non_routed else 0);
            experts = plan_experts cache per_expert max_model
        in if experts mod 2 ^ 32 = 0 then None
           else Some \<lparr> cp_model_target_bytes = target, cp_cache_bytes = cache,
                       cp_effective_cache_bytes = (experts * per_expert) mod 2 ^ 64,
                       cp_cache_experts = experts mod 2 ^ 32 \<rparr>)"

subsection \<open>The memory lock\<close>

text \<open>
  The calls the lock makes on the operating system, in order; \<open>mmap\<close> and \<open>mlock\<close> may fail, as
  the parameters decide.
\<close>

datatype vm_call = Mmap nat | Mlock nat nat | Munlock nat | Munmap nat

record ssd_memory_lock =
  ml_ptr :: "nat option"
  ml_bytes :: nat

definition no_lock :: ssd_memory_lock where
  "no_lock = \<lparr> ml_ptr = None, ml_bytes = 0 \<rparr>"

definition CHUNK_BYTES :: nat where "CHUNK_BYTES = 256 * 1024 * 1024"

text \<open>The chunk loop: whether every \<open>mlock\<close> succeeded, the bytes locked, the calls.\<close>

function lock_chunks :: "(nat \<Rightarrow> nat \<Rightarrow> bool) \<Rightarrow> nat \<Rightarrow> nat \<Rightarrow> nat \<Rightarrow> bool \<times> nat \<times> vm_call list" where
  "lock_chunks mlock_ok bytes off locked =
     (if off < bytes then
        let len = min (bytes - off) CHUNK_BYTES in
        if \<not> mlock_ok off len then (False, locked, [Mlock off len])
        else (case lock_chunks mlock_ok bytes (off + CHUNK_BYTES) (locked + len) of
                (ok, n, calls) \<Rightarrow> (ok, n, Mlock off len # calls))
      else (True, locked, []))"
  by pat_completeness auto

termination by (relation "measure (\<lambda>(_, bytes, off, _). bytes - off)") (auto simp: CHUNK_BYTES_def)

declare lock_chunks.simps [simp del]

definition ssd_memory_lock_acquire ::
  "nat option \<Rightarrow> (nat \<Rightarrow> nat \<Rightarrow> bool) \<Rightarrow> nat \<Rightarrow> bool \<times> ssd_memory_lock \<times> vm_call list" where
  "ssd_memory_lock_acquire mmap_result mlock_ok bytes =
     (if bytes = 0 then (True, no_lock, [])
      else case mmap_result of
        None \<Rightarrow> (False, no_lock, [Mmap bytes])
      | Some ptr \<Rightarrow>
          (case lock_chunks mlock_ok bytes 0 0 of (ok, locked, calls) \<Rightarrow>
             if ok then (True, \<lparr> ml_ptr = Some ptr, ml_bytes = bytes \<rparr>, Mmap bytes # calls)
             else (False, no_lock,
                   Mmap bytes # calls @ (if locked \<noteq> 0 then [Munlock locked] else []) @ [Munmap bytes])))"

definition ssd_memory_lock_release :: "ssd_memory_lock \<Rightarrow> ssd_memory_lock \<times> vm_call list" where
  "ssd_memory_lock_release lock =
     (if ml_ptr lock = None \<or> ml_bytes lock = 0 then (lock, [])
      else (no_lock, [Munlock (ml_bytes lock), Munmap (ml_bytes lock)]))"

text \<open>
  The effect of the calls on the address range: the length mapped (zero for none) and the
  locked prefix. An \<open>mlock\<close> call is applied when it succeeded.
\<close>

fun vm_effect :: "(nat \<Rightarrow> nat \<Rightarrow> bool) \<Rightarrow> nat \<times> nat \<Rightarrow> vm_call list \<Rightarrow> (nat \<times> nat) option" where
  "vm_effect ok (mapped, locked) [] = Some (mapped, locked)"
| "vm_effect ok (mapped, locked) (Mmap n # cs) = (if mapped = 0 then vm_effect ok (n, 0) cs else None)"
| "vm_effect ok (mapped, locked) (Mlock off len # cs) =
     (if off = locked \<and> off + len \<le> mapped
      then vm_effect ok (mapped, if ok off len then locked + len else locked) cs else None)"
| "vm_effect ok (mapped, locked) (Munlock n # cs) =
     (if n = locked \<and> locked \<le> mapped then vm_effect ok (mapped, 0) cs else None)"
| "vm_effect ok (mapped, locked) (Munmap n # cs) =
     (if n = mapped \<and> locked = 0 then vm_effect ok (0, 0) cs else None)"

lemma vm_effect_append:
  "vm_effect ok s (xs @ ys) = Option.bind (vm_effect ok s xs) (\<lambda>t. vm_effect ok t ys)"
  by (induction ok s xs rule: vm_effect.induct) simp_all

lemma lock_chunks_effect:
  assumes "off = locked \<or> bytes \<le> off \<and> locked = bytes" "locked \<le> bytes"
  shows "\<exists>ok n calls. lock_chunks mlock_ok bytes off locked = (ok, n, calls)
    \<and> vm_effect mlock_ok (bytes, locked) calls = Some (bytes, n) \<and> n \<le> bytes \<and> (ok \<longrightarrow> n = bytes)"
  using assms
proof (induction mlock_ok bytes off locked rule: lock_chunks.induct)
  case (1 mlock_ok bytes off locked)
  show ?case
  proof (cases "off < bytes")
    case False
    then have r: "lock_chunks mlock_ok bytes off locked = (True, locked, [])"
      by (subst lock_chunks.simps) simp
    have "locked = bytes" using False 1(2,3) by auto
    then show ?thesis unfolding r by auto
  next
    case True
    let ?len = "min (bytes - off) CHUNK_BYTES"
    have off: "off = locked" using 1(2) True by auto
    show ?thesis
    proof (cases "mlock_ok off ?len")
      case False
      then have r: "lock_chunks mlock_ok bytes off locked = (False, locked, [Mlock off ?len])"
        using True by (subst lock_chunks.simps) (simp add: Let_def)
      have "off + ?len \<le> bytes" using True by simp
      then have "vm_effect mlock_ok (bytes, locked) [Mlock off ?len] = Some (bytes, locked)"
        using False off by simp
      then show ?thesis unfolding r using 1(3) by blast
    next
      case ok: True
      have next_ok: "off + CHUNK_BYTES = locked + ?len \<or> bytes \<le> off + CHUNK_BYTES \<and> locked + ?len = bytes"
        using off True by (auto simp: min_def)
      have le: "locked + ?len \<le> bytes" using off True by auto
      obtain b n calls where r: "lock_chunks mlock_ok bytes (off + CHUNK_BYTES) (locked + ?len) = (b, n, calls)"
        "vm_effect mlock_ok (bytes, locked + ?len) calls = Some (bytes, n)" "n \<le> bytes" "b \<longrightarrow> n = bytes"
        using 1(1) [OF True refl _ next_ok le] ok by auto
      have "lock_chunks mlock_ok bytes off locked = (b, n, Mlock off ?len # calls)"
        using True ok r(1) by (subst lock_chunks.simps) (simp add: Let_def)
      then show ?thesis using r off ok le by auto
    qed
  qed
qed

subsection \<open>Properties\<close>

lemma dec_len: "0 < n \<Longrightarrow> n < 10 ^ k \<Longrightarrow> length (dec n) \<le> k"
proof (induction k arbitrary: n)
  case (Suc k)
  show ?case
  proof (cases "n < 10")
    case True
    then show ?thesis by (simp add: dec.simps [of n])
  next
    case False
    then have "length (dec (n div 10)) \<le> k" using Suc.IH [of "n div 10"] Suc.prems by simp
    then show ?thesis using False by (simp add: dec.simps [of n])
  qed
qed simp

lemma gb_suffix_dec: "\<not> gb_suffix (dec n)"
proof
  assume "gb_suffix (dec n)"
  then have "\<not> isdigit (dec n ! (length (dec n) - 1))" "length (dec n) - 1 < length (dec n)"
    by (auto simp: gb_suffix_def simp del: One_nat_def)
  then show False using dec_digits [of n] by (simp add: list_all_length)
qed

lemma gb_suffix_append: "gb_suffix (dec n @ ''GB'')"
  using dec_not_Nil [of n] by (cases "dec n") (auto simp: gb_suffix_def nth_append)

text \<open>
  A budget of \<open>g\<close> GiB, with or without the \<open>GB\<close> suffix, is read as exactly
  \<open>g * 2 ^ 30\<close> bytes whenever that is a 64-bit value; and whatever the text, an accepted budget
  is a nonzero whole number of GiB below \<open>2 ^ 64\<close>: the multiplication never wraps.\<close>

lemma parse_gib_arg_exact:
  "(0 < g \<longrightarrow> g \<le> UINT64_MAX div GIB \<longrightarrow>
      parse_gib_arg (Some (dec g)) = Some (g * GIB) \<and> parse_gib_arg (Some (dec g @ ''GB'')) = Some (g * GIB))
   \<and> (parse_gib_arg arg = Some b \<longrightarrow> (\<exists>v. 0 < v \<and> b = v * GIB \<and> b < 2 ^ 64))"
proof (intro conjI impI)
  assume g: "0 < g" "g \<le> UINT64_MAX div GIB"
  have l: "length (dec g) < 32"
    using dec_len [of g 20] g by (simp add: UINT64_MAX_def GIB_def)
  have u: "strtoul (dec g) = (g, False, [])"
    using strtoul_dec [of "[]" g] g by (simp add: ULONG_MAX_def UINT64_MAX_def GIB_def)
  have w: "(g * GIB) mod 2 ^ 64 = g * GIB" using g by (simp add: UINT64_MAX_def GIB_def)
  show "parse_gib_arg (Some (dec g)) = Some (g * GIB)"
    using g l u w dec_digits [of g] gb_suffix_dec [of g] by (simp add: parse_gib_arg_def Let_def)
  show "parse_gib_arg (Some (dec g @ ''GB'')) = Some (g * GIB)"
    using g l u w dec_digits [of g] gb_suffix_append [of g] by (simp add: parse_gib_arg_def Let_def)
next
  assume "parse_gib_arg arg = Some b"
  then obtain v where v: "0 < v" "v \<le> UINT64_MAX div GIB" "b = (v * GIB) mod 2 ^ 64"
    by (auto simp: parse_gib_arg_def Let_def split: option.splits if_splits prod.splits)
  have "v * GIB < 2 ^ 64" using v(2) by (simp add: UINT64_MAX_def GIB_def)
  then show "\<exists>v. 0 < v \<and> b = v * GIB \<and> b < 2 ^ 64" using v by auto
qed

lemma ssd_auto_cache_percent_range:
  "50 \<le> ssd_auto_cache_percent env \<and> ssd_auto_cache_percent env \<le> 95"
  by (auto simp: ssd_auto_cache_percent_def split: option.splits prod.splits)

lemma plan_target_le:
  assumes "recommended \<le> UINT64_MAX div 95"
  shows "100 * plan_target recommended (ssd_auto_cache_percent env) \<le> 95 * recommended"
proof -
  define pct where "pct = ssd_auto_cache_percent env"
  have pct: "50 \<le> pct" "pct \<le> 95" using ssd_auto_cache_percent_range [of env] by (auto simp: pct_def)
  have "recommended * pct \<le> UINT64_MAX div 95 * 95"
    using assms pct(2) by (intro mult_mono) auto
  then have rp: "recommended * pct < 2 ^ 64" by (simp add: UINT64_MAX_def)
  have "UINT64_MAX div 95 \<le> UINT64_MAX div pct" using pct by (intro div_le_mono2) auto
  then have "\<not> recommended > UINT64_MAX div pct" using assms by simp
  then have "plan_target recommended pct = recommended * pct div 100"
    using rp by (simp add: plan_target_def)
  then have "100 * plan_target recommended pct \<le> recommended * pct" by simp
  also have "\<dots> \<le> recommended * 95" using pct(2) by simp
  finally show ?thesis by (simp add: pct_def)
qed

lemma plan_experts_range:
  fixes cache per_expert max_model :: nat
  assumes "per_expert \<noteq> 0"
  defines "e \<equiv> plan_experts cache per_expert max_model"
  shows "1 \<le> e" "e \<le> UINT32_MAX" "max_model \<noteq> 0 \<longrightarrow> e \<le> max_model"
    "per_expert \<le> cache \<longrightarrow> e * per_expert \<le> cache" "cache < per_expert \<longrightarrow> e = 1"
proof -
  define e1 where "e1 = (if cache div per_expert = 0 then 1 else cache div per_expert)"
  have e1: "e \<le> e1" "1 \<le> e" "e \<le> UINT32_MAX" "max_model \<noteq> 0 \<longrightarrow> e \<le> max_model"
    by (auto simp: e_def plan_experts_def Let_def e1_def UINT32_MAX_def)
  then show "1 \<le> e" "e \<le> UINT32_MAX" "max_model \<noteq> 0 \<longrightarrow> e \<le> max_model" by simp_all
  show "cache < per_expert \<longrightarrow> e = 1" using e1(1,2) by (auto simp: e1_def)
  have "e1 * per_expert \<le> cache" if "per_expert \<le> cache"
    using that assms(1) by (simp add: e1_def div_eq_0_iff)
  then show "per_expert \<le> cache \<longrightarrow> e * per_expert \<le> cache"
    using mult_le_mono1 [OF e1(1), of per_expert] by (meson le_trans)
qed

text \<open>
  The automatic plan never plans more than it has: whatever
  \<open>DS4_SSD_AUTO_CACHE_PCT\<close> holds, the target is at most 95% of the recommended memory (when
  that product is a 64-bit value), the cache is what the target leaves beside the non-routed
  weights, and the effective cache fits in it as soon as one expert does; the count stays
  within the model and 32 bits, at least one expert is kept, and no product wraps.\<close>

lemma ssd_auto_cache_plan_bounds:
  assumes "ssd_auto_cache_plan env recommended non_routed per_expert max_model = Some plan"
    "recommended \<le> UINT64_MAX div 95" "per_expert < 2 ^ 64"
  shows "100 * cp_model_target_bytes plan \<le> 95 * recommended
    \<and> cp_cache_bytes plan = cp_model_target_bytes plan - non_routed
    \<and> 1 \<le> cp_cache_experts plan \<and> cp_cache_experts plan \<le> UINT32_MAX
    \<and> (max_model \<noteq> 0 \<longrightarrow> cp_cache_experts plan \<le> max_model)
    \<and> cp_effective_cache_bytes plan = cp_cache_experts plan * per_expert
    \<and> (per_expert \<le> cp_cache_bytes plan \<longrightarrow> cp_effective_cache_bytes plan \<le> cp_cache_bytes plan)"
proof -
  define target where "target = plan_target recommended (ssd_auto_cache_percent env)"
  define cache where "cache = target - non_routed"
  define e where "e = plan_experts cache per_expert max_model"
  have cc: "(if target > non_routed then target - non_routed else 0) = cache" by (simp add: cache_def)
  have "\<not> (recommended = 0 \<or> per_expert = 0)"
    using assms(1) unfolding ssd_auto_cache_plan_def by (metis option.distinct(1))
  then have pos: "recommended \<noteq> 0" "per_expert \<noteq> 0" by simp_all
  have t95: "100 * target \<le> 95 * recommended"
    unfolding target_def by (rule plan_target_le [OF assms(2)])
  have e: "1 \<le> e" "e \<le> UINT32_MAX" "max_model \<noteq> 0 \<longrightarrow> e \<le> max_model"
    "per_expert \<le> cache \<longrightarrow> e * per_expert \<le> cache" "cache < per_expert \<longrightarrow> e = 1"
    unfolding e_def using plan_experts_range [OF pos(2)] by simp_all
  have em: "e mod 2 ^ 32 = e" "e \<noteq> 0" using e(1,2) by (simp_all add: UINT32_MAX_def)
  have plan: "plan = \<lparr> cp_model_target_bytes = target, cp_cache_bytes = cache,
      cp_effective_cache_bytes = (e * per_expert) mod 2 ^ 64, cp_cache_experts = e \<rparr>"
    using assms(1) pos unfolding ssd_auto_cache_plan_def Let_def target_def [symmetric] cc
      e_def [symmetric] em(1) using em(2) by simp
  have "cache < 2 ^ 64" using t95 assms(2) by (simp add: cache_def UINT64_MAX_def)
  then have "e * per_expert < 2 ^ 64"
    using e(4,5) assms(3) by (cases "per_expert \<le> cache") auto
  then show ?thesis using t95 e by (simp add: plan cache_def)
qed

text \<open>
  Property C24. The memory lock leaks nothing: the chunks tile the mapping in order, a failed
  acquisition has unlocked what it locked and unmapped the region before it returns, and an
  acquisition followed by the release ends with nothing mapped and nothing locked, for every
  outcome of \<open>mmap\<close> and of each \<open>mlock\<close>.\<close>

theorem ssd_memory_lock_no_leak:
  "(case ssd_memory_lock_acquire mmap_result mlock_ok bytes of (ok, lock, calls) \<Rightarrow>
     (if ok then vm_effect mlock_ok (0, 0) calls = Some (ml_bytes lock, ml_bytes lock) \<and> ml_bytes lock = bytes
      else lock = no_lock \<and> (mmap_result = None \<or> vm_effect mlock_ok (0, 0) calls = Some (0, 0)))
     \<and> (if ok then vm_effect mlock_ok (0, 0) (calls @ snd (ssd_memory_lock_release lock)) = Some (0, 0)
        else snd (ssd_memory_lock_release lock) = []))"
proof (cases "bytes = 0 \<or> mmap_result = None")
  case True
  then show ?thesis
    by (auto simp: ssd_memory_lock_acquire_def ssd_memory_lock_release_def no_lock_def)
next
  case False
  then obtain ptr where p: "mmap_result = Some ptr" "bytes \<noteq> 0" by auto
  obtain ok n calls where r: "lock_chunks mlock_ok bytes 0 0 = (ok, n, calls)"
    "vm_effect mlock_ok (bytes, 0) calls = Some (bytes, n)" "n \<le> bytes" "ok \<longrightarrow> n = bytes"
    using lock_chunks_effect [of 0 0 bytes mlock_ok] by auto
  show ?thesis
    using p r by (auto simp: ssd_memory_lock_acquire_def ssd_memory_lock_release_def no_lock_def
        vm_effect_append)
qed

end
