(* ===== verification/Sha1.thy ===== *)
theory Sha1
  imports Prelude
begin

text \<open>
  The streaming SHA-1 of the checkpoint store (\<open>sha1_init\<close>, \<open>sha1_update\<close>, \<open>sha1_final\<close> and
  \<open>ds4_kvstore_sha1_bytes_hex\<close> in \<open>ds4_kvstore.c\<close>), with its 64-byte block buffer, and the proof
  that it computes the one-shot hash of the padded message, however the input is cut.
\<close>

type_synonym sha1_state = "u32 \<times> u32 \<times> u32 \<times> u32 \<times> u32"

record sha1_ctx =
  sx_h :: sha1_state
  sx_bytes :: u64
  sx_block :: "byte list"
  sx_used :: nat

definition rol32 :: "u32 \<Rightarrow> nat \<Rightarrow> u32" where
  "rol32 v n = push_bit n v OR drop_bit (32 - n) v"

definition be_word :: "byte list \<Rightarrow> nat \<Rightarrow> u32" where
  "be_word block i = push_bit 24 (ucast (block ! (i * 4))) OR push_bit 16 (ucast (block ! (i * 4 + 1)))
     OR push_bit 8 (ucast (block ! (i * 4 + 2))) OR ucast (block ! (i * 4 + 3))"

text \<open>The schedule \<open>w[80]\<close>, extended word by word.\<close>

definition sha1_extend :: "u32 list \<Rightarrow> nat \<Rightarrow> u32 list" where
  "sha1_extend w i = w @ [rol32 (w ! (i - 3) XOR w ! (i - 8) XOR w ! (i - 14) XOR w ! (i - 16)) 1]"

definition sha1_schedule :: "byte list \<Rightarrow> u32 list" where
  "sha1_schedule block = foldl sha1_extend (map (be_word block) [0..<16]) [16..<80]"

definition sha1_round :: "u32 list \<Rightarrow> sha1_state \<Rightarrow> nat \<Rightarrow> sha1_state" where
  "sha1_round w s i = (case s of (a, b, cc, d, e) \<Rightarrow>
     let f = (if i < 20 then (b AND cc) OR (NOT b AND d)
              else if i < 40 then b XOR cc XOR d
              else if i < 60 then (b AND cc) OR (b AND d) OR (cc AND d)
              else b XOR cc XOR d);
         k = (if i < 20 then 0x5a827999 else if i < 40 then 0x6ed9eba1
              else if i < 60 then 0x8f1bbcdc else 0xca62c1d6)
     in (rol32 a 5 + f + e + k + w ! i, a, rol32 b 30, cc, d))"

definition sha1_transform :: "sha1_state \<Rightarrow> byte list \<Rightarrow> sha1_state" where
  "sha1_transform h block =
     (case h of (h0, h1, h2, h3, h4) \<Rightarrow>
      case foldl (sha1_round (sha1_schedule block)) h [0..<80] of (a, b, cc, d, e) \<Rightarrow>
        (h0 + a, h1 + b, h2 + cc, h3 + d, h4 + e))"

definition sha1_h0 :: sha1_state where
  "sha1_h0 = (0x67452301, 0xefcdab89, 0x98badcfe, 0x10325476, 0xc3d2e1f0)"

text \<open>\<open>sha1_init\<close> leaves the block unset; its contents are never read before they are written.\<close>

definition sha1_init :: "byte list \<Rightarrow> sha1_ctx" where
  "sha1_init garbage = \<lparr> sx_h = sha1_h0, sx_bytes = 0, sx_block = garbage, sx_used = 0 \<rparr>"

text \<open>One pass of the copy loop: fill the block and transform it when it is full.\<close>

definition sha1_fill :: "sha1_ctx \<Rightarrow> byte list \<Rightarrow> nat \<Rightarrow> sha1_ctx" where
  "sha1_fill c p n =
     (let c1 = c\<lparr> sx_block := take (sx_used c) (sx_block c) @ take n p @ drop (sx_used c + n) (sx_block c),
                  sx_used := sx_used c + n \<rparr>
      in if sx_used c1 = 64 then c1\<lparr> sx_h := sha1_transform (sx_h c1) (sx_block c1), sx_used := 0 \<rparr> else c1)"

text \<open>
  The loop of \<open>sha1_update\<close>. \<open>sx_used\<close> is below 64 between iterations, so the second disjunct of
  the exit test is never the reason to stop; it makes the recursion total.
\<close>

function sha1_update_loop :: "sha1_ctx \<Rightarrow> byte list \<Rightarrow> sha1_ctx" where
  "sha1_update_loop c p =
     (if p = [] \<or> sx_used c \<ge> 64 then c
      else let n = min (64 - sx_used c) (length p) in sha1_update_loop (sha1_fill c p n) (drop n p))"
  by pat_completeness auto

termination by (relation "measure (\<lambda>(_, p). length p)") auto

declare sha1_update_loop.simps [simp del]

definition sha1_update :: "sha1_ctx \<Rightarrow> byte list \<Rightarrow> sha1_ctx" where
  "sha1_update c p = sha1_update_loop (c\<lparr> sx_bytes := sx_bytes c + of_nat (length p) \<rparr>) p"

lemma sha1_fill_used:
  "sx_used (sha1_fill c p n) = (if sx_used c + n = 64 then 0 else sx_used c + n)"
  by (simp add: sha1_fill_def Let_def)

lemma sha1_update_one_used:
  "sx_used c < 64 \<Longrightarrow> sx_used (sha1_update c [b]) = (if sx_used c = 63 then 0 else Suc (sx_used c))"
proof -
  let ?c = "c\<lparr> sx_bytes := sx_bytes c + of_nat (length [b]) \<rparr>"
  assume u: "sx_used c < 64"
  have mn: "min (64 - sx_used c) 1 = 1" using u by simp
  have "sha1_update c [b] = sha1_update_loop (sha1_fill ?c [b] 1) []"
    unfolding sha1_update_def using u mn by (subst sha1_update_loop.simps) (simp add: Let_def)
  also have "\<dots> = sha1_fill ?c [b] 1" by (subst sha1_update_loop.simps) simp
  finally show ?thesis by (simp add: sha1_fill_used)
qed

text \<open>The zero padding, \<open>while (c->used != 56) sha1_update(c, &zero, 1)\<close>.\<close>

function sha1_pad_zero :: "sha1_ctx \<Rightarrow> sha1_ctx" where
  "sha1_pad_zero c = (if sx_used c = 56 \<or> sx_used c \<ge> 64 then c else sha1_pad_zero (sha1_update c [0]))"
  by pat_completeness auto

termination
  by (relation "measure (\<lambda>c. if sx_used c \<le> 56 then 56 - sx_used c else 121 - sx_used c)")
    (auto simp: sha1_update_one_used)

declare sha1_pad_zero.simps [simp del]

definition be_bytes64 :: "u64 \<Rightarrow> byte list" where
  "be_bytes64 v = map (\<lambda>i. ucast (drop_bit (8 * (7 - i)) v)) [0..<8]"

definition be_bytes32 :: "u32 \<Rightarrow> byte list" where
  "be_bytes32 v = [ucast (drop_bit 24 v), ucast (drop_bit 16 v), ucast (drop_bit 8 v), ucast v]"

definition sha1_digest :: "sha1_state \<Rightarrow> byte list" where
  "sha1_digest h = (case h of (h0, h1, h2, h3, h4) \<Rightarrow>
     be_bytes32 h0 @ be_bytes32 h1 @ be_bytes32 h2 @ be_bytes32 h3 @ be_bytes32 h4)"

definition sha1_final :: "sha1_ctx \<Rightarrow> byte list" where
  "sha1_final c =
     (let bits = sx_bytes c * 8;
          c1 = sha1_pad_zero (sha1_update c [0x80]);
          c2 = sha1_update c1 (be_bytes64 bits)
      in sha1_digest (sx_h c2))"

definition hex_char :: "nat \<Rightarrow> char" where
  "hex_char n = ''0123456789abcdef'' ! n"

definition hex20 :: "byte list \<Rightarrow> string" where
  "hex20 bs = concat (map (\<lambda>b. [hex_char (unat (drop_bit 4 b)), hex_char (unat (b AND 15))]) bs)"

definition sha1_bytes_hex :: "byte list \<Rightarrow> string" where
  "sha1_bytes_hex p = hex20 (sha1_final (sha1_update (sha1_init (replicate 64 0)) p))"

subsection \<open>The hash as a function of the whole message\<close>

function sha1_absorb :: "sha1_state \<Rightarrow> byte list \<Rightarrow> sha1_state \<times> byte list" where
  "sha1_absorb h m =
     (if length m < 64 then (h, m) else sha1_absorb (sha1_transform h (take 64 m)) (drop 64 m))"
  by pat_completeness auto

termination by (relation "measure (\<lambda>(_, m). length m)") auto

declare sha1_absorb.simps [simp del]

text \<open>Padding of the standard: a one bit, zeros up to 56 modulo 64, the bit length in 64 bits.\<close>

definition sha1_padding :: "byte list \<Rightarrow> byte list" where
  "sha1_padding m = m @ [0x80] @ replicate ((119 - length m mod 64) mod 64) 0
     @ be_bytes64 (of_nat (length m) * 8)"

definition sha1_hash :: "byte list \<Rightarrow> byte list" where
  "sha1_hash m = sha1_digest (fst (sha1_absorb sha1_h0 (sha1_padding m)))"

lemma sha1_absorb_short [simp]: "length m < 64 \<Longrightarrow> sha1_absorb h m = (h, m)"
  by (simp add: sha1_absorb.simps)

lemma sha1_absorb_append:
  "sha1_absorb h (m @ p) = (case sha1_absorb h m of (h', r) \<Rightarrow> sha1_absorb h' (r @ p))"
proof (induction h m rule: sha1_absorb.induct)
  case (1 h m)
  show ?case
  proof (cases "length m < 64")
    case True
    then show ?thesis by simp
  next
    case False
    have "sha1_absorb h (m @ p) = sha1_absorb (sha1_transform h (take 64 m)) (drop 64 m @ p)"
      using False by (subst sha1_absorb.simps) simp
    also have "\<dots> = (case sha1_absorb h m of (h', r) \<Rightarrow> sha1_absorb h' (r @ p))"
      using 1 [OF False] False by (subst (3) sha1_absorb.simps) simp
    finally show ?thesis .
  qed
qed

lemma sha1_absorb_rest: "length (snd (sha1_absorb h m)) = length m mod 64"
proof (induction h m rule: sha1_absorb.induct)
  case (1 h m)
  then show ?case
    by (cases "length m < 64") (simp_all add: sha1_absorb.simps [of h m] le_mod_geq)
qed

text \<open>The context holds the state after the message \<open>m\<close>.\<close>

definition sha1_at :: "sha1_ctx \<Rightarrow> byte list \<Rightarrow> bool" where
  "sha1_at c m \<longleftrightarrow>
     sha1_absorb sha1_h0 m = (sx_h c, take (sx_used c) (sx_block c))
     \<and> sx_used c < 64 \<and> length (sx_block c) = 64"

lemma sha1_at_used: "sha1_at c m \<Longrightarrow> sx_used c = length m mod 64"
  using sha1_absorb_rest [of sha1_h0 m] by (auto simp: sha1_at_def)

lemma sha1_at_fill:
  assumes "sha1_at c m" "n \<le> length p" "n \<le> 64 - sx_used c"
  shows "sha1_at (sha1_fill c p n) (m @ take n p)"
proof -
  define u where "u = sx_used c"
  define B where "B = take u (sx_block c) @ take n p @ drop (u + n) (sx_block c)"
  have at: "sha1_absorb sha1_h0 m = (sx_h c, take u (sx_block c))" "u < 64" "length (sx_block c) = 64"
    using assms(1) by (auto simp: sha1_at_def u_def)
  have lB: "length B = 64" using at assms(2,3) by (simp add: B_def u_def [symmetric])
  have tB: "take (u + n) B = take u (sx_block c) @ take n p"
    using at assms(2,3) by (simp add: B_def)
  have ab: "sha1_absorb sha1_h0 (m @ take n p) = sha1_absorb (sx_h c) (take (u + n) B)"
    unfolding tB by (simp only: sha1_absorb_append [of sha1_h0 m] at(1) prod.case)
  have fill: "sha1_fill c p n =
      (if u + n = 64 then c\<lparr> sx_block := B, sx_used := 0, sx_h := sha1_transform (sx_h c) B \<rparr>
       else c\<lparr> sx_block := B, sx_used := u + n \<rparr>)"
    unfolding sha1_fill_def Let_def u_def [symmetric] B_def [symmetric] by simp
  show ?thesis
  proof (cases "u + n = 64")
    case True
    have "take (u + n) B = B" using lB True by simp
    then have "sha1_absorb (sx_h c) (take (u + n) B) = (sha1_transform (sx_h c) B, [])"
      using lB by (subst sha1_absorb.simps) simp
    then show ?thesis
      using ab True lB unfolding fill by (simp add: sha1_at_def)
  next
    case False
    then have lt: "u + n < 64" using assms(3) at(2) by (simp add: u_def [symmetric])
    then have "sha1_absorb (sx_h c) (take (u + n) B) = (sx_h c, take (u + n) B)"
      using lB by (intro sha1_absorb_short) simp
    then show ?thesis
      using ab lt lB False unfolding fill by (simp add: sha1_at_def)
  qed
qed

lemma sha1_at_update_loop: "sha1_at c m \<Longrightarrow> sha1_at (sha1_update_loop c p) (m @ p)"
proof (induction c p arbitrary: m rule: sha1_update_loop.induct)
  case (1 c p)
  have u: "sx_used c < 64" using 1(2) by (simp add: sha1_at_def)
  show ?case
  proof (cases "p = []")
    case True
    then show ?thesis using 1(2) by (simp add: sha1_update_loop.simps)
  next
    case False
    let ?n = "min (64 - sx_used c) (length p)"
    have f: "sha1_at (sha1_fill c p ?n) (m @ take ?n p)"
      by (rule sha1_at_fill [OF 1(2)]) simp_all
    have "sha1_update_loop c p = sha1_update_loop (sha1_fill c p ?n) (drop ?n p)"
      using False u by (subst sha1_update_loop.simps) (simp add: Let_def)
    then show ?thesis using 1(1) [OF _ refl f] False u by simp
  qed
qed

lemma sha1_at_bytes [simp]: "sha1_at (c\<lparr> sx_bytes := v \<rparr>) m = sha1_at c m"
  by (simp add: sha1_at_def)

lemma sha1_at_update: "sha1_at c m \<Longrightarrow> sha1_at (sha1_update c p) (m @ p)"
  unfolding sha1_update_def by (rule sha1_at_update_loop) simp

lemma sha1_fill_bytes: "sx_bytes (sha1_fill c p n) = sx_bytes c"
  by (simp add: sha1_fill_def Let_def)

lemma sha1_update_loop_bytes: "sx_bytes (sha1_update_loop c p) = sx_bytes c"
proof (induction c p rule: sha1_update_loop.induct)
  case (1 c p)
  then show ?case by (subst sha1_update_loop.simps) (simp add: Let_def sha1_fill_bytes)
qed

lemma sha1_update_bytes: "sx_bytes (sha1_update c p) = sx_bytes c + of_nat (length p)"
  by (simp add: sha1_update_def sha1_update_loop_bytes)

lemma pad_count_step:
  assumes "a < 64" "a \<noteq> 56"
  shows "(120 - a) mod 64 = Suc ((120 - Suc a mod 64) mod (64 :: nat))"
proof (cases "a < 56")
  case True
  then show ?thesis by (simp add: le_mod_geq)
next
  case False
  then show ?thesis using assms by (cases "a = 63") simp_all
qed

lemma sha1_at_pad_zero:
  "sha1_at c m \<Longrightarrow> sha1_at (sha1_pad_zero c) (m @ replicate ((56 + 64 - length m mod 64) mod 64) 0)"
proof (induction c arbitrary: m rule: sha1_pad_zero.induct)
  case (1 c)
  have u: "sx_used c = length m mod 64" "sx_used c < 64"
    using sha1_at_used [OF 1(2)] 1(2) by (simp_all add: sha1_at_def)
  show ?case
  proof (cases "sx_used c = 56")
    case True
    then show ?thesis using 1(2) u by (simp add: sha1_pad_zero.simps)
  next
    case False
    have g: "\<not> (sx_used c = 56 \<or> sx_used c \<ge> 64)" using False u by simp
    let ?k = "\<lambda>m :: byte list. (56 + 64 - length m mod 64) mod 64"
    have k: "?k m = Suc (?k (m @ [0]))"
      using pad_count_step [of "length m mod 64"] False u by (simp add: mod_Suc_eq)
    have "sha1_at (sha1_pad_zero (sha1_update c [0])) ((m @ [0]) @ replicate (?k (m @ [0])) 0)"
      by (rule 1(1) [OF g sha1_at_update [OF 1(2)]])
    then show ?thesis using g k by (subst sha1_pad_zero.simps) simp
  qed
qed

lemma sha1_final_at:
  assumes "sha1_at c m" "sx_bytes c = of_nat (length m)"
  shows "sha1_final c = sha1_hash m"
proof -
  let ?c1 = "sha1_pad_zero (sha1_update c [0x80])"
  let ?z = "replicate ((119 - length m mod 64) mod 64) 0 :: byte list"
  have eq: "(56 + 64 - length (m @ [0x80 :: byte]) mod 64) mod 64 = (119 - length m mod 64) mod 64"
    by (auto simp: mod_Suc)
  have "sha1_at ?c1 ((m @ [0x80]) @ ?z)"
    using sha1_at_pad_zero [OF sha1_at_update [OF assms(1), of "[0x80]"]] unfolding eq by simp
  then have "sha1_at (sha1_update ?c1 (be_bytes64 (sx_bytes c * 8))) (sha1_padding m)"
    using sha1_at_update [of ?c1 "(m @ [0x80]) @ ?z" "be_bytes64 (sx_bytes c * 8)"]
    by (simp add: sha1_padding_def assms(2))
  then show ?thesis
    by (simp add: sha1_final_def sha1_hash_def Let_def sha1_at_def)
qed

lemma sha1_init_at: "length g = 64 \<Longrightarrow> sha1_at (sha1_init g) []"
  by (simp add: sha1_at_def sha1_init_def)

lemma sha1_updates_at:
  "sha1_at c m \<Longrightarrow> sx_bytes c = of_nat (length m) \<Longrightarrow>
   sha1_at (foldl sha1_update c ps) (m @ concat ps)
   \<and> sx_bytes (foldl sha1_update c ps) = of_nat (length (m @ concat ps))"
proof (induction ps arbitrary: c m)
  case (Cons p ps)
  show ?case
    using Cons.IH [OF sha1_at_update [OF Cons.prems(1), of p]] Cons.prems(2)
    by (simp add: sha1_update_bytes)
qed simp

lemma sha1_bytes_hex_eq: "sha1_bytes_hex p = hex20 (sha1_hash p)"
proof -
  have "sha1_at (sha1_update (sha1_init (replicate 64 0)) p) ([] @ p)"
    by (rule sha1_at_update [OF sha1_init_at]) simp
  then show ?thesis
    unfolding sha1_bytes_hex_def
    by (subst sha1_final_at) (simp_all add: sha1_update_bytes sha1_init_def)
qed

lemma sha1_hash_length: "length (sha1_hash m) = 20"
  by (simp add: sha1_hash_def sha1_digest_def be_bytes32_def split: prod.split)

lemma hex20_length: "length (hex20 bs) = 2 * length bs"
  by (induction bs) (simp_all add: hex20_def)

lemma sha1_bytes_hex_length: "length (sha1_bytes_hex p) = 40"
  by (simp add: sha1_bytes_hex_eq hex20_length sha1_hash_length)

subsection \<open>Properties\<close>

text \<open>
  Property C25. The streaming hash is the hash of the standard: for any cut of the input into
  updates, and whatever the block buffer held before, \<open>sha1_final\<close> returns the digest of the
  padded concatenation, the length counter reduced modulo \<open>2 ^ 64\<close> included.\<close>

theorem sha1_streaming_is_one_shot:
  assumes "length garbage = 64"
  shows "sha1_final (foldl sha1_update (sha1_init garbage) chunks) = sha1_hash (concat chunks)"
proof -
  have "sha1_at (foldl sha1_update (sha1_init garbage) chunks) ([] @ concat chunks)
     \<and> sx_bytes (foldl sha1_update (sha1_init garbage) chunks) = of_nat (length ([] @ concat chunks))"
    by (rule sha1_updates_at [OF sha1_init_at [OF assms]]) (simp add: sha1_init_def)
  then show ?thesis using sha1_final_at by auto
qed

theorem sha1_streaming_is_one_shot_witness:
  "sha1_final (foldl sha1_update (sha1_init (replicate 64 7)) [[1, 2], [], [3]]) = sha1_hash [1, 2, 3]"
  using sha1_streaming_is_one_shot [of "replicate 64 7" "[[1, 2], [], [3]]"] by simp

end
