(* ===== verification/Kv_Format.thy ===== *)
theory Kv_Format
  imports Sha1 CLib "HOL-Library.AList"
begin

text \<open>
  The durable format of the checkpoint store, \<open>ds4_kvstore.c\<close>: little-endian fields, the fixed
  48-byte header, file names made of the hash of the rendered text, the validation of a file
  and the in-place update of its header. The disk is an association list from paths to
  contents, in the order \<open>readdir\<close> returns them; a \<open>stat\<close> size is the length of the contents.
\<close>

definition FIXED_HEADER :: nat where "FIXED_HEADER = 48"

definition REASON_UNKNOWN :: byte where "REASON_UNKNOWN = 0"
definition REASON_COLD :: byte where "REASON_COLD = 1"
definition REASON_CONTINUED :: byte where "REASON_CONTINUED = 2"
definition REASON_EVICT :: byte where "REASON_EVICT = 3"
definition REASON_SHUTDOWN :: byte where "REASON_SHUTDOWN = 4"
definition REASON_AGENT_SYSTEM :: byte where "REASON_AGENT_SYSTEM = 5"
definition REASON_AGENT_SESSION :: byte where "REASON_AGENT_SESSION = 6"

definition EXT_RESPONSES_VISIBLE :: byte where "EXT_RESPONSES_VISIBLE = 2"
definition EXT_THINKING_VISIBLE :: byte where "EXT_THINKING_VISIBLE = 4"

definition kv_reason_code :: "string option \<Rightarrow> byte" where
  "kv_reason_code reason =
     (case reason of None \<Rightarrow> REASON_UNKNOWN
      | Some r \<Rightarrow>
          if r = ''cold'' then REASON_COLD
          else if r = ''continued'' then REASON_CONTINUED
          else if r = ''evict'' then REASON_EVICT
          else if r = ''shutdown'' then REASON_SHUTDOWN
          else if r = ''agent-system'' then REASON_AGENT_SYSTEM
          else if r = ''agent-session'' then REASON_AGENT_SESSION
          else REASON_UNKNOWN)"

definition kv_key_kind :: "byte \<Rightarrow> string" where
  "kv_key_kind ext_flags =
     (if ext_flags AND EXT_RESPONSES_VISIBLE \<noteq> 0 then ''responses-visible''
      else if ext_flags AND EXT_THINKING_VISIBLE \<noteq> 0 then ''thinking-visible''
      else ''token-text'')"

subsection \<open>Little-endian fields\<close>

definition le_put32 :: "u32 \<Rightarrow> byte list" where
  "le_put32 v = [ucast v, ucast (drop_bit 8 v), ucast (drop_bit 16 v), ucast (drop_bit 24 v)]"

definition le_put64 :: "u64 \<Rightarrow> byte list" where
  "le_put64 v = map (\<lambda>i. ucast (drop_bit (8 * i) v)) [0..<8]"

definition le_get32 :: "byte list \<Rightarrow> u32" where
  "le_get32 p = ucast (p ! 0) OR push_bit 8 (ucast (p ! 1)) OR push_bit 16 (ucast (p ! 2))
     OR push_bit 24 (ucast (p ! 3))"

definition le_get64 :: "byte list \<Rightarrow> u64" where
  "le_get64 p = foldl (\<lambda>v i. push_bit 8 v OR ucast (p ! i)) 0 [7, 6, 5, 4, 3, 2, 1, 0]"

lemma le_put32_length [simp]: "length (le_put32 v) = 4"
  by (simp add: le_put32_def)

lemma le_put64_length [simp]: "length (le_put64 v) = 8"
  by (simp add: le_put64_def)

lemma upt_8: "[0..<8] = [0, 1, 2, 3, 4, 5, 6, 7]"
  by (simp add: upt_rec)

lemma le_get32_put32: "le_get32 (le_put32 v @ r) = v"
proof (rule bit_word_eqI)
  fix n assume "n < LENGTH(32)"
  then show "bit (le_get32 (le_put32 v @ r)) n = bit v n"
    by (cases "n < 8"; cases "n < 16"; cases "n < 24")
      (auto simp: le_get32_def le_put32_def bit_simps)
qed

lemma le_get64_put64: "le_get64 (le_put64 v @ r) = v"
proof -
  have step: "push_bit 8 (drop_bit (8 + k) v) OR ucast (ucast (drop_bit k v) :: byte) = drop_bit k v" for k
    using u64_low_byte [of "drop_bit k v"] by simp
  have top: "drop_bit 64 v = 0" by (rule bit_word_eqI) (simp add: bit_simps)
  have "le_get64 (le_put64 v @ r) = foldl (\<lambda>a i. push_bit 8 a OR ucast (ucast (drop_bit (8 * i) v) :: byte))
      (drop_bit 64 v) [7, 6, 5, 4, 3, 2, 1, 0]"
    unfolding le_get64_def le_put64_def upt_8 top by (simp add: nth_append)
  also have "\<dots> = v"
    using step [of 56] step [of 48] step [of 40] step [of 32] step [of 24] step [of 16] step [of 8] step [of 0]
    by simp
  finally show ?thesis .
qed

subsection \<open>The header\<close>

record kv_entry =
  ke_sha :: string
  ke_path :: string
  ke_quant_bits :: byte
  ke_model_id :: byte
  ke_reason :: byte
  ke_tokens :: u32
  ke_hits :: u32
  ke_ctx_size :: u32
  ke_ext_flags :: byte
  ke_created_at :: u64
  ke_last_used :: u64
  ke_payload_bytes :: u64
  ke_text_bytes :: u64
  ke_file_size :: u64

definition kv_fill_header ::
  "byte \<Rightarrow> byte \<Rightarrow> byte \<Rightarrow> byte \<Rightarrow> u32 \<Rightarrow> u32 \<Rightarrow> u32 \<Rightarrow> u64 \<Rightarrow> u64 \<Rightarrow> u64 \<Rightarrow> byte list" where
  "kv_fill_header model_id quant_bits reason ext_flags tokens hits ctx_size created_at last_used payload =
     [75, 86, 67, 1, quant_bits, reason, ext_flags, model_id]
     @ le_put32 tokens @ le_put32 hits @ le_put32 ctx_size
     @ [2, 0, 0, 0]
     @ le_put64 created_at @ le_put64 last_used @ le_put64 payload"

text \<open>
  \<open>ds4_kvstore_read_header\<close> on a file opened at its start: the entry, with the fields a header
  does not carry zeroed, and the text length; \<open>None\<close> is the refusal.
\<close>

definition kv_header_entry :: "byte list \<Rightarrow> u32 \<Rightarrow> kv_entry" where
  "kv_header_entry h text_bytes =
     \<lparr> ke_sha = [], ke_path = [], ke_quant_bits = h ! 4, ke_model_id = h ! 7,
       ke_reason = (if h ! 5 \<le> REASON_AGENT_SESSION then h ! 5 else REASON_UNKNOWN),
       ke_tokens = le_get32 (drop 8 h), ke_hits = le_get32 (drop 12 h),
       ke_ctx_size = le_get32 (drop 16 h), ke_ext_flags = h ! 6,
       ke_created_at = le_get64 (drop 24 h), ke_last_used = le_get64 (drop 32 h),
       ke_payload_bytes = le_get64 (drop 40 h),
       ke_text_bytes = ucast text_bytes, ke_file_size = 0 \<rparr>"

definition kv_header_magic :: "byte list \<Rightarrow> bool" where
  "kv_header_magic h \<longleftrightarrow> h ! 0 = 75 \<and> h ! 1 = 86 \<and> h ! 2 = 67 \<and> h ! 3 = 1 \<and> h ! 20 = 2"

definition kv_read_header :: "byte list \<Rightarrow> (kv_entry \<times> u32) option" where
  "kv_read_header f =
     (let h = take FIXED_HEADER f; tb = take 4 (drop FIXED_HEADER f) in
      if length h \<noteq> FIXED_HEADER \<or> \<not> kv_header_magic h \<or> length tb \<noteq> 4 then None
      else let e = kv_header_entry h (le_get32 tb) in
        if ke_tokens e \<noteq> 0 \<and> (ke_quant_bits e = 2 \<or> ke_quant_bits e = 4)
        then Some (e, le_get32 tb) else None)"

subsection \<open>Names and paths\<close>

definition isxdigit :: "char \<Rightarrow> bool" where
  "isxdigit c = (let n = (of_char c :: nat) in
     (48 \<le> n \<and> n \<le> 57) \<or> (65 \<le> n \<and> n \<le> 70) \<or> (97 \<le> n \<and> n \<le> 102))"

definition tolower :: "char \<Rightarrow> char" where
  "tolower c = (let n = (of_char c :: nat) in if 65 \<le> n \<and> n \<le> 90 then char_of (n + 32) else c)"

definition kv_sha_hex_name :: "string \<Rightarrow> string option" where
  "kv_sha_hex_name name =
     (if length name \<noteq> 43 \<or> drop 40 name \<noteq> ''.kv'' then None
      else if \<not> list_all isxdigit (take 40 name) then None
      else Some (map tolower (take 40 name)))"

definition kv_path_join :: "string \<Rightarrow> string \<Rightarrow> string" where
  "kv_path_join dir name =
     (if dir = [] \<or> last dir \<noteq> CHR ''/'' then dir @ ''/'' @ name else dir @ name)"

definition kv_path_for_sha :: "string \<Rightarrow> string \<Rightarrow> string" where
  "kv_path_for_sha dir sha = kv_path_join dir (sha @ ''.kv'')"

subsection \<open>Files\<close>

type_synonym disk = "(string \<times> byte list) list"

text \<open>
  \<open>ds4_kvstore_read_entry_file\<close>: sizes are 64-bit values, and the sum is guarded before it is
  formed.
\<close>

definition kv_read_entry_file :: "disk \<Rightarrow> string \<Rightarrow> string \<Rightarrow> kv_entry option" where
  "kv_read_entry_file d path sha =
     (case map_of d path of None \<Rightarrow> None
      | Some f \<Rightarrow>
          if length f < FIXED_HEADER + 4 then None
          else (case kv_read_header f of None \<Rightarrow> None
            | Some (e, tb) \<Rightarrow>
                let fixed = FIXED_HEADER + 4; text = unat tb; payload = unat (ke_payload_bytes e) in
                if UINT64_MAX - fixed < text \<or> UINT64_MAX - fixed - text < payload then None
                else if length f mod 2 ^ 64 < (fixed + text + payload) mod 2 ^ 64 then None
                else Some (e\<lparr> ke_sha := sha, ke_path := path, ke_file_size := of_nat (length f) \<rparr>)))"

definition write_at_start :: "byte list \<Rightarrow> byte list \<Rightarrow> byte list" where
  "write_at_start h f = h @ drop (length h) f"

text \<open>\<open>ds4_kvstore_touch_file\<close>; \<open>can_open\<close> and \<open>can_write\<close> are the outcomes of the calls on the file.\<close>

definition kv_touch_file :: "bool \<Rightarrow> bool \<Rightarrow> u64 \<Rightarrow> disk \<Rightarrow> string \<Rightarrow> u32 \<Rightarrow> bool \<times> disk" where
  "kv_touch_file can_open can_write now d path hits =
     (case map_of d path of
        None \<Rightarrow> (False, d)
      | Some f \<Rightarrow>
          if \<not> can_open then (False, d)
          else (case kv_read_header f of None \<Rightarrow> (False, d)
            | Some (e, tb) \<Rightarrow>
                let h = kv_fill_header (ke_model_id e) (ke_quant_bits e) (ke_reason e) (ke_ext_flags e)
                          (ke_tokens e) hits (ke_ctx_size e) (ke_created_at e) now (ke_payload_bytes e)
                in if can_write then (True, AList.update path (write_at_start h f) d) else (False, d)))"

subsection \<open>Lemmas\<close>

lemma fill_header_length [simp]: "length (kv_fill_header m q r x t h c a u p) = FIXED_HEADER"
  by (simp add: kv_fill_header_def FIXED_HEADER_def)

lemma drop_append_ge: "length xs \<le> n \<Longrightarrow> drop n (xs @ ys) = drop (n - length xs) ys"
  by simp

lemma read_fill_header:
  assumes "tokens \<noteq> 0" "quant = 2 \<or> quant = 4" "reason \<le> REASON_AGENT_SESSION"
  shows "kv_read_header (kv_fill_header model quant reason ext tokens hits ctx created used payload
           @ le_put32 tb @ rest) =
    Some (\<lparr> ke_sha = [], ke_path = [], ke_quant_bits = quant, ke_model_id = model, ke_reason = reason,
            ke_tokens = tokens, ke_hits = hits, ke_ctx_size = ctx, ke_ext_flags = ext,
            ke_created_at = created, ke_last_used = used, ke_payload_bytes = payload,
            ke_text_bytes = ucast tb, ke_file_size = 0 \<rparr>, tb)"
proof -
  let ?h = "kv_fill_header model quant reason ext tokens hits ctx created used payload"
  let ?f = "?h @ le_put32 tb @ rest"
  have h: "take FIXED_HEADER ?f = ?h" by simp
  have t: "take 4 (drop FIXED_HEADER ?f) = le_put32 tb" by simp
  have gt: "le_get32 (le_put32 tb) = tb" using le_get32_put32 [of tb "[]"] by simp
  have d: "drop 8 ?h = le_put32 tokens @ le_put32 hits @ le_put32 ctx @ [2, 0, 0, 0]
        @ le_put64 created @ le_put64 used @ le_put64 payload"
    "drop 12 ?h = le_put32 hits @ le_put32 ctx @ [2, 0, 0, 0]
        @ le_put64 created @ le_put64 used @ le_put64 payload"
    "drop 16 ?h = le_put32 ctx @ [2, 0, 0, 0] @ le_put64 created @ le_put64 used @ le_put64 payload"
    "drop 24 ?h = le_put64 created @ le_put64 used @ le_put64 payload"
    "drop 32 ?h = le_put64 used @ le_put64 payload" "drop 40 ?h = le_put64 payload @ []"
    by (simp_all add: kv_fill_header_def)
  have n: "?h ! 0 = 75" "?h ! 1 = 86" "?h ! 2 = 67" "?h ! 3 = 1" "?h ! 4 = quant" "?h ! 5 = reason"
    "?h ! 6 = ext" "?h ! 7 = model" "?h ! 20 = 2"
    by (simp_all add: kv_fill_header_def nth_append)
  show ?thesis
    unfolding kv_read_header_def h t Let_def kv_header_entry_def kv_header_magic_def
      d n le_get32_put32 le_get64_put64 gt
    using assms by simp
qed

lemma read_header_Some:
  assumes "kv_read_header f = Some (e, tb)"
  shows "length (take FIXED_HEADER f) = FIXED_HEADER" "length (take 4 (drop FIXED_HEADER f)) = 4"
    "tb = le_get32 (take 4 (drop FIXED_HEADER f))" "e = kv_header_entry (take FIXED_HEADER f) tb"
    "ke_tokens e \<noteq> 0" "ke_quant_bits e = 2 \<or> ke_quant_bits e = 4"
  using assms unfolding kv_read_header_def Let_def
  by (auto split: if_splits)

lemma read_header_length: "kv_read_header f = Some (e, tb) \<Longrightarrow> FIXED_HEADER + 4 \<le> length f"
  using read_header_Some(1,2) [of f e tb] by simp

lemma read_header_fields:
  assumes "kv_read_header f = Some (e, tb)"
  shows "ke_reason e \<le> REASON_AGENT_SESSION" "ke_text_bytes e = ucast tb"
    "ke_sha e = []" "ke_path e = []" "ke_file_size e = 0"
  unfolding read_header_Some(4) [OF assms] kv_header_entry_def
  by (simp_all add: REASON_UNKNOWN_def)

lemma read_entry_file_covers:
  assumes "kv_read_entry_file d path sha = Some e" "map_of d path = Some f" "length f < 2 ^ 64"
  shows "FIXED_HEADER + 4 + unat (ke_text_bytes e) + unat (ke_payload_bytes e) \<le> length f
    \<and> unat (ke_file_size e) = length f \<and> ke_sha e = sha \<and> ke_path e = path"
proof -
  obtain e0 tb where r: "kv_read_header f = Some (e0, tb)"
    using assms(1,2) by (auto simp: kv_read_entry_file_def split: if_splits option.splits)
  let ?p = "unat (ke_payload_bytes e0)"
  have c: "\<not> (UINT64_MAX - 52 < unat tb \<or> UINT64_MAX - 52 - unat tb < ?p)"
    "\<not> length f mod 2 ^ 64 < (52 + unat tb + ?p) mod 2 ^ 64"
    "e = e0\<lparr> ke_sha := sha, ke_path := path, ke_file_size := of_nat (length f) \<rparr>"
    using assms(1,2) r by (auto simp: kv_read_entry_file_def Let_def FIXED_HEADER_def split: if_splits)
  have "52 + unat tb + ?p < 2 ^ 64" using c(1) unfolding UINT64_MAX_def by auto
  then have "52 + unat tb + ?p \<le> length f" using c(2) assms(3) by simp
  then show ?thesis
    using c(3) read_header_fields(2) [OF r] assms(3)
    by (simp add: FIXED_HEADER_def unat_of_nat_u64)
qed

lemma drop_write_at_start: "length h \<le> n \<Longrightarrow> drop n (write_at_start h f) = drop n f"
  by (simp add: write_at_start_def)

lemma length_write_at_start: "length h \<le> length f \<Longrightarrow> length (write_at_start h f) = length f"
  by (simp add: write_at_start_def)

lemma byte_bit_high: "8 \<le> n \<Longrightarrow> \<not> bit (w :: byte) n"
  by (auto dest: bit_imp_le_length)

lemma take4_le_put32: "length t = 4 \<Longrightarrow> le_put32 (le_get32 t) = t"
proof -
  assume "length t = 4"
  then obtain a b c d where t: "t = [a, b, c, d]"
    by (auto simp: numeral_eq_Suc length_Suc_conv)
  have "ucast (le_get32 t) = a" "ucast (drop_bit 8 (le_get32 t)) = b"
    "ucast (drop_bit 16 (le_get32 t)) = c" "ucast (drop_bit 24 (le_get32 t)) = d"
    unfolding t le_get32_def by (rule bit_word_eqI, simp add: bit_simps byte_bit_high)+
  then show ?thesis by (simp add: le_put32_def t)
qed

lemma rewritten_header:
  fixes ext :: byte and hits :: u32 and now :: u64
  assumes "kv_read_header f = Some (e, tb)"
  defines "h \<equiv> kv_fill_header (ke_model_id e) (ke_quant_bits e) (ke_reason e) ext
    (ke_tokens e) hits (ke_ctx_size e) (ke_created_at e) now (ke_payload_bytes e)"
  shows "kv_read_header (write_at_start h f) =
    Some (e\<lparr> ke_ext_flags := ext, ke_hits := hits, ke_last_used := now \<rparr>, tb)"
proof -
  have l: "FIXED_HEADER + 4 \<le> length f" by (rule read_header_length [OF assms(1)])
  have tb: "le_put32 tb = take 4 (drop FIXED_HEADER f)"
    using read_header_Some(2,3) [OF assms(1)] take4_le_put32 [of "take 4 (drop FIXED_HEADER f)"] by simp
  have f: "write_at_start h f = h @ le_put32 tb @ drop 4 (drop FIXED_HEADER f)"
    unfolding write_at_start_def tb by (simp only: append_take_drop_id) (simp add: h_def)
  show ?thesis
    unfolding f unfolding h_def
    by (subst read_fill_header) (use read_header_fields [OF assms(1)] read_header_Some(5,6) [OF assms(1)] in simp_all)
qed

subsection \<open>Properties\<close>

text \<open>
  What the store writes in a header it reads back: for every value of every field,
  the header of a checkpoint with tokens, a 2- or 4-bit model and a known reason is accepted
  and gives the same fields, whatever follows it in the file.\<close>

lemma kv_header_roundtrip:
  assumes "tokens \<noteq> 0" "quant = 2 \<or> quant = 4" "reason \<le> REASON_AGENT_SESSION"
  shows "kv_read_header (kv_fill_header model quant reason ext tokens hits ctx created used payload
           @ le_put32 tb @ rest) =
    Some (\<lparr> ke_sha = [], ke_path = [], ke_quant_bits = quant, ke_model_id = model, ke_reason = reason,
            ke_tokens = tokens, ke_hits = hits, ke_ctx_size = ctx, ke_ext_flags = ext,
            ke_created_at = created, ke_last_used = used, ke_payload_bytes = payload,
            ke_text_bytes = ucast tb, ke_file_size = 0 \<rparr>, tb)"
  by (rule read_fill_header [OF assms])

text \<open>
  Marking a hit changes a checkpoint in its hit count and its time of use and in
  nothing else: the file keeps its length, its text, payload and trailer, every other field of
  its header, and all other files are untouched.\<close>

lemma kv_touch_file_exact:
  assumes "kv_touch_file can_open can_write now d path hits = (True, d')" "map_of d path = Some f"
  shows "\<exists>e tb f'. kv_read_header f = Some (e, tb) \<and> map_of d' = (map_of d)(path \<mapsto> f')
    \<and> length f' = length f \<and> drop FIXED_HEADER f' = drop FIXED_HEADER f
    \<and> kv_read_header f' = Some (e\<lparr> ke_hits := hits, ke_last_used := now \<rparr>, tb)"
proof -
  obtain e tb where r: "kv_read_header f = Some (e, tb)"
    and d': "d' = AList.update path (write_at_start (kv_fill_header (ke_model_id e) (ke_quant_bits e)
        (ke_reason e) (ke_ext_flags e) (ke_tokens e) hits (ke_ctx_size e) (ke_created_at e) now
        (ke_payload_bytes e)) f) d" (is "_ = AList.update path ?f d")
    using assms by (auto simp: kv_touch_file_def Let_def split: if_splits option.splits)
  have "length f \<ge> FIXED_HEADER" using read_header_length [OF r] by simp
  then have "length ?f = length f" "drop FIXED_HEADER ?f = drop FIXED_HEADER f"
    by (simp_all add: length_write_at_start drop_write_at_start)
  moreover have "kv_read_header ?f = Some (e\<lparr> ke_hits := hits, ke_last_used := now \<rparr>, tb)"
    using rewritten_header [OF r, of "ke_ext_flags e" hits now] by simp
  moreover have "map_of d' = (map_of d)(path \<mapsto> ?f)" by (simp add: d' update_conv')
  ultimately show ?thesis using r by blast
qed

definition sample_file :: "byte list" where
  "sample_file = kv_fill_header 1 4 REASON_COLD 0 600 3 8192 5 7 1 @ le_put32 2 @ [65, 66, 9]"

end
