(* ===== verification/Kvstore.thy ===== *)
theory Kvstore
  imports Kv_Format
begin

text \<open>
  The checkpoint store proper, \<open>ds4_kvstore.c\<close>: the directory scan, the eviction by score, the
  policies that choose what to store, the size and budget guards, the store of a live prefix
  through a temporary file, the lookup by text prefix and the load.

  The disk is threaded explicitly; the outcomes of the system calls are the fields of
  \<open>kv_io\<close>. The engine (quantisation, model id, token texts, tokenizer) and the session
  (tokens, context, staged payload, payload loader) are parameters: records of functions. The
  scores, \<open>double\<close>s in C, are exact rationals here, and \<open>exp2(-elapsed / half_life)\<close> is the
  parameter \<open>decay\<close>; log lines, timings and the trailer's load hook are left out, and the files
  the directory scan meets can be opened.
\<close>

definition DEFAULT_MB :: nat where "DEFAULT_MB = 4096"

record kv_options =
  ko_min_tokens :: int
  ko_cold_max_tokens :: int
  ko_continued_interval_tokens :: int
  ko_boundary_trim_tokens :: int
  ko_boundary_align_tokens :: int

definition kv_default_options :: kv_options where
  "kv_default_options = \<lparr> ko_min_tokens = 512, ko_cold_max_tokens = 30000,
     ko_continued_interval_tokens = 10000, ko_boundary_trim_tokens = 32,
     ko_boundary_align_tokens = 2048 \<rparr>"

record kvstore =
  kv_enabled :: bool
  kv_dir :: string
  kv_budget_bytes :: nat
  kv_reject_different_quant :: bool
  kv_opt :: kv_options
  kv_continued_last_store_tokens :: int
  kv_entries :: "kv_entry list"

record kv_io =
  io_now :: u64
  io_mkdir :: "string \<Rightarrow> bool"
  io_opendir :: bool
  io_fopen :: "string \<Rightarrow> bool"
  io_create :: "string \<Rightarrow> bool"
  io_write_fails_after :: "string \<Rightarrow> nat option"
  io_rename :: bool
  io_unlink :: "string \<Rightarrow> bool"

subsection \<open>The directory scan\<close>

text \<open>The names \<open>readdir\<close> returns for the store's directory.\<close>

definition in_dir :: "string \<Rightarrow> string \<Rightarrow> string option" where
  "in_dir dir path =
     (let pre = kv_path_join dir [] in
      if take (length pre) path = pre \<and> CHR ''/'' \<notin> set (drop (length pre) path)
      then Some (drop (length pre) path) else None)"

definition entry_at :: "disk \<Rightarrow> string \<Rightarrow> string \<Rightarrow> kv_entry option" where
  "entry_at d dir path =
     (case in_dir dir path of None \<Rightarrow> None
      | Some name \<Rightarrow>
          (case kv_sha_hex_name name of None \<Rightarrow> None
           | Some sha \<Rightarrow> kv_read_entry_file d (kv_path_join dir name) sha))"

definition dir_entries :: "disk \<Rightarrow> string \<Rightarrow> kv_entry list" where
  "dir_entries d dir = List.map_filter (\<lambda>(path, _). entry_at d dir path) d"

definition kv_clear :: "kvstore \<Rightarrow> kvstore" where
  "kv_clear kc = kc\<lparr> kv_entries := [] \<rparr>"

definition kv_refresh :: "kv_io \<Rightarrow> kvstore \<Rightarrow> disk \<Rightarrow> kvstore" where
  "kv_refresh io kc d =
     (if \<not> kv_enabled kc then kc
      else if \<not> io_opendir io then kv_clear kc
      else (kv_clear kc)\<lparr> kv_entries := dir_entries d (kv_dir kc) \<rparr>)"

subsection \<open>Eviction\<close>

record eviction_context =
  ic_text :: "byte list"
  ic_model_id :: byte
  ic_quant_bits :: byte
  ic_ctx_size :: u32
  ic_reject_different_quant :: bool

definition kv_supersedes_continued :: "kv_entry \<Rightarrow> eviction_context option \<Rightarrow> bool" where
  "kv_supersedes_continued e incoming =
     (case incoming of None \<Rightarrow> False
      | Some ic \<Rightarrow>
          if ke_reason e \<noteq> REASON_CONTINUED then False
          else if ke_text_bytes e = 0 then False
          else if unat (ke_text_bytes e) \<ge> length (ic_text ic) then False
          else if ke_model_id e \<noteq> ic_model_id ic then False
          else if ic_reject_different_quant ic \<and> ke_quant_bits e \<noteq> ic_quant_bits ic then False
          else if ic_ctx_size ic > ke_ctx_size e then False
          else sha1_bytes_hex (take (unat (ke_text_bytes e)) (ic_text ic)) = ke_sha e)"

definition kv_reason_is_anchor :: "byte \<Rightarrow> bool" where
  "kv_reason_is_anchor r = (r = REASON_COLD \<or> r = REASON_EVICT \<or> r = REASON_SHUTDOWN)"

definition kv_effective_hits :: "(nat \<Rightarrow> rat) \<Rightarrow> u64 \<Rightarrow> kv_entry \<Rightarrow> rat" where
  "kv_effective_hits decay now e =
     (let hits = rat_of_nat (unat (ke_hits e));
          used_at = (if ke_last_used e \<noteq> 0 then ke_last_used e else ke_created_at e)
      in if used_at = 0 then 0
         else if now > used_at then
           (let h = hits * decay (unat (now - used_at)) in if h < 1 / 100 then 0 else h)
         else hits)"

definition kv_eviction_score ::
  "(nat \<Rightarrow> rat) \<Rightarrow> u64 \<Rightarrow> eviction_context option \<Rightarrow> kv_entry \<Rightarrow> rat" where
  "kv_eviction_score decay now incoming e =
     (if ke_file_size e = 0 then 0
      else
        let hits = kv_effective_hits decay now e;
            s0 = (hits + 1) * rat_of_nat (unat (ke_tokens e)) / rat_of_nat (unat (ke_file_size e));
            s1 = (if kv_reason_is_anchor (ke_reason e) then s0 * 2 else s0)
        in if kv_supersedes_continued e incoming
           then s1 * (1 / 20 + 9 / 20 * (if hits > 0 then hits / (hits + 1) else 0))
           else s1)"

definition victim_step :: "(kv_entry \<Rightarrow> rat) \<Rightarrow> kv_entry list \<Rightarrow> nat \<times> rat \<Rightarrow> nat \<Rightarrow> nat \<times> rat" where
  "victim_step score es vs i =
     (let s = score (es ! i) in
      if s < snd vs \<or> (s = snd vs \<and> ke_last_used (es ! i) < ke_last_used (es ! fst vs))
      then (i, s) else vs)"

definition kv_victim :: "(kv_entry \<Rightarrow> rat) \<Rightarrow> kv_entry list \<Rightarrow> nat" where
  "kv_victim score es = fst (foldl (victim_step score es) (0, score (es ! 0)) [1..<length es])"

text \<open>The eviction loop; each pass removes one entry of the list.\<close>

function evict_loop ::
  "kv_io \<Rightarrow> (kv_entry \<Rightarrow> rat) \<Rightarrow> nat \<Rightarrow> nat \<Rightarrow> kv_entry list \<Rightarrow> disk \<Rightarrow> kv_entry list \<times> disk" where
  "evict_loop io score target used es d =
     (if used > target \<and> es \<noteq> [] then
        let v = kv_victim score es; e = es ! v; es' = take v es @ drop (Suc v) es in
        if io_unlink io (ke_path e)
        then evict_loop io score target
               (if used \<ge> unat (ke_file_size e) then used - unat (ke_file_size e) else 0)
               es' (AList.delete (ke_path e) d)
        else evict_loop io score target 0 es' d
      else (es, d))"
  by pat_completeness auto

lemma victim_step_bound:
  "fst vs < n \<Longrightarrow> i < n \<Longrightarrow> fst (victim_step score es vs i) < n"
  by (simp add: victim_step_def Let_def)

lemma kv_victim_bound: "es \<noteq> [] \<Longrightarrow> kv_victim score es < length es"
proof -
  assume "es \<noteq> []"
  then have z: "fst (0 :: nat, score (es ! 0)) < length es" by simp
  have "fst (foldl (victim_step score es) vs js) < n" if "fst vs < n" "\<forall>i\<in>set js. i < n" for vs js n
    using that by (induction js arbitrary: vs) (auto simp: victim_step_bound)
  from this [OF z, of "[1..<length es]"] show ?thesis by (simp add: kv_victim_def)
qed

termination evict_loop
proof (relation "measure (\<lambda>(_, _, _, _, es, _). length es)", goal_cases)
  case (2 io score target used es d v e es')
  then show ?case using kv_victim_bound [of es score] by simp
next
  case (3 io score target used es d v e es')
  then show ?case using kv_victim_bound [of es score] by simp
qed simp

declare evict_loop.simps [simp del]

definition total_size :: "kv_entry list \<Rightarrow> nat" where
  "total_size es = sum_list (map (\<lambda>e. unat (ke_file_size e)) es)"

definition kv_evict ::
  "kv_io \<Rightarrow> (nat \<Rightarrow> rat) \<Rightarrow> kvstore \<Rightarrow> nat \<Rightarrow> eviction_context option \<Rightarrow> disk \<Rightarrow> kvstore \<times> disk" where
  "kv_evict io decay kc extra incoming d =
     (if \<not> kv_enabled kc \<or> kv_budget_bytes kc = 0 then (kc, d)
      else if extra > kv_budget_bytes kc then (kc, d)
      else
        let kc1 = kv_refresh io kc d;
            used = total_size (kv_entries kc1) mod 2 ^ 64
        in case evict_loop io (kv_eviction_score decay (io_now io) incoming)
                  (kv_budget_bytes kc - extra) used (kv_entries kc1) d of
             (es, d') \<Rightarrow> (kc1\<lparr> kv_entries := es \<rparr>, d'))"

subsection \<open>Opening and closing\<close>

text \<open>\<open>kv_mkdir_p\<close>: a call for every prefix that ends before a slash, then for the whole path.\<close>

definition mkdir_prefixes :: "string \<Rightarrow> string list" where
  "mkdir_prefixes path =
     map (\<lambda>i. take i path) (filter (\<lambda>i. path ! i = CHR ''/'') [1..<length path]) @ [path]"

definition kv_mkdir_p :: "kv_io \<Rightarrow> string \<Rightarrow> bool" where
  "kv_mkdir_p io path = (path \<noteq> [] \<and> list_all (io_mkdir io) (mkdir_prefixes path))"

definition kv_closed :: kvstore where
  "kv_closed = \<lparr> kv_enabled = False, kv_dir = [], kv_budget_bytes = 0,
     kv_reject_different_quant = False,
     kv_opt = \<lparr> ko_min_tokens = 0, ko_cold_max_tokens = 0, ko_continued_interval_tokens = 0,
                ko_boundary_trim_tokens = 0, ko_boundary_align_tokens = 0 \<rparr>,
     kv_continued_last_store_tokens = 0, kv_entries = [] \<rparr>"

definition kv_open ::
  "kv_io \<Rightarrow> (nat \<Rightarrow> rat) \<Rightarrow> string option \<Rightarrow> nat \<Rightarrow> bool \<Rightarrow> kv_options \<Rightarrow> disk \<Rightarrow> bool \<times> kvstore \<times> disk" where
  "kv_open io decay dir budget_mb reject opt d =
     (case dir of None \<Rightarrow> (False, kv_closed, d)
      | Some p \<Rightarrow>
          if \<not> kv_mkdir_p io p then (False, kv_closed, d)
          else
            let mb = (if budget_mb = 0 then DEFAULT_MB else budget_mb);
                kc = kv_closed\<lparr> kv_enabled := True, kv_dir := p,
                       kv_budget_bytes := (mb * 1024 * 1024) mod 2 ^ 64,
                       kv_reject_different_quant := reject, kv_opt := opt \<rparr>
            in case kv_evict io decay kc 0 None d of (kc', d') \<Rightarrow> (True, kc', d'))"

definition kv_close :: "kvstore \<Rightarrow> kvstore" where
  "kv_close kc = kv_closed"

subsection \<open>Store policy\<close>

text \<open>The remainder of C, for a positive divisor.\<close>

definition c_rem :: "int \<Rightarrow> int \<Rightarrow> int" where
  "c_rem a b = (if a \<ge> 0 then a mod b else - ((- a) mod b))"

definition kv_store_len :: "kvstore \<Rightarrow> int \<Rightarrow> int" where
  "kv_store_len kc tokens =
     (let trim = ko_boundary_trim_tokens (kv_opt kc); align = ko_boundary_align_tokens (kv_opt kc);
          stable = tokens - trim;
          aligned = (if align > 0 then stable - c_rem stable align else stable)
      in if tokens > ko_min_tokens (kv_opt kc) + trim \<and> aligned \<ge> ko_min_tokens (kv_opt kc)
         then aligned else tokens)"

fun anchor_scan :: "int \<Rightarrow> int \<Rightarrow> int \<Rightarrow> int \<Rightarrow> int list \<Rightarrow> int" where
  "anchor_scan user assistant i last_user [] = last_user"
| "anchor_scan user assistant i last_user (t # ts) =
     (if t = assistant then last_user
      else anchor_scan user assistant (i + 1) (if t = user then i else last_user) ts)"

definition kv_chat_anchor_pos :: "kvstore \<Rightarrow> int list option \<Rightarrow> int \<Rightarrow> int \<Rightarrow> int" where
  "kv_chat_anchor_pos kc prompt user assistant =
     (case prompt of None \<Rightarrow> - 1
      | Some ts \<Rightarrow>
          if user < 0 \<or> assistant < 0 then - 1
          else let last_user = anchor_scan user assistant 0 (- 1) ts in
            if last_user \<ge> ko_min_tokens (kv_opt kc) then last_user else - 1)"

text \<open>
  The step between continued stores. The sum and the product are \<open>int\<close> expressions; the test
  after them catches a wrapped result.
\<close>

definition kv_continued_step :: "kvstore \<Rightarrow> int" where
  "kv_continued_step kc =
     (if \<not> kv_enabled kc \<or> ko_continued_interval_tokens (kv_opt kc) \<le> 0 then 0
      else
        let step = ko_continued_interval_tokens (kv_opt kc); align = ko_boundary_align_tokens (kv_opt kc) in
        if align > 0 then
          (let s = cast_i32 ((cast_i32 (step + align - 1) div align) * align) in if s \<le> 0 then align else s)
        else step)"

definition kv_continued_store_target :: "kvstore \<Rightarrow> int \<Rightarrow> int" where
  "kv_continued_store_target kc live_tokens =
     (let step = kv_continued_step kc in
      if step \<le> 0 then 0
      else if live_tokens < ko_min_tokens (kv_opt kc) then 0
      else if c_rem live_tokens step \<noteq> 0 then 0
      else if live_tokens \<le> kv_continued_last_store_tokens kc then 0
      else live_tokens)"

definition kv_note_store :: "kvstore \<Rightarrow> int \<Rightarrow> kvstore" where
  "kv_note_store kc tokens =
     (if tokens > kv_continued_last_store_tokens kc
      then kc\<lparr> kv_continued_last_store_tokens := tokens \<rparr> else kc)"

definition kv_suppress_continued_store :: "kvstore \<Rightarrow> int \<Rightarrow> int \<times> kvstore" where
  "kv_suppress_continued_store kc tokens =
     (if kv_continued_store_target kc tokens \<noteq> tokens then (- 1, kc)
      else (kv_continued_last_store_tokens kc, kv_note_store kc tokens))"

definition kv_restore_suppressed_continued :: "kvstore \<Rightarrow> int \<Rightarrow> int \<Rightarrow> kvstore" where
  "kv_restore_suppressed_continued kc old_tokens suppressed =
     (if old_tokens \<ge> 0 \<and> kv_continued_last_store_tokens kc = suppressed
      then kc\<lparr> kv_continued_last_store_tokens := old_tokens \<rparr> else kc)"

subsection \<open>Sizes and budget\<close>

text \<open>The size of a file, when it is a 64-bit value; the sums are guarded before they are formed.\<close>

definition kv_file_size_bytes :: "nat \<Rightarrow> nat \<Rightarrow> nat \<Rightarrow> nat option" where
  "kv_file_size_bytes text payload trailer =
     (let fixed = FIXED_HEADER + 4 in
      if UINT64_MAX - fixed < text \<or> UINT64_MAX - fixed - text < payload
         \<or> UINT64_MAX - fixed - text - payload < trailer then None
      else Some ((fixed + text + payload + trailer) mod 2 ^ 64))"

definition kv_budget_required :: "nat \<Rightarrow> nat option" where
  "kv_budget_required file_bytes =
     (let slack = file_bytes div 100 + (if file_bytes mod 100 \<noteq> 0 then 1 else 0) in
      if UINT64_MAX - file_bytes < slack then None else Some ((file_bytes + slack) mod 2 ^ 64))"

text \<open>The file size when the file fits, with the one percent of headroom.\<close>

definition kv_file_size_fits :: "kvstore \<Rightarrow> nat \<Rightarrow> nat \<Rightarrow> nat \<Rightarrow> nat option" where
  "kv_file_size_fits kc text payload trailer =
     (case kv_file_size_bytes text payload trailer of
        None \<Rightarrow> None
      | Some n \<Rightarrow>
          if kv_budget_bytes kc = 0 then Some n
          else (case kv_budget_required n of
                  None \<Rightarrow> None
                | Some r \<Rightarrow> if r \<le> kv_budget_bytes kc then Some n else None))"

subsection \<open>Storing\<close>

record kv_engine =
  en_routed_quant_bits :: int
  en_model_id :: int
  en_token_text :: "int \<Rightarrow> byte list"
  en_tokenize_rendered_chat :: "byte list \<Rightarrow> int list"

record kv_session =
  ks_tokens :: "int list option"
  ks_ctx :: int
  ks_stage_payload :: "byte list option"

text \<open>
  The trailer hooks. \<open>hk_write\<close> gives the bytes the hook wrote and whether it succeeded; a null
  function pointer is \<open>None\<close>.
\<close>

record kv_hooks =
  hk_ext_flag :: byte
  hk_serialized_size :: "(byte list \<Rightarrow> nat option) option"
  hk_write :: "(byte list \<Rightarrow> byte list \<times> bool) option"

definition kv_trailer_serialized_size :: "kv_hooks option \<Rightarrow> byte list \<Rightarrow> nat option" where
  "kv_trailer_serialized_size hooks text =
     (case hooks of None \<Rightarrow> Some 0
      | Some h \<Rightarrow> (case hk_serialized_size h of None \<Rightarrow> Some 0 | Some f \<Rightarrow> f text))"

definition kv_trailer_write :: "kv_hooks option \<Rightarrow> byte list \<Rightarrow> byte list \<times> bool" where
  "kv_trailer_write hooks text =
     (case hooks of None \<Rightarrow> ([], True)
      | Some h \<Rightarrow> (case hk_write h of None \<Rightarrow> ([], True) | Some f \<Rightarrow> f text))"

definition kv_render_tokens_text :: "kv_engine \<Rightarrow> int list \<Rightarrow> byte list" where
  "kv_render_tokens_text en ts = concat (map (en_token_text en) ts)"

definition kv_tokens_copy_prefix :: "int list \<Rightarrow> int \<Rightarrow> int list" where
  "kv_tokens_copy_prefix src n = take (nat n) src"

text \<open>\<open>fread\<close> of the stored text, of the length the header gives.\<close>

definition stored_text :: "byte list \<Rightarrow> u32 \<Rightarrow> byte list" where
  "stored_text f tb = take (unat tb) (drop (FIXED_HEADER + 4) f)"

definition kv_file_text_matches :: "kv_io \<Rightarrow> disk \<Rightarrow> string \<Rightarrow> string \<Rightarrow> byte list \<Rightarrow> bool" where
  "kv_file_text_matches io d path sha text =
     (if length text > UINT32_MAX then False
      else case map_of d path of None \<Rightarrow> False
        | Some f \<Rightarrow>
            io_fopen io path \<and>
            (case kv_read_header f of None \<Rightarrow> False
             | Some (e, tb) \<Rightarrow>
                 tb = of_nat (length text) \<and> length (stored_text f tb) = unat tb
                 \<and> sha1_bytes_hex (stored_text f tb) = sha \<and> stored_text f tb = text))"

definition kv_existing_compatible ::
  "kv_io \<Rightarrow> kvstore \<Rightarrow> disk \<Rightarrow> string \<Rightarrow> string \<Rightarrow> byte list \<Rightarrow> int \<Rightarrow> int \<Rightarrow> int \<Rightarrow> bool \<times> disk" where
  "kv_existing_compatible io kc d path sha text model_id quant_bits ctx_size =
     (case map_of d path of None \<Rightarrow> (False, d)
      | Some _ \<Rightarrow>
          (case (if io_fopen io path then kv_read_entry_file d path sha else None) of
             None \<Rightarrow> (False, d)
           | Some e \<Rightarrow>
               if ke_model_id e = of_int model_id
                  \<and> (\<not> kv_reject_different_quant kc \<or> ke_quant_bits e = of_int quant_bits)
                  \<and> ke_ctx_size e \<le> of_int ctx_size
                  \<and> kv_file_text_matches io d path sha text
               then (True, d)
               else (False, if io_unlink io path then AList.delete path d else d)))"

definition kv_rewrite_trailer :: "kv_io \<Rightarrow> disk \<Rightarrow> string \<Rightarrow> byte list \<Rightarrow> kv_hooks option \<Rightarrow> disk" where
  "kv_rewrite_trailer io d path text hooks =
     (case hooks of None \<Rightarrow> d
      | Some h \<Rightarrow>
          if hk_write h = None \<or> hk_serialized_size h = None
             \<or> kv_trailer_serialized_size hooks text = None
             \<or> kv_trailer_serialized_size hooks text = Some 0 then d
          else case map_of d path of None \<Rightarrow> d
            | Some f \<Rightarrow>
                if \<not> io_fopen io path then d
                else (case kv_read_header f of None \<Rightarrow> d
                  | Some (e, tb) \<Rightarrow>
                      let stop = (FIXED_HEADER + 4 + unat tb + unat (ke_payload_bytes e)) mod 2 ^ 64 in
                      if int stop > INT64_MAX then d
                      else let (trailer, ok) = kv_trailer_write hooks text;
                               f1 = take stop f @ replicate (stop - length f) 0 @ trailer;
                               head = kv_fill_header (ke_model_id e) (ke_quant_bits e) (ke_reason e)
                                 (ke_ext_flags e OR hk_ext_flag h) (ke_tokens e) (ke_hits e)
                                 (ke_ctx_size e) (ke_created_at e) (io_now io) (ke_payload_bytes e)
                           in AList.update path
                                (if ok \<and> trailer \<noteq> [] then write_at_start head f1 else f1) d))"

text \<open>The temporary file and its contents.\<close>

definition kv_tmp_path :: "string \<Rightarrow> int \<Rightarrow> string" where
  "kv_tmp_path path pid = path @ ''.tmp.'' @ dec_int pid"

definition kv_ext_flags :: "kv_hooks option \<Rightarrow> nat \<Rightarrow> bool \<Rightarrow> byte \<Rightarrow> byte" where
  "kv_ext_flags hooks trailer_est text_override text_ext =
     (let x = (case hooks of None \<Rightarrow> 0 | Some h \<Rightarrow> if trailer_est > 0 then hk_ext_flag h else 0)
      in if text_override then x OR text_ext else x)"

definition kv_image ::
  "kv_io \<Rightarrow> kv_engine \<Rightarrow> kv_session \<Rightarrow> byte \<Rightarrow> byte \<Rightarrow> nat \<Rightarrow> byte list \<Rightarrow> byte list \<Rightarrow> byte list" where
  "kv_image io en ss reason ext n_tokens text payload =
     kv_fill_header (of_int (en_model_id en)) (of_int (en_routed_quant_bits en)) reason ext
       (of_nat n_tokens) 0 (of_int (ks_ctx ss)) (io_now io) (io_now io) (of_nat (length payload))
     @ le_put32 (of_nat (length text)) @ text @ payload"

text \<open>
  The write of the temporary file, the final size test and the rename:
  lines from the \<open>fopen\<close> of the temporary file to the return.
\<close>

definition kv_commit_file ::
  "kv_io \<Rightarrow> kvstore \<Rightarrow> disk \<Rightarrow> string \<Rightarrow> string \<Rightarrow> byte list \<Rightarrow> nat \<Rightarrow> nat \<Rightarrow> byte list \<times> bool \<Rightarrow> bool \<times> disk" where
  "kv_commit_file io kc d tmp path img text_len payload_len tr =
     (if \<not> io_create io tmp then (False, d)
      else
        let full = img @ fst tr;
            written = (case io_write_fails_after io tmp of None \<Rightarrow> full | Some k \<Rightarrow> take k full);
            d1 = AList.update tmp written d;
            ok = (io_write_fails_after io tmp = None \<and> snd tr
                  \<and> kv_file_size_fits kc text_len payload_len (length (fst tr)) \<noteq> None
                  \<and> io_rename io)
        in if ok then (True, AList.update path full (AList.delete tmp d1))
           else (False, if io_unlink io tmp then AList.delete tmp d1 else d1))"

definition kv_store_text :: "kv_engine \<Rightarrow> int list \<Rightarrow> byte list option \<Rightarrow> byte list" where
  "kv_store_text en store_tokens text_override =
     (case text_override of
        Some t \<Rightarrow> if t \<noteq> [] then t else kv_render_tokens_text en store_tokens
      | None \<Rightarrow> kv_render_tokens_text en store_tokens)"

definition kv_store_live_prefix_text ::
  "kv_io \<Rightarrow> (nat \<Rightarrow> rat) \<Rightarrow> int \<Rightarrow> kvstore \<Rightarrow> kv_engine \<Rightarrow> kv_session \<Rightarrow> int list option \<Rightarrow> int
   \<Rightarrow> string \<Rightarrow> byte list option \<Rightarrow> byte \<Rightarrow> kv_hooks option \<Rightarrow> disk \<Rightarrow> bool \<times> kvstore \<times> disk" where
  "kv_store_live_prefix_text io decay pid kc en ss tokens store_len reason text_override text_ext hooks d =
     (if \<not> kv_enabled kc then (False, kc, d)
      else case tokens of None \<Rightarrow> (False, kc, d)
      | Some ts \<Rightarrow>
        if store_len < ko_min_tokens (kv_opt kc) then (False, kc, d)
        else
        let store_tokens = kv_tokens_copy_prefix ts store_len in
        if en_routed_quant_bits en \<noteq> 2 \<and> en_routed_quant_bits en \<noteq> 4 then (False, kc, d)
        else if ks_tokens ss \<noteq> Some store_tokens then (False, kc, d)
        else
        let text = kv_store_text en store_tokens text_override in
        if length text > UINT32_MAX then (False, kc, d)
        else case kv_trailer_serialized_size hooks text of
          None \<Rightarrow> (False, kc, d)
        | Some trailer_est \<Rightarrow>
          let sha = sha1_bytes_hex text; path = kv_path_for_sha (kv_dir kc) sha in
          case kv_existing_compatible io kc d path sha text (en_model_id en) (en_routed_quant_bits en)
                 (ks_ctx ss) of
            (True, d1) \<Rightarrow> (True, kc, kv_rewrite_trailer io d1 path text hooks)
          | (False, d1) \<Rightarrow>
            (case ks_stage_payload ss of
               None \<Rightarrow> (False, kc, d1)
             | Some payload \<Rightarrow>
               (case kv_file_size_fits kc (length text) (length payload) trailer_est of
                  None \<Rightarrow> (False, kc, d1)
                | Some est \<Rightarrow>
                  let ic = \<lparr> ic_text = text, ic_model_id = of_int (en_model_id en),
                             ic_quant_bits = of_int (en_routed_quant_bits en),
                             ic_ctx_size = of_int (ks_ctx ss),
                             ic_reject_different_quant = kv_reject_different_quant kc \<rparr>;
                      (kc1, d2) = kv_evict io decay kc est (Some ic) d1;
                      ext = kv_ext_flags hooks trailer_est
                              (case text_override of None \<Rightarrow> False | Some t \<Rightarrow> t \<noteq> []) text_ext;
                      img = kv_image io en ss (kv_reason_code (Some reason)) ext
                                (length store_tokens) text payload;
                      (ok, d3) = kv_commit_file io kc1 d2 (kv_tmp_path path pid) path img
                                   (length text) (length payload) (kv_trailer_write hooks text)
                  in (ok, kc1, d3))))"

definition kv_store_live_prefix ::
  "kv_io \<Rightarrow> (nat \<Rightarrow> rat) \<Rightarrow> int \<Rightarrow> kvstore \<Rightarrow> kv_engine \<Rightarrow> kv_session \<Rightarrow> int list option \<Rightarrow> int
   \<Rightarrow> string \<Rightarrow> kv_hooks option \<Rightarrow> disk \<Rightarrow> bool \<times> kvstore \<times> disk" where
  "kv_store_live_prefix io decay pid kc en ss tokens store_len reason hooks d =
     kv_store_live_prefix_text io decay pid kc en ss tokens store_len reason None 0 hooks d"

definition kv_maybe_store_continued ::
  "kv_io \<Rightarrow> (nat \<Rightarrow> rat) \<Rightarrow> int \<Rightarrow> kvstore \<Rightarrow> kv_engine \<Rightarrow> kv_session \<Rightarrow> kv_hooks option \<Rightarrow> disk
   \<Rightarrow> bool \<times> kvstore \<times> disk" where
  "kv_maybe_store_continued io decay pid kc en ss hooks d =
     (case ks_tokens ss of None \<Rightarrow> (False, kc, d)
      | Some ts \<Rightarrow>
          let target = kv_continued_store_target kc (int (length ts)) in
          if target = 0 then (False, kc, d)
          else (case kv_store_live_prefix io decay pid kc en ss (Some ts) target ''continued'' hooks d of
                  (ok, kc1, d1) \<Rightarrow> if ok then (True, kv_note_store kc1 target, d1) else (False, kc1, d1)))"

subsection \<open>Lookup and load\<close>

definition kv_usable :: "kvstore \<Rightarrow> byte list \<Rightarrow> int \<Rightarrow> int \<Rightarrow> int \<Rightarrow> kv_entry \<Rightarrow> bool" where
  "kv_usable kc prompt model_id quant_bits ctx_size e \<longleftrightarrow>
     unat (ke_text_bytes e) \<le> length prompt
     \<and> cast_i32 (int (unat (ke_tokens e))) \<ge> ko_min_tokens (kv_opt kc)
     \<and> ke_model_id e = of_int model_id
     \<and> ke_ctx_size e \<le> of_int ctx_size
     \<and> (\<not> kv_reject_different_quant kc \<or> ke_quant_bits e = of_int quant_bits)"

definition find_step ::
  "kvstore \<Rightarrow> byte list \<Rightarrow> int \<Rightarrow> int \<Rightarrow> int \<Rightarrow> nat option \<Rightarrow> nat \<Rightarrow> nat option" where
  "find_step kc prompt model_id quant_bits ctx_size best i =
     (let e = kv_entries kc ! i in
      if \<not> kv_usable kc prompt model_id quant_bits ctx_size e then best
      else if (case best of None \<Rightarrow> False
               | Some b \<Rightarrow> let be = kv_entries kc ! b in
                   ke_text_bytes e < ke_text_bytes be
                   \<or> (ke_text_bytes e = ke_text_bytes be \<and> ke_tokens e \<le> ke_tokens be)) then best
      else if sha1_bytes_hex (take (unat (ke_text_bytes e)) prompt) = ke_sha e then Some i else best)"

definition kv_find_text_prefix ::
  "kv_io \<Rightarrow> kvstore \<Rightarrow> disk \<Rightarrow> byte list option \<Rightarrow> int \<Rightarrow> int \<Rightarrow> int \<Rightarrow> nat option \<times> kvstore" where
  "kv_find_text_prefix io kc d prompt model_id quant_bits ctx_size =
     (case prompt of None \<Rightarrow> (None, kc)
      | Some p \<Rightarrow>
          let kc1 = kv_refresh io kc d in
          (foldl (find_step kc1 p model_id quant_bits ctx_size) None [0..<length (kv_entries kc1)], kc1))"

definition kv_byte_prefix_match :: "byte list \<Rightarrow> byte list \<Rightarrow> bool" where
  "kv_byte_prefix_match text prefix = (length prefix \<le> length text \<and> take (length prefix) text = prefix)"

definition kv_build_prompt :: "kv_engine \<Rightarrow> int list \<Rightarrow> byte list \<Rightarrow> int list" where
  "kv_build_prompt en exact_prefix suffix = exact_prefix @ en_tokenize_rendered_chat en suffix"

text \<open>
  What a load leaves: the token count (zero for none), the effective prompt, whether the
  session was invalidated, the session's tokens when a payload was loaded.
\<close>

record kv_load =
  ld_tokens :: int
  ld_prompt :: "int list"
  ld_invalidated :: bool
  ld_session :: "int list option"
  ld_text_bytes :: u32

definition kv_no_load :: kv_load where
  "kv_no_load = \<lparr> ld_tokens = 0, ld_prompt = [], ld_invalidated = False, ld_session = None, ld_text_bytes = 0 \<rparr>"

text \<open>The checks on the header and the text of the chosen file.\<close>

definition kv_load_header_ok :: "byte list \<Rightarrow> byte list \<Rightarrow> int \<Rightarrow> string \<Rightarrow> (kv_entry \<times> u32) option" where
  "kv_load_header_ok f prompt model_id sha =
     (case kv_read_header f of None \<Rightarrow> None
      | Some (e, tb) \<Rightarrow>
          if ke_model_id e \<noteq> of_int model_id then None
          else if unat tb > length prompt then None
          else if length (stored_text f tb) \<noteq> unat tb then None
          else if sha1_bytes_hex (stored_text f tb) \<noteq> sha then None
          else if \<not> kv_byte_prefix_match prompt (stored_text f tb) then None
          else Some (e, tb))"

text \<open>
  \<open>load_payload\<close> is \<open>ds4_session_load_payload\<close>: from the bytes after the text and the payload
  length to the tokens of the restored session, \<open>None\<close> on failure.
\<close>

definition kv_try_load_text ::
  "kv_io \<Rightarrow> kvstore \<Rightarrow> kv_engine \<Rightarrow> (byte list \<Rightarrow> nat \<Rightarrow> int list option) \<Rightarrow> int \<Rightarrow> byte list option
   \<Rightarrow> disk \<Rightarrow> kv_load \<times> kvstore \<times> disk" where
  "kv_try_load_text io kc en load_payload ctx prompt d =
     (if \<not> kv_enabled kc then (kv_no_load, kc, d)
      else case prompt of None \<Rightarrow> (kv_no_load, kc, d)
      | Some p \<Rightarrow>
        if en_routed_quant_bits en \<noteq> 2 \<and> en_routed_quant_bits en \<noteq> 4 then (kv_no_load, kc, d)
        else case kv_find_text_prefix io kc d prompt (en_model_id en) (en_routed_quant_bits en) ctx of
          (None, kc1) \<Rightarrow> (kv_no_load, kc1, d)
        | (Some idx, kc1) \<Rightarrow>
          (let e = kv_entries kc1 ! idx; path = ke_path e in
           case (if io_fopen io path then map_of d path else None) of
             None \<Rightarrow> (kv_no_load, kc1, d)
           | Some f \<Rightarrow>
             (case kv_load_header_ok f p (en_model_id en) (ke_sha e) of
                None \<Rightarrow> (kv_no_load, kc1, d)
              | Some (hdr, tb) \<Rightarrow>
                (case load_payload (drop (FIXED_HEADER + 4 + unat tb) f) (unat (ke_payload_bytes hdr)) of
                   None \<Rightarrow> (kv_no_load\<lparr> ld_invalidated := True \<rparr>, kc1, d)
                 | Some loaded \<Rightarrow>
                   if int (length loaded) = cast_i32 (int (unat (ke_tokens hdr))) then
                     (let kc2 = (if loaded \<noteq> [] then
                                   kc1\<lparr> kv_continued_last_store_tokens := int (length loaded) \<rparr> else kc1);
                          d1 = (if loaded \<noteq> [] then
                                  snd (kv_touch_file (io_fopen io path) (io_write_fails_after io path = None)
                                         (io_now io) d path (ke_hits hdr + 1))
                                else d)
                      in (\<lparr> ld_tokens = int (length loaded),
                            ld_prompt = kv_build_prompt en loaded (drop (unat tb) p),
                            ld_invalidated = False, ld_session = Some loaded, ld_text_bytes = tb \<rparr>, kc2, d1))
                   else (kv_no_load\<lparr> ld_invalidated := True \<rparr>, kc1,
                         if io_unlink io path then AList.delete path d else d)))))"

end
