(* ===== verification/Kv_Evict.thy ===== *)
theory Kv_Evict
  imports Kvstore
begin

text \<open>
  The eviction of the checkpoint store: what the directory scan sees of a disk, the choice of
  the victim, what a pass leaves (within the budget, or up to a checkpoint that cannot be
  unlinked); and the store policies (lengths, anchors and the
  cadence of continued checkpoints).
\<close>

subsection \<open>The scan and the disk\<close>

lemma path_join_append: "kv_path_join dir name = kv_path_join dir [] @ name"
  by (simp add: kv_path_join_def)

lemma in_dir_path: "in_dir dir path = Some name \<Longrightarrow> kv_path_join dir name = path"
  unfolding in_dir_def Let_def path_join_append [of dir name]
  by (auto split: if_splits) (metis append_take_drop_id)

lemma entry_at_path: "entry_at d dir path = Some e \<Longrightarrow> ke_path e = path"
  using in_dir_path
  by (fastforce simp: entry_at_def kv_read_entry_file_def Let_def split: option.splits if_splits)

lemma entry_at_cong: "map_of d path = map_of d' path \<Longrightarrow> entry_at d dir path = entry_at d' dir path"
  using in_dir_path by (auto simp: entry_at_def kv_read_entry_file_def split: option.splits)

lemma map_filter_restrict:
  assumes "\<And>x e. x \<in> set xs \<Longrightarrow> f x = Some e \<Longrightarrow> P e \<longleftrightarrow> Q x" "\<And>x. x \<in> set xs \<Longrightarrow> Q x \<Longrightarrow> g x = f x"
  shows "List.map_filter g (filter Q xs) = filter P (List.map_filter f xs)"
  using assms
proof (induction xs)
  case (Cons x xs)
  have IH: "List.map_filter g (filter Q xs) = filter P (List.map_filter f xs)"
    using Cons by simp
  show ?case
  proof (cases "f x")
    case None
    then show ?thesis using IH Cons.prems(2) [of x] by (simp add: List.map_filter_simps)
  next
    case (Some e)
    then show ?thesis using IH Cons.prems(1) [of x e] Cons.prems(2) [of x] by (simp add: List.map_filter_simps)
  qed
qed (simp add: List.map_filter_simps)

lemma dir_entries_delete:
  "dir_entries (AList.delete q d) dir = filter (\<lambda>e. ke_path e \<noteq> q) (dir_entries d dir)"
proof -
  have f: "AList.delete q d = filter (\<lambda>x. fst x \<noteq> q) d"
    unfolding AList.delete_eq by (rule filter_cong) auto
  have c: "entry_at (AList.delete q d) dir p = entry_at d dir p" if "p \<noteq> q" for p
    by (rule entry_at_cong) (simp add: delete_conv' that)
  have "List.map_filter (\<lambda>(p, _). entry_at (AList.delete q d) dir p) (filter (\<lambda>x. fst x \<noteq> q) d)
      = filter (\<lambda>e. ke_path e \<noteq> q) (List.map_filter (\<lambda>(p, _). entry_at d dir p) d)"
    by (rule map_filter_restrict) (auto simp: entry_at_path c)
  then show ?thesis unfolding dir_entries_def f [symmetric] .
qed

lemma map_filter_paths:
  "(\<And>x e. x \<in> set d \<Longrightarrow> f x = Some e \<Longrightarrow> g e = fst x) \<Longrightarrow>
   map g (List.map_filter f d) = map fst (filter (\<lambda>x. f x \<noteq> None) d)"
  by (induction d) (auto simp: List.map_filter_simps split: option.splits)

lemma dir_entries_paths:
  "map ke_path (dir_entries d dir) = map fst (filter (\<lambda>(p, _). entry_at d dir p \<noteq> None) d)"
proof -
  have e: "(\<lambda>(p, u :: byte list). entry_at d dir p \<noteq> None) = (\<lambda>x. (case x of (p, _) \<Rightarrow> entry_at d dir p) \<noteq> None)"
    by auto
  show ?thesis unfolding dir_entries_def e
    by (rule map_filter_paths) (auto simp: entry_at_path)
qed

lemma dir_entries_distinct: "distinct (map fst d) \<Longrightarrow> distinct (map ke_path (dir_entries d dir))"
  unfolding dir_entries_paths by (rule distinct_map_filter)

lemma dir_entries_mem:
  "e \<in> set (dir_entries d dir) \<Longrightarrow> entry_at d dir (ke_path e) = Some e"
proof -
  assume "e \<in> set (dir_entries d dir)"
  then obtain p where "entry_at d dir p = Some e"
    by (auto simp: dir_entries_def List.map_filter_def)
  then show ?thesis using entry_at_path by simp
qed

lemma dir_entries_memI:
  "map_of d path \<noteq> None \<Longrightarrow> entry_at d dir path = Some e \<Longrightarrow> e \<in> set (dir_entries d dir)"
proof -
  assume a: "map_of d path \<noteq> None" "entry_at d dir path = Some e"
  then obtain f where "(path, f) \<in> set d" by (auto dest: map_of_SomeD)
  then show ?thesis using a(2) by (force simp: dir_entries_def List.map_filter_def)
qed

lemma remove_at_filter:
  assumes "distinct (map g es)" "v < length es"
  shows "take v es @ drop (Suc v) es = filter (\<lambda>e. g e \<noteq> g (es ! v)) es"
proof -
  have es: "es = take v es @ es ! v # drop (Suc v) es" using assms(2) by (rule id_take_nth_drop)
  have d: "distinct (map g (take v es @ es ! v # drop (Suc v) es))" using assms(1) es by simp
  have a: "filter (\<lambda>e. g e \<noteq> g (es ! v)) (take v es) = take v es"
    "filter (\<lambda>e. g e \<noteq> g (es ! v)) (drop (Suc v) es) = drop (Suc v) es"
    using d by (auto simp: filter_id_conv image_iff)
  have "filter (\<lambda>e. g e \<noteq> g (es ! v)) es
      = filter (\<lambda>e. g e \<noteq> g (es ! v)) (take v es @ es ! v # drop (Suc v) es)"
    using es by simp
  then show ?thesis using a by simp
qed

lemma total_size_remove:
  "v < length es \<Longrightarrow> total_size es = unat (ke_file_size (es ! v)) + total_size (take v es @ drop (Suc v) es)"
proof -
  assume v: "v < length es"
  have "total_size es = total_size (take v es @ es ! v # drop (Suc v) es)"
    using id_take_nth_drop [OF v] by simp
  then show ?thesis by (simp add: total_size_def)
qed

subsection \<open>The victim\<close>

definition at_most :: "(kv_entry \<Rightarrow> rat) \<Rightarrow> kv_entry \<Rightarrow> kv_entry \<Rightarrow> bool" where
  "at_most score a b \<longleftrightarrow> score a < score b \<or> (score a = score b \<and> ke_last_used a \<le> ke_last_used b)"

lemma at_most_trans: "at_most score a b \<Longrightarrow> at_most score b c \<Longrightarrow> at_most score a c"
  by (auto simp: at_most_def)

lemma at_most_total: "\<not> at_most score a b \<Longrightarrow> at_most score b a"
  by (auto simp: at_most_def)

lemma victim_step_at_most:
  fixes i :: nat
  assumes "snd vs = score (es ! fst vs)"
  defines "vs' \<equiv> victim_step score es vs i"
  shows "snd vs' = score (es ! fst vs')" "at_most score (es ! fst vs') (es ! i)"
    "at_most score (es ! fst vs') (es ! fst vs)"
  using assms(1) unfolding vs'_def victim_step_def Let_def by (auto simp: at_most_def)

lemma victim_fold:
  "0 < k \<Longrightarrow> r = foldl (victim_step score es) (0, score (es ! 0)) [1..<k] \<Longrightarrow>
   snd r = score (es ! fst r) \<and> (\<forall>i<k. at_most score (es ! fst r) (es ! i))"
proof (induction k arbitrary: r)
  case (Suc k)
  show ?case
  proof (cases "k = 0")
    case True
    then show ?thesis using Suc.prems(2) by (simp add: at_most_def)
  next
    case False
    define q where "q = foldl (victim_step score es) (0, score (es ! 0)) [1..<k]"
    have IH: "snd q = score (es ! fst q)" "\<And>i. i < k \<Longrightarrow> at_most score (es ! fst q) (es ! i)"
      using Suc.IH [OF _ q_def] False by auto
    have r: "r = victim_step score es q k" using Suc.prems(2) False by (simp add: q_def)
    note step = victim_step_at_most [of q score es k, OF IH(1), folded r]
    have "at_most score (es ! fst r) (es ! i)" if "i < Suc k" for i
    proof (cases "i = k")
      case True
      then show ?thesis using step(2) by simp
    next
      case False
      then show ?thesis using at_most_trans [OF step(3) IH(2)] that by simp
    qed
    then show ?thesis using step(1) by simp
  qed
qed simp

lemma kv_victim_at_most: "i < length es \<Longrightarrow> at_most score (es ! kv_victim score es) (es ! i)"
proof -
  assume i: "i < length es"
  then have "0 < length es" by linarith
  then show ?thesis using victim_fold [OF _ refl, of "length es" score es] i by (simp add: kv_victim_def)
qed

subsection \<open>The loop\<close>

text \<open>
  What a pass that began at the disk \<open>d\<close> leaves. The checkpoints on the disk fit the target and
  the list is what a fresh scan gives; or one checkpoint could not be unlinked, is still there and
  is only missing from the list. What was removed was a checkpoint whose unlink succeeded, none of
  them worth more than one that stayed, and without the last of them the target was exceeded.
\<close>

definition pass_leaves ::
  "kv_io \<Rightarrow> (kv_entry \<Rightarrow> rat) \<Rightarrow> nat \<Rightarrow> string \<Rightarrow> disk \<Rightarrow> kv_entry list \<Rightarrow> disk \<Rightarrow> bool" where
  "pass_leaves io score target dir d es' d' \<longleftrightarrow>
     distinct (map fst d') \<and>
     (if total_size (dir_entries d' dir) \<le> target then es' = dir_entries d' dir
      else \<exists>e \<in> set (dir_entries d' dir). \<not> io_unlink io (ke_path e) \<and>
             es' = filter (\<lambda>f. ke_path f \<noteq> ke_path e) (dir_entries d' dir)) \<and>
     (\<forall>p. map_of d' p = map_of d p \<or> (map_of d' p = None \<and> io_unlink io p \<and> entry_at d dir p \<noteq> None)) \<and>
     (\<forall>e \<in> set (dir_entries d dir). map_of d' (ke_path e) = None \<longrightarrow>
        (\<forall>f \<in> set (dir_entries d' dir). at_most score e f)) \<and>
     (d' = d \<or> (\<exists>e \<in> set (dir_entries d dir). map_of d' (ke_path e) = None \<and>
        target < total_size (dir_entries d' dir) + unat (ke_file_size e)))"

lemma dir_entries_on_disk: "e \<in> set (dir_entries d dir) \<Longrightarrow> map_of d (ke_path e) \<noteq> None"
  unfolding dir_entries_def List.map_filter_def
  by (auto simp: entry_at_path map_of_eq_None_iff image_iff) (metis fst_conv)

lemma dir_entries_gone: "map_of d (ke_path e) = None \<Longrightarrow> e \<notin> set (dir_entries d dir)"
  using dir_entries_on_disk by blast

lemma pass_leaves_stop:
  assumes "distinct (map fst d)" "total_size (dir_entries d dir) \<le> target"
  shows "pass_leaves io score target dir d (dir_entries d dir) d"
  using assms dir_entries_gone by (auto simp: pass_leaves_def)

lemma pass_leaves_stuck:
  assumes "distinct (map fst d)" "target < total_size (dir_entries d dir)" "e \<in> set (dir_entries d dir)"
    "\<not> io_unlink io (ke_path e)"
  shows "pass_leaves io score target dir d (filter (\<lambda>f. ke_path f \<noteq> ke_path e) (dir_entries d dir)) d"
  using assms dir_entries_gone by (auto simp: pass_leaves_def)

lemma dir_entries_after:
  assumes "f \<in> set (dir_entries d' dir)" "\<And>p. map_of d' p = map_of d p \<or> map_of d' p = None"
  shows "f \<in> set (dir_entries d dir)"
proof -
  have m: "map_of d' (ke_path f) = map_of d (ke_path f)"
    using dir_entries_on_disk [OF assms(1)] assms(2) by metis
  then have "entry_at d dir (ke_path f) = Some f"
    using dir_entries_mem [OF assms(1)] entry_at_cong [OF m] by simp
  then show ?thesis using dir_entries_memI dir_entries_on_disk [OF assms(1)] m by metis
qed

lemma pass_leaves_step:
  assumes "pass_leaves io score target dir (AList.delete (ke_path e) d) es' d'"
    and e: "e \<in> set (dir_entries d dir)" "io_unlink io (ke_path e)"
    "\<And>f. f \<in> set (dir_entries d dir) \<Longrightarrow> at_most score e f"
    and over: "target < total_size (dir_entries (AList.delete (ke_path e) d) dir) + unat (ke_file_size e)"
  shows "pass_leaves io score target dir d es' d'"
proof -
  let ?q = "ke_path e" and ?d = "AList.delete (ke_path e) d"
  note P = assms(1) [unfolded pass_leaves_def]
  note P3 = conjunct1 [OF conjunct2 [OF conjunct2 [OF P]]]
    and P4 = conjunct1 [OF conjunct2 [OF conjunct2 [OF conjunct2 [OF P]]]]
    and P5 = conjunct2 [OF conjunct2 [OF conjunct2 [OF conjunct2 [OF P]]]]
  have ent: "entry_at d dir ?q = Some e" by (rule dir_entries_mem [OF e(1)])
  have gone: "map_of d' ?q = None" using P3 by (metis delete_conv' fun_upd_same)
  have changed: "map_of d' p = map_of d p \<or> (map_of d' p = None \<and> io_unlink io p \<and> entry_at d dir p \<noteq> None)" for p
  proof (cases "p = ?q")
    case True
    then show ?thesis using gone ent e(2) by simp
  next
    case False
    then have m: "map_of ?d p = map_of d p" by (simp add: delete_conv')
    have "map_of d' p = map_of ?d p \<or> (map_of d' p = None \<and> io_unlink io p \<and> entry_at ?d dir p \<noteq> None)"
      by (rule spec [OF P3])
    then show ?thesis unfolding m entry_at_cong [OF m] .
  qed
  have sub: "f \<in> set (dir_entries d dir)" if "f \<in> set (dir_entries d' dir)" for f
  proof (rule dir_entries_after [OF that])
    show "map_of d' p = map_of d p \<or> map_of d' p = None" for p using changed [of p] by argo
  qed
  have best: "at_most score g f"
    if "g \<in> set (dir_entries d dir)" "map_of d' (ke_path g) = None" "f \<in> set (dir_entries d' dir)" for g f
  proof (cases "ke_path g = ?q")
    case True
    then have "Some g = Some e" using dir_entries_mem [OF that(1)] ent by metis
    then show ?thesis using e(3) [OF sub [OF that(3)]] by (simp only: option.inject)
  next
    case False
    then have "g \<in> set (dir_entries ?d dir)" using that(1) by (simp add: dir_entries_delete)
    then show ?thesis using P4 that(2,3) by blast
  qed
  have needed: "\<exists>g \<in> set (dir_entries d dir). map_of d' (ke_path g) = None \<and>
      target < total_size (dir_entries d' dir) + unat (ke_file_size g)"
  proof (cases "d' = ?d")
    case True
    then show ?thesis using e(1) gone over by blast
  next
    case False
    then obtain g where "g \<in> set (dir_entries ?d dir)" "map_of d' (ke_path g) = None"
      "target < total_size (dir_entries d' dir) + unat (ke_file_size g)" using P5 by blast
    then show ?thesis by (auto simp: dir_entries_delete)
  qed
  have best': "\<forall>g \<in> set (dir_entries d dir). map_of d' (ke_path g) = None \<longrightarrow>
      (\<forall>f \<in> set (dir_entries d' dir). at_most score g f)" using best by blast
  show ?thesis unfolding pass_leaves_def
    by (intro conjI conjunct1 [OF P] conjunct1 [OF conjunct2 [OF P]] allI changed best' disjI2 needed)
qed

lemma evict_loop_leaves:
  assumes "es = dir_entries d dir" "distinct (map fst d)" "used = total_size es"
  shows "case evict_loop io score target used es d of (es', d') \<Rightarrow> pass_leaves io score target dir d es' d'"
  using assms
proof (induction io score target used es d rule: evict_loop.induct)
  case (1 io score target used es d)
  show ?case
  proof (cases "used > target \<and> es \<noteq> []")
    case False
    then have "evict_loop io score target used es d = (es, d)" by (subst evict_loop.simps) auto
    moreover have "total_size es \<le> target" using False 1(5) by (auto simp: total_size_def)
    ultimately show ?thesis using pass_leaves_stop [OF 1(4)] 1(3) by simp
  next
    case True
    let ?v = "kv_victim score es"
    let ?e = "es ! ?v"
    let ?q = "ke_path ?e"
    let ?es = "take ?v es @ drop (Suc ?v) es"
    let ?d = "AList.delete ?q d"
    have v: "?v < length es" using kv_victim_bound True by blast
    then have e: "?e \<in> set (dir_entries d dir)" using 1(3) by auto
    have rest: "?es = filter (\<lambda>f. ke_path f \<noteq> ?q) es"
      by (rule remove_at_filter [OF _ v]) (use dir_entries_distinct [OF 1(4)] 1(3) in simp)
    show ?thesis
    proof (cases "io_unlink io ?q")
      case False
      have "evict_loop io score target used es d = evict_loop io score target 0 ?es d"
        using True False by (subst evict_loop.simps) (simp add: Let_def)
      also have "\<dots> = (?es, d)" by (subst evict_loop.simps) simp
      finally show ?thesis
        using pass_leaves_stuck [OF 1(4) _ e False, of target score] True 1(3,5) rest by simp
    next
      case ok: True
      have es': "?es = dir_entries ?d dir" using rest 1(3) by (simp add: dir_entries_delete)
      have tot: "used = unat (ke_file_size ?e) + total_size ?es" using total_size_remove [OF v] 1(5) by simp
      then have used': "(if used \<ge> unat (ke_file_size ?e) then used - unat (ke_file_size ?e) else 0) = total_size ?es"
        by simp
      have step: "evict_loop io score target used es d = evict_loop io score target (total_size ?es) ?es ?d"
        using True ok used' by (subst evict_loop.simps) (simp add: Let_def)
      have IH: "case evict_loop io score target (total_size ?es) ?es ?d of (es', d') \<Rightarrow>
          pass_leaves io score target dir ?d es' d'"
        using 1(1) [OF True refl refl refl ok es' distinct_delete [OF 1(4)]] used' by simp
      have best: "at_most score ?e f" if "f \<in> set (dir_entries d dir)" for f
        using that kv_victim_at_most [of _ es score] 1(3) by (auto simp: in_set_conv_nth)
      have over: "target < total_size (dir_entries ?d dir) + unat (ke_file_size ?e)"
        using True tot es' by simp
      show ?thesis unfolding step
        using IH pass_leaves_step [OF _ e ok best over] by (auto split: prod.splits)
    qed
  qed
qed

subsection \<open>Properties\<close>

definition idle_io :: kv_io where
  "idle_io = \<lparr> io_now = 100, io_mkdir = (\<lambda>_. True), io_opendir = True, io_fopen = (\<lambda>_. True),
     io_create = (\<lambda>_. True), io_write_fails_after = (\<lambda>_. None), io_rename = True, io_unlink = (\<lambda>_. True) \<rparr>"

definition small_store :: "nat \<Rightarrow> kvstore" where
  "small_store budget = kv_closed\<lparr> kv_enabled := True, kv_dir := ''/c'', kv_budget_bytes := budget,
     kv_opt := kv_default_options \<rparr>"

definition file_path :: "char \<Rightarrow> string" where
  "file_path c = ''/c/'' @ replicate 40 c @ ''.kv''"

definition file_bytes :: "u32 \<Rightarrow> byte list" where
  "file_bytes tokens = kv_fill_header 1 4 0 0 tokens 0 8 0 0 0 @ le_put32 0"

definition file_entry :: "char \<Rightarrow> u32 \<Rightarrow> kv_entry" where
  "file_entry c tokens = \<lparr> ke_sha = replicate 40 c, ke_path = file_path c, ke_quant_bits = 4,
     ke_model_id = 1, ke_reason = 0, ke_tokens = tokens, ke_hits = 0, ke_ctx_size = 8, ke_ext_flags = 0,
     ke_created_at = 0, ke_last_used = 0, ke_payload_bytes = 0, ke_text_bytes = 0, ke_file_size = 52 \<rparr>"

text \<open>Two checkpoints of 52 bytes, the second of the lesser value, and a file of another kind.\<close>

definition two_files :: disk where
  "two_files = [(file_path CHR ''a'', file_bytes 100), (file_path CHR ''b'', file_bytes 1), (''/c/x'', [1, 2])]"

lemma file_entry_path: "ke_path (file_entry c n) = file_path c"
  by (simp add: file_entry_def)

lemma file_entry_size: "unat (ke_file_size (file_entry c n)) = 52"
  by (simp add: file_entry_def)

lemma file_entry_score:
  "kv_eviction_score decay now None (file_entry c n) = rat_of_nat (unat n) / 52"
  by (simp add: kv_eviction_score_def kv_effective_hits_def file_entry_def Let_def
      kv_supersedes_continued_def kv_reason_is_anchor_def REASON_COLD_def REASON_EVICT_def REASON_SHUTDOWN_def)

lemma file_entry_at:
  assumes "map_of d (file_path c) = Some (file_bytes n)" "n \<noteq> 0" "isxdigit c" "tolower c = c" "c \<noteq> CHR ''/''"
  shows "entry_at d ''/c'' (file_path c) = Some (file_entry c n)"
proof -
  have dir: "in_dir ''/c'' (file_path c) = Some (replicate 40 c @ ''.kv'')"
    using assms(5) by (simp add: in_dir_def kv_path_join_def file_path_def Let_def eval_nat_numeral)
  have name: "kv_sha_hex_name (replicate 40 c @ ''.kv'') = Some (replicate 40 c)"
    using assms(3,4) by (simp add: kv_sha_hex_name_def list_all_iff map_replicate_const [symmetric])
  have h: "kv_read_header (file_bytes n) = Some ((file_entry c n)\<lparr>ke_sha := [], ke_path := [], ke_file_size := 0\<rparr>, 0)"
    using read_fill_header [of n 4 0 1 0 0 8 0 0 0 0 "[]"] assms(2)
    by (simp add: file_bytes_def file_entry_def REASON_AGENT_SESSION_def)
  have l: "length (file_bytes n) = 52" by (simp add: file_bytes_def FIXED_HEADER_def)
  have path: "kv_path_join ''/c'' (replicate 40 c @ ''.kv'') = file_path c"
    by (simp add: kv_path_join_def file_path_def)
  show ?thesis
    using assms(1) by (simp add: entry_at_def dir name path kv_read_entry_file_def h l
        FIXED_HEADER_def UINT64_MAX_def Let_def file_entry_def)
qed

lemma two_files_lookup:
  "map_of two_files (file_path CHR ''a'') = Some (file_bytes 100)"
  "map_of two_files (file_path CHR ''b'') = Some (file_bytes 1)" "map_of two_files ''/c/x'' = Some [1, 2]"
  "entry_at two_files ''/c'' ''/c/x'' = None"
  by (simp_all add: two_files_def file_path_def eval_nat_numeral entry_at_def in_dir_def kv_path_join_def
      kv_sha_hex_name_def)

lemma two_files_scan:
  "dir_entries two_files ''/c'' = [file_entry CHR ''a'' 100, file_entry CHR ''b'' 1]"
  "distinct (map fst two_files)" "total_size (dir_entries two_files ''/c'') < 2 ^ 64"
  "total_size (dir_entries two_files ''/c'') = 104"
proof -
  have "entry_at two_files ''/c'' (file_path CHR ''a'') = Some (file_entry CHR ''a'' 100)"
    "entry_at two_files ''/c'' (file_path CHR ''b'') = Some (file_entry CHR ''b'' 1)"
    by (rule file_entry_at; simp add: two_files_lookup isxdigit_def tolower_def)+
  then show d: "dir_entries two_files ''/c'' = [file_entry CHR ''a'' 100, file_entry CHR ''b'' 1]"
    using two_files_lookup(4) by (simp add: dir_entries_def two_files_def List.map_filter_simps)
  show "distinct (map fst two_files)" by (simp add: two_files_def file_path_def eval_nat_numeral)
  show "total_size (dir_entries two_files ''/c'') < 2 ^ 64" "total_size (dir_entries two_files ''/c'') = 104"
    by (simp_all add: d total_size_def file_entry_size)
qed

text \<open>
  Property C17. On an enabled store whose directory can be read, and whose budget the bytes asked
  for do not exceed (otherwise the pass removes nothing), an eviction pass ends
  within the budget, or at a checkpoint it could not unlink.
  In the first case the checkpoints on the disk, together with the bytes asked for, fit the
  budget and the list in memory is what a fresh scan gives. In the second a checkpoint whose
  unlink failed is still on the disk, the store is still over its budget, and the list is the
  scan without it (\<open>total = 0\<close> in the source ends the loop there). Either way only checkpoints
  of the store whose unlink succeeded were removed and nothing was rewritten; no removed
  checkpoint has a greater score than one that stays (or the same score and a later use);
  something was removed only if the last of it was needed to reach the budget; and when
  everything already fitted the disk is as it was.\<close>

theorem kv_evict_within_budget:
  assumes "kv_enabled kc" "extra \<le> kv_budget_bytes kc" "kv_budget_bytes kc \<noteq> 0" "io_opendir io"
    "distinct (map fst d)" "total_size (dir_entries d (kv_dir kc)) < 2 ^ 64"
    "kv_evict io decay kc extra incoming d = (kc', d')"
  shows "(if total_size (dir_entries d' (kv_dir kc)) + extra \<le> kv_budget_bytes kc
      then kv_entries kc' = dir_entries d' (kv_dir kc)
      else \<exists>e \<in> set (dir_entries d' (kv_dir kc)). \<not> io_unlink io (ke_path e)
        \<and> kv_entries kc' = filter (\<lambda>f. ke_path f \<noteq> ke_path e) (dir_entries d' (kv_dir kc)))
    \<and> ((\<forall>p. io_unlink io p) \<longrightarrow> total_size (dir_entries d' (kv_dir kc)) + extra \<le> kv_budget_bytes kc)
    \<and> (\<forall>p. map_of d' p = map_of d p
         \<or> (map_of d' p = None \<and> io_unlink io p \<and> entry_at d (kv_dir kc) p \<noteq> None))
    \<and> (\<forall>e \<in> set (dir_entries d (kv_dir kc)). map_of d' (ke_path e) = None \<longrightarrow>
         (\<forall>f \<in> set (dir_entries d' (kv_dir kc)).
            at_most (kv_eviction_score decay (io_now io) incoming) e f))
    \<and> (d' = d \<or> (\<exists>e \<in> set (dir_entries d (kv_dir kc)). map_of d' (ke_path e) = None
         \<and> kv_budget_bytes kc < total_size (dir_entries d' (kv_dir kc)) + extra + unat (ke_file_size e)))
    \<and> (total_size (dir_entries d (kv_dir kc)) + extra \<le> kv_budget_bytes kc \<longrightarrow> d' = d)"
proof -
  let ?es = "dir_entries d (kv_dir kc)"
  let ?sc = "kv_eviction_score decay (io_now io) incoming"
  define t where "t = kv_budget_bytes kc - extra"
  obtain es' where l: "evict_loop io ?sc t (total_size ?es) ?es d = (es', d')"
    and kc': "kv_entries kc' = es'"
    using assms(1-4,6,7)
    by (auto simp: kv_evict_def kv_refresh_def kv_clear_def Let_def t_def split: prod.splits)
  have P: "pass_leaves io ?sc t (kv_dir kc) d (kv_entries kc') d'"
    using evict_loop_leaves [OF refl assms(5) refl, of io ?sc t "kv_dir kc"] l kc' by simp
  have same: "d' = d" if "total_size ?es + extra \<le> kv_budget_bytes kc"
  proof -
    have "evict_loop io ?sc t (total_size ?es) ?es d = (?es, d)"
      using that by (subst evict_loop.simps) (auto simp: t_def)
    then show ?thesis using l by simp
  qed
  have fits: "x \<le> t \<longleftrightarrow> x + extra \<le> kv_budget_bytes kc" "t < x + y \<longleftrightarrow> kv_budget_bytes kc < x + extra + y" for x y
    using assms(2) by (auto simp: t_def)
  note P = P [unfolded pass_leaves_def fits]
  have "(\<forall>p. io_unlink io p) \<longrightarrow> total_size (dir_entries d' (kv_dir kc)) + extra \<le> kv_budget_bytes kc"
    using P by (auto split: if_splits)
  with P same show ?thesis by blast
qed

theorem kv_evict_within_budget_witness:
  "(\<exists>kc' d'. kv_evict idle_io (\<lambda>_. 1) (small_store 60) 0 None two_files = (kc', d') \<and>
      map_of d' (file_path CHR ''b'') = None \<and>
      map_of d' (file_path CHR ''a'') = Some (file_bytes 100) \<and> map_of d' ''/c/x'' = Some [1, 2]) \<and>
   (\<exists>kc' d'. kv_evict (idle_io\<lparr>io_unlink := \<lambda>_. False\<rparr>) (\<lambda>_. 1) (small_store 60) 0 None two_files = (kc', d') \<and>
      d' = two_files \<and> 60 < total_size (dir_entries d' ''/c'') \<and> length (kv_entries kc') = 1)"
  (is "?evicts \<and> ?sticks")
proof
  have s: "kv_budget_bytes (small_store 60) = 60" "kv_dir (small_store 60) = ''/c''"
    by (simp_all add: small_store_def)
  have pre: "kv_enabled (small_store 60)" "0 \<le> kv_budget_bytes (small_store 60)"
    "kv_budget_bytes (small_store 60) \<noteq> 0"
    "total_size (dir_entries two_files (kv_dir (small_store 60))) < 2 ^ 64"
    using two_files_scan(3) by (simp_all add: small_store_def)
  let ?a = "file_entry CHR ''a'' 100" and ?b = "file_entry CHR ''b'' 1"
  note t = kv_evict_within_budget [OF pre(1-3) _ two_files_scan(2) pre(4)]
  have io: "io_opendir idle_io" "\<forall>p. io_unlink idle_io p" by (simp_all add: idle_io_def)
  obtain kc' d' where e: "kv_evict idle_io (\<lambda>_. 1) (small_store 60) 0 None two_files = (kc', d')"
    by (metis prod.exhaust)
  note r = t [OF io(1) e, unfolded s add_0_right]
  have changed: "map_of d' p = map_of two_files p \<or> map_of d' p = None \<and> entry_at two_files ''/c'' p \<noteq> None" for p
    using r by blast
  have "total_size (dir_entries d' ''/c'') \<le> 60" using r io(2) by blast
  then have "d' \<noteq> two_files" using two_files_scan(4) by auto
  then obtain g where g: "g \<in> {?a, ?b}" "map_of d' (ke_path g) = None"
    "60 < total_size (dir_entries d' ''/c'') + unat (ke_file_size g)"
    using r two_files_scan(1) by auto
  have "dir_entries d' ''/c'' \<noteq> []" using g(1,3) by (auto simp: total_size_def file_entry_size)
  then obtain f where f: "f \<in> set (dir_entries d' ''/c'')" by (meson ex_in_conv set_empty)
  have f2: "f \<in> {?a, ?b}"
    using dir_entries_after [OF f, of two_files] changed unfolding two_files_scan(1) by fastforce
  have "g \<in> set (dir_entries two_files ''/c'')" using g(1) two_files_scan(1) by simp
  then have "at_most (kv_eviction_score (\<lambda>_. 1) (io_now idle_io) None) g f"
    using r g(2) f by blast
  then have gf: "g = ?b" "f = ?a"
    using g(1,2) f2 dir_entries_on_disk [OF f] by (auto simp: at_most_def file_entry_score)
  show ?evicts
    using e g(2) gf dir_entries_on_disk [OF f] changed [of "file_path CHR ''a''"] changed [of "''/c/x''"]
      two_files_lookup by (auto simp: file_entry_path)
  let ?io = "idle_io\<lparr>io_unlink := \<lambda>_. False\<rparr>"
  have io': "io_opendir ?io" "\<not> io_unlink ?io p" for p by (simp_all add: idle_io_def)
  obtain kc2 d2 where e2: "kv_evict ?io (\<lambda>_. 1) (small_store 60) 0 None two_files = (kc2, d2)"
    by (metis prod.exhaust)
  note r2 = t [OF io'(1) e2, unfolded s add_0_right]
  have "d2 = two_files"
  proof (rule ccontr)
    assume "d2 \<noteq> two_files"
    then obtain h where h: "h \<in> set (dir_entries two_files ''/c'')" "map_of d2 (ke_path h) = None"
      using r2 by blast
    then show False using r2 io'(2) dir_entries_on_disk [OF h(1)] by metis
  qed
  then show ?sticks
    using e2 r2 two_files_scan(1,4) by (auto simp: file_entry_path file_path_def)
qed

text \<open>
  The eviction takes the least valuable checkpoint first: the victim has the least
  score, and among those the oldest use; a checkpoint that a store of an extension of its text
  makes redundant is scored at half of its value or less.\<close>

lemma kv_victim_least:
  "list_all (\<lambda>e. score (es ! kv_victim score es) < score e
       \<or> (score (es ! kv_victim score es) = score e
          \<and> ke_last_used (es ! kv_victim score es) \<le> ke_last_used e)) es
   \<and> (kv_supersedes_continued e0 incoming \<longrightarrow> (\<forall>n. 0 \<le> decay n) \<longrightarrow>
       2 * kv_eviction_score decay now incoming e0 \<le> kv_eviction_score decay now None e0)"
proof (intro conjI impI)
  show "list_all (\<lambda>e. score (es ! kv_victim score es) < score e
       \<or> (score (es ! kv_victim score es) = score e
          \<and> ke_last_used (es ! kv_victim score es) \<le> ke_last_used e)) es"
    using kv_victim_at_most [of _ es score] by (auto simp: list_all_length at_most_def)
next
  assume s: "kv_supersedes_continued e0 incoming" and nn: "\<forall>n. 0 \<le> decay n"
  define h where "h = kv_effective_hits decay now e0"
  have hits: "0 \<le> rat_of_nat (unat (ke_hits e0))" by (rule of_nat_0_le_iff)
  have h: "0 \<le> h"
    unfolding h_def kv_effective_hits_def Let_def using nn hits by (simp del: of_nat_unat)
  define x where "x = (if h > 0 then h / (h + 1) else 0)"
  have x: "0 \<le> x" "x \<le> 1" using h by (auto simp: x_def field_simps)
  define s1 where "s1 = (h + 1) * rat_of_nat (unat (ke_tokens e0)) / rat_of_nat (unat (ke_file_size e0))
    * (if kv_reason_is_anchor (ke_reason e0) then 2 else 1)"
  have s1: "0 \<le> s1" unfolding s1_def using h by (simp del: of_nat_unat)
  have "s1 * (1 / 20 + 9 / 20 * x) * 2 \<le> s1"
  proof -
    have "(1 / 20 + 9 / 20 * x) * 2 \<le> 1" using x by simp
    then have "s1 * ((1 / 20 + 9 / 20 * x) * 2) \<le> s1 * 1" using s1 by (rule mult_left_mono)
    then show ?thesis by (simp add: mult.assoc)
  qed
  then show "2 * kv_eviction_score decay now incoming e0 \<le> kv_eviction_score decay now None e0"
    using s unfolding kv_eviction_score_def Let_def h_def [symmetric] x_def [symmetric]
    by (auto simp: s1_def kv_supersedes_continued_def mult.commute)
qed

definition waypoint :: kv_entry where
  "waypoint = (kv_header_entry (replicate 48 1) 1)\<lparr> ke_reason := REASON_CONTINUED, ke_file_size := 100,
     ke_ctx_size := 9, ke_sha := sha1_bytes_hex [65] \<rparr>"

definition extending_store :: eviction_context where
  "extending_store = \<lparr> ic_text = [65, 66], ic_model_id = 1, ic_quant_bits = 4, ic_ctx_size = 5,
     ic_reject_different_quant = False \<rparr>"

text \<open>
  The cadence of continued checkpoints: a position is chosen only if it is a
  multiple of the step, past the minimum and past the last store, the step is the interval
  rounded up to the alignment, and once noted the position is not chosen again; suppressing a
  store and restoring it leaves the store as it was.\<close>

lemma kv_continued_cadence:
  assumes "kv_enabled kc" "0 < ko_continued_interval_tokens (kv_opt kc)"
    "0 < ko_boundary_align_tokens (kv_opt kc)"
    "ko_continued_interval_tokens (kv_opt kc) + ko_boundary_align_tokens (kv_opt kc) \<le> INT32_MAX"
    "0 \<le> kv_continued_last_store_tokens kc"
    "kv_continued_store_target kc n = t" "t \<noteq> 0"
  shows "t = n \<and> ko_min_tokens (kv_opt kc) \<le> t \<and> kv_continued_last_store_tokens kc < t
    \<and> kv_continued_step kc dvd t \<and> ko_boundary_align_tokens (kv_opt kc) dvd kv_continued_step kc
    \<and> ko_continued_interval_tokens (kv_opt kc) \<le> kv_continued_step kc
    \<and> kv_continued_step kc < ko_continued_interval_tokens (kv_opt kc) + ko_boundary_align_tokens (kv_opt kc)
    \<and> kv_continued_store_target (kv_note_store kc t) n = 0
    \<and> (case kv_suppress_continued_store kc t of (old, kc') \<Rightarrow>
         kv_restore_suppressed_continued kc' old t = kc)"
proof -
  let ?i = "ko_continued_interval_tokens (kv_opt kc)" and ?a = "ko_boundary_align_tokens (kv_opt kc)"
  define m where "m = (?i + ?a - 1) div ?a * ?a"
  have m: "?a dvd m" "?i \<le> m" "m < ?i + ?a"
  proof -
    have "m = ?i + ?a - 1 - (?i + ?a - 1) mod ?a" by (simp add: m_def minus_mod_eq_div_mult)
    moreover have "0 \<le> (?i + ?a - 1) mod ?a" "(?i + ?a - 1) mod ?a < ?a" using assms(3) by simp_all
    ultimately show "?i \<le> m" "m < ?i + ?a" by linarith+
  qed (simp add: m_def)
  have c1: "cast_i32 (?i + ?a - 1) = ?i + ?a - 1" using assms(2-4) by (intro cast_i32_id) auto
  have c2: "cast_i32 m = m" using m assms(2,4) by (intro cast_i32_id) auto
  have step: "kv_continued_step kc = m"
    unfolding kv_continued_step_def Let_def c1 m_def [symmetric] c2 using assms(1-3) m(2) by simp
  have t: "t = n" "ko_min_tokens (kv_opt kc) \<le> t" "kv_continued_last_store_tokens kc < t" "c_rem t m = 0"
    using assms(6,7) unfolding kv_continued_store_target_def Let_def step by (auto split: if_splits)
  have dv: "m dvd t" using t(3,4) assms(5) by (simp add: c_rem_def dvd_eq_mod_eq_0)
  have note_eq: "kv_note_store kc t = kc\<lparr> kv_continued_last_store_tokens := t \<rparr>"
    using t(3) by (simp add: kv_note_store_def)
  have again: "kv_continued_store_target (kv_note_store kc t) n = 0"
    unfolding kv_continued_store_target_def Let_def note_eq using t(1) by simp
  have sup: "kv_suppress_continued_store kc t = (kv_continued_last_store_tokens kc, kv_note_store kc t)"
    using assms(6) t(1) by (simp add: kv_suppress_continued_store_def)
  have "kv_restore_suppressed_continued (kv_note_store kc t) (kv_continued_last_store_tokens kc) t = kc"
    unfolding note_eq kv_restore_suppressed_continued_def using assms(5) by simp
  then show ?thesis unfolding sup prod.case using t dv m step again by simp
qed

end
