(* ===== verification/Kv_Store_Load.thy ===== *)
theory Kv_Store_Load
  imports Kv_Evict
begin

text \<open>
  Storing and loading checkpoints: what a store leaves on the disk in every outcome, that a
  stored checkpoint is found by every prompt that extends its text, that the lookup returns
  the longest match, and what a load that reports tokens guarantees.
\<close>

subsection \<open>File names\<close>

lemma hex_chars_ok:
  "list_all (\<lambda>n. isxdigit (hex_char n) \<and> tolower (hex_char n) = hex_char n \<and> hex_char n \<noteq> CHR ''/'') [0..<16]"
  by code_simp

lemma hex_char_ok:
  "n < 16 \<Longrightarrow> isxdigit (hex_char n) \<and> tolower (hex_char n) = hex_char n \<and> hex_char n \<noteq> CHR ''/''"
  using hex_chars_ok unfolding list_all_iff by (metis atLeastLessThan_iff set_upt zero_le)

lemma nibbles: "unat (drop_bit 4 (b :: byte)) < 16" "unat (b AND 15 :: byte) < 16"
proof -
  have "unat b < 256" using unsigned_less [of b, where ?'a = nat] by simp
  then show "unat (drop_bit 4 b) < 16" unfolding unsigned_drop_bit_eq drop_bit_nat_def
    by (simp add: take_bit_nat_eq_self)
  have "b AND 15 \<le> 15" by (rule word_and_le1)
  then show "unat (b AND 15) < 16" by (simp add: word_le_nat_alt)
qed

lemma hex20_chars:
  "c \<in> set (hex20 bs) \<Longrightarrow> isxdigit c \<and> tolower c = c \<and> c \<noteq> CHR ''/''"
  using hex_char_ok nibbles by (auto simp: hex20_def)

lemma sha_name: "kv_sha_hex_name (sha1_bytes_hex t @ ''.kv'') = Some (sha1_bytes_hex t)"
proof -
  have c: "\<And>c. c \<in> set (sha1_bytes_hex t) \<Longrightarrow> isxdigit c \<and> tolower c = c"
    using hex20_chars by (auto simp: sha1_bytes_hex_eq)
  have m: "map tolower (sha1_bytes_hex t) = sha1_bytes_hex t"
    using c by (simp add: map_idI)
  show ?thesis
    using c by (simp add: kv_sha_hex_name_def sha1_bytes_hex_length list_all_iff m)
qed

lemma sha_path_in_dir: "in_dir dir (kv_path_for_sha dir (sha1_bytes_hex t)) = Some (sha1_bytes_hex t @ ''.kv'')"
proof -
  have s: "CHR ''/'' \<notin> set (sha1_bytes_hex t)"
    using hex20_chars by (auto simp: sha1_bytes_hex_eq)
  show ?thesis
    unfolding in_dir_def kv_path_for_sha_def Let_def path_join_append [of dir "sha1_bytes_hex t @ ''.kv''"]
    using s by simp
qed

lemma entry_at_sha:
  "entry_at d dir (kv_path_for_sha dir (sha1_bytes_hex t)) =
   kv_read_entry_file d (kv_path_for_sha dir (sha1_bytes_hex t)) (sha1_bytes_hex t)"
  unfolding entry_at_def sha_path_in_dir by (simp add: sha_name kv_path_for_sha_def)

subsection \<open>The lookup\<close>

definition prefix_match :: "kvstore \<Rightarrow> byte list \<Rightarrow> int \<Rightarrow> int \<Rightarrow> int \<Rightarrow> kv_entry \<Rightarrow> bool" where
  "prefix_match kc p model quant ctx e \<longleftrightarrow>
     kv_usable kc p model quant ctx e \<and> sha1_bytes_hex (take (unat (ke_text_bytes e)) p) = ke_sha e"

definition no_longer :: "kv_entry \<Rightarrow> kv_entry \<Rightarrow> bool" where
  "no_longer a b \<longleftrightarrow> ke_text_bytes a < ke_text_bytes b
     \<or> (ke_text_bytes a = ke_text_bytes b \<and> ke_tokens a \<le> ke_tokens b)"

lemma no_longer_trans: "no_longer a b \<Longrightarrow> no_longer b c \<Longrightarrow> no_longer a c"
  by (auto simp: no_longer_def)

lemma no_longer_total: "\<not> no_longer a b \<Longrightarrow> no_longer b a"
  by (auto simp: no_longer_def)

lemma find_step_eq:
  "find_step kc p model quant ctx best i =
     (if prefix_match kc p model quant ctx (kv_entries kc ! i)
         \<and> (case best of None \<Rightarrow> True | Some b \<Rightarrow> \<not> no_longer (kv_entries kc ! i) (kv_entries kc ! b))
      then Some i else best)"
  by (auto simp: find_step_def prefix_match_def no_longer_def Let_def split: option.splits)

lemma find_fold:
  "case foldl (find_step kc p model quant ctx) None [0..<k] of
     None \<Rightarrow> \<forall>i<k. \<not> prefix_match kc p model quant ctx (kv_entries kc ! i)
   | Some b \<Rightarrow> b < k \<and> prefix_match kc p model quant ctx (kv_entries kc ! b)
       \<and> (\<forall>i<k. prefix_match kc p model quant ctx (kv_entries kc ! i) \<longrightarrow>
              no_longer (kv_entries kc ! i) (kv_entries kc ! b))"
proof (induction k)
  case (Suc k)
  let ?M = "\<lambda>i. prefix_match kc p model quant ctx (kv_entries kc ! i)"
  let ?r = "foldl (find_step kc p model quant ctx) None [0..<k]"
  have step: "foldl (find_step kc p model quant ctx) None [0..<Suc k] = find_step kc p model quant ctx ?r k"
    by simp
  show ?case
  proof (cases ?r)
    case None
    have "\<forall>i<k. \<not> ?M i" using Suc None by simp
    moreover have "foldl (find_step kc p model quant ctx) None [0..<Suc k] = (if ?M k then Some k else None)"
      using find_step_eq [of kc p model quant ctx None k] by (simp only: step None) simp
    ultimately show ?thesis by (auto simp: less_Suc_eq no_longer_def)
  next
    case (Some b)
    have b: "b < k" "?M b" "\<And>i. i < k \<Longrightarrow> ?M i \<Longrightarrow> no_longer (kv_entries kc ! i) (kv_entries kc ! b)"
      using Suc Some by auto
    have new: "no_longer (kv_entries kc ! i) (kv_entries kc ! k)"
      if "\<not> no_longer (kv_entries kc ! k) (kv_entries kc ! b)" "i < k" "?M i" for i
      by (rule no_longer_trans [OF b(3) [OF that(2,3)] no_longer_total [OF that(1)]])
    have "foldl (find_step kc p model quant ctx) None [0..<Suc k] =
        (if ?M k \<and> \<not> no_longer (kv_entries kc ! k) (kv_entries kc ! b) then Some k else Some b)"
      using find_step_eq [of kc p model quant ctx "Some b" k] by (simp only: step Some) simp
    moreover have "no_longer (kv_entries kc ! k) (kv_entries kc ! k)" by (simp add: no_longer_def)
    ultimately show ?thesis using b new by (auto simp: less_Suc_eq)
  qed
qed simp

lemma find_text_prefix_refresh:
  "kv_find_text_prefix io kc d (Some p) model quant ctx =
     (foldl (find_step (kv_refresh io kc d) p model quant ctx) None [0..<length (kv_entries (kv_refresh io kc d))],
      kv_refresh io kc d)"
  by (simp add: kv_find_text_prefix_def Let_def)

lemma refresh_frame [frame_simps]:
  "kv_dir (kv_refresh io kc d) = kv_dir kc" "kv_opt (kv_refresh io kc d) = kv_opt kc"
  "kv_enabled (kv_refresh io kc d) = kv_enabled kc"
  "kv_budget_bytes (kv_refresh io kc d) = kv_budget_bytes kc"
  "kv_reject_different_quant (kv_refresh io kc d) = kv_reject_different_quant kc"
  by (simp_all add: kv_refresh_def kv_clear_def)

lemma refresh_entries:
  "kv_enabled kc \<Longrightarrow> io_opendir io \<Longrightarrow> kv_entries (kv_refresh io kc d) = dir_entries d (kv_dir kc)"
  by (simp add: kv_refresh_def kv_clear_def)

lemma find_at_least:
  assumes "kv_enabled kc" "io_opendir io" "e \<in> set (dir_entries d (kv_dir kc))"
    "prefix_match (kv_refresh io kc d) p model quant ctx e"
  obtains i where "fst (kv_find_text_prefix io kc d (Some p) model quant ctx) = Some i"
    "i < length (dir_entries d (kv_dir kc))" "no_longer e (dir_entries d (kv_dir kc) ! i)"
proof -
  let ?kc = "kv_refresh io kc d" and ?es = "dir_entries d (kv_dir kc)"
  have es: "kv_entries ?kc = ?es" by (rule refresh_entries [OF assms(1,2)])
  obtain k where k: "k < length ?es" "?es ! k = e" using assms(3) by (auto simp: in_set_conv_nth)
  have f: "fst (kv_find_text_prefix io kc d (Some p) model quant ctx)
      = foldl (find_step ?kc p model quant ctx) None [0..<length ?es]"
    by (simp add: find_text_prefix_refresh es)
  show ?thesis
    using find_fold [where kc = ?kc and p = p and model = model and quant = quant and ctx = ctx and k = "length ?es"] k assms(4) that
    unfolding f es by (auto split: option.splits)
qed

lemma find_longest:
  assumes "kv_enabled kc" "io_opendir io"
    "kv_find_text_prefix io kc d (Some p) model quant ctx = (r, kc')"
  shows "case r of
      None \<Rightarrow> list_all (\<lambda>e. \<not> prefix_match kc p model quant ctx e) (dir_entries d (kv_dir kc))
    | Some b \<Rightarrow> b < length (dir_entries d (kv_dir kc))
        \<and> prefix_match kc p model quant ctx (dir_entries d (kv_dir kc) ! b)
        \<and> list_all (\<lambda>e. prefix_match kc p model quant ctx e \<longrightarrow> no_longer e (dir_entries d (kv_dir kc) ! b))
            (dir_entries d (kv_dir kc))"
proof -
  let ?kc = "kv_refresh io kc d" and ?es = "dir_entries d (kv_dir kc)"
  have es: "kv_entries ?kc = ?es" by (rule refresh_entries [OF assms(1,2)])
  have pm: "prefix_match ?kc = prefix_match kc"
    by (intro ext) (simp add: prefix_match_def kv_usable_def frame_simps)
  have "r = foldl (find_step ?kc p model quant ctx) None [0..<length ?es]"
    using assms(3) by (auto simp: find_text_prefix_refresh es)
  then show ?thesis
    using find_fold [where kc = ?kc and p = p and model = model and quant = quant and ctx = ctx and k = "length ?es"]
    unfolding es pm by (auto simp: list_all_length split: option.splits)
qed

subsection \<open>Frames\<close>

lemma evict_loop_frame:
  "map_of (snd (evict_loop io score target used es d)) p = map_of d p
   \<or> map_of (snd (evict_loop io score target used es d)) p = None"
proof (induction io score target used es d rule: evict_loop.induct)
  case (1 io score target used es d)
  show ?case
  proof (cases "used > target \<and> es \<noteq> []")
    case False
    then show ?thesis by (subst (1 2) evict_loop.simps) auto
  next
    case True
    let ?e = "es ! kv_victim score es"
    show ?thesis
    proof (cases "io_unlink io (ke_path ?e)")
      case ok: True
      have "map_of (AList.delete (ke_path ?e) d) p = map_of d p \<or> map_of (AList.delete (ke_path ?e) d) p = None"
        by (simp add: delete_conv')
      then show ?thesis
        using 1(1) [OF True refl refl refl ok] True ok by (subst (1 2) evict_loop.simps) (auto simp: Let_def)
    next
      case bad: False
      then show ?thesis
        using 1(2) [OF True refl refl refl bad] True by (subst (1 2) evict_loop.simps) (auto simp: Let_def)
    qed
  qed
qed

lemma evict_frame:
  "kv_evict io decay kc extra incoming d = (kc', d') \<Longrightarrow>
   (map_of d' p = map_of d p \<or> map_of d' p = None) \<and> kv_dir kc' = kv_dir kc \<and> kv_opt kc' = kv_opt kc
   \<and> kv_enabled kc' = kv_enabled kc \<and> kv_budget_bytes kc' = kv_budget_bytes kc
   \<and> kv_reject_different_quant kc' = kv_reject_different_quant kc"
proof -
  assume e: "kv_evict io decay kc extra incoming d = (kc', d')"
  show ?thesis
  proof (cases "\<not> kv_enabled kc \<or> kv_budget_bytes kc = 0 \<or> extra > kv_budget_bytes kc")
    case True
    then have "kv_evict io decay kc extra incoming d = (kc, d)" by (auto simp: kv_evict_def)
    then show ?thesis using e by simp
  next
    case False
    let ?kc = "kv_refresh io kc d"
    obtain es d1 where l: "evict_loop io (kv_eviction_score decay (io_now io) incoming)
        (kv_budget_bytes kc - extra) (total_size (kv_entries ?kc) mod 2 ^ 64) (kv_entries ?kc) d = (es, d1)"
      by (metis prod.exhaust)
    have "kv_evict io decay kc extra incoming d = (?kc\<lparr> kv_entries := es \<rparr>, d1)"
      unfolding kv_evict_def Let_def l prod.case using False by simp
    then have r: "kc' = ?kc\<lparr> kv_entries := es \<rparr>" "d' = d1" using e by simp_all
    have "map_of d1 p = map_of d p \<or> map_of d1 p = None"
      using evict_loop_frame [of io "kv_eviction_score decay (io_now io) incoming"
          "kv_budget_bytes kc - extra" "total_size (kv_entries ?kc) mod 2 ^ 64" "kv_entries ?kc" d p]
      unfolding l by simp
    then show ?thesis unfolding r by (simp add: frame_simps)
  qed
qed

lemma commit_frame:
  assumes "kv_commit_file io kc d tmp path img tn pn tr = (ok, d')" "q \<noteq> tmp"
  shows "map_of d' q = (if ok \<and> q = path then Some (img @ fst tr) else map_of d q)"
  using assms by (auto simp: kv_commit_file_def Let_def update_conv' delete_conv' split: if_splits)

lemma existing_frame:
  "kv_existing_compatible io kc d path sha text m q c = (b, d') \<Longrightarrow>
   map_of d' p = map_of d p \<or> (\<not> b \<and> p = path \<and> map_of d' p = None)"
  by (auto simp: kv_existing_compatible_def delete_conv' split: option.splits if_splits)

subsection \<open>The store\<close>

text \<open>The outcomes of a store: refused, an existing checkpoint kept, or a new file written.\<close>

lemma store_cases [consumes 3, case_names refused kept dropped written]:
  assumes "kv_store_live_prefix_text io decay pid kc en ss (Some ts) store_len reason ov x hooks d = (ok, kc', d')"
    "text = kv_store_text en (kv_tokens_copy_prefix ts store_len) ov"
    "path = kv_path_for_sha (kv_dir kc) (sha1_bytes_hex text)"
  obtains (refused) "\<not> ok" "kc' = kc" "d' = d"
  | (kept) "ok" "kc' = kc" "map_of d path \<noteq> None" "d' = kv_rewrite_trailer io d path text hooks"
  | (dropped) d1 where "\<not> ok" "kc' = kc"
      "kv_existing_compatible io kc d path (sha1_bytes_hex text) text (en_model_id en)
         (en_routed_quant_bits en) (ks_ctx ss) = (False, d1)" "d' = d1"
  | (written) d1 d2 payload est ic ext where
      "kv_existing_compatible io kc d path (sha1_bytes_hex text) text (en_model_id en)
         (en_routed_quant_bits en) (ks_ctx ss) = (False, d1)"
      "ko_min_tokens (kv_opt kc) \<le> store_len" "ks_tokens ss = Some (kv_tokens_copy_prefix ts store_len)"
      "en_routed_quant_bits en = 2 \<or> en_routed_quant_bits en = 4" "length text \<le> UINT32_MAX"
      "ks_stage_payload ss = Some payload" "kv_evict io decay kc est (Some ic) d1 = (kc', d2)"
      "kv_commit_file io kc' d2 (kv_tmp_path path pid) path
         (kv_image io en ss (kv_reason_code (Some reason)) ext (length (kv_tokens_copy_prefix ts store_len)) text payload)
         (length text) (length payload) (kv_trailer_write hooks text) = (ok, d')"
proof -
  obtain b d1 where ex: "kv_existing_compatible io kc d path (sha1_bytes_hex text) text (en_model_id en)
      (en_routed_quant_bits en) (ks_ctx ss) = (b, d1)" by (metis prod.exhaust)
  have run: "kv_store_live_prefix_text io decay pid kc en ss (Some ts) store_len reason ov x hooks d =
    (if \<not> kv_enabled kc \<or> store_len < ko_min_tokens (kv_opt kc)
        \<or> (en_routed_quant_bits en \<noteq> 2 \<and> en_routed_quant_bits en \<noteq> 4)
        \<or> ks_tokens ss \<noteq> Some (kv_tokens_copy_prefix ts store_len) \<or> length text > UINT32_MAX
        \<or> kv_trailer_serialized_size hooks text = None then (False, kc, d)
     else if b then (True, kc, kv_rewrite_trailer io d1 path text hooks)
     else case ks_stage_payload ss of None \<Rightarrow> (False, kc, d1)
       | Some payload \<Rightarrow>
         (case kv_file_size_fits kc (length text) (length payload) (the (kv_trailer_serialized_size hooks text)) of
            None \<Rightarrow> (False, kc, d1)
          | Some est \<Rightarrow>
            let ic = \<lparr> ic_text = text, ic_model_id = of_int (en_model_id en),
                       ic_quant_bits = of_int (en_routed_quant_bits en), ic_ctx_size = of_int (ks_ctx ss),
                       ic_reject_different_quant = kv_reject_different_quant kc \<rparr>;
                (kc1, d2) = kv_evict io decay kc est (Some ic) d1;
                ext = kv_ext_flags hooks (the (kv_trailer_serialized_size hooks text))
                        (case ov of None \<Rightarrow> False | Some t \<Rightarrow> t \<noteq> []) x;
                img = kv_image io en ss (kv_reason_code (Some reason)) ext
                        (length (kv_tokens_copy_prefix ts store_len)) text payload;
                (ok, d3) = kv_commit_file io kc1 d2 (kv_tmp_path path pid) path img
                             (length text) (length payload) (kv_trailer_write hooks text)
            in (ok, kc1, d3)))"
    unfolding kv_store_live_prefix_text_def option.case Let_def assms(2) [symmetric] assms(3) [symmetric] ex
    by (auto split: option.splits bool.splits)
  have kept_d: "d1 = d \<and> map_of d path \<noteq> None" if b
    using ex that by (auto simp: kv_existing_compatible_def split: option.splits if_splits)
  show ?thesis
  proof (cases "\<not> kv_enabled kc \<or> store_len < ko_min_tokens (kv_opt kc)
        \<or> (en_routed_quant_bits en \<noteq> 2 \<and> en_routed_quant_bits en \<noteq> 4)
        \<or> ks_tokens ss \<noteq> Some (kv_tokens_copy_prefix ts store_len) \<or> length text > UINT32_MAX
        \<or> kv_trailer_serialized_size hooks text = None")
    case True
    then show ?thesis using assms(1) refused unfolding run by auto
  next
    case go: False
    show ?thesis
    proof (cases b)
      case True
      then show ?thesis using assms(1) go kept kept_d unfolding run by auto
    next
      case b: False
      show ?thesis
      proof (cases "ks_stage_payload ss")
        case None
        then show ?thesis using assms(1) go b dropped [of d1] ex unfolding run by auto
      next
        case pay: (Some payload)
        show ?thesis
        proof (cases "kv_file_size_fits kc (length text) (length payload)
            (the (kv_trailer_serialized_size hooks text))")
          case None
          then show ?thesis using assms(1) go b pay dropped [of d1] ex unfolding run by auto
        next
          case (Some est)
          define ic where "ic = \<lparr> ic_text = text, ic_model_id = of_int (en_model_id en),
              ic_quant_bits = of_int (en_routed_quant_bits en), ic_ctx_size = of_int (ks_ctx ss),
              ic_reject_different_quant = kv_reject_different_quant kc \<rparr>"
          obtain kc1 d2 where ev: "kv_evict io decay kc est (Some ic) d1 = (kc1, d2)" by (metis prod.exhaust)
          define ext where "ext = kv_ext_flags hooks (the (kv_trailer_serialized_size hooks text))
              (case ov of None \<Rightarrow> False | Some t \<Rightarrow> t \<noteq> []) x"
          obtain ok3 d3 where cm: "kv_commit_file io kc1 d2 (kv_tmp_path path pid) path
              (kv_image io en ss (kv_reason_code (Some reason)) ext
                (length (kv_tokens_copy_prefix ts store_len)) text payload)
              (length text) (length payload) (kv_trailer_write hooks text) = (ok3, d3)" by (metis prod.exhaust)
          have "kv_store_live_prefix_text io decay pid kc en ss (Some ts) store_len reason ov x hooks d = (ok3, kc1, d3)"
            unfolding run pay option.case Some Let_def ic_def [symmetric] ev prod.case ext_def [symmetric] cm
            using go b by auto
          then have r: "ok = ok3" "kc' = kc1" "d' = d3" using assms(1) by simp_all
          show ?thesis
            using written [of d1 payload est ic d2 ext] ex b go pay ev cm unfolding r by auto
        qed
      qed
    qed
  qed
qed

lemma tmp_path_neq: "kv_tmp_path path pid \<noteq> path"
  by (simp add: kv_tmp_path_def)

lemma rewrite_trailer_frame: "q \<noteq> path \<Longrightarrow> map_of (kv_rewrite_trailer io d path text hooks) q = map_of d q"
  by (auto simp: kv_rewrite_trailer_def Let_def update_conv' split: option.splits prod.splits)

lemma reason_code_le: "kv_reason_code r \<le> REASON_AGENT_SESSION"
  by (auto simp: kv_reason_code_def REASON_UNKNOWN_def REASON_COLD_def REASON_CONTINUED_def REASON_EVICT_def
      REASON_SHUTDOWN_def REASON_AGENT_SYSTEM_def REASON_AGENT_SESSION_def split: option.splits)

lemma fits_size:
  "kv_file_size_fits kc t p r \<noteq> None \<Longrightarrow> FIXED_HEADER + 4 + t + p + r < 2 ^ 64"
  by (auto simp: kv_file_size_fits_def kv_file_size_bytes_def Let_def FIXED_HEADER_def UINT64_MAX_def
      split: option.splits if_splits)

lemma commit_ok_fits:
  "kv_commit_file io kc d tmp path img tn pn tr = (True, d') \<Longrightarrow>
   kv_file_size_fits kc tn pn (length (fst tr)) \<noteq> None"
  by (auto simp: kv_commit_file_def Let_def split: if_splits)

text \<open>A written file is a valid checkpoint of its text.\<close>

lemma image_entry:
  assumes "map_of d path = Some (kv_image io en ss reason ext n text payload @ rest)"
    "reason \<le> REASON_AGENT_SESSION" "en_routed_quant_bits en = 2 \<or> en_routed_quant_bits en = 4"
    "0 < n" "n < 2 ^ 32" "length text \<le> UINT32_MAX"
    "FIXED_HEADER + 4 + length text + length payload + length rest < 2 ^ 64"
  obtains e where "kv_read_entry_file d path sha = Some e" "ke_sha e = sha"
    "unat (ke_text_bytes e) = length text" "unat (ke_tokens e) = n" "ke_model_id e = of_int (en_model_id en)"
    "ke_quant_bits e = of_int (en_routed_quant_bits en)" "ke_ctx_size e = of_int (ks_ctx ss)"
proof -
  let ?f = "kv_image io en ss reason ext n text payload @ rest"
  have n: "unat (of_nat n :: u32) = n" by (rule unat_of_nat_u32 [OF assms(5)])
  then have n0: "(of_nat n :: u32) \<noteq> 0" using assms(4) by (metis unat_0 less_numeral_extra(3))
  have t: "unat (of_nat (length text) :: u32) = length text"
    using assms(6) by (intro unat_of_nat_u32) (simp add: UINT32_MAX_def)
  have p: "unat (of_nat (length payload) :: u64) = length payload"
    using assms(7) by (intro unat_of_nat_u64) simp
  define e0 where "e0 = \<lparr> ke_sha = [], ke_path = [], ke_quant_bits = of_int (en_routed_quant_bits en),
      ke_model_id = of_int (en_model_id en), ke_reason = reason, ke_tokens = of_nat n, ke_hits = 0,
      ke_ctx_size = of_int (ks_ctx ss), ke_ext_flags = ext, ke_created_at = io_now io,
      ke_last_used = io_now io, ke_payload_bytes = of_nat (length payload),
      ke_text_bytes = ucast (of_nat (length text) :: u32), ke_file_size = 0 \<rparr>"
  have r: "kv_read_header ?f = Some (e0, of_nat (length text))"
    unfolding kv_image_def append_assoc e0_def
    by (rule read_fill_header) (use n0 assms(2,3) in auto)
  have len: "length ?f = FIXED_HEADER + 4 + length text + length payload + length rest"
    by (simp add: kv_image_def)
  have "kv_read_entry_file d path sha =
      Some (e0\<lparr> ke_sha := sha, ke_path := path, ke_file_size := of_nat (length ?f) \<rparr>)"
    unfolding kv_read_entry_file_def assms(1) option.case r prod.case Let_def t
    using assms(7) len p by (simp add: e0_def UINT64_MAX_def FIXED_HEADER_def)
  then show ?thesis
    by (rule that) (use t n in \<open>simp_all add: e0_def\<close>)
qed

subsection \<open>Properties\<close>

text \<open>
  Property C16. A store is atomic on the disk. Whatever fails, a checkpoint other than the one
  being stored is either untouched or gone, never altered; when the store fails, so is the one
  being stored; and when a new file was written it is there complete: header, text, the whole
  staged payload and the trailer.\<close>

theorem kv_store_atomic:
  assumes "kv_store_live_prefix_text io decay pid kc en ss (Some ts) store_len reason ov x hooks d = (ok, kc', d')"
    "text = kv_store_text en (kv_tokens_copy_prefix ts store_len) ov"
    "path = kv_path_for_sha (kv_dir kc) (sha1_bytes_hex text)"
  shows "(q \<noteq> kv_tmp_path path pid \<longrightarrow> (ok \<longrightarrow> q \<noteq> path) \<longrightarrow>
            map_of d' q = map_of d q \<or> map_of d' q = None)
    \<and> (ok \<longrightarrow> map_of d path = None \<longrightarrow>
        (\<exists>payload ext. ks_stage_payload ss = Some payload \<and>
          map_of d' path = Some (kv_image io en ss (kv_reason_code (Some reason)) ext
            (length (kv_tokens_copy_prefix ts store_len)) text payload @ fst (kv_trailer_write hooks text))))"
  using assms
proof (cases rule: store_cases)
  case kept
  then show ?thesis using rewrite_trailer_frame [of q path] by auto
next
  case (dropped d1)
  then show ?thesis using existing_frame [OF dropped(3), of q] by auto
next
  case (written d1 d2 payload est ic ext)
  have a: "map_of d1 q = map_of d q \<or> map_of d1 q = None" using existing_frame [OF written(1), of q] by auto
  have b: "map_of d2 q = map_of d1 q \<or> map_of d2 q = None" using evict_frame [OF written(7), of q] by simp
  have c: "map_of d' q = (if ok \<and> q = path then Some (kv_image io en ss (kv_reason_code (Some reason)) ext
      (length (kv_tokens_copy_prefix ts store_len)) text payload @ fst (kv_trailer_write hooks text))
      else map_of d2 q)" if "q \<noteq> kv_tmp_path path pid" for q
    by (rule commit_frame [OF written(8) that])
  have "map_of d' path = Some (kv_image io en ss (kv_reason_code (Some reason)) ext
      (length (kv_tokens_copy_prefix ts store_len)) text payload @ fst (kv_trailer_write hooks text))" if ok
    using c [of path] tmp_path_neq [of path pid] that by simp
  then show ?thesis using a b c [of q] written(6) by auto
qed simp

definition toy_engine :: kv_engine where
  "toy_engine = \<lparr> en_routed_quant_bits = 4, en_model_id = 1, en_token_text = (\<lambda>t. [of_int t]),
     en_tokenize_rendered_chat = map uint \<rparr>"

definition toy_session :: kv_session where
  "toy_session = \<lparr> ks_tokens = Some [65, 66], ks_ctx = 100, ks_stage_payload = Some [7, 7, 7] \<rparr>"

definition toy_store :: kvstore where
  "toy_store = (small_store 0)\<lparr> kv_opt := kv_default_options\<lparr> ko_min_tokens := 1 \<rparr> \<rparr>"

lemma toy_stored:
  "\<exists>d'. kv_store_live_prefix_text idle_io (\<lambda>_. 1) 42 toy_store toy_engine toy_session (Some [65, 66]) 2
     ''cold'' None 0 None [] = (True, toy_store, d')"
proof -
  have txt_eq: "kv_store_text toy_engine [65, 66] None = [65, 66]"
    by (simp add: kv_store_text_def kv_render_tokens_text_def toy_engine_def)
  have fits: "kv_file_size_fits toy_store (Suc (Suc 0)) (Suc (Suc (Suc 0))) 0 = Some 57"
    by (simp add: kv_file_size_fits_def kv_file_size_bytes_def toy_store_def small_store_def
        UINT64_MAX_def FIXED_HEADER_def)
  have ev: "kv_evict idle_io (\<lambda>_. 1) toy_store 57 ic [] = (toy_store, [])" for ic
    by (simp add: kv_evict_def toy_store_def small_store_def)
  have tok: "kv_tokens_copy_prefix [65, 66] 2 = [65, 66]" by (simp add: kv_tokens_copy_prefix_def)
  have st: "kv_enabled toy_store" "ko_min_tokens (kv_opt toy_store) = 1" "ks_tokens toy_session = Some [65, 66]"
    "en_routed_quant_bits toy_engine = 4" "ks_stage_payload toy_session = Some [7, 7, 7]"
    "io_create idle_io = (\<lambda>_. True)" "io_write_fails_after idle_io = (\<lambda>_. None)" "io_rename idle_io"
    by (simp_all add: toy_store_def small_store_def toy_session_def toy_engine_def idle_io_def)
  show ?thesis
    unfolding kv_store_live_prefix_text_def Let_def
    by (simp add: tok txt_eq st kv_trailer_serialized_size_def kv_existing_compatible_def fits ev UINT32_MAX_def
        kv_commit_file_def kv_trailer_write_def Let_def)
qed

theorem kv_store_atomic_witness:
  "\<exists>d' f. kv_store_live_prefix_text idle_io (\<lambda>_. 1) 42 toy_store toy_engine toy_session (Some [65, 66]) 2
     ''cold'' None 0 None [] = (True, toy_store, d')
     \<and> map_of d' (kv_path_for_sha ''/c'' (sha1_bytes_hex [65, 66])) = Some f"
proof -
  obtain d' where s: "kv_store_live_prefix_text idle_io (\<lambda>_. 1) 42 toy_store toy_engine toy_session
      (Some [65, 66]) 2 ''cold'' None 0 None [] = (True, toy_store, d')" using toy_stored by blast
  have txt_eq: "kv_store_text toy_engine (kv_tokens_copy_prefix [65, 66] 2) None = [65, 66]"
    by (simp add: kv_store_text_def kv_render_tokens_text_def kv_tokens_copy_prefix_def toy_engine_def)
  have dir: "kv_dir toy_store = ''/c''" by (simp add: toy_store_def small_store_def)
  show ?thesis using kv_store_atomic [OF s refl refl] s unfolding txt_eq dir by fastforce
qed

lemma fresh_store_entry:
  assumes "kv_store_live_prefix_text io decay pid kc en ss (Some ts) store_len reason ov x hooks d = (True, kc', d')"
    "text = kv_store_text en (kv_tokens_copy_prefix ts store_len) ov"
    "path = kv_path_for_sha (kv_dir kc) (sha1_bytes_hex text)"
    "map_of d path = None" "0 < store_len" "store_len \<le> int (length ts)" "int (length ts) < 2 ^ 31"
  obtains e where "entry_at d' (kv_dir kc) path = Some e" "map_of d' path \<noteq> None"
    "ke_sha e = sha1_bytes_hex text" "unat (ke_text_bytes e) = length text"
    "int (unat (ke_tokens e)) = store_len" "ke_model_id e = of_int (en_model_id en)"
    "ke_quant_bits e = of_int (en_routed_quant_bits en)" "ke_ctx_size e = of_int (ks_ctx ss)"
    "ko_min_tokens (kv_opt kc) \<le> store_len"
    "kv_dir kc' = kv_dir kc" "kv_opt kc' = kv_opt kc" "kv_enabled kc' = kv_enabled kc"
    "kv_reject_different_quant kc' = kv_reject_different_quant kc"
  using assms(1,2,3)
proof (cases rule: store_cases)
  case (written d1 d2 payload est ic ext)
  let ?n = "length (kv_tokens_copy_prefix ts store_len)"
  let ?f = "kv_image io en ss (kv_reason_code (Some reason)) ext ?n text payload"
  have n: "?n = nat store_len" using assms(6) by (simp add: kv_tokens_copy_prefix_def)
  have f: "map_of d' path = Some (?f @ fst (kv_trailer_write hooks text))"
    using commit_frame [OF written(8), of path] tmp_path_neq [of path pid] by simp
  have sz: "FIXED_HEADER + 4 + length text + length payload + length (fst (kv_trailer_write hooks text)) < 2 ^ 64"
    by (rule fits_size [OF commit_ok_fits [OF written(8)]])
  obtain e where e: "kv_read_entry_file d' path (sha1_bytes_hex text) = Some e"
    "ke_sha e = sha1_bytes_hex text" "unat (ke_text_bytes e) = length text" "unat (ke_tokens e) = ?n"
    "ke_model_id e = of_int (en_model_id en)" "ke_quant_bits e = of_int (en_routed_quant_bits en)"
    "ke_ctx_size e = of_int (ks_ctx ss)"
    by (rule image_entry [OF f reason_code_le written(4) _ _ written(5) sz]) (use n assms(5-7) in auto)
  have en: "entry_at d' (kv_dir kc) path = Some e" using e(1) by (simp add: assms(3) entry_at_sha)
  show ?thesis
    by (rule that [OF en]) (use e f n assms(5) written(2) evict_frame [OF written(7)] in auto)
qed (use assms(4) in auto)

text \<open>
  Property C26. What is stored is found. After a successful store under a new name, a lookup
  with any prompt that begins with the stored text, by the same model and context, returns a
  checkpoint, and one whose text is at least as long as the stored one.\<close>

theorem kv_stored_is_found:
  assumes "kv_store_live_prefix_text io decay pid kc en ss (Some ts) store_len reason ov x hooks d = (True, kc', d')"
    "text = kv_store_text en (kv_tokens_copy_prefix ts store_len) ov"
    "map_of d (kv_path_for_sha (kv_dir kc) (sha1_bytes_hex text)) = None"
    "0 < store_len" "store_len \<le> int (length ts)" "int (length ts) < 2 ^ 31"
    "kv_enabled kc" "io_opendir io"
  shows "\<exists>i. fst (kv_find_text_prefix io kc' d' (Some (text @ suffix)) (en_model_id en)
              (en_routed_quant_bits en) (ks_ctx ss)) = Some i
     \<and> i < length (dir_entries d' (kv_dir kc))
     \<and> length text \<le> unat (ke_text_bytes (dir_entries d' (kv_dir kc) ! i))"
proof -
  obtain e where e: "entry_at d' (kv_dir kc) (kv_path_for_sha (kv_dir kc) (sha1_bytes_hex text)) = Some e"
    "map_of d' (kv_path_for_sha (kv_dir kc) (sha1_bytes_hex text)) \<noteq> None"
    "ke_sha e = sha1_bytes_hex text" "unat (ke_text_bytes e) = length text"
    "int (unat (ke_tokens e)) = store_len" "ke_model_id e = of_int (en_model_id en)"
    "ke_quant_bits e = of_int (en_routed_quant_bits en)" "ke_ctx_size e = of_int (ks_ctx ss)"
    "ko_min_tokens (kv_opt kc) \<le> store_len"
    and fr: "kv_dir kc' = kv_dir kc" "kv_opt kc' = kv_opt kc" "kv_enabled kc' = kv_enabled kc"
    "kv_reject_different_quant kc' = kv_reject_different_quant kc"
    using fresh_store_entry [OF assms(1,2) refl assms(3-6)] by metis
  have mem: "e \<in> set (dir_entries d' (kv_dir kc'))" using dir_entries_memI [OF e(2,1)] fr(1) by simp
  have "cast_i32 (int (unat (ke_tokens e))) = store_len"
    using e(5) assms(4-6) by (simp add: cast_i32_id INT32_MAX_def)
  then have m: "prefix_match (kv_refresh io kc' d') (text @ suffix) (en_model_id en)
      (en_routed_quant_bits en) (ks_ctx ss) e"
    using e fr by (simp add: prefix_match_def kv_usable_def frame_simps)
  obtain i where i: "fst (kv_find_text_prefix io kc' d' (Some (text @ suffix)) (en_model_id en)
      (en_routed_quant_bits en) (ks_ctx ss)) = Some i"
    "i < length (dir_entries d' (kv_dir kc'))" "no_longer e (dir_entries d' (kv_dir kc') ! i)"
    using find_at_least [OF _ assms(8) mem m] fr(3) assms(7) by auto
  have "unat (ke_text_bytes e) \<le> unat (ke_text_bytes (dir_entries d' (kv_dir kc') ! i))"
    using i(3) by (auto simp: no_longer_def word_less_nat_alt)
  then show ?thesis using i e(4) fr(1) by auto
qed

theorem kv_stored_is_found_witness:
  "\<exists>d' i. kv_store_live_prefix_text idle_io (\<lambda>_. 1) 42 toy_store toy_engine toy_session (Some [65, 66]) 2
     ''cold'' None 0 None [] = (True, toy_store, d')
     \<and> fst (kv_find_text_prefix idle_io toy_store d' (Some ([65, 66] @ [67])) (en_model_id toy_engine)
              (en_routed_quant_bits toy_engine) (ks_ctx toy_session)) = Some i"
proof -
  obtain d' where s: "kv_store_live_prefix_text idle_io (\<lambda>_. 1) 42 toy_store toy_engine toy_session
      (Some [65, 66]) 2 ''cold'' None 0 None [] = (True, toy_store, d')" using toy_stored by blast
  have t: "[65, 66] = kv_store_text toy_engine (kv_tokens_copy_prefix [65, 66] 2) None"
    by (simp add: kv_store_text_def kv_render_tokens_text_def kv_tokens_copy_prefix_def toy_engine_def)
  have st: "kv_enabled toy_store" "io_opendir idle_io"
    by (simp_all add: toy_store_def small_store_def idle_io_def)
  show ?thesis using kv_stored_is_found [OF s t _ _ _ _ st, of "[67]"] s by auto
qed

text \<open>
  Property C27. The lookup returns the best checkpoint: none only if no usable checkpoint has the
  hash of a prefix of the prompt, and otherwise one that has, with the longest text and, among
  those of the same length, the most tokens.\<close>

theorem kv_find_longest:
  assumes "kv_enabled kc" "io_opendir io"
    "kv_find_text_prefix io kc d (Some p) model quant ctx = (r, kc')"
  shows "case r of
      None \<Rightarrow> list_all (\<lambda>e. \<not> prefix_match kc p model quant ctx e) (dir_entries d (kv_dir kc))
    | Some b \<Rightarrow> b < length (dir_entries d (kv_dir kc))
        \<and> prefix_match kc p model quant ctx (dir_entries d (kv_dir kc) ! b)
        \<and> list_all (\<lambda>e. prefix_match kc p model quant ctx e \<longrightarrow> no_longer e (dir_entries d (kv_dir kc) ! b))
            (dir_entries d (kv_dir kc))"
  by (rule find_longest [OF assms])

theorem kv_find_longest_witness:
  "kv_find_text_prefix idle_io toy_store [] (Some [65]) 1 4 100 = (None, kv_refresh idle_io toy_store [])
   \<and> list_all (\<lambda>e. \<not> prefix_match toy_store [65] 1 4 100 e) (dir_entries [] ''/c'')"
proof -
  have st: "kv_enabled toy_store" "io_opendir idle_io" "kv_dir toy_store = ''/c''"
    by (simp_all add: toy_store_def small_store_def idle_io_def)
  have f: "kv_find_text_prefix idle_io toy_store [] (Some [65]) 1 4 100 = (None, kv_refresh idle_io toy_store [])"
    by (simp add: find_text_prefix_refresh refresh_entries [OF st(1,2)] dir_entries_def List.map_filter_simps)
  show ?thesis using kv_find_longest [OF st(1,2) f] f st(3) by simp
qed

text \<open>
  Property C28. A load that reports tokens is sound, with no assumption on the hash: it came from
  a file of the store whose whole stored text is a byte prefix of the prompt, written for this
  model and for a context no larger than the session's; the session holds exactly the tokens
  of the payload, as many as the header says, and the prompt handed back is those tokens
  followed by the tokens of the rest of the text. The disk changes at most in that file's
  use count and time.\<close>

theorem kv_load_sound:
  assumes "kv_try_load_text io kc en load_payload ctx (Some p) d = (ld, kc', d')" "ld_tokens ld \<noteq> 0"
    "io_opendir io"
  shows "\<exists>path f hdr tb loaded. map_of d path = Some f \<and> kv_read_header f = Some (hdr, tb)
    \<and> unat tb \<le> length p \<and> stored_text f tb = take (unat tb) p
    \<and> ke_model_id hdr = of_int (en_model_id en) \<and> ke_ctx_size hdr \<le> of_int ctx
    \<and> load_payload (drop (FIXED_HEADER + 4 + unat tb) f) (unat (ke_payload_bytes hdr)) = Some loaded
    \<and> ld_session ld = Some loaded \<and> ld_tokens ld = int (length loaded)
    \<and> ld_tokens ld = cast_i32 (int (unat (ke_tokens hdr)))
    \<and> ld_prompt ld = loaded @ en_tokenize_rendered_chat en (drop (unat tb) p)
    \<and> d' = snd (kv_touch_file (io_fopen io path) (io_write_fails_after io path = None) (io_now io) d path (ke_hits hdr + 1))
    \<and> kv_continued_last_store_tokens kc' = ld_tokens ld"
proof -
  have en: "kv_enabled kc" "en_routed_quant_bits en = 2 \<or> en_routed_quant_bits en = 4"
    using assms(1,2) by (auto simp: kv_try_load_text_def kv_no_load_def split: if_splits)
  obtain r kc1 where fnd: "kv_find_text_prefix io kc d (Some p) (en_model_id en) (en_routed_quant_bits en) ctx = (r, kc1)"
    by (metis prod.exhaust)
  obtain idx where r: "r = Some idx"
    using assms(1,2) en fnd by (cases r) (auto simp: kv_try_load_text_def kv_no_load_def)
  let ?es = "dir_entries d (kv_dir kc)"
  have kc1: "kv_entries kc1 = ?es"
    using fnd refresh_entries [OF en(1) assms(3), of d] by (simp add: find_text_prefix_refresh)
  have idx: "idx < length ?es" "prefix_match kc p (en_model_id en) (en_routed_quant_bits en) ctx (?es ! idx)"
    using find_longest [OF en(1) assms(3) fnd] r by auto
  define e where "e = ?es ! idx"
  define path where "path = ke_path e"
  have at: "entry_at d (kv_dir kc) path = Some e"
    unfolding path_def e_def using dir_entries_mem idx(1) by simp
  have run: "kv_try_load_text io kc en load_payload ctx (Some p) d =
    (case (if io_fopen io path then map_of d path else None) of
       None \<Rightarrow> (kv_no_load, kc1, d)
     | Some f \<Rightarrow>
       (case kv_load_header_ok f p (en_model_id en) (ke_sha e) of
          None \<Rightarrow> (kv_no_load, kc1, d)
        | Some (hdr, tb) \<Rightarrow>
          (case load_payload (drop (FIXED_HEADER + 4 + unat tb) f) (unat (ke_payload_bytes hdr)) of
             None \<Rightarrow> (kv_no_load\<lparr> ld_invalidated := True \<rparr>, kc1, d)
           | Some loaded \<Rightarrow>
             if int (length loaded) = cast_i32 (int (unat (ke_tokens hdr))) then
               (\<lparr> ld_tokens = int (length loaded), ld_prompt = kv_build_prompt en loaded (drop (unat tb) p),
                  ld_invalidated = False, ld_session = Some loaded, ld_text_bytes = tb \<rparr>,
                if loaded \<noteq> [] then kc1\<lparr> kv_continued_last_store_tokens := int (length loaded) \<rparr> else kc1,
                if loaded \<noteq> [] then
                  snd (kv_touch_file (io_fopen io path) (io_write_fails_after io path = None)
                         (io_now io) d path (ke_hits hdr + 1)) else d)
             else (kv_no_load\<lparr> ld_invalidated := True \<rparr>, kc1,
                   if io_unlink io path then AList.delete path d else d))))"
    unfolding kv_try_load_text_def option.case fnd prod.case r Let_def kc1 e_def [symmetric] path_def [symmetric]
    using en by auto
  obtain f where f: "map_of d path = Some f" "io_fopen io path"
    using assms(1,2) unfolding run by (auto simp: kv_no_load_def split: option.splits if_splits)
  obtain hdr tb where h: "kv_load_header_ok f p (en_model_id en) (ke_sha e) = Some (hdr, tb)"
    using assms(1,2) f unfolding run by (auto simp: kv_no_load_def split: option.splits)
  obtain loaded where l: "load_payload (drop (FIXED_HEADER + 4 + unat tb) f) (unat (ke_payload_bytes hdr)) = Some loaded"
    using assms(1,2) f h unfolding run by (auto simp: kv_no_load_def split: option.splits)
  have len: "int (length loaded) = cast_i32 (int (unat (ke_tokens hdr)))"
    using assms(1,2) f h l unfolding run by (auto simp: kv_no_load_def split: if_splits)
  have ld: "ld = \<lparr> ld_tokens = int (length loaded), ld_prompt = kv_build_prompt en loaded (drop (unat tb) p),
      ld_invalidated = False, ld_session = Some loaded, ld_text_bytes = tb \<rparr>"
    using assms(1) f h l len unfolding run by simp
  then have ne: "loaded \<noteq> []" using assms(2) by auto
  have fin: "kc' = kc1\<lparr> kv_continued_last_store_tokens := int (length loaded) \<rparr>"
    "d' = snd (kv_touch_file (io_fopen io path) (io_write_fails_after io path = None) (io_now io) d path (ke_hits hdr + 1))"
    using assms(1) f h l len ne unfolding run by simp_all
  have hd: "kv_read_header f = Some (hdr, tb)" "ke_model_id hdr = of_int (en_model_id en)" "unat tb \<le> length p"
    "length (stored_text f tb) = unat tb" "take (length (stored_text f tb)) p = stored_text f tb"
    using h by (auto simp: kv_load_header_ok_def kv_byte_prefix_match_def split: option.splits if_splits)
  have "ke_ctx_size e = ke_ctx_size hdr"
    using at f(1) hd(1) in_dir_path
    by (fastforce simp: entry_at_def kv_read_entry_file_def Let_def split: option.splits if_splits)
  then have "ke_ctx_size hdr \<le> of_int ctx"
    using idx(2) by (simp add: prefix_match_def kv_usable_def e_def)
  then show ?thesis
    using f hd l len ld fin by (intro exI [of _ path] exI [of _ f] exI [of _ hdr] exI [of _ tb] exI [of _ loaded])
      (simp add: kv_build_prompt_def)
qed

definition toy_file :: "byte list" where
  "toy_file = kv_image idle_io toy_engine toy_session 1 0 2 [65, 66] [7, 7, 7]"

definition toy_path :: string where
  "toy_path = kv_path_for_sha ''/c'' (sha1_bytes_hex [65, 66])"

lemma toy_header: "\<exists>hdr. kv_read_header toy_file = Some (hdr, 2) \<and> ke_model_id hdr = 1 \<and> ke_tokens hdr = 2"
proof -
  have "kv_read_header (kv_fill_header 1 4 1 0 2 0 100 100 100 3 @ le_put32 2 @ [65, 66, 7, 7, 7]) =
      Some (\<lparr> ke_sha = [], ke_path = [], ke_quant_bits = 4, ke_model_id = 1, ke_reason = 1, ke_tokens = 2,
        ke_hits = 0, ke_ctx_size = 100, ke_ext_flags = 0, ke_created_at = 100, ke_last_used = 100,
        ke_payload_bytes = 3, ke_text_bytes = ucast (2 :: u32), ke_file_size = 0 \<rparr>, 2)"
    by (rule read_fill_header) (simp_all add: REASON_AGENT_SESSION_def)
  moreover have "toy_file = kv_fill_header 1 4 1 0 2 0 100 100 100 3 @ le_put32 2 @ [65, 66, 7, 7, 7]"
    by (simp add: toy_file_def kv_image_def toy_engine_def toy_session_def idle_io_def)
  ultimately show ?thesis by simp
qed

lemma toy_entry:
  "\<exists>e. dir_entries [(toy_path, toy_file)] ''/c'' = [e] \<and> ke_path e = toy_path
     \<and> ke_sha e = sha1_bytes_hex [65, 66] \<and> prefix_match toy_store [65, 66, 67] 1 4 100 e"
proof -
  have f: "map_of [(toy_path, toy_file)] toy_path =
      Some (kv_image idle_io toy_engine toy_session 1 0 2 [65, 66] [7, 7, 7] @ [])"
    by (simp add: toy_file_def)
  obtain e where e: "kv_read_entry_file [(toy_path, toy_file)] toy_path (sha1_bytes_hex [65, 66]) = Some e"
    "ke_sha e = sha1_bytes_hex [65, 66]" "unat (ke_text_bytes e) = length [65 :: byte, 66]"
    "unat (ke_tokens e) = 2" "ke_model_id e = of_int (en_model_id toy_engine)"
    "ke_quant_bits e = of_int (en_routed_quant_bits toy_engine)" "ke_ctx_size e = of_int (ks_ctx toy_session)"
    by (rule image_entry [OF f, of "sha1_bytes_hex [65, 66]"])
      (simp_all add: REASON_AGENT_SESSION_def toy_engine_def UINT32_MAX_def FIXED_HEADER_def)
  have at: "entry_at [(toy_path, toy_file)] ''/c'' toy_path = Some e"
    using e(1) by (simp add: toy_path_def entry_at_sha)
  moreover have "prefix_match toy_store [65, 66, 67] 1 4 100 e"
    using e by (simp add: prefix_match_def kv_usable_def toy_store_def toy_engine_def toy_session_def
        small_store_def cast_i32_def)
  ultimately show ?thesis
    using e(2) entry_at_path [OF at] by (simp add: dir_entries_def List.map_filter_simps)
qed

theorem kv_load_sound_witness:
  "\<exists>ld kc' d'. kv_try_load_text idle_io toy_store toy_engine (\<lambda>_ _. Some [65, 66]) 100 (Some [65, 66, 67])
     [(toy_path, toy_file)] = (ld, kc', d') \<and> ld_tokens ld = 2 \<and> ld_session ld = Some [65, 66]"
proof -
  let ?d = "[(toy_path, toy_file)]"
  have st: "kv_enabled toy_store" "io_opendir idle_io" "kv_dir toy_store = ''/c''" "io_fopen idle_io = (\<lambda>_. True)"
    "en_routed_quant_bits toy_engine = 4" "en_model_id toy_engine = 1"
    by (simp_all add: toy_store_def small_store_def idle_io_def toy_engine_def)
  obtain e where e: "dir_entries ?d ''/c'' = [e]" "ke_path e = toy_path" "ke_sha e = sha1_bytes_hex [65, 66]"
    "prefix_match toy_store [65, 66, 67] 1 4 100 e" using toy_entry by blast
  let ?kc = "kv_refresh idle_io toy_store ?d"
  have es: "kv_entries ?kc = [e]" using refresh_entries [OF st(1,2), of ?d] st(3) e(1) by simp
  have pm: "prefix_match ?kc [65, 66, 67] 1 4 100 e"
    using e(4) by (simp add: prefix_match_def kv_usable_def frame_simps)
  have fnd: "kv_find_text_prefix idle_io toy_store ?d (Some [65, 66, 67]) 1 4 100 = (Some 0, ?kc)"
    using pm by (simp add: find_text_prefix_refresh es find_step_eq)
  obtain hdr where h: "kv_read_header toy_file = Some (hdr, 2)" "ke_model_id hdr = 1" "ke_tokens hdr = 2"
    using toy_header by blast
  have tx: "stored_text toy_file 2 = [65, 66]"
    by (simp add: stored_text_def toy_file_def kv_image_def)
  have ok: "kv_load_header_ok toy_file [65, 66, 67] 1 (sha1_bytes_hex [65, 66]) = Some (hdr, 2)"
    by (simp add: kv_load_header_ok_def h tx kv_byte_prefix_match_def)
  obtain ld kc' d' where r: "kv_try_load_text idle_io toy_store toy_engine (\<lambda>_ _. Some [65, 66]) 100
      (Some [65, 66, 67]) ?d = (ld, kc', d')" by (metis prod.exhaust)
  have two: "ld_tokens ld = 2 \<and> ld_session ld = Some [65, 66]"
    using r unfolding kv_try_load_text_def option.case st fnd Let_def
    by (simp add: st fnd es e(2,3) ok h cast_i32_def) auto
  then have "ld_tokens ld \<noteq> 0" by simp
  from kv_load_sound [OF r this st(2)] show ?thesis using r two by blast
qed

end
