(* ===== verification/Ple_Gguf.thy ===== *)
theory Ple_Gguf
  imports Kv_Format
begin

text \<open>
  The GGUF header walk of the n-gram table (\<open>ds4_qwen4exp_ple.c\<close>): the bounded cursor, the
  readers, the generic skip of a metadata value, and \<open>ple_scan_file\<close>, which collects the keys
  and the tensor descriptor one shard contributes. The shards are read through a mapping, so a
  multi-byte load is the little-endian value of the mapped bytes.

  Sizes and positions are naturals: a mapping is shorter than \<open>2 ^ 63\<close> bytes, every length read
  from the file is compared with the size before it is added, and the one product
  (\<open>len * item_size\<close>) is guarded by the division before it. The offset of the tensor is a
  64-bit word, because the code adds to it unguarded.
\<close>

subsection \<open>Limits and type codes\<close>

definition PLE_MAX_NGRAM :: nat where "PLE_MAX_NGRAM = 8"
definition PLE_MAX_HEADS :: nat where "PLE_MAX_HEADS = 64"
definition PLE_MAX_LAYERS :: nat where "PLE_MAX_LAYERS = 8"

definition PLE_GGUF_MAGIC :: u32 where "PLE_GGUF_MAGIC = 0x46554747"

definition PLE_GGUF_UINT8 :: u32 where "PLE_GGUF_UINT8 = 0"
definition PLE_GGUF_INT8 :: u32 where "PLE_GGUF_INT8 = 1"
definition PLE_GGUF_UINT16 :: u32 where "PLE_GGUF_UINT16 = 2"
definition PLE_GGUF_INT16 :: u32 where "PLE_GGUF_INT16 = 3"
definition PLE_GGUF_UINT32 :: u32 where "PLE_GGUF_UINT32 = 4"
definition PLE_GGUF_INT32 :: u32 where "PLE_GGUF_INT32 = 5"
definition PLE_GGUF_FLOAT32 :: u32 where "PLE_GGUF_FLOAT32 = 6"
definition PLE_GGUF_BOOL :: u32 where "PLE_GGUF_BOOL = 7"
definition PLE_GGUF_STRING :: u32 where "PLE_GGUF_STRING = 8"
definition PLE_GGUF_ARRAY :: u32 where "PLE_GGUF_ARRAY = 9"
definition PLE_GGUF_UINT64 :: u32 where "PLE_GGUF_UINT64 = 10"
definition PLE_GGUF_INT64 :: u32 where "PLE_GGUF_INT64 = 11"
definition PLE_GGUF_FLOAT64 :: u32 where "PLE_GGUF_FLOAT64 = 12"

definition PLE_GGUF_TYPE_IQ4_NL :: u32 where "PLE_GGUF_TYPE_IQ4_NL = 20"

definition PLE_TABLE_TENSOR :: string where "PLE_TABLE_TENSOR = ''per_layer_token_embd.weight''"

lemmas gguf_types = PLE_GGUF_UINT8_def PLE_GGUF_INT8_def PLE_GGUF_UINT16_def PLE_GGUF_INT16_def
  PLE_GGUF_UINT32_def PLE_GGUF_INT32_def PLE_GGUF_FLOAT32_def PLE_GGUF_BOOL_def PLE_GGUF_STRING_def
  PLE_GGUF_ARRAY_def PLE_GGUF_UINT64_def PLE_GGUF_INT64_def PLE_GGUF_FLOAT64_def

subsection \<open>Refusals\<close>

text \<open>One constructor per message of \<open>ple_err\<close>, with the values the message prints.\<close>

datatype ple_scan_error =
    Ple_Not_Gguf string | Ple_Version string u32 | Ple_Truncated_Header string
  | Ple_Truncated_Key string | Ple_Bad_Alignment string | Ple_Unreadable string string u64
  | Ple_Eos_Type string | Ple_Truncated string | Ple_Bad_Tensor string
  | Ple_Cannot_Open string | Ple_Cannot_Size string | Ple_Cannot_Map string
  | Ple_No_Shard

subsection \<open>The cursor\<close>

record ple_cursor =
  pc_base :: bytes
  pc_size :: nat
  pc_pos :: nat
  pc_ok :: bool

definition ple_cursor_at :: "bytes \<Rightarrow> ple_cursor" where
  "ple_cursor_at m = \<lparr> pc_base = m, pc_size = length m, pc_pos = 0, pc_ok = True \<rparr>"

text \<open>The test every access starts with, and the failure it leaves behind.\<close>

definition ple_fits :: "ple_cursor \<Rightarrow> nat \<Rightarrow> bool" where
  "ple_fits c n \<longleftrightarrow> n \<le> pc_size c \<and> pc_pos c \<le> pc_size c - n"

definition ple_fail :: "ple_cursor \<Rightarrow> ple_cursor" where
  "ple_fail c = c\<lparr> pc_ok := False \<rparr>"

definition ple_read :: "ple_cursor \<Rightarrow> nat \<Rightarrow> bytes option \<times> ple_cursor" where
  "ple_read c n =
     (if \<not> pc_ok c then (None, c)
      else if \<not> ple_fits c n then (None, ple_fail c)
      else (Some (take n (drop (pc_pos c) (pc_base c))), c\<lparr> pc_pos := pc_pos c + n \<rparr>))"

definition ple_skip :: "ple_cursor \<Rightarrow> nat \<Rightarrow> bool \<times> ple_cursor" where
  "ple_skip c n =
     (if \<not> pc_ok c then (False, c)
      else if \<not> ple_fits c n then (False, ple_fail c)
      else (True, c\<lparr> pc_pos := pc_pos c + n \<rparr>))"

definition ple_u32 :: "ple_cursor \<Rightarrow> u32 option \<times> ple_cursor" where
  "ple_u32 c = (case ple_read c 4 of (r, c') \<Rightarrow> (map_option le_get32 r, c'))"

definition ple_u64 :: "ple_cursor \<Rightarrow> u64 option \<times> ple_cursor" where
  "ple_u64 c = (case ple_read c 8 of (r, c') \<Rightarrow> (map_option le_get64 r, c'))"

text \<open>A \<open>ple_str\<close> is a view of the mapping; here it is the bytes it views.\<close>

definition ple_string :: "ple_cursor \<Rightarrow> bytes option \<times> ple_cursor" where
  "ple_string c =
     (case ple_u64 c of
        (None, c') \<Rightarrow> (None, c')
      | (Some n, c') \<Rightarrow>
          if \<not> ple_fits c' (unat n) then (None, ple_fail c')
          else (Some (take (unat n) (drop (pc_pos c') (pc_base c'))),
                c'\<lparr> pc_pos := pc_pos c' + unat n \<rparr>))"

definition ple_str_is :: "bytes \<Rightarrow> string \<Rightarrow> bool" where
  "ple_str_is s lit \<longleftrightarrow> length s = length lit \<and> s = bytes_of lit"

definition ple_scalar_size :: "u32 \<Rightarrow> nat" where
  "ple_scalar_size t =
     (if t = PLE_GGUF_UINT8 \<or> t = PLE_GGUF_INT8 \<or> t = PLE_GGUF_BOOL then 1
      else if t = PLE_GGUF_UINT16 \<or> t = PLE_GGUF_INT16 then 2
      else if t = PLE_GGUF_UINT32 \<or> t = PLE_GGUF_INT32 \<or> t = PLE_GGUF_FLOAT32 then 4
      else if t = PLE_GGUF_UINT64 \<or> t = PLE_GGUF_INT64 \<or> t = PLE_GGUF_FLOAT64 then 8
      else 0)"

text \<open>
  \<open>ple_skip_value\<close> and its element loop. The nesting is bounded by the depth test, and the loop
  by its counter.
\<close>

function ple_skip_value :: "ple_cursor \<Rightarrow> u32 \<Rightarrow> nat \<Rightarrow> bool \<times> ple_cursor"
  and ple_skip_items :: "ple_cursor \<Rightarrow> u32 \<Rightarrow> nat \<Rightarrow> nat \<Rightarrow> bool \<times> ple_cursor" where
  "ple_skip_value c t depth =
     (if depth > 8 then (False, ple_fail c)
      else if ple_scalar_size t \<noteq> 0 then ple_skip c (ple_scalar_size t)
      else if t = PLE_GGUF_STRING then (case ple_string c of (r, c') \<Rightarrow> (r \<noteq> None, c'))
      else if t = PLE_GGUF_ARRAY then
        (case ple_u32 c of
           (None, c1) \<Rightarrow> (False, c1)
         | (Some item, c1) \<Rightarrow>
             (case ple_u64 c1 of
                (None, c2) \<Rightarrow> (False, c2)
              | (Some len, c2) \<Rightarrow>
                  if ple_scalar_size item \<noteq> 0 then
                    (if unat len > UINT64_MAX div ple_scalar_size item then (False, ple_fail c2)
                     else ple_skip c2 (unat len * ple_scalar_size item))
                  else ple_skip_items c2 item (Suc depth) (unat len)))
      else (False, ple_fail c))"
| "ple_skip_items c item depth 0 = (True, c)"
| "ple_skip_items c item depth (Suc k) =
     (case ple_skip_value c item depth of
        (True, c') \<Rightarrow> ple_skip_items c' item depth k
      | (False, c') \<Rightarrow> (False, c'))"
  by pat_completeness auto

termination ple_skip_value
  by (relation "inv_image (less_than <*lex*> less_than)
        (case_sum (\<lambda>(c, t, d). (10 - d, 0)) (\<lambda>(c, t, d, k). (10 - d, Suc k)))") auto

declare ple_skip_value.simps [simp del]

text \<open>An integer of any width, refusing negatives. \<open>None\<close> is the refusal.\<close>

definition ple_int_elem :: "ple_cursor \<Rightarrow> u32 \<Rightarrow> u64 option \<times> ple_cursor" where
  "ple_int_elem c t =
     (if t = PLE_GGUF_UINT32 then (case ple_u32 c of (r, c') \<Rightarrow> (map_option ucast r, c'))
      else if t = PLE_GGUF_INT32 then
        (case ple_u32 c of
           (None, c') \<Rightarrow> (None, c')
         | (Some v, c') \<Rightarrow> (if bit v 31 then None else Some (ucast v), c'))
      else if t = PLE_GGUF_UINT64 then ple_u64 c
      else if t = PLE_GGUF_INT64 then
        (case ple_u64 c of
           (None, c') \<Rightarrow> (None, c')
         | (Some v, c') \<Rightarrow> (if bit v 63 then None else Some v, c'))
      else (None, c))"

fun ple_int_elems :: "ple_cursor \<Rightarrow> u32 \<Rightarrow> nat \<Rightarrow> u64 list option \<times> ple_cursor" where
  "ple_int_elems c item 0 = (Some [], c)"
| "ple_int_elems c item (Suc k) =
     (case ple_int_elem c item of
        (None, c') \<Rightarrow> (None, c')
      | (Some v, c') \<Rightarrow>
          (case ple_int_elems c' item k of (r, c'') \<Rightarrow> (map_option ((#) v) r, c'')))"

text \<open>
  \<open>ple_int_array\<close>: the elements, the length it reports (left as it was when it cannot be read),
  and the cursor.
\<close>

definition ple_int_array :: "ple_cursor \<Rightarrow> nat \<Rightarrow> u64 \<Rightarrow> u64 list option \<times> u64 \<times> ple_cursor" where
  "ple_int_array c cap count =
     (case ple_u32 c of
        (None, c1) \<Rightarrow> (None, count, c1)
      | (Some item, c1) \<Rightarrow>
          (case ple_u64 c1 of
             (None, c2) \<Rightarrow> (None, count, c2)
           | (Some len, c2) \<Rightarrow>
               if unat len > cap then (None, len, c2)
               else (case ple_int_elems c2 item (unat len) of (r, c3) \<Rightarrow> (r, len, c3))))"

subsection \<open>What a shard contributes\<close>

text \<open>
  A flag and its value are an \<open>option\<close>; an array with its count is the list of its elements.
\<close>

record ple_tensor =
  pt_path :: nat
  pt_offset :: u64
  pt_dim0 :: u64
  pt_dim1 :: u64
  pt_type :: u32

record ple_scan =
  sc_ngram_size :: "u32 option"
  sc_heads_per_ngram :: "u32 option"
  sc_row_dim :: "u32 option"
  sc_eos :: "u64 option"
  sc_conv_kernel :: "u32 option"
  sc_layers :: "u64 list option"
  sc_vocab :: "u64 option"
  sc_multipliers :: "u64 list option"
  sc_sizes :: "u64 list option"
  sc_offsets :: "u64 list option"
  sc_tensor :: "ple_tensor option"

definition ple_scan_empty :: ple_scan where
  "ple_scan_empty = \<lparr> sc_ngram_size = None, sc_heads_per_ngram = None, sc_row_dim = None, sc_eos = None,
     sc_conv_kernel = None, sc_layers = None, sc_vocab = None, sc_multipliers = None,
     sc_sizes = None, sc_offsets = None, sc_tensor = None \<rparr>"


subsection \<open>The scan of one shard\<close>

text \<open>A \<open>uint32\<close> key: the value goes where \<open>f\<close> puts it.\<close>

definition scan_u32 ::
  "string \<Rightarrow> ple_cursor \<Rightarrow> (u32 \<Rightarrow> ple_scan) \<Rightarrow> (ple_scan_error, ple_cursor \<times> ple_scan) result" where
  "scan_u32 path c f =
     (case ple_u32 c of (None, _) \<Rightarrow> Inl (Ple_Truncated path) | (Some v, c') \<Rightarrow> Inr (c', f v))"

text \<open>An integer-array key with room for \<open>cap\<close> elements.\<close>

definition scan_array ::
  "string \<Rightarrow> string \<Rightarrow> nat \<Rightarrow> u64 list option \<Rightarrow> ple_cursor \<Rightarrow> (u64 list \<Rightarrow> ple_scan)
   \<Rightarrow> (ple_scan_error, ple_cursor \<times> ple_scan) result" where
  "scan_array path key cap old c f =
     (case ple_int_array c cap (case old of None \<Rightarrow> 0 | Some xs \<Rightarrow> of_nat (length xs)) of
        (None, count, _) \<Rightarrow> Inl (Ple_Unreadable path key count)
      | (Some xs, _, c') \<Rightarrow> Inr (c', f xs))"

definition scan_alignment :: "string \<Rightarrow> ple_cursor \<Rightarrow> (ple_scan_error, ple_cursor \<times> u32) result" where
  "scan_alignment path c =
     (case ple_u32 c of
        (None, _) \<Rightarrow> Inl (Ple_Bad_Alignment path)
      | (Some v, c') \<Rightarrow>
          if v = 0 \<or> v AND (v - 1) \<noteq> 0 then Inl (Ple_Bad_Alignment path) else Inr (c', v))"

text \<open>
  The chain of key tests. The flag of the result is \<open>handled\<close>: where it is false the value is
  still in front of the cursor and the generic skip steps over it.
\<close>

definition ple_scan_key ::
  "string \<Rightarrow> bytes \<Rightarrow> u32 \<Rightarrow> ple_cursor \<Rightarrow> u32 \<Rightarrow> ple_scan
   \<Rightarrow> (ple_scan_error, bool \<times> ple_cursor \<times> u32 \<times> ple_scan) result" where
  "ple_scan_key path key t c al s =
     (let scalar = map_sum id (\<lambda>(c', s'). (True, c', al, s')) in
      if ple_str_is key ''general.alignment'' \<and> t = PLE_GGUF_UINT32 then
        map_sum id (\<lambda>(c', al'). (True, c', al', s)) (scan_alignment path c)
      else if ple_str_is key ''qwen4exp.ple.ngram_size'' \<and> t = PLE_GGUF_UINT32 then
        scalar (scan_u32 path c (\<lambda>v. s\<lparr> sc_ngram_size := Some v \<rparr>))
      else if ple_str_is key ''qwen4exp.ple.heads_per_ngram'' \<and> t = PLE_GGUF_UINT32 then
        scalar (scan_u32 path c (\<lambda>v. s\<lparr> sc_heads_per_ngram := Some v \<rparr>))
      else if ple_str_is key ''qwen4exp.embedding_length_per_layer_input'' \<and> t = PLE_GGUF_UINT32 then
        scalar (scan_u32 path c (\<lambda>v. s\<lparr> sc_row_dim := Some v \<rparr>))
      else if ple_str_is key ''qwen4exp.ple.conv_kernel'' \<and> t = PLE_GGUF_UINT32 then
        scalar (scan_u32 path c (\<lambda>v. s\<lparr> sc_conv_kernel := Some v \<rparr>))
      else if ple_str_is key ''qwen4exp.ple.layers'' \<and> t = PLE_GGUF_ARRAY then
        scalar (scan_array path ''qwen4exp.ple.layers'' PLE_MAX_LAYERS (sc_layers s) c
                  (\<lambda>xs. s\<lparr> sc_layers := Some xs \<rparr>))
      else if ple_str_is key ''qwen4exp.ple.eos_token_id'' then
        (case ple_int_elem c t of
           (None, _) \<Rightarrow> Inl (Ple_Eos_Type path)
         | (Some v, c') \<Rightarrow> Inr (True, c', al, s\<lparr> sc_eos := Some v \<rparr>))
      else if ple_str_is key ''qwen4exp.ple.layer_multipliers'' \<and> t = PLE_GGUF_ARRAY then
        scalar (scan_array path ''qwen4exp.ple.layer_multipliers'' PLE_MAX_NGRAM (sc_multipliers s) c
                  (\<lambda>xs. s\<lparr> sc_multipliers := Some xs \<rparr>))
      else if ple_str_is key ''qwen4exp.ple.head_vocab_sizes'' \<and> t = PLE_GGUF_ARRAY then
        scalar (scan_array path ''qwen4exp.ple.head_vocab_sizes'' PLE_MAX_HEADS (sc_sizes s) c
                  (\<lambda>xs. s\<lparr> sc_sizes := Some xs \<rparr>))
      else if ple_str_is key ''qwen4exp.ple.head_offsets'' \<and> t = PLE_GGUF_ARRAY then
        scalar (scan_array path ''qwen4exp.ple.head_offsets'' PLE_MAX_HEADS (sc_offsets s) c
                  (\<lambda>xs. s\<lparr> sc_offsets := Some xs \<rparr>))
      else if ple_str_is key ''tokenizer.ggml.tokens'' \<and> t = PLE_GGUF_ARRAY then
        (case ple_u32 c of
           (None, _) \<Rightarrow> Inl (Ple_Truncated path)
         | (Some _, v1) \<Rightarrow>
             (case ple_u64 v1 of
                (None, _) \<Rightarrow> Inl (Ple_Truncated path)
              | (Some len, _) \<Rightarrow> Inr (False, c, al, s\<lparr> sc_vocab := Some len \<rparr>)))
      else Inr (False, c, al, s))"

text \<open>One pass of the metadata loop.\<close>

definition ple_scan_kv ::
  "string \<Rightarrow> ple_cursor \<Rightarrow> u32 \<Rightarrow> ple_scan \<Rightarrow> (ple_scan_error, ple_cursor \<times> u32 \<times> ple_scan) result" where
  "ple_scan_kv path c al s =
     (case ple_string c of
        (None, _) \<Rightarrow> Inl (Ple_Truncated_Key path)
      | (Some key, c1) \<Rightarrow>
          (case ple_u32 c1 of
             (None, _) \<Rightarrow> Inl (Ple_Truncated_Key path)
           | (Some t, c2) \<Rightarrow>
               (case ple_scan_key path key t c2 al s of
                  Inl e \<Rightarrow> Inl e
                | Inr (handled, c3, al', s') \<Rightarrow>
                    (case (if handled then (True, c3) else ple_skip_value c3 t 0) of
                       (ok, c4) \<Rightarrow>
                         if \<not> ok \<or> \<not> pc_ok c4 then Inl (Ple_Truncated path)
                         else Inr (c4, al', s')))))"

fun ple_scan_kvs ::
  "string \<Rightarrow> nat \<Rightarrow> ple_cursor \<Rightarrow> u32 \<Rightarrow> ple_scan \<Rightarrow> (ple_scan_error, ple_cursor \<times> u32 \<times> ple_scan) result" where
  "ple_scan_kvs path 0 c al s = Inr (c, al, s)"
| "ple_scan_kvs path (Suc k) c al s =
     (case ple_scan_kv path c al s of
        Inl e \<Rightarrow> Inl e
      | Inr (c', al', s') \<Rightarrow> ple_scan_kvs path k c' al' s')"

fun ple_scan_dims :: "nat \<Rightarrow> ple_cursor \<Rightarrow> u64 list option \<times> ple_cursor" where
  "ple_scan_dims 0 c = (Some [], c)"
| "ple_scan_dims (Suc k) c =
     (case ple_u64 c of
        (None, c') \<Rightarrow> (None, c')
      | (Some v, c') \<Rightarrow> (case ple_scan_dims k c' of (r, c'') \<Rightarrow> (map_option ((#) v) r, c'')))"

text \<open>\<open>dims\<close> starts as four ones.\<close>

definition ple_dim :: "u64 list \<Rightarrow> nat \<Rightarrow> u64" where
  "ple_dim ds d = (if d < length ds then ds ! d else 1)"

text \<open>One tensor descriptor; the first descriptor of the table is noted.\<close>

definition ple_scan_tensor ::
  "string \<Rightarrow> nat \<Rightarrow> ple_cursor \<Rightarrow> ple_scan \<Rightarrow> (ple_scan_error, ple_cursor \<times> ple_scan) result" where
  "ple_scan_tensor path path_index c s =
     (case ple_string c of
        (None, _) \<Rightarrow> Inl (Ple_Bad_Tensor path)
      | (Some name, c1) \<Rightarrow>
          (case ple_u32 c1 of
             (None, _) \<Rightarrow> Inl (Ple_Bad_Tensor path)
           | (Some ndim, c2) \<Rightarrow>
               if ndim > 4 then Inl (Ple_Bad_Tensor path)
               else
                 (case ple_scan_dims (unat ndim) c2 of
                    (None, _) \<Rightarrow> Inl (Ple_Truncated path)
                  | (Some dims, c3) \<Rightarrow>
                      (case ple_u32 c3 of
                         (None, _) \<Rightarrow> Inl (Ple_Truncated path)
                       | (Some t, c4) \<Rightarrow>
                           (case ple_u64 c4 of
                              (None, _) \<Rightarrow> Inl (Ple_Truncated path)
                            | (Some offset, c5) \<Rightarrow>
                                Inr (c5, if sc_tensor s = None \<and> ple_str_is name PLE_TABLE_TENSOR
                                         then s\<lparr> sc_tensor := Some \<lparr> pt_path = path_index, pt_offset = offset,
                                                  pt_dim0 = ple_dim dims 0, pt_dim1 = ple_dim dims 1,
                                                  pt_type = t \<rparr> \<rparr>
                                         else s))))))"

fun ple_scan_tensors ::
  "string \<Rightarrow> nat \<Rightarrow> nat \<Rightarrow> ple_cursor \<Rightarrow> ple_scan \<Rightarrow> (ple_scan_error, ple_cursor \<times> ple_scan) result" where
  "ple_scan_tensors path path_index 0 c s = Inr (c, s)"
| "ple_scan_tensors path path_index (Suc k) c s =
     (case ple_scan_tensor path path_index c s of
        Inl e \<Rightarrow> Inl e
      | Inr (c', s') \<Rightarrow> ple_scan_tensors path path_index k c' s')"

text \<open>The descriptor's offset is relative to the aligned end of the header.\<close>

definition ple_make_absolute :: "nat \<Rightarrow> nat \<Rightarrow> nat \<Rightarrow> ple_scan \<Rightarrow> ple_scan" where
  "ple_make_absolute path_index pos al s =
     (case sc_tensor s of
        Some t \<Rightarrow>
          if pt_path t = path_index
          then s\<lparr> sc_tensor := Some (t\<lparr> pt_offset := pt_offset t + of_nat ((pos + al - 1) div al * al) \<rparr>) \<rparr>
          else s
      | None \<Rightarrow> s)"

definition ple_scan_header :: "string \<Rightarrow> bytes \<Rightarrow> (ple_scan_error, u64 \<times> u64 \<times> ple_cursor) result" where
  "ple_scan_header path m =
     (case ple_u32 (ple_cursor_at m) of
        (None, _) \<Rightarrow> Inl (Ple_Not_Gguf path)
      | (Some magic, c1) \<Rightarrow>
          if magic \<noteq> PLE_GGUF_MAGIC then Inl (Ple_Not_Gguf path)
          else
            (case ple_u32 c1 of
               (None, _) \<Rightarrow> Inl (Ple_Version path 0)
             | (Some version, c2) \<Rightarrow>
                 if version < 2 \<or> version > 3 then Inl (Ple_Version path version)
                 else
                   (case ple_u64 c2 of
                      (None, _) \<Rightarrow> Inl (Ple_Truncated_Header path)
                    | (Some n_tensors, c3) \<Rightarrow>
                        (case ple_u64 c3 of
                           (None, _) \<Rightarrow> Inl (Ple_Truncated_Header path)
                         | (Some n_kv, c4) \<Rightarrow> Inr (n_tensors, n_kv, c4)))))"

definition ple_scan_file ::
  "bytes \<Rightarrow> nat \<Rightarrow> string \<Rightarrow> ple_scan \<Rightarrow> (ple_scan_error, ple_scan) result" where
  "ple_scan_file m path_index path s =
     (case ple_scan_header path m of
        Inl e \<Rightarrow> Inl e
      | Inr (n_tensors, n_kv, c) \<Rightarrow>
          (case ple_scan_kvs path (unat n_kv) c 32 s of
             Inl e \<Rightarrow> Inl e
           | Inr (c', al, s') \<Rightarrow>
               (case ple_scan_tensors path path_index (unat n_tensors) c' s' of
                  Inl e \<Rightarrow> Inl e
                | Inr (c'', s'') \<Rightarrow> Inr (ple_make_absolute path_index (pc_pos c'') (unat al) s''))))"


subsection \<open>The cursor in front of known bytes\<close>

text \<open>
  \<open>pc_view c r\<close>: the cursor is good, inside its mapping, and \<open>r\<close> is what is left of it. Every
  reader on a view that starts with what it expects consumes exactly that.
\<close>

definition pc_view :: "ple_cursor \<Rightarrow> bytes \<Rightarrow> bool" where
  "pc_view c r \<longleftrightarrow> pc_ok c \<and> pc_size c = length (pc_base c) \<and> pc_pos c \<le> pc_size c
     \<and> drop (pc_pos c) (pc_base c) = r"

definition pc_adv :: "ple_cursor \<Rightarrow> nat \<Rightarrow> ple_cursor" where
  "pc_adv c n = c\<lparr> pc_pos := pc_pos c + n \<rparr>"

lemma pc_adv_simps [simp]:
  "pc_pos (pc_adv c n) = pc_pos c + n" "pc_ok (pc_adv c n) = pc_ok c"
  "pc_adv (pc_adv c m) n = pc_adv c (m + n)" "pc_adv c 0 = c"
  by (simp_all add: pc_adv_def add.assoc)

lemma pc_view_start: "pc_view (ple_cursor_at m) m"
  by (simp add: pc_view_def ple_cursor_at_def)

lemma pc_view_len: "pc_view c r \<Longrightarrow> pc_size c = pc_pos c + length r"
  by (auto simp: pc_view_def)

lemma pc_view_fits: "pc_view c (xs @ r) \<Longrightarrow> ple_fits c (length xs)"
proof -
  assume v: "pc_view c (xs @ r)"
  from pc_view_len [OF v] show ?thesis by (simp add: ple_fits_def)
qed

lemma pc_view_adv: "pc_view c (xs @ r) \<Longrightarrow> n = length xs \<Longrightarrow> pc_view (pc_adv c n) r"
proof -
  assume v: "pc_view c (xs @ r)" and n: "n = length xs"
  have "drop (pc_pos c + n) (pc_base c) = drop n (drop (pc_pos c) (pc_base c))" by (simp add: add.commute)
  also have "\<dots> = r" using v n by (simp add: pc_view_def)
  finally show ?thesis using v pc_view_len [OF v] n by (simp add: pc_view_def pc_adv_def)
qed

lemma ple_read_view:
  assumes "pc_view c (xs @ r)" "n = length xs"
  shows "ple_read c n = (Some xs, pc_adv c n)"
  using pc_view_fits [OF assms(1)] assms by (auto simp: ple_read_def pc_adv_def pc_view_def)

lemma ple_skip_view:
  assumes "pc_view c (xs @ r)" "n = length xs"
  shows "ple_skip c n = (True, pc_adv c n)"
  using pc_view_fits [OF assms(1)] assms by (auto simp: ple_skip_def pc_adv_def pc_view_def)

lemma ple_u32_view: "pc_view c (xs @ r) \<Longrightarrow> length xs = 4 \<Longrightarrow> ple_u32 c = (Some (le_get32 xs), pc_adv c 4)"
  by (simp add: ple_u32_def ple_read_view)

lemma ple_u64_view: "pc_view c (xs @ r) \<Longrightarrow> length xs = 8 \<Longrightarrow> ple_u64 c = (Some (le_get64 xs), pc_adv c 8)"
  by (simp add: ple_u64_def ple_read_view)

lemma ple_u32_put: "pc_view c (le_put32 v @ r) \<Longrightarrow> ple_u32 c = (Some v, pc_adv c 4)"
  using le_get32_put32 [of v "[]"] by (simp add: ple_u32_view)

lemma ple_u64_put: "pc_view c (le_put64 v @ r) \<Longrightarrow> ple_u64 c = (Some v, pc_adv c 8)"
  using le_get64_put64 [of v "[]"] by (simp add: ple_u64_view)

definition gguf_put_string :: "bytes \<Rightarrow> bytes" where
  "gguf_put_string s = le_put64 (of_nat (length s)) @ s"

lemma ple_string_put:
  assumes v: "pc_view c (gguf_put_string s @ r)" and n: "length s < 2 ^ 64"
  shows "ple_string c = (Some s, pc_adv c (8 + length s))"
proof -
  have v1: "pc_view c (le_put64 (of_nat (length s)) @ (s @ r))" using v by (simp add: gguf_put_string_def)
  then have v2: "pc_view (pc_adv c 8) (s @ r)" by (rule pc_view_adv) simp
  have "unat (of_nat (length s) :: u64) = length s" using n by (rule unat_of_nat_u64)
  moreover have "drop (pc_pos c + 8) (pc_base c) = s @ r" using v2 by (simp add: pc_view_def pc_adv_def)
  ultimately show ?thesis
    using ple_u64_put [OF v1] pc_view_fits [OF v2] by (simp add: ple_string_def pc_adv_def add.assoc)
qed

subsection \<open>Cursors stay inside their mapping\<close>

text \<open>
  What every step of the scan keeps, on any bytes whatever: the cursor stays in its mapping and
  moves forward by at least \<open>k\<close> bytes.
\<close>

definition pc_inv :: "bytes \<Rightarrow> ple_cursor \<Rightarrow> bool" where
  "pc_inv m c \<longleftrightarrow> pc_base c = m \<and> pc_size c = length m \<and> pc_pos c \<le> length m"

definition pc_moved :: "nat \<Rightarrow> ple_cursor \<Rightarrow> ple_cursor \<Rightarrow> bool" where
  "pc_moved k c c' \<longleftrightarrow> pc_base c' = pc_base c \<and> pc_size c' = pc_size c \<and> pc_pos c + k \<le> pc_pos c'
     \<and> (pc_pos c \<le> pc_size c \<longrightarrow> pc_pos c' \<le> pc_size c)"

lemma pc_moved_inv: "pc_moved k c c' \<Longrightarrow> pc_inv m c \<Longrightarrow> pc_inv m c' \<and> pc_pos c + k \<le> pc_pos c'"
  by (auto simp: pc_moved_def pc_inv_def)

lemma pc_moved_refl: "pc_moved 0 c c"
  by (simp add: pc_moved_def)

lemma pc_moved_trans: "pc_moved j c c1 \<Longrightarrow> pc_moved k c1 c2 \<Longrightarrow> n \<le> j + k \<Longrightarrow> pc_moved n c c2"
  by (auto simp: pc_moved_def)

lemma pc_moved_weaken: "pc_moved j c c1 \<Longrightarrow> n \<le> j \<Longrightarrow> pc_moved n c c1"
  by (auto simp: pc_moved_def)

lemma ple_read_moved: "ple_read c n = (Some bs, c') \<Longrightarrow> pc_moved n c c'"
  by (auto simp: ple_read_def pc_moved_def ple_fits_def split: if_splits)

lemma ple_skip_moved: "ple_skip c n = (True, c') \<Longrightarrow> pc_moved n c c'"
  by (auto simp: ple_skip_def pc_moved_def ple_fits_def split: if_splits)

lemma ple_u32_moved: "ple_u32 c = (Some v, c') \<Longrightarrow> pc_moved 4 c c'"
  by (auto simp: ple_u32_def dest: ple_read_moved split: prod.splits)

lemma ple_u64_moved: "ple_u64 c = (Some v, c') \<Longrightarrow> pc_moved 8 c c'"
  by (auto simp: ple_u64_def dest: ple_read_moved split: prod.splits)

lemma ple_string_moved: "ple_string c = (Some s, c') \<Longrightarrow> pc_moved 8 c c'"
proof -
  assume s: "ple_string c = (Some s, c')"
  then obtain n c1 where n: "ple_u64 c = (Some n, c1)"
    by (auto simp: ple_string_def split: prod.splits option.splits)
  have "pc_moved 0 c1 c'" using s n
    by (auto simp: ple_string_def pc_moved_def ple_fits_def split: if_splits)
  with ple_u64_moved [OF n] show ?thesis by (rule pc_moved_trans) simp
qed

lemmas pc_reads_moved = ple_u32_moved ple_u64_moved ple_string_moved ple_skip_moved

lemma ple_skip_value_moved:
  "ple_skip_value c t d = (True, c') \<Longrightarrow> pc_moved 1 c c'"
  "ple_skip_items c t d k = (True, c') \<Longrightarrow> pc_moved k c c'"
proof (induction c t d and c t d k arbitrary: c' and c' rule: ple_skip_value_ple_skip_items.induct)
  case (1 c t depth)
  note IH = 1(1) and eq = 1(2)
  from eq have d: "\<not> depth > 8" by (auto simp: ple_skip_value.simps)
  consider (scalar) "ple_scalar_size t \<noteq> 0" | (str) "ple_scalar_size t = 0" "t = PLE_GGUF_STRING"
    | (arr) "ple_scalar_size t = 0" "t = PLE_GGUF_ARRAY"
    using eq by (auto simp: ple_skip_value.simps split: if_splits)
  then show ?case
  proof cases
    case scalar
    then have "ple_skip c (ple_scalar_size t) = (True, c')" using eq d by (simp add: ple_skip_value.simps)
    then show ?thesis using scalar by (auto dest: ple_skip_moved intro: pc_moved_weaken)
  next
    case str
    then have "(case ple_string c of (r, c') \<Rightarrow> (r \<noteq> None, c')) = (True, c')"
      using eq d by (simp add: ple_skip_value.simps)
    then obtain s where "ple_string c = (Some s, c')" by (auto split: prod.splits)
    then show ?thesis by (auto dest: ple_string_moved intro: pc_moved_weaken)
  next
    case arr
    then have ns: "t \<noteq> PLE_GGUF_STRING" by (simp add: gguf_types)
    obtain item c1 where i: "ple_u32 c = (Some item, c1)"
      using eq d arr ns by (auto simp: ple_skip_value.simps split: prod.splits option.splits)
    obtain len c2 where l: "ple_u64 c1 = (Some len, c2)"
      using eq d arr ns i by (auto simp: ple_skip_value.simps split: prod.splits option.splits)
    have hd: "pc_moved 12 c c2" using ple_u32_moved [OF i] ple_u64_moved [OF l] by (rule pc_moved_trans) simp
    have "pc_moved 0 c2 c'"
    proof (cases "ple_scalar_size item = 0")
      case True
      then have "ple_skip_items c2 item (Suc depth) (unat len) = (True, c')"
        using eq d arr ns i l by (simp add: ple_skip_value.simps)
      then show ?thesis using IH [OF d _ ns arr(2) i [symmetric] refl l [symmetric] refl] arr True
        by (auto intro: pc_moved_weaken)
    next
      case False
      then have "\<exists>n. ple_skip c2 n = (True, c')"
        using eq d arr ns i l by (auto simp: ple_skip_value.simps split: if_splits)
      then show ?thesis by (auto dest: ple_skip_moved intro: pc_moved_weaken)
    qed
    with hd show ?thesis by (rule pc_moved_trans) simp
  qed
next
  case (2 c item depth) then show ?case by (simp add: pc_moved_refl)
next
  case (3 c item depth k)
  from 3(3) obtain c1 where v: "ple_skip_value c item depth = (True, c1)"
    and r: "ple_skip_items c1 item depth k = (True, c')"
    by (auto split: prod.splits bool.splits)
  show ?case using pc_moved_trans [OF 3(1) [OF v] 3(2) [OF v [symmetric] _ r]] by simp
qed

end
