(* ===== verification/Ple_Scan.thy ===== *)
theory Ple_Scan
  imports Ple_Gguf
begin

text \<open>
  What the scan of a shard returns. On any bytes the scan stays inside the mapping and an
  accepted header cannot announce more entries than the file has room for; on a well-formed
  shard the scan returns exactly the last value of every key and the first descriptor of the
  table.
\<close>

subsection \<open>Any bytes\<close>

lemma ple_int_elem_moved: "ple_int_elem c t = (Some v, c') \<Longrightarrow> pc_moved 4 c c'"
  by (auto simp: ple_int_elem_def dest!: ple_u32_moved ple_u64_moved intro: pc_moved_weaken
      split: prod.splits option.splits if_splits)

lemma ple_int_elems_moved: "ple_int_elems c t k = (Some xs, c') \<Longrightarrow> pc_moved 0 c c'"
proof (induction k arbitrary: c xs)
  case (Suc k)
  then obtain v c1 ys where "ple_int_elem c t = (Some v, c1)" "ple_int_elems c1 t k = (Some ys, c')"
    by (auto split: prod.splits option.splits)
  with Suc.IH show ?case by (blast intro: pc_moved_trans dest: ple_int_elem_moved)
qed (auto simp: pc_moved_refl)

lemma ple_int_array_moved: "ple_int_array c cap n = (Some xs, m, c') \<Longrightarrow> pc_moved 0 c c'"
proof -
  assume "ple_int_array c cap n = (Some xs, m, c')"
  then obtain item c1 c2 where "ple_u32 c = (Some item, c1)" "ple_u64 c1 = (Some m, c2)"
    "ple_int_elems c2 item (unat m) = (Some xs, c')"
    by (auto simp: ple_int_array_def split: prod.splits option.splits if_splits)
  then have "pc_moved 4 c c1" "pc_moved 8 c1 c2" "pc_moved 0 c2 c'"
    by (blast dest: ple_u32_moved ple_u64_moved ple_int_elems_moved)+
  then show ?thesis by (auto simp: pc_moved_def)
qed

lemma scan_array_moved: "scan_array path key cap old c f = Inr (c', s) \<Longrightarrow> pc_moved 0 c c'"
  by (auto simp: scan_array_def dest!: ple_int_array_moved split: prod.splits option.splits)

lemma scan_u32_moved: "scan_u32 path c f = Inr (c', s) \<Longrightarrow> pc_moved 0 c c'"
  by (auto simp: scan_u32_def dest!: ple_u32_moved intro: pc_moved_weaken split: prod.splits option.splits)

lemma scan_alignment_moved: "scan_alignment path c = Inr (c', al) \<Longrightarrow> pc_moved 0 c c'"
  by (auto simp: scan_alignment_def dest!: ple_u32_moved intro: pc_moved_weaken
      split: prod.splits option.splits if_splits)

lemma map_sum_id_Inr: "map_sum id f x = Inr y \<longleftrightarrow> (\<exists>z. x = Inr z \<and> y = f z)"
  by (cases x) auto

definition key_moved :: "ple_cursor \<Rightarrow> ('e, bool \<times> ple_cursor \<times> u32 \<times> ple_scan) result \<Rightarrow> bool" where
  "key_moved c r \<longleftrightarrow> (\<forall>h c' al s. r = Inr (h, c', al, s) \<longrightarrow> pc_moved 0 c c')"

lemma key_moved_if: "key_moved c x \<Longrightarrow> key_moved c y \<Longrightarrow> key_moved c (if b then x else y)"
  by simp

lemma key_moved_scans:
  "key_moved c (map_sum id (\<lambda>(c', s'). (True, c', al, s')) (scan_u32 path c f))"
  "key_moved c (map_sum id (\<lambda>(c', s'). (True, c', al, s')) (scan_array path key cap old c g))"
  "key_moved c (map_sum id (\<lambda>(c', al'). (True, c', al', s)) (scan_alignment path c))"
  "key_moved c (case ple_int_elem c t of (None, _) \<Rightarrow> Inl e | (Some v, c') \<Rightarrow> Inr (True, c', al, k v))"
  "key_moved c (case ple_u32 c of (None, _) \<Rightarrow> Inl e | (Some _, v1) \<Rightarrow>
     (case ple_u64 v1 of (None, _) \<Rightarrow> Inl e' | (Some len, _) \<Rightarrow> Inr (False, c, al, l len)))"
  "key_moved c (Inr (False, c, al, s))"
  by (auto simp: key_moved_def map_sum_id_Inr pc_moved_refl
      dest!: scan_array_moved scan_u32_moved scan_alignment_moved ple_int_elem_moved
      intro: pc_moved_weaken split: prod.splits option.splits)

lemma ple_scan_key_moved: "ple_scan_key path key t c al s = Inr (h, c', al', s') \<Longrightarrow> pc_moved 0 c c'"
proof -
  have "key_moved c (ple_scan_key path key t c al s)"
    unfolding ple_scan_key_def Let_def by (intro key_moved_if key_moved_scans)
  then show "ple_scan_key path key t c al s = Inr (h, c', al', s') \<Longrightarrow> pc_moved 0 c c'"
    by (auto simp: key_moved_def)
qed

lemma ple_scan_kv_moved: "ple_scan_kv path c al s = Inr (c', al', s') \<Longrightarrow> pc_moved 12 c c'"
proof -
  assume r: "ple_scan_kv path c al s = Inr (c', al', s')"
  obtain key c1 where k: "ple_string c = (Some key, c1)"
    using r by (auto simp: ple_scan_kv_def split: prod.splits option.splits)
  obtain t c2 where t: "ple_u32 c1 = (Some t, c2)"
    using r k by (auto simp: ple_scan_kv_def split: prod.splits option.splits)
  obtain h c3 where h: "ple_scan_key path key t c2 al s = Inr (h, c3, al', s')"
    and v: "(if h then (True, c3) else ple_skip_value c3 t 0) = (True, c')"
    using r k t by (auto simp: ple_scan_kv_def split: prod.splits sum.splits if_splits)
  have "pc_moved 0 c3 c'" using v
    by (auto simp: pc_moved_refl dest!: ple_skip_value_moved intro: pc_moved_weaken split: if_splits)
  with ple_string_moved [OF k] ple_u32_moved [OF t] ple_scan_key_moved [OF h]
  show ?thesis by (auto simp: pc_moved_def)
qed

lemma ple_scan_kvs_moved: "ple_scan_kvs path k c al s = Inr (c', al', s') \<Longrightarrow> pc_moved (12 * k) c c'"
proof (induction k arbitrary: c al s)
  case (Suc k)
  then obtain c1 al1 s1 where e: "ple_scan_kv path c al s = Inr (c1, al1, s1)"
    "ple_scan_kvs path k c1 al1 s1 = Inr (c', al', s')" by (auto split: sum.splits)
  show ?case by (rule pc_moved_trans [OF ple_scan_kv_moved [OF e(1)] Suc.IH [OF e(2)]]) simp
qed (auto simp: pc_moved_refl)

lemma ple_scan_dims_moved: "ple_scan_dims k c = (Some ds, c') \<Longrightarrow> pc_moved 0 c c' \<and> length ds = k"
proof (induction k arbitrary: c ds)
  case (Suc k)
  then obtain v c1 es where e: "ple_u64 c = (Some v, c1)" "ple_scan_dims k c1 = (Some es, c')" "ds = v # es"
    by (auto split: prod.splits option.splits)
  with Suc.IH [OF e(2)] ple_u64_moved [OF e(1)] show ?case by (auto simp: pc_moved_def)
qed (auto simp: pc_moved_refl)

lemma ple_scan_tensor_moved: "ple_scan_tensor path i c s = Inr (c', s') \<Longrightarrow> pc_moved 24 c c'"
proof -
  assume r: "ple_scan_tensor path i c s = Inr (c', s')"
  obtain name c1 where n: "ple_string c = (Some name, c1)"
    using r by (auto simp: ple_scan_tensor_def split: prod.splits option.splits)
  obtain ndim c2 where d: "ple_u32 c1 = (Some ndim, c2)" "\<not> ndim > 4"
    using r n by (auto simp: ple_scan_tensor_def split: prod.splits option.splits if_splits)
  obtain dims c3 where m: "ple_scan_dims (unat ndim) c2 = (Some dims, c3)"
    using r n d by (auto simp: ple_scan_tensor_def split: prod.splits option.splits)
  obtain t c4 offset where t: "ple_u32 c3 = (Some t, c4)" "ple_u64 c4 = (Some offset, c')"
    using r n d m by (auto simp: ple_scan_tensor_def split: prod.splits option.splits)
  show ?thesis
    using ple_string_moved [OF n] ple_u32_moved [OF d(1)] ple_scan_dims_moved [OF m]
      ple_u32_moved [OF t(1)] ple_u64_moved [OF t(2)] by (auto simp: pc_moved_def)
qed

lemma ple_scan_tensors_moved:
  "ple_scan_tensors path i k c s = Inr (c', s') \<Longrightarrow> pc_moved (24 * k) c c'"
proof (induction k arbitrary: c s)
  case (Suc k)
  then obtain c1 s1 where e: "ple_scan_tensor path i c s = Inr (c1, s1)"
    "ple_scan_tensors path i k c1 s1 = Inr (c', s')" by (auto split: sum.splits)
  show ?case by (rule pc_moved_trans [OF ple_scan_tensor_moved [OF e(1)] Suc.IH [OF e(2)]]) simp
qed (auto simp: pc_moved_refl)

lemma ple_scan_header_moved:
  "ple_scan_header path m = Inr (nt, nkv, c) \<Longrightarrow> pc_moved 24 (ple_cursor_at m) c"
proof -
  assume r: "ple_scan_header path m = Inr (nt, nkv, c)"
  obtain magic c1 where a: "ple_u32 (ple_cursor_at m) = (Some magic, c1)" "magic = PLE_GGUF_MAGIC"
    using r by (auto simp: ple_scan_header_def split: prod.splits option.splits if_splits)
  obtain version c2 where b: "ple_u32 c1 = (Some version, c2)" "\<not> (version < 2 \<or> version > 3)"
    using r a by (auto simp: ple_scan_header_def split: prod.splits option.splits if_splits)
  obtain c3 where d: "ple_u64 c2 = (Some nt, c3)" "ple_u64 c3 = (Some nkv, c)"
    using r a b by (auto simp: ple_scan_header_def split: prod.splits option.splits if_splits)
  show ?thesis using ple_u32_moved [OF a(1)] ple_u32_moved [OF b(1)] ple_u64_moved [OF d(1)]
      ple_u64_moved [OF d(2)] by (auto simp: pc_moved_def)
qed

lemma ple_scan_file_room:
  assumes "ple_scan_file m i path s = Inr s'"
  shows "\<exists>nt nkv c. ple_scan_header path m = Inr (nt, nkv, c)
           \<and> 24 + 12 * unat nkv + 24 * unat nt \<le> length m"
proof -
  obtain nt nkv c where h: "ple_scan_header path m = Inr (nt, nkv, c)"
    using assms by (auto simp: ple_scan_file_def split: sum.splits)
  obtain c1 al s1 where k: "ple_scan_kvs path (unat nkv) c 32 s = Inr (c1, al, s1)"
    using assms h by (auto simp: ple_scan_file_def split: sum.splits)
  obtain c2 s2 where t: "ple_scan_tensors path i (unat nt) c1 s1 = Inr (c2, s2)"
    using assms h k by (auto simp: ple_scan_file_def split: sum.splits)
  have "pc_pos c2 \<le> length m \<and> 24 + 12 * unat nkv + 24 * unat nt \<le> pc_pos c2"
    using ple_scan_header_moved [OF h] ple_scan_kvs_moved [OF k] ple_scan_tensors_moved [OF t]
    by (auto simp: pc_moved_def ple_cursor_at_def)
  with h show ?thesis by auto
qed


subsection \<open>Well-formed shards\<close>

text \<open>A metadata value as the format defines it; an array carries the type of its items.\<close>

datatype gguf_value =
    Gguf_Scalar u32 bytes
  | Gguf_String bytes
  | Gguf_Array u32 "gguf_value list"

fun gguf_type :: "gguf_value \<Rightarrow> u32" where
  "gguf_type (Gguf_Scalar t bs) = t"
| "gguf_type (Gguf_String s) = PLE_GGUF_STRING"
| "gguf_type (Gguf_Array t vs) = PLE_GGUF_ARRAY"

fun gguf_put :: "gguf_value \<Rightarrow> bytes" where
  "gguf_put (Gguf_Scalar t bs) = bs"
| "gguf_put (Gguf_String s) = gguf_put_string s"
| "gguf_put (Gguf_Array t vs) = le_put32 t @ le_put64 (of_nat (length vs)) @ concat (map gguf_put vs)"

text \<open>Well-formed at nesting depth \<open>d\<close>; the walk accepts nesting up to depth eight.\<close>

fun gguf_wf :: "nat \<Rightarrow> gguf_value \<Rightarrow> bool" where
  "gguf_wf d (Gguf_Scalar t bs) \<longleftrightarrow> ple_scalar_size t \<noteq> 0 \<and> length bs = ple_scalar_size t"
| "gguf_wf d (Gguf_String s) \<longleftrightarrow> d \<le> 8 \<and> length s < 2 ^ 64"
| "gguf_wf d (Gguf_Array t vs) \<longleftrightarrow> d \<le> 8 \<and> 8 * length vs < 2 ^ 64
     \<and> list_all (\<lambda>v. gguf_type v = t \<and> gguf_wf (Suc d) v) vs"

lemma ple_scalar_size_le: "ple_scalar_size t \<le> 8"
  by (simp add: ple_scalar_size_def)

lemma scalar_size_compound [simp]:
  "ple_scalar_size PLE_GGUF_STRING = 0" "ple_scalar_size PLE_GGUF_ARRAY = 0"
  "PLE_GGUF_ARRAY \<noteq> PLE_GGUF_STRING"
  by (simp_all add: ple_scalar_size_def gguf_types)

lemma gguf_wf_not_scalar:
  "gguf_wf d v \<Longrightarrow> ple_scalar_size (gguf_type v) = 0 \<Longrightarrow> d \<le> 8"
  by (cases v) auto

lemma gguf_scalar_items:
  assumes "list_all (\<lambda>v. gguf_type v = t \<and> gguf_wf d v) vs" "ple_scalar_size t \<noteq> 0"
  shows "length (concat (map gguf_put vs)) = length vs * ple_scalar_size t"
  using assms
proof (induction vs)
  case (Cons v vs)
  then have "length (gguf_put v) = ple_scalar_size t" by (cases v) auto
  with Cons show ?case by simp
qed simp

lemma skip_items_put:
  assumes item: "\<And>v c r. v \<in> set vs \<Longrightarrow> pc_view c (gguf_put v @ r)
      \<Longrightarrow> ple_skip_value c t d = (True, pc_adv c (length (gguf_put v)))"
    and view: "pc_view c (concat (map gguf_put vs) @ r)"
  shows "ple_skip_items c t d (length vs) = (True, pc_adv c (length (concat (map gguf_put vs))))"
  using item view
proof (induction vs arbitrary: c)
  case (Cons v vs)
  then have v: "pc_view c (gguf_put v @ (concat (map gguf_put vs) @ r))" by simp
  have s: "ple_skip_value c t d = (True, pc_adv c (length (gguf_put v)))" using Cons.prems(1) [OF _ v] by simp
  have "ple_skip_items (pc_adv c (length (gguf_put v))) t d (length vs) =
      (True, pc_adv (pc_adv c (length (gguf_put v))) (length (concat (map gguf_put vs))))"
    using Cons.prems(1) by (intro Cons.IH [OF _ pc_view_adv [OF v refl]]) auto
  then show ?case using s by simp
qed simp

lemma ple_skip_array_put:
  assumes wf: "gguf_wf d (Gguf_Array t vs)" and view: "pc_view c (gguf_put (Gguf_Array t vs) @ r)"
    and item: "\<And>v c r. v \<in> set vs \<Longrightarrow> ple_scalar_size t = 0 \<Longrightarrow> pc_view c (gguf_put v @ r)
      \<Longrightarrow> ple_skip_value c t (Suc d) = (True, pc_adv c (length (gguf_put v)))"
  shows "ple_skip_value c PLE_GGUF_ARRAY d = (True, pc_adv c (length (gguf_put (Gguf_Array t vs))))"
proof -
  let ?items = "concat (map gguf_put vs)" and ?n = "of_nat (length vs) :: u64"
  have v0: "pc_view c (le_put32 t @ (le_put64 ?n @ ?items @ r))" using view by simp
  have v1: "pc_view (pc_adv c 4) (le_put64 ?n @ (?items @ r))" using pc_view_adv [OF v0] by simp
  have v2: "pc_view (pc_adv c 12) (?items @ r)" using pc_view_adv [OF v1, of 8] by simp
  have n: "unat ?n = length vs" using wf by (intro unat_of_nat_u64) simp
  have d: "d \<le> 8" using wf by simp
  have head: "ple_skip_value c PLE_GGUF_ARRAY d =
      (if ple_scalar_size t \<noteq> 0 then
         (if length vs > UINT64_MAX div ple_scalar_size t then (False, ple_fail (pc_adv c 12))
          else ple_skip (pc_adv c 12) (length vs * ple_scalar_size t))
       else ple_skip_items (pc_adv c 12) t (Suc d) (length vs))"
    using d ple_u32_put [OF v0] ple_u64_put [OF v1] n by (simp add: ple_skip_value.simps)
  show ?thesis
  proof (cases "ple_scalar_size t = 0")
    case True
    then show ?thesis using skip_items_put [OF item v2] head by simp
  next
    case False
    have ln: "length ?items = length vs * ple_scalar_size t"
      using wf by (intro gguf_scalar_items [OF _ False, of "Suc d"]) simp
    have "length vs * ple_scalar_size t \<le> length vs * 8" using ple_scalar_size_le by simp
    also have "\<dots> \<le> UINT64_MAX" using wf by (simp add: UINT64_MAX_def)
    finally have "\<not> length vs > UINT64_MAX div ple_scalar_size t"
      using False by (simp add: not_less less_eq_div_iff_mult_less_eq)
    then show ?thesis using False head ple_skip_view [OF v2, of "length vs * ple_scalar_size t"] ln by simp
  qed
qed

lemma ple_skip_value_put:
  "gguf_wf d v \<Longrightarrow> d \<le> 8 \<Longrightarrow> pc_view c (gguf_put v @ r)
   \<Longrightarrow> ple_skip_value c (gguf_type v) d = (True, pc_adv c (length (gguf_put v)))"
proof (induction v arbitrary: d c r)
  case (Gguf_Scalar t bs)
  then show ?case by (simp add: ple_skip_value.simps ple_skip_view)
next
  case (Gguf_String s)
  then show ?case
    by (simp add: ple_skip_value.simps ple_string_put gguf_put_string_def)
next
  case (Gguf_Array t vs)
  have "ple_skip_value c' t (Suc d) = (True, pc_adv c' (length (gguf_put v)))"
    if "v \<in> set vs" "ple_scalar_size t = 0" "pc_view c' (gguf_put v @ r')" for v c' r'
  proof -
    have "gguf_type v = t" "gguf_wf (Suc d) v" using Gguf_Array.prems(1) that(1) by (auto simp: list_all_iff)
    moreover from this have "Suc d \<le> 8" using that(2) by (intro gguf_wf_not_scalar) auto
    ultimately show ?thesis using Gguf_Array.IH [OF that(1), of "Suc d" c' r'] that by auto
  qed
  then show ?case using ple_skip_array_put [OF Gguf_Array.prems(1,3)] by simp
qed


subsection \<open>Integers and arrays of a well-formed shard\<close>

fun gguf_u32 :: "gguf_value \<Rightarrow> u32 option" where
  "gguf_u32 (Gguf_Scalar t bs) = (if t = PLE_GGUF_UINT32 then Some (le_get32 bs) else None)"
| "gguf_u32 _ = None"

text \<open>The non-negative integer a scalar of an accepted width holds.\<close>

fun gguf_int :: "gguf_value \<Rightarrow> u64 option" where
  "gguf_int (Gguf_Scalar t bs) =
     (if t = PLE_GGUF_UINT32 then Some (ucast (le_get32 bs))
      else if t = PLE_GGUF_INT32 then (if bit (le_get32 bs) 31 then None else Some (ucast (le_get32 bs)))
      else if t = PLE_GGUF_UINT64 then Some (le_get64 bs)
      else if t = PLE_GGUF_INT64 then (if bit (le_get64 bs) 63 then None else Some (le_get64 bs))
      else None)"
| "gguf_int _ = None"

fun gguf_ints :: "gguf_value \<Rightarrow> u64 list option" where
  "gguf_ints (Gguf_Array t vs) = those (map gguf_int vs)"
| "gguf_ints _ = None"

fun gguf_count :: "gguf_value \<Rightarrow> u64 option" where
  "gguf_count (Gguf_Array t vs) = Some (of_nat (length vs))"
| "gguf_count _ = None"

lemma scalar_sizes [simp]:
  "ple_scalar_size PLE_GGUF_UINT32 = 4" "ple_scalar_size PLE_GGUF_INT32 = 4"
  "ple_scalar_size PLE_GGUF_UINT64 = 8" "ple_scalar_size PLE_GGUF_INT64 = 8"
  by (simp_all add: ple_scalar_size_def gguf_types)

lemma ple_int_elem_put:
  assumes "gguf_wf d v" "pc_view c (gguf_put v @ r)" "gguf_int v = Some x"
  shows "ple_int_elem c (gguf_type v) = (Some x, pc_adv c (length (gguf_put v)))"
proof (cases v)
  case (Gguf_Scalar t bs)
  then show ?thesis using assms
    by (auto simp: ple_int_elem_def ple_u32_view ple_u64_view split: if_splits)
qed (use assms in auto)

lemma those_Cons_Some: "those (x # xs) = Some ys \<longleftrightarrow> (\<exists>y zs. x = Some y \<and> those xs = Some zs \<and> ys = y # zs)"
  by (auto split: option.splits)

lemma those_length: "those xs = Some ys \<Longrightarrow> length ys = length xs"
proof (induction xs arbitrary: ys)
  case (Cons x xs)
  then show ?case unfolding those_Cons_Some by auto
qed simp

lemma ple_int_elems_put:
  assumes "list_all (\<lambda>v. gguf_type v = t \<and> gguf_wf d v) vs"
    "pc_view c (concat (map gguf_put vs) @ r)" "those (map gguf_int vs) = Some xs"
  shows "ple_int_elems c t (length vs) = (Some xs, pc_adv c (length (concat (map gguf_put vs))))"
  using assms
proof (induction vs arbitrary: c xs)
  case (Cons v vs)
  from Cons.prems(3) obtain x ys where x: "gguf_int v = Some x" and ys: "those (map gguf_int vs) = Some ys"
    and xs: "xs = x # ys" by (auto simp: those_Cons_Some simp del: those.simps)
  have v: "pc_view c (gguf_put v @ (concat (map gguf_put vs) @ r))" using Cons.prems(2) by simp
  have "ple_int_elem c t = (Some x, pc_adv c (length (gguf_put v)))"
    using ple_int_elem_put [OF _ v x, of d] Cons.prems(1) by simp
  moreover have "ple_int_elems (pc_adv c (length (gguf_put v))) t (length vs) =
      (Some ys, pc_adv (pc_adv c (length (gguf_put v))) (length (concat (map gguf_put vs))))"
    using Cons.prems(1) by (intro Cons.IH [OF _ pc_view_adv [OF v refl] ys]) simp
  ultimately show ?case using xs by simp
qed simp

lemma ple_array_head_put:
  assumes view: "pc_view c (gguf_put (Gguf_Array t vs) @ r)"
  shows "ple_u32 c = (Some t, pc_adv c 4)" "ple_u64 (pc_adv c 4) = (Some (of_nat (length vs)), pc_adv c 12)"
    "pc_view (pc_adv c 12) (concat (map gguf_put vs) @ r)"
proof -
  have v0: "pc_view c (le_put32 t @ (le_put64 (of_nat (length vs)) @ concat (map gguf_put vs) @ r))"
    using view by simp
  have v1: "pc_view (pc_adv c 4) (le_put64 (of_nat (length vs)) @ (concat (map gguf_put vs) @ r))"
    using pc_view_adv [OF v0] by simp
  show "ple_u32 c = (Some t, pc_adv c 4)" by (rule ple_u32_put [OF v0])
  show "ple_u64 (pc_adv c 4) = (Some (of_nat (length vs)), pc_adv c 12)" using ple_u64_put [OF v1] by simp
  show "pc_view (pc_adv c 12) (concat (map gguf_put vs) @ r)" using pc_view_adv [OF v1, of 8] by simp
qed

lemma ple_int_array_put:
  assumes wf: "gguf_wf d v" and view: "pc_view c (gguf_put v @ r)"
    and xs: "gguf_ints v = Some xs" and cap: "length xs \<le> cap"
  shows "ple_int_array c cap n = (Some xs, of_nat (length xs), pc_adv c (length (gguf_put v)))"
proof -
  obtain t vs where v: "v = Gguf_Array t vs" using xs by (cases v) auto
  have l: "length xs = length vs" using xs v those_length [of "map gguf_int vs" xs] by simp
  have n: "unat (of_nat (length vs) :: u64) = length vs" using wf v by (intro unat_of_nat_u64) simp
  note hd = ple_array_head_put [OF view [unfolded v]]
  have "ple_int_elems (pc_adv c 12) t (length vs) =
      (Some xs, pc_adv (pc_adv c 12) (length (concat (map gguf_put vs))))"
    using wf xs v by (intro ple_int_elems_put [OF _ hd(3), of t "Suc d"]) auto
  then show ?thesis using hd n l cap v by (simp add: ple_int_array_def)
qed

end
