(* ===== verification/Ple_Round.thy ===== *)
theory Ple_Round
  imports Ple_Scan
begin

text \<open>
  The round trip of the GGUF header: the scan of the bytes of a well-formed shard returns the
  last value of every key the n-gram table needs and the first descriptor of its tensor, with
  the offset made absolute.
\<close>

subsection \<open>What a shard says\<close>

definition pick :: "'a option \<Rightarrow> 'a option \<Rightarrow> 'a option" where
  "pick new old = (case new of None \<Rightarrow> old | Some x \<Rightarrow> Some x)"

definition at_key :: "string \<Rightarrow> (gguf_value \<Rightarrow> 'a option) \<Rightarrow> bytes \<times> gguf_value \<Rightarrow> 'a option" where
  "at_key lit f kv = (if fst kv = bytes_of lit then f (snd kv) else None)"

text \<open>The last readable value of a key, or the one known before.\<close>

definition last_at :: "string \<Rightarrow> (gguf_value \<Rightarrow> 'a option) \<Rightarrow> (bytes \<times> gguf_value) list \<Rightarrow> 'a option \<Rightarrow> 'a option" where
  "last_at lit f kvs old = foldl (\<lambda>a kv. pick (at_key lit f kv) a) old kvs"

definition note_kv :: "bytes \<times> gguf_value \<Rightarrow> ple_scan \<Rightarrow> ple_scan" where
  "note_kv kv s = s\<lparr>
     sc_ngram_size := pick (at_key ''qwen4exp.ple.ngram_size'' gguf_u32 kv) (sc_ngram_size s),
     sc_heads_per_ngram := pick (at_key ''qwen4exp.ple.heads_per_ngram'' gguf_u32 kv) (sc_heads_per_ngram s),
     sc_row_dim := pick (at_key ''qwen4exp.embedding_length_per_layer_input'' gguf_u32 kv) (sc_row_dim s),
     sc_eos := pick (at_key ''qwen4exp.ple.eos_token_id'' gguf_int kv) (sc_eos s),
     sc_conv_kernel := pick (at_key ''qwen4exp.ple.conv_kernel'' gguf_u32 kv) (sc_conv_kernel s),
     sc_layers := pick (at_key ''qwen4exp.ple.layers'' gguf_ints kv) (sc_layers s),
     sc_vocab := pick (at_key ''tokenizer.ggml.tokens'' gguf_count kv) (sc_vocab s),
     sc_multipliers := pick (at_key ''qwen4exp.ple.layer_multipliers'' gguf_ints kv) (sc_multipliers s),
     sc_sizes := pick (at_key ''qwen4exp.ple.head_vocab_sizes'' gguf_ints kv) (sc_sizes s),
     sc_offsets := pick (at_key ''qwen4exp.ple.head_offsets'' gguf_ints kv) (sc_offsets s) \<rparr>"

definition note_align :: "bytes \<times> gguf_value \<Rightarrow> u32 \<Rightarrow> u32" where
  "note_align kv al = (case at_key ''general.alignment'' gguf_u32 kv of None \<Rightarrow> al | Some v \<Rightarrow> v)"

text \<open>The entries the scan accepts: nesting within the limit, readable arrays within their room.\<close>

definition array_ok :: "string \<Rightarrow> nat \<Rightarrow> bytes \<times> gguf_value \<Rightarrow> bool" where
  "array_ok lit cap kv \<longleftrightarrow> (fst kv = bytes_of lit \<and> gguf_type (snd kv) = PLE_GGUF_ARRAY \<longrightarrow>
     (case gguf_ints (snd kv) of None \<Rightarrow> False | Some xs \<Rightarrow> length xs \<le> cap))"

definition kv_ok :: "bytes \<times> gguf_value \<Rightarrow> bool" where
  "kv_ok kv \<longleftrightarrow> length (fst kv) < 2 ^ 64 \<and> gguf_wf 0 (snd kv)
     \<and> (case at_key ''general.alignment'' gguf_u32 kv of None \<Rightarrow> True | Some a \<Rightarrow> a \<noteq> 0 \<and> a AND (a - 1) = 0)
     \<and> (fst kv = bytes_of ''qwen4exp.ple.eos_token_id'' \<longrightarrow> gguf_int (snd kv) \<noteq> None)
     \<and> array_ok ''qwen4exp.ple.layers'' PLE_MAX_LAYERS kv
     \<and> array_ok ''qwen4exp.ple.layer_multipliers'' PLE_MAX_NGRAM kv
     \<and> array_ok ''qwen4exp.ple.head_vocab_sizes'' PLE_MAX_HEADS kv
     \<and> array_ok ''qwen4exp.ple.head_offsets'' PLE_MAX_HEADS kv"

definition gguf_put_kv :: "bytes \<times> gguf_value \<Rightarrow> bytes" where
  "gguf_put_kv kv = gguf_put_string (fst kv) @ le_put32 (gguf_type (snd kv)) @ gguf_put (snd kv)"

lemma bytes_of_eq [simp]: "bytes_of s = bytes_of t \<longleftrightarrow> s = t"
proof -
  have "inj (\<lambda>c. word_of_nat (of_char c) :: byte)"
  proof (rule injI)
    fix c d :: char
    assume "(word_of_nat (of_char c) :: byte) = word_of_nat (of_char d)"
    then have "unat (word_of_nat (of_char c) :: byte) = unat (word_of_nat (of_char d) :: byte)" by simp
    then have "(of_char c :: nat) mod 256 = of_char d mod 256" by (simp add: unsigned_of_nat take_bit_eq_mod)
    moreover have "(of_char c :: nat) < 256" "(of_char d :: nat) < 256" by (simp_all add: nat_of_char_less_256)
    ultimately show "c = d" by simp
  qed
  then show ?thesis by (auto simp: bytes_of_def inj_map_eq_map)
qed

lemma ple_str_is_iff [simp]: "ple_str_is s lit \<longleftrightarrow> s = bytes_of lit"
  by (auto simp: ple_str_is_def bytes_of_def)

lemma gguf_type_u32: "gguf_wf d v \<Longrightarrow> gguf_type v = PLE_GGUF_UINT32 \<longleftrightarrow> gguf_u32 v \<noteq> None"
  by (cases v) (auto simp: gguf_types)

lemma gguf_type_array: "gguf_wf d v \<Longrightarrow> gguf_type v = PLE_GGUF_ARRAY \<longleftrightarrow> gguf_count v \<noteq> None"
  using scalar_size_compound(3) [symmetric] by (cases v) auto

lemma gguf_ints_not_array: "gguf_type v \<noteq> PLE_GGUF_ARRAY \<Longrightarrow> gguf_ints v = None \<and> gguf_count v = None"
  by (cases v) auto

lemma gguf_u32_view:
  assumes "gguf_wf d v" "pc_view c (gguf_put v @ r)" "gguf_u32 v = Some x"
  shows "ple_u32 c = (Some x, pc_adv c (length (gguf_put v)))"
  using assms by (cases v) (auto simp: ple_u32_view split: if_splits)

lemma gguf_count_view:
  assumes "pc_view c (gguf_put v @ r)" "gguf_count v = Some n"
  shows "\<exists>t. ple_u32 c = (Some t, pc_adv c 4) \<and> ple_u64 (pc_adv c 4) = (Some n, pc_adv c 12)"
proof -
  obtain t vs where v: "v = Gguf_Array t vs" "n = of_nat (length vs)" using assms(2) by (cases v) auto
  show ?thesis using ple_array_head_put(1,2) [OF assms(1) [unfolded v(1)]] v(2) by auto
qed

lemma scan_u32_put:
  "gguf_wf d v \<Longrightarrow> pc_view c (gguf_put v @ r) \<Longrightarrow> gguf_u32 v = Some x
   \<Longrightarrow> scan_u32 path c f = Inr (pc_adv c (length (gguf_put v)), f x)"
  by (simp add: scan_u32_def gguf_u32_view)

lemma scan_array_put:
  "gguf_wf d v \<Longrightarrow> pc_view c (gguf_put v @ r) \<Longrightarrow> gguf_ints v = Some xs \<Longrightarrow> length xs \<le> cap
   \<Longrightarrow> scan_array path key cap old c f = Inr (pc_adv c (length (gguf_put v)), f xs)"
  by (simp add: scan_array_def ple_int_array_put)

lemma scan_alignment_put:
  "gguf_wf d v \<Longrightarrow> pc_view c (gguf_put v @ r) \<Longrightarrow> gguf_u32 v = Some a \<Longrightarrow> a \<noteq> 0 \<Longrightarrow> a AND (a - 1) = 0
   \<Longrightarrow> scan_alignment path c = Inr (pc_adv c (length (gguf_put v)), a)"
  by (simp add: scan_alignment_def gguf_u32_view)

lemmas note_defs = note_kv_def note_align_def at_key_def pick_def

lemma array_ok_ints:
  "array_ok lit cap (bytes_of lit, v) \<Longrightarrow> gguf_type v = PLE_GGUF_ARRAY
   \<Longrightarrow> \<exists>xs. gguf_ints v = Some xs \<and> length xs \<le> cap"
  by (auto simp: array_ok_def split: option.splits)

lemma kv_okD:
  assumes "kv_ok (k, v)"
  shows "gguf_wf 0 v" "length k < 2 ^ 64"
    "k = bytes_of ''general.alignment'' \<Longrightarrow> gguf_u32 v = Some a \<Longrightarrow> a \<noteq> 0 \<and> a AND (a - 1) = 0"
    "k = bytes_of ''qwen4exp.ple.eos_token_id'' \<Longrightarrow> \<exists>x. gguf_int v = Some x"
    "k = bytes_of ''qwen4exp.ple.layers'' \<Longrightarrow> gguf_type v = PLE_GGUF_ARRAY
       \<Longrightarrow> \<exists>xs. gguf_ints v = Some xs \<and> length xs \<le> PLE_MAX_LAYERS"
    "k = bytes_of ''qwen4exp.ple.layer_multipliers'' \<Longrightarrow> gguf_type v = PLE_GGUF_ARRAY
       \<Longrightarrow> \<exists>xs. gguf_ints v = Some xs \<and> length xs \<le> PLE_MAX_NGRAM"
    "k = bytes_of ''qwen4exp.ple.head_vocab_sizes'' \<Longrightarrow> gguf_type v = PLE_GGUF_ARRAY
       \<Longrightarrow> \<exists>xs. gguf_ints v = Some xs \<and> length xs \<le> PLE_MAX_HEADS"
    "k = bytes_of ''qwen4exp.ple.head_offsets'' \<Longrightarrow> gguf_type v = PLE_GGUF_ARRAY
       \<Longrightarrow> \<exists>xs. gguf_ints v = Some xs \<and> length xs \<le> PLE_MAX_HEADS"
proof -
  note u = assms [unfolded kv_ok_def fst_conv snd_conv]
  show "gguf_wf 0 v" "length k < 2 ^ 64" using u by blast+
  show "k = bytes_of ''general.alignment'' \<Longrightarrow> gguf_u32 v = Some a \<Longrightarrow> a \<noteq> 0 \<and> a AND (a - 1) = 0"
    using u by (simp add: at_key_def)
  show "k = bytes_of ''qwen4exp.ple.eos_token_id'' \<Longrightarrow> \<exists>x. gguf_int v = Some x" using u by blast
  show "k = bytes_of ''qwen4exp.ple.layers'' \<Longrightarrow> gguf_type v = PLE_GGUF_ARRAY
       \<Longrightarrow> \<exists>xs. gguf_ints v = Some xs \<and> length xs \<le> PLE_MAX_LAYERS" using u array_ok_ints by blast
  show "k = bytes_of ''qwen4exp.ple.layer_multipliers'' \<Longrightarrow> gguf_type v = PLE_GGUF_ARRAY
       \<Longrightarrow> \<exists>xs. gguf_ints v = Some xs \<and> length xs \<le> PLE_MAX_NGRAM" using u array_ok_ints by blast
  show "k = bytes_of ''qwen4exp.ple.head_vocab_sizes'' \<Longrightarrow> gguf_type v = PLE_GGUF_ARRAY
       \<Longrightarrow> \<exists>xs. gguf_ints v = Some xs \<and> length xs \<le> PLE_MAX_HEADS" using u array_ok_ints by blast
  show "k = bytes_of ''qwen4exp.ple.head_offsets'' \<Longrightarrow> gguf_type v = PLE_GGUF_ARRAY
       \<Longrightarrow> \<exists>xs. gguf_ints v = Some xs \<and> length xs \<le> PLE_MAX_HEADS" using u array_ok_ints by blast
qed

text \<open>The three ways a recognised key is read.\<close>

definition key_read :: "gguf_value \<Rightarrow> ple_cursor \<Rightarrow> u32 \<Rightarrow> ple_scan
  \<Rightarrow> (ple_scan_error, bool \<times> ple_cursor \<times> u32 \<times> ple_scan) result \<Rightarrow> bool" where
  "key_read v c al s r \<longleftrightarrow> (\<exists>h. r = Inr (h, if h then pc_adv c (length (gguf_put v)) else c, al, s))"

lemma key_read_skip: "key_read v c al s (Inr (False, c, al, s))"
  "key_read v c al s (Inr (True, pc_adv c (length (gguf_put v)), al, s))"
  by (auto simp: key_read_def)

lemma ple_scan_key_put:
  assumes ok: "kv_ok (k, v)" and view: "pc_view c (gguf_put v @ r)"
  shows "key_read v c (note_align (k, v) al) (note_kv (k, v) s) (ple_scan_key path k (gguf_type v) c al s)"
proof -
  note wf = kv_okD(1) [OF ok]
  note T = gguf_type_u32 [OF wf] gguf_type_array [OF wf]
  note S = scan_u32_put [OF wf view] scan_array_put [OF wf view] scan_alignment_put [OF wf view]
    ple_int_elem_put [OF wf view]
  consider (align) "k = bytes_of ''general.alignment''"
    | (ngram) "k = bytes_of ''qwen4exp.ple.ngram_size''"
    | (heads) "k = bytes_of ''qwen4exp.ple.heads_per_ngram''"
    | (width) "k = bytes_of ''qwen4exp.embedding_length_per_layer_input''"
    | (conv) "k = bytes_of ''qwen4exp.ple.conv_kernel''"
    | (layers) "k = bytes_of ''qwen4exp.ple.layers''"
    | (eos) "k = bytes_of ''qwen4exp.ple.eos_token_id''"
    | (mult) "k = bytes_of ''qwen4exp.ple.layer_multipliers''"
    | (sizes) "k = bytes_of ''qwen4exp.ple.head_vocab_sizes''"
    | (offsets) "k = bytes_of ''qwen4exp.ple.head_offsets''"
    | (tokens) "k = bytes_of ''tokenizer.ggml.tokens''"
    | (other) "k \<noteq> bytes_of ''general.alignment''"
        "k \<noteq> bytes_of ''qwen4exp.ple.ngram_size''"
        "k \<noteq> bytes_of ''qwen4exp.ple.heads_per_ngram''"
        "k \<noteq> bytes_of ''qwen4exp.embedding_length_per_layer_input''"
        "k \<noteq> bytes_of ''qwen4exp.ple.conv_kernel''"
        "k \<noteq> bytes_of ''qwen4exp.ple.layers''"
        "k \<noteq> bytes_of ''qwen4exp.ple.eos_token_id''"
        "k \<noteq> bytes_of ''qwen4exp.ple.layer_multipliers''"
        "k \<noteq> bytes_of ''qwen4exp.ple.head_vocab_sizes''"
        "k \<noteq> bytes_of ''qwen4exp.ple.head_offsets''"
        "k \<noteq> bytes_of ''tokenizer.ggml.tokens''"
    by blast
  then show ?thesis
  proof cases
    case align
    show ?thesis
    proof (cases "gguf_u32 v")
      case (Some a)
      then show ?thesis using kv_okD(3) [OF ok align Some]
        by (simp add: align ple_scan_key_def note_defs T S key_read_skip)
    qed (simp add: align ple_scan_key_def note_defs T key_read_skip)
  next
    case ngram
    show ?thesis
    proof (cases "gguf_u32 v")
      case (Some a)
      then show ?thesis by (simp add: ngram ple_scan_key_def note_defs T S key_read_skip)
    qed (simp add: ngram ple_scan_key_def note_defs T key_read_skip)
  next
    case heads
    show ?thesis
    proof (cases "gguf_u32 v")
      case (Some a)
      then show ?thesis by (simp add: heads ple_scan_key_def note_defs T S key_read_skip)
    qed (simp add: heads ple_scan_key_def note_defs T key_read_skip)
  next
    case width
    show ?thesis
    proof (cases "gguf_u32 v")
      case (Some a)
      then show ?thesis by (simp add: width ple_scan_key_def note_defs T S key_read_skip)
    qed (simp add: width ple_scan_key_def note_defs T key_read_skip)
  next
    case conv
    show ?thesis
    proof (cases "gguf_u32 v")
      case (Some a)
      then show ?thesis by (simp add: conv ple_scan_key_def note_defs T S key_read_skip)
    qed (simp add: conv ple_scan_key_def note_defs T key_read_skip)
  next
    case layers
    show ?thesis
    proof (cases "gguf_type v = PLE_GGUF_ARRAY")
      case True
      then obtain xs where "gguf_ints v = Some xs" "length xs \<le> PLE_MAX_LAYERS" using kv_okD(5) [OF ok layers] by blast
      then show ?thesis using True by (simp add: layers ple_scan_key_def note_defs S key_read_skip)
    qed (simp add: layers ple_scan_key_def note_defs gguf_ints_not_array key_read_skip)
  next
    case eos
    obtain x where "gguf_int v = Some x" using kv_okD(4) [OF ok eos] by blast
    then show ?thesis by (simp add: eos ple_scan_key_def note_defs S key_read_skip)
  next
    case mult
    show ?thesis
    proof (cases "gguf_type v = PLE_GGUF_ARRAY")
      case True
      then obtain xs where "gguf_ints v = Some xs" "length xs \<le> PLE_MAX_NGRAM" using kv_okD(6) [OF ok mult] by blast
      then show ?thesis using True by (simp add: mult ple_scan_key_def note_defs S key_read_skip)
    qed (simp add: mult ple_scan_key_def note_defs gguf_ints_not_array key_read_skip)
  next
    case sizes
    show ?thesis
    proof (cases "gguf_type v = PLE_GGUF_ARRAY")
      case True
      then obtain xs where "gguf_ints v = Some xs" "length xs \<le> PLE_MAX_HEADS" using kv_okD(7) [OF ok sizes] by blast
      then show ?thesis using True by (simp add: sizes ple_scan_key_def note_defs S key_read_skip)
    qed (simp add: sizes ple_scan_key_def note_defs gguf_ints_not_array key_read_skip)
  next
    case offsets
    show ?thesis
    proof (cases "gguf_type v = PLE_GGUF_ARRAY")
      case True
      then obtain xs where "gguf_ints v = Some xs" "length xs \<le> PLE_MAX_HEADS" using kv_okD(8) [OF ok offsets] by blast
      then show ?thesis using True by (simp add: offsets ple_scan_key_def note_defs S key_read_skip)
    qed (simp add: offsets ple_scan_key_def note_defs gguf_ints_not_array key_read_skip)
  next
    case tokens
    show ?thesis
    proof (cases "gguf_count v")
      case (Some n)
      then obtain t where "ple_u32 c = (Some t, pc_adv c 4)" "ple_u64 (pc_adv c 4) = (Some n, pc_adv c 12)"
        using gguf_count_view [OF view] by blast
      then show ?thesis using Some by (simp add: tokens ple_scan_key_def note_defs T key_read_skip)
    qed (simp add: tokens ple_scan_key_def note_defs T key_read_skip)
  next
    case other
    then show ?thesis by (simp add: ple_scan_key_def note_defs key_read_skip)
  qed
qed


lemma ple_scan_kv_put:
  assumes ok: "kv_ok (k, v)" and view: "pc_view c (gguf_put_kv (k, v) @ r)"
  shows "ple_scan_kv path c al s =
    Inr (pc_adv c (length (gguf_put_kv (k, v))), note_align (k, v) al, note_kv (k, v) s)"
proof -
  let ?n = "8 + length k"
  have v0: "pc_view c (gguf_put_string k @ (le_put32 (gguf_type v) @ gguf_put v @ r))"
    using view by (simp add: gguf_put_kv_def)
  have v1: "pc_view (pc_adv c ?n) (le_put32 (gguf_type v) @ (gguf_put v @ r))"
    using pc_view_adv [OF v0, of ?n] by (simp add: gguf_put_string_def)
  have v2: "pc_view (pc_adv c (?n + 4)) (gguf_put v @ r)" using pc_view_adv [OF v1, of 4] by simp
  obtain h where h: "ple_scan_key path k (gguf_type v) (pc_adv c (?n + 4)) al s =
      Inr (h, if h then pc_adv (pc_adv c (?n + 4)) (length (gguf_put v)) else pc_adv c (?n + 4),
           note_align (k, v) al, note_kv (k, v) s)"
    using ple_scan_key_put [OF ok v2, of al s path] by (auto simp: key_read_def)
  have sk: "ple_skip_value (pc_adv c (?n + 4)) (gguf_type v) 0 =
      (True, pc_adv (pc_adv c (?n + 4)) (length (gguf_put v)))"
    by (rule ple_skip_value_put [OF kv_okD(1) [OF ok] _ v2]) simp
  have okc: "pc_ok c" using view by (simp add: pc_view_def)
  show ?thesis
    using ple_string_put [OF v0 kv_okD(2) [OF ok]] ple_u32_put [OF v1] h sk okc
    by (cases h) (simp_all add: ple_scan_kv_def gguf_put_kv_def gguf_put_string_def add.assoc)
qed

lemma ple_scan_kvs_put:
  "list_all kv_ok kvs \<Longrightarrow> pc_view c (concat (map gguf_put_kv kvs) @ r) \<Longrightarrow>
   ple_scan_kvs path (length kvs) c al s =
     Inr (pc_adv c (length (concat (map gguf_put_kv kvs))), fold note_align kvs al, fold note_kv kvs s)"
proof (induction kvs arbitrary: c al s)
  case (Cons kv kvs)
  obtain k v where kv: "kv = (k, v)" by (cases kv)
  have view: "pc_view c (gguf_put_kv (k, v) @ (concat (map gguf_put_kv kvs) @ r))"
    using Cons.prems(2) kv by simp
  have "ple_scan_kv path c al s =
      Inr (pc_adv c (length (gguf_put_kv (k, v))), note_align (k, v) al, note_kv (k, v) s)"
    using Cons.prems(1) kv by (intro ple_scan_kv_put [OF _ view]) simp
  then show ?case
    using Cons.IH [OF _ pc_view_adv [OF view refl]] Cons.prems(1) kv by simp
qed simp

record gguf_tensor =
  gt_name :: bytes
  gt_dims :: "u64 list"
  gt_type :: u32
  gt_offset :: u64

definition gguf_put_tensor :: "gguf_tensor \<Rightarrow> bytes" where
  "gguf_put_tensor t = gguf_put_string (gt_name t) @ le_put32 (of_nat (length (gt_dims t)))
     @ concat (map le_put64 (gt_dims t)) @ le_put32 (gt_type t) @ le_put64 (gt_offset t)"

definition tensor_ok :: "gguf_tensor \<Rightarrow> bool" where
  "tensor_ok t \<longleftrightarrow> length (gt_name t) < 2 ^ 64 \<and> length (gt_dims t) \<le> 4"

definition note_tensor :: "nat \<Rightarrow> gguf_tensor \<Rightarrow> ple_scan \<Rightarrow> ple_scan" where
  "note_tensor i t s =
     (if sc_tensor s = None \<and> gt_name t = bytes_of PLE_TABLE_TENSOR
      then s\<lparr> sc_tensor := Some \<lparr> pt_path = i, pt_offset = gt_offset t,
             pt_dim0 = ple_dim (gt_dims t) 0, pt_dim1 = ple_dim (gt_dims t) 1, pt_type = gt_type t \<rparr> \<rparr>
      else s)"

lemma ple_scan_dims_put:
  "pc_view c (concat (map le_put64 ds) @ r) \<Longrightarrow>
   ple_scan_dims (length ds) c = (Some ds, pc_adv c (8 * length ds)) \<and> pc_view (pc_adv c (8 * length ds)) r"
proof (induction ds arbitrary: c)
  case (Cons d ds)
  have v: "pc_view c (le_put64 d @ (concat (map le_put64 ds) @ r))" using Cons.prems by simp
  show ?case using ple_u64_put [OF v] Cons.IH [OF pc_view_adv [OF v]] by simp
qed simp

lemma ple_scan_tensor_put:
  assumes ok: "tensor_ok t" and view: "pc_view c (gguf_put_tensor t @ r)"
  shows "ple_scan_tensor path i c s = Inr (pc_adv c (length (gguf_put_tensor t)), note_tensor i t s)"
proof -
  let ?n = "8 + length (gt_name t)" and ?d = "8 * length (gt_dims t)"
  have v0: "pc_view c (gguf_put_string (gt_name t) @ (le_put32 (of_nat (length (gt_dims t)))
      @ concat (map le_put64 (gt_dims t)) @ le_put32 (gt_type t) @ le_put64 (gt_offset t) @ r))"
    using view by (simp add: gguf_put_tensor_def)
  have v1: "pc_view (pc_adv c ?n) (le_put32 (of_nat (length (gt_dims t)))
      @ (concat (map le_put64 (gt_dims t)) @ le_put32 (gt_type t) @ le_put64 (gt_offset t) @ r))"
    using pc_view_adv [OF v0, of ?n] by (simp add: gguf_put_string_def)
  have v2: "pc_view (pc_adv c (?n + 4)) (concat (map le_put64 (gt_dims t))
      @ (le_put32 (gt_type t) @ le_put64 (gt_offset t) @ r))"
    using pc_view_adv [OF v1, of 4] by simp
  note d = ple_scan_dims_put [OF v2]
  then have v3: "pc_view (pc_adv c (?n + 4 + ?d)) (le_put32 (gt_type t) @ (le_put64 (gt_offset t) @ r))" by simp
  have v4: "pc_view (pc_adv c (?n + 4 + ?d + 4)) (le_put64 (gt_offset t) @ r)"
    using pc_view_adv [OF v3, of 4] by simp
  have nl: "length (gt_dims t) \<le> 4" and nm: "length (gt_name t) < 2 ^ 64" using ok by (simp_all add: tensor_ok_def)
  have u: "unat (of_nat (length (gt_dims t)) :: u32) = length (gt_dims t)"
    using nl by (intro unat_of_nat_u32) simp
  have g: "\<not> (of_nat (length (gt_dims t)) :: u32) > 4" using u nl by (simp add: word_less_nat_alt)
  have len: "length (concat (map le_put64 (gt_dims t))) = ?d" by (induction "gt_dims t" rule: list.induct) (auto simp: length_concat sum_list_triv comp_def)
  show ?thesis
    using ple_string_put [OF v0 nm] ple_u32_put [OF v1] d ple_u32_put [OF v3] ple_u64_put [OF v4] u g len
    by (simp add: ple_scan_tensor_def note_tensor_def gguf_put_tensor_def gguf_put_string_def algebra_simps)
qed

lemma ple_scan_tensors_put:
  "list_all tensor_ok ts \<Longrightarrow> pc_view c (concat (map gguf_put_tensor ts) @ r) \<Longrightarrow>
   ple_scan_tensors path i (length ts) c s =
     Inr (pc_adv c (length (concat (map gguf_put_tensor ts))), fold (note_tensor i) ts s)"
proof (induction ts arbitrary: c s)
  case (Cons t ts)
  have view: "pc_view c (gguf_put_tensor t @ (concat (map gguf_put_tensor ts) @ r))" using Cons.prems(2) by simp
  show ?case using ple_scan_tensor_put [OF _ view, of path i s] Cons.IH [OF _ pc_view_adv [OF view refl]] Cons.prems(1)
    by simp
qed simp


subsection \<open>Whole shards\<close>

record gguf_shard =
  gs_version :: u32
  gs_kvs :: "(bytes \<times> gguf_value) list"
  gs_tensors :: "gguf_tensor list"
  gs_data :: bytes

definition gguf_put_header :: "gguf_shard \<Rightarrow> bytes" where
  "gguf_put_header sh = le_put32 PLE_GGUF_MAGIC @ le_put32 (gs_version sh)
     @ le_put64 (of_nat (length (gs_tensors sh))) @ le_put64 (of_nat (length (gs_kvs sh)))
     @ concat (map gguf_put_kv (gs_kvs sh)) @ concat (map gguf_put_tensor (gs_tensors sh))"

definition gguf_put_shard :: "gguf_shard \<Rightarrow> bytes" where
  "gguf_put_shard sh = gguf_put_header sh @ gs_data sh"

definition shard_ok :: "gguf_shard \<Rightarrow> bool" where
  "shard_ok sh \<longleftrightarrow> (gs_version sh = 2 \<or> gs_version sh = 3) \<and> length (gs_kvs sh) < 2 ^ 64
     \<and> length (gs_tensors sh) < 2 ^ 64 \<and> list_all kv_ok (gs_kvs sh) \<and> list_all tensor_ok (gs_tensors sh)"

definition shard_align :: "gguf_shard \<Rightarrow> nat" where
  "shard_align sh = unat (fold note_align (gs_kvs sh) 32)"

lemma ple_scan_header_put:
  assumes "shard_ok sh"
  shows "ple_scan_header path (gguf_put_shard sh) =
     Inr (of_nat (length (gs_tensors sh)), of_nat (length (gs_kvs sh)), pc_adv (ple_cursor_at (gguf_put_shard sh)) 24)
   \<and> pc_view (pc_adv (ple_cursor_at (gguf_put_shard sh)) 24)
       (concat (map gguf_put_kv (gs_kvs sh)) @ concat (map gguf_put_tensor (gs_tensors sh)) @ gs_data sh)"
proof -
  let ?c = "ple_cursor_at (gguf_put_shard sh)" and ?nt = "of_nat (length (gs_tensors sh)) :: u64"
    and ?nk = "of_nat (length (gs_kvs sh)) :: u64"
    and ?r = "concat (map gguf_put_kv (gs_kvs sh)) @ concat (map gguf_put_tensor (gs_tensors sh)) @ gs_data sh"
  have v0: "pc_view ?c (le_put32 PLE_GGUF_MAGIC @ (le_put32 (gs_version sh) @ le_put64 ?nt @ le_put64 ?nk @ ?r))"
    using pc_view_start [of "gguf_put_shard sh"] by (simp add: gguf_put_shard_def gguf_put_header_def)
  have v1: "pc_view (pc_adv ?c 4) (le_put32 (gs_version sh) @ (le_put64 ?nt @ le_put64 ?nk @ ?r))"
    using pc_view_adv [OF v0, of 4] by simp
  have v2: "pc_view (pc_adv ?c 8) (le_put64 ?nt @ (le_put64 ?nk @ ?r))" using pc_view_adv [OF v1, of 4] by simp
  have v3: "pc_view (pc_adv ?c 16) (le_put64 ?nk @ ?r)" using pc_view_adv [OF v2, of 8] by simp
  have v4: "pc_view (pc_adv ?c 24) ?r" using pc_view_adv [OF v3, of 8] by simp
  have ver: "\<not> (gs_version sh < 2 \<or> gs_version sh > 3)" using assms by (auto simp: shard_ok_def)
  show ?thesis
    using ple_u32_put [OF v0] ple_u32_put [OF v1] ple_u64_put [OF v2] ple_u64_put [OF v3] ver v4
    by (simp add: ple_scan_header_def)
qed

lemma ple_scan_file_put:
  assumes ok: "shard_ok sh"
  shows "ple_scan_file (gguf_put_shard sh) i path s =
    Inr (ple_make_absolute i (length (gguf_put_header sh)) (shard_align sh)
           (fold (note_tensor i) (gs_tensors sh) (fold note_kv (gs_kvs sh) s)))"
proof -
  let ?c = "pc_adv (ple_cursor_at (gguf_put_shard sh)) 24" and ?kb = "concat (map gguf_put_kv (gs_kvs sh))"
  note h = ple_scan_header_put [OF ok, of path]
  have n: "unat (of_nat (length (gs_kvs sh)) :: u64) = length (gs_kvs sh)"
    "unat (of_nat (length (gs_tensors sh)) :: u64) = length (gs_tensors sh)"
    using ok by (auto simp: shard_ok_def intro: unat_of_nat_u64)
  have v: "pc_view ?c (?kb @ (concat (map gguf_put_tensor (gs_tensors sh)) @ gs_data sh))" using h by simp
  have k: "ple_scan_kvs path (length (gs_kvs sh)) ?c 32 s =
      Inr (pc_adv ?c (length ?kb), fold note_align (gs_kvs sh) 32, fold note_kv (gs_kvs sh) s)"
    using ok by (intro ple_scan_kvs_put [OF _ v]) (simp add: shard_ok_def)
  have t: "ple_scan_tensors path i (length (gs_tensors sh)) (pc_adv ?c (length ?kb)) s' =
      Inr (pc_adv (pc_adv ?c (length ?kb)) (length (concat (map gguf_put_tensor (gs_tensors sh)))),
           fold (note_tensor i) (gs_tensors sh) s')" for s'
    using ok by (intro ple_scan_tensors_put [OF _ pc_view_adv [OF v refl]]) (simp add: shard_ok_def)
  show ?thesis unfolding ple_scan_file_def using h k t n
    by (simp add: gguf_put_header_def shard_align_def ple_cursor_at_def algebra_simps)
qed

lemma fold_note_kv:
  "sc_ngram_size (fold note_kv kvs s) = last_at ''qwen4exp.ple.ngram_size'' gguf_u32 kvs (sc_ngram_size s)"
  "sc_heads_per_ngram (fold note_kv kvs s) = last_at ''qwen4exp.ple.heads_per_ngram'' gguf_u32 kvs (sc_heads_per_ngram s)"
  "sc_row_dim (fold note_kv kvs s) = last_at ''qwen4exp.embedding_length_per_layer_input'' gguf_u32 kvs (sc_row_dim s)"
  "sc_eos (fold note_kv kvs s) = last_at ''qwen4exp.ple.eos_token_id'' gguf_int kvs (sc_eos s)"
  "sc_conv_kernel (fold note_kv kvs s) = last_at ''qwen4exp.ple.conv_kernel'' gguf_u32 kvs (sc_conv_kernel s)"
  "sc_layers (fold note_kv kvs s) = last_at ''qwen4exp.ple.layers'' gguf_ints kvs (sc_layers s)"
  "sc_vocab (fold note_kv kvs s) = last_at ''tokenizer.ggml.tokens'' gguf_count kvs (sc_vocab s)"
  "sc_multipliers (fold note_kv kvs s) = last_at ''qwen4exp.ple.layer_multipliers'' gguf_ints kvs (sc_multipliers s)"
  "sc_sizes (fold note_kv kvs s) = last_at ''qwen4exp.ple.head_vocab_sizes'' gguf_ints kvs (sc_sizes s)"
  "sc_offsets (fold note_kv kvs s) = last_at ''qwen4exp.ple.head_offsets'' gguf_ints kvs (sc_offsets s)"
  "sc_tensor (fold note_kv kvs s) = sc_tensor s"
  by (induction kvs arbitrary: s) (simp_all add: last_at_def note_kv_def)

text \<open>The tensor the fold keeps; every other field is left alone.\<close>

definition table_tensor :: "nat \<Rightarrow> gguf_tensor list \<Rightarrow> ple_tensor option" where
  "table_tensor i ts = map_option (\<lambda>t. \<lparr> pt_path = i, pt_offset = gt_offset t, pt_dim0 = ple_dim (gt_dims t) 0,
     pt_dim1 = ple_dim (gt_dims t) 1, pt_type = gt_type t \<rparr>) (find (\<lambda>t. gt_name t = bytes_of PLE_TABLE_TENSOR) ts)"

lemma fold_note_tensor_Some: "sc_tensor s = Some t \<Longrightarrow> fold (note_tensor i) ts s = s"
  by (induction ts) (simp_all add: note_tensor_def)

lemma fold_note_tensor:
  "fold (note_tensor i) ts s = s\<lparr> sc_tensor := (case sc_tensor s of None \<Rightarrow> table_tensor i ts | Some t \<Rightarrow> Some t) \<rparr>"
proof (induction ts arbitrary: s)
  case (Cons t ts)
  show ?case
  proof (cases "sc_tensor s")
    case None
    have step: "note_tensor i t s = (if gt_name t = bytes_of PLE_TABLE_TENSOR
        then s\<lparr> sc_tensor := table_tensor i (t # ts) \<rparr> else s)"
      using None by (simp add: note_tensor_def table_tensor_def)
    obtain u where u: "gt_name t = bytes_of PLE_TABLE_TENSOR \<Longrightarrow> table_tensor i (t # ts) = Some u"
      by (cases "table_tensor i (t # ts)") (auto simp: table_tensor_def)
    show ?thesis
    proof (cases "gt_name t = bytes_of PLE_TABLE_TENSOR")
      case True
      then show ?thesis using step u None by (simp add: fold_note_tensor_Some)
    next
      case False
      then show ?thesis using step Cons.IH [of s] None by (simp add: table_tensor_def)
    qed
  next
    case (Some u)
    then have "s\<lparr> sc_tensor := Some u \<rparr> = s" by (cases s) simp
    then show ?thesis using fold_note_tensor_Some [OF Some, of i "t # ts"] Some by simp
  qed
qed (auto simp: table_tensor_def split: option.splits)


lemma make_absolute_fields:
  "sc_ngram_size (ple_make_absolute i p a s) = sc_ngram_size s"
  "sc_heads_per_ngram (ple_make_absolute i p a s) = sc_heads_per_ngram s"
  "sc_row_dim (ple_make_absolute i p a s) = sc_row_dim s"
  "sc_eos (ple_make_absolute i p a s) = sc_eos s"
  "sc_conv_kernel (ple_make_absolute i p a s) = sc_conv_kernel s"
  "sc_layers (ple_make_absolute i p a s) = sc_layers s"
  "sc_vocab (ple_make_absolute i p a s) = sc_vocab s"
  "sc_multipliers (ple_make_absolute i p a s) = sc_multipliers s"
  "sc_sizes (ple_make_absolute i p a s) = sc_sizes s"
  "sc_offsets (ple_make_absolute i p a s) = sc_offsets s"
  by (simp_all add: ple_make_absolute_def split: option.splits)

subsection \<open>Properties\<close>

text \<open>
  On any bytes, an accepted shard's header announces no more entries than the file
  has room for (twelve bytes a key, twenty-four a tensor): a hostile count never makes the walk
  leave the mapping or run longer than the file.\<close>

lemma ple_scan_file_bounded:
  assumes "ple_scan_file m i path s = Inr s'"
  shows "\<exists>nt nkv c. ple_scan_header path m = Inr (nt, nkv, c)
           \<and> 24 + 12 * unat nkv + 24 * unat nt \<le> length m"
  using assms by (rule ple_scan_file_room)

text \<open>
  Property C29. The scan of the bytes of a well-formed shard succeeds and returns, for every key,
  its last value (or the one an earlier shard gave), and the first descriptor of the table, its
  offset moved past the header rounded up to the shard's alignment; a descriptor found in an
  earlier shard is kept.\<close>

theorem ple_scan_file_roundtrip:
  assumes "shard_ok sh" and "\<And>t. sc_tensor s = Some t \<Longrightarrow> pt_path t \<noteq> i"
  shows "\<exists>s'. ple_scan_file (gguf_put_shard sh) i path s = Inr s'
    \<and> sc_ngram_size s' = last_at ''qwen4exp.ple.ngram_size'' gguf_u32 (gs_kvs sh) (sc_ngram_size s)
    \<and> sc_heads_per_ngram s' = last_at ''qwen4exp.ple.heads_per_ngram'' gguf_u32 (gs_kvs sh) (sc_heads_per_ngram s)
    \<and> sc_row_dim s' = last_at ''qwen4exp.embedding_length_per_layer_input'' gguf_u32 (gs_kvs sh) (sc_row_dim s)
    \<and> sc_eos s' = last_at ''qwen4exp.ple.eos_token_id'' gguf_int (gs_kvs sh) (sc_eos s)
    \<and> sc_conv_kernel s' = last_at ''qwen4exp.ple.conv_kernel'' gguf_u32 (gs_kvs sh) (sc_conv_kernel s)
    \<and> sc_layers s' = last_at ''qwen4exp.ple.layers'' gguf_ints (gs_kvs sh) (sc_layers s)
    \<and> sc_vocab s' = last_at ''tokenizer.ggml.tokens'' gguf_count (gs_kvs sh) (sc_vocab s)
    \<and> sc_multipliers s' = last_at ''qwen4exp.ple.layer_multipliers'' gguf_ints (gs_kvs sh) (sc_multipliers s)
    \<and> sc_sizes s' = last_at ''qwen4exp.ple.head_vocab_sizes'' gguf_ints (gs_kvs sh) (sc_sizes s)
    \<and> sc_offsets s' = last_at ''qwen4exp.ple.head_offsets'' gguf_ints (gs_kvs sh) (sc_offsets s)
    \<and> sc_tensor s' = (case sc_tensor s of
          Some t \<Rightarrow> Some t
        | None \<Rightarrow> map_option (\<lambda>t. t\<lparr> pt_offset := pt_offset t + of_nat
              ((length (gguf_put_header sh) + shard_align sh - 1) div shard_align sh * shard_align sh) \<rparr>)
            (table_tensor i (gs_tensors sh)))"
proof -
  let ?s1 = "fold (note_tensor i) (gs_tensors sh) (fold note_kv (gs_kvs sh) s)"
  let ?s' = "ple_make_absolute i (length (gguf_put_header sh)) (shard_align sh) ?s1"
  have fields: "sc_tensor ?s1 = (case sc_tensor s of None \<Rightarrow> table_tensor i (gs_tensors sh) | Some t \<Rightarrow> Some t)"
    by (simp add: fold_note_tensor fold_note_kv)
  have path: "pt_path t = i" if "table_tensor i (gs_tensors sh) = Some t" for t
    using that by (auto simp: table_tensor_def)
  have tensor: "sc_tensor ?s' = (case sc_tensor s of
          Some t \<Rightarrow> Some t
        | None \<Rightarrow> map_option (\<lambda>t. t\<lparr> pt_offset := pt_offset t + of_nat
              ((length (gguf_put_header sh) + shard_align sh - 1) div shard_align sh * shard_align sh) \<rparr>)
            (table_tensor i (gs_tensors sh)))"
    using fields assms(2) path
    by (cases "sc_tensor s"; cases "table_tensor i (gs_tensors sh)") (simp_all add: ple_make_absolute_def)
  show ?thesis unfolding ple_scan_file_put [OF assms(1)]
    by (rule exI [of _ ?s'], intro conjI) (simp_all only: tensor make_absolute_fields, simp_all add: fold_note_tensor fold_note_kv)
qed

definition demo_shard :: gguf_shard where
  "demo_shard = \<lparr> gs_version = 3,
     gs_kvs = [(bytes_of ''qwen4exp.ple.ngram_size'', Gguf_Scalar PLE_GGUF_UINT32 [3, 0, 0, 0]),
               (bytes_of ''tokenizer.ggml.tokens'', Gguf_Array PLE_GGUF_STRING [Gguf_String [65], Gguf_String []])],
     gs_tensors = [\<lparr> gt_name = bytes_of PLE_TABLE_TENSOR, gt_dims = [32, 7], gt_type = 20, gt_offset = 64 \<rparr>],
     gs_data = replicate 4 0 \<rparr>"

lemma demo_shard_ok: "shard_ok demo_shard"
  unfolding shard_ok_def demo_shard_def
  by (simp add: kv_ok_def array_ok_def at_key_def tensor_ok_def bytes_of_def PLE_TABLE_TENSOR_def)

theorem ple_scan_file_roundtrip_witness:
  "\<exists>s'. ple_scan_file (gguf_put_shard demo_shard) 0 ''a'' ple_scan_empty = Inr s'
     \<and> sc_ngram_size s' = Some 3 \<and> sc_vocab s' = Some 2 \<and> sc_eos s' = None"
proof -
  have "last_at ''qwen4exp.ple.ngram_size'' gguf_u32 (gs_kvs demo_shard) None = Some 3"
    "last_at ''tokenizer.ggml.tokens'' gguf_count (gs_kvs demo_shard) None = Some 2"
    "last_at ''qwen4exp.ple.eos_token_id'' gguf_int (gs_kvs demo_shard) None = None"
    by (simp_all add: last_at_def demo_shard_def at_key_def pick_def le_get32_def)
  moreover note ple_scan_file_roundtrip [OF demo_shard_ok, of ple_scan_empty 0 "''a''"]
  ultimately show ?thesis by (auto simp: ple_scan_empty_def)
qed

end
