(* ===== verification/Ple_Constants.thy ===== *)
theory Ple_Constants
  imports Ple_Round
begin

text \<open>
  The constants of the n-gram hash: the shard set scanned in order with its mappings
  (\<open>ple_map_open\<close>, \<open>ple_map_close\<close>, \<open>ple_scan_paths\<close>) and the validation of what was found
  (\<open>ple_require\<close>, \<open>ple_finish_constants\<close>, \<open>ds4_ple_constants_read\<close>). The file system is a
  parameter: what \<open>open\<close>, \<open>fstat\<close> and \<open>mmap\<close> answer for a path (the mapped bytes stand for
  the \<open>st_size\<close> bytes of the file). Every call that takes or gives
  back a descriptor or a mapping is an event, so that leaks are visible.
\<close>

subsection \<open>Mappings\<close>

record ple_os =
  os_open :: "string \<Rightarrow> bool"
  os_stat :: "string \<Rightarrow> int option"
  os_mmap :: "string \<Rightarrow> bytes option"

text \<open>A live mapping; the descriptor is named by the index of its path.\<close>

record ple_mapping =
  pm_fd :: nat
  pm_map :: bytes

datatype ple_event = Ev_Open nat | Ev_Close nat | Ev_Map nat | Ev_Unmap nat

definition ple_map_open ::
  "ple_os \<Rightarrow> nat \<Rightarrow> string \<Rightarrow> (ple_scan_error, ple_mapping) result \<times> ple_event list" where
  "ple_map_open os i path =
     (if \<not> os_open os path then (Inl (Ple_Cannot_Open path), [])
      else if (case os_stat os path of None \<Rightarrow> True | Some n \<Rightarrow> n \<le> 0)
      then (Inl (Ple_Cannot_Size path), [Ev_Open i, Ev_Close i])
      else (case os_mmap os path of
              None \<Rightarrow> (Inl (Ple_Cannot_Map path), [Ev_Open i, Ev_Close i])
            | Some m \<Rightarrow> (Inr \<lparr> pm_fd = i, pm_map = m \<rparr>, [Ev_Open i, Ev_Map i])))"

text \<open>\<open>None\<close> is the closed mapping \<open>{-1, NULL, 0}\<close>.\<close>

definition ple_map_close :: "ple_mapping option \<Rightarrow> ple_event list" where
  "ple_map_close m = (case m of None \<Rightarrow> [] | Some k \<Rightarrow> [Ev_Unmap (pm_fd k), Ev_Close (pm_fd k)])"

subsection \<open>The shard set\<close>

fun ple_scan_loop ::
  "ple_os \<Rightarrow> bool \<Rightarrow> nat \<Rightarrow> string list \<Rightarrow> ple_scan \<Rightarrow> ple_mapping option
   \<Rightarrow> (ple_scan_error, ple_scan \<times> ple_mapping option) result \<times> ple_event list" where
  "ple_scan_loop os want i [] scan keep = (Inr (scan, keep), [])"
| "ple_scan_loop os want i (path # paths) scan keep =
     (case ple_map_open os i path of
        (Inl e, ev) \<Rightarrow> (Inl e, ev @ ple_map_close keep)
      | (Inr m, ev) \<Rightarrow>
          (case ple_scan_file (pm_map m) i path scan of
             Inl e \<Rightarrow> (Inl e, ev @ ple_map_close (Some m) @ ple_map_close keep)
           | Inr scan' \<Rightarrow>
               if want \<and> sc_tensor scan = None \<and> sc_tensor scan' \<noteq> None then
                 (case ple_scan_loop os want (Suc i) paths scan' (Some m) of
                    (r, ev') \<Rightarrow> (r, ev @ ple_map_close keep @ ev'))
               else
                 (case ple_scan_loop os want (Suc i) paths scan' keep of
                    (r, ev') \<Rightarrow> (r, ev @ ple_map_close (Some m) @ ev'))))"

definition ple_scan_paths ::
  "ple_os \<Rightarrow> bool \<Rightarrow> string list \<Rightarrow> (ple_scan_error, ple_scan \<times> ple_mapping option) result \<times> ple_event list" where
  "ple_scan_paths os want paths =
     (if paths = [] then (Inl Ple_No_Shard, [])
      else ple_scan_loop os want 0 paths ple_scan_empty None)"

subsection \<open>The constants\<close>

text \<open>One constructor per refusal of \<open>ple_require\<close> and \<open>ple_finish_constants\<close>.\<close>

datatype ple_const_error =
    Ple_Missing_Key string | Ple_Ngram_Size u32 | Ple_Zero_Heads | Ple_Too_Many_Heads nat
  | Ple_Multiplier_Count nat u32 | Ple_Head_Count nat nat nat | Ple_Row_Width u32 | Ple_Zero_Conv
  | Ple_No_Layers | Ple_Bad_Vocab u64 | Ple_Bad_Eos u64 u64 | Ple_Zero_Multiplier nat
  | Ple_Multiplier_Overflow nat u64 u64 | Ple_Zero_Head nat | Ple_Head_Offset nat u64 u64
  | Ple_Head_Overflow | Ple_Bad_Layer u64

record ple_constants =
  c_ngram_size :: u32
  c_heads_per_ngram :: u32
  c_head_count :: u32
  c_row_dim :: u32
  c_vocab_size :: u32
  c_eos_token_id :: int
  c_conv_kernel :: u32
  c_ple_layer_count :: u32
  c_ple_layers :: "u32 list"
  c_multipliers :: "u64 list"
  c_head_vocab_sizes :: "u64 list"
  c_head_offsets :: "u64 list"
  c_row_total :: u64
  c_table_rows :: u64

text \<open>The keys in the order the refusal reports them, each with its flag.\<close>

definition ple_required :: "ple_scan \<Rightarrow> (bool \<times> string) list" where
  "ple_required s =
     [(sc_ngram_size s \<noteq> None, ''qwen4exp.ple.ngram_size''),
      (sc_heads_per_ngram s \<noteq> None, ''qwen4exp.ple.heads_per_ngram''),
      (sc_row_dim s \<noteq> None, ''qwen4exp.embedding_length_per_layer_input''),
      (sc_eos s \<noteq> None, ''qwen4exp.ple.eos_token_id''),
      (sc_conv_kernel s \<noteq> None, ''qwen4exp.ple.conv_kernel''),
      (sc_layers s \<noteq> None, ''qwen4exp.ple.layers''),
      (sc_vocab s \<noteq> None, ''tokenizer.ggml.tokens''),
      (sc_multipliers s \<noteq> None, ''qwen4exp.ple.layer_multipliers''),
      (sc_sizes s \<noteq> None, ''qwen4exp.ple.head_vocab_sizes''),
      (sc_offsets s \<noteq> None, ''qwen4exp.ple.head_offsets'')]"

definition ple_require :: "ple_scan \<Rightarrow> ple_const_error option" where
  "ple_require s = map_option (\<lambda>(_, key). Ple_Missing_Key key) (find (\<lambda>(flag, _). \<not> flag) (ple_required s))"

text \<open>An array of the struct: \<open>n\<close> entries, zero past the ones written.\<close>

definition c_array :: "nat \<Rightarrow> 'a::zero list \<Rightarrow> 'a list" where
  "c_array n xs = take n (xs @ replicate n 0)"

fun ple_check_multipliers :: "u64 \<Rightarrow> nat \<Rightarrow> u64 list \<Rightarrow> ple_const_error option" where
  "ple_check_multipliers max_token i [] = None"
| "ple_check_multipliers max_token i (m # ms) =
     (if m = 0 then Some (Ple_Zero_Multiplier i)
      else if max_token \<noteq> 0 \<and> m > 0x7FFFFFFFFFFFFFFF div max_token
      then Some (Ple_Multiplier_Overflow i m max_token)
      else ple_check_multipliers max_token (Suc i) ms)"

fun ple_check_heads :: "nat \<Rightarrow> u64 \<Rightarrow> u64 list \<Rightarrow> u64 list \<Rightarrow> (ple_const_error, u64) result" where
  "ple_check_heads h running (n # sizes) (off # offs) =
     (if n = 0 then Inl (Ple_Zero_Head h)
      else if off \<noteq> running then Inl (Ple_Head_Offset h off running)
      else if n > - 1 - running then Inl Ple_Head_Overflow
      else ple_check_heads (Suc h) (running + n) sizes offs)"
| "ple_check_heads h running _ _ = Inr running"

text \<open>The scalar refusals, in the order of the code; \<open>heads\<close> is a 64-bit product of two small factors.\<close>

definition ple_heads :: "ple_scan \<Rightarrow> nat" where
  "ple_heads s = (unat (the (sc_ngram_size s)) - 1) * unat (the (sc_heads_per_ngram s))"

definition ple_check_scalars :: "ple_scan \<Rightarrow> ple_const_error option" where
  "ple_check_scalars s =
     (let ngram = the (sc_ngram_size s); heads = ple_heads s;
          n_mult = length (the (sc_multipliers s)); n_sizes = length (the (sc_sizes s));
          n_offs = length (the (sc_offsets s)); row_dim = the (sc_row_dim s);
          vocab = the (sc_vocab s); eos = the (sc_eos s) in
      if ngram < 2 \<or> unat ngram > PLE_MAX_NGRAM then Some (Ple_Ngram_Size ngram)
      else if the (sc_heads_per_ngram s) = 0 then Some Ple_Zero_Heads
      else if heads > PLE_MAX_HEADS then Some (Ple_Too_Many_Heads heads)
      else if n_mult \<noteq> unat ngram then Some (Ple_Multiplier_Count n_mult ngram)
      else if n_sizes \<noteq> heads \<or> n_offs \<noteq> heads then Some (Ple_Head_Count n_sizes n_offs heads)
      else if row_dim = 0 \<or> row_dim mod 32 \<noteq> 0 then Some (Ple_Row_Width row_dim)
      else if the (sc_conv_kernel s) = 0 then Some Ple_Zero_Conv
      else if the (sc_layers s) = [] then Some Ple_No_Layers
      else if vocab = 0 \<or> vocab > 0x7FFFFFFF then Some (Ple_Bad_Vocab vocab)
      else if eos \<ge> vocab then Some (Ple_Bad_Eos eos vocab)
      else None)"

definition ple_fill_constants :: "ple_scan \<Rightarrow> u64 \<Rightarrow> ple_constants" where
  "ple_fill_constants s running =
     \<lparr> c_ngram_size = the (sc_ngram_size s), c_heads_per_ngram = the (sc_heads_per_ngram s),
       c_head_count = of_nat (ple_heads s), c_row_dim = the (sc_row_dim s),
       c_vocab_size = ucast (the (sc_vocab s)), c_eos_token_id = cast_i32 (uint (the (sc_eos s))),
       c_conv_kernel = the (sc_conv_kernel s), c_ple_layer_count = of_nat (length (the (sc_layers s))),
       c_ple_layers = c_array PLE_MAX_LAYERS (map ucast (the (sc_layers s))),
       c_multipliers = c_array PLE_MAX_NGRAM (the (sc_multipliers s)),
       c_head_vocab_sizes = c_array PLE_MAX_HEADS (the (sc_sizes s)),
       c_head_offsets = c_array PLE_MAX_HEADS (the (sc_offsets s)),
       c_row_total = running, c_table_rows = running \<rparr>"

definition ple_finish_constants :: "ple_scan \<Rightarrow> (ple_const_error, ple_constants) result" where
  "ple_finish_constants s =
     (case ple_require s of Some e \<Rightarrow> Inl e | None \<Rightarrow>
      case ple_check_scalars s of Some e \<Rightarrow> Inl e | None \<Rightarrow>
      case ple_check_multipliers (the (sc_vocab s) - 1) 0 (the (sc_multipliers s)) of Some e \<Rightarrow> Inl e | None \<Rightarrow>
      case ple_check_heads 0 0 (the (sc_sizes s)) (the (sc_offsets s)) of Inl e \<Rightarrow> Inl e | Inr running \<Rightarrow>
      case find (\<lambda>l. l > 0xFFFFFFFF) (the (sc_layers s)) of
        Some l \<Rightarrow> Inl (Ple_Bad_Layer l)
      | None \<Rightarrow> Inr (ple_fill_constants s running))"

datatype ple_error = Scan_Refused ple_scan_error | Constants_Refused ple_const_error

definition ple_constants_read ::
  "ple_os \<Rightarrow> string list \<Rightarrow> (ple_error, ple_constants) result \<times> ple_event list" where
  "ple_constants_read os paths =
     (case ple_scan_paths os False paths of
        (Inl e, ev) \<Rightarrow> (Inl (Scan_Refused e), ev)
      | (Inr (scan, _), ev) \<Rightarrow> (map_sum Constants_Refused id (ple_finish_constants scan), ev))"


subsection \<open>What accepted constants satisfy\<close>

definition ple_constants_wf :: "ple_constants \<Rightarrow> bool" where
  "ple_constants_wf c \<longleftrightarrow>
     2 \<le> unat (c_ngram_size c) \<and> unat (c_ngram_size c) \<le> PLE_MAX_NGRAM \<and> 0 < unat (c_heads_per_ngram c)
   \<and> unat (c_head_count c) = (unat (c_ngram_size c) - 1) * unat (c_heads_per_ngram c)
   \<and> unat (c_head_count c) \<le> PLE_MAX_HEADS
   \<and> length (c_multipliers c) = PLE_MAX_NGRAM \<and> length (c_head_vocab_sizes c) = PLE_MAX_HEADS
   \<and> length (c_head_offsets c) = PLE_MAX_HEADS
   \<and> 0 < unat (c_vocab_size c) \<and> int (unat (c_vocab_size c)) \<le> INT32_MAX
   \<and> 0 \<le> c_eos_token_id c \<and> c_eos_token_id c < int (unat (c_vocab_size c))
   \<and> (\<forall>i < unat (c_ngram_size c). 0 < unat (c_multipliers c ! i)
        \<and> (unat (c_vocab_size c) - 1) * unat (c_multipliers c ! i) < 2 ^ 63)
   \<and> (\<forall>h < unat (c_head_count c). 0 < unat (c_head_vocab_sizes c ! h)
        \<and> unat (c_head_offsets c ! h) = sum_list (map unat (take h (c_head_vocab_sizes c))))
   \<and> unat (c_row_total c) = sum_list (map unat (take (unat (c_head_count c)) (c_head_vocab_sizes c)))
   \<and> 0 < unat (c_row_dim c) \<and> 32 dvd unat (c_row_dim c)"

lemma c_array_length [simp]: "length (c_array n xs) = n"
  by (simp add: c_array_def)

lemma c_array_nth: "i < length xs \<Longrightarrow> length xs \<le> n \<Longrightarrow> c_array n xs ! i = xs ! i"
  by (simp add: c_array_def nth_append)

lemma c_array_take: "k \<le> length xs \<Longrightarrow> length xs \<le> n \<Longrightarrow> take k (c_array n xs) = take k xs"
  by (simp add: c_array_def min_def)

lemma check_multipliers_None:
  "ple_check_multipliers mt i ms = None \<Longrightarrow> k < length ms \<Longrightarrow>
   0 < unat (ms ! k) \<and> unat mt * unat (ms ! k) < 2 ^ 63"
proof (induction ms arbitrary: i k)
  case (Cons m ms)
  have m: "m \<noteq> 0" "mt = 0 \<or> \<not> m > 0x7FFFFFFFFFFFFFFF div mt" and r: "ple_check_multipliers mt (Suc i) ms = None"
    using Cons.prems(1) by (auto split: if_splits)
  show ?case
  proof (cases k)
    case 0
    have "unat mt * unat m < 2 ^ 63"
    proof (cases "mt = 0")
      case False
      then have "unat m \<le> 0x7FFFFFFFFFFFFFFF div unat mt"
        using m(2) by (simp add: word_less_nat_alt unat_div_distrib not_less)
      moreover have "0 < unat mt" using False by (simp add: unat_gt_0)
      ultimately have "unat m * unat mt \<le> 0x7FFFFFFFFFFFFFFF" by (simp add: less_eq_div_iff_mult_less_eq)
      then show ?thesis by (simp add: mult.commute)
    qed simp
    then show ?thesis using 0 m(1) by (simp add: unat_gt_0)
  next
    case (Suc k')
    then show ?thesis using Cons.IH [OF r, of k'] Cons.prems(2) by simp
  qed
qed simp

lemma unat_room: "unat (- 1 - r :: u64) = 18446744073709551615 - unat r"
proof -
  have "unat (- 1 - r) = unat (- 1 :: u64) - unat r" by (rule unat_sub) (rule word_order.extremum)
  then show ?thesis by (simp add: unsigned_minus_1_eq_mask mask_eq_exp_minus_1)
qed

lemma check_heads_Inr:
  "ple_check_heads h running sizes offs = Inr r \<Longrightarrow> length offs = length sizes \<Longrightarrow>
   unat r = unat running + sum_list (map unat sizes)
   \<and> (\<forall>k < length sizes. 0 < unat (sizes ! k) \<and> unat (offs ! k) = unat running + sum_list (map unat (take k sizes)))"
proof (induction sizes arbitrary: h running offs)
  case (Cons n sizes)
  obtain off offs' where o: "offs = off # offs'" using Cons.prems(2) by (cases offs) auto
  have c: "n \<noteq> 0" "off = running" "\<not> n > - 1 - running"
    and r: "ple_check_heads (Suc h) (running + n) sizes offs' = Inr r"
    using Cons.prems(1) o by (auto split: if_splits)
  have "unat running + unat n < 18446744073709551616"
    using c(3) unat_room [of running] unat_u64_less [of running] by (simp add: word_less_nat_alt not_less)
  then have a: "unat (running + n) = unat running + unat n" by (simp add: unat_word_ariths)
  note IH = Cons.IH [OF r] 
  have "length offs' = length sizes" using Cons.prems(2) o by simp
  note IH = IH [OF this]
  show ?case
  proof (intro conjI allI impI)
    show "unat r = unat running + sum_list (map unat (n # sizes))" using IH a by simp
    fix k assume k: "k < length (n # sizes)"
    show "0 < unat ((n # sizes) ! k)" using k c(1) IH by (cases k) (auto simp: unat_gt_0)
    show "unat (offs ! k) = unat running + sum_list (map unat (take k (n # sizes)))"
      using k c(2) IH a o by (cases k) auto
  qed
qed simp


lemma require_None: "ple_require s = None \<longleftrightarrow> list_all fst (ple_required s)"
  by (auto simp: ple_require_def find_None_iff list_all_iff)

lemma check_scalars_None:
  assumes "ple_check_scalars s = None"
  shows "2 \<le> unat (the (sc_ngram_size s))" "unat (the (sc_ngram_size s)) \<le> PLE_MAX_NGRAM"
    "0 < unat (the (sc_heads_per_ngram s))" "ple_heads s \<le> PLE_MAX_HEADS"
    "length (the (sc_multipliers s)) = unat (the (sc_ngram_size s))"
    "length (the (sc_sizes s)) = ple_heads s" "length (the (sc_offsets s)) = ple_heads s"
    "0 < unat (the (sc_row_dim s))" "32 dvd unat (the (sc_row_dim s))" "the (sc_layers s) \<noteq> []"
    "0 < unat (the (sc_vocab s))" "unat (the (sc_vocab s)) \<le> 2147483647"
    "unat (the (sc_eos s)) < unat (the (sc_vocab s))"
proof -
  note u = assms [unfolded ple_check_scalars_def Let_def]
  show "2 \<le> unat (the (sc_ngram_size s))" "unat (the (sc_ngram_size s)) \<le> PLE_MAX_NGRAM"
    using u by (auto simp: word_less_nat_alt not_less split: if_splits)
  show "0 < unat (the (sc_heads_per_ngram s))" using u by (auto simp: unat_gt_0 split: if_splits)
  show "ple_heads s \<le> PLE_MAX_HEADS" "length (the (sc_multipliers s)) = unat (the (sc_ngram_size s))"
    "length (the (sc_sizes s)) = ple_heads s" "length (the (sc_offsets s)) = ple_heads s"
    "the (sc_layers s) \<noteq> []" using u by (auto split: if_splits)
  show "0 < unat (the (sc_row_dim s))" using u by (auto simp: unat_gt_0 split: if_splits)
  have "unat (the (sc_row_dim s) mod 32) = 0" using u by (auto split: if_splits)
  then show "32 dvd unat (the (sc_row_dim s))" by (simp add: unat_mod_distrib dvd_eq_mod_eq_0)
  show "0 < unat (the (sc_vocab s))" using u by (auto simp: unat_gt_0 split: if_splits)
  show "unat (the (sc_vocab s)) \<le> 2147483647" "unat (the (sc_eos s)) < unat (the (sc_vocab s))"
    using u by (auto simp: word_less_nat_alt word_le_nat_alt not_less not_le split: if_splits)
qed

lemma finish_constants_parts:
  assumes "ple_finish_constants s = Inr c"
  shows "ple_require s = None" "ple_check_scalars s = None"
    "ple_check_multipliers (the (sc_vocab s) - 1) 0 (the (sc_multipliers s)) = None"
    "\<exists>running. ple_check_heads 0 0 (the (sc_sizes s)) (the (sc_offsets s)) = Inr running \<and> c = ple_fill_constants s running"
  using assms by (auto simp: ple_finish_constants_def split: option.splits sum.splits)

lemma finish_constants_wf:
  assumes "ple_finish_constants s = Inr c"
  shows "ple_constants_wf c"
proof -
  note p = finish_constants_parts [OF assms]
  note sc = check_scalars_None [OF p(2)]
  obtain running where h: "ple_check_heads 0 0 (the (sc_sizes s)) (the (sc_offsets s)) = Inr running"
    and c: "c = ple_fill_constants s running" using p(4) by blast
  note hd = check_heads_Inr [OF h, unfolded sc(6,7), OF refl]
  have heads: "unat (of_nat (ple_heads s) :: u32) = ple_heads s"
    using sc(4) by (intro unat_of_nat_u32) (simp add: PLE_MAX_HEADS_def)
  have vocab: "unat (ucast (the (sc_vocab s)) :: u32) = unat (the (sc_vocab s))"
    using sc(12) by (simp add: unsigned_ucast_eq take_bit_nat_eq_self)
  have max_token: "unat (the (sc_vocab s) - 1) = unat (the (sc_vocab s)) - 1"
    using sc(11) by (subst unat_sub) (auto simp: word_le_nat_alt)
  have eos: "cast_i32 (uint (the (sc_eos s))) = int (unat (the (sc_eos s)))"
  proof -
    have "uint (the (sc_eos s)) \<le> INT32_MAX" unfolding uint_nat INT32_MAX_def using sc(12,13) by linarith
    moreover have "- 2147483648 \<le> uint (the (sc_eos s))" using unsigned_greater_eq [of "the (sc_eos s)", where ?'a = int] by linarith
    ultimately show ?thesis using cast_i32_id by simp
  qed
  have sizes: "take k (c_array PLE_MAX_HEADS (the (sc_sizes s))) = take k (the (sc_sizes s))" if "k \<le> ple_heads s" for k
    using that sc(4,6) by (simp add: c_array_take)
  show ?thesis unfolding ple_constants_wf_def
  proof (intro conjI allI impI)
    fix i assume i: "i < unat (c_ngram_size c)"
    then have l: "i < length (the (sc_multipliers s))" using c sc(5) by (simp add: ple_fill_constants_def)
    then have e: "c_multipliers c ! i = the (sc_multipliers s) ! i"
      using c sc(2,5) by (simp add: ple_fill_constants_def c_array_nth)
    show "0 < unat (c_multipliers c ! i)" "(unat (c_vocab_size c) - 1) * unat (c_multipliers c ! i) < 2 ^ 63"
      using check_multipliers_None [OF p(3) l] e c vocab max_token by (simp_all add: ple_fill_constants_def)
  next
    fix k assume "k < unat (c_head_count c)"
    then have k: "k < ple_heads s" using c heads by (simp add: ple_fill_constants_def)
    show "0 < unat (c_head_vocab_sizes c ! k)"
      using hd k c sc(4,6) by (simp add: ple_fill_constants_def c_array_nth)
    show "unat (c_head_offsets c ! k) = sum_list (map unat (take k (c_head_vocab_sizes c)))"
      using hd k c sc(4,6,7) sizes [of k] by (simp add: ple_fill_constants_def c_array_nth)
  next
    show "unat (c_row_total c) = sum_list (map unat (take (unat (c_head_count c)) (c_head_vocab_sizes c)))"
      using hd c heads sizes [of "ple_heads s"] sc(6) by (simp add: ple_fill_constants_def)
  qed (use c sc heads vocab eos in \<open>simp_all add: ple_fill_constants_def ple_heads_def INT32_MAX_def del: of_nat_unat\<close>)
qed


subsection \<open>No mapping is left behind\<close>

text \<open>The descriptors and mappings alive after a sequence of events.\<close>

fun ple_apply :: "nat list \<times> nat list \<Rightarrow> ple_event \<Rightarrow> nat list \<times> nat list" where
  "ple_apply (fds, maps) (Ev_Open i) = (i # fds, maps)"
| "ple_apply (fds, maps) (Ev_Close i) = (remove1 i fds, maps)"
| "ple_apply (fds, maps) (Ev_Map i) = (fds, i # maps)"
| "ple_apply (fds, maps) (Ev_Unmap i) = (fds, remove1 i maps)"

definition ple_live :: "nat list \<times> nat list \<Rightarrow> ple_event list \<Rightarrow> nat list \<times> nat list" where
  "ple_live = foldl ple_apply"

definition held_by :: "ple_mapping option \<Rightarrow> nat list \<times> nat list" where
  "held_by k = (case k of None \<Rightarrow> ([], []) | Some m \<Rightarrow> ([pm_fd m], [pm_fd m]))"

lemma ple_live_simps [simp]:
  "ple_live st [] = st" "ple_live st (e # es) = ple_live (ple_apply st e) es"
  "ple_live st (xs @ ys) = ple_live (ple_live st xs) ys"
  by (simp_all add: ple_live_def)

lemma map_open_live:
  "ple_map_open os i path = (Inl e, ev) \<Longrightarrow> ple_live (fds, maps) ev = (fds, maps)"
  "ple_map_open os i path = (Inr m, ev) \<Longrightarrow> ple_live (fds, maps) ev = (i # fds, i # maps) \<and> pm_fd m = i
     \<and> os_mmap os path = Some (pm_map m)"
  by (auto simp: ple_map_open_def split: if_splits option.splits)

lemma close_new_live:
  "pm_fd m = i \<Longrightarrow> ple_live (i # fds, i # maps) (ple_map_close (Some m)) = (fds, maps)"
  by (simp add: ple_map_close_def)

lemma close_held_live: "ple_live (held_by keep) (ple_map_close keep) = ([], [])"
  by (auto simp: held_by_def ple_map_close_def split: option.splits)

text \<open>A scan keeps the descriptor it was given and names its own shard in a new one.\<close>

definition key_tensor :: "ple_scan \<Rightarrow> ('e, bool \<times> ple_cursor \<times> u32 \<times> ple_scan) result \<Rightarrow> bool" where
  "key_tensor s r \<longleftrightarrow> (\<forall>h c al s'. r = Inr (h, c, al, s') \<longrightarrow> sc_tensor s' = sc_tensor s)"

lemma key_tensor_if: "key_tensor s x \<Longrightarrow> key_tensor s y \<Longrightarrow> key_tensor s (if b then x else y)"
  by simp

lemma key_tensor_scans:
  "(\<And>v. sc_tensor (f v) = sc_tensor s) \<Longrightarrow> key_tensor s (map_sum id (\<lambda>(c', s'). (True, c', al, s')) (scan_u32 path c f))"
  "(\<And>v. sc_tensor (g v) = sc_tensor s) \<Longrightarrow>
     key_tensor s (map_sum id (\<lambda>(c', s'). (True, c', al, s')) (scan_array path key cap old c g))"
  "key_tensor s (map_sum id (\<lambda>(c', al'). (True, c', al', s)) (scan_alignment path c))"
  "(\<And>v. sc_tensor (k v) = sc_tensor s) \<Longrightarrow>
     key_tensor s (case ple_int_elem c t of (None, _) \<Rightarrow> Inl e | (Some v, c') \<Rightarrow> Inr (True, c', al, k v))"
  "(\<And>v. sc_tensor (l v) = sc_tensor s) \<Longrightarrow>
     key_tensor s (case ple_u32 c of (None, _) \<Rightarrow> Inl e | (Some _, v1) \<Rightarrow>
     (case ple_u64 v1 of (None, _) \<Rightarrow> Inl e' | (Some len, _) \<Rightarrow> Inr (False, c, al, l len)))"
  "key_tensor s (Inr (False, c, al, s))"
  by (auto simp: key_tensor_def map_sum_id_Inr scan_u32_def scan_array_def split: prod.splits option.splits)

lemma ple_scan_key_tensor: "key_tensor s (ple_scan_key path key t c al s)"
  unfolding ple_scan_key_def Let_def by (intro key_tensor_if key_tensor_scans) simp_all

lemma ple_scan_kvs_tensor: "ple_scan_kvs path k c al s = Inr (c', al', s') \<Longrightarrow> sc_tensor s' = sc_tensor s"
proof (induction k arbitrary: c al s)
  case (Suc k)
  then obtain c1 al1 s1 where e: "ple_scan_kv path c al s = Inr (c1, al1, s1)"
    "ple_scan_kvs path k c1 al1 s1 = Inr (c', al', s')" by (auto split: sum.splits)
  from e(1) obtain key t c2 h c3 where "ple_scan_key path key t c2 al s = Inr (h, c3, al1, s1)"
    by (auto simp: ple_scan_kv_def split: prod.splits option.splits sum.splits if_splits)
  then show ?case using ple_scan_key_tensor [of s path key t c2 al] Suc.IH [OF e(2)] by (auto simp: key_tensor_def)
qed simp

definition tensor_of :: "nat \<Rightarrow> ple_scan \<Rightarrow> ple_scan \<Rightarrow> bool" where
  "tensor_of i s s' \<longleftrightarrow> (case sc_tensor s of
       None \<Rightarrow> (case sc_tensor s' of None \<Rightarrow> True | Some t \<Rightarrow> pt_path t = i)
     | Some t \<Rightarrow> (case sc_tensor s' of None \<Rightarrow> False | Some t' \<Rightarrow> pt_path t' = pt_path t))"

lemma tensor_of_trans: "tensor_of i s s1 \<Longrightarrow> tensor_of i s1 s2 \<Longrightarrow> tensor_of i s s2"
  by (auto simp: tensor_of_def split: option.splits)

lemma ple_scan_tensor_of: "ple_scan_tensor path i c s = Inr (c', s') \<Longrightarrow> tensor_of i s s'"
  by (auto simp: ple_scan_tensor_def tensor_of_def split: prod.splits option.splits if_splits)

lemma ple_scan_tensors_of: "ple_scan_tensors path i k c s = Inr (c', s') \<Longrightarrow> tensor_of i s s'"
proof (induction k arbitrary: c s)
  case (Suc k)
  then obtain c1 s1 where "ple_scan_tensor path i c s = Inr (c1, s1)"
    "ple_scan_tensors path i k c1 s1 = Inr (c', s')" by (auto split: sum.splits)
  then show ?case using Suc.IH ple_scan_tensor_of tensor_of_trans by blast
qed (auto simp: tensor_of_def split: option.splits)

lemma ple_scan_file_of: "ple_scan_file m i path s = Inr s' \<Longrightarrow> tensor_of i s s'"
proof -
  assume "ple_scan_file m i path s = Inr s'"
  then obtain nt nkv c c1 al s1 c2 s2 where "ple_scan_kvs path nkv c 32 s = Inr (c1, al, s1)"
    "ple_scan_tensors path i nt c1 s1 = Inr (c2, s2)" "s' = ple_make_absolute i (pc_pos c2) (unat al) s2"
    by (auto simp: ple_scan_file_def split: sum.splits)
  moreover from this have "tensor_of i s s2" using ple_scan_kvs_tensor ple_scan_tensors_of
    by (fastforce simp: tensor_of_def)
  ultimately show ?thesis by (auto simp: tensor_of_def ple_make_absolute_def split: option.splits if_splits)
qed


text \<open>What the kept mapping is: none while no shard had the table, then the shard that has it.\<close>

definition kept :: "ple_os \<Rightarrow> string list \<Rightarrow> bool \<Rightarrow> ple_scan \<Rightarrow> ple_mapping option \<Rightarrow> bool" where
  "kept os paths want s keep \<longleftrightarrow> (case keep of
       None \<Rightarrow> \<not> want \<or> sc_tensor s = None
     | Some m \<Rightarrow> want \<and> (case sc_tensor s of None \<Rightarrow> False | Some t \<Rightarrow> pt_path t = pm_fd m)
         \<and> pm_fd m < length paths \<and> os_mmap os (paths ! pm_fd m) = Some (pm_map m))"

lemma kept_step:
  assumes "kept os paths want s keep" "tensor_of i s s'" "\<not> (want \<and> sc_tensor s = None \<and> sc_tensor s' \<noteq> None)"
  shows "kept os paths want s' keep"
  using assms by (auto simp: kept_def tensor_of_def split: option.splits)

lemma ple_scan_loop_live:
  "ple_scan_loop os want i ps s keep = (r, ev) \<Longrightarrow> drop i paths = ps \<Longrightarrow> kept os paths want s keep \<Longrightarrow>
   (case r of Inl e \<Rightarrow> ple_live (held_by keep) ev = ([], [])
    | Inr (s', keep') \<Rightarrow> ple_live (held_by keep) ev = held_by keep' \<and> kept os paths want s' keep')"
proof (induction ps arbitrary: i s keep r ev)
  case Nil
  then show ?case by auto
next
  case (Cons p ps)
  obtain fds maps where st: "held_by keep = (fds, maps)" by (cases "held_by keep")
  have i: "i < length paths" using Cons.prems(2) by (cases "i < length paths") auto
  then have p: "i < length paths" "paths ! i = p" "drop (Suc i) paths = ps"
    using Cons.prems(2) Cons_nth_drop_Suc [OF i] by simp_all
  obtain o1 ev1 where o: "ple_map_open os i p = (o1, ev1)" by (cases "ple_map_open os i p")
  show ?case
  proof (cases o1)
    case (Inl e)
    then show ?thesis using Cons.prems(1) o map_open_live(1) [of os i p e ev1 fds maps] st close_held_live [of keep] by auto
  next
    case (Inr m)
    note m = map_open_live(2) [OF o [unfolded Inr], of fds maps]
    show ?thesis
    proof (cases "ple_scan_file (pm_map m) i p s")
      case (Inl e)
      then show ?thesis
        using Cons.prems(1) o Inr m st close_held_live [of keep] close_new_live [of m i fds maps] by auto
    next
      case (Inr s1)
      note tn = ple_scan_file_of [OF Inr]
      show ?thesis
      proof (cases "want \<and> sc_tensor s = None \<and> sc_tensor s1 \<noteq> None")
        case True
        then have k: "keep = None" using Cons.prems(3) by (auto simp: kept_def split: option.splits)
        obtain r1 ev2 where l: "ple_scan_loop os want (Suc i) ps s1 (Some m) = (r1, ev2)"
          by (cases "ple_scan_loop os want (Suc i) ps s1 (Some m)")
        have "kept os paths want s1 (Some m)" using True tn m p by (auto simp: kept_def tensor_of_def split: option.splits)
        from Cons.IH [OF l p(3) this] show ?thesis
          using Cons.prems(1) o \<open>o1 = Inr m\<close> Inr True l k m st
          by (auto simp: ple_map_close_def held_by_def split: sum.splits)
      next
        case False
        obtain r1 ev2 where l: "ple_scan_loop os want (Suc i) ps s1 keep = (r1, ev2)"
          by (cases "ple_scan_loop os want (Suc i) ps s1 keep")
        from Cons.IH [OF l p(3) kept_step [OF Cons.prems(3) tn False]] show ?thesis
          using Cons.prems(1) o \<open>o1 = Inr m\<close> Inr False l m st close_new_live [of m i fds maps]
          by (auto split: sum.splits)
      qed
    qed
  qed
qed


lemma scan_paths_live:
  "case ple_scan_paths os want paths of
     (Inl e, ev) \<Rightarrow> ple_live ([], []) ev = ([], [])
   | (Inr (s, keep), ev) \<Rightarrow> ple_live ([], []) ev = held_by keep \<and> kept os paths want s keep"
proof -
  obtain r ev where l: "ple_scan_loop os want 0 paths ple_scan_empty None = (r, ev)"
    by (cases "ple_scan_loop os want 0 paths ple_scan_empty None")
  have "kept os paths want ple_scan_empty None" by (simp add: kept_def ple_scan_empty_def)
  from ple_scan_loop_live [OF l drop_0 this] l show ?thesis
    by (auto simp: ple_scan_paths_def held_by_def split: sum.splits)
qed


subsection \<open>Properties\<close>

text \<open>
  Scanning a shard set leaves nothing open behind: after a refusal no descriptor
  and no mapping is alive, whichever shard failed and however; after success exactly the mapping
  that was asked for is alive, and it is the shard in which the table was found.\<close>

lemma ple_scan_paths_no_leak:
  "case ple_scan_paths os want paths of
     (Inl e, ev) \<Rightarrow> ple_live ([], []) ev = ([], [])
   | (Inr (s, keep), ev) \<Rightarrow> ple_live ([], []) ev = held_by keep \<and> kept os paths want s keep"
  by (rule scan_paths_live)

text \<open>
  Constants that were accepted have every key present and are self-consistent:
  between two and eight tokens per n-gram, at most 64 heads, every offset the number of rows of
  the heads before it, the total without wrap-around, no empty head, the end-of-sequence token in
  the vocabulary, a row of whole blocks, and no product of a token and a multiplier beyond a
  signed 64-bit integer.\<close>

lemma ple_finish_constants_sound:
  assumes "ple_finish_constants s = Inr c"
  shows "list_all fst (ple_required s) \<and> ple_constants_wf c"
  using finish_constants_parts(1) [OF assms] finish_constants_wf [OF assms] require_None [of s] by simp

definition demo_scan :: ple_scan where
  "demo_scan = \<lparr> sc_ngram_size = Some 3, sc_heads_per_ngram = Some 1, sc_row_dim = Some 32, sc_eos = Some 2,
     sc_conv_kernel = Some 4, sc_layers = Some [0], sc_vocab = Some 6, sc_multipliers = Some [3, 5, 9],
     sc_sizes = Some [7, 11], sc_offsets = Some [0, 7], sc_tensor = None \<rparr>"

lemma demo_constants: "ple_finish_constants demo_scan = Inr (ple_fill_constants demo_scan 18)"
  by (simp add: ple_finish_constants_def ple_require_def ple_required_def ple_check_scalars_def ple_heads_def
      demo_scan_def PLE_MAX_NGRAM_def PLE_MAX_HEADS_def)

end
