(* ===== verification/Ple_Hash.thy ===== *)
theory Ple_Hash
  imports Ple_Constants
begin

text \<open>
  The row ids of the n-gram table (\<open>ds4_ple_history_reset\<close>, \<open>ds4_ple_row_ids\<close>) and the reference
  derivation of its constants (\<open>ds4_ple_splitmix64\<close>, \<open>ds4_ple_derive_multipliers\<close>, \<open>ple_is_prime\<close>,
  \<open>ds4_ple_head_vocab_follows_rule\<close>).

  The reference of the row ids is stated over unbounded integers and the whole token sequence:
  the token \<open>p\<close> positions back, or the end-of-sequence token where that shift would cross a
  sequence boundary.
\<close>

subsection \<open>Row ids\<close>

type_synonym ple_history = "int list"

text \<open>\<open>(uint64_t)(uint32_t)token\<close>.\<close>

definition ple_token :: "int \<Rightarrow> u64" where
  "ple_token t = ucast (word_of_int t :: u32)"

definition ple_history_reset :: "ple_constants \<Rightarrow> ple_history" where
  "ple_history_reset c = replicate PLE_MAX_NGRAM (c_eos_token_id c)"

text \<open>The ids of the heads that read the \<open>n\<close>-token history.\<close>

definition ple_head_rows :: "ple_constants \<Rightarrow> u64 \<Rightarrow> nat \<Rightarrow> u64 list" where
  "ple_head_rows c mixed n =
     map (\<lambda>k. let head = (n - 2) * unat (c_heads_per_ngram c) + k in
              mixed mod c_head_vocab_sizes c ! head + c_head_offsets c ! head)
       [0..<unat (c_heads_per_ngram c)]"

definition ple_ngram_step ::
  "ple_constants \<Rightarrow> ple_history \<Rightarrow> u64 \<times> u64 list \<Rightarrow> nat \<Rightarrow> u64 \<times> u64 list" where
  "ple_ngram_step c h mr n =
     (let mixed = fst mr XOR (ple_token (h ! (n - 1)) * c_multipliers c ! (n - 1))
      in (mixed, snd mr @ ple_head_rows c mixed n))"

definition ple_token_rows :: "ple_constants \<Rightarrow> ple_history \<Rightarrow> int \<Rightarrow> u64 list" where
  "ple_token_rows c h cur =
     snd (foldl (ple_ngram_step c h) (ple_token cur * c_multipliers c ! 0, []) [2..<Suc (unat (c_ngram_size c))])"

definition ple_shift :: "int \<Rightarrow> int \<Rightarrow> ple_history \<Rightarrow> nat \<Rightarrow> ple_history" where
  "ple_shift eos cur h p = h[p := (if cur = eos then eos else h ! (p - 1))]"

definition ple_advance :: "ple_constants \<Rightarrow> ple_history \<Rightarrow> int \<Rightarrow> ple_history" where
  "ple_advance c h cur =
     (let ngram = unat (c_ngram_size c);
          h' = foldl (ple_shift (c_eos_token_id c) cur) h (rev [2..<ngram])
      in if ngram \<ge> 2 then h'[1 := cur] else h')"

fun ple_row_ids :: "ple_constants \<Rightarrow> ple_history \<Rightarrow> int list \<Rightarrow> u64 list \<times> ple_history" where
  "ple_row_ids c h [] = ([], h)"
| "ple_row_ids c h (t # ts) =
     (case ple_row_ids c (ple_advance c h t) ts of (rows, h') \<Rightarrow> (ple_token_rows c h t @ rows, h'))"

subsection \<open>The reference\<close>

text \<open>The token \<open>p\<close> back of the end of \<open>pre\<close>, unless an end-of-sequence token lies in between.\<close>

definition ple_back :: "int \<Rightarrow> int list \<Rightarrow> nat \<Rightarrow> int" where
  "ple_back eos pre p =
     (if p \<le> length pre \<and> eos \<notin> set (drop (length pre - (p - 1)) pre) then pre ! (length pre - p) else eos)"

definition ref_mixed :: "ple_constants \<Rightarrow> int list \<Rightarrow> int \<Rightarrow> nat \<Rightarrow> int" where
  "ref_mixed c pre cur n =
     foldl (\<lambda>m p. m XOR (ple_back (c_eos_token_id c) pre p * uint (c_multipliers c ! p)))
       (cur * uint (c_multipliers c ! 0)) [1..<n]"

definition ref_row :: "ple_constants \<Rightarrow> int list \<Rightarrow> int \<Rightarrow> nat \<Rightarrow> int" where
  "ref_row c pre cur head =
     ref_mixed c pre cur (head div unat (c_heads_per_ngram c) + 2) mod uint (c_head_vocab_sizes c ! head)
     + uint (c_head_offsets c ! head)"

lemma ple_back_1: "ple_back eos (pre @ [x]) 1 = x"
  by (simp add: ple_back_def nth_append)

lemma ple_back_Suc:
  assumes "1 \<le> p"
  shows "ple_back eos (pre @ [x]) (Suc p) = (if x = eos then eos else ple_back eos pre p)"
proof (cases "p \<le> length pre")
  case True
  have d: "drop (Suc (length pre) - p) (pre @ [x]) = drop (length pre - (p - 1)) pre @ [x]"
    using True assms by (simp add: Suc_diff_le [symmetric])
  have "length pre - p < length pre" using True assms by linarith
  then have "(pre @ [x]) ! (Suc (length pre) - Suc p) = pre ! (length pre - p)"
    by (simp add: nth_append)
  with d True show ?thesis by (auto simp: ple_back_def)
next
  case False
  then show ?thesis by (auto simp: ple_back_def)
qed

lemma foldl_shift:
  "length h = PLE_MAX_NGRAM \<Longrightarrow> n \<le> PLE_MAX_NGRAM \<Longrightarrow>
   foldl (ple_shift eos cur) h (rev [2..<n]) =
     map (\<lambda>p. if 2 \<le> p \<and> p < n then (if cur = eos then eos else h ! (p - 1)) else h ! p) [0..<PLE_MAX_NGRAM]"
proof (induction n arbitrary: h)
  case 0
  then show ?case by (auto intro!: nth_equalityI)
next
  case (Suc n)
  show ?case
  proof (cases "2 \<le> n")
    case True
    have "foldl (ple_shift eos cur) h (rev [2..<Suc n]) =
        foldl (ple_shift eos cur) (ple_shift eos cur h n) (rev [2..<n])" using True by simp
    also have "\<dots> = map (\<lambda>p. if 2 \<le> p \<and> p < n then (if cur = eos then eos else ple_shift eos cur h n ! (p - 1))
        else ple_shift eos cur h n ! p) [0..<PLE_MAX_NGRAM]"
      using Suc.prems by (intro Suc.IH) (auto simp: ple_shift_def)
    also have "\<dots> = map (\<lambda>p. if 2 \<le> p \<and> p < Suc n then (if cur = eos then eos else h ! (p - 1)) else h ! p) [0..<PLE_MAX_NGRAM]"
      using Suc.prems True by (intro map_cong) (auto simp: ple_shift_def nth_list_update)
    finally show ?thesis .
  next
    case False
    then show ?thesis using Suc.prems by (auto intro!: nth_equalityI)
  qed
qed

text \<open>The carried history is the reference history of what was consumed.\<close>

definition ple_history_of :: "ple_constants \<Rightarrow> int list \<Rightarrow> ple_history \<Rightarrow> bool" where
  "ple_history_of c pre h \<longleftrightarrow> length h = PLE_MAX_NGRAM
     \<and> (\<forall>p. 1 \<le> p \<and> p < unat (c_ngram_size c) \<longrightarrow> h ! p = ple_back (c_eos_token_id c) pre p)"

lemma history_reset_of: "ple_constants_wf c \<Longrightarrow> ple_history_of c [] (ple_history_reset c)"
  by (auto simp: ple_history_of_def ple_history_reset_def ple_back_def ple_constants_wf_def)

lemma history_advance_of:
  assumes wf: "ple_constants_wf c" and h: "ple_history_of c pre h"
  shows "ple_history_of c (pre @ [cur]) (ple_advance c h cur)"
proof -
  let ?n = "unat (c_ngram_size c)" and ?eos = "c_eos_token_id c"
  have n: "2 \<le> ?n" "?n \<le> PLE_MAX_NGRAM" using wf by (simp_all add: ple_constants_wf_def)
  have l: "length h = PLE_MAX_NGRAM" using h by (simp add: ple_history_of_def)
  have adv: "ple_advance c h cur = (map (\<lambda>p. if 2 \<le> p \<and> p < ?n then (if cur = ?eos then ?eos else h ! (p - 1))
      else h ! p) [0..<PLE_MAX_NGRAM])[1 := cur]"
    using n by (simp add: ple_advance_def foldl_shift [OF l n(2)])
  show ?thesis unfolding ple_history_of_def
  proof (intro conjI allI impI)
    show "length (ple_advance c h cur) = PLE_MAX_NGRAM" by (simp add: adv)
    fix p assume p: "1 \<le> p \<and> p < ?n"
    show "ple_advance c h cur ! p = ple_back ?eos (pre @ [cur]) p"
    proof (cases "p = 1")
      case True
      then show ?thesis using n ple_back_1 by (simp add: adv PLE_MAX_NGRAM_def)
    next
      case False
      then obtain q where q: "p = Suc q" "1 \<le> q" using p by (cases p) auto
      have "h ! q = ple_back ?eos pre q" using h p q by (simp add: ple_history_of_def)
      then show ?thesis using p q n by (simp add: adv ple_back_Suc)
    qed
  qed
qed


lemma ple_token_exact:
  assumes "0 \<le> t" "t < 4294967296"
  shows "uint (ple_token t) = t"
  using assms by (simp add: ple_token_def unsigned_ucast_eq unsigned_of_int take_bit_int_eq_self)

lemma ple_product_exact:
  assumes wf: "ple_constants_wf c" and p: "p < unat (c_ngram_size c)"
    and t: "0 \<le> t" "t < int (unat (c_vocab_size c))"
  shows "uint (ple_token t * c_multipliers c ! p) = t * uint (c_multipliers c ! p)"
    and "0 \<le> t * uint (c_multipliers c ! p)" "t * uint (c_multipliers c ! p) < 2 ^ 63"
proof -
  let ?m = "c_multipliers c ! p"
  have v: "int (unat (c_vocab_size c)) \<le> 2147483647" using wf by (simp add: ple_constants_wf_def INT32_MAX_def del: of_nat_unat)
  have e: "uint (ple_token t) = t" using t v by (intro ple_token_exact) linarith+
  have "nat t \<le> unat (c_vocab_size c) - 1" using t by linarith
  then have "nat t * unat ?m \<le> (unat (c_vocab_size c) - 1) * unat ?m" by (rule mult_le_mono1)
  also have "\<dots> < 2 ^ 63" using wf p by (auto simp: ple_constants_wf_def)
  finally have "int (nat t * unat ?m) < int (2 ^ 63)" by (simp only: of_nat_less_iff)
  then show b: "t * uint ?m < 2 ^ 63" using t(1) by simp
  show z: "0 \<le> t * uint ?m" using t(1) by simp
  have "uint (ple_token t * ?m) = (t * uint ?m) mod 2 ^ 64" by (simp add: uint_word_ariths e)
  also have "\<dots> = t * uint ?m" using z b by (intro mod_pos_pos_trivial) auto
  finally show "uint (ple_token t * ?m) = t * uint ?m" .
qed

lemma ple_back_range:
  assumes "list_all (\<lambda>t. 0 \<le> t \<and> t < v) pre" "0 \<le> eos" "eos < v" "1 \<le> p"
  shows "0 \<le> ple_back eos pre p \<and> ple_back eos pre p < v"
proof (cases "p \<le> length pre")
  case True
  then have "length pre - p < length pre" using assms(4) by linarith
  then show ?thesis using assms by (auto simp: ple_back_def list_all_length)
qed (use assms in \<open>auto simp: ple_back_def\<close>)

text \<open>The hash of the \<open>n\<close>-token history, word and reference side by side.\<close>

definition ple_mixed :: "ple_constants \<Rightarrow> ple_history \<Rightarrow> int \<Rightarrow> nat \<Rightarrow> u64" where
  "ple_mixed c h cur n = fst (foldl (ple_ngram_step c h) (ple_token cur * c_multipliers c ! 0, []) [2..<Suc n])"

lemma ple_mixed_1: "ple_mixed c h cur 1 = ple_token cur * c_multipliers c ! 0"
  by (simp add: ple_mixed_def)

lemma ple_mixed_Suc:
  "1 \<le> n \<Longrightarrow> ple_mixed c h cur (Suc n) = ple_mixed c h cur n XOR (ple_token (h ! n) * c_multipliers c ! n)"
  by (simp add: ple_mixed_def ple_ngram_step_def Let_def)

lemma ple_mixed_ref:
  assumes wf: "ple_constants_wf c" and h: "ple_history_of c pre h"
    and pre: "list_all (\<lambda>t. 0 \<le> t \<and> t < int (unat (c_vocab_size c))) pre"
    and cur: "0 \<le> cur" "cur < int (unat (c_vocab_size c))"
  shows "1 \<le> n \<Longrightarrow> n \<le> unat (c_ngram_size c) \<Longrightarrow> uint (ple_mixed c h cur n) = ref_mixed c pre cur n"
proof (induction n rule: nat_induct_at_least)
  case base
  have "0 < unat (c_ngram_size c)" using wf by (simp add: ple_constants_wf_def)
  from ple_product_exact(1) [OF wf this cur] show ?case
    using ple_mixed_1 [of c h cur] by (simp add: ref_mixed_def)
next
  case (Suc n)
  let ?b = "ple_back (c_eos_token_id c) pre n"
  have b: "0 \<le> ?b \<and> ?b < int (unat (c_vocab_size c))"
    using wf Suc.hyps by (intro ple_back_range [OF pre]) (auto simp: ple_constants_wf_def)
  have "h ! n = ?b" using h Suc by (simp add: ple_history_of_def)
  then have "uint (ple_mixed c h cur (Suc n)) = uint (ple_mixed c h cur n) XOR (?b * uint (c_multipliers c ! n))"
    using ple_product_exact(1) [OF wf _ conjunct1 [OF b] conjunct2 [OF b], of n] Suc
    by (simp add: ple_mixed_Suc unsigned_xor_eq)
  then show ?case using Suc by (simp add: ref_mixed_def)
qed

lemma ple_rows_upto:
  assumes hpn: "0 < hpn" "hpn = unat (c_heads_per_ngram c)" and "1 \<le> n"
  shows "length (snd (foldl (ple_ngram_step c h) (ple_token cur * c_multipliers c ! 0, []) [2..<Suc n])) = (n - 1) * hpn
    \<and> (\<forall>head < (n - 1) * hpn.
         snd (foldl (ple_ngram_step c h) (ple_token cur * c_multipliers c ! 0, []) [2..<Suc n]) ! head =
         ple_mixed c h cur (head div hpn + 2) mod c_head_vocab_sizes c ! head + c_head_offsets c ! head)"
  using assms(3)
proof (induction n rule: nat_induct_at_least)
  case base
  then show ?case by simp
next
  case (Suc n)
  let ?f = "foldl (ple_ngram_step c h) (ple_token cur * c_multipliers c ! 0, []) [2..<Suc n]"
  let ?m = "ple_mixed c h cur (Suc n)"
  have f: "snd (foldl (ple_ngram_step c h) (ple_token cur * c_multipliers c ! 0, []) [2..<Suc (Suc n)])
      = snd ?f @ ple_head_rows c ?m (Suc n)"
    using Suc.hyps by (simp add: ple_ngram_step_def Let_def ple_mixed_def)
  have n: "Suc n - 2 = n - 1" "(Suc n - 1) * hpn = (n - 1) * hpn + hpn"
    using Suc.hyps by (cases n; simp)+
  have row: "(snd ?f @ ple_head_rows c ?m (Suc n)) ! head =
      ple_mixed c h cur (head div hpn + 2) mod c_head_vocab_sizes c ! head + c_head_offsets c ! head"
    if a: "head < (n - 1) * hpn + hpn" for head
  proof (cases "head < (n - 1) * hpn")
    case True
    then show ?thesis using Suc.IH by (simp add: nth_append)
  next
    case False
    define k where "k = head - (n - 1) * hpn"
    have k: "head = (n - 1) * hpn + k" "k < hpn" using False a by (simp_all add: k_def)
    have "head div hpn + 2 = Suc n" using k hpn(1) Suc.hyps by simp
    moreover have "(snd ?f @ ple_head_rows c ?m (Suc n)) ! head = ple_head_rows c ?m (Suc n) ! k"
      using False Suc.IH by (simp add: nth_append k_def)
    ultimately show ?thesis using k n(1) hpn by (simp add: ple_head_rows_def Let_def)
  qed
  have "length (ple_head_rows c ?m (Suc n)) = hpn" by (simp add: ple_head_rows_def hpn)
  then show ?case unfolding f n using Suc.IH row by auto
qed


lemma head_band:
  assumes wf: "ple_constants_wf c" and head: "head < unat (c_head_count c)"
  shows "0 < unat (c_head_vocab_sizes c ! head)"
    "unat (c_head_offsets c ! head) + unat (c_head_vocab_sizes c ! head) \<le> unat (c_row_total c)"
proof -
  let ?ss = "map unat (c_head_vocab_sizes c)"
  show "0 < unat (c_head_vocab_sizes c ! head)" using wf head by (simp add: ple_constants_wf_def)
  have l: "head < length (c_head_vocab_sizes c)" using wf head by (simp add: ple_constants_wf_def)
  have "unat (c_head_offsets c ! head) + unat (c_head_vocab_sizes c ! head) = sum_list (take (Suc head) ?ss)"
    using wf head l by (simp add: ple_constants_wf_def take_Suc_conv_app_nth take_map)
  also have "\<dots> \<le> sum_list (take (unat (c_head_count c)) ?ss)"
  proof -
    have "take (unat (c_head_count c)) ?ss = take (Suc head) ?ss @ drop (Suc head) (take (unat (c_head_count c)) ?ss)"
      using head append_take_drop_id [of "Suc head" "take (unat (c_head_count c)) ?ss"] by (simp add: min_def)
    then show ?thesis by (metis le_add1 sum_list_append)
  qed
  also have "\<dots> = unat (c_row_total c)" using wf by (simp add: ple_constants_wf_def take_map)
  finally show "unat (c_head_offsets c ! head) + unat (c_head_vocab_sizes c ! head) \<le> unat (c_row_total c)" .
qed

text \<open>One id, without wrap-around.\<close>

lemma ple_id_exact:
  fixes m size off :: u64
  assumes "0 < unat size" "unat off + unat size < 18446744073709551616"
  shows "uint (m mod size + off) = uint m mod uint size + uint off"
    "uint off \<le> uint (m mod size + off)" "uint (m mod size + off) < uint off + uint size"
proof -
  have s: "0 < uint size" using assms(1) by (simp add: uint_nat del: of_nat_unat)
  have b: "uint m mod uint size < uint size" "0 \<le> uint m mod uint size" using s by simp_all
  have u: "uint off + uint size < 18446744073709551616" using assms(2) unfolding uint_nat by linarith
  have "uint (m mod size + off) = (uint m mod uint size + uint off) mod 18446744073709551616"
    by (simp add: uint_word_ariths uint_mod_distrib)
  also have "\<dots> = uint m mod uint size + uint off"
    using b u unsigned_greater_eq [of off, where ?'a = int] by (intro mod_pos_pos_trivial) linarith+
  finally show e: "uint (m mod size + off) = uint m mod uint size + uint off" .
  show "uint off \<le> uint (m mod size + off)" "uint (m mod size + off) < uint off + uint size"
    unfolding e using b by linarith+
qed

lemma ple_token_rows_ref:
  assumes wf: "ple_constants_wf c" and h: "ple_history_of c pre h"
    and pre: "list_all (\<lambda>t. 0 \<le> t \<and> t < int (unat (c_vocab_size c))) pre"
    and cur: "0 \<le> cur" "cur < int (unat (c_vocab_size c))"
  shows "length (ple_token_rows c h cur) = unat (c_head_count c)"
    and "head < unat (c_head_count c) \<Longrightarrow>
      uint (ple_token_rows c h cur ! head) = ref_row c pre cur head
      \<and> uint (c_head_offsets c ! head) \<le> ref_row c pre cur head
      \<and> ref_row c pre cur head < uint (c_head_offsets c ! head) + uint (c_head_vocab_sizes c ! head)"
proof -
  let ?n = "unat (c_ngram_size c)" and ?hpn = "unat (c_heads_per_ngram c)"
  have n: "1 \<le> ?n" "0 < ?hpn" "unat (c_head_count c) = (?n - 1) * ?hpn"
    using wf by (simp_all add: ple_constants_wf_def)
  note rows = ple_rows_upto [OF n(2) refl n(1), of h cur]
  show "length (ple_token_rows c h cur) = unat (c_head_count c)" using rows n(3) by (simp add: ple_token_rows_def)
  assume head: "head < unat (c_head_count c)"
  then have "head div ?hpn < ?n - 1" using n by (simp add: div_less_iff_less_mult)
  then have q: "1 \<le> head div ?hpn + 2" "head div ?hpn + 2 \<le> ?n" by linarith+
  have row: "ple_token_rows c h cur ! head =
      ple_mixed c h cur (head div ?hpn + 2) mod c_head_vocab_sizes c ! head + c_head_offsets c ! head"
    using rows head n(3) by (simp add: ple_token_rows_def)
  have "unat (c_head_offsets c ! head) + unat (c_head_vocab_sizes c ! head) < 18446744073709551616"
    using head_band(2) [OF wf head] unat_u64_less [of "c_row_total c"] by simp
  from ple_id_exact [OF head_band(1) [OF wf head] this, of "ple_mixed c h cur (head div ?hpn + 2)"]
  show "uint (ple_token_rows c h cur ! head) = ref_row c pre cur head
      \<and> uint (c_head_offsets c ! head) \<le> ref_row c pre cur head
      \<and> ref_row c pre cur head < uint (c_head_offsets c ! head) + uint (c_head_vocab_sizes c ! head)"
    unfolding row ref_row_def using ple_mixed_ref [OF wf h pre cur q] by simp
qed

lemma ple_row_ids_ref:
  assumes wf: "ple_constants_wf c"
  shows "ple_history_of c pre h \<Longrightarrow> list_all (\<lambda>t. 0 \<le> t \<and> t < int (unat (c_vocab_size c))) (pre @ ts) \<Longrightarrow>
    length (fst (ple_row_ids c h ts)) = length ts * unat (c_head_count c)
    \<and> ple_history_of c (pre @ ts) (snd (ple_row_ids c h ts))
    \<and> (\<forall>t < length ts. \<forall>head < unat (c_head_count c).
         uint (fst (ple_row_ids c h ts) ! (t * unat (c_head_count c) + head)) = ref_row c (pre @ take t ts) (ts ! t) head)"
proof (induction ts arbitrary: pre h)
  case (Cons x ts)
  let ?hc = "unat (c_head_count c)"
  have pre: "list_all (\<lambda>t. 0 \<le> t \<and> t < int (unat (c_vocab_size c))) pre"
    and x: "0 \<le> x" "x < int (unat (c_vocab_size c))" using Cons.prems(2) by simp_all
  note row = ple_token_rows_ref [OF wf Cons.prems(1) pre x]
  obtain rows h' where r: "ple_row_ids c (ple_advance c h x) ts = (rows, h')"
    by (cases "ple_row_ids c (ple_advance c h x) ts")
  note IH = Cons.IH [OF history_advance_of [OF wf Cons.prems(1), of x], unfolded r fst_conv snd_conv]
  have IH': "length rows = length ts * ?hc" "ple_history_of c (pre @ x # ts) h'"
    "\<And>t head. t < length ts \<Longrightarrow> head < ?hc \<Longrightarrow> uint (rows ! (t * ?hc + head)) = ref_row c (pre @ x # take t ts) (ts ! t) head"
    using IH Cons.prems(2) by simp_all
  have nth: "uint ((ple_token_rows c h x @ rows) ! (t * ?hc + head)) = ref_row c (pre @ take t (x # ts)) ((x # ts) ! t) head"
    if "t < length (x # ts)" "head < ?hc" for t head
  proof (cases t)
    case 0
    then show ?thesis using row that by (simp add: nth_append)
  next
    case (Suc t')
    then have "(ple_token_rows c h x @ rows) ! (t * ?hc + head) = rows ! (t' * ?hc + head)"
      using row(1) by (simp add: nth_append)
    then show ?thesis using IH'(3) [of t' head] Suc that by simp
  qed
  show ?case using r row(1) IH' nth by simp
qed simp

lemma ple_row_ids_append:
  "ple_row_ids c h (xs @ ys) =
     (fst (ple_row_ids c h xs) @ fst (ple_row_ids c (snd (ple_row_ids c h xs)) ys),
      snd (ple_row_ids c (snd (ple_row_ids c h xs)) ys))"
  by (induction xs arbitrary: h) (auto split: prod.splits)


subsection \<open>Properties\<close>

text \<open>
  Property C30. For tokens of the vocabulary and accepted constants, the row ids of a batch
  followed by another (a prefill and its decode steps, say) are the ids of one long call, and
  every id is the reference value over unbounded integers and the whole sequence: no product,
  sum or remainder wraps, the end-of-sequence recurrence is the segment rule, and each id lies in
  the band of its head, below the total number of rows.\<close>

theorem ple_row_ids_reference:
  assumes wf: "ple_constants_wf c"
    and tokens: "list_all (\<lambda>t. 0 \<le> t \<and> t < int (unat (c_vocab_size c))) (xs @ ys)"
  defines "first \<equiv> ple_row_ids c (ple_history_reset c) xs"
  defines "ids \<equiv> fst first @ fst (ple_row_ids c (snd first) ys)"
  shows "ids = fst (ple_row_ids c (ple_history_reset c) (xs @ ys))
    \<and> length ids = length (xs @ ys) * unat (c_head_count c)
    \<and> (\<forall>t < length (xs @ ys). \<forall>head < unat (c_head_count c).
         let row = ids ! (t * unat (c_head_count c) + head) in
         uint row = ref_row c (take t (xs @ ys)) ((xs @ ys) ! t) head
         \<and> unat (c_head_offsets c ! head) \<le> unat row
         \<and> unat row < unat (c_head_offsets c ! head) + unat (c_head_vocab_sizes c ! head)
         \<and> unat row < unat (c_row_total c))"
proof -
  let ?hc = "unat (c_head_count c)" and ?ok = "\<lambda>t. 0 \<le> t \<and> t < int (unat (c_vocab_size c))"
  have ids: "ids = fst (ple_row_ids c (ple_history_reset c) (xs @ ys))"
    by (simp add: ids_def first_def ple_row_ids_append)
  have "list_all ?ok ([] @ (xs @ ys))" using tokens by simp
  note r = ple_row_ids_ref [OF wf history_reset_of [OF wf] this, folded ids, unfolded append.left_neutral]
  have band: "uint (c_head_offsets c ! head) \<le> ref_row c (take t (xs @ ys)) ((xs @ ys) ! t) head
      \<and> ref_row c (take t (xs @ ys)) ((xs @ ys) ! t) head < uint (c_head_offsets c ! head) + uint (c_head_vocab_sizes c ! head)"
    if t: "t < length (xs @ ys)" and h: "head < ?hc" for t head
  proof -
    have pre: "list_all ?ok (take t (xs @ ys))" using tokens unfolding list_all_iff by (metis in_set_takeD)
    have cur: "?ok ((xs @ ys) ! t)" using tokens t unfolding list_all_length by blast
    have "ple_history_of c (take t (xs @ ys)) (snd (ple_row_ids c (ple_history_reset c) (take t (xs @ ys))))"
      using ple_row_ids_ref [OF wf history_reset_of [OF wf], of "take t (xs @ ys)"] pre by simp
    from ple_token_rows_ref(2) [OF wf this pre _ _ h] cur show ?thesis by blast
  qed
  have row: "let row = ids ! (t * ?hc + head) in
         uint row = ref_row c (take t (xs @ ys)) ((xs @ ys) ! t) head
         \<and> unat (c_head_offsets c ! head) \<le> unat row
         \<and> unat row < unat (c_head_offsets c ! head) + unat (c_head_vocab_sizes c ! head)
         \<and> unat row < unat (c_row_total c)"
    if th: "t < length (xs @ ys)" "head < ?hc" for t head
  proof -
    let ?row = "ids ! (t * ?hc + head)"
    have e: "uint ?row = ref_row c (take t (xs @ ys)) ((xs @ ys) ! t) head" using r th by blast
    have "unat (c_head_offsets c ! head) \<le> unat ?row
        \<and> unat ?row < unat (c_head_offsets c ! head) + unat (c_head_vocab_sizes c ! head)"
      using band [OF th] unfolding e [symmetric] uint_nat by linarith
    then show ?thesis using e head_band(2) [OF wf th(2)] unfolding Let_def by linarith
  qed
  show ?thesis using ids r row by blast
qed

theorem ple_row_ids_reference_witness:
  "let c = ple_fill_constants demo_scan 18;
       first = ple_row_ids c (ple_history_reset c) [3, 2];
       ids = fst first @ fst (ple_row_ids c (snd first) [5])
   in ids = fst (ple_row_ids c (ple_history_reset c) [3, 2, 5]) \<and> length ids = 6
      \<and> unat (ids ! 5) < unat (c_row_total c)"
proof -
  let ?c = "ple_fill_constants demo_scan 18"
  have f: "unat (c_head_count ?c) = 2" "unat (c_vocab_size ?c) = 6"
    by (simp_all add: ple_fill_constants_def demo_scan_def ple_heads_def)
  have t: "list_all (\<lambda>t. 0 \<le> t \<and> t < int (unat (c_vocab_size ?c))) ([3, 2] @ [5])" unfolding f by simp
  note p = ple_row_ids_reference [OF finish_constants_wf [OF demo_constants] t, unfolded f Let_def]
  show ?thesis unfolding Let_def using p [THEN conjunct1] p [THEN conjunct2, THEN conjunct1]
      p [THEN conjunct2, THEN conjunct2, rule_format, of 2 1] by simp
qed

end
