(* ===== verification/Ple_Rule.thy ===== *)
theory Ple_Rule
  imports Ple_Hash
begin

text \<open>
  The reference derivation of the hash constants: the splitmix64 stream of the multipliers and
  the rule that the head vocabularies are consecutive primes. It only checks the constants of a
  checkpoint and never produces them.
\<close>

subsection \<open>Multipliers\<close>

definition ple_splitmix64 :: "u64 \<Rightarrow> u64" where
  "ple_splitmix64 v =
     (let x0 = v + 0x9E3779B97F4A7C15;
          x1 = (x0 XOR drop_bit 30 x0) * 0xBF58476D1CE4E5B9;
          x2 = (x1 XOR drop_bit 27 x1) * 0x94D049BB133111EB
      in x2 XOR drop_bit 31 x2)"

definition ple_half :: "u32 \<Rightarrow> u64" where
  "ple_half vocab_size =
     (let vocab = (if vocab_size = 0 then 1 else ucast vocab_size :: u64);
          half = (0x7FFFFFFFFFFFFFFF div vocab) div 2
      in if half = 0 then 1 else half)"

definition ple_derive_multipliers :: "u32 \<Rightarrow> u32 \<Rightarrow> u32 \<Rightarrow> int \<Rightarrow> u64 list" where
  "ple_derive_multipliers ngram_size vocab_size ordinal seed =
     (let half = ple_half vocab_size;
          base = word_of_int seed + 10007 * ucast ordinal
      in map (\<lambda>i. 2 * (ple_splitmix64 (base + 0x9E3779B97F4A7C15 * of_nat (i + 1)) mod half) + 1)
           [0..<unat ngram_size])"

lemma ple_half_bounds:
  "0 < unat (ple_half v)" "2 * unat (ple_half v) * max 1 (unat v) \<le> 9223372036854775807"
proof -
  let ?w = "if v = 0 then 1 else ucast v :: u64" and ?n = "max 1 (unat v)"
  have w: "unat ?w = ?n"
  proof (cases "v = 0")
    case False
    then have "0 < unat v" by (simp add: unat_gt_0)
    then have "max 1 (unat v) = unat v" by simp
    then show ?thesis using False by simp
  qed simp
  have n: "?n < 4294967296" using unat_u32_less [of v] by simp
  have h: "unat ((0x7FFFFFFFFFFFFFFF div ?w) div 2) = 9223372036854775807 div ?n div 2"
    by (simp add: unat_div_distrib w)
  have "0 < ?n" by simp
  then have "9223372036854775807 div 4294967296 \<le> 9223372036854775807 div ?n"
    using n by (intro div_le_mono2) linarith+
  then have "2 \<le> 9223372036854775807 div ?n" by simp
  then have p: "0 < 9223372036854775807 div ?n div 2" by simp
  then have e: "unat (ple_half v) = 9223372036854775807 div ?n div 2"
    using h by (auto simp: ple_half_def Let_def)
  show "0 < unat (ple_half v)" using p e by simp
  have "2 * (9223372036854775807 div ?n div 2) \<le> 9223372036854775807 div ?n" by simp
  then have "2 * unat (ple_half v) * ?n \<le> 9223372036854775807 div ?n * ?n" using e by (simp add: mult_le_mono1)
  also have "\<dots> \<le> 9223372036854775807" by simp
  finally show "2 * unat (ple_half v) * ?n \<le> 9223372036854775807" .
qed

lemma ple_derived_bounds:
  assumes "m \<in> set (ple_derive_multipliers n v ordinal seed)"
  shows "odd (unat m) \<and> unat v * unat m < 2 ^ 63"
proof -
  obtain x where m: "m = 2 * (x mod ple_half v) + 1"
    using assms by (auto simp: ple_derive_multipliers_def Let_def)
  note b = ple_half_bounds [of v]
  have r: "unat (x mod ple_half v) < unat (ple_half v)" using b(1) by (simp add: unat_mod_distrib)
  have le: "unat (ple_half v) \<le> 4611686018427387903" using b(2)
  proof -
    have "2 * unat (ple_half v) * 1 \<le> 2 * unat (ple_half v) * max 1 (unat v)" by (rule mult_le_mono2) simp
    then show ?thesis using b(2) by linarith
  qed
  have u: "unat m = 2 * unat (x mod ple_half v) + 1"
    unfolding m using r le by (simp add: unat_word_ariths)
  have "unat v * unat m \<le> max 1 (unat v) * (2 * unat (ple_half v))"
    using u r by (intro mult_le_mono) auto
  also have "\<dots> \<le> 9223372036854775807" using b(2) by (simp add: mult.commute)
  finally show ?thesis using u by simp
qed

subsection \<open>Primes\<close>

text \<open>
  The trial division, with the wrap-around of \<open>d * d\<close>. The divisor is odd throughout and never
  passes \<open>v\<close>, since \<open>v\<close> itself divides; the two extra conjuncts say so and make the recursion
  total.
\<close>

function ple_prime_loop :: "u64 \<Rightarrow> u64 \<Rightarrow> bool" where
  "ple_prime_loop v d =
     (if d * d \<le> v \<and> (odd (unat d) \<and> d \<le> v) then (if v mod d = 0 then False else ple_prime_loop v (d + 2)) else True)"
  by pat_completeness auto

lemma prime_loop_step:
  fixes v d :: u64
  assumes "odd (unat d)" "d \<le> v" "v mod d \<noteq> 0"
  shows "unat (d + 2) = unat d + 2" "unat d < unat v"
proof -
  have "d \<noteq> v" using assms(3) by auto
  then show l: "unat d < unat v" using assms(2) by (metis order.not_eq_order_implies_strict word_less_nat_alt)
  have "unat v < 18446744073709551616" by (rule unat_u64_less)
  then have "unat d \<noteq> 18446744073709551614" using assms(1) by auto
  then have "unat d + 2 < 18446744073709551616" using l \<open>unat v < _\<close> by linarith
  then show "unat (d + 2) = unat d + 2" by (simp add: unat_word_ariths)
qed

termination ple_prime_loop
proof (relation "measure (\<lambda>(v, d). unat v + 2 - unat d)")
  fix v d :: u64
  assume "d * d \<le> v \<and> odd (unat d) \<and> d \<le> v" "v mod d \<noteq> 0"
  then show "((v, d + 2), (v, d)) \<in> measure (\<lambda>(v, d). unat v + 2 - unat d)"
    using prime_loop_step [of d v] by auto
qed simp

declare ple_prime_loop.simps [simp del]

definition ple_is_prime :: "u64 \<Rightarrow> bool" where
  "ple_is_prime v =
     (if v < 2 then False else if v mod 2 = 0 then v = 2 else ple_prime_loop v 3)"

text \<open>
  \<open>while (!ple_is_prime(next)) next++\<close>: it ends for every start, because the increment wraps and
  two is prime.
\<close>

function ple_next_prime :: "u64 \<Rightarrow> u64" where
  "ple_next_prime n = (if ple_is_prime n then n else ple_next_prime (n + 1))"
  by pat_completeness auto

termination ple_next_prime
proof (relation "measure (\<lambda>n. unat (2 - n))")
  fix n :: u64
  assume "\<not> ple_is_prime n"
  then have "n \<noteq> 2" by (auto simp: ple_is_prime_def)
  then have "2 - n \<noteq> 0" by simp
  then have "0 < unat (2 - n)" by (simp add: unat_gt_0)
  have "2 - (n + 1) = (2 - n) - 1" by (simp only: diff_diff_eq)
  then have "unat (2 - (n + 1)) = unat (2 - n) - 1"
    by (simp only: unat_minus_one [OF \<open>2 - n \<noteq> 0\<close>])
  then show "(n + 1, n) \<in> measure (\<lambda>n. unat (2 - n))" using \<open>0 < unat (2 - n)\<close> by simp
qed simp

declare ple_next_prime.simps [simp del]

fun ple_rule_tail :: "u64 \<Rightarrow> u64 list \<Rightarrow> bool" where
  "ple_rule_tail prev [] = True"
| "ple_rule_tail prev (s # ss) = (if s \<noteq> ple_next_prime (prev + 1) then False else ple_rule_tail s ss)"

definition ple_head_vocab_follows_rule :: "u64 list \<Rightarrow> bool" where
  "ple_head_vocab_follows_rule sizes =
     (case sizes of [] \<Rightarrow> False | s # ss \<Rightarrow> if \<not> ple_is_prime s then False else ple_rule_tail s ss)"


subsection \<open>The trial division decides primality\<close>

definition prime_nat :: "nat \<Rightarrow> bool" where
  "prime_nat n \<longleftrightarrow> 1 < n \<and> (\<forall>m \<in> {2..<n}. \<not> m dvd n)"

text \<open>Below the square of the largest odd 32-bit divisor the products do not wrap.\<close>

definition PRIME_BOUND :: nat where "PRIME_BOUND = 18446744065119617025"

lemma no_small_divisor:
  assumes "1 < n" "n < d * d" "\<And>e. 2 \<le> e \<Longrightarrow> e < d \<Longrightarrow> \<not> e dvd n"
  shows "prime_nat n"
  unfolding prime_nat_def
proof (intro conjI ballI notI)
  fix m assume m: "m \<in> {2..<n}" "m dvd n"
  then obtain k where k: "n = m * k" by (auto elim: dvdE)
  have "d \<le> m" using assms(3) [of m] m by (metis atLeastLessThan_iff not_le)
  have "2 \<le> k" using k m assms(1) by (cases k; cases "k - 1") auto
  then have "d \<le> k" using assms(3) [of k] k by (metis dvd_triv_right not_le)
  with \<open>d \<le> m\<close> have "d * d \<le> n" using k mult_le_mono by blast
  with assms(2) show False by simp
qed (use assms in simp)

lemma prime_loop_correct:
  "odd (unat v) \<Longrightarrow> unat v < PRIME_BOUND \<Longrightarrow> odd (unat d) \<Longrightarrow> 3 \<le> unat d \<Longrightarrow> unat d \<le> unat v \<Longrightarrow>
   unat d \<le> 4294967295 \<Longrightarrow> (\<And>e. 2 \<le> e \<Longrightarrow> e < unat d \<Longrightarrow> \<not> e dvd unat v) \<Longrightarrow>
   ple_prime_loop v d \<longleftrightarrow> prime_nat (unat v)"
proof (induction v d rule: ple_prime_loop.induct)
  case (1 v d)
  let ?v = "unat v" and ?d = "unat d"
  have "?d * ?d \<le> 4294967295 * 4294967295" using 1(7) by (rule mult_le_mono) (rule 1(7))
  then have sq: "unat (d * d) = ?d * ?d" by (simp add: unat_word_ariths)
  have le: "d \<le> v" using 1(6) by (simp add: word_le_nat_alt)
  show ?case
  proof (cases "d * d \<le> v")
    case False
    then have "?v < ?d * ?d" using sq by (simp add: word_le_nat_alt not_le)
    moreover have "1 < ?v" using 1(5,6) by linarith
    ultimately have "prime_nat ?v" using 1(8) by (intro no_small_divisor [of ?v ?d]) auto
    then show ?thesis using False by (simp add: ple_prime_loop.simps)
  next
    case True
    then have q: "?d * ?d \<le> ?v" using sq by (simp add: word_le_nat_alt)
    have tr: "3 * ?d \<le> ?d * ?d" using 1(5) by (rule mult_le_mono1)
    have lt: "?d + 2 \<le> ?v" using q tr 1(5) by linarith
    have run: "ple_prime_loop v d = (if v mod d = 0 then False else ple_prime_loop v (d + 2))"
      using True 1(4) le by (subst ple_prime_loop.simps) simp
    show ?thesis
    proof (cases "v mod d = 0")
      case dv: True
      then have "unat (v mod d) = 0" by simp
      then have "?d dvd ?v" by (simp add: unat_mod_distrib dvd_eq_mod_eq_0)
      moreover have "?d \<in> {2..<?v}" using 1(5) lt by auto
      ultimately show ?thesis using run dv by (auto simp: prime_nat_def)
    next
      case nd: False
      note st = prime_loop_step [OF 1(4) le nd]
      have ndv: "\<not> ?d dvd ?v" using nd
        by (metis dvd_eq_mod_eq_0 unat_eq_zero unat_mod_distrib)
      have "?d \<noteq> 4294967295" using q 1(3) by (auto simp: PRIME_BOUND_def)
      moreover have "?d \<noteq> 4294967294" using 1(4) by auto
      ultimately have "?d + 2 \<le> 4294967295" using 1(7) by linarith
      moreover have "\<not> e dvd ?v" if e: "2 \<le> e" "e < ?d + 2" for e
      proof -
        consider "e < ?d" | "e = ?d" | "e = ?d + 1" using e(2) by linarith
        then show ?thesis
        proof cases
          case 3
          then have "even e" using 1(4) by simp
          then show ?thesis using 1(2) dvd_trans by blast
        qed (use 1(8) e ndv in auto)
      qed
      ultimately have "ple_prime_loop v (d + 2) \<longleftrightarrow> prime_nat ?v"
        using st lt 1(2,3,4,5) True le nd by (intro 1(1)) auto
      then show ?thesis using run nd by simp
    qed
  qed
qed

lemma ple_is_prime_correct:
  assumes "unat v < PRIME_BOUND"
  shows "ple_is_prime v \<longleftrightarrow> prime_nat (unat v)"
proof -
  consider "unat v < 2" | "unat v = 2" | "2 < unat v" "even (unat v)" | "2 < unat v" "odd (unat v)" by linarith
  then show ?thesis
  proof cases
    case 1
    then show ?thesis by (auto simp: ple_is_prime_def word_less_nat_alt prime_nat_def)
  next
    case 2
    then have "unat v = unat (2 :: u64)" by simp
    then have "v = 2" by (simp only: word_unat_eq_iff)
    then show ?thesis by (auto simp: ple_is_prime_def prime_nat_def)
  next
    case 3
    then have "unat (v mod 2) = 0" "v \<noteq> 2" by (auto simp: unat_mod_distrib)
    moreover have "2 \<in> {2..<unat v}" using 3 by simp
    ultimately have "v mod 2 = 0" "v \<noteq> 2" "\<not> prime_nat (unat v)" using 3 by (auto simp: unat_eq_zero prime_nat_def)
    then show ?thesis using 3 by (simp add: ple_is_prime_def)
  next
    case 4
    then have "unat (v mod 2) = 1" by (simp add: unat_mod_distrib odd_iff_mod_2_eq_one)
    then have "v mod 2 \<noteq> 0" by (metis unsigned_0 zero_neq_one)
    moreover have "ple_prime_loop v 3 \<longleftrightarrow> prime_nat (unat v)"
    proof (rule prime_loop_correct)
      fix e assume "2 \<le> e" "e < unat (3 :: u64)"
      then have "e = 2" by simp
      then show "\<not> e dvd unat v" using 4 by simp
    qed (use 4 assms in \<open>auto simp: odd_iff_mod_2_eq_one\<close>)
    ultimately show ?thesis using 4 by (simp add: ple_is_prime_def word_less_nat_alt)
  qed
qed


subsection \<open>Consecutive primes\<close>

lemma ple_next_prime_found:
  "\<exists>k. ple_next_prime n = n + of_nat k \<and> ple_is_prime (n + of_nat k) \<and> (\<forall>j < k. \<not> ple_is_prime (n + of_nat j))"
proof (induction n rule: ple_next_prime.induct)
  case (1 n)
  show ?case
  proof (cases "ple_is_prime n")
    case True
    then show ?thesis by (intro exI [of _ 0]) (simp add: ple_next_prime.simps)
  next
    case False
    obtain k where k: "ple_next_prime (n + 1) = n + 1 + of_nat k" "ple_is_prime (n + 1 + of_nat k)"
      "\<forall>j < k. \<not> ple_is_prime (n + 1 + of_nat j)" using 1(1) [OF False] by blast
    have "\<not> ple_is_prime (n + of_nat j)" if "j < Suc k" for j
      using that False k(3) by (cases j) (auto simp: add.assoc)
    then show ?thesis using k(1,2) False by (intro exI [of _ "Suc k"]) (simp add: ple_next_prime.simps add.assoc)
  qed
qed

lemma unat_add_below:
  "unat (n :: u64) + k < 18446744073709551616 \<Longrightarrow> unat (n + of_nat k) = unat n + k"
  using unat_of_nat_u64 [of k] by (simp add: unat_word_ariths)

text \<open>\<open>q\<close> is the first prime after \<open>p\<close>.\<close>

definition next_prime_is :: "nat \<Rightarrow> nat \<Rightarrow> bool" where
  "next_prime_is p q \<longleftrightarrow> p < q \<and> prime_nat q \<and> (\<forall>r \<in> {Suc p..<q}. \<not> prime_nat r)"

lemma ple_next_prime_is:
  assumes s: "unat s < PRIME_BOUND" and lt: "unat p < unat s"
  shows "s = ple_next_prime (p + 1) \<longleftrightarrow> next_prime_is (unat p) (unat s)"
proof -
  define j where "j = unat s - Suc (unat p)"
  have j: "Suc (unat p) + j = unat s" using lt by (simp add: j_def)
  have B: "PRIME_BOUND < 18446744073709551616" by (simp add: PRIME_BOUND_def)
  have p1: "unat (p + 1) = Suc (unat p)" using unat_add_below [of p 1] s lt B by simp
  have val: "unat (p + 1 + of_nat i) = Suc (unat p) + i" if "i \<le> j" for i
    using unat_add_below [of "p + 1" i] p1 that j s B by simp
  have pr: "ple_is_prime (p + 1 + of_nat i) \<longleftrightarrow> prime_nat (Suc (unat p) + i)" if "i \<le> j" for i
    using ple_is_prime_correct [of "p + 1 + of_nat i"] val [OF that] that j s by simp
  have sj: "s = p + 1 + of_nat j" using val [of j] j by (simp add: word_unat_eq_iff)
  obtain k where k: "ple_next_prime (p + 1) = p + 1 + of_nat k" "ple_is_prime (p + 1 + of_nat k)"
    "\<And>i. i < k \<Longrightarrow> \<not> ple_is_prime (p + 1 + of_nat i)" using ple_next_prime_found [of "p + 1"] by blast
  show ?thesis
  proof
    assume e: "s = ple_next_prime (p + 1)"
    then have ps: "ple_is_prime (p + 1 + of_nat j)" using k sj by simp
    then have "k \<le> j" using k(3) [of j] by (cases "j < k") auto
    then have kj: "k = j" using e k(1) val [of k] j by simp
    have "\<not> prime_nat r" if r: "r \<in> {Suc (unat p)..<unat s}" for r
    proof -
      define i where "i = r - Suc (unat p)"
      have i: "r = Suc (unat p) + i" "i < j" using r j by (auto simp: i_def)
      then show ?thesis using k(3) [of i] pr [of i] kj by simp
    qed
    then show "next_prime_is (unat p) (unat s)" using lt ps pr [of j] j by (simp add: next_prime_is_def)
  next
    assume n: "next_prime_is (unat p) (unat s)"
    then have "ple_is_prime (p + 1 + of_nat j)" using pr [of j] j by (simp add: next_prime_is_def)
    then have "k \<le> j" using k(3) [of j] by (cases "j < k") auto
    moreover have "\<not> k < j"
    proof
      assume kj: "k < j"
      then have "prime_nat (Suc (unat p) + k)" using pr [of k] k(2) by simp
      moreover have "Suc (unat p) + k \<in> {Suc (unat p)..<unat s}" using kj j by auto
      ultimately show False using n by (auto simp: next_prime_is_def)
    qed
    ultimately show "s = ple_next_prime (p + 1)" using k(1) sj by simp
  qed
qed

fun consecutive_primes :: "nat list \<Rightarrow> bool" where
  "consecutive_primes [] = False"
| "consecutive_primes [p] = prime_nat p"
| "consecutive_primes (p # q # ps) = (prime_nat p \<and> next_prime_is p q \<and> consecutive_primes (q # ps))"

lemma ple_rule_tail_primes:
  "list_all (\<lambda>s. unat s < PRIME_BOUND) (p # ss) \<Longrightarrow> prime_nat (unat p) \<Longrightarrow>
   sorted_wrt (<) (map unat (p # ss)) \<and> ple_rule_tail p ss \<longleftrightarrow> consecutive_primes (map unat (p # ss))"
proof (induction ss arbitrary: p)
  case (Cons s ss)
  show ?case
  proof (cases "unat p < unat s \<and> prime_nat (unat s)")
    case True
    have e: "s = ple_next_prime (p + 1) \<longleftrightarrow> next_prime_is (unat p) (unat s)"
      using Cons.prems True by (intro ple_next_prime_is) auto
    have srt: "sorted_wrt (<) (map unat (p # s # ss)) \<longleftrightarrow> sorted_wrt (<) (map unat (s # ss))"
      using True by (auto intro: less_trans)
    show ?thesis using Cons.IH [of s] Cons.prems True e srt by auto
  next
    case False
    have "\<not> next_prime_is (unat p) (unat s)" using False by (auto simp: next_prime_is_def)
    moreover have "\<not> (unat p < unat s \<and> s = ple_next_prime (p + 1))"
      using ple_next_prime_is [of s p] Cons.prems calculation by auto
    ultimately show ?thesis by auto
  qed
qed simp


lemma check_multipliers_ok:
  "list_all (\<lambda>m. 0 < unat m \<and> unat mt * unat m < 9223372036854775808) ms \<Longrightarrow> ple_check_multipliers mt i ms = None"
proof (induction ms arbitrary: i)
  case (Cons m ms)
  have "\<not> (mt \<noteq> 0 \<and> m > 0x7FFFFFFFFFFFFFFF div mt)"
  proof
    assume a: "mt \<noteq> 0 \<and> m > 0x7FFFFFFFFFFFFFFF div mt"
    then have "0 < unat mt" "9223372036854775807 div unat mt < unat m"
      by (simp_all add: unat_gt_0 word_less_nat_alt unat_div_distrib)
    then have "9223372036854775807 < unat m * unat mt" by (simp add: div_less_iff_less_mult)
    then show False using Cons.prems by (simp add: mult.commute)
  qed
  then show ?case using Cons by (auto simp: unat_gt_0)
qed simp

subsection \<open>Properties\<close>

text \<open>
  The multipliers the reference derives, for any seed, layer and vocabulary of at
  least one token, are odd and pass the overflow check the loader makes: a correctly converted
  checkpoint is never refused for its multipliers.\<close>

lemma ple_derived_multipliers_accepted:
  assumes "vocab_size \<noteq> 0"
  shows "ple_check_multipliers (ucast vocab_size - 1) 0 (ple_derive_multipliers ngram vocab_size ordinal seed) = None
    \<and> list_all (\<lambda>m. odd (unat m)) (ple_derive_multipliers ngram vocab_size ordinal seed)"
proof -
  let ?ms = "ple_derive_multipliers ngram vocab_size ordinal seed"
  have "0 < unat vocab_size" using assms by (simp add: unat_gt_0)
  then have mt: "unat (ucast vocab_size - 1 :: u64) = unat vocab_size - 1"
    by (subst unat_sub) (auto simp: word_le_nat_alt)
  have b: "odd (unat m) \<and> (unat vocab_size - 1) * unat m < 9223372036854775808" if "m \<in> set ?ms" for m
  proof -
    have "(unat vocab_size - 1) * unat m \<le> unat vocab_size * unat m" by (rule mult_le_mono1) simp
    moreover have "odd (unat m)" "unat vocab_size * unat m < 9223372036854775808"
      using ple_derived_bounds [OF that] by simp_all
    ultimately show ?thesis by linarith
  qed
  then have "list_all (\<lambda>m. 0 < unat m \<and> unat (ucast vocab_size - 1 :: u64) * unat m < 9223372036854775808) ?ms"
    unfolding mt list_all_iff by (auto intro: odd_pos)
  then show ?thesis using check_multipliers_ok b by (simp add: list_all_iff)
qed

text \<open>
  Property C31. The search for the next prime ends for every 64-bit start, at the first value
  the trial division accepts; and on sizes below the square of the largest odd 32-bit divisor, in
  ascending order, the vocabulary rule accepts exactly the runs of consecutive primes.\<close>

theorem ple_head_vocab_rule_decides:
  "(\<exists>k. ple_next_prime n = n + of_nat k \<and> ple_is_prime (n + of_nat k) \<and> (\<forall>j < k. \<not> ple_is_prime (n + of_nat j)))
   \<and> (list_all (\<lambda>s. unat s < PRIME_BOUND) sizes \<longrightarrow>
      (sorted_wrt (<) (map unat sizes) \<and> ple_head_vocab_follows_rule sizes \<longleftrightarrow> consecutive_primes (map unat sizes)))"
proof (intro conjI impI)
  assume b: "list_all (\<lambda>s. unat s < PRIME_BOUND) sizes"
  show "sorted_wrt (<) (map unat sizes) \<and> ple_head_vocab_follows_rule sizes \<longleftrightarrow> consecutive_primes (map unat sizes)"
  proof (cases sizes)
    case (Cons s ss)
    have p: "ple_is_prime s \<longleftrightarrow> prime_nat (unat s)" using b Cons by (simp add: ple_is_prime_correct)
    have "\<not> prime_nat (unat s) \<Longrightarrow> \<not> consecutive_primes (map unat (s # ss))" by (cases ss) auto
    then show ?thesis using Cons p b ple_rule_tail_primes [of s ss] by (auto simp: ple_head_vocab_follows_rule_def)
  qed (simp add: ple_head_vocab_follows_rule_def)
qed (rule ple_next_prime_found)

theorem ple_head_vocab_rule_decides_witness:
  "(\<exists>k. ple_next_prime 8 = 8 + of_nat k \<and> ple_is_prime (8 + of_nat k))
   \<and> ple_head_vocab_follows_rule [7, 11, 13]"
proof -
  have a: "list_all (\<lambda>s. unat s < PRIME_BOUND) [7, 11, 13 :: u64]" by (simp add: PRIME_BOUND_def)
  have "consecutive_primes [7, 11, 13]" by code_simp
  then have "consecutive_primes (map unat [7, 11, 13 :: u64])" by simp
  then show ?thesis using ple_head_vocab_rule_decides [of 8 "[7, 11, 13]"] a by blast
qed

end
