(* ===== verification/Ple_Dequant.thy ===== *)
theory Ple_Dequant
  imports Kv_Format
begin

text \<open>
  The IQ4_NL dequantization (\<open>ple_fp16_to_fp32\<close>, \<open>ds4_ple_dequant_iq4_nl\<close>). The conversion of the
  scale is on bit patterns; values are seen through \<open>f32\<close>. A scale has eleven significant bits
  and a code at most seven, so the product of the two is exact in binary32 and the model
  multiplies exactly; \<open>f32_representable\<close> is the proof obligation that goes with it.
\<close>

subsection \<open>binary16 to binary32\<close>

text \<open>\<open>__builtin_clz\<close>: the zeros above the highest set bit.\<close>

fun clz_from :: "nat \<Rightarrow> u32 \<Rightarrow> nat" where
  "clz_from 0 w = 0"
| "clz_from (Suc n) w = (if bit w n then 0 else Suc (clz_from n w))"

definition clz32 :: "u32 \<Rightarrow> nat" where
  "clz32 w = clz_from 32 w"

definition ple_fp16_to_fp32 :: "u16 \<Rightarrow> u32" where
  "ple_fp16_to_fp32 h =
     (let sign = push_bit 16 (ucast (h AND 0x8000) :: u32);
          exponent = (ucast (drop_bit 10 h) :: u32) AND 0x1F;
          mantissa = (ucast h :: u32) AND 0x3FF in
      if exponent = 0 then
        (if mantissa = 0 then sign
         else let e = clz32 mantissa - 21; m = push_bit e mantissa AND 0x3FF in
              sign OR push_bit 23 (of_nat (127 - 15 - e + 1)) OR push_bit 13 m)
      else if exponent = 0x1F then sign OR 0x7F800000 OR push_bit 13 mantissa
      else sign OR push_bit 23 (exponent + 127 - 15) OR push_bit 13 mantissa)"

text \<open>The value of a pattern, from the encoding of the two formats.\<close>

definition f32_sign :: "bool \<Rightarrow> rat" where
  "f32_sign s = (if s then - 1 else 1)"

definition f32_value :: "u32 \<Rightarrow> f32" where
  "f32_value b =
     (let e = unat (drop_bit 23 b AND 0xFF); m = unat (b AND 0x7FFFFF); s = f32_sign (bit b 31) in
      if e = 255 then (if m \<noteq> 0 then F32_NaN else if bit b 31 then F32_NInf else F32_PInf)
      else if e = 0 then F32 (s * of_nat m / 2 ^ 149)
      else F32 (s * of_nat (2 ^ 23 + m) * 2 ^ e / 2 ^ 150))"

definition f16_value :: "u16 \<Rightarrow> f32" where
  "f16_value h =
     (let e = unat (drop_bit 10 h AND 0x1F); m = unat (h AND 0x3FF); s = f32_sign (bit h 15) in
      if e = 31 then (if m \<noteq> 0 then F32_NaN else if bit h 15 then F32_NInf else F32_PInf)
      else if e = 0 then F32 (s * of_nat m / 2 ^ 24)
      else F32 (s * of_nat (2 ^ 10 + m) * 2 ^ e / 2 ^ 25))"

lemma clz_from_eq:
  "bit w k \<Longrightarrow> (\<And>j. k < j \<Longrightarrow> j < n \<Longrightarrow> \<not> bit w j) \<Longrightarrow> k < n \<Longrightarrow> clz_from n w = n - 1 - k"
proof (induction n)
  case (Suc n)
  show ?case
  proof (cases "k = n")
    case False
    then have "k < n" using Suc.prems(3) by simp
    moreover have "\<not> bit w n" using Suc.prems(2) [of n] \<open>k < n\<close> by simp
    ultimately show ?thesis using Suc by auto
  qed (use Suc.prems in simp)
qed simp

lemma clz32_eq:
  assumes "2 ^ k \<le> unat w" "unat w < 2 ^ Suc k" "k < 32"
  shows "clz32 w = 31 - k"
proof -
  have b: "bit w j \<longleftrightarrow> odd (unat w div 2 ^ j)" if "j < 32" for j
    using that bit_unsigned_iff [of w j, where ?'a = nat] by (simp add: bit_iff_odd)
  have "unat w div 2 ^ k = 1" using assms by (intro div_nat_eqI) auto
  then have "bit w k" using b assms(3) by simp
  moreover have "\<not> bit w j" if "k < j" "j < 32" for j
  proof -
    have "unat w < 2 ^ j" using assms(2) that(1) power_increasing [of "Suc k" j "2 :: nat"] by simp
    then show ?thesis using b [OF that(2)] by simp
  qed
  ultimately show ?thesis using clz_from_eq [of w k 32] assms(3) by (simp add: clz32_def)
qed

text \<open>A pattern put together from its three fields is taken apart into them.\<close>

lemma f32_fields:
  fixes E M :: u32 and h :: u16
  assumes "take_bit 8 E = E" "take_bit 10 M = M"
  defines "b \<equiv> push_bit 16 (ucast (h AND 0x8000)) OR push_bit 23 E OR push_bit 13 M"
  shows "drop_bit 23 b AND 0xFF = E" "b AND 0x7FFFFF = push_bit 13 M" "bit b 31 = bit h 15"
proof -
  have E: "bit E n \<Longrightarrow> n < 8" for n using assms(1) by (metis bit_take_bit_iff)
  have M: "bit M n \<Longrightarrow> n < 10" for n using assms(2) by (metis bit_take_bit_iff)
  have m8: "(0xFF :: u32) = mask 8" and m23: "(0x7FFFFF :: u32) = mask 23" by (simp_all add: mask_eq_exp_minus_1)
  have p': "bit (2 ^ 15 :: nat) n \<longleftrightarrow> n = 15" for n by (simp only: bit_exp_iff) auto
  have p'': "bit (2 ^ 15 :: int) n \<longleftrightarrow> n = 15" for n by (simp only: bit_exp_iff) auto
  have h: "bit (32768 :: nat) n \<longleftrightarrow> n = 15" "bit (32768 :: int) n \<longleftrightarrow> n = 15" for n using p' [of n] p'' [of n] by simp_all
  show "drop_bit 23 b AND 0xFF = E" unfolding m8
    by (rule bit_word_eqI) (auto simp: b_def bit_simps h dest: E M)
  show "b AND 0x7FFFFF = push_bit 13 M" unfolding m23
    by (rule bit_word_eqI) (auto simp: b_def bit_simps h dest: E M)
  show "bit b 31 = bit h 15"
    by (auto simp: b_def bit_simps h dest: E M)
qed


lemma f32_value_fields:
  fixes E M :: u32 and h :: u16
  assumes E: "unat E < 256" and M: "unat M < 1024"
  shows "f32_value (push_bit 16 (ucast (h AND 0x8000)) OR push_bit 23 E OR push_bit 13 M) =
    (if unat E = 255 then (if unat M \<noteq> 0 then F32_NaN else if bit h 15 then F32_NInf else F32_PInf)
     else if unat E = 0 then F32 (f32_sign (bit h 15) * of_nat (unat M * 8192) / 2 ^ 149)
     else F32 (f32_sign (bit h 15) * of_nat (2 ^ 23 + unat M * 8192) * 2 ^ unat E / 2 ^ 150))"
proof -
  have t: "take_bit 8 E = E" "take_bit 10 M = M"
    using E M by (simp_all add: word_unat_eq_iff unsigned_take_bit_eq take_bit_nat_eq_self)
  have m: "unat (push_bit 13 M) = unat M * 8192"
    using M by (simp add: push_bit_eq_mult unat_word_ariths)
  show ?thesis unfolding f32_value_def f32_fields [OF t] m by (auto simp: Let_def)
qed

lemma fp16_scale_fields:
  fixes h :: u16
  shows "(ucast (drop_bit 10 h) :: u32) AND 0x1F = ucast (drop_bit 10 h AND 0x1F)"
    "(ucast h :: u32) AND 0x3FF = ucast (h AND 0x3FF)"
    "unat (drop_bit 10 h AND 0x1F) < 32" "unat (h AND 0x3FF) < 1024"
proof -
  have m5: "(0x1F :: u32) = mask 5" "(0x1F :: u16) = mask 5" "(0x3FF :: u32) = mask 10" "(0x3FF :: u16) = mask 10"
    by (simp_all add: mask_eq_exp_minus_1)
  show "(ucast (drop_bit 10 h) :: u32) AND 0x1F = ucast (drop_bit 10 h AND 0x1F)"
    "(ucast h :: u32) AND 0x3FF = ucast (h AND 0x3FF)"
    unfolding m5 by (rule bit_word_eqI; auto simp: bit_simps)+
  show "unat (drop_bit 10 h AND 0x1F) < 32" "unat (h AND 0x3FF) < 1024"
    unfolding m5 take_bit_eq_mask [symmetric] by (simp_all add: unsigned_take_bit_eq take_bit_nat_less_exp [of 5, simplified] take_bit_nat_less_exp [of 10, simplified])
qed

lemma ple_fp16_subnormal:
  fixes w :: u32
  assumes "0 < unat w" "unat w < 1024"
  obtains e where "clz32 w - 21 = e" "1 \<le> e" "e \<le> 10" "unat (push_bit e w AND 0x3FF) = unat w * 2 ^ e - 1024"
    "1024 \<le> unat w * 2 ^ e" "unat w * 2 ^ e < 2048"
proof -
  obtain k where k: "2 ^ k \<le> unat w" "unat w < 2 ^ Suc k"
    using ex_power_ivl1 [of 2 "unat w"] assms(1) by auto
  have "k < 10"
  proof (rule ccontr)
    assume "\<not> k < 10"
    then have "(2 :: nat) ^ 10 \<le> 2 ^ k" by (intro power_increasing) auto
    with k assms(2) show False by simp
  qed
  define e where "e = 10 - k"
  have e: "1 \<le> e" "e \<le> 10" "k + e = 10" using \<open>k < 10\<close> by (simp_all add: e_def)
  have c: "clz32 w - 21 = e" using clz32_eq [OF k] \<open>k < 10\<close> by (simp add: e_def)
  have "2 ^ k * 2 ^ e \<le> unat w * 2 ^ e" using k(1) by (rule mult_le_mono1)
  moreover have p: "(2 :: nat) ^ k * 2 ^ e = 1024" unfolding power_add [symmetric] e(3) by simp
  ultimately have lo: "1024 \<le> unat w * 2 ^ e" by simp
  have "unat w * 2 ^ e < 2 ^ Suc k * 2 ^ e" using k(2) by (intro mult_strict_right_mono) auto
  also have "\<dots> = 2 * (2 ^ k * 2 ^ e)" by simp
  finally have hi: "unat w * 2 ^ e < 2048" unfolding p by simp
  have u: "unat (push_bit e w) = unat w * 2 ^ e"
    using hi unfolding unsigned_push_bit_eq by (simp add: push_bit_eq_mult take_bit_nat_eq_self)
  have m10: "(0x3FF :: u32) = mask 10" by (simp add: mask_eq_exp_minus_1)
  have "unat (push_bit e w AND 0x3FF) = unat w * 2 ^ e mod 1024"
    unfolding m10 take_bit_eq_mask [symmetric] unsigned_take_bit_eq u by (simp add: take_bit_eq_mod)
  also have "\<dots> = unat w * 2 ^ e - 1024" using lo hi by (simp add: le_mod_geq)
  finally show thesis using that c e lo hi by blast
qed


lemma ple_fp16_to_fp32_value: "f32_value (ple_fp16_to_fp32 h) = f16_value h"
proof -
  define X where "X = drop_bit 10 h AND 0x1F"
  define Y where "Y = h AND 0x3FF"
  define S :: u32 where "S = push_bit 16 (ucast (h AND 0x8000))"
  have b: "unat X < 32" "unat Y < 1024" using fp16_scale_fields(3,4) [of h] by (simp_all add: X_def Y_def)
  have ux: "unat (ucast X :: u32) = unat X" "unat (ucast Y :: u32) = unat Y"
    using b by (simp_all add: unsigned_ucast_eq take_bit_nat_eq_self)
  have run: "ple_fp16_to_fp32 h =
      (if ucast X = (0 :: u32) then
        (if ucast Y = (0 :: u32) then S
         else let e = clz32 (ucast Y) - 21; m = push_bit e (ucast Y) AND 0x3FF in
              S OR push_bit 23 (of_nat (127 - 15 - e + 1)) OR push_bit 13 m)
      else if ucast X = (0x1F :: u32) then S OR 0x7F800000 OR push_bit 13 (ucast Y)
      else S OR push_bit 23 (ucast X + 127 - 15) OR push_bit 13 (ucast Y))"
    unfolding ple_fp16_to_fp32_def fp16_scale_fields(1,2) X_def Y_def S_def Let_def by (rule refl)
  have val: "f16_value h = (if unat X = 31 then (if unat Y \<noteq> 0 then F32_NaN else if bit h 15 then F32_NInf else F32_PInf)
      else if unat X = 0 then F32 (f32_sign (bit h 15) * of_nat (unat Y) / 2 ^ 24)
      else F32 (f32_sign (bit h 15) * of_nat (2 ^ 10 + unat Y) * 2 ^ unat X / 2 ^ 25))"
    unfolding f16_value_def X_def Y_def Let_def by (rule refl)
  have z: "ucast X = (0 :: u32) \<longleftrightarrow> unat X = 0" "ucast Y = (0 :: u32) \<longleftrightarrow> unat Y = 0"
    "ucast X = (0x1F :: u32) \<longleftrightarrow> unat X = 31"
    unfolding word_unat_eq_iff ux by simp_all
  consider (zero) "unat X = 0" "unat Y = 0" | (sub) "unat X = 0" "unat Y \<noteq> 0" | (inf) "unat X = 31"
    | (norm) "unat X \<noteq> 0" "unat X \<noteq> 31" by blast
  then show ?thesis
  proof cases
    case zero
    have "ple_fp16_to_fp32 h = S OR push_bit 23 0 OR push_bit 13 0" using zero run z by simp
    then show ?thesis using zero f32_value_fields [of 0 0 h] by (simp add: S_def val)
  next
    case inf
    have "push_bit 23 (0xFF :: u32) = 0x7F800000" by simp
    then have "ple_fp16_to_fp32 h = S OR push_bit 23 0xFF OR push_bit 13 (ucast Y)" using inf run z by simp
    then show ?thesis using inf b ux f32_value_fields [of "0xFF" "ucast Y" h] by (simp add: S_def val)
  next
    case norm
    have E: "unat (ucast X + 127 - 15 :: u32) = unat X + 112"
    proof -
      have "ucast X + 127 - 15 = (ucast X + 112 :: u32)" by simp
      then show ?thesis using ux b by (simp add: unat_word_ariths)
    qed
    have "ple_fp16_to_fp32 h = S OR push_bit 23 (ucast X + 127 - 15) OR push_bit 13 (ucast Y)"
      using norm run z by simp
    then have "f32_value (ple_fp16_to_fp32 h) =
        F32 (f32_sign (bit h 15) * of_nat (2 ^ 23 + unat Y * 8192) * 2 ^ (unat X + 112) / 2 ^ 150)"
      using norm b ux E f32_value_fields [of "ucast X + 127 - 15" "ucast Y" h] by (simp add: S_def)
    also have "\<dots> = F32 (f32_sign (bit h 15) * of_nat (2 ^ 10 + unat Y) * 2 ^ unat X / 2 ^ 25)"
    proof -
      have "(of_nat (2 ^ 23 + unat Y * 8192) :: rat) = of_nat (2 ^ 10 + unat Y) * 8192" by simp
      then show ?thesis by (simp add: power_add)
    qed
    finally show ?thesis using norm val by simp
  next
    case sub
    have w: "0 < unat (ucast Y :: u32)" "unat (ucast Y :: u32) < 1024" using sub b ux by simp_all
    obtain e where e: "clz32 (ucast Y) - 21 = e" "1 \<le> e" "e \<le> 10"
      "unat (push_bit e (ucast Y :: u32) AND 0x3FF) = unat Y * 2 ^ e - 1024" "1024 \<le> unat Y * 2 ^ e" "unat Y * 2 ^ e < 2048"
      using ple_fp16_subnormal [OF w] ux by metis
    let ?M = "push_bit e (ucast Y :: u32) AND 0x3FF"
    have M: "unat ?M < 1024" using e by simp
    have E: "unat (of_nat (127 - 15 - e + 1) :: u32) = 113 - e" using e by (subst unat_of_nat_u32) auto
    have "ple_fp16_to_fp32 h = S OR push_bit 23 (of_nat (127 - 15 - e + 1)) OR push_bit 13 ?M"
      using sub run z e by (simp add: Let_def)
    then have "f32_value (ple_fp16_to_fp32 h) =
        F32 (f32_sign (bit h 15) * of_nat (2 ^ 23 + unat ?M * 8192) * 2 ^ (113 - e) / 2 ^ 150)"
      using e M E f32_value_fields [of "of_nat (127 - 15 - e + 1)" ?M h] by (simp add: S_def)
    also have "2 ^ 23 + unat ?M * 8192 = unat Y * 2 ^ e * 8192" using e by simp
    also have "f32_sign (bit h 15) * of_nat (unat Y * 2 ^ e * 8192) * 2 ^ (113 - e) / 2 ^ 150 =
        f32_sign (bit h 15) * of_nat (unat Y) / 2 ^ 24"
    proof -
      have "(2 :: rat) ^ e * 2 ^ (113 - e) = 2 ^ 113" unfolding power_add [symmetric] using e by simp
      then have "of_nat (unat Y * 2 ^ e * 8192) * 2 ^ (113 - e) = (of_nat (unat Y) * 8192 * 2 ^ 113 :: rat)"
        by (simp add: mult.assoc mult.left_commute)
      then have "f32_sign (bit h 15) * of_nat (unat Y * 2 ^ e * 8192) * 2 ^ (113 - e) =
          f32_sign (bit h 15) * (of_nat (unat Y) * 8192 * 2 ^ 113)" by (simp only: mult.assoc)
      then show ?thesis by auto
    qed
    finally show ?thesis using sub val by simp
  qed
qed


subsection \<open>Blocks\<close>

definition IQ4_NL_BLOCK_ELEMS :: nat where "IQ4_NL_BLOCK_ELEMS = 32"
definition IQ4_NL_BLOCK_BYTES :: nat where "IQ4_NL_BLOCK_BYTES = 18"

definition ple_kvalues_iq4nl :: "int list" where
  "ple_kvalues_iq4nl = [-127, -104, -83, -65, -49, -35, -22, -10, 1, 13, 25, 38, 53, 69, 89, 113]"

text \<open>The table of the high nibbles, sixteen equal entries per row as it is written out.\<close>

definition ple_kvalues_iq4nl_hi :: "int list" where
  "ple_kvalues_iq4nl_hi = concat (map (replicate 16) ple_kvalues_iq4nl)"

text \<open>\<open>d * (float)k\<close> for a scale and a non-zero code.\<close>

fun f32_scale :: "f32 \<Rightarrow> int \<Rightarrow> f32" where
  "f32_scale (F32 r) k = F32 (r * of_int k)"
| "f32_scale F32_PInf k = (if k < 0 then F32_NInf else F32_PInf)"
| "f32_scale F32_NInf k = (if k < 0 then F32_PInf else F32_NInf)"
| "f32_scale F32_NaN k = F32_NaN"

text \<open>One pass of the loop unrolled by two: four stores into the block's row.\<close>

definition ple_dequant_pair :: "f32 \<Rightarrow> bytes \<Rightarrow> f32 list \<Rightarrow> nat \<Rightarrow> f32 list" where
  "ple_dequant_pair d qs y j =
     (let q0 = qs ! j; q1 = qs ! (j + 1) in
      y[j := f32_scale d (ple_kvalues_iq4nl ! unat (q0 AND 0x0F)),
        j + 1 := f32_scale d (ple_kvalues_iq4nl ! unat (q1 AND 0x0F)),
        j + 16 := f32_scale d (ple_kvalues_iq4nl_hi ! unat q0),
        j + 17 := f32_scale d (ple_kvalues_iq4nl_hi ! unat q1)])"

definition ple_half_at :: "bytes \<Rightarrow> u16" where
  "ple_half_at p = ucast (p ! 0) OR push_bit 8 (ucast (p ! 1))"

text \<open>A block into its 32 values; \<open>y\<close> is what the destination held before.\<close>

definition ple_dequant_block :: "bytes \<Rightarrow> f32 list \<Rightarrow> f32 list" where
  "ple_dequant_block p y =
     foldl (ple_dequant_pair (f32_value (ple_fp16_to_fp32 (ple_half_at p))) (drop 2 p)) y [0, 2, 4, 6, 8, 10, 12, 14]"

fun ple_dequant_iq4_nl :: "bytes \<Rightarrow> nat \<Rightarrow> f32 list \<Rightarrow> f32 list" where
  "ple_dequant_iq4_nl p 0 out = []"
| "ple_dequant_iq4_nl p (Suc n) out =
     ple_dequant_block p (take IQ4_NL_BLOCK_ELEMS out)
     @ ple_dequant_iq4_nl (drop IQ4_NL_BLOCK_BYTES p) n (drop IQ4_NL_BLOCK_ELEMS out)"

text \<open>The reference of ggml: low nibbles first, then high nibbles, one code at a time.\<close>

definition ref_dequant_block :: "bytes \<Rightarrow> f32 list" where
  "ref_dequant_block p =
     (let d = f16_value (ple_half_at p); qs = take 16 (drop 2 p) in
      map (\<lambda>q. f32_scale d (ple_kvalues_iq4nl ! (unat q mod 16))) qs
      @ map (\<lambda>q. f32_scale d (ple_kvalues_iq4nl ! (unat q div 16))) qs)"

fun ref_dequant :: "bytes \<Rightarrow> nat \<Rightarrow> f32 list" where
  "ref_dequant p 0 = []"
| "ref_dequant p (Suc n) = ref_dequant_block p @ ref_dequant (drop IQ4_NL_BLOCK_BYTES p) n"

lemma concat_replicate_nth:
  "i < n * length xs \<Longrightarrow> concat (map (replicate n) xs) ! i = xs ! (i div n)"
proof (induction xs arbitrary: i)
  case (Cons x xs)
  show ?case
  proof (cases "i < n")
    case False
    then have n: "0 < n" and "i - n < n * length xs" using Cons.prems by (auto intro: gr0I)
    then show ?thesis using False Cons.IH [of "i - n"] by (simp add: nth_append le_div_geq)
  qed (simp add: nth_append)
qed simp

lemma kvalues_hi: "ple_kvalues_iq4nl_hi ! unat (q :: byte) = ple_kvalues_iq4nl ! (unat q div 16)"
proof -
  have "unat q < 256" using unsigned_less [of q, where ?'a = nat] by simp
  then show ?thesis unfolding ple_kvalues_iq4nl_hi_def
    by (intro concat_replicate_nth) (simp add: ple_kvalues_iq4nl_def)
qed

lemma low_nibble: "unat (q AND 0x0F :: byte) = unat q mod 16"
proof -
  have m: "(0x0F :: byte) = mask 4" by (simp add: mask_eq_exp_minus_1)
  show ?thesis unfolding m take_bit_eq_mask [symmetric] unsigned_take_bit_eq by (simp add: take_bit_eq_mod)
qed

definition dequant_at :: "f32 \<Rightarrow> bytes \<Rightarrow> nat \<Rightarrow> f32" where
  "dequant_at d qs i = (if i < 16 then f32_scale d (ple_kvalues_iq4nl ! (unat (qs ! i) mod 16))
     else f32_scale d (ple_kvalues_iq4nl ! (unat (qs ! (i - 16)) div 16)))"

lemma ple_dequant_pair_at:
  "ple_dequant_pair d qs y j = y[j := dequant_at d qs j, j + 1 := dequant_at d qs (j + 1),
     j + 16 := dequant_at d qs (j + 16), j + 17 := dequant_at d qs (j + 17)]" if "j + 1 < 16"
  using that by (simp add: ple_dequant_pair_def dequant_at_def Let_def low_nibble kvalues_hi)

lemma ple_dequant_pairs:
  "length y = 32 \<Longrightarrow> n \<le> 8 \<Longrightarrow> foldl (ple_dequant_pair d qs) y (map ((*) 2) [0..<n]) =
     map (\<lambda>i. if i < 2 * n \<or> 16 \<le> i \<and> i < 16 + 2 * n then dequant_at d qs i else y ! i) [0..<32]"
proof (induction n)
  case 0
  then show ?case by (auto intro!: nth_equalityI)
next
  case (Suc n)
  let ?g = "\<lambda>n i. if i < 2 * n \<or> 16 \<le> i \<and> i < 16 + 2 * n then dequant_at d qs i else y ! i"
  have b: "2 * n + 1 < 16" using Suc.prems by simp
  have "foldl (ple_dequant_pair d qs) y (map ((*) 2) [0..<Suc n]) = ple_dequant_pair d qs (map (?g n) [0..<32]) (2 * n)"
    using Suc by simp
  also have "\<dots> = map (?g (Suc n)) [0..<32]"
    unfolding ple_dequant_pair_at [OF b] using b
    by (intro nth_equalityI) (auto simp: nth_list_update less_Suc_eq)
  finally show ?case .
qed

lemma ple_dequant_block_ref:
  assumes "length p \<ge> 18" "length y = 32"
  shows "ple_dequant_block p y = ref_dequant_block p"
proof -
  let ?d = "f16_value (ple_half_at p)" and ?qs = "drop 2 p"
  have js: "[0, 2, 4, 6, 8, 10, 12, 14] = map ((*) 2) [0..<8 :: nat]" by (simp add: upt_rec)
  have "ple_dequant_block p y = map (dequant_at ?d ?qs) [0..<32]"
    unfolding ple_dequant_block_def ple_fp16_to_fp32_value js ple_dequant_pairs [OF assms(2) le_refl]
    by (intro map_cong) auto
  also have "\<dots> = map (dequant_at ?d ?qs) [0..<16] @ map (\<lambda>i. dequant_at ?d ?qs (i + 16)) [0..<16]"
    by (rule nth_equalityI) (auto simp: nth_append)
  also have "\<dots> = ref_dequant_block p"
    unfolding ref_dequant_block_def Let_def using assms(1)
    by (intro arg_cong2 [where f = append] nth_equalityI) (auto simp: dequant_at_def)
  finally show ?thesis .
qed

lemma ple_dequant_ref:
  "length p \<ge> n * 18 \<Longrightarrow> length out \<ge> n * 32 \<Longrightarrow>
   ple_dequant_iq4_nl p n out = ref_dequant p n \<and> length (ple_dequant_iq4_nl p n out) = n * 32"
proof (induction n arbitrary: p out)
  case (Suc n)
  have b: "ple_dequant_block p (take 32 out) = ref_dequant_block p"
    using Suc.prems by (intro ple_dequant_block_ref) auto
  have "length (ref_dequant_block p) = 32" using Suc.prems by (simp add: ref_dequant_block_def Let_def)
  moreover have "ple_dequant_iq4_nl (drop 18 p) n (drop 32 out) = ref_dequant (drop 18 p) n
      \<and> length (ref_dequant (drop 18 p) n) = n * 32"
  proof -
    have "n * 18 \<le> length (drop 18 p)" "n * 32 \<le> length (drop 32 out)" using Suc.prems by simp_all
    from Suc.IH [OF this] show ?thesis by metis
  qed
  ultimately show ?case using b by (simp add: IQ4_NL_BLOCK_ELEMS_def IQ4_NL_BLOCK_BYTES_def)
qed simp

subsection \<open>The products are exact\<close>

text \<open>A value binary32 holds without rounding: 24 significant bits above the least exponent.\<close>

definition f32_representable :: "rat \<Rightarrow> bool" where
  "f32_representable r \<longleftrightarrow> (\<exists>n q :: nat. n < 2 ^ 24 \<and> q \<le> 253 \<and> \<bar>r\<bar> = of_nat n * 2 ^ q / 2 ^ 149)"

lemma f16_finite:
  assumes "f16_value h = F32 r"
  obtains a q :: nat where "a < 2048" "q \<le> 30" "\<bar>r\<bar> = of_nat a * 2 ^ q / 2 ^ 25"
proof -
  let ?e = "unat (drop_bit 10 h AND 0x1F)" and ?m = "unat (h AND 0x3FF)"
  have b: "?e < 32" "?m < 1024" using fp16_scale_fields(3,4) [of h] by simp_all
  have s: "\<bar>f32_sign x\<bar> = 1" for x by (simp add: f32_sign_def)
  consider (sub) "?e = 0" "r = f32_sign (bit h 15) * of_nat ?m / 2 ^ 24"
    | (norm) "?e \<le> 30" "r = f32_sign (bit h 15) * of_nat (2 ^ 10 + ?m) * 2 ^ ?e / 2 ^ 25"
    using assms b by (auto simp: f16_value_def Let_def split: if_splits)
  then show thesis
  proof cases
    case sub
    have "\<bar>r\<bar> = of_nat ?m / 2 ^ 24" unfolding sub(2) abs_divide abs_mult s by (simp del: of_nat_unat)
    then have "\<bar>r\<bar> = of_nat ?m * 2 ^ 1 / 2 ^ 25" by simp
    then show thesis using that [of ?m 1] b by simp
  next
    case norm
    have "\<bar>r\<bar> = of_nat (2 ^ 10 + ?m) * 2 ^ ?e / 2 ^ 25"
      unfolding norm(2) abs_divide abs_mult s by (simp del: of_nat_unat of_nat_add)
    then show thesis using that [of "2 ^ 10 + ?m" ?e] norm b by simp
  qed
qed

lemma scale_representable:
  assumes "f16_value h = F32 r" "\<bar>k\<bar> \<le> 127"
  shows "f32_representable (r * of_int k)"
proof -
  obtain a q where a: "a < 2048" "q \<le> 30" "\<bar>r\<bar> = of_nat a * 2 ^ q / 2 ^ 25" using f16_finite [OF assms(1)] .
  have "a * nat \<bar>k\<bar> \<le> 2047 * 127" using a(1) assms(2) by (intro mult_le_mono) auto
  then have n: "a * nat \<bar>k\<bar> < 2 ^ 24" by simp
  have "\<bar>r * of_int k\<bar> = of_nat (a * nat \<bar>k\<bar>) * 2 ^ (q + 124) / 2 ^ 149"
    by (simp add: abs_mult a(3) power_add field_simps flip: of_int_abs)
  then show ?thesis unfolding f32_representable_def using n a(2)
    by (intro exI [of _ "a * nat \<bar>k\<bar>"] exI [of _ "q + 124"]) auto
qed


subsection \<open>Properties\<close>

text \<open>
  Property C32. The dequantization of any blocks is ggml's reference: the branch-free conversion
  of the scale has the value of the half on all 65536 patterns (subnormals, infinities and NaNs
  included), the unrolled loop with its table of high nibbles stores the low and the high nibbles
  where the reference does, whatever the destination held, and every finite product is a value
  binary32 represents exactly.\<close>

theorem ple_dequant_exact:
  assumes "length p \<ge> n * 18" "length out \<ge> n * 32"
  shows "ple_dequant_iq4_nl p n out = ref_dequant p n
    \<and> length (ple_dequant_iq4_nl p n out) = n * 32
    \<and> f32_value (ple_fp16_to_fp32 h) = f16_value h
    \<and> (case f16_value h of F32 r \<Rightarrow> list_all (\<lambda>k. f32_representable (r * of_int k)) ple_kvalues_iq4nl | _ \<Rightarrow> True)"
proof -
  have "list_all (\<lambda>k. \<bar>k\<bar> \<le> 127) ple_kvalues_iq4nl" by (simp add: ple_kvalues_iq4nl_def)
  then have "list_all (\<lambda>k. f32_representable (r * of_int k)) ple_kvalues_iq4nl" if "f16_value h = F32 r" for r
    using scale_representable [OF that] by (auto simp: list_all_iff)
  then show ?thesis using ple_dequant_ref [OF assms] ple_fp16_to_fp32_value by (auto split: f32.splits)
qed

theorem ple_dequant_exact_witness:
  "ple_dequant_iq4_nl (replicate 18 0x3C) 1 (replicate 32 F32_NaN) = ref_dequant (replicate 18 0x3C) 1
    \<and> f32_value (ple_fp16_to_fp32 0x3C00) = f16_value 0x3C00"
  using ple_dequant_exact [of 1 "replicate 18 0x3C" "replicate 32 F32_NaN" "0x3C00"]
  by (simp del: ple_dequant_iq4_nl.simps ref_dequant.simps)

end
