(* ===== verification/Ple_Table.thy ===== *)
theory Ple_Table
  imports Ple_Rule Ple_Dequant
begin

text \<open>
  The memory-mapped n-gram table and its hot set (\<open>ds4_ple_table\<close> and its operations): a fixed
  arena of dequantized rows, a doubly linked list in order of use and hash buckets chained
  through the slots. Links are \<open>int32_t\<close> slot numbers with \<open>-1\<close> for none. The two walks along a
  bucket chain are \<open>partial_function\<close>s, so that a chain with a cycle would show as \<open>None\<close>.
\<close>

subsection \<open>State\<close>

record ple_table =
  tb_constants :: ple_constants
  tb_map :: bytes
  tb_offset :: u64
  tb_quant_row_bytes :: nat
  tb_row_floats :: nat
  tb_capacity :: nat
  tb_buckets :: nat
  tb_arena :: "f32 list list"
  tb_slot_row :: "u64 list"
  tb_lru_prev :: "int list"
  tb_lru_next :: "int list"
  tb_slot_chain :: "int list"
  tb_bucket_head :: "int list"
  tb_head :: int
  tb_tail :: int
  tb_used :: nat
  tb_ceiling :: nat
  tb_resident :: nat
  tb_hits :: u64
  tb_misses :: u64
  tb_evictions :: u64

subsection \<open>The list in order of use\<close>

definition ple_lru_detach :: "ple_table \<Rightarrow> nat \<Rightarrow> ple_table" where
  "ple_lru_detach t slot =
     (let p = tb_lru_prev t ! slot; n = tb_lru_next t ! slot;
          t1 = (if p \<noteq> -1 then t\<lparr> tb_lru_next := (tb_lru_next t)[nat p := n] \<rparr>
                else if tb_head t = int slot then t\<lparr> tb_head := n \<rparr> else t);
          t2 = (if n \<noteq> -1 then t1\<lparr> tb_lru_prev := (tb_lru_prev t1)[nat n := p] \<rparr>
                else if tb_tail t1 = int slot then t1\<lparr> tb_tail := p \<rparr> else t1)
      in t2\<lparr> tb_lru_prev := (tb_lru_prev t2)[slot := -1], tb_lru_next := (tb_lru_next t2)[slot := -1] \<rparr>)"

definition ple_lru_push_front :: "ple_table \<Rightarrow> nat \<Rightarrow> ple_table" where
  "ple_lru_push_front t slot =
     (let t1 = t\<lparr> tb_lru_prev := (tb_lru_prev t)[slot := -1], tb_lru_next := (tb_lru_next t)[slot := tb_head t] \<rparr>;
          t2 = (if tb_head t1 \<noteq> -1 then t1\<lparr> tb_lru_prev := (tb_lru_prev t1)[nat (tb_head t1) := int slot] \<rparr> else t1);
          t3 = t2\<lparr> tb_head := int slot \<rparr>
      in if tb_tail t3 = -1 then t3\<lparr> tb_tail := int slot \<rparr> else t3)"

subsection \<open>The buckets\<close>

definition ple_bucket :: "ple_table \<Rightarrow> u64 \<Rightarrow> nat" where
  "ple_bucket t row = unat (ple_splitmix64 row AND (of_nat (tb_buckets t) - 1))"

partial_function (option) ple_chain_find :: "ple_table \<Rightarrow> u64 \<Rightarrow> int \<Rightarrow> int option" where
  "ple_chain_find t row s =
     (if s = -1 then Some (-1)
      else if tb_slot_row t ! nat s = row then Some s
      else ple_chain_find t row (tb_slot_chain t ! nat s))"

definition ple_lookup :: "ple_table \<Rightarrow> u64 \<Rightarrow> int option" where
  "ple_lookup t row =
     (if tb_buckets t = 0 then Some (-1) else ple_chain_find t row (tb_bucket_head t ! ple_bucket t row))"

text \<open>The rest of the unlink walk, once the link looked at is \<open>slot_chain[s]\<close>.\<close>

partial_function (option) ple_chain_unlink :: "ple_table \<Rightarrow> nat \<Rightarrow> nat \<Rightarrow> ple_table option" where
  "ple_chain_unlink t slot s =
     (let nx = tb_slot_chain t ! s in
      if nx = -1 then Some t
      else if nx = int slot then Some (t\<lparr> tb_slot_chain := (tb_slot_chain t)[s := tb_slot_chain t ! slot] \<rparr>)
      else ple_chain_unlink t slot (nat nx))"

definition ple_chain_remove :: "ple_table \<Rightarrow> nat \<Rightarrow> ple_table option" where
  "ple_chain_remove t slot =
     (let b = ple_bucket t (tb_slot_row t ! slot); first = tb_bucket_head t ! b in
      map_option (\<lambda>t'. t'\<lparr> tb_slot_chain := (tb_slot_chain t')[slot := -1] \<rparr>)
        (if first = -1 then Some t
         else if first = int slot
         then Some (t\<lparr> tb_bucket_head := (tb_bucket_head t)[b := tb_slot_chain t ! slot] \<rparr>)
         else ple_chain_unlink t slot (nat first)))"

definition ple_chain_insert :: "ple_table \<Rightarrow> nat \<Rightarrow> ple_table" where
  "ple_chain_insert t slot =
     (let b = ple_bucket t (tb_slot_row t ! slot) in
      t\<lparr> tb_slot_chain := (tb_slot_chain t)[slot := tb_bucket_head t ! b],
         tb_bucket_head := (tb_bucket_head t)[b := int slot] \<rparr>)"

subsection \<open>Rows\<close>

text \<open>The address of a row, relative to the mapping; the product is a 64-bit one.\<close>

definition ple_row_address :: "ple_table \<Rightarrow> u64 \<Rightarrow> nat" where
  "ple_row_address t row = unat (tb_offset t) + unat (row * of_nat (tb_quant_row_bytes t))"

definition ple_read_row :: "ple_table \<Rightarrow> u64 \<Rightarrow> f32 list \<Rightarrow> f32 list" where
  "ple_read_row t row dst =
     ple_dequant_iq4_nl (drop (ple_row_address t row) (tb_map t)) (unat (c_row_dim (tb_constants t)) div 32) dst"

text \<open>
  One id of \<open>ds4_ple_table_rows\<close>: the row and the table after it. \<open>dst\<close> is what the output row
  held. The slot of a hit moves to the front, a miss takes a free slot or the one used longest ago.
\<close>

definition ple_take_slot :: "ple_table \<Rightarrow> (nat \<times> ple_table) option" where
  "ple_take_slot t =
     (if tb_used t < tb_capacity t then Some (tb_used t, t\<lparr> tb_used := tb_used t + 1 \<rparr>)
      else let slot = nat (tb_tail t) in
           map_option (\<lambda>t1. (slot, (ple_lru_detach t1 slot)\<lparr> tb_evictions := tb_evictions t1 + 1 \<rparr>))
             (ple_chain_remove t slot))"

definition ple_fill_slot :: "ple_table \<Rightarrow> u64 \<Rightarrow> nat \<Rightarrow> f32 list \<times> ple_table" where
  "ple_fill_slot t row slot =
     (let t1 = ple_chain_insert (t\<lparr> tb_slot_row := (tb_slot_row t)[slot := row] \<rparr>) slot;
          t2 = ple_lru_push_front t1 slot;
          cached = ple_read_row t2 row (tb_arena t2 ! slot)
      in (cached, t2\<lparr> tb_arena := (tb_arena t2)[slot := cached] \<rparr>))"

definition ple_table_row :: "ple_table \<Rightarrow> u64 \<Rightarrow> f32 list \<Rightarrow> (f32 list \<times> ple_table) option" where
  "ple_table_row t row dst =
     (if tb_capacity t = 0 then
        Some (ple_read_row t row dst, t\<lparr> tb_misses := tb_misses t + 1 \<rparr>)
      else
        (case ple_lookup t row of
           None \<Rightarrow> None
         | Some s \<Rightarrow>
             if s \<ge> 0 then
               let t1 = t\<lparr> tb_hits := tb_hits t + 1 \<rparr>;
                   t2 = (if tb_head t1 \<noteq> s then ple_lru_push_front (ple_lru_detach t1 (nat s)) (nat s) else t1)
               in Some (tb_arena t2 ! nat s, t2)
             else
               (case ple_take_slot (t\<lparr> tb_misses := tb_misses t + 1 \<rparr>) of
                  None \<Rightarrow> None
                | Some (slot, t1) \<Rightarrow> Some (ple_fill_slot t1 row slot))))"

text \<open>The loop; the flag is the result of the call, false at the first id out of range.\<close>

fun ple_table_rows :: "ple_table \<Rightarrow> u64 list \<Rightarrow> f32 list list \<Rightarrow> (bool \<times> f32 list list \<times> ple_table) option" where
  "ple_table_rows t [] out = Some (True, [], t)"
| "ple_table_rows t (row # rows) out =
     (if row \<ge> c_table_rows (tb_constants t) then Some (False, [], t)
      else
        (case ple_table_row t row (hd out) of
           None \<Rightarrow> None
         | Some (v, t') \<Rightarrow>
             map_option (\<lambda>(ok, vs, t''). (ok, v # vs, t'')) (ple_table_rows t' rows (tl out))))"

definition ple_table_quant_row :: "ple_table \<Rightarrow> u64 \<Rightarrow> bytes option" where
  "ple_table_quant_row t row =
     (if row \<ge> c_table_rows (tb_constants t) then None
      else Some (take (tb_quant_row_bytes t) (drop (ple_row_address t row) (tb_map t))))"

subsection \<open>Sizing\<close>

function ple_bucket_count :: "nat \<Rightarrow> nat \<Rightarrow> nat" where
  "ple_bucket_count capacity buckets =
     (if 0 < buckets \<and> buckets < capacity then ple_bucket_count capacity (2 * buckets) else buckets)"
  by pat_completeness auto

termination ple_bucket_count by (relation "measure (\<lambda>(c, b). c - b)") auto

declare ple_bucket_count.simps [simp del]

fun ple_shrink :: "nat \<Rightarrow> nat \<Rightarrow> nat \<Rightarrow> nat \<Rightarrow> nat" where
  "ple_shrink per_slot buckets limit 0 = 0"
| "ple_shrink per_slot buckets limit (Suc c) =
     (if Suc c * per_slot + buckets * 4 > limit then ple_shrink per_slot buckets limit c else Suc c)"

text \<open>\<open>ple_size_hot_set\<close>: capacity, buckets and resident bytes.\<close>

definition ple_per_slot :: "nat \<Rightarrow> nat" where
  "ple_per_slot row_floats = row_floats * 4 + 8 + 3 * 4"

definition ple_size_hot_set :: "nat \<Rightarrow> nat \<Rightarrow> nat \<times> nat \<times> nat" where
  "ple_size_hot_set row_floats limit =
     (let per_slot = ple_per_slot row_floats; budgeted = per_slot + 8 in
      if limit < budgeted then (0, 0, 0)
      else
        let capacity = min (limit div budgeted) (nat INT32_MAX);
            buckets = ple_bucket_count capacity 1;
            c = ple_shrink per_slot buckets limit capacity
        in if c = 0 then (0, 0, 0) else (c, buckets, c * per_slot + buckets * 4))"


subsection \<open>Opening\<close>

datatype ple_table_error =
    Ple_Refused ple_error | Ple_No_Tensor nat | Ple_No_Memory | Ple_Tensor_Type u32
  | Ple_Tensor_Width u64 u32 | Ple_Tensor_Rows u64 u64 | Ple_Tensor_Extent u64 u64 nat
  | Ple_No_Arena nat | Ple_Over_Ceiling nat nat

text \<open>What \<open>calloc\<close> and \<open>malloc\<close> answer, and what fresh memory holds.\<close>

record ple_heap =
  hp_calloc :: bool
  hp_malloc :: bool
  hp_float :: "nat \<Rightarrow> nat \<Rightarrow> f32"
  hp_row :: "nat \<Rightarrow> u64"
  hp_link :: "nat \<Rightarrow> int"

text \<open>The checks of the tensor against the constants and the mapping. \<open>need\<close> is a 64-bit product.\<close>

definition ple_check_tensor :: "ple_tensor \<Rightarrow> ple_constants \<Rightarrow> nat \<Rightarrow> ple_table_error option" where
  "ple_check_tensor tn c msize =
     (let need = pt_dim1 tn * (ucast (c_row_dim c div 32) * 18) in
      if pt_type tn \<noteq> PLE_GGUF_TYPE_IQ4_NL then Some (Ple_Tensor_Type (pt_type tn))
      else if pt_dim0 tn \<noteq> ucast (c_row_dim c) then Some (Ple_Tensor_Width (pt_dim0 tn) (c_row_dim c))
      else if pt_dim1 tn < c_row_total c then Some (Ple_Tensor_Rows (pt_dim1 tn) (c_row_total c))
      else if unat (pt_offset tn) > msize \<or> unat need > msize - unat (pt_offset tn)
      then Some (Ple_Tensor_Extent need (pt_offset tn) msize)
      else None)"

definition ple_new_table :: "ple_heap \<Rightarrow> ple_tensor \<Rightarrow> ple_constants \<Rightarrow> bytes \<Rightarrow> nat \<Rightarrow> ple_table" where
  "ple_new_table hp tn c m cache_bytes =
     (let floats = unat (c_row_dim c);
          (capacity, buckets, resident) = ple_size_hot_set floats cache_bytes in
      \<lparr> tb_constants = c\<lparr> c_table_rows := pt_dim1 tn \<rparr>, tb_map = m, tb_offset = pt_offset tn,
        tb_quant_row_bytes = unat (c_row_dim c) div 32 * 18, tb_row_floats = floats,
        tb_capacity = capacity, tb_buckets = buckets,
        tb_arena = map (\<lambda>s. map (hp_float hp s) [0..<floats]) [0..<capacity],
        tb_slot_row = map (hp_row hp) [0..<capacity], tb_lru_prev = map (hp_link hp) [0..<capacity],
        tb_lru_next = map (hp_link hp) [0..<capacity], tb_slot_chain = map (hp_link hp) [0..<capacity],
        tb_bucket_head = replicate buckets (-1), tb_head = -1, tb_tail = -1, tb_used = 0,
        tb_ceiling = cache_bytes, tb_resident = resident, tb_hits = 0, tb_misses = 0, tb_evictions = 0 \<rparr>)"

text \<open>
  \<open>ds4_ple_table_open\<close>. Every refusal after the scan closes the kept mapping, directly or through
  \<open>ds4_ple_table_close\<close>; the events are those of the descriptors and mappings.
\<close>

definition ple_table_open ::
  "ple_os \<Rightarrow> ple_heap \<Rightarrow> string list \<Rightarrow> nat \<Rightarrow> (ple_table_error, ple_table) result \<times> ple_event list" where
  "ple_table_open os hp paths cache_bytes =
     (case ple_scan_paths os True paths of
        (Inl e, ev) \<Rightarrow> (Inl (Ple_Refused (Scan_Refused e)), ev)
      | (Inr (scan, keep), ev) \<Rightarrow>
          (let refuse = (\<lambda>e. (Inl e, ev @ ple_map_close keep)) in
           case (sc_tensor scan, keep) of
             (Some tn, Some m) \<Rightarrow>
               if \<not> hp_calloc hp then refuse Ple_No_Memory
               else
                 (case ple_finish_constants scan of
                    Inl e \<Rightarrow> refuse (Ple_Refused (Constants_Refused e))
                  | Inr c \<Rightarrow>
                      (case ple_check_tensor tn c (length (pm_map m)) of
                         Some e \<Rightarrow> refuse e
                       | None \<Rightarrow>
                           let t = ple_new_table hp tn c (pm_map m) cache_bytes in
                           if tb_capacity t > 0 \<and> \<not> hp_malloc hp then refuse (Ple_No_Arena (tb_resident t))
                           else if tb_resident t > tb_ceiling t
                           then refuse (Ple_Over_Ceiling (tb_resident t) (tb_ceiling t))
                           else (Inr t, ev)))
           | _ \<Rightarrow> refuse (Ple_No_Tensor (length paths))))"

record ple_stats =
  ps_hits :: u64
  ps_misses :: u64
  ps_evictions :: u64
  ps_resident_rows :: nat
  ps_resident_bytes :: nat
  ps_ceiling_bytes :: nat
  ps_capacity_rows :: nat

definition ple_table_stats_get :: "ple_table \<Rightarrow> ple_stats" where
  "ple_table_stats_get t = \<lparr> ps_hits = tb_hits t, ps_misses = tb_misses t, ps_evictions = tb_evictions t,
     ps_resident_rows = tb_used t, ps_resident_bytes = tb_resident t, ps_ceiling_bytes = tb_ceiling t,
     ps_capacity_rows = tb_capacity t \<rparr>"

text \<open>
  \<open>ds4_ple_table_prefetch\<close>: the page-aligned ranges of the mapping it advises, for pages of
  \<open>page\<close> bytes.
\<close>

definition ple_prefetch_range :: "ple_table \<Rightarrow> nat \<Rightarrow> u64 \<Rightarrow> nat \<times> nat" where
  "ple_prefetch_range t page row =
     (let start = ple_row_address t row; stop = start + tb_quant_row_bytes t
      in (start - start mod page, min ((stop + page - 1) div page * page) (length (tb_map t))))"

fun ple_table_prefetch :: "ple_table \<Rightarrow> nat \<Rightarrow> u64 list \<Rightarrow> (nat \<times> nat) list option" where
  "ple_table_prefetch t page [] = Some []"
| "ple_table_prefetch t page (row # rows) =
     (if page = 0 then Some []
      else if row \<ge> c_table_rows (tb_constants t) then ple_table_prefetch t page rows
      else
        (case (if tb_capacity t > 0 then ple_lookup t row else Some (-1)) of
           None \<Rightarrow> None
         | Some s \<Rightarrow>
             if s \<ge> 0 then ple_table_prefetch t page rows
             else map_option ((#) (ple_prefetch_range t page row)) (ple_table_prefetch t page rows)))"

end
