(* ===== verification/Ple_Hot.thy ===== *)
theory Ple_Hot
  imports Ple_Table
begin

text \<open>
  The hot set as its users may think of it: a list of rows in order of use, cut to the capacity.
  The links, the buckets and the arena are shown to represent such a list, every operation to
  keep the representation, and every row returned to be the dequantization of the mapping.
\<close>

subsection \<open>Linked lists in arrays\<close>

fun first :: "nat list \<Rightarrow> int \<Rightarrow> int" where
  "first [] q = q"
| "first (x # xs) q = int x"

definition lastp :: "nat list \<Rightarrow> int \<Rightarrow> int" where
  "lastp xs p = (if xs = [] then p else int (last xs))"

fun linked :: "int list \<Rightarrow> int list \<Rightarrow> int \<Rightarrow> nat list \<Rightarrow> int \<Rightarrow> bool" where
  "linked nx pv p [] q = True"
| "linked nx pv p (x # xs) q = (pv ! x = p \<and> nx ! x = first xs q \<and> linked nx pv (int x) xs q)"

lemma first_append: "first (xs @ ys) q = first xs (first ys q)"
  by (cases xs) auto

lemma lastp_append: "lastp (xs @ ys) p = lastp ys (lastp xs p)"
  by (auto simp: lastp_def)

lemma lastp_Cons: "lastp (x # xs) p = lastp xs (int x)"
  by (simp add: lastp_def)

lemma first_minus_1: "first xs (-1) = -1 \<longleftrightarrow> xs = []" "lastp xs (-1) = -1 \<longleftrightarrow> xs = []"
  by (cases xs) (auto simp: lastp_def)

lemma linked_append:
  "linked nx pv p (xs @ ys) q \<longleftrightarrow> linked nx pv p xs (first ys q) \<and> linked nx pv (lastp xs p) ys q"
  by (induction xs arbitrary: p) (auto simp: first_append lastp_Cons, auto simp: lastp_def)

lemma nth_update_other: "s \<notin> A \<Longrightarrow> x \<in> A \<Longrightarrow> xs[s := e] ! x = xs ! x"
  by (cases "s = x") auto

lemma linked_frame:
  "linked nx pv p xs q \<Longrightarrow> (\<And>x. x \<in> set xs \<Longrightarrow> nx' ! x = nx ! x \<and> pv' ! x = pv ! x) \<Longrightarrow> linked nx' pv' p xs q"
  by (induction xs arbitrary: p) auto

lemma linked_relink_next:
  "linked nx pv p xs q \<Longrightarrow> distinct xs \<Longrightarrow> (\<And>x. x \<in> set xs \<Longrightarrow> x < length nx) \<Longrightarrow>
   linked (if xs = [] then nx else nx[last xs := r]) pv p xs r"
proof (induction xs arbitrary: p)
  case (Cons x xs)
  show ?case
  proof (cases xs)
    case (Cons y ys)
    then have "x \<noteq> last xs" using Cons.prems(2) by (metis distinct.simps(2) last_in_set list.distinct(1))
    then show ?thesis using Cons Cons.prems Cons.IH [of "int x"] by simp
  qed (use Cons.prems in simp)
qed simp

lemma linked_relink_prev:
  "linked nx pv p xs q \<Longrightarrow> distinct xs \<Longrightarrow> (\<And>x. x \<in> set xs \<Longrightarrow> x < length pv) \<Longrightarrow>
   linked nx (if xs = [] then pv else pv[hd xs := r]) r xs q"
proof (cases xs)
  case (Cons y ys)
  assume a: "linked nx pv p xs q" "distinct xs" "\<And>x. x \<in> set xs \<Longrightarrow> x < length pv"
  have l: "linked nx pv (int y) ys q" and n: "y \<notin> set ys" using a(1,2) Cons by simp_all
  have "linked nx (pv[y := r]) (int y) ys q" by (rule linked_frame [OF l]) (simp add: nth_update_other [OF n])
  then show ?thesis using a Cons by simp
qed simp

lemma linked_remove:
  assumes l: "linked nx pv p (xs @ s # ys) q" and d: "distinct (xs @ s # ys)"
    and bn: "\<forall>x \<in> set (xs @ s # ys). x < length nx" and bp: "\<forall>x \<in> set (xs @ s # ys). x < length pv"
  shows "linked ((if xs = [] then nx else nx[last xs := first ys q])[s := e])
                ((if ys = [] then pv else pv[hd ys := lastp xs p])[s := e']) p (xs @ ys) q"
    "pv ! s = lastp xs p" "nx ! s = first ys q"
proof -
  let ?nx = "if xs = [] then nx else nx[last xs := first ys q]"
  let ?pv = "if ys = [] then pv else pv[hd ys := lastp xs p]"
  have lx: "linked nx pv p xs (int s)" and ls: "pv ! s = lastp xs p" "nx ! s = first ys q"
    and ly: "linked nx pv (int s) ys q" using l by (auto simp: linked_append)
  have x: "linked ?nx pv p xs (first ys q)" using linked_relink_next [OF lx, of "first ys q"] d bn by auto
  have y: "linked nx ?pv (lastp xs p) ys q" using linked_relink_prev [OF ly, of "lastp xs p"] d bp by auto
  have "linked (?nx[s := e]) (?pv[s := e']) p xs (first ys q)"
    using d by (intro linked_frame [OF x]) (cases ys; auto simp: nth_update_other [of _ "set xs"])
  moreover have "linked (?nx[s := e]) (?pv[s := e']) (lastp xs p) ys q"
    using d by (intro linked_frame [OF y]) (cases xs rule: rev_cases; auto simp: nth_update_other [of _ "set ys"])
  ultimately show "linked (?nx[s := e]) (?pv[s := e']) p (xs @ ys) q" by (simp add: linked_append)
  show "pv ! s = lastp xs p" "nx ! s = first ys q" by (rule ls)+
qed

text \<open>The list in order of use that a table represents.\<close>

definition dll :: "ple_table \<Rightarrow> nat list \<Rightarrow> bool" where
  "dll t xs \<longleftrightarrow> linked (tb_lru_next t) (tb_lru_prev t) (-1) xs (-1)
     \<and> tb_head t = first xs (-1) \<and> tb_tail t = lastp xs (-1) \<and> distinct xs
     \<and> (\<forall>x \<in> set xs. x < tb_capacity t)
     \<and> length (tb_lru_next t) = tb_capacity t \<and> length (tb_lru_prev t) = tb_capacity t"

text \<open>The fields the list operations leave alone.\<close>

definition same_but_lru :: "ple_table \<Rightarrow> ple_table \<Rightarrow> bool" where
  "same_but_lru t t' \<longleftrightarrow> t' = t\<lparr> tb_lru_next := tb_lru_next t', tb_lru_prev := tb_lru_prev t',
     tb_head := tb_head t', tb_tail := tb_tail t' \<rparr>"

lemma same_but_lru_trans: "same_but_lru t t1 \<Longrightarrow> same_but_lru t1 t2 \<Longrightarrow> same_but_lru t t2"
  by (cases t; cases t1; cases t2) (simp add: same_but_lru_def)

lemma detach_eq:
  assumes "tb_lru_prev t ! slot = lastp xs (-1)" "tb_lru_next t ! slot = first ys (-1)"
    "tb_head t = first (xs @ slot # ys) (-1)" "tb_tail t = lastp (xs @ slot # ys) (-1)"
    "distinct (xs @ slot # ys)"
  shows "ple_lru_detach t slot = t\<lparr>
     tb_lru_next := (if xs = [] then tb_lru_next t else (tb_lru_next t)[last xs := first ys (-1)])[slot := -1],
     tb_lru_prev := (if ys = [] then tb_lru_prev t else (tb_lru_prev t)[hd ys := lastp xs (-1)])[slot := -1],
     tb_head := first (xs @ ys) (-1), tb_tail := lastp (xs @ ys) (-1) \<rparr>"
  using assms
  by (cases xs rule: rev_cases; cases ys)
    (auto simp: ple_lru_detach_def Let_def lastp_def first_append)

lemma detach_dll:
  assumes "dll t (xs @ slot # ys)"
  shows "dll (ple_lru_detach t slot) (xs @ ys)" "same_but_lru t (ple_lru_detach t slot)"
proof -
  have d: "linked (tb_lru_next t) (tb_lru_prev t) (-1) (xs @ slot # ys) (-1)" "distinct (xs @ slot # ys)"
    "tb_head t = first (xs @ slot # ys) (-1)" "tb_tail t = lastp (xs @ slot # ys) (-1)"
    "\<forall>x \<in> set (xs @ slot # ys). x < length (tb_lru_next t)"
    "\<forall>x \<in> set (xs @ slot # ys). x < length (tb_lru_prev t)"
    using assms by (simp_all add: dll_def)
  note r = linked_remove [OF d(1,2,5,6)]
  note e = detach_eq [OF r(2,3) d(3,4,2)]
  show "dll (ple_lru_detach t slot) (xs @ ys)"
    unfolding e dll_def using r(1) [of "-1" "-1"] assms by (auto simp: dll_def)
  show "same_but_lru t (ple_lru_detach t slot)" unfolding e same_but_lru_def by simp
qed

lemma push_front_dll:
  assumes "dll t xs" "slot \<notin> set xs" "slot < tb_capacity t"
  shows "dll (ple_lru_push_front t slot) (slot # xs)" "same_but_lru t (ple_lru_push_front t slot)"
proof -
  let ?nx = "(tb_lru_next t)[slot := first xs (-1)]"
  let ?pv = "(if xs = [] then tb_lru_prev t else (tb_lru_prev t)[hd xs := int slot])[slot := -1]"
  have e: "ple_lru_push_front t slot = t\<lparr> tb_lru_next := ?nx, tb_lru_prev := ?pv, tb_head := int slot,
      tb_tail := lastp (slot # xs) (-1) \<rparr>"
    using assms by (cases xs) (auto simp: ple_lru_push_front_def Let_def dll_def lastp_def list_update_swap)
  have "linked (tb_lru_next t) (if xs = [] then tb_lru_prev t else (tb_lru_prev t)[hd xs := int slot]) (int slot) xs (-1)"
    using assms by (intro linked_relink_prev [of _ _ "-1"]) (auto simp: dll_def)
  then have "linked ?nx ?pv (int slot) xs (-1)" using assms(2)
    by (elim linked_frame) (auto simp: nth_update_other [of _ "set xs"])
  then show "dll (ple_lru_push_front t slot) (slot # xs)" unfolding e dll_def using assms by (auto simp: dll_def)
  show "same_but_lru t (ple_lru_push_front t slot)" unfolding e same_but_lru_def by simp
qed


subsection \<open>Bucket chains\<close>

fun chained :: "int list \<Rightarrow> nat list \<Rightarrow> int \<Rightarrow> bool" where
  "chained ch [] q = True"
| "chained ch (x # xs) q = (ch ! x = first xs q \<and> chained ch xs q)"

lemma chained_append: "chained ch (xs @ ys) q \<longleftrightarrow> chained ch xs (first ys q) \<and> chained ch ys q"
  by (induction xs) (auto simp: first_append)

lemma chained_frame: "chained ch xs q \<Longrightarrow> (\<And>x. x \<in> set xs \<Longrightarrow> ch' ! x = ch ! x) \<Longrightarrow> chained ch' xs q"
  by (induction xs) auto

lemma chained_relink:
  "chained ch xs q \<Longrightarrow> xs \<noteq> [] \<Longrightarrow> distinct xs \<Longrightarrow> (\<forall>x \<in> set xs. x < length ch) \<Longrightarrow> chained (ch[last xs := r]) xs r"
proof (induction xs)
  case (Cons x xs)
  show ?case
  proof (cases xs)
    case (Cons y ys)
    then have "x \<noteq> last xs" using Cons.prems(3) by (metis distinct.simps(2) last_in_set list.distinct(1))
    then show ?thesis using Cons Cons.prems Cons.IH by simp
  qed (use Cons.prems in simp)
qed simp

text \<open>
  The buckets index the slots of \<open>S\<close>: bucket \<open>b\<close> chains the slots \<open>C b\<close>, which are those whose
  row hashes to \<open>b\<close>.
\<close>

definition indexed :: "ple_table \<Rightarrow> nat set \<Rightarrow> (nat \<Rightarrow> nat list) \<Rightarrow> bool" where
  "indexed t S C \<longleftrightarrow> 0 < tb_buckets t \<and> tb_buckets t < 2 ^ 64 \<and> S \<subseteq> {..<tb_capacity t}
     \<and> length (tb_slot_row t) = tb_capacity t \<and> length (tb_slot_chain t) = tb_capacity t
     \<and> length (tb_bucket_head t) = tb_buckets t
     \<and> (\<forall>b < tb_buckets t. tb_bucket_head t ! b = first (C b) (-1) \<and> chained (tb_slot_chain t) (C b) (-1)
          \<and> distinct (C b) \<and> set (C b) = {s \<in> S. ple_bucket t (tb_slot_row t ! s) = b})"

lemma ple_bucket_less: "0 < tb_buckets t \<Longrightarrow> tb_buckets t < 2 ^ 64 \<Longrightarrow> ple_bucket t row < tb_buckets t"
proof -
  assume b: "0 < tb_buckets t" "tb_buckets t < 2 ^ 64"
  have u: "unat (of_nat (tb_buckets t) :: u64) = tb_buckets t" using b(2) by (rule unat_of_nat_u64)
  have "unat (of_nat (tb_buckets t) - 1 :: u64) = tb_buckets t - 1"
    using b(1) u by (subst unat_sub) (auto simp: word_le_nat_alt)
  moreover have "ple_splitmix64 row AND (of_nat (tb_buckets t) - 1) \<le> of_nat (tb_buckets t) - 1" by (rule word_and_le1)
  ultimately show ?thesis using b(1) by (simp add: ple_bucket_def word_le_nat_alt)
qed

lemma indexedD:
  assumes "indexed t S C" "b < tb_buckets t"
  shows "tb_bucket_head t ! b = first (C b) (-1)" "chained (tb_slot_chain t) (C b) (-1)" "distinct (C b)"
    "set (C b) = {s \<in> S. ple_bucket t (tb_slot_row t ! s) = b}"
  using assms by (simp_all add: indexed_def)

lemma chain_find_spec:
  "chained (tb_slot_chain t) xs (-1) \<Longrightarrow>
   ple_chain_find t row (first xs (-1)) =
     Some (case find (\<lambda>s. tb_slot_row t ! s = row) xs of None \<Rightarrow> -1 | Some s \<Rightarrow> int s)"
  by (induction xs) (subst ple_chain_find.simps, simp)+

lemma lookup_spec:
  assumes ix: "indexed t S C" and inj: "inj_on ((!) (tb_slot_row t)) S"
  shows "s \<in> S \<Longrightarrow> tb_slot_row t ! s = row \<Longrightarrow> ple_lookup t row = Some (int s)"
    and "row \<notin> (!) (tb_slot_row t) ` S \<Longrightarrow> ple_lookup t row = Some (-1)"
proof -
  let ?b = "ple_bucket t row" and ?P = "\<lambda>s. tb_slot_row t ! s = row"
  have b: "?b < tb_buckets t" using ix by (intro ple_bucket_less) (auto simp: indexed_def)
  have c: "tb_bucket_head t ! ?b = first (C ?b) (-1)" "chained (tb_slot_chain t) (C ?b) (-1)"
    "set (C ?b) = {s \<in> S. ple_bucket t (tb_slot_row t ! s) = ?b}" using ix b by (auto simp: indexed_def)
  have l: "ple_lookup t row = Some (case find ?P (C ?b) of None \<Rightarrow> -1 | Some s \<Rightarrow> int s)"
    using ix chain_find_spec [OF c(2), of row] c(1) by (simp add: ple_lookup_def indexed_def)
  show "ple_lookup t row = Some (int s)" if "s \<in> S" "tb_slot_row t ! s = row" for s
  proof (cases "find ?P (C ?b)")
    case None
    then have "s \<notin> set (C ?b)" using that(2) by (auto simp: find_None_iff)
    then show ?thesis using c(3) that by simp
  next
    case (Some s')
    then have "s' \<in> set (C ?b)" "?P s'" by (auto simp: find_Some_iff)
    then have "s' = s" using c(3) that inj by (auto simp: inj_on_def)
    then show ?thesis using l Some by simp
  qed
  show "ple_lookup t row = Some (-1)" if "row \<notin> (!) (tb_slot_row t) ` S"
  proof -
    have "find ?P (C ?b) = None" unfolding find_None_iff using c(3) that by auto
    then show ?thesis using l by simp
  qed
qed

lemma chain_unlink_spec:
  "chained (tb_slot_chain t) (x # xs @ slot # ys) (-1) \<Longrightarrow> slot \<notin> set (x # xs) \<Longrightarrow>
   ple_chain_unlink t slot x =
     Some (t\<lparr> tb_slot_chain := (tb_slot_chain t)[last (x # xs) := first ys (-1)] \<rparr>)"
proof (induction xs arbitrary: x)
  case Nil
  then show ?case by (subst ple_chain_unlink.simps) simp
next
  case (Cons y xs)
  then show ?case by (subst ple_chain_unlink.simps) (simp add: Let_def)
qed

lemma chain_remove_eq:
  assumes ix: "indexed t S C" and b: "b = ple_bucket t (tb_slot_row t ! slot)" and c: "C b = xs @ slot # ys"
  shows "ple_chain_remove t slot = Some (t\<lparr>
     tb_bucket_head := (if xs = [] then (tb_bucket_head t)[b := first ys (-1)] else tb_bucket_head t),
     tb_slot_chain := (if xs = [] then tb_slot_chain t else (tb_slot_chain t)[last xs := first ys (-1)])[slot := -1] \<rparr>)"
proof -
  have bl: "b < tb_buckets t" unfolding b using ix by (intro ple_bucket_less) (auto simp: indexed_def)
  have h: "tb_bucket_head t ! b = first (xs @ slot # ys) (-1)" "chained (tb_slot_chain t) (xs @ slot # ys) (-1)"
    "distinct (xs @ slot # ys)" using indexedD(1-3) [OF ix bl] unfolding c by blast+
  have nx: "tb_slot_chain t ! slot = first ys (-1)" using h(2) by (simp add: chained_append)
  show ?thesis
  proof (cases xs)
    case Nil
    then show ?thesis using h nx b by (simp add: ple_chain_remove_def Let_def)
  next
    case (Cons x xs')
    have u: "ple_chain_unlink t slot x = Some (t\<lparr> tb_slot_chain := (tb_slot_chain t)[last xs := first ys (-1)] \<rparr>)"
      using chain_unlink_spec [of t x xs' slot ys] h Cons by auto
    have f: "tb_bucket_head t ! ple_bucket t (tb_slot_row t ! slot) = int x" using h(1) Cons b by simp
    have "int x \<noteq> int slot" using h(3) Cons by auto
    then show ?thesis using u f Cons by (simp add: ple_chain_remove_def Let_def)
  qed
qed


lemma chain_remove_indexed:
  assumes ix: "indexed t S C" and s: "slot \<in> S"
  shows "\<exists>t' C'. ple_chain_remove t slot = Some t' \<and> indexed t' (S - {slot}) C'
    \<and> t' = t\<lparr> tb_bucket_head := tb_bucket_head t', tb_slot_chain := tb_slot_chain t' \<rparr>"
proof -
  define b where "b = ple_bucket t (tb_slot_row t ! slot)"
  have bl: "b < tb_buckets t" unfolding b_def using ix by (intro ple_bucket_less) (auto simp: indexed_def)
  note bD = indexedD [OF ix bl]
  have "slot \<in> set (C b)" using bD(4) s by (simp add: b_def)
  then obtain xs ys where c: "C b = xs @ slot # ys" by (auto simp: in_set_conv_decomp)
  have ch: "chained (tb_slot_chain t) xs (int slot)" "chained (tb_slot_chain t) ys (-1)"
    "distinct (xs @ slot # ys)" using bD(2,3) by (auto simp: c chained_append)
  have lt: "\<forall>x \<in> set (xs @ slot # ys). x < length (tb_slot_chain t)"
    using bD(4) ix by (auto simp: c indexed_def)
  define t' where "t' = t\<lparr>
     tb_bucket_head := (if xs = [] then (tb_bucket_head t)[b := first ys (-1)] else tb_bucket_head t),
     tb_slot_chain := (if xs = [] then tb_slot_chain t else (tb_slot_chain t)[last xs := first ys (-1)])[slot := -1] \<rparr>"
  have run: "ple_chain_remove t slot = Some t'" unfolding t'_def by (rule chain_remove_eq [OF ix b_def c])
  have bucket: "ple_bucket t' = ple_bucket t" by (auto simp: t'_def ple_bucket_def)
  have other: "tb_slot_chain t' ! x = tb_slot_chain t ! x" if "x \<noteq> slot" "xs = [] \<or> x \<noteq> last xs" for x
    using that by (auto simp: t'_def)
  have new: "chained (tb_slot_chain t') (xs @ ys) (-1)"
  proof -
    have "chained (tb_slot_chain t') xs (first ys (-1))"
    proof (cases "xs = []")
      case False
      have "chained ((tb_slot_chain t)[last xs := first ys (-1)]) xs (first ys (-1))"
        using ch lt False by (intro chained_relink) auto
      then show ?thesis using ch(3) False
        by (elim chained_frame) (auto simp: t'_def nth_update_other [of slot "set xs"])
    qed simp
    moreover have "chained (tb_slot_chain t') ys (-1)"
    proof (rule chained_frame [OF ch(2)], rule other)
      fix x assume "x \<in> set ys"
      then show "x \<noteq> slot" "xs = [] \<or> x \<noteq> last xs" using ch(3) by (cases xs rule: rev_cases; auto)+
    qed
    ultimately show ?thesis by (simp add: chained_append)
  qed
  have rest: "tb_bucket_head t' ! b' = first ((C(b := xs @ ys)) b') (-1)
      \<and> chained (tb_slot_chain t') ((C(b := xs @ ys)) b') (-1) \<and> distinct ((C(b := xs @ ys)) b')
      \<and> set ((C(b := xs @ ys)) b') = {s \<in> S - {slot}. ple_bucket t' (tb_slot_row t' ! s) = b'}"
    if b': "b' < tb_buckets t" for b'
  proof (cases "b' = b")
    case True
    have "tb_bucket_head t' ! b = first (xs @ ys) (-1)"
      using bD(1) bl ix by (cases xs) (auto simp: t'_def c indexed_def)
    moreover have "set (xs @ ys) = {s \<in> S - {slot}. ple_bucket t (tb_slot_row t ! s) = b}"
      using bD(3,4) by (auto simp: c)
    ultimately show ?thesis using True new ch(3) bucket by (simp add: t'_def)
  next
    case False
    note D = indexedD [OF ix b']
    have dis: "x \<noteq> slot \<and> (xs = [] \<or> x \<noteq> last xs)" if "x \<in> set (C b')" for x
    proof -
      have "ple_bucket t (tb_slot_row t ! x) = b'" using D(4) that by simp
      moreover have "ple_bucket t (tb_slot_row t ! y) = b" if "y \<in> set (xs @ slot # ys)" for y
        using bD(4) that by (auto simp: c)
      ultimately show ?thesis using False last_in_set [of xs] by auto
    qed
    have "chained (tb_slot_chain t') (C b') (-1)" by (rule chained_frame [OF D(2)]) (use dis other in blast)
    moreover have "tb_bucket_head t' ! b' = first (C b') (-1)" using D(1) False by (auto simp: t'_def)
    moreover have "slot \<notin> set (C b')" using dis by blast
    ultimately show ?thesis using False D bucket by (auto simp: t'_def)
  qed
  have "indexed t' (S - {slot}) (C(b := xs @ ys))"
    unfolding indexed_def using ix rest bucket by (auto simp: t'_def indexed_def)
  then show ?thesis using run by (intro exI [of _ t'] exI [of _ "C(b := xs @ ys)"]) (auto simp: t'_def)
qed


lemma chain_insert_indexed:
  assumes ix: "indexed t S C" and s: "slot \<notin> S" "slot < tb_capacity t"
  shows "\<exists>C'. indexed (ple_chain_insert (t\<lparr> tb_slot_row := (tb_slot_row t)[slot := row] \<rparr>) slot) (insert slot S) C'"
proof -
  define t0 where "t0 = t\<lparr> tb_slot_row := (tb_slot_row t)[slot := row] \<rparr>"
  define b where "b = ple_bucket t row"
  define t' where "t' = t0\<lparr> tb_slot_chain := (tb_slot_chain t)[slot := tb_bucket_head t ! b],
     tb_bucket_head := (tb_bucket_head t)[b := int slot] \<rparr>"
  have bl: "b < tb_buckets t" unfolding b_def using ix by (intro ple_bucket_less) (auto simp: indexed_def)
  have lens: "length (tb_slot_row t) = tb_capacity t" "length (tb_slot_chain t) = tb_capacity t"
    "length (tb_bucket_head t) = tb_buckets t" using ix by (simp_all add: indexed_def)
  have row: "tb_slot_row t0 ! slot = row" "\<And>x. x \<in> S \<Longrightarrow> tb_slot_row t0 ! x = tb_slot_row t ! x"
    using s lens by (auto simp: t0_def nth_update_other [of slot S])
  have run: "ple_chain_insert t0 slot = t'"
    using row(1) by (auto simp: ple_chain_insert_def t'_def b_def t0_def ple_bucket_def Let_def)
  have bucket: "ple_bucket t' = ple_bucket t" by (auto simp: t'_def t0_def ple_bucket_def)
  have srow: "tb_slot_row t' = tb_slot_row t0" by (simp add: t'_def)
  have rest: "tb_bucket_head t' ! b' = first ((C(b := slot # C b)) b') (-1)
      \<and> chained (tb_slot_chain t') ((C(b := slot # C b)) b') (-1) \<and> distinct ((C(b := slot # C b)) b')
      \<and> set ((C(b := slot # C b)) b') = {s \<in> insert slot S. ple_bucket t' (tb_slot_row t' ! s) = b'}"
    if b': "b' < tb_buckets t" for b'
  proof -
    note D = indexedD [OF ix b']
    have ns: "slot \<notin> set (C b')" using D(4) s(1) by simp
    have fr: "chained (tb_slot_chain t') (C b') (-1)"
      by (rule chained_frame [OF D(2)]) (simp add: t'_def nth_update_other [OF ns])
    have st: "{s \<in> insert slot S. ple_bucket t' (tb_slot_row t' ! s) = b'} =
        (if b' = b then insert slot (set (C b')) else set (C b'))"
      using D(4) row s(1) by (auto simp: bucket srow b_def)
    show ?thesis
    proof (cases "b' = b")
      case True
      have "tb_slot_chain t' ! slot = first (C b) (-1)" using indexedD(1) [OF ix bl] s lens by (simp add: t'_def)
      then show ?thesis using True fr ns D(3) st bl lens by (simp add: t'_def)
    next
      case False
      then show ?thesis using fr D st by (simp add: t'_def)
    qed
  qed
  have "indexed t' (insert slot S) (C(b := slot # C b))"
    unfolding indexed_def using ix rest s lens by (auto simp: t'_def t0_def indexed_def)
  then show ?thesis using run by (auto simp: t0_def)
qed

subsection \<open>The representation\<close>

text \<open>A row as the mapping holds it.\<close>

definition row_value :: "ple_table \<Rightarrow> u64 \<Rightarrow> f32 list" where
  "row_value t row = ref_dequant (drop (ple_row_address t row) (tb_map t)) (unat (c_row_dim (tb_constants t)) div 32)"

definition row_in_map :: "ple_table \<Rightarrow> u64 \<Rightarrow> bool" where
  "row_in_map t row \<longleftrightarrow> row < c_table_rows (tb_constants t)
     \<and> ple_row_address t row + unat (c_row_dim (tb_constants t)) div 32 * 18 \<le> length (tb_map t)"

definition core_inv :: "ple_table \<Rightarrow> nat list \<Rightarrow> bool" where
  "core_inv t xs \<longleftrightarrow> dll t xs \<and> (\<exists>C. indexed t (set xs) C) \<and> inj_on ((!) (tb_slot_row t)) (set xs)
     \<and> length (tb_arena t) = tb_capacity t
     \<and> (\<forall>s < tb_capacity t. length (tb_arena t ! s) = unat (c_row_dim (tb_constants t)))
     \<and> (\<forall>s \<in> set xs. tb_arena t ! s = row_value t (tb_slot_row t ! s))"

text \<open>The invariant of a table; \<open>xs\<close> are its slots in order of use.\<close>

definition hot_inv :: "ple_table \<Rightarrow> nat list \<Rightarrow> bool" where
  "hot_inv t xs \<longleftrightarrow> 32 dvd unat (c_row_dim (tb_constants t))
     \<and> (if tb_capacity t = 0 then xs = []
        else core_inv t xs \<and> set xs = {..<tb_used t} \<and> tb_used t \<le> tb_capacity t)"

text \<open>The rows in order of use.\<close>

definition recent :: "ple_table \<Rightarrow> nat list \<Rightarrow> u64 list" where
  "recent t xs = map ((!) (tb_slot_row t)) xs"

text \<open>The fixed part of a table: what every access leaves as it was.\<close>

definition fixed_part :: "ple_table \<Rightarrow> ple_constants \<times> bytes \<times> u64 \<times> nat \<times> nat \<times> nat \<times> nat \<times> nat" where
  "fixed_part t = (tb_constants t, tb_map t, tb_offset t, tb_quant_row_bytes t, tb_capacity t, tb_buckets t,
     tb_ceiling t, tb_resident t)"

lemma fixed_part_row_value: "fixed_part t' = fixed_part t \<Longrightarrow> row_value t' row = row_value t row"
  "fixed_part t' = fixed_part t \<Longrightarrow> row_in_map t' row = row_in_map t row"
  by (simp_all add: fixed_part_def row_value_def row_in_map_def ple_row_address_def)

lemma read_row_value:
  assumes "32 dvd unat (c_row_dim (tb_constants t))" "row_in_map t row"
    "length dst = unat (c_row_dim (tb_constants t))"
  shows "ple_read_row t row dst = row_value t row" "length (row_value t row) = unat (c_row_dim (tb_constants t))"
proof -
  let ?n = "unat (c_row_dim (tb_constants t)) div 32"
  have "?n * 18 \<le> length (drop (ple_row_address t row) (tb_map t))" using assms(2) by (auto simp: row_in_map_def)
  moreover have "?n * 32 \<le> length dst" using assms(3) by simp
  ultimately have r: "ple_dequant_iq4_nl (drop (ple_row_address t row) (tb_map t)) ?n dst =
      ref_dequant (drop (ple_row_address t row) (tb_map t)) ?n"
    "length (ref_dequant (drop (ple_row_address t row) (tb_map t)) ?n) = ?n * 32"
    using ple_dequant_ref by (metis, metis)
  show "ple_read_row t row dst = row_value t row" by (simp add: ple_read_row_def row_value_def r(1))
  show "length (row_value t row) = unat (c_row_dim (tb_constants t))"
    unfolding row_value_def r(2) using assms(1) by simp
qed


lemma same_but_lru_fields:
  assumes "same_but_lru t t'"
  shows "indexed t' S C = indexed t S C" "tb_slot_row t' = tb_slot_row t" "tb_arena t' = tb_arena t"
    "tb_capacity t' = tb_capacity t" "tb_constants t' = tb_constants t" "row_value t' = row_value t"
    "tb_used t' = tb_used t" "fixed_part t' = fixed_part t"
    "tb_hits t' = tb_hits t" "tb_misses t' = tb_misses t" "tb_evictions t' = tb_evictions t"
proof -
  obtain nx pv h l where e: "t' = t\<lparr> tb_lru_next := nx, tb_lru_prev := pv, tb_head := h, tb_tail := l \<rparr>"
    using assms unfolding same_but_lru_def by blast
  show "indexed t' S C = indexed t S C" "tb_slot_row t' = tb_slot_row t" "tb_arena t' = tb_arena t"
    "tb_capacity t' = tb_capacity t" "tb_constants t' = tb_constants t" "row_value t' = row_value t"
    "tb_used t' = tb_used t" "fixed_part t' = fixed_part t"
    "tb_hits t' = tb_hits t" "tb_misses t' = tb_misses t" "tb_evictions t' = tb_evictions t"
    unfolding e by (simp_all add: indexed_def ple_bucket_def row_value_def ple_row_address_def fixed_part_def fun_eq_iff)
qed

lemma core_to_front:
  assumes "core_inv t xs" "s \<in> set xs"
  defines "t' \<equiv> ple_lru_push_front (ple_lru_detach t s) s"
  shows "core_inv t' (s # remove1 s xs)" "same_but_lru t t'"
proof -
  obtain ys zs where xs: "xs = ys @ s # zs" "s \<notin> set ys" using assms(2) split_list_first by metis
  have d: "dll t (ys @ s # zs)" "distinct xs" "s < tb_capacity t" using assms xs by (auto simp: core_inv_def dll_def)
  have r: "remove1 s xs = ys @ zs" using xs by (simp add: remove1_append)
  note dt = detach_dll [OF d(1)]
  have n: "s \<notin> set (ys @ zs)" using d(2) xs by auto
  have c: "s < tb_capacity (ple_lru_detach t s)" using d(3) same_but_lru_fields(4) [OF dt(2)] by simp
  note pf = push_front_dll [OF dt(1) n c]
  show sb: "same_but_lru t t'" unfolding t'_def using same_but_lru_trans [OF dt(2) pf(2)] .
  have "set (s # remove1 s xs) = set xs" using assms(2) d(2) by auto
  moreover have "dll t' (s # remove1 s xs)" using pf(1) by (simp add: t'_def r)
  ultimately show "core_inv t' (s # remove1 s xs)"
    using assms(1) unfolding core_inv_def same_but_lru_fields [OF sb] by simp
qed

lemma core_evict:
  assumes "core_inv t (xs @ [s])"
  shows "\<exists>t1. ple_chain_remove t s = Some t1 \<and> core_inv (ple_lru_detach t1 s) xs
    \<and> tb_slot_row (ple_lru_detach t1 s) = tb_slot_row t \<and> fixed_part (ple_lru_detach t1 s) = fixed_part t
    \<and> tb_used (ple_lru_detach t1 s) = tb_used t \<and> tb_hits (ple_lru_detach t1 s) = tb_hits t
    \<and> tb_misses (ple_lru_detach t1 s) = tb_misses t \<and> tb_evictions t1 = tb_evictions t"
proof -
  obtain C where ix: "indexed t (set (xs @ [s])) C" using assms by (auto simp: core_inv_def)
  obtain t1 C' where r: "ple_chain_remove t s = Some t1" "indexed t1 (set (xs @ [s]) - {s}) C'"
    "t1 = t\<lparr> tb_bucket_head := tb_bucket_head t1, tb_slot_chain := tb_slot_chain t1 \<rparr>"
    using chain_remove_indexed [OF ix, of s] by auto
  obtain bh sc where e: "t1 = t\<lparr> tb_bucket_head := bh, tb_slot_chain := sc \<rparr>" using r(3) by blast
  have dx: "distinct (xs @ [s])" using assms by (auto simp: core_inv_def dll_def)
  have S: "set (xs @ [s]) - {s} = set xs" using dx by auto
  have "dll t1 (xs @ s # [])" using assms unfolding e by (auto simp: core_inv_def dll_def)
  note dt = detach_dll [OF this]
  have f: "tb_slot_row t1 = tb_slot_row t" "tb_arena t1 = tb_arena t" "tb_capacity t1 = tb_capacity t"
    "tb_constants t1 = tb_constants t" "row_value t1 = row_value t" "tb_used t1 = tb_used t"
    "fixed_part t1 = fixed_part t" "tb_hits t1 = tb_hits t" "tb_misses t1 = tb_misses t" "tb_evictions t1 = tb_evictions t"
    unfolding e by (simp_all add: row_value_def ple_row_address_def fixed_part_def fun_eq_iff)
  have "core_inv (ple_lru_detach t1 s) xs"
    using assms dt(1) r(2) unfolding core_inv_def same_but_lru_fields [OF dt(2)] f S
    by (auto intro: inj_on_subset)
  then show ?thesis using r(1) same_but_lru_fields [OF dt(2)] f by simp
qed


lemma core_fill:
  assumes core: "core_inv t xs" and slot: "slot \<notin> set xs" "slot < tb_capacity t"
    and row: "row \<notin> set (recent t xs)" "row_in_map t row" and dim: "32 dvd unat (c_row_dim (tb_constants t))"
  shows "\<exists>t'. ple_fill_slot t row slot = (row_value t row, t') \<and> core_inv t' (slot # xs)
    \<and> recent t' (slot # xs) = row # recent t xs \<and> fixed_part t' = fixed_part t \<and> tb_used t' = tb_used t
    \<and> tb_hits t' = tb_hits t \<and> tb_misses t' = tb_misses t \<and> tb_evictions t' = tb_evictions t"
proof -
  define t0 where "t0 = t\<lparr> tb_slot_row := (tb_slot_row t)[slot := row] \<rparr>"
  define t1 where "t1 = ple_chain_insert t0 slot"
  define t2 where "t2 = ple_lru_push_front t1 slot"
  define t3 where "t3 = t2\<lparr> tb_arena := (tb_arena t2)[slot := row_value t row] \<rparr>"
  obtain C where ix: "indexed t (set xs) C" using core by (auto simp: core_inv_def)
  obtain C1 where ix1: "indexed t1 (insert slot (set xs)) C1"
    using chain_insert_indexed [OF ix slot] unfolding t1_def t0_def by blast
  obtain bh sc where e1: "t1 = t\<lparr> tb_slot_row := (tb_slot_row t)[slot := row], tb_slot_chain := sc, tb_bucket_head := bh \<rparr>"
    unfolding t1_def t0_def ple_chain_insert_def Let_def by simp
  have "dll t1 xs" using core unfolding e1 by (auto simp: core_inv_def dll_def)
  moreover have "slot < tb_capacity t1" using slot unfolding e1 by simp
  ultimately have d2: "dll t2 (slot # xs)" and sb: "same_but_lru t1 t2"
    unfolding t2_def using push_front_dll [of t1 xs slot] slot(1) by blast+
  note f2 = same_but_lru_fields [OF sb]
  have f1: "tb_slot_row t1 = (tb_slot_row t)[slot := row]" "tb_arena t1 = tb_arena t" "tb_capacity t1 = tb_capacity t"
    "tb_constants t1 = tb_constants t" "row_value t1 = row_value t" "fixed_part t1 = fixed_part t" "tb_used t1 = tb_used t"
    "tb_hits t1 = tb_hits t" "tb_misses t1 = tb_misses t" "tb_evictions t1 = tb_evictions t"
    unfolding e1 by (simp_all add: row_value_def ple_row_address_def fixed_part_def fun_eq_iff)
  have len: "length (tb_slot_row t) = tb_capacity t" using ix by (simp add: indexed_def)
  have read: "ple_read_row t2 row (tb_arena t2 ! slot) = row_value t row"
  proof -
    have fx: "fixed_part t2 = fixed_part t" using f1(6) f2(8) by simp
    have "row_in_map t2 row" using fixed_part_row_value(2) [OF fx] row(2) by simp
    moreover have "tb_constants t2 = tb_constants t" "tb_arena t2 = tb_arena t" using f1(2,4) f2(3,5) by simp_all
    moreover have "length (tb_arena t ! slot) = unat (c_row_dim (tb_constants t))"
      using core slot(2) by (simp add: core_inv_def)
    ultimately have "ple_read_row t2 row (tb_arena t2 ! slot) = row_value t2 row"
      using dim by (intro read_row_value(1)) simp_all
    then show ?thesis using fixed_part_row_value(1) [OF fx] by simp
  qed
  have run: "ple_fill_slot t row slot = (row_value t row, t3)"
    unfolding ple_fill_slot_def Let_def t0_def [symmetric] t1_def [symmetric] t2_def [symmetric] read t3_def by (rule refl)
  have f3: "tb_slot_row t3 = (tb_slot_row t)[slot := row]" "tb_arena t3 = (tb_arena t)[slot := row_value t row]"
    "tb_capacity t3 = tb_capacity t" "tb_constants t3 = tb_constants t" "row_value t3 = row_value t"
    "fixed_part t3 = fixed_part t" "tb_used t3 = tb_used t" "tb_hits t3 = tb_hits t" "tb_misses t3 = tb_misses t"
    "tb_evictions t3 = tb_evictions t" "dll t3 (slot # xs)" "indexed t3 (insert slot (set xs)) C1"
  proof -
    have "row_value t3 = row_value t2" "fixed_part t3 = fixed_part t2" "dll t3 (slot # xs) = dll t2 (slot # xs)"
      "indexed t3 (insert slot (set xs)) C1 = indexed t2 (insert slot (set xs)) C1"
      by (simp_all add: t3_def row_value_def ple_row_address_def fixed_part_def dll_def indexed_def ple_bucket_def fun_eq_iff)
    then show "row_value t3 = row_value t" "fixed_part t3 = fixed_part t" "dll t3 (slot # xs)"
      "indexed t3 (insert slot (set xs)) C1" using f1 f2 d2 ix1 by simp_all
  qed (simp_all add: t3_def f1 f2)
  have old: "(tb_slot_row t)[slot := row] ! x = tb_slot_row t ! x" if "x \<in> set xs" for x
    using nth_update_other [OF slot(1) that] .
  have rec: "recent t3 (slot # xs) = row # recent t xs"
    using old slot len by (simp add: recent_def f3)
  have "distinct (recent t xs)" using core by (simp add: recent_def core_inv_def dll_def distinct_map)
  then have "distinct (recent t3 (slot # xs))" using rec row(1) by simp
  then have inj: "inj_on ((!) (tb_slot_row t3)) (set (slot # xs))"
    using distinct_map [of "(!) (tb_slot_row t3)" "slot # xs"] unfolding recent_def by blast
  have "core_inv t3 (slot # xs)"
    unfolding core_inv_def
  proof (intro conjI)
    show "\<forall>s<tb_capacity t3. length (tb_arena t3 ! s) = unat (c_row_dim (tb_constants t3))"
      using core read_row_value(2) [OF dim row(2)] core slot
      by (auto simp: f3 core_inv_def nth_list_update intro: read_row_value(2) [of t row "tb_arena t ! slot"])
    show "\<forall>s\<in>set (slot # xs). tb_arena t3 ! s = row_value t3 (tb_slot_row t3 ! s)"
      using core slot len old by (auto simp: f3 core_inv_def nth_update_other [OF slot(1)])
  qed (use core f3 inj in \<open>auto simp: core_inv_def\<close>)
  then show ?thesis using run rec f3 by blast
qed


subsection \<open>One access\<close>

text \<open>The abstract hot set: rows in order of use, cut to the capacity.\<close>

definition lru_touch :: "nat \<Rightarrow> 'r \<Rightarrow> 'r list \<Rightarrow> 'r list" where
  "lru_touch cap r rs =
     (if cap = 0 then [] else if r \<in> set rs then r # remove1 r rs else r # take (cap - 1) rs)"

lemma core_inv_counts [simp]:
  "core_inv (t\<lparr> tb_hits := h \<rparr>) xs = core_inv t xs" "core_inv (t\<lparr> tb_misses := m \<rparr>) xs = core_inv t xs"
  "core_inv (t\<lparr> tb_evictions := e \<rparr>) xs = core_inv t xs" "core_inv (t\<lparr> tb_used := u \<rparr>) xs = core_inv t xs"
  by (simp_all add: core_inv_def dll_def indexed_def row_value_def ple_row_address_def ple_bucket_def)

lemma counts_frame [simp]:
  "fixed_part (t\<lparr> tb_hits := h \<rparr>) = fixed_part t" "fixed_part (t\<lparr> tb_misses := m \<rparr>) = fixed_part t"
  "fixed_part (t\<lparr> tb_evictions := e \<rparr>) = fixed_part t" "fixed_part (t\<lparr> tb_used := u \<rparr>) = fixed_part t"
  "recent (t\<lparr> tb_hits := h \<rparr>) xs = recent t xs" "recent (t\<lparr> tb_misses := m \<rparr>) xs = recent t xs"
  "recent (t\<lparr> tb_evictions := e \<rparr>) xs = recent t xs" "recent (t\<lparr> tb_used := u \<rparr>) xs = recent t xs"
  "row_value (t\<lparr> tb_misses := m \<rparr>) r = row_value t r" "row_value (t\<lparr> tb_used := u \<rparr>) r = row_value t r"
  "row_value (t\<lparr> tb_evictions := e \<rparr>) r = row_value t r"
  by (simp_all add: fixed_part_def recent_def row_value_def ple_row_address_def)

lemma map_remove1_inj: "inj_on f (insert s (set xs)) \<Longrightarrow> map f (remove1 s xs) = remove1 (f s) (map f xs)"
  by (induction xs) (auto simp: inj_on_def)

lemma core_lookup:
  assumes "core_inv t xs"
  shows "s \<in> set xs \<Longrightarrow> ple_lookup t (tb_slot_row t ! s) = Some (int s)"
    "row \<notin> set (recent t xs) \<Longrightarrow> ple_lookup t row = Some (-1)"
proof -
  obtain C where ix: "indexed t (set xs) C" and inj: "inj_on ((!) (tb_slot_row t)) (set xs)"
    using assms by (auto simp: core_inv_def)
  show "s \<in> set xs \<Longrightarrow> ple_lookup t (tb_slot_row t ! s) = Some (int s)"
    using lookup_spec(1) [OF ix inj] by blast
  show "row \<notin> set (recent t xs) \<Longrightarrow> ple_lookup t row = Some (-1)"
    using lookup_spec(2) [OF ix inj] by (simp add: recent_def)
qed

lemma hit_access:
  assumes inv: "core_inv t xs" and s: "s \<in> set xs" "tb_slot_row t ! s = row" and cap: "tb_capacity t \<noteq> 0"
  shows "\<exists>t' xs'. ple_table_row t row dst = Some (row_value t row, t') \<and> core_inv t' xs' \<and> set xs' = set xs
    \<and> recent t' xs' = row # remove1 row (recent t xs) \<and> fixed_part t' = fixed_part t \<and> tb_used t' = tb_used t
    \<and> tb_hits t' = tb_hits t + 1 \<and> tb_misses t' = tb_misses t"
proof -
  let ?t1 = "t\<lparr> tb_hits := tb_hits t + 1 \<rparr>"
  let ?t2 = "if tb_head t \<noteq> int s then ple_lru_push_front (ple_lru_detach ?t1 s) s else ?t1"
  have run: "ple_table_row t row dst = Some (tb_arena ?t2 ! s, ?t2)"
    using cap core_lookup(1) [OF inv s(1)] s(2) by (auto simp: ple_table_row_def Let_def)
  have inv1: "core_inv ?t1 xs" using inv by simp
  have d: "distinct xs" "inj_on ((!) (tb_slot_row t)) (set xs)" using inv by (auto simp: core_inv_def dll_def)
  have rec: "recent t (s # remove1 s xs) = row # remove1 row (recent t xs)"
    unfolding recent_def using map_remove1_inj [of "(!) (tb_slot_row t)" s xs] d(2) s by (simp add: insert_absorb)
  have st: "set (s # remove1 s xs) = set xs" using s(1) d(1) by auto
  have both: "core_inv ?t2 (s # remove1 s xs) \<and> same_but_lru ?t1 ?t2"
  proof (cases "tb_head t = int s")
    case True
    have "tb_head t = first xs (-1)" using inv by (simp add: core_inv_def dll_def)
    then have "s # remove1 s xs = xs" using True s(1) by (cases xs) auto
    then show ?thesis using True inv1 by (simp add: same_but_lru_def)
  next
    case False
    then show ?thesis using core_to_front [OF inv1 s(1)] by simp
  qed
  note f = same_but_lru_fields [OF conjunct2 [OF both]]
  have "tb_arena ?t2 ! s = row_value t row"
    unfolding f(3) using inv s by (simp add: core_inv_def)
  moreover have "recent ?t2 (s # remove1 s xs) = row # remove1 row (recent t xs)"
    using rec unfolding recent_def f(2) by simp
  ultimately show ?thesis using run both st f by (intro exI [of _ ?t2] exI [of _ "s # remove1 s xs"]) simp
qed


text \<open>The slot a miss takes: a fresh one, or the one used longest ago.\<close>

lemma take_slot_spec:
  assumes inv: "core_inv t xs" and used: "set xs = {..<tb_used t}" "tb_used t \<le> tb_capacity t" and cap: "tb_capacity t \<noteq> 0"
  shows "\<exists>slot t1 ys. ple_take_slot t = Some (slot, t1) \<and> core_inv t1 ys \<and> slot \<notin> set ys \<and> slot < tb_capacity t
    \<and> set (slot # ys) = {..<tb_used t1} \<and> tb_used t1 \<le> tb_capacity t \<and> recent t1 ys = take (tb_capacity t - 1) (recent t xs)
    \<and> fixed_part t1 = fixed_part t \<and> tb_hits t1 = tb_hits t \<and> tb_misses t1 = tb_misses t"
proof -
  have dx: "distinct xs" using inv by (simp add: core_inv_def dll_def)
  have lx: "length xs = tb_used t" using distinct_card [OF dx] used(1) by simp
  show ?thesis
  proof (cases "tb_used t < tb_capacity t")
    case True
    let ?t1 = "t\<lparr> tb_used := tb_used t + 1 \<rparr>"
    have "set (tb_used t # xs) = {..<tb_used t + 1}" unfolding set_simps used(1) lessThan_Suc Suc_eq_plus1 [symmetric] ..
    moreover have "take (tb_capacity t - 1) (recent t xs) = recent t xs" using lx True by (simp add: recent_def)
    moreover have "tb_used t \<notin> set xs" using used(1) by simp
    ultimately show ?thesis using True inv
      by (intro exI [of _ "tb_used t"] exI [of _ ?t1] exI [of _ xs]) (simp add: ple_take_slot_def)
  next
    case False
    then have full: "tb_used t = tb_capacity t" using used(2) by simp
    then have "xs \<noteq> []" using lx cap by auto
    then obtain ys s where xs: "xs = ys @ [s]" by (cases xs rule: rev_cases) auto
    obtain t1 where r: "ple_chain_remove t s = Some t1" "core_inv (ple_lru_detach t1 s) ys"
      "tb_slot_row (ple_lru_detach t1 s) = tb_slot_row t" "fixed_part (ple_lru_detach t1 s) = fixed_part t"
      "tb_used (ple_lru_detach t1 s) = tb_used t" "tb_hits (ple_lru_detach t1 s) = tb_hits t"
      "tb_misses (ple_lru_detach t1 s) = tb_misses t" "tb_evictions t1 = tb_evictions t"
      using core_evict [of t ys s] inv xs by blast
    have tail: "tb_tail t = int s" using inv xs by (simp add: core_inv_def dll_def lastp_def)
    let ?t2 = "(ple_lru_detach t1 s)\<lparr> tb_evictions := tb_evictions t1 + 1 \<rparr>"
    have run: "ple_take_slot t = Some (s, ?t2)" using False r(1) tail by (simp add: ple_take_slot_def Let_def)
    have "length ys = tb_capacity t - 1" using lx xs full by simp
    then have "recent ?t2 ys = take (tb_capacity t - 1) (recent t xs)" using xs r(3) by (simp add: recent_def)
    moreover have "set (s # ys) = {..<tb_used ?t2}" using used(1) xs r(5) by auto
    moreover have "s < tb_capacity t" using used xs full by auto
    ultimately show ?thesis using run r dx xs full
      by (intro exI [of _ s] exI [of _ ?t2] exI [of _ ys]) simp
  qed
qed

lemma miss_access:
  assumes inv: "core_inv t xs" and used: "set xs = {..<tb_used t}" "tb_used t \<le> tb_capacity t" and cap: "tb_capacity t \<noteq> 0"
    and row: "row \<notin> set (recent t xs)" "row_in_map t row" and dim: "32 dvd unat (c_row_dim (tb_constants t))"
  shows "\<exists>t' xs'. ple_table_row t row dst = Some (row_value t row, t') \<and> core_inv t' xs' \<and> set xs' = {..<tb_used t'}
    \<and> tb_used t' \<le> tb_capacity t \<and> recent t' xs' = row # take (tb_capacity t - 1) (recent t xs)
    \<and> fixed_part t' = fixed_part t \<and> tb_hits t' = tb_hits t \<and> tb_misses t' = tb_misses t + 1"
proof -
  let ?t0 = "t\<lparr> tb_misses := tb_misses t + 1 \<rparr>"
  obtain slot t1 ys where sl: "ple_take_slot ?t0 = Some (slot, t1)" "core_inv t1 ys" "slot \<notin> set ys"
    "slot < tb_capacity t" "set (slot # ys) = {..<tb_used t1}" "tb_used t1 \<le> tb_capacity t"
    "recent t1 ys = take (tb_capacity t - 1) (recent t xs)" "fixed_part t1 = fixed_part t"
    "tb_hits t1 = tb_hits t" "tb_misses t1 = tb_misses t + 1"
    using take_slot_spec [of ?t0 xs] inv used cap by auto
  have c: "tb_capacity t1 = tb_capacity t" "tb_constants t1 = tb_constants t" using sl(8) by (simp_all add: fixed_part_def)
  have m: "row_in_map t1 row" using fixed_part_row_value(2) [OF sl(8)] row(2) by simp
  have nr: "row \<notin> set (recent t1 ys)" unfolding sl(7) using row(1) by (auto dest: in_set_takeD)
  obtain t' where f: "ple_fill_slot t1 row slot = (row_value t1 row, t')" "core_inv t' (slot # ys)"
    "recent t' (slot # ys) = row # recent t1 ys" "fixed_part t' = fixed_part t1" "tb_used t' = tb_used t1"
    "tb_hits t' = tb_hits t1" "tb_misses t' = tb_misses t1"
    using core_fill [OF sl(2,3) _ nr m] sl(4) c dim by auto
  have "ple_table_row t row dst = Some (row_value t row, t')"
    using cap core_lookup(2) [OF inv row(1)] sl(1) f(1) fixed_part_row_value(1) [OF sl(8)]
    by (simp add: ple_table_row_def)
  then show ?thesis using f sl by (intro exI [of _ t'] exI [of _ "slot # ys"]) simp
qed

lemma row_access:
  assumes inv: "hot_inv t xs" and row: "row_in_map t row" and dst: "length dst = unat (c_row_dim (tb_constants t))"
  shows "\<exists>t' xs'. ple_table_row t row dst = Some (row_value t row, t') \<and> hot_inv t' xs'
    \<and> recent t' xs' = lru_touch (tb_capacity t) row (recent t xs) \<and> fixed_part t' = fixed_part t
    \<and> tb_hits t' = tb_hits t + (if row \<in> set (recent t xs) then 1 else 0)
    \<and> tb_misses t' = tb_misses t + (if row \<in> set (recent t xs) then 0 else 1)"
proof (cases "tb_capacity t = 0")
  case True
  have dim: "32 dvd unat (c_row_dim (tb_constants t))" using inv by (simp add: hot_inv_def)
  have "ple_table_row t row dst = Some (row_value t row, t\<lparr> tb_misses := tb_misses t + 1 \<rparr>)"
    using True read_row_value(1) [OF dim row dst] by (simp add: ple_table_row_def)
  then show ?thesis using True inv
    by (intro exI [of _ "t\<lparr> tb_misses := tb_misses t + 1 \<rparr>"] exI [of _ "[]"])
      (simp add: hot_inv_def lru_touch_def recent_def fixed_part_def)
next
  case False
  have h: "32 dvd unat (c_row_dim (tb_constants t))" "core_inv t xs" "set xs = {..<tb_used t}" "tb_used t \<le> tb_capacity t"
    using inv False by (simp_all add: hot_inv_def)
  have keep: "hot_inv t' xs'" if "fixed_part t' = fixed_part t" "core_inv t' xs'" "set xs' = {..<tb_used t'}" "tb_used t' \<le> tb_capacity t" for t' xs'
    using that h(1) False by (simp add: hot_inv_def fixed_part_def)
  show ?thesis
  proof (cases "row \<in> set (recent t xs)")
    case True
    then obtain s where s: "s \<in> set xs" "tb_slot_row t ! s = row" by (auto simp: recent_def)
    obtain t' xs' where "ple_table_row t row dst = Some (row_value t row, t')" "core_inv t' xs'" "set xs' = set xs"
      "recent t' xs' = row # remove1 row (recent t xs)" "fixed_part t' = fixed_part t" "tb_used t' = tb_used t"
      "tb_hits t' = tb_hits t + 1" "tb_misses t' = tb_misses t" using hit_access [OF h(2) s False, of dst] by auto
    then show ?thesis using True False keep [of t' xs'] h by (auto simp: lru_touch_def)
  next
    case miss: False
    obtain t' xs' where "ple_table_row t row dst = Some (row_value t row, t')" "core_inv t' xs'" "set xs' = {..<tb_used t'}"
      "tb_used t' \<le> tb_capacity t" "recent t' xs' = row # take (tb_capacity t - 1) (recent t xs)"
      "fixed_part t' = fixed_part t" "tb_hits t' = tb_hits t" "tb_misses t' = tb_misses t + 1"
      using miss_access [OF h(2,3,4) False miss row h(1), of dst] by auto
    then show ?thesis using miss False keep [of t' xs'] by (auto simp: lru_touch_def)
  qed
qed

end
