(* ===== verification/Ple_Serve.thy ===== *)
theory Ple_Serve
  imports Ple_Hot
begin

text \<open>
  The table as its callers use it: whole requests through the hot set, opening with its checks
  and its sizing, and the path from tokens to rows.
\<close>

subsection \<open>A cache that serves exact values\<close>

text \<open>
  The interface the forward pass relies on: a state that represents the rows in order of use, and
  an access that always returns the row's own value. \<open>key\<close> is the part of a request that names
  the row.
\<close>

locale lru_server =
  fixes rep :: "'s \<Rightarrow> 'r list \<Rightarrow> bool"
    and key :: "'q \<Rightarrow> 'r"
    and access :: "'s \<Rightarrow> 'q \<Rightarrow> ('v \<times> 's) option"
    and value_of :: "'r \<Rightarrow> 'v"
    and cap :: nat
    and valid :: "'q \<Rightarrow> bool"
  assumes access_ok: "rep s rs \<Longrightarrow> valid q \<Longrightarrow>
      \<exists>s'. access s q = Some (value_of (key q), s') \<and> rep s' (lru_touch cap (key q) rs)"
    and rep_bounded: "rep s rs \<Longrightarrow> length rs \<le> cap \<and> distinct rs"
begin

primrec serve :: "'s \<Rightarrow> 'q list \<Rightarrow> ('v list \<times> 's) option" where
  "serve s [] = Some ([], s)"
| "serve s (q # qs) =
     (case access s q of
        None \<Rightarrow> None
      | Some (v, s') \<Rightarrow> map_option (\<lambda>(vs, s''). (v # vs, s'')) (serve s' qs))"

lemma serve_exact:
  "rep s rs \<Longrightarrow> list_all valid qs \<Longrightarrow>
   \<exists>s'. serve s qs = Some (map (value_of \<circ> key) qs, s') \<and> rep s' (fold (lru_touch cap) (map key qs) rs)"
proof (induction qs arbitrary: s rs)
  case (Cons q qs)
  obtain s1 where a: "access s q = Some (value_of (key q), s1)" "rep s1 (lru_touch cap (key q) rs)"
    using access_ok [OF Cons.prems(1), of q] Cons.prems(2) by auto
  with Cons.IH [OF a(2)] Cons.prems(2) show ?case by auto
qed simp

lemma serve_bounded:
  assumes "rep s rs" "list_all valid qs"
  shows "length (fold (lru_touch cap) (map key qs) rs) \<le> cap \<and> distinct (fold (lru_touch cap) (map key qs) rs)"
  using serve_exact [OF assms] rep_bounded by blast

end

text \<open>The hot set of the table is such a server, for the tables with the fixed part of \<open>t0\<close>.\<close>

definition hot_rep :: "ple_table \<Rightarrow> ple_table \<Rightarrow> u64 list \<Rightarrow> bool" where
  "hot_rep t0 t rs \<longleftrightarrow> fixed_part t = fixed_part t0 \<and> (\<exists>xs. hot_inv t xs \<and> rs = recent t xs)"

definition hot_valid :: "ple_table \<Rightarrow> u64 \<times> f32 list \<Rightarrow> bool" where
  "hot_valid t0 q \<longleftrightarrow> row_in_map t0 (fst q) \<and> length (snd q) = unat (c_row_dim (tb_constants t0))"

definition hot_access :: "ple_table \<Rightarrow> u64 \<times> f32 list \<Rightarrow> (f32 list \<times> ple_table) option" where
  "hot_access t q = ple_table_row t (fst q) (snd q)"

lemma hot_inv_recent: "hot_inv t xs \<Longrightarrow> length (recent t xs) \<le> tb_capacity t \<and> distinct (recent t xs)"
proof (cases "tb_capacity t = 0")
  case False
  assume "hot_inv t xs"
  then have h: "core_inv t xs" "set xs = {..<tb_used t}" "tb_used t \<le> tb_capacity t" using False by (simp_all add: hot_inv_def)
  then have d: "distinct xs" "inj_on ((!) (tb_slot_row t)) (set xs)" by (auto simp: core_inv_def dll_def)
  then have "length xs = tb_used t" using distinct_card [OF d(1)] h(2) by simp
  then show ?thesis using d h(3) by (simp add: recent_def distinct_map)
qed (simp add: hot_inv_def recent_def)

interpretation hot: lru_server "hot_rep t0" fst hot_access "row_value t0" "tb_capacity t0" "hot_valid t0" for t0
proof unfold_locales
  fix t rs q assume r: "hot_rep t0 t rs" and v: "hot_valid t0 q"
  from r obtain xs where f: "fixed_part t = fixed_part t0" and xs: "hot_inv t xs" "rs = recent t xs"
    by (auto simp: hot_rep_def)
  have c: "tb_constants t = tb_constants t0" "tb_capacity t = tb_capacity t0" using f by (simp_all add: fixed_part_def)
  have m: "row_in_map t (fst q)" "length (snd q) = unat (c_row_dim (tb_constants t))"
    using v fixed_part_row_value(2) [OF f] c by (simp_all add: hot_valid_def)
  show "\<exists>t'. hot_access t q = Some (row_value t0 (fst q), t') \<and> hot_rep t0 t' (lru_touch (tb_capacity t0) (fst q) rs)"
    using row_access [OF xs(1) m] f c fixed_part_row_value(1) [OF f] xs(2) unfolding hot_rep_def hot_access_def by metis
next
  fix t rs assume "hot_rep t0 t rs"
  then show "length rs \<le> tb_capacity t0 \<and> distinct rs"
    using hot_inv_recent by (fastforce simp: hot_rep_def fixed_part_def)
qed

lemma table_rows_serve:
  assumes "hot_rep t0 t rs" "list_all (hot_valid t0) (zip ids outs)" "length outs = length ids"
  shows "ple_table_rows t ids outs = map_option (\<lambda>(vs, t'). (True, vs, t')) (hot.serve t (zip ids outs))"
  using assms
proof (induction ids arbitrary: t rs outs)
  case (Cons row ids)
  obtain dst outs' where o: "outs = dst # outs'" using Cons.prems(3) by (cases outs) auto
  have v: "hot_valid t0 (row, dst)" "list_all (hot_valid t0) (zip ids outs')" using Cons.prems(2) o by simp_all
  obtain t1 where a: "hot_access t (row, dst) = Some (row_value t0 row, t1)"
    "hot_rep t0 t1 (lru_touch (tb_capacity t0) row rs)" using hot.access_ok [OF Cons.prems(1) v(1)] by auto
  have "tb_constants t = tb_constants t0" using Cons.prems(1) by (simp add: hot_rep_def fixed_part_def)
  then have "\<not> row \<ge> c_table_rows (tb_constants t)" using v(1) by (simp add: hot_valid_def row_in_map_def not_le)
  moreover have "ple_table_row t row dst = Some (row_value t0 row, t1)" using a(1) by (simp add: hot_access_def)
  ultimately show ?case using Cons.IH [OF a(2) v(2)] Cons.prems(3) o a(1)
    by (cases "hot.serve t1 (zip ids outs')") auto
qed simp

lemma table_rows_exact:
  assumes "hot_rep t0 t rs" "list_all (row_in_map t0) ids" "length outs = length ids"
    "list_all (\<lambda>w. length w = unat (c_row_dim (tb_constants t0))) outs"
  shows "\<exists>t'. ple_table_rows t ids outs = Some (True, map (row_value t0) ids, t')
    \<and> hot_rep t0 t' (fold (lru_touch (tb_capacity t0)) ids rs)"
proof -
  have v: "list_all (hot_valid t0) (zip ids outs)"
    using assms(2-4) by (auto simp: list_all_iff hot_valid_def dest: set_zip_leftD set_zip_rightD)
  have z: "map fst (zip ids outs) = ids" using assms(3) by simp
  then have z': "map (row_value t0 \<circ> fst) (zip ids outs) = map (row_value t0) ids" by (metis map_map)
  show ?thesis using hot.serve_exact [OF assms(1) v] table_rows_serve [OF assms(1) v assms(3)] z z' by auto
qed

lemma table_row_lookups:
  assumes "hot_inv t xs" "row_in_map t row" "length dst = unat (c_row_dim (tb_constants t))"
    "ple_table_row t row dst = Some (v, t')"
  shows "tb_hits t' + tb_misses t' = tb_hits t + tb_misses t + 1"
  using row_access [OF assms(1-3)] assms(4) by auto

text \<open>The two counters together count the requests.\<close>

lemma table_rows_lookups:
  assumes "hot_inv t xs" "list_all (row_in_map t) ids" "length outs = length ids"
    "list_all (\<lambda>w. length w = unat (c_row_dim (tb_constants t))) outs"
    "ple_table_rows t ids outs = Some (True, vs, t')"
  shows "tb_hits t' + tb_misses t' = tb_hits t + tb_misses t + of_nat (length ids)"
  using assms
proof (induction ids arbitrary: t xs outs vs)
  case (Cons row ids)
  obtain dst outs' where o: "outs = dst # outs'" using Cons.prems(3) by (cases outs) auto
  have m: "row_in_map t row" "length dst = unat (c_row_dim (tb_constants t))" using Cons.prems(2,4) o by simp_all
  obtain t1 xs1 where a: "ple_table_row t row dst = Some (row_value t row, t1)" "hot_inv t1 xs1" "fixed_part t1 = fixed_part t"
    using row_access [OF Cons.prems(1) m] by blast
  have c: "tb_constants t1 = tb_constants t" using a(3) by (simp add: fixed_part_def)
  have "\<not> row \<ge> c_table_rows (tb_constants t)" using m(1) by (simp add: row_in_map_def not_le)
  then obtain vs' where r: "ple_table_rows t1 ids outs' = Some (True, vs', t')"
    using Cons.prems(5) o a(1) by auto
  have "list_all (row_in_map t1) ids" using Cons.prems(2) fixed_part_row_value(2) [OF a(3)] by (simp add: list_all_iff)
  from Cons.IH [OF a(2) this _ _ r] table_row_lookups [OF Cons.prems(1) m a(1)] Cons.prems(3,4) o c
  show ?case by simp
qed simp

subsection \<open>Sizing\<close>

lemma bucket_count_bounds:
  "0 < b \<Longrightarrow> b < 2 * cap \<Longrightarrow> 0 < ple_bucket_count cap b \<and> cap \<le> ple_bucket_count cap b \<and> ple_bucket_count cap b < 2 * cap"
proof (induction cap b rule: ple_bucket_count.induct)
  case (1 cap b)
  then show ?case by (subst (1 2 3) ple_bucket_count.simps) auto
qed

lemma shrink_fits: "c * per_slot + buckets * 4 \<le> limit \<Longrightarrow> ple_shrink per_slot buckets limit c = c"
  by (cases c) simp_all

definition hot_capacity :: "nat \<Rightarrow> nat \<Rightarrow> nat" where
  "hot_capacity row_floats limit = min (limit div (ple_per_slot row_floats + 8)) (nat INT32_MAX)"

text \<open>The shrinking loop never runs: eight bytes a slot are enough for the buckets.\<close>

lemma size_hot_set_eq:
  fixes row_floats limit :: nat
  defines "cap \<equiv> hot_capacity row_floats limit"
  defines "buckets \<equiv> ple_bucket_count cap 1"
  shows "limit < ple_per_slot row_floats + 8 \<Longrightarrow> ple_size_hot_set row_floats limit = (0, 0, 0)"
    "ple_per_slot row_floats + 8 \<le> limit \<Longrightarrow>
       ple_size_hot_set row_floats limit = (cap, buckets, cap * ple_per_slot row_floats + buckets * 4)
       \<and> 0 < cap \<and> cap \<le> nat INT32_MAX \<and> cap \<le> buckets \<and> buckets < 2 * cap
       \<and> cap * ple_per_slot row_floats + buckets * 4 \<le> limit"
proof -
  show "limit < ple_per_slot row_floats + 8 \<Longrightarrow> ple_size_hot_set row_floats limit = (0, 0, 0)"
    by (simp add: ple_size_hot_set_def)
  assume l: "ple_per_slot row_floats + 8 \<le> limit"
  then have "0 < limit div (ple_per_slot row_floats + 8)" by (simp add: div_greater_zero_iff)
  then have c: "0 < cap" "cap \<le> nat INT32_MAX" "cap \<le> limit div (ple_per_slot row_floats + 8)"
    unfolding cap_def hot_capacity_def by (simp_all add: INT32_MAX_def)
  have b: "cap \<le> buckets" "buckets < 2 * cap" using bucket_count_bounds [of 1 cap] c(1) unfolding buckets_def by auto
  have "cap * (ple_per_slot row_floats + 8) \<le> limit" using c(3) by (simp add: less_eq_div_iff_mult_less_eq)
  then have f: "cap * ple_per_slot row_floats + buckets * 4 \<le> limit" using b(2) by (simp add: algebra_simps)
  have "ple_size_hot_set row_floats limit = (cap, buckets, cap * ple_per_slot row_floats + buckets * 4)"
    using l c(1) shrink_fits [OF f] unfolding buckets_def
    by (simp add: ple_size_hot_set_def Let_def not_less hot_capacity_def [symmetric] cap_def [symmetric])
  then show "ple_size_hot_set row_floats limit = (cap, buckets, cap * ple_per_slot row_floats + buckets * 4)
       \<and> 0 < cap \<and> cap \<le> nat INT32_MAX \<and> cap \<le> buckets \<and> buckets < 2 * cap
       \<and> cap * ple_per_slot row_floats + buckets * 4 \<le> limit" using c b f by blast
qed

lemma size_hot_set_bounds:
  assumes sz: "ple_size_hot_set row_floats limit = (cap, buckets, resident)"
  shows "resident \<le> limit" "cap \<le> nat INT32_MAX" "resident = cap * ple_per_slot row_floats + buckets * 4"
    "cap = 0 \<longleftrightarrow> limit < ple_per_slot row_floats + 8" "0 < cap \<Longrightarrow> 0 < buckets \<and> buckets < 2 ^ 64"
proof -
  have "resident \<le> limit \<and> cap \<le> nat INT32_MAX \<and> resident = cap * ple_per_slot row_floats + buckets * 4
      \<and> (cap = 0 \<longleftrightarrow> limit < ple_per_slot row_floats + 8) \<and> (0 < cap \<longrightarrow> 0 < buckets \<and> buckets < 2 * cap)"
  proof (cases "limit < ple_per_slot row_floats + 8")
    case True
    then show ?thesis using sz size_hot_set_eq(1) [OF True] by simp
  next
    case False
    then have l: "ple_per_slot row_floats + 8 \<le> limit" by simp
    show ?thesis using sz size_hot_set_eq(2) [OF l] l by auto
  qed
  moreover have "nat INT32_MAX < 2 ^ 31" by (simp add: INT32_MAX_def)
  ultimately show "resident \<le> limit" "cap \<le> nat INT32_MAX" "resident = cap * ple_per_slot row_floats + buckets * 4"
    "cap = 0 \<longleftrightarrow> limit < ple_per_slot row_floats + 8" "0 < cap \<Longrightarrow> 0 < buckets \<and> buckets < 2 ^ 64" by auto
qed

subsection \<open>A table that has just been opened\<close>

lemma new_table_inv:
  assumes "32 dvd unat (c_row_dim c)"
  shows "hot_inv (ple_new_table hp tn c m limit) []"
proof -
  obtain cap buckets resident where sz: "ple_size_hot_set (unat (c_row_dim c)) limit = (cap, buckets, resident)"
    by (cases "ple_size_hot_set (unat (c_row_dim c)) limit")
  let ?t = "ple_new_table hp tn c m limit"
  have f: "tb_capacity ?t = cap" "tb_used ?t = 0" "tb_constants ?t = c\<lparr> c_table_rows := pt_dim1 tn \<rparr>"
    by (simp_all add: ple_new_table_def sz Let_def)
  have "core_inv ?t []" if "cap \<noteq> 0"
  proof -
    have "indexed ?t (set []) (\<lambda>_. [])"
      using size_hot_set_bounds(5) [OF sz] that by (simp add: indexed_def ple_new_table_def sz Let_def)
    moreover have "dll ?t []" by (simp add: dll_def ple_new_table_def sz Let_def lastp_def)
    ultimately show ?thesis by (auto simp: core_inv_def, auto simp: ple_new_table_def sz Let_def)
  qed
  then show ?thesis using assms f by (simp add: hot_inv_def)
qed

definition table_fits :: "ple_table \<Rightarrow> bool" where
  "table_fits t \<longleftrightarrow> unat (c_table_rows (tb_constants t)) * tb_quant_row_bytes t < 2 ^ 64"

lemma check_tensor_rows:
  assumes chk: "ple_check_tensor tn c (length m) = None" and t: "t = ple_new_table hp tn c m limit"
    and fits: "table_fits t" and row: "row < c_table_rows (tb_constants t)"
  shows "row_in_map t row"
proof -
  let ?q = "unat (c_row_dim c) div 32 * 18"
  have f: "c_table_rows (tb_constants t) = pt_dim1 tn" "tb_quant_row_bytes t = ?q" "tb_offset t = pt_offset tn"
    "tb_map t = m" "c_row_dim (tb_constants t) = c_row_dim c"
    unfolding t by (simp_all add: ple_new_table_def Let_def split: prod.split)
  have q: "unat (ucast (c_row_dim c div 32) * 18 :: u64) = ?q"
  proof -
    have "unat (c_row_dim c) < 4294967296" using unsigned_less [of "c_row_dim c", where ?'a = nat] by simp
    then show ?thesis by (simp add: unat_word_ariths unsigned_ucast_eq take_bit_nat_eq_self unat_div_distrib)
  qed
  then have q': "(of_nat ?q :: u64) = ucast (c_row_dim c div 32) * 18" using q [symmetric] by simp
  have need: "unat (pt_dim1 tn * (ucast (c_row_dim c div 32) * 18)) = unat (pt_dim1 tn) * ?q"
    using fits by (subst unat_mult_lem [THEN iffD1]) (simp_all add: q table_fits_def f)
  have r: "unat row + 1 \<le> unat (pt_dim1 tn)" using row by (simp add: f word_less_nat_alt)
  then have le: "unat row * ?q + ?q \<le> unat (pt_dim1 tn) * ?q" by (metis add_mult_distrib mult.left_neutral mult_le_mono1)
  then have addr: "unat (row * of_nat ?q) = unat row * ?q"
    unfolding q' using fits by (subst unat_mult_lem [THEN iffD1]) (simp_all add: q table_fits_def f)
  have "unat (pt_offset tn) \<le> length m" "unat (pt_dim1 tn) * ?q \<le> length m - unat (pt_offset tn)"
    using chk need by (auto simp: ple_check_tensor_def Let_def split: if_splits)
  then show ?thesis unfolding row_in_map_def ple_row_address_def f addr using row [unfolded f] le by linarith
qed

text \<open>What an open table is: the scan's constants, a checked tensor and an empty hot set.\<close>

lemma table_open_Inr:
  assumes "ple_table_open os hp paths limit = (Inr t, ev)"
  shows "\<exists>scan m tn c. ple_scan_paths os True paths = (Inr (scan, Some m), ev) \<and> sc_tensor scan = Some tn
    \<and> ple_finish_constants scan = Inr c \<and> ple_check_tensor tn c (length (pm_map m)) = None
    \<and> t = ple_new_table hp tn c (pm_map m) limit"
  using assms unfolding ple_table_open_def
  by (auto simp: Let_def split: prod.splits sum.splits option.splits if_splits)

lemma new_table_fields:
  "tb_map (ple_new_table hp tn c m limit) = m" "tb_ceiling (ple_new_table hp tn c m limit) = limit"
  "tb_constants (ple_new_table hp tn c m limit) = c\<lparr> c_table_rows := pt_dim1 tn \<rparr>"
  "tb_used (ple_new_table hp tn c m limit) = 0" "tb_hits (ple_new_table hp tn c m limit) = 0"
  "tb_misses (ple_new_table hp tn c m limit) = 0"
  by (simp_all add: ple_new_table_def Let_def split: prod.split)

lemma new_table_size:
  fixes hp tn c m limit
  defines "t \<equiv> ple_new_table hp tn c m limit"
  shows "tb_resident t \<le> limit" "tb_capacity t \<le> nat INT32_MAX"
    "tb_resident t = tb_capacity t * (unat (c_row_dim c) * 4 + 20) + tb_buckets t * 4"
proof -
  obtain cap buckets resident where sz: "ple_size_hot_set (unat (c_row_dim c)) limit = (cap, buckets, resident)"
    by (cases "ple_size_hot_set (unat (c_row_dim c)) limit")
  then have "tb_resident t = resident" "tb_capacity t = cap" "tb_buckets t = buckets"
    by (simp_all add: t_def ple_new_table_def Let_def)
  then show "tb_resident t \<le> limit" "tb_capacity t \<le> nat INT32_MAX"
    "tb_resident t = tb_capacity t * (unat (c_row_dim c) * 4 + 20) + tb_buckets t * 4"
    using size_hot_set_bounds(1-3) [OF sz] by (simp_all add: ple_per_slot_def)
qed

lemma wf_table_rows [simp]: "ple_constants_wf (c\<lparr> c_table_rows := n \<rparr>) = ple_constants_wf c"
  by (simp add: ple_constants_wf_def)

lemma check_tensor_total: "ple_check_tensor tn c k = None \<Longrightarrow> c_row_total c \<le> pt_dim1 tn"
  by (auto simp: ple_check_tensor_def Let_def not_less split: if_splits)

lemma table_open_refused:
  assumes "ple_table_open os hp paths limit = (Inl e, ev)"
  shows "ple_live ([], []) ev = ([], [])" "e \<noteq> Ple_Over_Ceiling r k"
proof -
  obtain res ev0 where p: "ple_scan_paths os True paths = (res, ev0)" by (cases "ple_scan_paths os True paths")
  have live: "case res of Inl e \<Rightarrow> ple_live ([], []) ev0 = ([], []) | Inr (s, keep) \<Rightarrow> ple_live ([], []) ev0 = held_by keep"
    using scan_paths_live [where os = os and want = True and paths = paths] p by (auto split: sum.splits)
  have over: "\<not> tb_resident (ple_new_table hp tn c m limit) > tb_ceiling (ple_new_table hp tn c m limit)" for tn c m
    using new_table_size(1) [of hp tn c m limit] by (simp add: new_table_fields)
  show "ple_live ([], []) ev = ([], [])"
    using assms live p unfolding ple_table_open_def
    by (auto simp: Let_def close_held_live split: sum.splits option.splits if_splits)
  show "e \<noteq> Ple_Over_Ceiling r k"
    using assms p over unfolding ple_table_open_def
    by (auto simp: Let_def ple_check_tensor_def split: sum.splits option.splits if_splits)
qed

subsection \<open>Ids inside the table\<close>

lemma token_rows_below:
  assumes "ple_constants_wf c" "ple_history_of c pre h"
    and "list_all (\<lambda>t. 0 \<le> t \<and> t < int (unat (c_vocab_size c))) pre" "0 \<le> cur" "cur < int (unat (c_vocab_size c))"
  shows "list_all (\<lambda>r. r < c_row_total c) (ple_token_rows c h cur)"
  unfolding list_all_length
proof (intro allI impI)
  fix k assume "k < length (ple_token_rows c h cur)"
  then have k: "k < unat (c_head_count c)" using ple_token_rows_ref(1) [OF assms] by simp
  have "unat (ple_token_rows c h cur ! k) < unat (c_head_offsets c ! k) + unat (c_head_vocab_sizes c ! k)"
    using ple_token_rows_ref(2) [OF assms k] unfolding uint_nat by linarith
  then show "ple_token_rows c h cur ! k < c_row_total c"
    using head_band(2) [OF assms(1) k] unfolding word_less_nat_alt by linarith
qed

lemma row_ids_below:
  assumes wf: "ple_constants_wf c"
  shows "ple_history_of c pre h \<Longrightarrow> list_all (\<lambda>t. 0 \<le> t \<and> t < int (unat (c_vocab_size c))) (pre @ ts) \<Longrightarrow>
    list_all (\<lambda>r. r < c_row_total c) (fst (ple_row_ids c h ts))"
proof (induction ts arbitrary: pre h)
  case (Cons x ts)
  from Cons.IH [OF history_advance_of [OF wf Cons.prems(1), of x]] token_rows_below [OF wf Cons.prems(1), of x] Cons.prems(2)
  show ?case by (cases "ple_row_ids c (ple_advance c h x) ts") simp
qed simp

lemma row_ids_exact:
  assumes "ple_constants_wf c" "list_all (\<lambda>t. 0 \<le> t \<and> t < int (unat (c_vocab_size c))) ts"
  defines "ids \<equiv> fst (ple_row_ids c (ple_history_reset c) ts)"
  shows "length ids = length ts * unat (c_head_count c)"
    "i < length ts \<Longrightarrow> head < unat (c_head_count c) \<Longrightarrow>
       ids ! (i * unat (c_head_count c) + head) = of_int (ref_row c (take i ts) (ts ! i) head)"
    "list_all (\<lambda>r. r < c_row_total c) ids"
proof -
  have h: "ple_history_of c [] (ple_history_reset c)" by (rule history_reset_of [OF assms(1)])
  note r = ple_row_ids_ref [OF assms(1) h, of ts, unfolded append.left_neutral, OF assms(2), folded ids_def]
  show "length ids = length ts * unat (c_head_count c)" using r by simp
  show "list_all (\<lambda>r. r < c_row_total c) ids"
    unfolding ids_def by (rule row_ids_below [OF assms(1) h]) (simp add: assms(2) del: of_nat_unat)
  assume "i < length ts" "head < unat (c_head_count c)"
  then have "uint (ids ! (i * unat (c_head_count c) + head)) = ref_row c (take i ts) (ts ! i) head" using r by blast
  then show "ids ! (i * unat (c_head_count c) + head) = of_int (ref_row c (take i ts) (ts ! i) head)"
    by (metis word_of_int_uint)
qed

lemma band_index: "i < n \<Longrightarrow> head < (k::nat) \<Longrightarrow> i * k + head < n * k"
proof -
  assume a: "i < n" "head < k"
  then have "i * k + head < Suc i * k" by simp
  also have "\<dots> \<le> n * k" using a(1) by (intro mult_le_mono1) simp
  finally show ?thesis .
qed

subsection \<open>A small checkpoint\<close>

definition demo_u32 :: "u32 \<Rightarrow> gguf_value" where
  "demo_u32 v = Gguf_Scalar PLE_GGUF_UINT32 (le_put32 v)"

definition demo_u64s :: "u64 list \<Rightarrow> gguf_value" where
  "demo_u64s vs = Gguf_Array PLE_GGUF_UINT64 (map (\<lambda>v. Gguf_Scalar PLE_GGUF_UINT64 (le_put64 v)) vs)"

text \<open>The constants of \<open>demo_scan\<close> and a table of eighteen rows of one block.\<close>

definition demo_ckpt :: gguf_shard where
  "demo_ckpt = \<lparr> gs_version = 3,
     gs_kvs = [(bytes_of ''qwen4exp.ple.ngram_size'', demo_u32 3),
               (bytes_of ''qwen4exp.ple.heads_per_ngram'', demo_u32 1),
               (bytes_of ''qwen4exp.embedding_length_per_layer_input'', demo_u32 32),
               (bytes_of ''qwen4exp.ple.eos_token_id'', demo_u32 2),
               (bytes_of ''qwen4exp.ple.conv_kernel'', demo_u32 4),
               (bytes_of ''qwen4exp.ple.layers'', demo_u64s [0]),
               (bytes_of ''tokenizer.ggml.tokens'', Gguf_Array PLE_GGUF_STRING (map (\<lambda>_. Gguf_String []) [0::nat, 1, 2, 3, 4, 5])),
               (bytes_of ''qwen4exp.ple.layer_multipliers'', demo_u64s [3, 5, 9]),
               (bytes_of ''qwen4exp.ple.head_vocab_sizes'', demo_u64s [7, 11]),
               (bytes_of ''qwen4exp.ple.head_offsets'', demo_u64s [0, 7])],
     gs_tensors = [\<lparr> gt_name = bytes_of PLE_TABLE_TENSOR, gt_dims = [32, 18], gt_type = 20, gt_offset = 0 \<rparr>],
     gs_data = replicate 400 0 \<rparr>"

definition demo_os :: ple_os where
  "demo_os = \<lparr> os_open = \<lambda>_. True, os_stat = \<lambda>_. Some 1068, os_mmap = \<lambda>_. Some (gguf_put_shard demo_ckpt) \<rparr>"

definition demo_heap :: ple_heap where
  "demo_heap = \<lparr> hp_calloc = True, hp_malloc = True, hp_float = \<lambda>_ _. F32 0, hp_row = \<lambda>_. 0, hp_link = \<lambda>_. 0 \<rparr>"

lemma demo_get [simp]:
  "gguf_u32 (demo_u32 v) = Some v" "gguf_int (demo_u32 v) = Some (ucast v)" "gguf_wf d (demo_u32 v)"
  "gguf_type (demo_u32 v) = PLE_GGUF_UINT32" "length (gguf_put (demo_u32 v)) = 4" "gguf_ints (demo_u32 v) = None"
  "gguf_count (demo_u32 v) = None"
  using le_get32_put32 [of v "[]"] by (simp_all add: demo_u32_def)

lemma demo_gets [simp]:
  "gguf_ints (demo_u64s vs) = Some vs" "gguf_type (demo_u64s vs) = PLE_GGUF_ARRAY"
  "length (gguf_put (demo_u64s vs)) = 12 + 8 * length vs" "gguf_u32 (demo_u64s vs) = None" "gguf_int (demo_u64s vs) = None"
  "8 * length vs < 2 ^ 64 \<Longrightarrow> gguf_wf 0 (demo_u64s vs)"
proof -
  have "le_get64 (le_put64 v) = v" for v using le_get64_put64 [of v "[]"] by simp
  then show "gguf_ints (demo_u64s vs) = Some vs" by (induction vs) (simp_all add: demo_u64s_def gguf_types)
  show "length (gguf_put (demo_u64s vs)) = 12 + 8 * length vs"
    by (induction vs) (simp_all add: demo_u64s_def)
qed (simp_all add: demo_u64s_def list_all_iff)

lemma length_bytes_of [simp]: "length (bytes_of s) = length s"
  by (simp add: bytes_of_def)

lemma demo_ckpt_ok: "shard_ok demo_ckpt"
  unfolding shard_ok_def demo_ckpt_def
  by (simp add: kv_ok_def array_ok_def at_key_def tensor_ok_def PLE_TABLE_TENSOR_def PLE_MAX_LAYERS_def PLE_MAX_NGRAM_def PLE_MAX_HEADS_def gguf_types)

lemma demo_header: "length (gguf_put_header demo_ckpt) = 668"
  by (simp add: gguf_put_header_def demo_ckpt_def gguf_put_kv_def gguf_put_string_def gguf_put_tensor_def PLE_TABLE_TENSOR_def)

definition demo_tensor :: ple_tensor where
  "demo_tensor = \<lparr> pt_path = 0, pt_offset = 672, pt_dim0 = 32, pt_dim1 = 18, pt_type = 20 \<rparr>"

lemma demo_scan_file:
  "ple_scan_file (gguf_put_shard demo_ckpt) 0 path ple_scan_empty = Inr (demo_scan\<lparr> sc_tensor := Some demo_tensor \<rparr>)"
proof -
  have kv: "fold note_kv (gs_kvs demo_ckpt) ple_scan_empty = demo_scan"
    by (simp add: demo_ckpt_def note_kv_def at_key_def pick_def ple_scan_empty_def demo_scan_def)
  have al: "shard_align demo_ckpt = 32"
    by (simp add: shard_align_def note_align_def demo_ckpt_def at_key_def)
  show ?thesis unfolding ple_scan_file_put [OF demo_ckpt_ok] kv al demo_header
    by (simp add: demo_ckpt_def note_tensor_def ple_make_absolute_def demo_scan_def demo_tensor_def ple_dim_def)
qed

lemma demo_length: "length (gguf_put_shard demo_ckpt) = 1068"
  using demo_header by (simp add: gguf_put_shard_def demo_ckpt_def)

definition demo_consts :: ple_constants where
  "demo_consts = ple_fill_constants demo_scan 18"

lemma finish_constants_tensor: "ple_finish_constants (s\<lparr> sc_tensor := x \<rparr>) = ple_finish_constants s"
proof -
  have "ple_require (s\<lparr> sc_tensor := x \<rparr>) = ple_require s" by (simp add: ple_require_def ple_required_def)
  moreover have "ple_check_scalars (s\<lparr> sc_tensor := x \<rparr>) = ple_check_scalars s"
    by (simp add: ple_check_scalars_def ple_heads_def Let_def)
  moreover have "ple_fill_constants (s\<lparr> sc_tensor := x \<rparr>) = ple_fill_constants s"
    by (rule ext) (simp add: ple_fill_constants_def ple_heads_def)
  moreover have "sc_vocab (s\<lparr> sc_tensor := x \<rparr>) = sc_vocab s" "sc_multipliers (s\<lparr> sc_tensor := x \<rparr>) = sc_multipliers s"
    "sc_sizes (s\<lparr> sc_tensor := x \<rparr>) = sc_sizes s" "sc_offsets (s\<lparr> sc_tensor := x \<rparr>) = sc_offsets s"
    "sc_layers (s\<lparr> sc_tensor := x \<rparr>) = sc_layers s" by simp_all
  ultimately show ?thesis unfolding ple_finish_constants_def by (simp only:)
qed

lemma sc_tensor_empty: "sc_tensor ple_scan_empty = None"
  by (simp add: ple_scan_empty_def)

lemma demo_open:
  "ple_table_open demo_os demo_heap [''a''] 400 =
     (Inr (ple_new_table demo_heap demo_tensor demo_consts (gguf_put_shard demo_ckpt) 400), [Ev_Open 0, Ev_Map 0])"
proof -
  have c: "ple_finish_constants (demo_scan\<lparr> sc_tensor := Some demo_tensor \<rparr>) = Inr demo_consts"
    using demo_constants by (simp add: demo_consts_def finish_constants_tensor)
  have p: "ple_scan_paths demo_os True [''a''] = (Inr (demo_scan\<lparr> sc_tensor := Some demo_tensor \<rparr>,
      Some \<lparr> pm_fd = 0, pm_map = gguf_put_shard demo_ckpt \<rparr>), [Ev_Open 0, Ev_Map 0])"
    using demo_scan_file [of "''a''"] sc_tensor_empty
    by (simp add: ple_scan_paths_def ple_map_open_def demo_os_def ple_map_close_def)
  have k: "ple_check_tensor demo_tensor demo_consts 1068 = None"
    by (simp add: ple_check_tensor_def demo_tensor_def demo_consts_def ple_fill_constants_def demo_scan_def
        PLE_GGUF_TYPE_IQ4_NL_def)
  have "\<not> tb_resident (ple_new_table demo_heap demo_tensor demo_consts (gguf_put_shard demo_ckpt) 400) > 400"
    using new_table_size(1) [of demo_heap demo_tensor demo_consts "gguf_put_shard demo_ckpt" 400] by simp
  then show ?thesis unfolding ple_table_open_def p using c k
    by (simp add: demo_length Let_def new_table_fields demo_heap_def)
qed

lemma demo_dims: "unat (c_row_dim demo_consts) = 32" "ple_constants_wf demo_consts" "unat (c_vocab_size demo_consts) = 6"
    "unat (c_head_count demo_consts) = 2"
  using finish_constants_wf [OF demo_constants]
  by (simp_all add: demo_consts_def ple_fill_constants_def demo_scan_def ple_heads_def)

definition demo_table :: ple_table where
  "demo_table = ple_new_table demo_heap demo_tensor demo_consts (gguf_put_shard demo_ckpt) 400"

lemma demo_fits: "table_fits demo_table"
  by (simp add: table_fits_def demo_table_def ple_new_table_def Let_def demo_tensor_def demo_dims split: prod.split)

lemma demo_rows: "row < 18 \<Longrightarrow> row_in_map demo_table row"
proof (rule check_tensor_rows [of demo_tensor demo_consts "gguf_put_shard demo_ckpt", OF _ demo_table_def demo_fits])
  show "ple_check_tensor demo_tensor demo_consts (length (gguf_put_shard demo_ckpt)) = None"
    using table_open_Inr [OF demo_open] unfolding demo_length
    by (simp add: ple_check_tensor_def demo_tensor_def demo_consts_def ple_fill_constants_def demo_scan_def
        PLE_GGUF_TYPE_IQ4_NL_def)
qed (simp add: demo_table_def new_table_fields demo_tensor_def)

subsection \<open>Properties\<close>

text \<open>
  Property C14. The hot set is a least-recently-used cache of exact rows: for any request of rows
  inside the table, every list and chain walk ends, every value returned is the dequantization of
  the mapping's bytes, the rows kept are those of the abstract list in order of use cut to the
  capacity, the mapping and the sizes are left alone, and hits and misses together count the
  rows asked for.\<close>

theorem ple_table_rows_lru:
  assumes inv: "hot_inv t xs" and rows: "list_all (row_in_map t) ids" and outs: "length outs = length ids"
    "list_all (\<lambda>w. length w = unat (c_row_dim (tb_constants t))) outs"
  shows "\<exists>t' xs'. ple_table_rows t ids outs = Some (True, map (row_value t) ids, t') \<and> hot_inv t' xs'
    \<and> recent t' xs' = fold (lru_touch (tb_capacity t)) ids (recent t xs)
    \<and> length (recent t' xs') \<le> tb_capacity t \<and> distinct (recent t' xs') \<and> fixed_part t' = fixed_part t
    \<and> tb_hits t' + tb_misses t' = tb_hits t + tb_misses t + of_nat (length ids)"
proof -
  have r: "hot_rep t t (recent t xs)" using inv by (auto simp: hot_rep_def)
  obtain t' where t': "ple_table_rows t ids outs = Some (True, map (row_value t) ids, t')"
    "hot_rep t t' (fold (lru_touch (tb_capacity t)) ids (recent t xs))" using table_rows_exact [OF r rows outs] by blast
  then obtain xs' where x: "hot_inv t' xs'" "recent t' xs' = fold (lru_touch (tb_capacity t)) ids (recent t xs)"
    "fixed_part t' = fixed_part t" by (auto simp: hot_rep_def)
  show ?thesis using t'(1) x hot.rep_bounded [OF t'(2)] table_rows_lookups [OF inv rows outs t'(1)] by auto
qed

theorem ple_table_rows_lru_witness:
  "\<exists>t' xs'. ple_table_rows demo_table [3, 17, 3, 0] (replicate 4 (replicate 32 (F32 0)))
      = Some (True, map (row_value demo_table) [3, 17, 3, 0], t') \<and> hot_inv t' xs'
    \<and> recent t' xs' = [0, 3] \<and> tb_hits t' + tb_misses t' = 4"
proof -
  have inv: "hot_inv demo_table []" unfolding demo_table_def by (rule new_table_inv) (simp add: demo_dims)
  have c: "tb_capacity demo_table = 2"
    by (simp add: demo_table_def ple_new_table_def demo_dims size_hot_set_eq(2) ple_per_slot_def hot_capacity_def INT32_MAX_def Let_def)
  have d: "unat (c_row_dim (tb_constants demo_table)) = 32" by (simp add: demo_table_def new_table_fields demo_dims)
  have f: "tb_hits demo_table = 0" "tb_misses demo_table = 0" by (simp_all add: demo_table_def new_table_fields)
  have rows: "list_all (row_in_map demo_table) [3, 17, 3, 0]" by (simp add: demo_rows)
  have e: "fold (lru_touch 2) [3, 17, 3, 0] [] = [0, 3 :: u64]" by (simp add: lru_touch_def)
  have outs: "list_all (\<lambda>w. length w = unat (c_row_dim (tb_constants demo_table))) (replicate 4 (replicate 32 (F32 0)))"
    unfolding d by (simp add: list_all_iff)
  have n: "length (replicate 4 (replicate 32 (F32 0))) = length [3, 17, 3, 0 :: u64]" "recent demo_table [] = []"
    by (simp_all add: recent_def)
  obtain t' xs' where "ple_table_rows demo_table [3, 17, 3, 0] (replicate 4 (replicate 32 (F32 0)))
      = Some (True, map (row_value demo_table) [3, 17, 3, 0], t')" "hot_inv t' xs'" "recent t' xs' = [0, 3]"
    "tb_hits t' + tb_misses t' = of_nat (length [3, 17, 3, 0 :: u64])"
    using ple_table_rows_lru [OF inv rows n(1) outs, unfolded c f n(2) e] by auto
  then show ?thesis by (intro exI [of _ t'] exI [of _ xs'] conjI) (assumption | simp)+
qed

text \<open>
  Property C33. Opening is all or nothing and keeps to the ceiling: a refusal leaves no
  descriptor and no mapping behind, and the final check of the ceiling never refuses, because the
  sizing cannot exceed it; an open table holds exactly its shard's mapping, its arrays take
  exactly the bytes it reports, at most the ceiling, its slot numbers fit an \<open>int32_t\<close>, its
  constants are consistent, its tensor has every row the heads name, and its hot set starts empty
  and well-formed.\<close>

theorem ple_table_open_sound:
  "case ple_table_open os hp paths cache_bytes of
     (Inl e, ev) \<Rightarrow> ple_live ([], []) ev = ([], []) \<and> (\<forall>r k. e \<noteq> Ple_Over_Ceiling r k)
   | (Inr t, ev) \<Rightarrow>
       (\<exists>m. ple_live ([], []) ev = held_by (Some m) \<and> tb_map t = pm_map m \<and> os_mmap os (paths ! pm_fd m) = Some (pm_map m))
     \<and> tb_resident t = tb_capacity t * (unat (c_row_dim (tb_constants t)) * 4 + 20) + tb_buckets t * 4
     \<and> tb_resident t \<le> cache_bytes \<and> tb_capacity t \<le> nat INT32_MAX
     \<and> ple_constants_wf (tb_constants t) \<and> c_row_total (tb_constants t) \<le> c_table_rows (tb_constants t)
     \<and> hot_inv t []"
proof -
  obtain r ev where o: "ple_table_open os hp paths cache_bytes = (r, ev)" by (cases "ple_table_open os hp paths cache_bytes")
  show ?thesis
  proof (cases r)
    case (Inl e)
    then show ?thesis using o table_open_refused by auto
  next
    case (Inr t)
    obtain scan m tn c where p: "ple_scan_paths os True paths = (Inr (scan, Some m), ev)" "sc_tensor scan = Some tn"
      "ple_finish_constants scan = Inr c" "ple_check_tensor tn c (length (pm_map m)) = None"
      "t = ple_new_table hp tn c (pm_map m) cache_bytes" using table_open_Inr o Inr by blast
    have wf: "ple_constants_wf c" by (rule finish_constants_wf [OF p(3)])
    have live: "ple_live ([], []) ev = held_by (Some m)" "os_mmap os (paths ! pm_fd m) = Some (pm_map m)"
      using scan_paths_live [where os = os and want = True and paths = paths] p(1) by (auto simp: kept_def)
    have "hot_inv t []" unfolding p(5) by (rule new_table_inv) (use wf in \<open>simp add: ple_constants_wf_def\<close>)
    then show ?thesis using o Inr live wf check_tensor_total [OF p(4)]
        new_table_size [of hp tn c "pm_map m" cache_bytes] by (auto simp: p(5) new_table_fields)
  qed
qed

text \<open>
  Property C15. From tokens to rows: for a table that was opened and whose tensor is smaller than
  2^64 bytes, the ids of any tokens of the vocabulary are all inside the table, and looking them
  up returns, for every token and every head, the dequantization of the row that the reference
  n-gram hash names.\<close>

theorem ple_rows_of_tokens:
  assumes opened: "ple_table_open os hp paths cache_bytes = (Inr t, ev)" and fits: "table_fits t"
    and tokens: "list_all (\<lambda>x. 0 \<le> x \<and> x < int (unat (c_vocab_size (tb_constants t)))) ts"
    and ids: "ids = fst (ple_row_ids (tb_constants t) (ple_history_reset (tb_constants t)) ts)"
    and outs: "length outs = length ids" "list_all (\<lambda>w. length w = unat (c_row_dim (tb_constants t))) outs"
  shows "\<exists>rows t'. ple_table_rows t ids outs = Some (True, rows, t')
    \<and> length rows = length ts * unat (c_head_count (tb_constants t))
    \<and> (\<forall>i < length ts. \<forall>head < unat (c_head_count (tb_constants t)).
         rows ! (i * unat (c_head_count (tb_constants t)) + head)
           = row_value t (of_int (ref_row (tb_constants t) (take i ts) (ts ! i) head)))"
proof -
  let ?c = "tb_constants t" and ?hc = "unat (c_head_count (tb_constants t))"
  obtain scan and m :: ple_mapping and tn c where p: "ple_finish_constants scan = Inr c" "ple_check_tensor tn c (length (pm_map m)) = None"
    "t = ple_new_table hp tn c (pm_map m) cache_bytes" using table_open_Inr [OF opened] by blast
  have wf: "ple_constants_wf ?c" using finish_constants_wf [OF p(1)] by (simp add: p(3) new_table_fields)
  have tot: "c_row_total ?c \<le> c_table_rows ?c" using check_tensor_total [OF p(2)] by (simp add: p(3) new_table_fields)
  have inv: "hot_inv t []" unfolding p(3) by (rule new_table_inv) (use finish_constants_wf [OF p(1)] in \<open>simp add: ple_constants_wf_def\<close>)
  note r = row_ids_exact [OF wf tokens, folded ids]
  have "row_in_map t x" if "x \<in> set ids" for x
    using r(3) tot that by (intro check_tensor_rows [OF p(2,3) fits]) (auto simp: list_all_iff)
  then have "list_all (row_in_map t) ids" by (simp add: list_all_iff)
  then obtain t' where t': "ple_table_rows t ids outs = Some (True, map (row_value t) ids, t')"
    using table_rows_exact [of t t "recent t []"] inv outs by (auto simp: hot_rep_def)
  have "map (row_value t) ids ! (i * ?hc + head) = row_value t (of_int (ref_row ?c (take i ts) (ts ! i) head))"
    if "i < length ts" "head < ?hc" for i head
    using r(2) [OF that] band_index [OF that] r(1) by simp
  then show ?thesis using t' r(1) by auto
qed

theorem ple_rows_of_tokens_witness:
  "\<exists>rows t'. ple_table_rows demo_table (fst (ple_row_ids (tb_constants demo_table) (ple_history_reset (tb_constants demo_table)) [3, 2, 5]))
      (replicate 6 (replicate 32 (F32 0))) = Some (True, rows, t') \<and> length rows = 6
    \<and> rows ! 5 = row_value demo_table (of_int (ref_row (tb_constants demo_table) [3, 2] 5 1))"
proof -
  let ?c = "tb_constants demo_table"
  have f: "unat (c_row_dim ?c) = 32" "unat (c_vocab_size ?c) = 6" "unat (c_head_count ?c) = 2" "ple_constants_wf ?c"
    by (simp_all add: demo_table_def new_table_fields demo_dims)
  have t: "list_all (\<lambda>x. 0 \<le> x \<and> x < int (unat (c_vocab_size ?c))) [3, 2, 5]" unfolding f by simp
  have l: "length (replicate 6 (replicate 32 (F32 0))) = length (fst (ple_row_ids ?c (ple_history_reset ?c) [3, 2, 5]))"
    using row_ids_exact(1) [OF f(4) t] f(3) by simp
  have o: "list_all (\<lambda>w. length w = unat (c_row_dim ?c)) (replicate 6 (replicate 32 (F32 0)))"
    unfolding f by (simp add: list_all_iff)
  obtain rows t' where p: "ple_table_rows demo_table (fst (ple_row_ids ?c (ple_history_reset ?c) [3, 2, 5]))
      (replicate 6 (replicate 32 (F32 0))) = Some (True, rows, t')" "length rows = 6"
    "\<forall>i < 3. \<forall>head < 2. rows ! (i * 2 + head) = row_value demo_table (of_int (ref_row ?c (take i [3, 2, 5]) ([3, 2, 5] ! i) head))"
    using ple_rows_of_tokens [OF demo_open [folded demo_table_def] demo_fits t refl l o] f(3) by auto
  from p(3) [rule_format, of 2 1] show ?thesis using p(1,2) by auto
qed

text \<open>
  Without the bound on the tensor's size the check of its extent passes on a mapping of no bytes
  at all: the product of rows and row bytes wraps to zero.
\<close>

lemma check_tensor_wraps:
  "ple_check_tensor \<lparr> pt_path = 0, pt_offset = 0, pt_dim0 = 32, pt_dim1 = 2 ^ 63, pt_type = PLE_GGUF_TYPE_IQ4_NL \<rparr> demo_consts 0 = None"
  by (simp add: ple_check_tensor_def demo_consts_def ple_fill_constants_def demo_scan_def)

end
