(* ===== verification/Ple_Gather.thy ===== *)
theory Ple_Gather
  imports Ple_Serve
begin

text \<open>
  The gather of n-gram rows of the qwen4exp graph (\<open>ds4_qwen4exp_graph.inc\<close>): the constants the
  session takes from the weights, the serial scan, the scan with armed slots, and the segments a
  wide chunk is cut into. The rows are read in place from the mapped table (\<open>ds4_qwen4exp_ple_row\<close>).
  The arrays \<open>ple_ids\<close> and \<open>ple_rows_host\<close> are lists with one element per token, as their
  declarations describe them. The upload to the device is the parameter \<open>gc_upload\<close>; messages and timing are left out.
\<close>

subsection \<open>The table of the weights and the constants\<close>

definition N_NGRAM :: nat where "N_NGRAM = 3"
definition N_NGRAM_HEADS_PER :: nat where "N_NGRAM_HEADS_PER = 8"
definition N_PLE_HEAD :: nat where "N_PLE_HEAD = 16"
definition N_PLE_ROW_DIM :: nat where "N_PLE_ROW_DIM = 160"
definition N_PLE_CONV :: nat where "N_PLE_CONV = 4"
definition N_PLE_EMBD :: nat where "N_PLE_EMBD = 2560"
definition PLE_STATE_ROWS :: nat where "PLE_STATE_ROWS = 9"
definition QW_PLE_MAX_THREADS :: nat where "QW_PLE_MAX_THREADS = 16"

lemmas ple_shape = N_NGRAM_def N_NGRAM_HEADS_PER_def N_PLE_HEAD_def N_PLE_ROW_DIM_def N_PLE_CONV_def
  N_PLE_EMBD_def PLE_STATE_ROWS_def QW_PLE_MAX_THREADS_def IQ4_NL_BLOCK_ELEMS_def

record ple_weights =
  pw_base :: "bytes option"
  pw_rows :: u64
  pw_covered_rows :: u64
  pw_row_dim :: u64
  pw_row_bytes :: u64
  pw_type :: u32
  pw_head_offset :: "u64 list"
  pw_head_vocab :: "u64 list"
  pw_have_hash :: bool
  pw_ngram_size :: u32
  pw_eos_token_id :: int
  pw_multipliers :: "u64 list"

definition qwen4exp_ple_row :: "ple_weights \<Rightarrow> u64 \<Rightarrow> bytes option" where
  "qwen4exp_ple_row w row =
     (case pw_base w of
        None \<Rightarrow> None
      | Some base \<Rightarrow> if row \<ge> pw_rows w then None else Some (drop (unat (row * pw_row_bytes w)) base))"

definition qwen4exp_ple_read_constants :: "ple_weights \<Rightarrow> ple_constants option" where
  "qwen4exp_ple_read_constants w =
     (let ngram = pw_ngram_size w; hp = of_nat N_NGRAM_HEADS_PER; hc = of_nat N_PLE_HEAD in
      if \<not> pw_have_hash w then None
      else if unat ngram > PLE_MAX_NGRAM \<or> N_PLE_HEAD > PLE_MAX_HEADS \<or> hc \<noteq> (ngram - 1) * hp then None
      else if \<exists>n \<in> set (take N_PLE_HEAD (pw_head_vocab w)). n = 0 then None
      else Some \<lparr> c_ngram_size = ngram, c_heads_per_ngram = hp, c_head_count = hc,
        c_row_dim = of_nat N_PLE_ROW_DIM, c_vocab_size = 0, c_eos_token_id = pw_eos_token_id w,
        c_conv_kernel = of_nat N_PLE_CONV, c_ple_layer_count = 0, c_ple_layers = replicate PLE_MAX_LAYERS 0,
        c_multipliers = c_array PLE_MAX_NGRAM (take (unat ngram) (pw_multipliers w)),
        c_head_vocab_sizes = c_array PLE_MAX_HEADS (take N_PLE_HEAD (pw_head_vocab w)),
        c_head_offsets = c_array PLE_MAX_HEADS (take N_PLE_HEAD (pw_head_offset w)),
        c_row_total = pw_covered_rows w, c_table_rows = pw_rows w \<rparr>)"

subsection \<open>The session's part and the refusals\<close>

record gather_session =
  gs_ready :: bool
  gs_constants :: ple_constants
  gs_history :: ple_history
  gs_history_rows :: "ple_history list"
  gs_snapshot_rows :: nat
  gs_ids :: "u64 list list"
  gs_rows :: "f32 list list"
  gs_uploaded :: "f32 list list"

datatype gather_error =
    G_Not_Ready | G_Table_Type u32 | G_Row_Dim u64 | G_Window
  | G_Past_Table nat nat u64 | G_Segment_Past nat | G_Upload

record gather_cfg =
  gc_weights :: ple_weights
  gc_nthreads :: nat
  gc_pool_threads :: nat
  gc_upload :: "f32 list list \<Rightarrow> bool"

definition gather_refusal :: "ple_weights \<Rightarrow> gather_session \<Rightarrow> gather_error option" where
  "gather_refusal w g =
     (if \<not> gs_ready g then Some G_Not_Ready
      else if pw_type w \<noteq> PLE_GGUF_TYPE_IQ4_NL then Some (G_Table_Type (pw_type w))
      else if pw_row_dim w \<noteq> of_nat N_PLE_ROW_DIM \<or> N_PLE_ROW_DIM mod IQ4_NL_BLOCK_ELEMS \<noteq> 0
              \<or> N_PLE_HEAD * N_PLE_ROW_DIM \<noteq> N_PLE_EMBD then Some (G_Row_Dim (pw_row_dim w))
      else if (N_PLE_CONV - 1) * N_NGRAM \<noteq> PLE_STATE_ROWS then Some G_Window
      else None)"

subsection \<open>The scans\<close>

text \<open>The rows of one token, head after head; the refusal names the head and its row.\<close>

fun gather_heads :: "ple_weights \<Rightarrow> nat \<Rightarrow> u64 list \<Rightarrow> f32 list \<Rightarrow> f32 list \<times> (nat \<times> u64) option" where
  "gather_heads w h [] dst = (dst, None)"
| "gather_heads w h (row # rows) dst =
     (case qwen4exp_ple_row w row of
        None \<Rightarrow> (dst, Some (h, row))
      | Some quant \<Rightarrow>
          (case gather_heads w (Suc h) rows (drop N_PLE_ROW_DIM dst) of
             (rest, e) \<Rightarrow>
               (ple_dequant_iq4_nl quant (N_PLE_ROW_DIM div IQ4_NL_BLOCK_ELEMS) (take N_PLE_ROW_DIM dst) @ rest, e)))"

text \<open>The loop over tokens \<open>t\<close>, \<open>t + 1\<close>, ... (\<open>n\<close> of them), whose ids are already stored.\<close>

fun gather_rows :: "ple_weights \<Rightarrow> u64 list list \<Rightarrow> nat \<Rightarrow> nat \<Rightarrow> f32 list list \<Rightarrow> f32 list list \<times> gather_error option" where
  "gather_rows w ids t 0 rows = (rows, None)"
| "gather_rows w ids t (Suc n) rows =
     (case gather_heads w 0 (ids ! t) (rows ! t) of
        (r, Some (h, row)) \<Rightarrow> (rows[t := r], Some (G_Past_Table t h row))
      | (r, None) \<Rightarrow> gather_rows w ids (Suc t) n (rows[t := r]))"

text \<open>The ids of a call of several tokens, laid out in the array.\<close>

definition store_ids :: "nat \<Rightarrow> u64 list \<Rightarrow> u64 list list \<Rightarrow> u64 list list" where
  "store_ids n flat ids =
     map (\<lambda>t. if t < n then take N_PLE_HEAD (drop (t * N_PLE_HEAD) flat) else ids ! t) [0..<length ids]"

definition gather_serial :: "ple_weights \<Rightarrow> int list \<Rightarrow> gather_session \<Rightarrow> gather_session \<times> gather_error option" where
  "gather_serial w tokens g =
     (case ple_row_ids (gs_constants g) (gs_history g) tokens of
        (flat, h) \<Rightarrow>
          let ids = store_ids (length tokens) flat (gs_ids g) in
          (case gather_rows w ids 0 (length tokens) (gs_rows g) of
             (rows, e) \<Rightarrow> (g\<lparr> gs_history := h, gs_ids := ids, gs_rows := rows \<rparr>, e)))"

text \<open>With slots armed the ids are made one token at a time and the history kept after each.\<close>

fun armed_ids :: "nat \<Rightarrow> int list \<Rightarrow> gather_session \<Rightarrow> gather_session" where
  "armed_ids t [] g = g"
| "armed_ids t (x # xs) g =
     (case ple_row_ids (gs_constants g) (gs_history g) [x] of
        (new, h) \<Rightarrow>
          armed_ids (Suc t) xs
            (g\<lparr> gs_history := h, gs_ids := (gs_ids g)[t := new],
                gs_history_rows := (if t < gs_snapshot_rows g then (gs_history_rows g)[t := h] else gs_history_rows g) \<rparr>))"

definition gather_armed :: "ple_weights \<Rightarrow> int list \<Rightarrow> gather_session \<Rightarrow> gather_session \<times> gather_error option" where
  "gather_armed w tokens g =
     (let g1 = armed_ids 0 tokens g in
      case gather_rows w (gs_ids g1) 0 (length tokens) (gs_rows g1) of
        (rows, e) \<Rightarrow> (g1\<lparr> gs_rows := rows \<rparr>, e))"

subsection \<open>Segments\<close>

text \<open>The history a segment starts from: the carried one, or a fresh one warmed over the tokens before it.\<close>

definition seg_entry :: "ple_constants \<Rightarrow> int list \<Rightarrow> ple_history \<Rightarrow> nat \<Rightarrow> ple_history" where
  "seg_entry c tokens carried t0 =
     (let warm = unat (c_ngram_size c - 1) in
      if 0 < t0 \<and> 0 < warm then
        let start = (if t0 > warm then t0 - warm else 0) in
        snd (ple_row_ids c (ple_history_reset c) (take (t0 - start) (drop start tokens)))
      else if t0 = 0 then carried
      else ple_history_reset c)"

text \<open>One pass of the loop: the history after it, the session, and whether every row was in the table.\<close>

definition gather_token ::
  "ple_weights \<Rightarrow> int list \<Rightarrow> nat \<Rightarrow> ple_history \<Rightarrow> gather_session \<Rightarrow> ple_history \<times> gather_session \<times> bool" where
  "gather_token w tokens t h g =
     (case ple_row_ids (gs_constants g) h [tokens ! t] of
        (new, h') \<Rightarrow>
          let ids = (gs_ids g)[t := new] in
          (case gather_heads w 0 (ids ! t) (gs_rows g ! t) of
             (r, e) \<Rightarrow> (h', g\<lparr> gs_ids := ids, gs_rows := (gs_rows g)[t := r] \<rparr>, e = None)))"

fun gather_loop ::
  "ple_weights \<Rightarrow> int list \<Rightarrow> nat \<Rightarrow> nat \<Rightarrow> ple_history \<Rightarrow> gather_session \<Rightarrow> gather_session \<times> bool" where
  "gather_loop w tokens t 0 h g = (g, True)"
| "gather_loop w tokens t (Suc n) h g =
     (case gather_token w tokens t h g of
        (h', g', ok) \<Rightarrow> if ok then gather_loop w tokens (Suc t) n h' g' else (g', False))"

definition gather_worker :: "ple_weights \<Rightarrow> int list \<Rightarrow> nat \<times> nat \<Rightarrow> gather_session \<Rightarrow> gather_session \<times> bool" where
  "gather_worker w tokens seg g =
     gather_loop w tokens (fst seg) (snd seg - fst seg)
       (seg_entry (gs_constants g) tokens (gs_history g) (fst seg)) g"

definition gather_nthreads :: "gather_cfg \<Rightarrow> nat \<Rightarrow> nat" where
  "gather_nthreads cfg n = (if gc_nthreads cfg \<le> 1 \<or> n < 64 then 1 else gc_nthreads cfg)"

text \<open>The segments, for the number of threads left after the caps and the threads the pool has.\<close>

definition gather_segments :: "gather_cfg \<Rightarrow> nat \<Rightarrow> (nat \<times> nat) list" where
  "gather_segments cfg n =
     (let k = min (min (min (gather_nthreads cfg n) n) QW_PLE_MAX_THREADS) (gc_pool_threads cfg);
          per = (n + k - 1) div k
      in map (\<lambda>i. (i * per, min (i * per + per) n)) (takeWhile (\<lambda>i. i * per < n) [0..<k]))"

text \<open>The history left behind: a fresh one warmed over the last tokens.\<close>

definition gather_tail :: "ple_constants \<Rightarrow> int list \<Rightarrow> ple_history" where
  "gather_tail c tokens =
     (let tail = unat (c_ngram_size c - 1); n = length tokens in
      if 0 < tail \<and> tail < n then snd (ple_row_ids c (ple_history_reset c) (drop (n - tail) tokens))
      else ple_history_reset c)"

definition gather_join :: "int list \<Rightarrow> bool list \<Rightarrow> gather_session \<Rightarrow> gather_session \<times> gather_error option" where
  "gather_join tokens oks g =
     (case find (\<lambda>i. \<not> oks ! i) [0..<length oks] of
        Some i \<Rightarrow> (g, Some (G_Segment_Past i))
      | None \<Rightarrow> (g\<lparr> gs_history := gather_tail (gs_constants g) tokens \<rparr>, None))"

text \<open>Without workers the segments run one after another.\<close>

fun gather_each :: "ple_weights \<Rightarrow> int list \<Rightarrow> (nat \<times> nat) list \<Rightarrow> gather_session \<Rightarrow> gather_session \<times> bool list" where
  "gather_each w tokens [] g = (g, [])"
| "gather_each w tokens (seg # segs) g =
     (case gather_worker w tokens seg g of
        (g', ok) \<Rightarrow> (case gather_each w tokens segs g' of (g'', oks) \<Rightarrow> (g'', ok # oks)))"

definition gather_upload ::
  "gather_cfg \<Rightarrow> nat \<Rightarrow> gather_session \<times> gather_error option \<Rightarrow> gather_session \<times> gather_error option" where
  "gather_upload cfg n r =
     (case r of
        (g, Some e) \<Rightarrow> (g, Some e)
      | (g, None) \<Rightarrow>
          if gc_upload cfg (take n (gs_rows g)) then (g\<lparr> gs_uploaded := take n (gs_rows g) \<rparr>, None)
          else (g, Some G_Upload))"

text \<open>Whether a call goes through the pool, and the call on every other path.\<close>

definition uses_pool :: "gather_cfg \<Rightarrow> int list \<Rightarrow> gather_session \<Rightarrow> bool" where
  "uses_pool cfg tokens g \<longleftrightarrow>
     gather_refusal (gc_weights cfg) g = None \<and> gs_snapshot_rows g = 0
     \<and> gather_nthreads cfg (length tokens) \<noteq> 1 \<and> 1 < length (gather_segments cfg (length tokens))"

definition qwen4exp_ple_gather :: "gather_cfg \<Rightarrow> int list \<Rightarrow> gather_session \<Rightarrow> gather_session \<times> gather_error option" where
  "qwen4exp_ple_gather cfg tokens g =
     (let w = gc_weights cfg; n = length tokens in
      case gather_refusal w g of
        Some e \<Rightarrow> (g, Some e)
      | None \<Rightarrow>
          gather_upload cfg n
            (if gs_snapshot_rows g > 0 then gather_armed w tokens g
             else if gather_nthreads cfg n = 1 then gather_serial w tokens g
             else (case gather_each w tokens (gather_segments cfg n) g of
                     (g', oks) \<Rightarrow> gather_join tokens oks g')))"

subsection \<open>Histories\<close>

text \<open>The history of exactly the tokens \<open>pre\<close>, the unused entries included.\<close>

definition history_full :: "ple_constants \<Rightarrow> int list \<Rightarrow> ple_history \<Rightarrow> bool" where
  "history_full c pre h \<longleftrightarrow> length h = PLE_MAX_NGRAM
     \<and> (\<forall>p < PLE_MAX_NGRAM. h ! p =
          (if 1 \<le> p \<and> p < unat (c_ngram_size c) then ple_back (c_eos_token_id c) pre p else c_eos_token_id c))"

definition gather_constants :: "ple_constants \<Rightarrow> bool" where
  "gather_constants c \<longleftrightarrow> c_ngram_size c = 3 \<and> unat (c_heads_per_ngram c) = N_NGRAM_HEADS_PER"

lemma read_constants_shape:
  assumes "qwen4exp_ple_read_constants w = Some c"
  shows "gather_constants c"
proof -
  let ?n = "pw_ngram_size w"
  have n: "unat ?n \<le> 8" "(16 :: u32) = (?n - 1) * 8"
    and c: "c_ngram_size c = ?n" "c_heads_per_ngram c = of_nat N_NGRAM_HEADS_PER"
    using assms by (auto simp: qwen4exp_ple_read_constants_def Let_def ple_shape PLE_MAX_NGRAM_def split: if_splits)
  have "\<exists>k. ?n = of_nat k \<and> k \<in> {0, 1, 2, 3, 4, 5, 6, 7, 8}"
    using n(1) by (intro exI [of _ "unat ?n"]) auto
  then have "?n \<in> {0, 1, 2, 3, 4, 5, 6, 7, 8}" by auto
  then have "?n = 3" using n(2) by auto
  then show ?thesis using c by (simp add: gather_constants_def ple_shape)
qed

lemma row_ids_history: "snd (ple_row_ids c h ts) = foldl (ple_advance c) h ts"
  by (induction ts arbitrary: h) (simp_all add: split_beta)

lemma row_ids_single: "ple_row_ids c h [x] = (ple_token_rows c h x, ple_advance c h x)"
  by simp

lemma history_full_reset: "history_full c [] (ple_history_reset c)"
  by (auto simp: history_full_def ple_history_reset_def ple_back_def)

lemma history_full_advance:
  assumes c: "gather_constants c" and h: "history_full c pre h"
  shows "history_full c (pre @ [x]) (ple_advance c h x)"
proof -
  have n: "unat (c_ngram_size c) = 3" using c by (simp add: gather_constants_def)
  have a: "ple_advance c h x = h[2 := (if x = c_eos_token_id c then c_eos_token_id c else h ! 1), 1 := x]"
    by (simp add: ple_advance_def n ple_shift_def upt_rec)
  have b: "ple_back e (pre @ [x]) 2 = (if x = e then e else ple_back e pre 1)" for e
    using ple_back_Suc [of 1 e pre x] by (simp add: numeral_2_eq_2)
  have l: "length h = 8" and hp: "\<And>p. p < 8 \<Longrightarrow> h ! p = (if 1 \<le> p \<and> p < 3 then ple_back (c_eos_token_id c) pre p else c_eos_token_id c)"
    using h by (simp_all add: history_full_def n PLE_MAX_NGRAM_def)
  have "ple_advance c h x ! p = (if 1 \<le> p \<and> p < 3 then ple_back (c_eos_token_id c) (pre @ [x]) p else c_eos_token_id c)"
    if p: "p < 8" for p
  proof -
    consider "p = 1" | "p = 2" | "p \<noteq> 1" "p \<noteq> 2" by blast
    then show ?thesis
    proof cases
      case 1
      then show ?thesis using l ple_back_1 by (simp add: a)
    next
      case 2
      then show ?thesis using l hp [of 1] by (simp add: a b)
    next
      case 3
      then have "\<not> (1 \<le> p \<and> p < 3)" by linarith
      with 3 show ?thesis using l hp [OF p] by (simp add: a)
    qed
  qed
  then show ?thesis using l by (simp add: history_full_def n PLE_MAX_NGRAM_def a)
qed

lemma history_full_foldl:
  "gather_constants c \<Longrightarrow> history_full c pre h \<Longrightarrow> history_full c (pre @ ts) (foldl (ple_advance c) h ts)"
proof (induction ts arbitrary: pre h)
  case (Cons x ts)
  from Cons.IH [OF Cons.prems(1) history_full_advance [OF Cons.prems]] show ?case by simp
qed simp

lemma ple_back_append: "p \<le> length b \<Longrightarrow> ple_back e (a @ b) p = ple_back e b p"
  by (auto simp: ple_back_def nth_append)

lemma history_full_unique:
  assumes "gather_constants c" "history_full c a h" "history_full c b h'"
    and "\<And>p. 1 \<le> p \<Longrightarrow> p \<le> 2 \<Longrightarrow> ple_back (c_eos_token_id c) a p = ple_back (c_eos_token_id c) b p"
  shows "h = h'"
proof (rule nth_equalityI)
  show "length h = length h'" using assms by (simp add: history_full_def)
  fix p assume "p < length h"
  then show "h ! p = h' ! p" using assms by (auto simp: history_full_def gather_constants_def)
qed

text \<open>The last two tokens determine the history.\<close>

lemma history_warm:
  assumes c: "gather_constants c" and h: "history_full c pre h" and ts: "2 \<le> length ts"
  shows "foldl (ple_advance c) h ts = foldl (ple_advance c) (ple_history_reset c) (drop (length ts - 2) ts)"
proof (rule history_full_unique [OF c history_full_foldl [OF c h] history_full_foldl [OF c history_full_reset]])
  fix p :: nat assume "1 \<le> p" "p \<le> 2"
  then show "ple_back (c_eos_token_id c) (pre @ ts) p = ple_back (c_eos_token_id c) ([] @ drop (length ts - 2) ts) p"
    using ple_back_append [of p "drop (length ts - 2) ts" "c_eos_token_id c" "pre @ take (length ts - 2) ts"] ts
    by simp
qed

lemma seg_entry_exact:
  assumes c: "gather_constants c" and h: "history_full c pre h" and t: "t0 = 0 \<or> 2 \<le> t0" "t0 \<le> length tokens"
  shows "seg_entry c tokens h t0 = foldl (ple_advance c) h (take t0 tokens)"
proof (cases "t0 = 0")
  case False
  have w: "unat (c_ngram_size c - 1) = 2" using c by (simp add: gather_constants_def)
  have "foldl (ple_advance c) h (take t0 tokens)
      = foldl (ple_advance c) (ple_history_reset c) (drop (t0 - 2) (take t0 tokens))"
    using history_warm [OF c h, of "take t0 tokens"] t False by simp
  moreover have "(if t0 > 2 then t0 - 2 else 0) = t0 - 2" by simp
  ultimately show ?thesis using False t by (simp add: seg_entry_def w row_ids_history drop_take)
qed (simp add: seg_entry_def)

lemma gather_tail_exact:
  assumes c: "gather_constants c" and h: "history_full c pre h" and t: "2 < length tokens"
  shows "gather_tail c tokens = foldl (ple_advance c) h tokens"
proof -
  have "unat (c_ngram_size c - 1) = 2" using c by (simp add: gather_constants_def)
  then show ?thesis using history_warm [OF c h, of tokens] t by (simp add: gather_tail_def Let_def row_ids_history)
qed

subsection \<open>What a gather computes\<close>

text \<open>
  The table holds whole rows of five blocks, as the loader checks it. A session is well formed
  when its constants are those of the model, its history is that of some tokens and its arrays
  have one row of ids and one row of values for every token of a batch.
\<close>

definition table_ok :: "ple_weights \<Rightarrow> bool" where
  "table_ok w \<longleftrightarrow> (case pw_base w of None \<Rightarrow> False
     | Some base \<Rightarrow> pw_row_bytes w = 90 \<and> unat (pw_rows w) * 90 \<le> length base \<and> length base < 2 ^ 64)"

definition gather_wf :: "gather_session \<Rightarrow> bool" where
  "gather_wf g \<longleftrightarrow> gather_constants (gs_constants g) \<and> (\<exists>pre. history_full (gs_constants g) pre (gs_history g))
     \<and> length (gs_rows g) = length (gs_ids g)
     \<and> (\<forall>t < length (gs_ids g). length (gs_ids g ! t) = N_PLE_HEAD \<and> length (gs_rows g ! t) = N_PLE_EMBD)"

definition gather_value :: "ple_weights \<Rightarrow> u64 \<Rightarrow> f32 list" where
  "gather_value w row = ref_dequant (drop (unat row * 90) (the (pw_base w))) 5"

text \<open>History, ids and validity of token \<open>t\<close> of a call on the session \<open>g\<close>.\<close>

definition hist_at :: "gather_session \<Rightarrow> int list \<Rightarrow> nat \<Rightarrow> ple_history" where
  "hist_at g tokens t = foldl (ple_advance (gs_constants g)) (gs_history g) (take t tokens)"

definition tok_ids :: "gather_session \<Rightarrow> int list \<Rightarrow> nat \<Rightarrow> u64 list" where
  "tok_ids g tokens t = ple_token_rows (gs_constants g) (hist_at g tokens t) (tokens ! t)"

definition tok_row :: "ple_weights \<Rightarrow> u64 list \<Rightarrow> f32 list" where
  "tok_row w ids = concat (map (gather_value w) ids)"

definition in_table :: "ple_weights \<Rightarrow> gather_session \<Rightarrow> int list \<Rightarrow> nat \<Rightarrow> bool" where
  "in_table w g tokens t \<longleftrightarrow> list_all (\<lambda>r. r < pw_rows w) (tok_ids g tokens t)"

definition gathered :: "ple_weights \<Rightarrow> int list \<Rightarrow> gather_session \<Rightarrow> gather_session" where
  "gathered w tokens g =
     g\<lparr> gs_history := hist_at g tokens (length tokens),
        gs_ids := map (\<lambda>t. if t < length tokens then tok_ids g tokens t else gs_ids g ! t) [0..<length (gs_ids g)],
        gs_rows := map (\<lambda>t. if t < length tokens then tok_row w (tok_ids g tokens t) else gs_rows g ! t) [0..<length (gs_rows g)] \<rparr>"

lemma hist_at_0 [simp]: "hist_at g tokens 0 = gs_history g"
  by (simp add: hist_at_def)

lemma hist_at_Suc: "t < length tokens \<Longrightarrow> hist_at g tokens (Suc t) = ple_advance (gs_constants g) (hist_at g tokens t) (tokens ! t)"
  by (simp add: hist_at_def take_Suc_conv_app_nth)

lemma length_token_rows: "gather_constants c \<Longrightarrow> length (ple_token_rows c h x) = 16"
proof -
  assume "gather_constants c"
  then have "unat (c_ngram_size c) = 3" "8 = unat (c_heads_per_ngram c)" by (simp_all add: gather_constants_def ple_shape)
  then show ?thesis
    using ple_rows_upto [of 8 c 3 h x, THEN conjunct1] by (simp only: ple_token_rows_def) (simp del: foldl_Cons)
qed

lemma length_tok_ids: "gather_constants (gs_constants g) \<Longrightarrow> length (tok_ids g tokens t) = 16"
  by (simp add: tok_ids_def length_token_rows)

lemma ple_row_some:
  assumes "table_ok w" "row < pw_rows w"
  obtains q where "qwen4exp_ple_row w row = Some q" "90 \<le> length q" "ref_dequant q 5 = gather_value w row"
proof -
  obtain base where b: "pw_base w = Some base" "pw_row_bytes w = 90" "unat (pw_rows w) * 90 \<le> length base" "length base < 2 ^ 64"
    using assms(1) by (auto simp: table_ok_def split: option.splits)
  have r: "Suc (unat row) \<le> unat (pw_rows w)" using assms(2) by (simp add: word_less_nat_alt Suc_le_eq)
  then have l: "unat row * 90 + 90 \<le> length base" using b(3) by linarith
  then have "unat (row * 90) = unat row * 90" using b(4) by (subst unat_mult_lem [THEN iffD1]) auto
  then have "qwen4exp_ple_row w row = Some (drop (unat row * 90) base)"
    using b assms(2) by (simp add: qwen4exp_ple_row_def linorder_not_le)
  moreover have "90 \<le> length (drop (unat row * 90) base)" using l by simp
  ultimately show thesis using b by (intro that) (auto simp: gather_value_def)
qed

lemma ple_row_none: "\<not> row < pw_rows w \<Longrightarrow> qwen4exp_ple_row w row = None"
  by (auto simp: qwen4exp_ple_row_def split: option.splits)

lemma gather_heads_spec:
  assumes w: "table_ok w"
  shows "length dst = length ids * 160 \<Longrightarrow> gather_heads w h ids dst = (r, e) \<Longrightarrow>
    length r = length dst \<and> (e = None \<longleftrightarrow> list_all (\<lambda>r. r < pw_rows w) ids) \<and> (e = None \<longrightarrow> r = tok_row w ids)"
proof (induction ids arbitrary: h dst r e)
  case (Cons row ids)
  show ?case
  proof (cases "row < pw_rows w")
    case True
    obtain q where q: "qwen4exp_ple_row w row = Some q" "90 \<le> length q" "ref_dequant q 5 = gather_value w row"
      by (rule ple_row_some [OF w True])
    obtain rest e' where g: "gather_heads w (Suc h) ids (drop 160 dst) = (rest, e')" by fastforce
    have l: "length (drop 160 dst) = length ids * 160" using Cons.prems(1) by simp
    note IH = Cons.IH [OF l g]
    have "5 * 18 \<le> length q" "5 * 32 \<le> length (take 160 dst)" using q(2) Cons.prems(1) by simp_all
    note d = ple_dequant_ref [OF this]
    have "r = ple_dequant_iq4_nl q 5 (take 160 dst) @ rest" "e = e'"
      using Cons.prems(2) by (simp_all add: q(1) g ple_shape)
    then show ?thesis using IH d q(3) [symmetric] Cons.prems(1) True by (auto simp: tok_row_def)
  next
    case False
    then show ?thesis using Cons.prems(2) by (auto simp: ple_row_none)
  qed
qed (simp add: tok_row_def)

lemma gather_rows_spec:
  assumes w: "table_ok w"
  shows "(\<forall>u. t \<le> u \<and> u < t + n \<longrightarrow> length (ids ! u) = 16 \<and> length (rows ! u) = 2560) \<Longrightarrow> t + n \<le> length rows \<Longrightarrow>
    gather_rows w ids t n rows = (rows', e) \<Longrightarrow>
    (e = None \<longleftrightarrow> (\<forall>u. t \<le> u \<and> u < t + n \<longrightarrow> list_all (\<lambda>r. r < pw_rows w) (ids ! u)))
    \<and> (e = None \<longrightarrow> length rows' = length rows
         \<and> (\<forall>u < length rows. rows' ! u = (if t \<le> u \<and> u < t + n then tok_row w (ids ! u) else rows ! u)))"
proof (induction n arbitrary: t rows)
  case (Suc n)
  obtain r e0 where g: "gather_heads w 0 (ids ! t) (rows ! t) = (r, e0)" by fastforce
  have "length (rows ! t) = length (ids ! t) * 160" using Suc.prems(1) [rule_format, of t] by simp
  note h = gather_heads_spec [OF w this g]
  show ?case
  proof (cases e0)
    case None
    have 1: "\<forall>u. Suc t \<le> u \<and> u < Suc t + n \<longrightarrow> length (ids ! u) = 16 \<and> length (rows[t := r] ! u) = 2560"
      using Suc.prems(1) by (auto simp: nth_list_update)
    have "gather_rows w ids (Suc t) n (rows[t := r]) = (rows', e)" using Suc.prems(3) by (simp add: g None)
    note IH = Suc.IH [OF 1 _ this]
    have s: "(\<forall>u. t \<le> u \<and> u < t + Suc n \<longrightarrow> P u) \<longleftrightarrow> P t \<and> (\<forall>u. Suc t \<le> u \<and> u < Suc t + n \<longrightarrow> P u)" for P
      by (metis Suc_le_eq add_Suc_right add_Suc le_eq_less_or_eq less_add_Suc1)
    have u: "u = t" if "t \<le> u" "\<not> Suc t \<le> u" for u using that by linarith
    show ?thesis unfolding s using IH Suc.prems(2) h None by (auto simp: nth_list_update dest: u)
  next
    case (Some x)
    then show ?thesis using Suc.prems(3) h by (cases x) (auto simp: g intro!: exI [of _ t])
  qed
qed (auto dest: leD)

text \<open>The serial scan.\<close>

lemma row_ids_flat:
  "gather_constants (gs_constants g) \<Longrightarrow> n \<le> length tokens \<Longrightarrow>
   fst (ple_row_ids (gs_constants g) (gs_history g) (take n tokens)) = concat (map (tok_ids g tokens) [0..<n])"
proof (induction n)
  case (Suc n)
  have t: "take (Suc n) tokens = take n tokens @ [tokens ! n]" using Suc.prems by (simp add: take_Suc_conv_app_nth)
  show ?case using Suc unfolding t ple_row_ids_append
    by (simp add: row_ids_history tok_ids_def hist_at_def)
qed simp

lemma concat_slice:
  "(\<And>i. i < n \<Longrightarrow> length (f i) = k) \<Longrightarrow> t < n \<Longrightarrow> take k (drop (t * k) (concat (map f [0..<n]))) = f t"
proof (induction n)
  case (Suc n)
  have l: "length (concat (map f [0..<m])) = m * k" if "m \<le> n" for m
    using that Suc.prems(1) by (induction m) simp_all
  show ?case
  proof (cases "t = n")
    case True
    then show ?thesis using l [of n] Suc.prems(1) [of n] by simp
  next
    case False
    then have t: "t < n" using Suc.prems(2) by simp
    then have "Suc t * k \<le> n * k" by (intro mult_le_mono1) simp
    then have "k + t * k \<le> n * k" by simp
    then show ?thesis using Suc.IH t Suc.prems(1) l [of n] by simp
  qed
qed simp

lemma serial_exact:
  assumes wf: "gather_wf g" and w: "table_ok w" and n: "length tokens \<le> length (gs_ids g)"
  shows "(\<forall>t < length tokens. in_table w g tokens t) \<Longrightarrow> gather_serial w tokens g = (gathered w tokens g, None)"
    and "\<exists>t < length tokens. \<not> in_table w g tokens t \<Longrightarrow> snd (gather_serial w tokens g) \<noteq> None"
proof -
  let ?n = "length tokens" and ?c = "gs_constants g"
  have c: "gather_constants ?c" using wf by (simp add: gather_wf_def)
  define flat where "flat = fst (ple_row_ids ?c (gs_history g) tokens)"
  define ids where "ids = store_ids ?n flat (gs_ids g)"
  have "flat = concat (map (tok_ids g tokens) [0..<?n])"
    using row_ids_flat [OF c, of ?n tokens] by (simp add: flat_def)
  then have f: "take 16 (drop (t * 16) flat) = tok_ids g tokens t" if "t < ?n" for t
    using concat_slice [of ?n "tok_ids g tokens" 16 t] length_tok_ids [OF c] that by simp
  have ids: "ids = map (\<lambda>t. if t < ?n then tok_ids g tokens t else gs_ids g ! t) [0..<length (gs_ids g)]"
    by (simp add: ids_def store_ids_def ple_shape f cong: if_cong)
  have idt: "ids ! t = tok_ids g tokens t" if "t < ?n" for t using that n by (simp add: ids)
  obtain rows e where r: "gather_rows w ids 0 ?n (gs_rows g) = (rows, e)" by fastforce
  have e: "ple_row_ids ?c (gs_history g) tokens = (flat, hist_at g tokens ?n)"
    by (simp add: flat_def prod_eq_iff row_ids_history hist_at_def)
  have l: "length (gs_rows g) = length (gs_ids g)" using wf by (simp add: gather_wf_def)
  have g: "gather_serial w tokens g = (g\<lparr> gs_history := hist_at g tokens ?n, gs_ids := ids, gs_rows := rows \<rparr>, e)"
    by (simp add: gather_serial_def e ids_def [symmetric] r)
  have "\<forall>u. 0 \<le> u \<and> u < 0 + ?n \<longrightarrow> length (ids ! u) = 16 \<and> length (gs_rows g ! u) = 2560"
    using wf n by (simp add: idt length_tok_ids [OF c] gather_wf_def ple_shape)
  note s = gather_rows_spec [OF w this _ r]
  have e_iff: "e = None \<longleftrightarrow> (\<forall>t < ?n. in_table w g tokens t)"
    using s n l by (simp add: in_table_def idt)
  show "snd (gather_serial w tokens g) \<noteq> None" if "\<exists>t < ?n. \<not> in_table w g tokens t"
    using that e_iff by (auto simp: g)
  assume "\<forall>t < ?n. in_table w g tokens t"
  then have e0: "e = None" using e_iff by simp
  have "rows = map (\<lambda>t. if t < ?n then tok_row w (tok_ids g tokens t) else gs_rows g ! t) [0..<length (gs_rows g)]"
    using s e0 n l by (intro nth_equalityI) (auto simp: idt)
  then show "gather_serial w tokens g = (gathered w tokens g, None)" by (simp add: g e0 ids gathered_def)
qed

text \<open>The scan with armed slots computes the same and keeps the history after each row.\<close>

definition armed_upto :: "gather_session \<Rightarrow> int list \<Rightarrow> nat \<Rightarrow> gather_session" where
  "armed_upto g tokens k =
     g\<lparr> gs_history := hist_at g tokens k,
        gs_ids := map (\<lambda>u. if u < k then tok_ids g tokens u else gs_ids g ! u) [0..<length (gs_ids g)],
        gs_history_rows := map (\<lambda>u. if u < k \<and> u < gs_snapshot_rows g then hist_at g tokens (Suc u) else gs_history_rows g ! u)
          [0..<length (gs_history_rows g)] \<rparr>"

lemma armed_ids_upto:
  "gather_constants (gs_constants g) \<Longrightarrow> length tokens \<le> length (gs_ids g) \<Longrightarrow> t \<le> length tokens \<Longrightarrow>
   armed_ids t (drop t tokens) (armed_upto g tokens t) = armed_upto g tokens (length tokens)"
proof (induction "length tokens - t" arbitrary: t)
  case (Suc k)
  then have t: "t < length tokens" by simp
  have d: "drop t tokens = tokens ! t # drop (Suc t) tokens" using t by (simp add: Cons_nth_drop_Suc)
  have step: "armed_ids t (drop t tokens) (armed_upto g tokens t) = armed_ids (Suc t) (drop (Suc t) tokens) (armed_upto g tokens (Suc t))"
  proof -
    have ids: "(gs_ids (armed_upto g tokens t))[t := tok_ids g tokens t] = gs_ids (armed_upto g tokens (Suc t))"
      using t Suc.prems(2) by (auto simp: armed_upto_def less_Suc_eq intro!: nth_equalityI)
    have rows: "(if t < gs_snapshot_rows g then (gs_history_rows (armed_upto g tokens t))[t := hist_at g tokens (Suc t)]
        else gs_history_rows (armed_upto g tokens t)) = gs_history_rows (armed_upto g tokens (Suc t))"
      by (auto simp: armed_upto_def less_Suc_eq nth_list_update intro!: nth_equalityI)
    have c: "gs_constants (armed_upto g tokens t) = gs_constants g" "gs_history (armed_upto g tokens t) = hist_at g tokens t"
      "gs_snapshot_rows (armed_upto g tokens t) = gs_snapshot_rows g" by (simp_all add: armed_upto_def)
    have "armed_ids t (drop t tokens) (armed_upto g tokens t) = armed_ids (Suc t) (drop (Suc t) tokens)
        ((armed_upto g tokens t)\<lparr> gs_history := hist_at g tokens (Suc t),
           gs_ids := gs_ids (armed_upto g tokens (Suc t)), gs_history_rows := gs_history_rows (armed_upto g tokens (Suc t)) \<rparr>)"
      unfolding d by (simp add: c hist_at_Suc [OF t] tok_ids_def [symmetric] ids rows [unfolded hist_at_Suc [OF t]])
    then show ?thesis by (simp add: armed_upto_def)
  qed
  show ?case unfolding step using Suc t by simp
next
  case 0
  then show ?case by simp
qed

lemma armed_exact:
  assumes wf: "gather_wf g" and w: "table_ok w" and n: "length tokens \<le> length (gs_ids g)"
  shows "(\<forall>t < length tokens. in_table w g tokens t) \<Longrightarrow> gather_armed w tokens g =
      ((gathered w tokens g)\<lparr> gs_history_rows := map (\<lambda>u. if u < length tokens \<and> u < gs_snapshot_rows g
          then hist_at g tokens (Suc u) else gs_history_rows g ! u) [0..<length (gs_history_rows g)] \<rparr>, None)"
    and "\<exists>t < length tokens. \<not> in_table w g tokens t \<Longrightarrow> snd (gather_armed w tokens g) \<noteq> None"
proof -
  let ?n = "length tokens"
  have c: "gather_constants (gs_constants g)" using wf by (simp add: gather_wf_def)
  have "armed_upto g tokens 0 = g"
    by (simp add: armed_upto_def map_nth)
  then have a: "armed_ids 0 tokens g = armed_upto g tokens ?n" using armed_ids_upto [OF c n, of 0] by simp
  define ids where "ids = gs_ids (armed_upto g tokens ?n)"
  have idt: "ids ! t = tok_ids g tokens t" if "t < ?n" for t using that n by (simp add: ids_def armed_upto_def)
  have r0: "gs_rows (armed_upto g tokens ?n) = gs_rows g" by (simp add: armed_upto_def)
  obtain rows e where r: "gather_rows w ids 0 ?n (gs_rows g) = (rows, e)" by fastforce
  have g: "gather_armed w tokens g = ((armed_upto g tokens ?n)\<lparr> gs_rows := rows \<rparr>, e)"
    by (simp add: gather_armed_def Let_def a r0 ids_def [symmetric] r)
  have l: "length (gs_rows g) = length (gs_ids g)" using wf by (simp add: gather_wf_def)
  have "\<forall>u. 0 \<le> u \<and> u < 0 + ?n \<longrightarrow> length (ids ! u) = 16 \<and> length (gs_rows g ! u) = 2560"
    using wf n by (simp add: idt length_tok_ids [OF c] gather_wf_def ple_shape)
  note s = gather_rows_spec [OF w this _ r]
  have e_iff: "e = None \<longleftrightarrow> (\<forall>t < ?n. in_table w g tokens t)"
    using s n l by (simp add: in_table_def idt)
  show "snd (gather_armed w tokens g) \<noteq> None" if "\<exists>t < ?n. \<not> in_table w g tokens t"
    using that e_iff by (auto simp: g)
  assume "\<forall>t < ?n. in_table w g tokens t"
  then have e0: "e = None" using e_iff by simp
  have "rows = map (\<lambda>t. if t < ?n then tok_row w (tok_ids g tokens t) else gs_rows g ! t) [0..<length (gs_rows g)]"
    using s e0 n l by (intro nth_equalityI) (auto simp: idt)
  then show "gather_armed w tokens g =
      ((gathered w tokens g)\<lparr> gs_history_rows := map (\<lambda>u. if u < ?n \<and> u < gs_snapshot_rows g
          then hist_at g tokens (Suc u) else gs_history_rows g ! u) [0..<length (gs_history_rows g)] \<rparr>, None)"
    by (simp add: g e0 gathered_def armed_upto_def)
qed

subsection \<open>Segments\<close>

text \<open>
  \<open>framed g0 n g\<close>: only the first \<open>n\<close> rows of the arrays of \<open>g\<close> may differ from \<open>g0\<close>;
  \<open>tok_done\<close>: the rows of token \<open>u\<close> are in place.
\<close>

definition framed :: "gather_session \<Rightarrow> nat \<Rightarrow> gather_session \<Rightarrow> bool" where
  "framed g0 n g \<longleftrightarrow> g = g0\<lparr> gs_ids := gs_ids g, gs_rows := gs_rows g \<rparr>
     \<and> length (gs_ids g) = length (gs_ids g0) \<and> length (gs_rows g) = length (gs_ids g0)
     \<and> (\<forall>t < length (gs_ids g0). length (gs_ids g ! t) = 16 \<and> length (gs_rows g ! t) = 2560)
     \<and> (\<forall>t. n \<le> t \<and> t < length (gs_ids g0) \<longrightarrow> gs_ids g ! t = gs_ids g0 ! t \<and> gs_rows g ! t = gs_rows g0 ! t)"

definition tok_done :: "ple_weights \<Rightarrow> gather_session \<Rightarrow> int list \<Rightarrow> gather_session \<Rightarrow> nat \<Rightarrow> bool" where
  "tok_done w g0 tokens g u \<longleftrightarrow> in_table w g0 tokens u \<and> gs_ids g ! u = tok_ids g0 tokens u
     \<and> gs_rows g ! u = tok_row w (tok_ids g0 tokens u)"

lemma framed_refl: "gather_wf g \<Longrightarrow> framed g n g"
  by (simp add: framed_def gather_wf_def ple_shape)

lemma framed_fields: "framed g0 n g \<Longrightarrow> gs_constants g = gs_constants g0 \<and> gs_history g = gs_history g0
    \<and> gs_snapshot_rows g = gs_snapshot_rows g0"
  by (metis framed_def gather_session.select_convs gather_session.surjective gather_session.update_convs(6,7))

lemma gather_token_step:
  assumes wf: "gather_wf g0" and w: "table_ok w" and n: "length tokens \<le> length (gs_ids g0)"
    and fr: "framed g0 (length tokens) g" and t: "t < length tokens"
    and step: "gather_token w tokens t (hist_at g0 tokens t) g = (h', g', ok)"
  shows "h' = hist_at g0 tokens (Suc t)" "framed g0 (length tokens) g'" "ok \<longleftrightarrow> in_table w g0 tokens t"
    "ok \<Longrightarrow> tok_done w g0 tokens g' t" "tok_done w g0 tokens g u \<Longrightarrow> tok_done w g0 tokens g' u"
proof -
  let ?new = "tok_ids g0 tokens t"
  have c: "gather_constants (gs_constants g0)" using wf by (simp add: gather_wf_def)
  have cg: "gs_constants g = gs_constants g0" using framed_fields [OF fr] by simp
  have tl: "t < length (gs_ids g0)" using t n by simp
  have f: "length (gs_ids g) = length (gs_ids g0)" "length (gs_rows g) = length (gs_ids g0)"
    "\<And>t. t < length (gs_ids g0) \<Longrightarrow> length (gs_ids g ! t) = 16 \<and> length (gs_rows g ! t) = 2560"
    using fr by (auto simp: framed_def)
  obtain r e where r: "gather_heads w 0 ?new (gs_rows g ! t) = (r, e)" by fastforce
  have "ple_row_ids (gs_constants g) (hist_at g0 tokens t) [tokens ! t] = (?new, hist_at g0 tokens (Suc t))"
    by (simp add: cg hist_at_Suc [OF t] tok_ids_def)
  then have s: "h' = hist_at g0 tokens (Suc t)" "g' = g\<lparr> gs_ids := (gs_ids g)[t := ?new], gs_rows := (gs_rows g)[t := r] \<rparr>"
    "ok \<longleftrightarrow> e = None"
    using step tl f(1) r by (auto simp: gather_token_def Let_def)
  have "length (gs_rows g ! t) = length ?new * 160" using f(3) [OF tl] length_tok_ids [OF c] by simp
  note h = gather_heads_spec [OF w this r]
  show "h' = hist_at g0 tokens (Suc t)" by (rule s(1))
  show okt: "ok \<longleftrightarrow> in_table w g0 tokens t" using h s(3) by (simp add: in_table_def)
  have l: "length r = 2560" using h f(3) [OF tl] by simp
  have "g = g0\<lparr> gs_ids := gs_ids g, gs_rows := gs_rows g \<rparr>" using fr by (simp add: framed_def)
  then have "g' = g0\<lparr> gs_ids := (gs_ids g)[t := ?new], gs_rows := (gs_rows g)[t := r] \<rparr>"
    unfolding s(2) by (metis gather_session.update_convs(6,7) gather_session.surjective)
  then show "framed g0 (length tokens) g'"
    using fr f l t tl length_tok_ids [OF c] by (auto simp: framed_def nth_list_update)
  show "tok_done w g0 tokens g' t" if ok using that okt h s f tl by (simp add: tok_done_def)
  show "tok_done w g0 tokens g' u" if "tok_done w g0 tokens g u"
    using that h s f tl by (cases "u = t") (auto simp: tok_done_def in_table_def)
qed

text \<open>The segments cover the call, and each that does not start it has the warm-up before it.\<close>

lemma takeWhile_upt:
  obtains m where "takeWhile P [0..<k] = [0..<m]" "m \<le> k" "\<And>i. i < m \<Longrightarrow> P i" "m < k \<Longrightarrow> \<not> P m"
proof
  let ?m = "length (takeWhile P [0..<k])"
  show m: "?m \<le> k" using length_takeWhile_le [of P "[0..<k]"] by simp
  have t: "takeWhile P [0..<k] = take ?m [0..<k]" by (rule takeWhile_eq_take)
  show e: "takeWhile P [0..<k] = [0..<?m]" using m by (subst t) (simp add: take_upt)
  show "P i" if "i < ?m" for i using that e m set_takeWhileD [of i P "[0..<k]"] by (metis atLeastLessThan_iff le0 set_upt)
  show "\<not> P ?m" if "?m < k" using nth_length_takeWhile [of P "[0..<k]"] that by simp
qed

lemma gather_segments_cover:
  assumes "gather_nthreads cfg n \<noteq> 1" "0 < gc_pool_threads cfg"
  defines "segs \<equiv> gather_segments cfg n"
  shows "length segs \<le> gc_pool_threads cfg" "length segs \<le> 16" "0 < length segs" "64 \<le> n"
    and "\<And>k. k < length segs \<Longrightarrow> fst (segs ! k) \<le> snd (segs ! k) \<and> snd (segs ! k) \<le> n
        \<and> (fst (segs ! k) = 0 \<or> 2 \<le> fst (segs ! k))"
    and "\<And>u. u < n \<Longrightarrow> \<exists>k < length segs. fst (segs ! k) \<le> u \<and> u < snd (segs ! k)"
proof -
  define k where "k = min (min (min (gather_nthreads cfg n) n) QW_PLE_MAX_THREADS) (gc_pool_threads cfg)"
  define per where "per = (n + k - 1) div k"
  have n: "64 \<le> n" "1 < gather_nthreads cfg n" using assms(1) by (auto simp: gather_nthreads_def split: if_splits)
  have k: "1 \<le> k" "k \<le> 16" "k \<le> gc_pool_threads cfg" using n assms(2) by (auto simp: k_def QW_PLE_MAX_THREADS_def)
  have per: "n \<le> k * per"
  proof -
    have "n + k - 1 < Suc per * k" unfolding per_def using k(1) by (metis dividend_less_div_times mult_Suc not_less_eq_eq One_nat_def Suc_le_lessD less_eq_Suc_le mult.commute add.commute)
    then show ?thesis by (simp add: mult.commute)
  qed
  have per2: "2 \<le> per"
  proof (rule ccontr)
    assume "\<not> 2 \<le> per"
    then have "per \<le> 1" by simp
    then have "k * per \<le> k * 1" by (rule mult_le_mono2)
    then show False using per n k(2) by linarith
  qed
  obtain m where m: "takeWhile (\<lambda>i. i * per < n) [0..<k] = [0..<m]" "m \<le> k" "\<And>i. i < m \<Longrightarrow> i * per < n" "m < k \<Longrightarrow> \<not> m * per < n"
    using takeWhile_upt [of "\<lambda>i. i * per < n" k] by metis
  have s: "segs = map (\<lambda>i. (i * per, min (i * per + per) n)) [0..<m]"
    unfolding segs_def gather_segments_def Let_def k_def [symmetric] per_def [symmetric] m(1) by simp
  have "0 < m" using m(4) k(1) n(1) by (cases "m = 0") auto
  then show "length segs \<le> gc_pool_threads cfg" "length segs \<le> 16" "0 < length segs" "64 \<le> n"
    using m(2) k n by (simp_all add: s)
  show "fst (segs ! i) \<le> snd (segs ! i) \<and> snd (segs ! i) \<le> n \<and> (fst (segs ! i) = 0 \<or> 2 \<le> fst (segs ! i))"
    if "i < length segs" for i
  proof -
    have "i = 0 \<or> 2 \<le> i * per" using per2 by (cases i) simp_all
    then show ?thesis using that m(3) [of i] by (auto simp: s)
  qed
  show "\<exists>i < length segs. fst (segs ! i) \<le> u \<and> u < snd (segs ! i)" if u: "u < n" for u
  proof (intro exI conjI)
    let ?i = "u div per"
    have a: "?i * per \<le> u" "u < ?i * per + per"
      using per2 dividend_less_div_times [of per u] by (simp_all add: add.commute)
    have "?i < m"
    proof (rule ccontr)
      assume "\<not> ?i < m"
      then have "m * per \<le> u" using a(1) mult_le_mono1 [of m ?i per] by linarith
      then have "m = k" using m(2,4) u by (metis le_neq_implies_less le_trans not_less)
      then show False using per u \<open>m * per \<le> u\<close> by (simp add: mult.commute)
    qed
    then show "?i < length segs" "fst (segs ! ?i) \<le> u" "u < snd (segs ! ?i)" using a u by (simp_all add: s)
  qed
qed

text \<open>After the segments: the session is what the serial scan leaves, or a segment is refused.\<close>

definition seg_report :: "ple_weights \<Rightarrow> gather_session \<Rightarrow> int list \<Rightarrow> gather_session \<Rightarrow> nat \<times> nat \<Rightarrow> bool \<Rightarrow> bool" where
  "seg_report w g0 tokens g seg ok \<longleftrightarrow>
     (if ok then \<forall>u. fst seg \<le> u \<and> u < snd seg \<longrightarrow> tok_done w g0 tokens g u
      else \<exists>u < length tokens. \<not> in_table w g0 tokens u)"

lemma gather_join_exact:
  assumes wf: "gather_wf g0" and n: "2 < length tokens" "length tokens \<le> length (gs_ids g0)"
    and fr: "framed g0 (length tokens) g"
    and cover: "\<And>u. u < length tokens \<Longrightarrow> \<exists>k < length segs. fst (segs ! k) \<le> u \<and> u < snd (segs ! k)"
    and oks: "length oks = length segs" "\<And>k. k < length segs \<Longrightarrow> seg_report w g0 tokens g (segs ! k) (oks ! k)"
  shows "(\<forall>t < length tokens. in_table w g0 tokens t) \<Longrightarrow> gather_join tokens oks g = (gathered w tokens g0, None)"
    and "\<exists>t < length tokens. \<not> in_table w g0 tokens t \<Longrightarrow> snd (gather_join tokens oks g) \<noteq> None"
proof -
  let ?n = "length tokens"
  have fin: "tok_done w g0 tokens g u" if all: "\<forall>k < length oks. oks ! k" and u: "u < ?n" for u
  proof -
    obtain k where "k < length segs" "fst (segs ! k) \<le> u" "u < snd (segs ! k)" using cover [OF u] by blast
    then show ?thesis using oks(2) [of k] all oks(1) by (simp add: seg_report_def)
  qed
  show "snd (gather_join tokens oks g) \<noteq> None" if bad: "\<exists>t < ?n. \<not> in_table w g0 tokens t"
  proof (cases "\<forall>k < length oks. oks ! k")
    case True
    then show ?thesis using bad fin by (auto simp: tok_done_def)
  next
    case False
    then have "find (\<lambda>i. \<not> oks ! i) [0..<length oks] \<noteq> None" by (auto simp: find_None_iff)
    then show ?thesis by (auto simp: gather_join_def)
  qed
  assume good: "\<forall>t < ?n. in_table w g0 tokens t"
  then have all: "\<forall>k < length oks. oks ! k" using oks unfolding seg_report_def by metis
  then have f: "find (\<lambda>i. \<not> oks ! i) [0..<length oks] = None" by (auto simp: find_None_iff)
  have g: "g = g0\<lparr> gs_ids := gs_ids g, gs_rows := gs_rows g \<rparr>" and l: "length (gs_ids g) = length (gs_ids g0)" "length (gs_rows g) = length (gs_ids g0)"
    "length (gs_rows g0) = length (gs_ids g0)"
    and rest: "\<And>t. ?n \<le> t \<Longrightarrow> t < length (gs_ids g0) \<Longrightarrow> gs_ids g ! t = gs_ids g0 ! t \<and> gs_rows g ! t = gs_rows g0 ! t"
    using fr wf unfolding framed_def gather_wf_def by blast+
  have ids: "gs_ids g = map (\<lambda>t. if t < ?n then tok_ids g0 tokens t else gs_ids g0 ! t) [0..<length (gs_ids g0)]"
    using l rest fin [OF all] by (intro nth_equalityI) (auto simp: tok_done_def)
  have rows: "gs_rows g = map (\<lambda>t. if t < ?n then tok_row w (tok_ids g0 tokens t) else gs_rows g0 ! t) [0..<length (gs_rows g0)]"
    using l rest fin [OF all] by (intro nth_equalityI) (auto simp: tok_done_def)
  have c: "gather_constants (gs_constants g0)" using wf by (simp add: gather_wf_def)
  obtain pre where pre: "history_full (gs_constants g0) pre (gs_history g0)" using wf by (auto simp: gather_wf_def)
  have "gather_tail (gs_constants g0) tokens = hist_at g0 tokens ?n"
    using gather_tail_exact [OF c pre n(1)] by (simp add: hist_at_def)
  then have "gather_join tokens oks g = (g\<lparr> gs_history := hist_at g0 tokens ?n \<rparr>, None)"
    using framed_fields [OF fr] by (simp add: gather_join_def f)
  also have "g\<lparr> gs_history := hist_at g0 tokens ?n \<rparr> = gathered w tokens g0"
    unfolding gathered_def by (subst g) (simp add: ids rows)
  finally show "gather_join tokens oks g = (gathered w tokens g0, None)" .
qed

text \<open>The segments one after another.\<close>

lemma gather_loop_report:
  assumes wf: "gather_wf g0" and w: "table_ok w" and n: "length tokens \<le> length (gs_ids g0)"
  shows "framed g0 (length tokens) g \<Longrightarrow> t + k \<le> length tokens \<Longrightarrow>
    gather_loop w tokens t k (hist_at g0 tokens t) g = (g', ok) \<Longrightarrow>
    framed g0 (length tokens) g' \<and> seg_report w g0 tokens g' (t, t + k) ok
    \<and> (\<forall>u. tok_done w g0 tokens g u \<longrightarrow> tok_done w g0 tokens g' u)"
proof (induction k arbitrary: t g)
  case (Suc k)
  have t: "t < length tokens" using Suc.prems(2) by simp
  obtain h1 g1 ok1 where s: "gather_token w tokens t (hist_at g0 tokens t) g = (h1, g1, ok1)" by (rule prod_cases3)
  note st = gather_token_step [OF wf w n Suc.prems(1) t s]
  show ?case
  proof (cases ok1)
    case False
    then show ?thesis using Suc.prems(3) s st t by (auto simp: seg_report_def)
  next
    case True
    have "gather_loop w tokens (Suc t) k (hist_at g0 tokens (Suc t)) g1 = (g', ok)"
      using Suc.prems(3) True by (simp add: s st(1) del: hist_at_Suc)
    note IH = Suc.IH [OF st(2) _ this]
    have u: "u = t" if "t \<le> u" "\<not> Suc t \<le> u" for u using that by linarith
    show ?thesis using IH st True Suc.prems(2) by (auto simp: seg_report_def dest: u)
  qed
qed (auto simp: seg_report_def dest: leD)

lemma gather_each_report:
  assumes wf: "gather_wf g0" and w: "table_ok w" and n: "length tokens \<le> length (gs_ids g0)"
  shows "framed g0 (length tokens) g \<Longrightarrow>
    (\<forall>k < length segs. fst (segs ! k) \<le> snd (segs ! k) \<and> snd (segs ! k) \<le> length tokens
       \<and> (fst (segs ! k) = 0 \<or> 2 \<le> fst (segs ! k))) \<Longrightarrow>
    gather_each w tokens segs g = (g', oks) \<Longrightarrow>
    framed g0 (length tokens) g' \<and> length oks = length segs
    \<and> (\<forall>k < length segs. seg_report w g0 tokens g' (segs ! k) (oks ! k))
    \<and> (\<forall>u. tok_done w g0 tokens g u \<longrightarrow> tok_done w g0 tokens g' u)"
proof (induction segs arbitrary: g oks)
  case (Cons seg segs)
  obtain g1 ok where 1: "gather_worker w tokens seg g = (g1, ok)" by fastforce
  obtain oks' where 2: "gather_each w tokens segs g1 = (g', oks')" "oks = ok # oks'"
    using Cons.prems(3) 1 by (cases "gather_each w tokens segs g1") auto
  have b: "fst seg \<le> snd seg" "snd seg \<le> length tokens" "fst seg = 0 \<or> 2 \<le> fst seg"
    using Cons.prems(2) [rule_format, of 0] by simp_all
  have c: "gather_constants (gs_constants g0)" using wf by (simp add: gather_wf_def)
  obtain pre where pre: "history_full (gs_constants g0) pre (gs_history g0)" using wf by (auto simp: gather_wf_def)
  have "seg_entry (gs_constants g) tokens (gs_history g) (fst seg) = hist_at g0 tokens (fst seg)"
    using seg_entry_exact [OF c pre b(3)] b framed_fields [OF Cons.prems(1)] by (simp add: hist_at_def)
  then have "gather_loop w tokens (fst seg) (snd seg - fst seg) (hist_at g0 tokens (fst seg)) g = (g1, ok)"
    using 1 by (simp add: gather_worker_def)
  note l = gather_loop_report [OF wf w n Cons.prems(1) _ this]
  have rest: "\<forall>k < length segs. fst (segs ! k) \<le> snd (segs ! k) \<and> snd (segs ! k) \<le> length tokens
       \<and> (fst (segs ! k) = 0 \<or> 2 \<le> fst (segs ! k))" using Cons.prems(2) by auto
  note IH = Cons.IH [OF l [THEN conjunct1] rest 2(1)]
  have r: "seg_report w g0 tokens g1 seg ok" using l b by simp
  have "seg_report w g0 tokens g' seg ok" using r IH b by (auto simp: seg_report_def split: if_splits)
  then show ?case using IH l b by (auto simp: 2(2) nth_Cons split: nat.splits)
qed simp

text \<open>Every path of a call against the serial scan.\<close>

definition ple_gather_serial :: "gather_cfg \<Rightarrow> int list \<Rightarrow> gather_session \<Rightarrow> gather_session \<times> gather_error option" where
  "ple_gather_serial cfg = qwen4exp_ple_gather (cfg\<lparr> gc_nthreads := 1 \<rparr>)"

definition agrees :: "gather_session \<times> gather_error option \<Rightarrow> gather_session \<times> gather_error option \<Rightarrow> bool" where
  "agrees r s \<longleftrightarrow> (snd r = None \<longleftrightarrow> snd s = None) \<and> (snd s = None \<longrightarrow> r = s)"

lemma agrees_upload: "agrees r s \<Longrightarrow> agrees (gather_upload cfg n r) (gather_upload cfg n s)"
  by (cases r; cases s) (auto simp: agrees_def gather_upload_def split: option.splits)

lemma agrees_refl [simp]: "agrees r r"
  by (simp add: agrees_def)

lemma agrees_cases:
  assumes "(\<forall>t < n. P t) \<Longrightarrow> r = (g, None)" "\<exists>t < n. \<not> P t \<Longrightarrow> snd r \<noteq> None"
    and "(\<forall>t < n. P t) \<Longrightarrow> s = (g, None)" "\<exists>t < n. \<not> P t \<Longrightarrow> snd s \<noteq> None"
  shows "agrees r s"
  using assms unfolding agrees_def by (metis snd_conv)

lemma cfg_serial: "gather_upload (cfg\<lparr> gc_nthreads := k \<rparr>) = gather_upload cfg"
proof -
  have "gc_upload (cfg\<lparr> gc_nthreads := k \<rparr>) = gc_upload cfg" by simp
  then show ?thesis by (intro ext) (simp add: gather_upload_def)
qed

lemma serial_unfold:
  "ple_gather_serial cfg tokens g =
     (case gather_refusal (gc_weights cfg) g of Some e \<Rightarrow> (g, Some e)
      | None \<Rightarrow> gather_upload cfg (length tokens)
          (if gs_snapshot_rows g > 0 then gather_armed (gc_weights cfg) tokens g else gather_serial (gc_weights cfg) tokens g))"
  by (simp add: ple_gather_serial_def qwen4exp_ple_gather_def gather_nthreads_def Let_def cfg_serial
      split: option.splits)

text \<open>
  A call in absolute terms, whichever scan it makes: what the scan leaves when every row is in
  the table, and that it refuses otherwise. Unarmed, no slot changes.
\<close>

definition gathered_slots :: "ple_weights \<Rightarrow> int list \<Rightarrow> gather_session \<Rightarrow> gather_session" where
  "gathered_slots w tokens g =
     (gathered w tokens g)\<lparr> gs_history_rows := map (\<lambda>u. if u < length tokens \<and> u < gs_snapshot_rows g
        then hist_at g tokens (Suc u) else gs_history_rows g ! u) [0..<length (gs_history_rows g)] \<rparr>"

lemma gathered_slots_unarmed: "gs_snapshot_rows g = 0 \<Longrightarrow> gathered_slots w tokens g = gathered w tokens g"
  by (simp add: gathered_slots_def gathered_def map_nth)

lemma gathered_rows:
  assumes "gather_wf g" "length tokens \<le> length (gs_ids g)"
  shows "take (length tokens) (gs_rows (gathered_slots w tokens g))
    = map (\<lambda>t. tok_row w (tok_ids g tokens t)) [0..<length tokens]"
  using assms by (intro nth_equalityI) (auto simp: gathered_slots_def gathered_def gather_wf_def)

definition gather_scan :: "gather_cfg \<Rightarrow> int list \<Rightarrow> gather_session \<Rightarrow> gather_session \<times> gather_error option" where
  "gather_scan cfg tokens g =
     (if gs_snapshot_rows g > 0 then gather_armed (gc_weights cfg) tokens g
      else if gather_nthreads cfg (length tokens) = 1 then gather_serial (gc_weights cfg) tokens g
      else case gather_each (gc_weights cfg) tokens (gather_segments cfg (length tokens)) g of
        (g', oks) \<Rightarrow> gather_join tokens oks g')"

lemma gather_unfold:
  "qwen4exp_ple_gather cfg tokens g =
     (case gather_refusal (gc_weights cfg) g of Some e \<Rightarrow> (g, Some e)
      | None \<Rightarrow> gather_upload cfg (length tokens) (gather_scan cfg tokens g))"
  by (simp add: qwen4exp_ple_gather_def gather_scan_def Let_def split: option.splits)

lemma gather_scan_exact:
  assumes wf: "gather_wf g" and w: "table_ok (gc_weights cfg)" and n: "length tokens \<le> length (gs_ids g)"
    and p: "0 < gc_pool_threads cfg"
  shows "\<forall>t < length tokens. in_table (gc_weights cfg) g tokens t \<Longrightarrow>
      gather_scan cfg tokens g = (gathered_slots (gc_weights cfg) tokens g, None)"
    and "\<exists>t < length tokens. \<not> in_table (gc_weights cfg) g tokens t \<Longrightarrow> snd (gather_scan cfg tokens g) \<noteq> None"
proof -
  let ?w = "gc_weights cfg" and ?segs = "gather_segments cfg (length tokens)"
  obtain g' oks where e: "gather_each ?w tokens ?segs g = (g', oks)" by fastforce
  note r = gather_each_report [OF wf w n framed_refl [OF wf] _ e]
  have join: "(\<forall>t < length tokens. in_table ?w g tokens t) \<Longrightarrow> gather_join tokens oks g' = (gathered ?w tokens g, None)"
    "\<exists>t < length tokens. \<not> in_table ?w g tokens t \<Longrightarrow> snd (gather_join tokens oks g') \<noteq> None"
    if k: "gather_nthreads cfg (length tokens) \<noteq> 1"
  proof -
    note sg = gather_segments_cover [OF k p]
    show "(\<forall>t < length tokens. in_table ?w g tokens t) \<Longrightarrow> gather_join tokens oks g' = (gathered ?w tokens g, None)"
      "\<exists>t < length tokens. \<not> in_table ?w g tokens t \<Longrightarrow> snd (gather_join tokens oks g') \<noteq> None"
      using gather_join_exact [OF wf _ n _ sg(6), where oks = oks and g = g' and w = ?w] r sg by auto
  qed
  note armed = armed_exact [OF wf w n] and serial = serial_exact [OF wf w n]
  show "gather_scan cfg tokens g = (gathered_slots ?w tokens g, None)"
    if ok: "\<forall>t < length tokens. in_table ?w g tokens t"
    using armed(1) [OF ok] serial(1) [OF ok] join(1) [OF _ ok] gathered_slots_unarmed [of g ?w tokens]
    unfolding gather_scan_def e prod.case by (simp add: gathered_slots_def)
  show "snd (gather_scan cfg tokens g) \<noteq> None" if bad: "\<exists>t < length tokens. \<not> in_table ?w g tokens t"
    using armed(2) [OF bad] serial(2) [OF bad] join(2) [OF _ bad]
    unfolding gather_scan_def e prod.case by simp
qed

lemma gather_paths:
  assumes wf: "gather_wf g" and w: "table_ok (gc_weights cfg)" and n: "length tokens \<le> length (gs_ids g)"
    and p: "0 < gc_pool_threads cfg"
  shows "agrees (qwen4exp_ple_gather cfg tokens g) (ple_gather_serial cfg tokens g)"
proof -
  let ?one = "cfg\<lparr> gc_nthreads := 1 \<rparr>"
  have one: "gc_weights ?one = gc_weights cfg" "gc_pool_threads ?one = gc_pool_threads cfg" by simp_all
  note all = gather_scan_exact [OF wf w n p] gather_scan_exact [of g ?one, unfolded one, OF wf w n p]
  have "agrees (gather_scan cfg tokens g) (gather_scan ?one tokens g)" by (rule agrees_cases [OF all])
  then show ?thesis
    using agrees_upload unfolding ple_gather_serial_def gather_unfold one cfg_serial
    by (simp split: option.splits)
qed

text \<open>With the same ids the armed scan refuses at the same token, head and row as the serial one.\<close>

lemma gather_rows_cong:
  "(\<And>u. t \<le> u \<Longrightarrow> u < t + n \<Longrightarrow> ids ! u = ids' ! u) \<Longrightarrow> gather_rows w ids t n rows = gather_rows w ids' t n rows"
proof (induction n arbitrary: t rows)
  case (Suc n)
  have "gather_rows w ids (Suc t) n rows' = gather_rows w ids' (Suc t) n rows'" for rows'
    by (rule Suc.IH) (use Suc.prems in auto)
  then show ?case using Suc.prems [of t] by (simp split: prod.splits option.splits)
qed simp

lemma armed_refuses_as_serial:
  assumes wf: "gather_wf g" and n: "length tokens \<le> length (gs_ids g)"
  shows "snd (gather_armed w tokens g) = snd (gather_serial w tokens g)"
proof -
  let ?n = "length tokens" and ?c = "gs_constants g"
  have c: "gather_constants ?c" using wf by (simp add: gather_wf_def)
  have 0: "armed_upto g tokens 0 = g" by (simp add: armed_upto_def map_nth)
  have a: "armed_ids 0 tokens g = armed_upto g tokens ?n" using armed_ids_upto [OF c n, of 0] 0 by simp
  have flat: "fst (ple_row_ids ?c (gs_history g) tokens) = concat (map (tok_ids g tokens) [0..<?n])"
    using row_ids_flat [OF c, of ?n tokens] by simp
  have "store_ids ?n (fst (ple_row_ids ?c (gs_history g) tokens)) (gs_ids g) ! u = gs_ids (armed_upto g tokens ?n) ! u"
    if "u < ?n" for u
    using that n concat_slice [of ?n "tok_ids g tokens" 16 u] length_tok_ids [OF c]
    by (simp add: flat store_ids_def armed_upto_def ple_shape)
  then have "gather_rows w (gs_ids (armed_upto g tokens ?n)) 0 ?n (gs_rows g)
      = gather_rows w (store_ids ?n (fst (ple_row_ids ?c (gs_history g) tokens)) (gs_ids g)) 0 ?n (gs_rows g)"
    by (intro gather_rows_cong) simp
  then show ?thesis
    by (simp add: gather_armed_def gather_serial_def Let_def a split_beta) (simp add: armed_upto_def)
qed

text \<open>The history slots are not read by a gather.\<close>

lemma gathered_wf:
  assumes "gather_wf g" "length tokens \<le> length (gs_ids g)" "table_ok w"
    "\<forall>t < length tokens. in_table w g tokens t"
  shows "gather_wf (gathered w tokens g)"
proof -
  have c: "gather_constants (gs_constants g)" using assms by (simp add: gather_wf_def)
  obtain pre where "history_full (gs_constants g) pre (gs_history g)" using assms by (auto simp: gather_wf_def)
  from history_full_foldl [OF c this, of tokens]
  have h: "\<exists>pre. history_full (gs_constants g) pre (hist_at g tokens (length tokens))"
    unfolding hist_at_def by auto
  have "length (tok_row w (tok_ids g tokens t)) = 2560" if "t < length tokens" for t
  proof -
    obtain r e where r: "gather_heads w 0 (tok_ids g tokens t) (gs_rows g ! t) = (r, e)" by fastforce
    have l: "length (gs_rows g ! t) = length (tok_ids g tokens t) * 160"
      using assms that by (simp add: gather_wf_def length_tok_ids [OF c] ple_shape)
    show ?thesis using gather_heads_spec [OF assms(3) l r] assms(4) that l length_tok_ids [OF c, of tokens t] by (auto simp: in_table_def)
  qed
  then show ?thesis using assms(1,2) c h length_tok_ids [OF c]
    by (simp add: gather_wf_def gathered_def ple_shape)
qed

end
