(* ===== verification/Ple_Pool.thy ===== *)
theory Ple_Pool
  imports Ple_Gather
begin

text \<open>
  The thread pool of the gather (\<open>qw_ple_pool_t\<close> in \<open>ds4_qwen4exp_graph.inc\<close>): the calling thread
  publishes a round, works on segment 0 and waits for the workers; a worker waits for a new
  generation, gathers its segment and counts itself done; a shutdown wakes and joins every worker.

  A schedule is a list of events: a thread makes its next step, or a sleeping thread wakes
  spuriously, as \<open>pthread_cond_wait\<close> allows. A step that would block leaves the pool as it is. One
  step is one access to the mutex, one critical section up to the wait or the unlock that ends it,
  or one pass of the loop over tokens; the ids and rows of a token are written by one thread only.
  Thread 0 is the caller. It makes a given list of calls; a refused call ends them, as the forward
  that asked for it fails. The generation is a 32-bit counter.
\<close>

subsection \<open>State\<close>

datatype main_pc =
    M_Call | M_Start | M_Publish | M_Warm | M_Work nat ple_history | M_Join | M_Check | M_Asleep
  | M_Finish | M_Stop | M_Shut | M_Reap nat | M_End

datatype worker_pc =
    W_Enter | W_Look | W_Asleep | W_Warm | W_Work nat ple_history | W_Done | W_Count | W_Exit

record pool =
  pl_mutex :: "nat option"
  pl_active :: nat
  pl_completed :: nat
  pl_gen :: nat
  pl_shutdown :: bool
  pl_segs :: "(nat \<times> nat) list"
  pl_oks :: "bool list"
  pl_session :: gather_session
  m_pc :: main_pc
  m_calls :: "int list list"
  m_results :: "gather_session option list"
  w_pc :: "nat \<Rightarrow> worker_pc"
  w_last :: "nat \<Rightarrow> nat"

datatype pool_event = Main | Worker nat | Wake_Main | Wake nat

definition qw_ple_pool_init :: "gather_session \<Rightarrow> int list list \<Rightarrow> pool" where
  "qw_ple_pool_init g calls =
     \<lparr> pl_mutex = None, pl_active = 0, pl_completed = 0, pl_gen = 0, pl_shutdown = False,
       pl_segs = [], pl_oks = [], pl_session = g, m_pc = M_Call, m_calls = calls, m_results = [],
       w_pc = (\<lambda>_. W_Enter), w_last = (\<lambda>_. 0) \<rparr>"

subsection \<open>Steps\<close>

definition wake_workers :: "(nat \<Rightarrow> worker_pc) \<Rightarrow> nat \<Rightarrow> worker_pc" where
  "wake_workers pcs i = (if pcs i = W_Asleep then W_Enter else pcs i)"

definition signal_main :: "pool \<Rightarrow> pool" where
  "signal_main p = (if m_pc p = M_Asleep then p\<lparr> m_pc := M_Join \<rparr> else p)"

definition next_gen :: "pool \<Rightarrow> nat" where
  "next_gen p = (pl_gen p + 1) mod 2 ^ 32"

text \<open>The first step on a segment and one pass of its loop; \<open>None\<close> when the segment is left.\<close>

definition seg_begin :: "pool \<Rightarrow> nat \<Rightarrow> (nat \<times> ple_history) \<times> pool" where
  "seg_begin p k =
     (let g = pl_session p; t0 = fst (pl_segs p ! k) in
      ((t0, seg_entry (gs_constants g) (hd (m_calls p)) (gs_history g) t0), p\<lparr> pl_oks := (pl_oks p)[k := True] \<rparr>))"

definition seg_pass :: "gather_cfg \<Rightarrow> pool \<Rightarrow> nat \<Rightarrow> nat \<Rightarrow> ple_history \<Rightarrow> (nat \<times> ple_history) option \<times> pool" where
  "seg_pass cfg p k t h =
     (if t < snd (pl_segs p ! k) then
        (case gather_token (gc_weights cfg) (hd (m_calls p)) t h (pl_session p) of
           (h', g', ok) \<Rightarrow>
             if ok then (Some (Suc t, h'), p\<lparr> pl_session := g' \<rparr>)
             else (None, p\<lparr> pl_session := g', pl_oks := (pl_oks p)[k := False] \<rparr>))
      else (None, p))"

text \<open>What the caller does with the outcome of a call.\<close>

definition main_return :: "gather_session \<times> gather_error option \<Rightarrow> pool \<Rightarrow> pool" where
  "main_return r p =
     p\<lparr> pl_session := fst r, m_results := m_results p @ [if snd r = None then Some (fst r) else None],
        m_calls := (if snd r = None then tl (m_calls p) else []), m_pc := M_Call \<rparr>"

definition main_step :: "gather_cfg \<Rightarrow> pool \<Rightarrow> pool" where
  "main_step cfg p =
     (case m_pc p of
        M_Call \<Rightarrow>
          (case m_calls p of
             [] \<Rightarrow> p\<lparr> m_pc := M_Stop \<rparr>
           | tokens # _ \<Rightarrow>
               if uses_pool cfg tokens (pl_session p) then
                 let segs = gather_segments cfg (length tokens) in
                 p\<lparr> pl_segs := segs, pl_oks := replicate (length segs) False, m_pc := M_Start \<rparr>
               else main_return (qwen4exp_ple_gather cfg tokens (pl_session p)) p)
      | M_Start \<Rightarrow> if pl_mutex p = None then p\<lparr> pl_mutex := Some 0, m_pc := M_Publish \<rparr> else p
      | M_Publish \<Rightarrow>
          p\<lparr> pl_active := length (pl_segs p) - 1, pl_completed := 0, pl_gen := next_gen p,
             w_pc := wake_workers (w_pc p), pl_mutex := None, m_pc := M_Warm \<rparr>
      | M_Warm \<Rightarrow> (case seg_begin p 0 of ((t, h), p') \<Rightarrow> p'\<lparr> m_pc := M_Work t h \<rparr>)
      | M_Work t h \<Rightarrow>
          (case seg_pass cfg p 0 t h of
             (Some (t', h'), p') \<Rightarrow> p'\<lparr> m_pc := M_Work t' h' \<rparr>
           | (None, p') \<Rightarrow> p'\<lparr> m_pc := M_Join \<rparr>)
      | M_Join \<Rightarrow> if pl_mutex p = None then p\<lparr> pl_mutex := Some 0, m_pc := M_Check \<rparr> else p
      | M_Check \<Rightarrow> p\<lparr> pl_mutex := None, m_pc := (if pl_completed p < pl_active p then M_Asleep else M_Finish) \<rparr>
      | M_Asleep \<Rightarrow> p
      | M_Finish \<Rightarrow>
          main_return (gather_upload cfg (length (hd (m_calls p)))
            (gather_join (hd (m_calls p)) (pl_oks p) (pl_session p))) p
      | M_Stop \<Rightarrow> if pl_mutex p = None then p\<lparr> pl_mutex := Some 0, m_pc := M_Shut \<rparr> else p
      | M_Shut \<Rightarrow>
          p\<lparr> pl_shutdown := True, pl_gen := next_gen p, w_pc := wake_workers (w_pc p), pl_mutex := None, m_pc := M_Reap 1 \<rparr>
      | M_Reap i \<Rightarrow>
          if i < gc_pool_threads cfg then (if w_pc p i = W_Exit then p\<lparr> m_pc := M_Reap (i + 1) \<rparr> else p)
          else p\<lparr> m_pc := M_End \<rparr>
      | M_End \<Rightarrow> p)"

definition worker_set :: "pool \<Rightarrow> nat \<Rightarrow> worker_pc \<Rightarrow> pool" where
  "worker_set p i pc = p\<lparr> w_pc := (w_pc p)(i := pc) \<rparr>"

definition worker_step :: "gather_cfg \<Rightarrow> nat \<Rightarrow> pool \<Rightarrow> pool" where
  "worker_step cfg i p =
     (case w_pc p i of
        W_Enter \<Rightarrow> if pl_mutex p = None then worker_set (p\<lparr> pl_mutex := Some i \<rparr>) i W_Look else p
      | W_Look \<Rightarrow>
          if pl_gen p = w_last p i \<and> \<not> pl_shutdown p then worker_set (p\<lparr> pl_mutex := None \<rparr>) i W_Asleep
          else if pl_shutdown p then worker_set (p\<lparr> pl_mutex := None \<rparr>) i W_Exit
          else worker_set (p\<lparr> pl_mutex := None, w_last := (w_last p)(i := pl_gen p) \<rparr>) i
                 (if i \<le> pl_active p then W_Warm else W_Enter)
      | W_Asleep \<Rightarrow> p
      | W_Warm \<Rightarrow> (case seg_begin p i of ((t, h), p') \<Rightarrow> worker_set p' i (W_Work t h))
      | W_Work t h \<Rightarrow>
          (case seg_pass cfg p i t h of
             (Some (t', h'), p') \<Rightarrow> worker_set p' i (W_Work t' h')
           | (None, p') \<Rightarrow> worker_set p' i W_Done)
      | W_Done \<Rightarrow> if pl_mutex p = None then worker_set (p\<lparr> pl_mutex := Some i \<rparr>) i W_Count else p
      | W_Count \<Rightarrow>
          (let p1 = p\<lparr> pl_completed := pl_completed p + 1 \<rparr>;
               p2 = (if pl_completed p1 = pl_active p1 then signal_main p1 else p1)
           in worker_set (p2\<lparr> pl_mutex := None \<rparr>) i W_Enter)
      | W_Exit \<Rightarrow> p)"

definition is_worker :: "gather_cfg \<Rightarrow> nat \<Rightarrow> bool" where
  "is_worker cfg i \<longleftrightarrow> 1 \<le> i \<and> i < gc_pool_threads cfg"

definition pool_step :: "gather_cfg \<Rightarrow> pool \<Rightarrow> pool_event \<Rightarrow> pool" where
  "pool_step cfg p e =
     (case e of
        Main \<Rightarrow> main_step cfg p
      | Worker i \<Rightarrow> if is_worker cfg i then worker_step cfg i p else p
      | Wake_Main \<Rightarrow> signal_main p
      | Wake i \<Rightarrow> if is_worker cfg i \<and> w_pc p i = W_Asleep then worker_set p i W_Enter else p)"

definition pool_run :: "gather_cfg \<Rightarrow> pool_event list \<Rightarrow> pool \<Rightarrow> pool" where
  "pool_run cfg es p = foldl (pool_step cfg) p es"

text \<open>The calls made serially, up to the first refusal.\<close>

fun serial_calls :: "gather_cfg \<Rightarrow> gather_session \<Rightarrow> int list list \<Rightarrow> gather_session option list" where
  "serial_calls cfg g [] = []"
| "serial_calls cfg g (tokens # calls) =
     (case ple_gather_serial cfg tokens g of
        (g', None) \<Rightarrow> Some g' # serial_calls cfg g' calls
      | (g', Some e) \<Rightarrow> [None])"

subsection \<open>The protocol's invariant\<close>

definition m_locked :: "main_pc \<Rightarrow> bool" where
  "m_locked pc \<longleftrightarrow> pc \<in> {M_Publish, M_Check, M_Shut}"

fun m_open :: "main_pc \<Rightarrow> bool" where
  "m_open M_Warm = True" | "m_open (M_Work t h) = True" | "m_open M_Join = True" | "m_open M_Check = True"
| "m_open M_Asleep = True" | "m_open _ = False"

fun m_over :: "main_pc \<Rightarrow> bool" where
  "m_over (M_Reap i) = True" | "m_over M_End = True" | "m_over _ = False"

definition w_locked :: "worker_pc \<Rightarrow> bool" where
  "w_locked pc \<longleftrightarrow> pc \<in> {W_Look, W_Count}"

fun w_busy :: "worker_pc \<Rightarrow> bool" where
  "w_busy W_Warm = True" | "w_busy (W_Work t h) = True" | "w_busy W_Done = True" | "w_busy W_Count = True"
| "w_busy _ = False"

definition counted :: "pool \<Rightarrow> nat set" where
  "counted p = {i. 1 \<le> i \<and> i \<le> pl_active p \<and> w_last p i = pl_gen p \<and> \<not> w_busy (w_pc p i)}"

definition pending :: "pool \<Rightarrow> nat" where
  "pending p = (if m_open (m_pc p) \<or> m_pc p = M_Finish then length (m_calls p) - 1 else length (m_calls p))
     + (if pl_shutdown p then 0 else 1)"

definition lock_inv :: "gather_cfg \<Rightarrow> pool \<Rightarrow> bool" where
  "lock_inv cfg p \<longleftrightarrow> (\<forall>j. pl_mutex p = Some j \<longrightarrow> j = 0 \<or> is_worker cfg j)
     \<and> (pl_mutex p = Some 0 \<longleftrightarrow> m_locked (m_pc p))
     \<and> (\<forall>i. is_worker cfg i \<longrightarrow> (pl_mutex p = Some i \<longleftrightarrow> w_locked (w_pc p i)))"

definition round_inv :: "gather_cfg \<Rightarrow> pool \<Rightarrow> bool" where
  "round_inv cfg p \<longleftrightarrow> pl_gen p + pending p < 2 ^ 32 \<and> (pl_shutdown p \<longleftrightarrow> m_over (m_pc p))
     \<and> (\<forall>i. is_worker cfg i \<longrightarrow> w_last p i \<le> pl_gen p)
     \<and> (\<forall>i. is_worker cfg i \<and> w_busy (w_pc p i) \<longrightarrow> m_open (m_pc p) \<and> w_last p i = pl_gen p \<and> i \<le> pl_active p)
     \<and> (\<forall>i. is_worker cfg i \<and> w_pc p i = W_Asleep \<longrightarrow> w_last p i = pl_gen p \<and> \<not> pl_shutdown p)
     \<and> (\<forall>i. is_worker cfg i \<and> w_pc p i = W_Exit \<longrightarrow> pl_shutdown p)
     \<and> (m_pc p = M_Start \<or> m_pc p = M_Publish \<longrightarrow> 0 < length (pl_segs p) \<and> length (pl_segs p) \<le> gc_pool_threads cfg \<and> m_calls p \<noteq> [])
     \<and> (m_open (m_pc p) \<longrightarrow> length (pl_segs p) = pl_active p + 1 \<and> pl_active p < gc_pool_threads cfg \<and> m_calls p \<noteq> []
          \<and> pl_completed p = card (counted p))
     \<and> (\<not> m_open (m_pc p) \<and> \<not> pl_shutdown p \<longrightarrow> (\<forall>i. is_worker cfg i \<and> i \<le> pl_active p \<longrightarrow> w_last p i = pl_gen p))
     \<and> (m_pc p = M_Asleep \<longrightarrow> pl_completed p < pl_active p)
     \<and> (m_pc p = M_Finish \<longrightarrow> length (pl_segs p) = pl_active p + 1 \<and> m_calls p \<noteq> [])"

definition exit_inv :: "gather_cfg \<Rightarrow> pool \<Rightarrow> bool" where
  "exit_inv cfg p \<longleftrightarrow> (\<forall>i. is_worker cfg i \<and> (m_pc p = M_End \<or> (\<exists>k. m_pc p = M_Reap k \<and> i < k)) \<longrightarrow> w_pc p i = W_Exit)
     \<and> (\<forall>k. m_pc p = M_Reap k \<longrightarrow> 1 \<le> k)"

lemma seg_begin_data:
  "seg_begin p k = (th, p') \<Longrightarrow> p' = p\<lparr> pl_oks := (pl_oks p)[k := True] \<rparr>"
  by (auto simp: seg_begin_def Let_def)

lemma seg_pass_data:
  assumes "seg_pass cfg p k t h = (r, p')"
  obtains g oks where "p' = p\<lparr> pl_session := g, pl_oks := oks \<rparr>"
proof -
  have "p' = p\<lparr> pl_session := pl_session p', pl_oks := pl_oks p' \<rparr>"
    using assms by (auto simp: seg_pass_def split: if_splits prod.splits)
  then show thesis by (rule that)
qed

lemma lock_step:
  assumes "lock_inv cfg p"
  shows "lock_inv cfg (pool_step cfg p e)"
proof (cases e)
  case Main
  have w: "w_locked (wake_workers pcs i) = w_locked (pcs i)" for pcs i by (simp add: w_locked_def wake_workers_def)
  have z: "\<not> is_worker cfg 0" by (simp add: is_worker_def)
  show ?thesis
  proof (cases "m_pc p")
    case (M_Work t h)
    obtain r p' where s: "seg_pass cfg p 0 t h = (r, p')" by fastforce
    then obtain g oks where p': "p' = p\<lparr> pl_session := g, pl_oks := oks \<rparr>" by (rule seg_pass_data)
    show ?thesis using assms M_Work Main
      by (cases r) (auto simp: pool_step_def main_step_def s p' lock_inv_def m_locked_def)
  next
    case M_Warm
    obtain th p' where s: "seg_begin p 0 = (th, p')" by fastforce
    note p' = seg_begin_data [OF s]
    show ?thesis using assms M_Warm Main
      by (cases th) (auto simp: pool_step_def main_step_def s p' lock_inv_def m_locked_def)
  qed (use assms Main z in \<open>auto simp: pool_step_def main_step_def lock_inv_def m_locked_def main_return_def Let_def
      w split: list.splits\<close>)
next
  case (Worker i)
  show ?thesis
  proof (cases "is_worker cfg i")
    case True
    then have i: "0 < i" by (simp add: is_worker_def)
    have own: "pl_mutex p = Some i" if "w_pc p i \<in> {W_Look, W_Count}"
      using assms True that by (simp add: lock_inv_def w_locked_def)
    show ?thesis
    proof (cases "w_pc p i")
      case (W_Work t h)
      obtain r p' where s: "seg_pass cfg p i t h = (r, p')" by fastforce
      then obtain g oks where p': "p' = p\<lparr> pl_session := g, pl_oks := oks \<rparr>" by (rule seg_pass_data)
      show ?thesis using assms W_Work Worker True
        by (cases r) (auto simp: pool_step_def worker_step_def s p' worker_set_def lock_inv_def w_locked_def split: if_splits)
    next
      case W_Warm
      obtain th p' where s: "seg_begin p i = (th, p')" by fastforce
      note p' = seg_begin_data [OF s]
      show ?thesis using assms W_Warm Worker True
        by (cases th) (auto simp: pool_step_def worker_step_def s p' worker_set_def lock_inv_def w_locked_def split: if_splits)
    qed (use assms Worker True i own in \<open>auto simp: pool_step_def worker_step_def lock_inv_def w_locked_def worker_set_def
        Let_def signal_main_def m_locked_def\<close>)
  qed (use assms Worker in \<open>simp add: pool_step_def\<close>)
qed (use assms in \<open>auto simp: pool_step_def lock_inv_def signal_main_def m_locked_def worker_set_def w_locked_def\<close>)

text \<open>Counting.\<close>

lemma counted_subset: "counted p \<subseteq> {1..pl_active p}"
  by (auto simp: counted_def)

lemma counted_finite [simp]: "finite (counted p)"
  by (rule finite_subset [OF counted_subset]) simp

lemma counted_full:
  assumes "\<not> card (counted p) < pl_active p"
  shows "counted p = {1..pl_active p}"
  using assms counted_subset [of p] card_mono [OF finite_atLeastAtMost counted_subset [of p]]
  by (intro card_subset_eq) auto

lemma round_invD:
  assumes "round_inv cfg p"
  shows "pl_gen p + pending p < 2 ^ 32" "pl_shutdown p \<longleftrightarrow> m_over (m_pc p)"
    "is_worker cfg i \<Longrightarrow> w_last p i \<le> pl_gen p"
    "is_worker cfg i \<Longrightarrow> w_busy (w_pc p i) \<Longrightarrow> m_open (m_pc p) \<and> w_last p i = pl_gen p \<and> i \<le> pl_active p"
    "is_worker cfg i \<Longrightarrow> w_pc p i = W_Asleep \<Longrightarrow> w_last p i = pl_gen p \<and> \<not> pl_shutdown p"
    "is_worker cfg i \<Longrightarrow> w_pc p i = W_Exit \<Longrightarrow> pl_shutdown p"
    "m_pc p = M_Start \<or> m_pc p = M_Publish \<Longrightarrow> 0 < length (pl_segs p) \<and> length (pl_segs p) \<le> gc_pool_threads cfg \<and> m_calls p \<noteq> []"
    "m_open (m_pc p) \<Longrightarrow> length (pl_segs p) = pl_active p + 1 \<and> pl_active p < gc_pool_threads cfg \<and> m_calls p \<noteq> []
        \<and> pl_completed p = card (counted p)"
    "\<not> m_open (m_pc p) \<Longrightarrow> \<not> pl_shutdown p \<Longrightarrow> is_worker cfg i \<Longrightarrow> i \<le> pl_active p \<Longrightarrow> w_last p i = pl_gen p"
    "m_pc p = M_Asleep \<Longrightarrow> pl_completed p < pl_active p"
    "m_pc p = M_Finish \<Longrightarrow> length (pl_segs p) = pl_active p + 1 \<and> m_calls p \<noteq> []"
  using assms unfolding round_inv_def by blast+

lemma worker_active: "pl_active p < gc_pool_threads cfg \<Longrightarrow> 1 \<le> i \<Longrightarrow> i \<le> pl_active p \<Longrightarrow> is_worker cfg i"
  by (simp add: is_worker_def)

lemma m_open_not:
  assumes "m_open pc"
  shows "\<not> m_over pc" "pc \<noteq> M_Start" "pc \<noteq> M_Publish" "pc \<noteq> M_Finish"
  using assms by (auto elim: m_open.elims)

text \<open>Steps that change neither the round nor who is in it.\<close>

lemma round_keep:
  assumes inv: "round_inv cfg p"
    and f: "pl_gen q = pl_gen p" "pl_shutdown q = pl_shutdown p" "w_last q = w_last p" "pl_active q = pl_active p"
      "pl_segs q = pl_segs p" "m_calls q = m_calls p" "pl_completed q = pl_completed p"
    and w: "\<And>i. is_worker cfg i \<Longrightarrow> w_busy (w_pc q i) = w_busy (w_pc p i)
        \<and> (w_pc q i = W_Asleep \<longrightarrow> w_pc p i = W_Asleep) \<and> (w_pc q i = W_Exit \<longrightarrow> w_pc p i = W_Exit)"
    and m: "m_pc q = m_pc p \<or> m_open (m_pc p) \<and> m_open (m_pc q) \<and> m_pc q \<noteq> M_Asleep"
  shows "round_inv cfg q"
proof -
  note i = round_invD [OF inv]
  have o: "m_open (m_pc q) = m_open (m_pc p)" "m_over (m_pc q) = m_over (m_pc p)"
    "m_pc q = M_Start \<or> m_pc q = M_Publish \<longleftrightarrow> m_pc p = M_Start \<or> m_pc p = M_Publish"
    "m_pc q = M_Finish \<longleftrightarrow> m_pc p = M_Finish" "m_pc q = M_Asleep \<Longrightarrow> m_pc p = M_Asleep"
    using m m_open_not [of "m_pc p"] m_open_not [of "m_pc q"] by auto
  have c: "counted q = counted p" if "m_open (m_pc p)"
  proof -
    have "w_busy (w_pc q j) = w_busy (w_pc p j)" if "1 \<le> j" "j \<le> pl_active p" for j
      using w worker_active [of p cfg j] i(8) that \<open>m_open (m_pc p)\<close> by simp
    then show ?thesis unfolding counted_def f by blast
  qed
  have pe: "pending q = pending p" by (simp add: pending_def o f)
  show ?thesis unfolding round_inv_def pe o f
  proof (intro conjI allI impI)
    fix j assume "is_worker cfg j \<and> w_busy (w_pc q j)"
    then show "m_open (m_pc p)" "w_last p j = pl_gen p" "j \<le> pl_active p" using i(4) w by blast+
  next
    fix j assume "is_worker cfg j \<and> w_pc q j = W_Asleep"
    then show "w_last p j = pl_gen p" "\<not> pl_shutdown p" using i(5) w by blast+
  next
    fix j assume "is_worker cfg j \<and> w_pc q j = W_Exit"
    then show "pl_shutdown p" using i(6) w by blast
  qed (use i c o(5) in \<open>simp_all\<close>)
qed

lemma round_step_wake:
  assumes "round_inv cfg p"
  shows "round_inv cfg (signal_main p)" "w_pc p i = W_Asleep \<Longrightarrow> round_inv cfg (worker_set p i W_Enter)"
  by (rule round_keep [OF assms]; simp add: signal_main_def worker_set_def)+

lemma round_step_data:
  assumes "round_inv cfg p"
  shows "round_inv cfg (p\<lparr> pl_session := g, pl_oks := oks \<rparr>)" "round_inv cfg (p\<lparr> pl_oks := oks \<rparr>)"
  by (rule round_keep [OF assms]; simp)+

lemma round_step_main_open:
  assumes "round_inv cfg p" "m_open (m_pc p)" "m_open pc" "pc \<noteq> M_Asleep"
  shows "round_inv cfg (p\<lparr> m_pc := pc \<rparr>)" "round_inv cfg (p\<lparr> pl_mutex := m, m_pc := pc \<rparr>)"
  by (rule round_keep [OF assms(1)]; use assms in simp)+

lemma round_step_main:
  assumes inv: "round_inv cfg p" and cfg: "0 < gc_pool_threads cfg"
  shows "round_inv cfg (main_step cfg p)"
proof (cases "m_pc p")
  case M_Warm
  obtain t h p' where s: "seg_begin p 0 = ((t, h), p')" by (metis surj_pair)
  note p' = seg_begin_data [OF s]
  have "round_inv cfg (p'\<lparr> m_pc := M_Work t h \<rparr>)"
    unfolding p' by (rule round_step_main_open(1)) (use M_Warm round_step_data [OF inv] in auto)
  then show ?thesis by (simp add: main_step_def M_Warm s)
next
  case (M_Work t h)
  obtain r p' where s: "seg_pass cfg p 0 t h = (r, p')" by fastforce
  obtain g oks where p': "p' = p\<lparr> pl_session := g, pl_oks := oks \<rparr>" by (rule seg_pass_data [OF s])
  have "round_inv cfg (p'\<lparr> m_pc := pc \<rparr>)" if "m_open pc" "pc \<noteq> M_Asleep" for pc
    unfolding p' by (rule round_step_main_open(1)) (use M_Work round_step_data [OF inv] that in auto)
  then show ?thesis by (auto simp: main_step_def M_Work s split: option.splits)
next
  case M_Join
  then show ?thesis using round_step_main_open(2) [OF inv] inv by (simp add: main_step_def)
next
  case M_Publish
  let ?q = "main_step cfg p"
  have gen: "Suc (pl_gen p) < 2 ^ 32" using inv M_Publish by (auto simp: round_inv_def pending_def neq_Nil_conv)
  have q: "m_pc ?q = M_Warm" "pl_gen ?q = Suc (pl_gen p)" "pl_active ?q = length (pl_segs p) - 1" "pl_completed ?q = 0"
    "w_last ?q = w_last p" "w_pc ?q = wake_workers (w_pc p)"
    "pl_shutdown ?q = pl_shutdown p" "pl_segs ?q = pl_segs p" "m_calls ?q = m_calls p"
    using gen by (simp_all add: main_step_def M_Publish next_gen_def)
  have n: "0 < length (pl_segs p)" "length (pl_segs p) \<le> gc_pool_threads cfg" "m_calls p \<noteq> []"
    "pl_gen p + length (m_calls p) + 1 < 2 ^ 32" "\<not> pl_shutdown p"
    "\<And>i. is_worker cfg i \<Longrightarrow> w_last p i \<le> pl_gen p \<and> \<not> w_busy (w_pc p i) \<and> w_pc p i \<noteq> W_Exit"
    using inv M_Publish by (auto simp: round_inv_def pending_def)
  have "w_last p i \<noteq> Suc (pl_gen p)" if "1 \<le> i" "i \<le> length (pl_segs p) - 1" for i
    using n(6) [of i] that n(1,2) by (force simp: is_worker_def)
  then have c: "counted ?q = {}" by (auto simp: counted_def q)
  have wk: "w_busy (wake_workers pcs i) = w_busy (pcs i)" "wake_workers pcs i \<noteq> W_Asleep"
    "wake_workers pcs i = W_Exit \<longleftrightarrow> pcs i = W_Exit" for pcs i by (simp_all add: wake_workers_def)
  have pe: "pending ?q = length (m_calls p)" using n(3,5) by (simp add: pending_def q Suc_diff_le Suc_le_eq)
  have "length (pl_segs p) - 1 < gc_pool_threads cfg" using n(1,2) by linarith
  then show ?thesis unfolding round_inv_def c pe using n by (auto simp: q wk dest: le_SucI)
next
  case M_Check
  show ?thesis
  proof (cases "pl_completed p < pl_active p")
    case True
    have "counted (main_step cfg p) = counted p" "pending (main_step cfg p) = pending p"
      using True M_Check by (auto simp: main_step_def counted_def pending_def)
    then show ?thesis using inv True M_Check by (auto simp: main_step_def round_inv_def)
  next
    case False
    have f: "counted p = {1..pl_active p}" using inv False M_Check by (intro counted_full) (simp add: round_inv_def)
    have idle: "\<not> w_busy (w_pc p i)" if "is_worker cfg i" for i
    proof
      assume b: "w_busy (w_pc p i)"
      then have "i \<le> pl_active p" using inv that by (simp add: round_inv_def)
      then have "i \<in> counted p" using that by (simp add: f is_worker_def)
      then show False using b by (simp add: counted_def)
    qed
    have "w_last p i = pl_gen p" if "is_worker cfg i" "i \<le> pl_active p" for i
    proof -
      have "i \<in> counted p" using that by (simp add: f is_worker_def)
      then show ?thesis by (simp add: counted_def)
    qed
    then show ?thesis using inv idle False M_Check by (auto simp: main_step_def round_inv_def pending_def)
  qed
next
  case M_Shut
  have gen: "Suc (pl_gen p) < 2 ^ 32" "\<not> pl_shutdown p" using inv M_Shut by (auto simp: round_inv_def pending_def)
  have wk: "w_busy (wake_workers pcs i) = w_busy (pcs i)" "wake_workers pcs i \<noteq> W_Asleep"
    "wake_workers pcs i = W_Exit \<longleftrightarrow> pcs i = W_Exit" for pcs i by (simp_all add: wake_workers_def)
  have "next_gen p = Suc (pl_gen p)" using gen by (simp add: next_gen_def)
  then show ?thesis using inv M_Shut gen
    by (auto simp: main_step_def wk round_inv_def pending_def dest: le_SucI)
next
  case M_Call
  show ?thesis
  proof (cases "m_calls p")
    case Nil
    then show ?thesis using inv M_Call by (auto simp: main_step_def round_inv_def pending_def)
  next
    case (Cons tokens calls)
    show ?thesis
    proof (cases "uses_pool cfg tokens (pl_session p)")
      case True
      then have "gather_nthreads cfg (length tokens) \<noteq> 1" by (simp add: uses_pool_def)
      note s = gather_segments_cover [OF this cfg]
      then show ?thesis using inv M_Call Cons True by (auto simp: main_step_def round_inv_def pending_def Let_def)
    next
      case False
      then show ?thesis using inv M_Call Cons
        by (auto simp: main_step_def round_inv_def pending_def Let_def main_return_def)
    qed
  qed
next
  case M_Finish
  then show ?thesis using inv by (cases "m_calls p") (auto simp: main_step_def main_return_def round_inv_def pending_def)
qed (use inv in \<open>auto simp: main_step_def round_inv_def pending_def\<close>)

lemma round_step_worker:
  assumes inv: "round_inv cfg p" and i: "is_worker cfg i"
  shows "round_inv cfg (worker_step cfg i p)"
proof (cases "w_pc p i")
  case W_Look
  show ?thesis
  proof (cases "pl_shutdown p")
    case True
    then have "\<not> m_open (m_pc p)" using round_invD(2) [OF inv] m_open_not by blast
    then show ?thesis using inv True W_Look round_invD(4) [OF inv]
      by (auto simp: worker_step_def worker_set_def round_inv_def pending_def)
  next
    case False
    show ?thesis
    proof (cases "pl_gen p = w_last p i")
      case same: True
      let ?q = "worker_set (p\<lparr> pl_mutex := None \<rparr>) i W_Asleep"
      have c: "counted ?q = counted p" by (auto simp: counted_def worker_set_def W_Look)
      have pe: "pending ?q = pending p" by (simp add: pending_def worker_set_def)
      have "round_inv cfg ?q" using round_invD [OF inv] same False
        unfolding round_inv_def c pe by (auto simp: worker_set_def)
      then show ?thesis by (simp add: worker_step_def W_Look same False)
    next
      case new: False
      let ?q = "worker_set (p\<lparr> pl_mutex := None, w_last := (w_last p)(i := pl_gen p) \<rparr>) i (if i \<le> pl_active p then W_Warm else W_Enter)"
      have open_if: "m_open (m_pc p)" if "i \<le> pl_active p" using round_invD(9) [OF inv _ False i that] new by auto
      have c: "counted ?q = counted p" using new by (auto simp: counted_def worker_set_def W_Look split: if_splits)
      have pe: "pending ?q = pending p" by (simp add: pending_def worker_set_def)
      have "round_inv cfg ?q" using round_invD [OF inv] open_if False
        unfolding round_inv_def c pe by (auto simp: worker_set_def)
      then show ?thesis using new False by (simp add: worker_step_def W_Look)
    qed
  qed
next
  case W_Warm
  obtain t h p' where s: "seg_begin p i = ((t, h), p')" by (metis surj_pair)
  show ?thesis unfolding worker_step_def W_Warm s seg_begin_data [OF s]
    by (rule round_keep [OF inv]) (simp_all add: worker_set_def W_Warm)
next
  case (W_Work t h)
  obtain r p' where s: "seg_pass cfg p i t h = (r, p')" by fastforce
  obtain g oks where p': "p' = p\<lparr> pl_session := g, pl_oks := oks \<rparr>" by (rule seg_pass_data [OF s])
  have "round_inv cfg (worker_set p' i pc)" if "w_busy pc" for pc
    by (rule round_keep [OF inv]) (use that W_Work in \<open>auto simp: worker_set_def p'\<close>)
  then show ?thesis by (auto simp: worker_step_def W_Work s split: option.splits)
next
  case W_Count
  have b: "m_open (m_pc p)" "w_last p i = pl_gen p" "i \<le> pl_active p" using round_invD(4) [OF inv i] W_Count by auto
  let ?p1 = "p\<lparr> pl_completed := pl_completed p + 1 \<rparr>"
  let ?p2 = "if pl_completed ?p1 = pl_active ?p1 then signal_main ?p1 else ?p1"
  define q where "q = worker_set (?p2\<lparr> pl_mutex := None \<rparr>) i W_Enter"
  have qs: "pl_gen q = pl_gen p" "pl_shutdown q = pl_shutdown p" "w_last q = w_last p" "pl_active q = pl_active p"
    "pl_segs q = pl_segs p" "m_calls q = m_calls p" "pl_completed q = pl_completed p + 1" "w_pc q = (w_pc p)(i := W_Enter)"
    "m_pc q = (if pl_completed p + 1 = pl_active p \<and> m_pc p = M_Asleep then M_Join else m_pc p)"
    by (simp_all add: q_def worker_set_def signal_main_def)
  have o: "m_open (m_pc q)" using b(1) by (simp add: qs)
  have c: "counted q = insert i (counted p)" "i \<notin> counted p"
    using b i W_Count by (auto simp: counted_def qs is_worker_def)
  have card: "card (counted q) = pl_completed p + 1" using round_invD(8) [OF inv b(1)] c by simp
  have "card (counted q) \<le> pl_active p"
    using card_mono [OF finite_atLeastAtMost counted_subset [of q]] by (simp add: qs)
  then have "pl_completed p + 1 \<le> pl_active p" using card by simp
  then have sl: "m_pc q = M_Asleep \<Longrightarrow> pl_completed p + 1 < pl_active p" by (auto simp: qs split: if_splits)
  have pe: "pending q = pending p" using o b(1) by (simp add: pending_def qs)
  have "round_inv cfg q" unfolding round_inv_def pe
    using round_invD [OF inv] b o m_open_not [OF o] m_open_not [OF b(1)] sl card by (auto simp: qs)
  moreover have "worker_step cfg i p = q" by (simp only: worker_step_def W_Count worker_pc.case Let_def q_def)
  ultimately show ?thesis by simp
qed (use inv in \<open>simp_all add: worker_step_def round_keep [OF inv] worker_set_def\<close>)

lemma round_step:
  assumes "round_inv cfg p" "0 < gc_pool_threads cfg"
  shows "round_inv cfg (pool_step cfg p e)"
  using assms round_step_main round_step_worker round_step_wake by (cases e) (simp_all add: pool_step_def)

lemma exit_step:
  assumes e: "exit_inv cfg p" and r: "round_inv cfg p"
  shows "exit_inv cfg (pool_step cfg p ev)"
proof -
  have k: "exit_inv cfg q" if "\<And>i. is_worker cfg i \<Longrightarrow> w_pc p i = W_Exit \<Longrightarrow> w_pc q i = W_Exit"
    "m_pc q = m_pc p \<or> \<not> m_over (m_pc q)" for q
    using e that by (auto simp: exit_inv_def)
  show ?thesis
  proof (cases ev)
    case (Worker i)
    have m: "m_pc (worker_step cfg i p) = m_pc p \<or> \<not> m_over (m_pc (worker_step cfg i p))"
      by (auto simp: worker_step_def worker_set_def signal_main_def seg_begin_def seg_pass_def Let_def
          split: worker_pc.splits prod.splits option.splits if_splits)
    have "w_pc (worker_step cfg i p) j = w_pc p j" if "j \<noteq> i" for j
      using that by (auto simp: worker_step_def worker_set_def signal_main_def seg_begin_def seg_pass_def Let_def
          split: worker_pc.splits prod.splits option.splits if_splits)
    moreover have "worker_step cfg i p = p" if "w_pc p i = W_Exit" using that by (simp add: worker_step_def)
    ultimately have "w_pc p j = W_Exit \<Longrightarrow> w_pc (worker_step cfg i p) j = W_Exit" for j by metis
    then show ?thesis using m by (simp add: pool_step_def Worker e k)
  next
    case Main
    have wk: "wake_workers pcs i = W_Exit \<longleftrightarrow> pcs i = W_Exit" for pcs i by (simp add: wake_workers_def)
    show ?thesis
    proof (cases "m_pc p")
      case (M_Reap j)
      then show ?thesis using e by (auto simp: pool_step_def Main main_step_def exit_inv_def is_worker_def less_Suc_eq)
    next
      case M_Shut
      then show ?thesis by (auto simp: pool_step_def Main main_step_def exit_inv_def is_worker_def)
    qed (use e in \<open>auto simp: pool_step_def Main main_step_def main_return_def seg_begin_def seg_pass_def Let_def exit_inv_def
         split: list.splits prod.splits option.splits if_splits\<close>)
  qed (use e in \<open>auto simp: pool_step_def signal_main_def worker_set_def exit_inv_def\<close>)
qed

subsection \<open>The work of a round\<close>

datatype seg_state = Waiting | Running nat ple_history | Finished

fun main_seg :: "main_pc \<Rightarrow> seg_state" where
  "main_seg (M_Work t h) = Running t h" | "main_seg M_Join = Finished" | "main_seg M_Check = Finished"
| "main_seg M_Asleep = Finished" | "main_seg M_Finish = Finished" | "main_seg _ = Waiting"

definition worker_seg :: "pool \<Rightarrow> nat \<Rightarrow> seg_state" where
  "worker_seg p i =
     (case w_pc p i of
        W_Warm \<Rightarrow> Waiting
      | W_Work t h \<Rightarrow> Running t h
      | _ \<Rightarrow> if w_last p i = pl_gen p then Finished else Waiting)"

definition seg_state :: "pool \<Rightarrow> nat \<Rightarrow> seg_state" where
  "seg_state p k = (if k = 0 then main_seg (m_pc p) else worker_seg p k)"

definition seg_ok :: "ple_weights \<Rightarrow> gather_session \<Rightarrow> int list \<Rightarrow> pool \<Rightarrow> nat \<Rightarrow> bool" where
  "seg_ok w g0 tokens p k \<longleftrightarrow>
     (let seg = pl_segs p ! k in
      case seg_state p k of
        Waiting \<Rightarrow> True
      | Running t h \<Rightarrow> fst seg \<le> t \<and> t \<le> snd seg \<and> h = hist_at g0 tokens t \<and> pl_oks p ! k
          \<and> (\<forall>u. fst seg \<le> u \<and> u < t \<longrightarrow> tok_done w g0 tokens (pl_session p) u)
      | Finished \<Rightarrow> seg_report w g0 tokens (pl_session p) seg (pl_oks p ! k))"

definition calls_fit :: "gather_session \<Rightarrow> int list list \<Rightarrow> bool" where
  "calls_fit g calls \<longleftrightarrow> (\<forall>tokens \<in> set calls. length tokens \<le> length (gs_ids g))"

definition round_of :: "gather_cfg \<Rightarrow> gather_session \<Rightarrow> int list \<Rightarrow> pool \<Rightarrow> bool" where
  "round_of cfg g0 tokens p \<longleftrightarrow> gather_wf g0 \<and> uses_pool cfg tokens g0 \<and> length tokens \<le> length (gs_ids g0)
     \<and> framed g0 (length tokens) (pl_session p) \<and> pl_segs p = gather_segments cfg (length tokens)
     \<and> length (pl_oks p) = length (pl_segs p)
     \<and> (\<forall>k < length (pl_segs p). seg_ok (gc_weights cfg) g0 tokens p k)"

definition data_inv :: "gather_cfg \<Rightarrow> gather_session option list \<Rightarrow> pool \<Rightarrow> bool" where
  "data_inv cfg spec p \<longleftrightarrow>
     (if m_open (m_pc p) \<or> m_pc p = M_Finish then
        \<exists>g0. round_of cfg g0 (hd (m_calls p)) p \<and> calls_fit g0 (m_calls p) \<and> m_calls p \<noteq> []
          \<and> m_results p @ serial_calls cfg g0 (m_calls p) = spec
      else
        (m_calls p \<noteq> [] \<longrightarrow> gather_wf (pl_session p)) \<and> calls_fit (pl_session p) (m_calls p)
        \<and> m_results p @ serial_calls cfg (pl_session p) (m_calls p) = spec
        \<and> (m_pc p = M_Start \<or> m_pc p = M_Publish \<longrightarrow> m_calls p \<noteq> [] \<and> uses_pool cfg (hd (m_calls p)) (pl_session p)
             \<and> pl_segs p = gather_segments cfg (length (hd (m_calls p))) \<and> length (pl_oks p) = length (pl_segs p))
        \<and> (m_pc p = M_Stop \<or> m_pc p = M_Shut \<or> m_over (m_pc p) \<longrightarrow> m_calls p = []))"

lemma seg_ok_keep:
  assumes "seg_ok w g0 tokens p k" "seg_state q k = seg_state p k \<or> seg_state q k = Waiting" "pl_segs q = pl_segs p"
    "pl_oks q ! k = pl_oks p ! k" "\<And>u. tok_done w g0 tokens (pl_session p) u \<Longrightarrow> tok_done w g0 tokens (pl_session q) u"
  shows "seg_ok w g0 tokens q k"
  using assms by (auto simp: seg_ok_def seg_report_def Let_def split: seg_state.splits if_splits)

text \<open>The first step on a segment and a pass of its loop.\<close>

lemma seg_begin_ok:
  assumes r: "round_of cfg g0 (hd (m_calls p)) p" and p: "0 < gc_pool_threads cfg" and k: "k < length (pl_segs p)"
    and s: "seg_begin p k = ((t, h), p')"
  shows "p' = p\<lparr> pl_oks := (pl_oks p)[k := True] \<rparr>" "t = fst (pl_segs p ! k)" "h = hist_at g0 (hd (m_calls p)) t"
    "t \<le> snd (pl_segs p ! k)"
proof -
  let ?tokens = "hd (m_calls p)"
  have r': "gather_wf g0" "gather_nthreads cfg (length ?tokens) \<noteq> 1" "framed g0 (length ?tokens) (pl_session p)"
    "pl_segs p = gather_segments cfg (length ?tokens)"
    using r by (auto simp: round_of_def uses_pool_def)
  note sg = gather_segments_cover [OF r'(2) p, folded r'(4)]
  have b: "fst (pl_segs p ! k) \<le> snd (pl_segs p ! k)" "snd (pl_segs p ! k) \<le> length ?tokens"
    "fst (pl_segs p ! k) = 0 \<or> 2 \<le> fst (pl_segs p ! k)" using sg(5) [OF k] by blast+
  have c: "gather_constants (gs_constants g0)" using r'(1) by (simp add: gather_wf_def)
  obtain pre where pre: "history_full (gs_constants g0) pre (gs_history g0)" using r'(1) by (auto simp: gather_wf_def)
  show "p' = p\<lparr> pl_oks := (pl_oks p)[k := True] \<rparr>" by (rule seg_begin_data [OF s])
  show t: "t = fst (pl_segs p ! k)" using s by (simp add: seg_begin_def Let_def)
  show "t \<le> snd (pl_segs p ! k)" using b t by simp
  have "h = seg_entry (gs_constants g0) ?tokens (gs_history g0) t"
    using s framed_fields [OF r'(3)] t by (simp add: seg_begin_def Let_def)
  then show "h = hist_at g0 ?tokens t"
    using seg_entry_exact [OF c pre b(3)] b t by (simp add: hist_at_def)
qed

lemma seg_pass_ok:
  assumes r: "round_of cfg g0 (hd (m_calls p)) p" and w: "table_ok (gc_weights cfg)" and p: "0 < gc_pool_threads cfg"
    and k: "k < length (pl_segs p)"
    and st: "seg_state p k = Running t h" and s: "seg_pass cfg p k t h = (x, p')"
  defines "seg \<equiv> pl_segs p ! k" and "tokens \<equiv> hd (m_calls p)" and "g' \<equiv> pl_session p'"
  obtains oks where "p' = p\<lparr> pl_session := g', pl_oks := oks \<rparr>" "length oks = length (pl_oks p)"
    "\<And>j. j \<noteq> k \<Longrightarrow> oks ! j = pl_oks p ! j"
    "framed g0 (length tokens) g'"
    "\<And>u. tok_done (gc_weights cfg) g0 tokens (pl_session p) u \<Longrightarrow> tok_done (gc_weights cfg) g0 tokens g' u"
    "\<And>t' h'. x = Some (t', h') \<Longrightarrow> fst seg \<le> t' \<and> t' \<le> snd seg \<and> h' = hist_at g0 tokens t' \<and> oks ! k
        \<and> (\<forall>u. fst seg \<le> u \<and> u < t' \<longrightarrow> tok_done (gc_weights cfg) g0 tokens g' u)"
    "x = None \<Longrightarrow> seg_report (gc_weights cfg) g0 tokens g' seg (oks ! k)"
proof -
  have r': "gather_wf g0" "gather_nthreads cfg (length tokens) \<noteq> 1" "framed g0 (length tokens) (pl_session p)"
    "length tokens \<le> length (gs_ids g0)" "pl_segs p = gather_segments cfg (length tokens)" "length (pl_oks p) = length (pl_segs p)"
    "seg_ok (gc_weights cfg) g0 tokens p k"
    using r k by (auto simp: round_of_def uses_pool_def tokens_def)
  have b: "snd seg \<le> length tokens" using gather_segments_cover(5) [OF r'(2) p, folded r'(5), OF k] by (simp add: seg_def)
  have o: "fst seg \<le> t" "t \<le> snd seg" "h = hist_at g0 tokens t" "pl_oks p ! k"
    "\<And>u. fst seg \<le> u \<Longrightarrow> u < t \<Longrightarrow> tok_done (gc_weights cfg) g0 tokens (pl_session p) u"
    using r'(7) st by (simp_all add: seg_ok_def Let_def seg_def)
  show thesis
  proof (cases "t < snd seg")
    case False
    then have "x = None" "p' = p" using s by (simp_all add: seg_pass_def seg_def)
    then show thesis using that [of "pl_oks p"] o False r'(3) by (simp add: g'_def seg_report_def)
  next
    case True
    obtain h1 g1 ok where tk: "gather_token (gc_weights cfg) tokens t (hist_at g0 tokens t) (pl_session p) = (h1, g1, ok)"
      by (rule prod_cases3)
    have tl: "t < length tokens" using True b by simp
    note st = gather_token_step [OF r'(1) w r'(4) r'(3) tl tk]
    show thesis
    proof (cases ok)
      case ok: True
      have x: "x = Some (Suc t, h1)" "p' = p\<lparr> pl_session := g1 \<rparr>"
        using s True ok tk o(3) by (simp_all add: seg_pass_def seg_def tokens_def)
      have d: "tok_done (gc_weights cfg) g0 tokens g1 u" if "fst seg \<le> u" "u < Suc t" for u
        using that st(4,5) ok o(5) by (cases "u = t") auto
      have g': "g' = g1" by (simp add: g'_def x(2))
      show thesis
      proof (rule that [of "pl_oks p", unfolded g'])
        show "p' = p\<lparr> pl_session := g1, pl_oks := pl_oks p \<rparr>" by (simp add: x(2))
        show "framed g0 (length tokens) g1" by (rule st(2))
        show "tok_done (gc_weights cfg) g0 tokens g1 u" if "tok_done (gc_weights cfg) g0 tokens (pl_session p) u" for u
          by (rule st(5) [OF that])
        show "fst seg \<le> t' \<and> t' \<le> snd seg \<and> h' = hist_at g0 tokens t' \<and> pl_oks p ! k
            \<and> (\<forall>u. fst seg \<le> u \<and> u < t' \<longrightarrow> tok_done (gc_weights cfg) g0 tokens g1 u)" if "x = Some (t', h')" for t' h'
          using that x(1) o(1,4) True d st(1) by auto
      qed (simp_all add: x(1))
    next
      case False
      have x: "x = None" "p' = p\<lparr> pl_session := g1, pl_oks := (pl_oks p)[k := False] \<rparr>"
        using s True False tk o(3) by (simp_all add: seg_pass_def seg_def tokens_def)
      then show thesis using that [of "(pl_oks p)[k := False]"] st False tl k r'(6) by (auto simp: g'_def seg_report_def)
    qed
  qed
qed

lemma round_of_keep:
  assumes "round_of cfg g0 tokens p" "pl_session q = pl_session p" "pl_segs q = pl_segs p" "pl_oks q = pl_oks p"
    and "\<And>k. k < length (pl_segs p) \<Longrightarrow> seg_state q k = seg_state p k \<or> seg_state q k = Waiting"
  shows "round_of cfg g0 tokens q"
  using assms unfolding round_of_def by (metis seg_ok_keep)

lemma round_of_begin:
  assumes r: "round_of cfg g0 (hd (m_calls p)) p" and p: "0 < gc_pool_threads cfg" and k: "k < length (pl_segs p)"
    and s: "seg_begin p k = ((t, h), p')"
    and q: "pl_session q = pl_session p'" "pl_segs q = pl_segs p'" "pl_oks q = pl_oks p'" "seg_state q k = Running t h"
      "\<And>j. j \<noteq> k \<Longrightarrow> seg_state q j = seg_state p j"
  shows "round_of cfg g0 (hd (m_calls p)) q"
proof -
  note b = seg_begin_ok [OF r p k s]
  have f: "pl_session q = pl_session p" "pl_segs q = pl_segs p" "pl_oks q = (pl_oks p)[k := True]" using q b(1) by simp_all
  have l: "length (pl_oks p) = length (pl_segs p)" using r by (simp add: round_of_def)
  have "seg_ok (gc_weights cfg) g0 (hd (m_calls p)) q j" if "j < length (pl_segs p)" for j
  proof (cases "j = k")
    case True
    then show ?thesis using b(2,3,4) k l by (auto simp: seg_ok_def q(4) f Let_def dest: leD)
  next
    case False
    show ?thesis
    proof (rule seg_ok_keep)
      show "seg_ok (gc_weights cfg) g0 (hd (m_calls p)) p j" using r that by (simp add: round_of_def)
      show "seg_state q j = seg_state p j \<or> seg_state q j = Waiting" using q(5) [OF False] by simp
    qed (use False in \<open>simp_all add: f\<close>)
  qed
  then show ?thesis using r by (simp add: round_of_def f)
qed

lemma round_of_pass:
  assumes r: "round_of cfg g0 (hd (m_calls p)) p" and w: "table_ok (gc_weights cfg)" and p: "0 < gc_pool_threads cfg"
    and k: "k < length (pl_segs p)" and st: "seg_state p k = Running t h" and s: "seg_pass cfg p k t h = (x, p')"
    and q: "pl_session q = pl_session p'" "pl_segs q = pl_segs p'" "pl_oks q = pl_oks p'"
      "seg_state q k = (case x of Some (t', h') \<Rightarrow> Running t' h' | None \<Rightarrow> Finished)"
      "\<And>j. j \<noteq> k \<Longrightarrow> seg_state q j = seg_state p j"
  shows "round_of cfg g0 (hd (m_calls p)) q"
proof -
  obtain oks where b: "p' = p\<lparr> pl_session := pl_session p', pl_oks := oks \<rparr>" "length oks = length (pl_oks p)"
    "\<And>j. j \<noteq> k \<Longrightarrow> oks ! j = pl_oks p ! j"
    "framed g0 (length (hd (m_calls p))) (pl_session p')"
    "\<And>u. tok_done (gc_weights cfg) g0 (hd (m_calls p)) (pl_session p) u \<Longrightarrow> tok_done (gc_weights cfg) g0 (hd (m_calls p)) (pl_session p') u"
    "\<And>t' h'. x = Some (t', h') \<Longrightarrow> fst (pl_segs p ! k) \<le> t' \<and> t' \<le> snd (pl_segs p ! k) \<and> h' = hist_at g0 (hd (m_calls p)) t' \<and> oks ! k
        \<and> (\<forall>u. fst (pl_segs p ! k) \<le> u \<and> u < t' \<longrightarrow> tok_done (gc_weights cfg) g0 (hd (m_calls p)) (pl_session p') u)"
    "x = None \<Longrightarrow> seg_report (gc_weights cfg) g0 (hd (m_calls p)) (pl_session p') (pl_segs p ! k) (oks ! k)"
    by (rule seg_pass_ok [OF r w p k st s], rule that) assumption+
  have f: "pl_segs q = pl_segs p" "pl_oks q = oks" using q b(1) by (metis pool.select_convs(6,7) pool.surjective pool.update_convs(7,8))+
  have "seg_ok (gc_weights cfg) g0 (hd (m_calls p)) q j" if "j < length (pl_segs p)" for j
  proof (cases "j = k")
    case True
    then show ?thesis using b(6,7) by (simp add: seg_ok_def q(1,4) f Let_def split: option.splits)
  next
    case False
    show ?thesis
    proof (rule seg_ok_keep)
      show "seg_ok (gc_weights cfg) g0 (hd (m_calls p)) p j" using r that by (simp add: round_of_def)
      show "seg_state q j = seg_state p j \<or> seg_state q j = Waiting" using q(5) [OF False] by simp
      show "tok_done (gc_weights cfg) g0 (hd (m_calls p)) (pl_session q) u"
        if "tok_done (gc_weights cfg) g0 (hd (m_calls p)) (pl_session p) u" for u using b(5) [OF that] by (simp add: q(1))
    qed (use False b(3) in \<open>simp_all add: f\<close>)
  qed
  then show ?thesis using r b(2,4) by (simp add: round_of_def f q(1))
qed

lemma serial_in_table:
  assumes wf: "gather_wf g" and w: "table_ok (gc_weights cfg)" and n: "length tokens \<le> length (gs_ids g)"
    and s: "ple_gather_serial cfg tokens g = (g', None)"
  shows "\<forall>t < length tokens. in_table (gc_weights cfg) g tokens t"
proof (rule ccontr)
  assume "\<not> ?thesis"
  then have "snd (gather_serial (gc_weights cfg) tokens g) \<noteq> None" "snd (gather_armed (gc_weights cfg) tokens g) \<noteq> None"
    using serial_exact(2) [OF wf w n] armed_exact(2) [OF wf w n] by blast+
  then show False using s unfolding serial_unfold
    by (auto simp: gather_upload_def split: option.splits prod.splits if_splits)
qed

lemma serial_keeps_wf:
  assumes wf: "gather_wf g" and w: "table_ok (gc_weights cfg)" and n: "length tokens \<le> length (gs_ids g)"
    and s: "ple_gather_serial cfg tokens g = (g', None)"
  shows "gather_wf g' \<and> length (gs_ids g') = length (gs_ids g)"
proof -
  note ok = serial_in_table [OF assms]
  note k = gathered_wf [OF wf n w ok]
  have l: "length (gs_ids (gathered (gc_weights cfg) tokens g)) = length (gs_ids g)" by (simp add: gathered_def)
  have e: "gather_wf (h\<lparr> gs_history_rows := x, gs_uploaded := y \<rparr>) = gather_wf h" "gather_wf (h\<lparr> gs_uploaded := y \<rparr>) = gather_wf h" for h x y
    by (simp_all add: gather_wf_def)
  show ?thesis
  proof (cases "gs_snapshot_rows g > 0")
    case True
    then show ?thesis using s armed_exact(1) [OF wf w n ok] k l e unfolding serial_unfold
      by (auto simp: gather_upload_def split: option.splits if_splits)
  next
    case False
    then show ?thesis using s serial_exact(1) [OF wf w n ok] k l e unfolding serial_unfold
      by (auto simp: gather_upload_def split: option.splits if_splits)
  qed
qed

text \<open>A call that returns as the serial one does.\<close>

lemma data_return:
  assumes wf: "gather_wf g0" and w: "table_ok (gc_weights cfg)" and fit: "calls_fit g0 (m_calls p)" and ne: "m_calls p \<noteq> []"
    and spec: "m_results p @ serial_calls cfg g0 (m_calls p) = spec"
    and r: "agrees r (ple_gather_serial cfg (hd (m_calls p)) g0)"
  shows "data_inv cfg spec (main_return r p)"
proof -
  obtain tokens calls where c: "m_calls p = tokens # calls" using ne by (cases "m_calls p") auto
  obtain g' e where s: "ple_gather_serial cfg tokens g0 = (g', e)" by fastforce
  show ?thesis
  proof (cases e)
    case None
    have "r = (g', None)" using r s None c by (simp add: agrees_def)
    moreover have "gather_wf g' \<and> length (gs_ids g') = length (gs_ids g0)"
      using serial_keeps_wf [OF wf w _ s [unfolded None]] fit c by (simp add: calls_fit_def)
    ultimately show ?thesis using spec fit c s None by (auto simp: data_inv_def main_return_def calls_fit_def)
  next
    case (Some x)
    then have "snd r \<noteq> None" using r s c by (auto simp: agrees_def)
    then show ?thesis using spec c s Some by (auto simp: data_inv_def main_return_def calls_fit_def)
  qed
qed

lemma seg_state_main [simp]: "seg_state p 0 = main_seg (m_pc p)"
  by (simp add: seg_state_def)

lemma seg_state_worker: "is_worker cfg i \<Longrightarrow> seg_state p i = worker_seg p i"
  by (simp add: seg_state_def is_worker_def)

lemma data_open:
  assumes "round_of cfg g0 (hd (m_calls p)) p" "calls_fit g0 (m_calls p)" "m_calls p \<noteq> []"
    "m_results p @ serial_calls cfg g0 (m_calls p) = spec"
    and "m_calls q = m_calls p" "m_results q = m_results p" "m_open (m_pc q) \<or> m_pc q = M_Finish"
    and "round_of cfg g0 (hd (m_calls p)) q"
  shows "data_inv cfg spec q"
  using assms by (auto simp: data_inv_def)

lemma data_step_main:
  assumes d: "data_inv cfg spec p" and r: "round_inv cfg p" and w: "table_ok (gc_weights cfg)" and c: "0 < gc_pool_threads cfg"
  shows "data_inv cfg spec (main_step cfg p)"
proof (cases "m_open (m_pc p) \<or> m_pc p = M_Finish")
  case True
  let ?tokens = "hd (m_calls p)"
  obtain g0 where g: "round_of cfg g0 ?tokens p" "calls_fit g0 (m_calls p)" "m_calls p \<noteq> []"
    "m_results p @ serial_calls cfg g0 (m_calls p) = spec"
    using d True by (auto simp: data_inv_def)
  have g': "gather_wf g0" "uses_pool cfg ?tokens g0" "length ?tokens \<le> length (gs_ids g0)"
    "framed g0 (length ?tokens) (pl_session p)" "pl_segs p = gather_segments cfg (length ?tokens)"
    "length (pl_oks p) = length (pl_segs p)" "\<And>k. k < length (pl_segs p) \<Longrightarrow> seg_ok (gc_weights cfg) g0 ?tokens p k"
    using g(1) by (auto simp: round_of_def)
  have th: "gather_nthreads cfg (length ?tokens) \<noteq> 1" using g'(2) by (simp add: uses_pool_def)
  note sg = gather_segments_cover [OF th c, folded g'(5)]
  note dopen = data_open [OF g]
  show ?thesis
  proof (cases "m_pc p")
    case M_Warm
    obtain t h p' where s: "seg_begin p 0 = ((t, h), p')" by (metis surj_pair)
    have m: "main_step cfg p = p'\<lparr> m_pc := M_Work t h \<rparr>" by (simp add: main_step_def M_Warm s)
    note p' = seg_begin_data [OF s]
    have "round_of cfg g0 ?tokens (p'\<lparr> m_pc := M_Work t h \<rparr>)"
      by (rule round_of_begin [OF g(1) c sg(3) s]) (simp_all add: p' seg_state_def worker_seg_def)
    then show ?thesis unfolding m by (intro dopen) (simp_all add: p')
  next
    case (M_Work t h)
    obtain x p' where s: "seg_pass cfg p 0 t h = (x, p')" by fastforce
    obtain ss oks where p': "p' = p\<lparr> pl_session := ss, pl_oks := oks \<rparr>" by (rule seg_pass_data [OF s])
    define pc where "pc = (case x of Some (t', h') \<Rightarrow> M_Work t' h' | None \<Rightarrow> M_Join)"
    have m: "main_step cfg p = p'\<lparr> m_pc := pc \<rparr>" by (simp add: main_step_def M_Work s pc_def split: option.splits)
    have "round_of cfg g0 ?tokens (p'\<lparr> m_pc := pc \<rparr>)"
      by (rule round_of_pass [OF g(1) w c sg(3) _ s])
        (simp_all add: M_Work p' seg_state_def worker_seg_def pc_def split: option.splits)
    then show ?thesis unfolding m by (intro dopen) (simp_all add: p' pc_def split: option.splits)
  next
    case M_Join
    have "round_of cfg g0 ?tokens (main_step cfg p)"
      by (rule round_of_keep [OF g(1)]) (simp_all add: main_step_def M_Join seg_state_def worker_seg_def)
    then show ?thesis by (intro dopen) (simp_all add: main_step_def M_Join)
  next
    case M_Check
    have "round_of cfg g0 ?tokens (main_step cfg p)"
      by (rule round_of_keep [OF g(1)]) (simp_all add: main_step_def M_Check seg_state_def worker_seg_def)
    then show ?thesis by (intro dopen) (simp_all add: main_step_def M_Check)
  next
    case M_Asleep
    then show ?thesis using d by (simp add: main_step_def)
  next
    case M_Finish
    note ri = round_invD [OF r]
    have a: "length (pl_segs p) = pl_active p + 1" using ri(11) M_Finish by simp
    have "seg_state p k = Finished" if "k < length (pl_segs p)" for k
    proof (cases "k = 0")
      case False
      have wk: "is_worker cfg k" using False that sg(1) by (simp add: is_worker_def)
      have ns: "\<not> pl_shutdown p" using ri(2) M_Finish by simp
      have l: "w_last p k = pl_gen p" using ri(9) [OF _ ns wk] that a M_Finish by simp
      have "\<not> w_busy (w_pc p k)" using ri(4) [OF wk] M_Finish by auto
      then show ?thesis using l by (auto simp: seg_state_worker [OF wk] worker_seg_def split: worker_pc.splits)
    qed (simp add: M_Finish)
    then have rep: "seg_report (gc_weights cfg) g0 ?tokens (pl_session p) (pl_segs p ! k) (pl_oks p ! k)"
      if "k < length (pl_segs p)" for k using g'(7) [OF that] that by (simp add: seg_ok_def Let_def)
    have "agrees (gather_join ?tokens (pl_oks p) (pl_session p)) (gather_serial (gc_weights cfg) ?tokens g0)"
    proof (rule agrees_cases)
      note j = gather_join_exact [OF g'(1) _ g'(3,4) sg(6) g'(6) rep]
      show "(\<forall>t < length ?tokens. in_table (gc_weights cfg) g0 ?tokens t) \<Longrightarrow>
          gather_join ?tokens (pl_oks p) (pl_session p) = (gathered (gc_weights cfg) ?tokens g0, None)"
        "\<exists>t < length ?tokens. \<not> in_table (gc_weights cfg) g0 ?tokens t \<Longrightarrow>
          snd (gather_join ?tokens (pl_oks p) (pl_session p)) \<noteq> None"
        using j sg(4) by auto
    qed (rule serial_exact [OF g'(1) w g'(3)]; assumption)+
    then have "agrees (gather_upload cfg (length ?tokens) (gather_join ?tokens (pl_oks p) (pl_session p)))
        (ple_gather_serial cfg ?tokens g0)"
      using agrees_upload g'(2) unfolding serial_unfold by (simp add: uses_pool_def)
    then show ?thesis using data_return [OF g'(1) w g(2,3,4)] by (simp add: main_step_def M_Finish)
  qed (use True in auto)
next
  case False
  then have dd: "m_calls p \<noteq> [] \<Longrightarrow> gather_wf (pl_session p)" "calls_fit (pl_session p) (m_calls p)"
    "m_results p @ serial_calls cfg (pl_session p) (m_calls p) = spec"
    "m_pc p = M_Start \<or> m_pc p = M_Publish \<Longrightarrow> m_calls p \<noteq> [] \<and> uses_pool cfg (hd (m_calls p)) (pl_session p)
             \<and> pl_segs p = gather_segments cfg (length (hd (m_calls p))) \<and> length (pl_oks p) = length (pl_segs p)"
    "m_pc p = M_Stop \<or> m_pc p = M_Shut \<or> m_over (m_pc p) \<Longrightarrow> m_calls p = []"
    using d by (simp_all add: data_inv_def split: if_splits)
  show ?thesis
  proof (cases "m_pc p")
    case M_Call
    show ?thesis
    proof (cases "m_calls p")
      case Nil
      then show ?thesis using dd M_Call by (simp add: main_step_def data_inv_def)
    next
      case (Cons tokens calls)
      show ?thesis
      proof (cases "uses_pool cfg tokens (pl_session p)")
        case True
        then show ?thesis using dd M_Call Cons by (simp add: main_step_def data_inv_def Let_def)
      next
        case False
        have fit: "length tokens \<le> length (gs_ids (pl_session p))" using dd(2) Cons by (simp add: calls_fit_def)
        have wf: "gather_wf (pl_session p)" using dd(1) Cons by simp
        have "agrees (qwen4exp_ple_gather cfg tokens (pl_session p)) (ple_gather_serial cfg (hd (m_calls p)) (pl_session p))"
          using gather_paths [OF wf w fit c] Cons by simp
        then show ?thesis using data_return [OF wf w dd(2) _ dd(3)] M_Call Cons False by (simp add: main_step_def)
      qed
    qed
  next
    case M_Publish
    let ?tokens = "hd (m_calls p)"
    note ri = round_invD [OF r]
    have pub: "m_calls p \<noteq> []" "uses_pool cfg ?tokens (pl_session p)" "pl_segs p = gather_segments cfg (length ?tokens)"
      "length (pl_oks p) = length (pl_segs p)" using dd(4) M_Publish by auto
    have wf: "gather_wf (pl_session p)" using dd(1) pub(1) by simp
    have n: "length (pl_segs p) \<le> gc_pool_threads cfg" using ri(7) M_Publish by simp
    have gen: "Suc (pl_gen p) < 2 ^ 32" using ri(1) M_Publish pub(1) by (auto simp: pending_def neq_Nil_conv)
    have ss: "seg_state (main_step cfg p) k = Waiting" if "k < length (pl_segs p)" for k
    proof (cases "k = 0")
      case False
      have wk: "is_worker cfg k" using False that n by (simp add: is_worker_def)
      have "w_last p k \<le> pl_gen p" "\<not> w_busy (w_pc p k)" using ri(3,4) [OF wk] M_Publish by auto
      then show ?thesis using gen M_Publish
        by (auto simp: seg_state_worker [OF wk] worker_seg_def main_step_def next_gen_def wake_workers_def split: worker_pc.splits)
    qed (simp add: main_step_def M_Publish)
    have "round_of cfg (pl_session p) ?tokens (main_step cfg p)"
      using wf pub dd(2) ss framed_refl [OF wf] by (simp add: round_of_def main_step_def M_Publish seg_ok_def Let_def calls_fit_def)
    then show ?thesis using dd pub M_Publish by (auto simp: data_inv_def main_step_def)
  qed (use dd False d in \<open>auto simp: data_inv_def main_step_def\<close>)
qed

text \<open>A step outside the loop over tokens changes no data; \<open>seg_state\<close> may only go back to waiting.\<close>

lemma data_keep:
  assumes d: "data_inv cfg spec p" and f: "pl_session q = pl_session p" "pl_segs q = pl_segs p" "pl_oks q = pl_oks p"
      "m_calls q = m_calls p" "m_results q = m_results p"
    and m: "m_pc q = m_pc p \<or> m_open (m_pc p) \<and> m_open (m_pc q)"
    and st: "m_open (m_pc p) \<or> m_pc p = M_Finish \<Longrightarrow> (\<And>k. k < length (pl_segs p) \<Longrightarrow> seg_state q k = seg_state p k \<or> seg_state q k = Waiting)"
  shows "data_inv cfg spec q"
proof (cases "m_open (m_pc p) \<or> m_pc p = M_Finish")
  case True
  then obtain g0 where g: "round_of cfg g0 (hd (m_calls p)) p" "calls_fit g0 (m_calls p)" "m_calls p \<noteq> []"
    "m_results p @ serial_calls cfg g0 (m_calls p) = spec"
    using d by (auto simp: data_inv_def)
  have "round_of cfg g0 (hd (m_calls p)) q" by (rule round_of_keep [OF g(1) f(1,2,3) st [OF True]])
  then show ?thesis using data_open [OF g f(4,5)] m True by auto
next
  case False
  then have "m_pc q = m_pc p" using m by auto
  then show ?thesis using d by (simp add: data_inv_def f False)
qed

lemma data_step_worker:
  assumes d: "data_inv cfg spec p" and r: "round_inv cfg p" and w: "table_ok (gc_weights cfg)" and c: "0 < gc_pool_threads cfg"
    and i: "is_worker cfg i"
  shows "data_inv cfg spec (worker_step cfg i p)"
proof -
  let ?tokens = "hd (m_calls p)"
  note ri = round_invD [OF r]
  have other: "seg_state (worker_set q i pc) k = seg_state q k" if "k \<noteq> i" for q pc k
    using that by (auto simp: seg_state_def worker_seg_def worker_set_def split: worker_pc.splits)
  have i0: "i \<noteq> 0" using i by (simp add: is_worker_def)
  have act: "length (pl_segs p) = pl_active p + 1" if "m_open (m_pc p) \<or> m_pc p = M_Finish" using ri(8,11) that by auto
  have busy: "\<exists>g0. round_of cfg g0 ?tokens p \<and> calls_fit g0 (m_calls p) \<and> m_calls p \<noteq> []
      \<and> m_results p @ serial_calls cfg g0 (m_calls p) = spec" "i < length (pl_segs p)" "m_open (m_pc p)" "w_last p i = pl_gen p"
    if "w_busy (w_pc p i)"
    using ri(4) [OF i that] act d by (auto simp: data_inv_def)
  show ?thesis
  proof (cases "w_pc p i")
    case W_Enter
    show ?thesis
      by (rule data_keep [OF d])
        (auto simp: worker_step_def W_Enter worker_set_def seg_state_def worker_seg_def split: worker_pc.splits)
  next
    case W_Look
    show ?thesis
    proof (rule data_keep [OF d])
      fix k assume op: "m_open (m_pc p) \<or> m_pc p = M_Finish" and k: "k < length (pl_segs p)"
      have ns: "\<not> pl_shutdown p" using op ri(2) m_open_not by auto
      have "i \<le> pl_active p" if "k = i" using k act [OF op] that by simp
      then show "seg_state (worker_step cfg i p) k = seg_state p k \<or> seg_state (worker_step cfg i p) k = Waiting"
        using ns i0 by (auto simp: worker_step_def W_Look worker_set_def seg_state_def worker_seg_def split: worker_pc.splits)
    qed (simp_all add: worker_step_def W_Look worker_set_def)
  next
    case W_Warm
    have b: "w_busy (w_pc p i)" by (simp add: W_Warm)
    obtain g0 where g: "round_of cfg g0 ?tokens p" "calls_fit g0 (m_calls p)" "m_calls p \<noteq> []"
      "m_results p @ serial_calls cfg g0 (m_calls p) = spec" using busy(1) [OF b] by blast
    obtain t h p' where s: "seg_begin p i = ((t, h), p')" by (metis surj_pair)
    note p' = seg_begin_data [OF s]
    have m: "worker_step cfg i p = worker_set p' i (W_Work t h)" by (simp add: worker_step_def W_Warm s)
    have "seg_state p' j = seg_state p j" for j by (simp add: p' seg_state_def worker_seg_def)
    then have "round_of cfg g0 ?tokens (worker_step cfg i p)" unfolding m
      by (intro round_of_begin [OF g(1) c busy(2) [OF b] s])
        (simp_all add: other, simp_all add: worker_set_def seg_state_def i0 worker_seg_def)
    then show ?thesis using data_open [OF g] busy(3) [OF b] by (simp add: m worker_set_def p')
  next
    case (W_Work t h)
    have b: "w_busy (w_pc p i)" by (simp add: W_Work)
    obtain g0 where g: "round_of cfg g0 ?tokens p" "calls_fit g0 (m_calls p)" "m_calls p \<noteq> []"
      "m_results p @ serial_calls cfg g0 (m_calls p) = spec" using busy(1) [OF b] by blast
    obtain x p' where s: "seg_pass cfg p i t h = (x, p')" by fastforce
    obtain ss oks where p': "p' = p\<lparr> pl_session := ss, pl_oks := oks \<rparr>" by (rule seg_pass_data [OF s])
    define pc where "pc = (case x of Some (t', h') \<Rightarrow> W_Work t' h' | None \<Rightarrow> W_Done)"
    have m: "worker_step cfg i p = worker_set p' i pc" by (simp add: worker_step_def W_Work s pc_def split: option.splits)
    have st: "seg_state p i = Running t h" by (simp add: seg_state_def i0 worker_seg_def W_Work)
    have st': "seg_state (worker_set p' i pc) i = (case x of Some (t', h') \<Rightarrow> Running t' h' | None \<Rightarrow> Finished)"
      using busy(4) [OF b] by (simp add: seg_state_def i0 worker_seg_def worker_set_def p' pc_def split: option.splits)
    have "seg_state p' j = seg_state p j" for j by (simp add: p' seg_state_def worker_seg_def)
    then have "round_of cfg g0 ?tokens (worker_step cfg i p)" unfolding m
      by (intro round_of_pass [OF g(1) w c busy(2) [OF b] st s])
        (simp_all add: other st', simp_all add: worker_set_def)
    then show ?thesis using data_open [OF g] busy(3) [OF b] by (simp add: m worker_set_def p')
  next
    case W_Done
    show ?thesis
      by (rule data_keep [OF d])
        (auto simp: worker_step_def W_Done worker_set_def seg_state_def worker_seg_def split: worker_pc.splits)
  next
    case W_Count
    have "m_pc (worker_step cfg i p) = m_pc p \<or> m_pc p = M_Asleep \<and> m_pc (worker_step cfg i p) = M_Join"
      by (simp add: worker_step_def W_Count Let_def worker_set_def signal_main_def)
    moreover have "main_seg (m_pc (worker_step cfg i p)) = main_seg (m_pc p)"
      by (simp add: worker_step_def W_Count Let_def worker_set_def signal_main_def)
    moreover have "worker_seg (worker_step cfg i p) k = worker_seg p k" for k
      by (auto simp: worker_step_def W_Count Let_def worker_set_def signal_main_def worker_seg_def split: worker_pc.splits)
    ultimately show ?thesis
      by (intro data_keep [OF d]) (auto simp: seg_state_def, simp_all add: worker_step_def W_Count Let_def worker_set_def signal_main_def)
  qed (use d in \<open>simp_all add: worker_step_def\<close>)
qed

lemma data_step:
  assumes "data_inv cfg spec p" "round_inv cfg p" "table_ok (gc_weights cfg)" "0 < gc_pool_threads cfg"
  shows "data_inv cfg spec (pool_step cfg p e)"
proof (cases e)
  case Wake_Main
  have "data_inv cfg spec (signal_main p)"
    by (rule data_keep [OF assms(1)]) (auto simp: signal_main_def seg_state_def worker_seg_def split: worker_pc.splits)
  then show ?thesis by (simp add: pool_step_def Wake_Main)
next
  case (Wake i)
  have "data_inv cfg spec (worker_set p i W_Enter)" if "w_pc p i = W_Asleep"
    by (rule data_keep [OF assms(1)]) (auto simp: worker_set_def seg_state_def worker_seg_def that split: worker_pc.splits)
  then show ?thesis using assms(1) by (simp add: pool_step_def Wake)
qed (use assms data_step_main data_step_worker in \<open>simp_all add: pool_step_def\<close>)

subsection \<open>Every reachable state\<close>

definition pool_inv :: "gather_cfg \<Rightarrow> gather_session option list \<Rightarrow> pool \<Rightarrow> bool" where
  "pool_inv cfg spec p \<longleftrightarrow> lock_inv cfg p \<and> round_inv cfg p \<and> exit_inv cfg p \<and> data_inv cfg spec p"

lemma pool_inv_step:
  "pool_inv cfg spec p \<Longrightarrow> table_ok (gc_weights cfg) \<Longrightarrow> 0 < gc_pool_threads cfg \<Longrightarrow> pool_inv cfg spec (pool_step cfg p e)"
  by (simp add: pool_inv_def lock_step round_step exit_step data_step)

lemma pool_inv_init:
  assumes "gather_wf g" "calls_fit g calls" "length calls + 1 < 2 ^ 32"
  shows "pool_inv cfg (serial_calls cfg g calls) (qw_ple_pool_init g calls)"
  using assms by (auto simp: pool_inv_def lock_inv_def round_inv_def exit_inv_def data_inv_def qw_ple_pool_init_def
      m_locked_def w_locked_def pending_def)

lemma pool_inv_run:
  "pool_inv cfg spec p \<Longrightarrow> table_ok (gc_weights cfg) \<Longrightarrow> 0 < gc_pool_threads cfg \<Longrightarrow> pool_inv cfg spec (pool_run cfg es p)"
  unfolding pool_run_def by (induction es arbitrary: p) (simp_all add: pool_inv_step)

end
