(* ===== verification/Ple_Pool_Live.thy ===== *)
theory Ple_Pool_Live
  imports Ple_Pool
begin

text \<open>
  The pool makes progress: a reachable state that is not the end has a thread whose step changes
  it, and every such step other than a spurious wake-up makes a measure smaller. Hence a schedule
  that runs every thread again and again, with finitely many spurious wake-ups, reaches the end.
\<close>

subsection \<open>The measure\<close>

definition main_stage :: "pool \<Rightarrow> nat" where
  "main_stage p =
     (case m_pc p of
        M_Call \<Rightarrow> 14 | M_Start \<Rightarrow> 13 | M_Publish \<Rightarrow> 12 | M_Warm \<Rightarrow> 11 | M_Work t h \<Rightarrow> 10
      | M_Join \<Rightarrow> if pl_completed p < pl_active p then 9 else 6
      | M_Check \<Rightarrow> if pl_completed p < pl_active p then 8 else 5
      | M_Asleep \<Rightarrow> 7 | M_Finish \<Rightarrow> 4 | M_Stop \<Rightarrow> 3 | M_Shut \<Rightarrow> 2 | M_Reap i \<Rightarrow> 1 | M_End \<Rightarrow> 0)"

definition main_left :: "gather_cfg \<Rightarrow> pool \<Rightarrow> nat" where
  "main_left cfg p =
     (case m_pc p of M_Work t h \<Rightarrow> snd (pl_segs p ! 0) - t | M_Reap i \<Rightarrow> gc_pool_threads cfg - i | _ \<Rightarrow> 0)"

definition worker_left :: "pool \<Rightarrow> nat \<Rightarrow> nat" where
  "worker_left p i =
     (let len = snd (pl_segs p ! i) - fst (pl_segs p ! i); fresh = (w_last p i \<noteq> pl_gen p) in
      case w_pc p i of
        W_Enter \<Rightarrow> if fresh then 9 + len else 2
      | W_Look \<Rightarrow> if fresh then 8 + len else 1
      | W_Asleep \<Rightarrow> 0
      | W_Warm \<Rightarrow> 6 + len
      | W_Work t h \<Rightarrow> 5 + (snd (pl_segs p ! i) - t)
      | W_Done \<Rightarrow> 4
      | W_Count \<Rightarrow> 3
      | W_Exit \<Rightarrow> 0)"

definition pool_measure :: "gather_cfg \<Rightarrow> pool \<Rightarrow> nat \<times> nat \<times> nat \<times> nat" where
  "pool_measure cfg p =
     (length (m_calls p), main_stage p, main_left cfg p, (\<Sum>i = 1..<gc_pool_threads cfg. worker_left p i))"

definition pool_order :: "gather_cfg \<Rightarrow> (pool \<times> pool) set" where
  "pool_order cfg = inv_image (less_than <*lex*> less_than <*lex*> less_than <*lex*> less_than) (pool_measure cfg)"

lemma pool_order_wf: "wf (pool_order cfg)"
  by (simp add: pool_order_def wf_lex_prod)

fun spurious :: "pool_event \<Rightarrow> bool" where
  "spurious Wake_Main = True" | "spurious (Wake i) = True" | "spurious _ = False"

lemma main_decreases:
  assumes "pool_inv cfg spec p" "main_step cfg p \<noteq> p"
  shows "(main_step cfg p, p) \<in> pool_order cfg"
proof -
  have r: "round_inv cfg p" using assms(1) by (simp add: pool_inv_def)
  note ri = round_invD [OF r]
  have ret: "(main_return x p, p) \<in> pool_order cfg" if "m_calls p \<noteq> []" for x
    using that by (auto simp: pool_order_def pool_measure_def main_return_def)
  show ?thesis
  proof (cases "m_pc p")
    case M_Warm
    obtain t h p' where s: "seg_begin p 0 = ((t, h), p')" by (metis surj_pair)
    show ?thesis
      by (simp add: main_step_def M_Warm s seg_begin_data [OF s] pool_order_def pool_measure_def main_stage_def)
  next
    case (M_Work t h)
    obtain x p' where s: "seg_pass cfg p 0 t h = (x, p')" by fastforce
    obtain ss oks where p': "p' = p\<lparr> pl_session := ss, pl_oks := oks \<rparr>" by (rule seg_pass_data [OF s])
    have "t < snd (pl_segs p ! 0) \<and> t' = Suc t" if "x = Some (t', h')" for t' h'
      using s that by (auto simp: seg_pass_def split: if_splits prod.splits)
    then show ?thesis
      by (auto simp: main_step_def M_Work s p' pool_order_def pool_measure_def main_stage_def main_left_def split: option.splits)
  next
    case (M_Reap i)
    then show ?thesis using assms(2)
      by (auto simp: main_step_def pool_order_def pool_measure_def main_stage_def main_left_def split: if_splits)
  next
    case M_Call
    show ?thesis
    proof (cases "m_calls p")
      case Nil
      then show ?thesis by (simp add: main_step_def M_Call pool_order_def pool_measure_def main_stage_def)
    next
      case (Cons tokens calls)
      show ?thesis
      proof (cases "uses_pool cfg tokens (pl_session p)")
        case True
        then show ?thesis by (simp add: main_step_def M_Call Cons pool_order_def pool_measure_def main_stage_def Let_def)
      next
        case False
        then show ?thesis using ret Cons by (simp add: main_step_def M_Call)
      qed
    qed
  next
    case M_Finish
    then show ?thesis using ret ri(11) by (simp add: main_step_def)
  qed (use assms(2) in \<open>auto simp: main_step_def pool_order_def pool_measure_def main_stage_def split: if_splits\<close>)
qed

lemma worker_left_decreases:
  assumes "worker_step cfg i p \<noteq> p" "w_busy (w_pc p i) \<Longrightarrow> w_last p i = pl_gen p"
  shows "worker_left (worker_step cfg i p) i < worker_left p i"
proof (cases "w_pc p i")
  case W_Warm
  obtain t h p' where s: "seg_begin p i = ((t, h), p')" by (metis surj_pair)
  have "t = fst (pl_segs p ! i)" using s by (simp add: seg_begin_def Let_def)
  then show ?thesis by (simp add: worker_step_def W_Warm s seg_begin_data [OF s] worker_set_def worker_left_def)
next
  case (W_Work t h)
  obtain x p' where s: "seg_pass cfg p i t h = (x, p')" by fastforce
  obtain ss oks where p': "p' = p\<lparr> pl_session := ss, pl_oks := oks \<rparr>" by (rule seg_pass_data [OF s])
  have "t < snd (pl_segs p ! i) \<and> t' = Suc t" if "x = Some (t', h')" for t' h'
    using s that by (auto simp: seg_pass_def split: if_splits prod.splits)
  then show ?thesis by (auto simp: worker_step_def W_Work s p' worker_set_def worker_left_def split: option.splits)
qed (use assms in \<open>auto simp: worker_step_def worker_set_def worker_left_def Let_def signal_main_def split: if_splits\<close>)

lemma worker_step_fields:
  "pl_gen (worker_step cfg i p) = pl_gen p" "pl_segs (worker_step cfg i p) = pl_segs p" "m_calls (worker_step cfg i p) = m_calls p"
  "j \<noteq> i \<Longrightarrow> w_last (worker_step cfg i p) j = w_last p j" "j \<noteq> i \<Longrightarrow> w_pc (worker_step cfg i p) j = w_pc p j"
  "w_pc p i \<noteq> W_Count \<Longrightarrow> m_pc (worker_step cfg i p) = m_pc p"
  "w_pc p i \<noteq> W_Count \<Longrightarrow> pl_completed (worker_step cfg i p) = pl_completed p" "pl_active (worker_step cfg i p) = pl_active p"
  by (auto simp: worker_step_def worker_set_def signal_main_def seg_begin_def seg_pass_def Let_def
      split: worker_pc.splits prod.splits option.splits if_splits)

lemma worker_left_other: "j \<noteq> i \<Longrightarrow> worker_left (worker_step cfg i p) j = worker_left p j"
proof -
  assume "j \<noteq> i"
  note f = worker_step_fields(1,2) [of cfg i p] worker_step_fields(4,5) [OF this, of cfg p]
  show ?thesis unfolding worker_left_def f ..
qed

lemma worker_decreases:
  assumes inv: "pool_inv cfg spec p" and i: "is_worker cfg i" and st: "worker_step cfg i p \<noteq> p"
  shows "(worker_step cfg i p, p) \<in> pool_order cfg"
proof -
  let ?q = "worker_step cfg i p"
  have r: "round_inv cfg p" using inv by (simp add: pool_inv_def)
  have c: "m_calls ?q = m_calls p" by (rule worker_step_fields)
  have left: "main_stage ?q < main_stage p \<or> main_stage ?q = main_stage p \<and> main_left cfg ?q = main_left cfg p"
  proof (cases "w_pc p i = W_Count")
    case True
    then show ?thesis using round_invD(10) [OF r]
      by (cases "m_pc p") (auto simp: worker_step_def worker_set_def Let_def signal_main_def main_stage_def main_left_def)
  next
    case False
    then have "m_pc ?q = m_pc p" "pl_completed ?q = pl_completed p" "pl_active ?q = pl_active p" "pl_segs ?q = pl_segs p"
      by (simp_all add: worker_step_fields)
    then show ?thesis unfolding main_stage_def main_left_def by (simp only:) simp
  qed
  have "(\<Sum>j = 1..<gc_pool_threads cfg. worker_left ?q j) < (\<Sum>j = 1..<gc_pool_threads cfg. worker_left p j)"
  proof (rule sum_strict_mono_ex1)
    have d: "worker_left ?q i < worker_left p i"
      by (rule worker_left_decreases [OF st]) (use round_invD(4) [OF r i] in blast)
    then show "\<exists>j \<in> {1..<gc_pool_threads cfg}. worker_left ?q j < worker_left p j" using i by (auto simp: is_worker_def)
    show "\<forall>j \<in> {1..<gc_pool_threads cfg}. worker_left ?q j \<le> worker_left p j"
    proof
      fix j
      show "worker_left ?q j \<le> worker_left p j"
        using d worker_left_other [of j i cfg p] by (cases "j = i") simp_all
    qed
  qed simp
  then show ?thesis using c left by (auto simp: pool_order_def pool_measure_def)
qed

lemma step_decreases:
  assumes "pool_inv cfg spec p" "\<not> spurious e" "pool_step cfg p e \<noteq> p"
  shows "(pool_step cfg p e, p) \<in> pool_order cfg"
  using assms main_decreases worker_decreases by (cases e) (auto simp: pool_step_def split: if_splits)

subsection \<open>No deadlock\<close>

lemma main_free:
  assumes "pl_mutex p = None \<or> m_locked (m_pc p)" "m_pc p \<noteq> M_Asleep" "m_pc p \<noteq> M_End"
    and "\<And>i. m_pc p = M_Reap i \<Longrightarrow> i < gc_pool_threads cfg \<Longrightarrow> w_pc p i = W_Exit"
    and "m_pc p = M_Finish \<Longrightarrow> m_calls p \<noteq> []"
  shows "main_step cfg p \<noteq> p"
proof -
  have "m_pc (main_step cfg p) \<noteq> m_pc p \<or> m_calls (main_step cfg p) \<noteq> m_calls p"
  proof (cases "m_pc p")
    case M_Call
    have "tl xs \<noteq> xs" if "xs \<noteq> []" for xs :: "int list list" using that by (cases xs) auto
    then show ?thesis using M_Call by (auto simp: main_step_def main_return_def Let_def split: list.splits)
  next
    case (M_Work t h)
    obtain x p' where s: "seg_pass cfg p 0 t h = (x, p')" by fastforce
    have "t' = Suc t" if "x = Some (t', h')" for t' h'
      using s that by (auto simp: seg_pass_def split: if_splits prod.splits)
    then show ?thesis using M_Work by (auto simp: main_step_def s split: option.splits)
  next
    case M_Warm
    then show ?thesis by (simp add: main_step_def split: prod.splits)
  qed (use assms in \<open>auto simp: main_step_def m_locked_def main_return_def\<close>)
  then show ?thesis by auto
qed

lemma worker_free:
  assumes "pl_mutex p = None \<or> w_locked (w_pc p i)" "w_pc p i \<noteq> W_Asleep" "w_pc p i \<noteq> W_Exit"
  shows "worker_step cfg i p \<noteq> p"
proof -
  have "w_pc (worker_step cfg i p) i \<noteq> w_pc p i"
  proof (cases "w_pc p i")
    case (W_Work t h)
    obtain x p' where s: "seg_pass cfg p i t h = (x, p')" by fastforce
    have "t' = Suc t" if "x = Some (t', h')" for t' h'
      using s that by (auto simp: seg_pass_def split: if_splits prod.splits)
    then show ?thesis using W_Work by (auto simp: worker_step_def s worker_set_def split: option.splits)
  next
    case W_Warm
    then show ?thesis by (simp add: worker_step_def worker_set_def split: prod.splits)
  qed (use assms in \<open>auto simp: worker_step_def w_locked_def worker_set_def Let_def\<close>)
  then show ?thesis by auto
qed

lemma no_deadlock:
  assumes inv: "pool_inv cfg spec p" and ne: "m_pc p \<noteq> M_End"
  shows "\<exists>e. (e = Main \<or> (\<exists>i. is_worker cfg i \<and> e = Worker i)) \<and> pool_step cfg p e \<noteq> p"
proof -
  have l: "lock_inv cfg p" and r: "round_inv cfg p" and x: "exit_inv cfg p" using inv by (simp_all add: pool_inv_def)
  note ri = round_invD [OF r]
  have main: "?thesis" if "main_step cfg p \<noteq> p" using that by (auto simp: pool_step_def intro: exI [of _ Main])
  have worker: "?thesis" if "is_worker cfg i" "worker_step cfg i p \<noteq> p" for i
    using that by (auto simp: pool_step_def intro!: exI [of _ "Worker i"])
  show ?thesis
  proof (cases "pl_mutex p")
    case (Some j)
    show ?thesis
    proof (cases "j = 0")
      case True
      then have "m_locked (m_pc p)" using l Some by (simp add: lock_inv_def)
      then show ?thesis by (intro main main_free) (auto simp: m_locked_def ne)
    next
      case False
      then have j: "is_worker cfg j" using l Some by (auto simp: lock_inv_def)
      then have "w_locked (w_pc p j)" using l Some by (auto simp: lock_inv_def)
      then show ?thesis by (intro worker [OF j] worker_free) (auto simp: w_locked_def)
    qed
  next
    case None
    have free: "\<not> w_locked (w_pc p i)" if "is_worker cfg i" for i using l None that by (simp add: lock_inv_def)
    show ?thesis
    proof (cases "m_pc p = M_Asleep \<or> (\<exists>i < gc_pool_threads cfg. m_pc p = M_Reap i \<and> w_pc p i \<noteq> W_Exit)")
      case False
      then show ?thesis using ri(11) None by (intro main main_free) (auto simp: ne)
    next
      case True
      then show ?thesis
      proof
        assume a: "m_pc p = M_Asleep"
        then have o: "pl_completed p = card (counted p)" "pl_completed p < pl_active p" "pl_active p < gc_pool_threads cfg"
          "\<not> pl_shutdown p" using ri(8,10,2) by auto
        have "\<not> {1..pl_active p} \<subseteq> counted p"
          using o(1,2) card_mono [OF counted_finite [of p], of "{1..pl_active p}"] by auto
        then obtain i where i: "1 \<le> i" "i \<le> pl_active p" "i \<notin> counted p"
          by (metis atLeastAtMost_iff subsetI)
        have w: "is_worker cfg i" by (rule worker_active [OF o(3) i(1,2)])
        have "w_pc p i \<noteq> W_Asleep" using i ri(5) [OF w] by (auto simp: counted_def)
        moreover have "w_pc p i \<noteq> W_Exit" using ri(6) [OF w] o(4) by blast
        ultimately show ?thesis using None by (intro worker [OF w] worker_free) auto
      next
        assume "\<exists>i < gc_pool_threads cfg. m_pc p = M_Reap i \<and> w_pc p i \<noteq> W_Exit"
        then obtain i where i: "i < gc_pool_threads cfg" "m_pc p = M_Reap i" "w_pc p i \<noteq> W_Exit" by blast
        have w: "is_worker cfg i" using x i by (simp add: exit_inv_def is_worker_def)
        have "pl_shutdown p" using ri(2) i(2) by simp
        then have "w_pc p i \<noteq> W_Asleep" using ri(5) [OF w] by blast
        then show ?thesis using None i(3) by (intro worker [OF w] worker_free) auto
      qed
    qed
  qed
qed

subsection \<open>Schedules without end\<close>

lemma pool_run_Suc: "pool_run cfg (map sched [0..<Suc n]) p = pool_step cfg (pool_run cfg (map sched [0..<n]) p) (sched n)"
  by (simp add: pool_run_def)

lemma first_change:
  "m \<le> n \<Longrightarrow> f n \<noteq> f m \<Longrightarrow> \<exists>k. m \<le> k \<and> k < n \<and> f k = f m \<and> f (Suc k) \<noteq> f k"
proof (induction n)
  case (Suc n)
  show ?case
  proof (cases "f n = f m")
    case True
    then show ?thesis using Suc.prems by (intro exI [of _ n]) (auto simp: le_Suc_eq)
  next
    case False
    then have "m \<le> n" using Suc.prems by (auto simp: le_Suc_eq)
    from Suc.IH [OF this False] show ?thesis by (auto intro: less_SucI)
  qed
qed simp

definition pool_thread :: "gather_cfg \<Rightarrow> pool_event \<Rightarrow> bool" where
  "pool_thread cfg e \<longleftrightarrow> e = Main \<or> (\<exists>i. is_worker cfg i \<and> e = Worker i)"

lemma fair_ends:
  assumes inv: "pool_inv cfg spec p0" and w: "table_ok (gc_weights cfg)" and c: "0 < gc_pool_threads cfg"
    and quiet: "\<forall>n \<ge> N. \<not> spurious (sched n)"
    and fair: "\<And>e n. pool_thread cfg e \<Longrightarrow> \<exists>m \<ge> n. sched m = e"
  shows "N \<le> n \<Longrightarrow> \<exists>m. m_pc (pool_run cfg (map sched [0..<m]) p0) = M_End"
proof (induction "pool_run cfg (map sched [0..<n]) p0" arbitrary: n rule: wf_induct_rule [OF pool_order_wf [of cfg]])
  case 1
  define st where "st n = pool_run cfg (map sched [0..<n]) p0" for n
  have inv: "pool_inv cfg spec (st n)" for n using pool_inv_run [OF inv w c] by (simp add: st_def)
  have step: "st (Suc n) = pool_step cfg (st n) (sched n)" for n unfolding st_def by (rule pool_run_Suc)
  show ?case
  proof (cases "m_pc (st n) = M_End")
    case True
    then show ?thesis unfolding st_def by blast
  next
    case False
    obtain e where e: "pool_thread cfg e" "pool_step cfg (st n) e \<noteq> st n"
      using no_deadlock [OF inv False] by (auto simp: pool_thread_def)
    obtain m where m: "n \<le> m" "sched m = e" using fair [OF e(1)] by blast
    have "\<exists>k. n \<le> k \<and> st k = st n \<and> st (Suc k) \<noteq> st k"
    proof (cases "st m = st n")
      case True
      then show ?thesis using m e(2) step [of m] by (intro exI [of _ m]) simp
    next
      case False
      then show ?thesis using first_change [OF m(1), of st] by blast
    qed
    then obtain k where k: "n \<le> k" "st k = st n" "st (Suc k) \<noteq> st k" by blast
    have "(st (Suc k), st k) \<in> pool_order cfg"
      using step_decreases [OF inv, of "sched k" k] quiet k 1(2) by (simp add: step)
    then have "(st (Suc k), st n) \<in> pool_order cfg" using k(2) by simp
    moreover have "N \<le> Suc k" using k(1) 1(2) by simp
    ultimately show ?thesis using 1(1) [of "Suc k", folded st_def] unfolding st_def [symmetric] by blast
  qed
qed

subsection \<open>A small table\<close>

text \<open>One row, which every head names: all vocabularies have one element.\<close>

definition demo_weights :: ple_weights where
  "demo_weights = \<lparr> pw_base = Some (replicate 90 0), pw_rows = 1, pw_covered_rows = 1, pw_row_dim = 160, pw_row_bytes = 90,
     pw_type = PLE_GGUF_TYPE_IQ4_NL, pw_head_offset = replicate 16 0, pw_head_vocab = replicate 16 1, pw_have_hash = True,
     pw_ngram_size = 3, pw_eos_token_id = 0, pw_multipliers = [1, 3, 5] \<rparr>"

definition demo_constants :: ple_constants where
  "demo_constants = the (qwen4exp_ple_read_constants demo_weights)"

definition demo_gather :: "nat \<Rightarrow> gather_session" where
  "demo_gather slots = \<lparr> gs_ready = True, gs_constants = demo_constants, gs_history = ple_history_reset demo_constants,
     gs_history_rows = replicate 6 (replicate 8 0), gs_snapshot_rows = slots, gs_ids = replicate 100 (replicate 16 0),
     gs_rows = replicate 100 (replicate 2560 (F32 0)), gs_uploaded = [] \<rparr>"

definition demo_cfg :: gather_cfg where
  "demo_cfg = \<lparr> gc_weights = demo_weights, gc_nthreads = 4, gc_pool_threads = 4, gc_upload = (\<lambda>_. True) \<rparr>"

lemma demo_read: "qwen4exp_ple_read_constants demo_weights = Some demo_constants"
proof -
  have "qwen4exp_ple_read_constants demo_weights \<noteq> None"
    by (simp add: qwen4exp_ple_read_constants_def demo_weights_def ple_shape PLE_MAX_NGRAM_def PLE_MAX_HEADS_def)
  then show ?thesis by (auto simp: demo_constants_def)
qed

lemma demo_gather_wf: "gather_wf (demo_gather k)"
  using read_constants_shape [OF demo_read] history_full_reset
  by (auto simp: gather_wf_def demo_gather_def ple_shape)

lemma demo_table_ok: "table_ok (gc_weights demo_cfg)" "0 < gc_pool_threads demo_cfg"
  by (simp_all add: table_ok_def demo_cfg_def demo_weights_def)

lemma demo_fit: "n \<le> 100 \<Longrightarrow> calls_fit (demo_gather k) [replicate n x]"
  by (simp add: calls_fit_def demo_gather_def)

lemma demo_uses_pool: "uses_pool demo_cfg (replicate 64 3) (demo_gather 0)"
  by (simp add: uses_pool_def demo_cfg_def demo_gather_def demo_weights_def gather_refusal_def gather_nthreads_def
      gather_segments_def ple_shape upt_rec Let_def)

lemma demo_in_table: "in_table demo_weights (demo_gather k) tokens t"
proof -
  let ?c = demo_constants and ?h = "hist_at (demo_gather k) tokens t"
  have c: "unat (c_ngram_size ?c) = 3" "8 = unat (c_heads_per_ngram ?c)" "c_head_offsets ?c = c_array 64 (replicate 16 0)"
    "c_head_vocab_sizes ?c = c_array 64 (replicate 16 1)"
    by (simp_all add: demo_constants_def qwen4exp_ple_read_constants_def demo_weights_def ple_shape PLE_MAX_NGRAM_def PLE_MAX_HEADS_def)
  note r = ple_rows_upto [of 8 ?c 3 ?h "tokens ! t", OF _ c(2)]
  have "list_all (\<lambda>r. r < 1) (ple_token_rows ?c ?h (tokens ! t))"
    unfolding list_all_length ple_token_rows_def c(1) using r
    by (auto simp: c(3,4) c_array_def nth_append simp del: upt_Suc)
  then show ?thesis by (simp add: in_table_def tok_ids_def demo_gather_def demo_weights_def)
qed

definition round_robin :: "nat \<Rightarrow> pool_event" where
  "round_robin n = (if n mod 4 = 0 then Main else Worker (n mod 4))"

lemma round_robin_fair: "pool_thread demo_cfg e \<Longrightarrow> \<exists>m \<ge> n. round_robin m = e"
proof -
  assume e: "pool_thread demo_cfg e"
  have "\<exists>m \<ge> n. m mod 4 = i" if "i < 4" for i :: nat
    using that by (intro exI [of _ "4 * n + i"]) simp
  then show ?thesis using e
    unfolding pool_thread_def round_robin_def is_worker_def demo_cfg_def
    by (metis gather_cfg.select_convs(3) not_one_le_zero zero_less_numeral)
qed

subsection \<open>A call\<close>

lemma gather_call:
  assumes wf: "gather_wf g" and w: "table_ok (gc_weights cfg)" and p: "0 < gc_pool_threads cfg"
    and n: "length tokens \<le> length (gs_ids g)" and r: "qwen4exp_ple_gather cfg tokens g = (g', e)"
  shows "e = None \<longleftrightarrow> gather_refusal (gc_weights cfg) g = None
      \<and> (\<forall>t < length tokens. in_table (gc_weights cfg) g tokens t)
      \<and> gc_upload cfg (map (\<lambda>t. tok_row (gc_weights cfg) (tok_ids g tokens t)) [0..<length tokens])"
    and "e = None \<Longrightarrow> g' = (gathered_slots (gc_weights cfg) tokens g)
      \<lparr> gs_uploaded := take (length tokens) (gs_rows (gathered_slots (gc_weights cfg) tokens g)) \<rparr>"
proof -
  let ?w = "gc_weights cfg"
  let ?up = "gc_upload cfg (map (\<lambda>t. tok_row ?w (tok_ids g tokens t)) [0..<length tokens])"
  have "(e = None \<longleftrightarrow> gather_refusal ?w g = None \<and> (\<forall>t < length tokens. in_table ?w g tokens t) \<and> ?up)
    \<and> (e = None \<longrightarrow> g' = (gathered_slots ?w tokens g)
      \<lparr> gs_uploaded := take (length tokens) (gs_rows (gathered_slots ?w tokens g)) \<rparr>)"
  proof (cases "gather_refusal ?w g = None \<and> (\<forall>t < length tokens. in_table ?w g tokens t)")
    case True
    then have "(g', e) = gather_upload cfg (length tokens) (gathered_slots ?w tokens g, None)"
      using r gather_scan_exact(1) [OF wf w n p] unfolding gather_unfold by simp
    then show ?thesis using True gathered_rows [OF wf n] by (simp add: gather_upload_def split: if_splits)
  next
    case False
    have "snd (qwen4exp_ple_gather cfg tokens g) \<noteq> None"
    proof (cases "gather_refusal ?w g")
      case None
      then obtain x where "snd (gather_scan cfg tokens g) = Some x"
        using False gather_scan_exact(2) [OF wf w n p] by auto
      then show ?thesis using None unfolding gather_unfold
        by (cases "gather_scan cfg tokens g") (simp add: gather_upload_def)
    qed (simp add: gather_unfold)
    then show ?thesis using False r by auto
  qed
  then show "e = None \<longleftrightarrow> gather_refusal ?w g = None \<and> (\<forall>t < length tokens. in_table ?w g tokens t) \<and> ?up"
    "e = None \<Longrightarrow> g' = (gathered_slots ?w tokens g)
      \<lparr> gs_uploaded := take (length tokens) (gs_rows (gathered_slots ?w tokens g)) \<rparr>" by blast+
qed

lemma gather_armed_error:
  assumes wf: "gather_wf g" and w: "table_ok (gc_weights cfg)" and p: "0 < gc_pool_threads cfg"
    and n: "length tokens \<le> length (gs_ids g)" and r: "qwen4exp_ple_gather cfg tokens g = (g', e)"
    and s: "qwen4exp_ple_gather (cfg\<lparr> gc_nthreads := 1 \<rparr>) tokens (g\<lparr> gs_snapshot_rows := 0 \<rparr>) = (s, es)"
    and armed: "0 < gs_snapshot_rows g"
  shows "e = es"
proof -
  let ?w = "gc_weights cfg" and ?one = "cfg\<lparr> gc_nthreads := 1 \<rparr>"
  define g0 where "g0 = g\<lparr> gs_snapshot_rows := 0 \<rparr>"
  have wf0: "gather_wf g0" "length tokens \<le> length (gs_ids g0)" using wf n by (simp_all add: g0_def gather_wf_def)
  have ref: "gather_refusal ?w g0 = gather_refusal ?w g" by (simp add: g0_def gather_refusal_def)
  have it: "in_table ?w g0 tokens t = in_table ?w g tokens t" "tok_ids g0 tokens t = tok_ids g tokens t" for t
    by (simp_all add: g0_def in_table_def tok_ids_def hist_at_def)
  have a: "gather_scan cfg tokens g = gather_armed ?w tokens g" using armed by (simp add: gather_scan_def)
  have b: "gather_scan ?one tokens g0 = gather_serial ?w tokens g0" by (simp add: gather_scan_def g0_def gather_nthreads_def)
  have g0s: "snd (gather_serial ?w tokens g0) = snd (gather_serial ?w tokens g)"
    by (simp add: g0_def gather_serial_def Let_def split_beta)
  have err: "snd (gather_scan cfg tokens g) = snd (gather_scan ?one tokens g0)"
    unfolding a b g0s by (rule armed_refuses_as_serial [OF wf n])
  show ?thesis
  proof (cases "gather_refusal ?w g = None \<and> (\<exists>t < length tokens. \<not> in_table ?w g tokens t)")
    case True
    then obtain x where "snd (gather_scan cfg tokens g) = Some x"
      using gather_scan_exact(2) [OF wf w n p] by auto
    then show ?thesis
      using r s True err ref unfolding gather_unfold g0_def [symmetric]
      by (cases "gather_scan cfg tokens g"; cases "gather_scan ?one tokens g0")
        (simp add: gather_upload_def)
  next
    case False
    show ?thesis
    proof (cases "gather_refusal ?w g")
      case (Some x)
      then have "e = Some x" using r unfolding gather_unfold by simp
      moreover have "es = Some x" using s Some ref unfolding gather_unfold g0_def [symmetric] by simp
      ultimately show ?thesis by simp
    next
      case None
      then have ok: "\<forall>t < length tokens. in_table ?w g tokens t" using False by blast
      have "gather_scan cfg tokens g = (gathered_slots ?w tokens g, None)"
        by (rule gather_scan_exact(1) [OF wf w n p ok])
      moreover have "gather_scan ?one tokens g0 = (gathered_slots ?w tokens g0, None)"
        using gather_scan_exact(1) [of g0 ?one tokens] wf0 w p ok it by simp
      ultimately show ?thesis
        using r s ref None gathered_rows [OF wf n, of ?w] gathered_rows [OF wf0, of ?w] it(2)
        unfolding gather_unfold g0_def [symmetric] by (auto simp: gather_upload_def split: if_splits)
    qed
  qed
qed

subsection \<open>Properties\<close>

text \<open>
  Property C20. A gather accepts the same calls and leaves the same rows whichever path it takes:
  serial, armed with history slots, or cut into segments that are run one after another. On
  every path it succeeds exactly when no check of the table refuses, every row the tokens hash
  to is in the table, and the upload of the call's rows works. Then row \<open>t\<close> of the ids and of
  the values is that of the tokens up to \<open>t\<close>, the carried history is that of all tokens, every
  armed slot holds the history after its row and the other slots are untouched, and exactly the
  call's rows are uploaded. So it agrees with the plain scan, one thread and no slot armed: both
  succeed or both refuse, an armed call refuses with the same error, and the sessions after a
  success differ in the slots only.\<close>

theorem ple_gather_exact:
  assumes "gather_wf g" "table_ok (gc_weights cfg)" "0 < gc_pool_threads cfg" "length tokens \<le> length (gs_ids g)"
    and "qwen4exp_ple_gather cfg tokens g = (g', e)"
    and "qwen4exp_ple_gather (cfg\<lparr> gc_nthreads := 1 \<rparr>) tokens (g\<lparr> gs_snapshot_rows := 0 \<rparr>) = (s, es)"
  shows "(e = None \<longleftrightarrow> gather_refusal (gc_weights cfg) g = None
      \<and> (\<forall>t < length tokens. in_table (gc_weights cfg) g tokens t)
      \<and> gc_upload cfg (map (\<lambda>t. tok_row (gc_weights cfg) (tok_ids g tokens t)) [0..<length tokens]))
    \<and> (e = None \<longrightarrow>
        (\<forall>t < length tokens. gs_ids g' ! t = tok_ids g tokens t
            \<and> gs_rows g' ! t = tok_row (gc_weights cfg) (tok_ids g tokens t))
        \<and> gs_history g' = hist_at g tokens (length tokens)
        \<and> length (gs_history_rows g') = length (gs_history_rows g)
        \<and> (\<forall>u < length (gs_history_rows g). gs_history_rows g' ! u =
             (if u < length tokens \<and> u < gs_snapshot_rows g then hist_at g tokens (Suc u) else gs_history_rows g ! u))
        \<and> gs_uploaded g' = take (length tokens) (gs_rows g'))
    \<and> (e = None \<longleftrightarrow> es = None) \<and> (0 < gs_snapshot_rows g \<longrightarrow> e = es)
    \<and> (e = None \<longrightarrow> g' = s\<lparr> gs_snapshot_rows := gs_snapshot_rows g, gs_history_rows := gs_history_rows g' \<rparr>)"
proof -
  let ?w = "gc_weights cfg" and ?n = "length tokens"
  note call = gather_call [OF assms(1-5)]
  define g0 where "g0 = g\<lparr> gs_snapshot_rows := 0 \<rparr>"
  have g0: "gather_wf g0" "?n \<le> length (gs_ids g0)" "gs_snapshot_rows g0 = 0"
    "gather_refusal ?w g0 = gather_refusal ?w g" "\<And>t. in_table ?w g0 tokens t = in_table ?w g tokens t"
    "\<And>t. tok_ids g0 tokens t = tok_ids g tokens t" "\<And>t. hist_at g0 tokens t = hist_at g tokens t"
    using assms(1,4) by (simp_all add: g0_def gather_wf_def gather_refusal_def in_table_def tok_ids_def hist_at_def)
  have arrays: "gs_ids g0 = gs_ids g" "gs_rows g0 = gs_rows g" by (simp_all add: g0_def)
  let ?one = "cfg\<lparr> gc_nthreads := 1 \<rparr>"
  have one: "gc_weights ?one = ?w" "gc_pool_threads ?one = gc_pool_threads cfg" "gc_upload ?one = gc_upload cfg"
    by simp_all
  note plain = gather_call [of g0 ?one, unfolded one g0(4-7), OF g0(1) assms(2,3) g0(2) assms(6) [folded g0_def]]
  have same: "e = None \<longleftrightarrow> es = None" unfolding call(1) plain(1) g0(5,6) ..
  have armed: "e = es" if "0 < gs_snapshot_rows g"
    by (rule gather_armed_error [OF assms(1-6) that])
  have "g' = s\<lparr> gs_snapshot_rows := gs_snapshot_rows g, gs_history_rows := gs_history_rows g' \<rparr>" if e: "e = None"
  proof -
    have "g' = (gathered_slots ?w tokens g)\<lparr> gs_uploaded := take ?n (gs_rows (gathered_slots ?w tokens g)) \<rparr>"
      by (rule call(2) [OF e])
    moreover have "s = (gathered_slots ?w tokens g0)\<lparr> gs_uploaded := take ?n (gs_rows (gathered_slots ?w tokens g0)) \<rparr>"
      using plain(2) e same by simp
    ultimately show ?thesis unfolding gathered_slots_def gathered_def g0(6,7) arrays by (simp add: g0_def)
  qed
  moreover have "gs_history_rows g' = gs_history_rows (gathered_slots ?w tokens g) \<and> gs_ids g' = gs_ids (gathered ?w tokens g)
      \<and> gs_rows g' = gs_rows (gathered ?w tokens g) \<and> gs_history g' = hist_at g tokens ?n
      \<and> gs_uploaded g' = take ?n (gs_rows g')" if e: "e = None"
    using call(2) [OF e] by (simp add: gathered_slots_def gathered_def)
  moreover have "length (gs_rows g) = length (gs_ids g)" using assms(1) by (simp add: gather_wf_def)
  ultimately show ?thesis
    using call(1) same armed assms(4) by (auto simp: gathered_slots_def gathered_def)
qed

theorem ple_gather_exact_witness:
  "(\<exists>g'. qwen4exp_ple_gather demo_cfg (replicate 64 3) (demo_gather 0) = (g', None)
     \<and> gs_ids g' ! 63 = tok_ids (demo_gather 0) (replicate 64 3) 63) \<and>
   (\<exists>g'. qwen4exp_ple_gather demo_cfg (replicate 5 3) (demo_gather 2) = (g', None)
     \<and> gs_history_rows g' ! 1 = hist_at (demo_gather 2) (replicate 5 3) 2
     \<and> gs_history_rows g' ! 2 = replicate 8 0) \<and>
   (\<exists>g' x. qwen4exp_ple_gather (demo_cfg\<lparr> gc_weights := demo_weights\<lparr> pw_rows := 0 \<rparr> \<rparr>) (replicate 5 3) (demo_gather 2)
     = (g', Some x))"
proof -
  have n: "length (replicate k (3 :: int)) \<le> length (gs_ids (demo_gather m))" if "k \<le> 100" for k m
    using that by (simp add: demo_gather_def)
  have ok: "gather_refusal (gc_weights demo_cfg) (demo_gather m) = None" "gc_upload demo_cfg x"
    "in_table (gc_weights demo_cfg) (demo_gather m) ts t" for m x ts t
    using demo_in_table by (simp_all add: demo_cfg_def gather_refusal_def demo_gather_def demo_weights_def ple_shape)
  have run: "\<exists>g'. qwen4exp_ple_gather demo_cfg (replicate k 3) (demo_gather m) = (g', None)
      \<and> (\<forall>t < k. gs_ids g' ! t = tok_ids (demo_gather m) (replicate k 3) t)
      \<and> (\<forall>u < 6. gs_history_rows g' ! u =
           (if u < k \<and> u < m then hist_at (demo_gather m) (replicate k 3) (Suc u) else replicate 8 0))"
    if k: "k \<le> 100" for k m
  proof -
    let ?g = "demo_gather m" and ?ts = "replicate k (3 :: int)"
    obtain g' e where r: "qwen4exp_ple_gather demo_cfg ?ts ?g = (g', e)" by fastforce
    obtain s es where s: "qwen4exp_ple_gather (demo_cfg\<lparr> gc_nthreads := 1 \<rparr>) ?ts (?g\<lparr> gs_snapshot_rows := 0 \<rparr>) = (s, es)"
      by fastforce
    note q = ple_gather_exact [OF demo_gather_wf demo_table_ok n [OF k] r s]
    have e: "e = None" using conjunct1 [OF q] ok by blast
    have h: "length (gs_history_rows ?g) = 6" "gs_snapshot_rows ?g = m"
      "\<And>u. u < 6 \<Longrightarrow> gs_history_rows ?g ! u = replicate 8 0" by (simp_all add: demo_gather_def)
    note f = mp [OF conjunct1 [OF conjunct2 [OF q]] e]
    show ?thesis using r e f h by (auto simp: length_replicate)
  qed
  have bad: "\<exists>g' x. qwen4exp_ple_gather (demo_cfg\<lparr> gc_weights := demo_weights\<lparr> pw_rows := 0 \<rparr> \<rparr>) (replicate 5 3) (demo_gather 2)
     = (g', Some x)"
  proof -
    let ?cfg = "demo_cfg\<lparr> gc_weights := demo_weights\<lparr> pw_rows := 0 \<rparr> \<rparr>" and ?g = "demo_gather 2"
    obtain g' e where r: "qwen4exp_ple_gather ?cfg (replicate 5 3) ?g = (g', e)" by fastforce
    obtain s es where s: "qwen4exp_ple_gather (?cfg\<lparr> gc_nthreads := 1 \<rparr>) (replicate 5 3) (?g\<lparr> gs_snapshot_rows := 0 \<rparr>) = (s, es)"
      by fastforce
    have t: "table_ok (gc_weights ?cfg)" "0 < gc_pool_threads ?cfg"
      by (simp_all add: table_ok_def demo_cfg_def demo_weights_def)
    have k: "(5 :: nat) \<le> 100" by simp
    note q = ple_gather_exact [OF demo_gather_wf t n [OF k] r s]
    have "gather_constants (gs_constants ?g)" using demo_gather_wf [of 2] by (simp add: gather_wf_def)
    then have "length (tok_ids ?g (replicate 5 3) 0) = 16" by (rule length_tok_ids)
    then have "\<not> in_table (gc_weights ?cfg) ?g (replicate 5 3) 0"
      by (cases "tok_ids ?g (replicate 5 3) 0") (simp_all add: in_table_def)
    then have "e \<noteq> None" using conjunct1 [OF q] by fastforce
    then show ?thesis using r by blast
  qed
  have k: "(64 :: nat) \<le> 100" "(5 :: nat) \<le> 100" "(63 :: nat) < 64" "(1 :: nat) < 6" "(2 :: nat) < 6"
    "(1 :: nat) < 5 \<and> (1 :: nat) < 2" "\<not> ((2 :: nat) < 5 \<and> (2 :: nat) < 2)" "Suc 1 = 2" by simp_all
  obtain g1 where g1: "qwen4exp_ple_gather demo_cfg (replicate 64 3) (demo_gather 0) = (g1, None)"
    "\<forall>t < 64. gs_ids g1 ! t = tok_ids (demo_gather 0) (replicate 64 3) t"
    using run [OF k(1), of 0] by (elim exE conjE)
  obtain g2 where g2: "qwen4exp_ple_gather demo_cfg (replicate 5 3) (demo_gather 2) = (g2, None)"
    "\<forall>u < 6. gs_history_rows g2 ! u =
       (if u < 5 \<and> u < 2 then hist_at (demo_gather 2) (replicate 5 3) (Suc u) else replicate 8 0)"
    using run [OF k(2), of 2] by (elim exE conjE)
  have "gs_history_rows g2 ! 1 = hist_at (demo_gather 2) (replicate 5 3) 2"
    using g2(2) [rule_format, OF k(4)] unfolding if_P [OF k(6)] k(8) .
  moreover have "gs_history_rows g2 ! 2 = replicate 8 0"
    using g2(2) [rule_format, OF k(5)] unfolding if_not_P [OF k(7)] .
  ultimately show ?thesis
    using g1(1) g1(2) [rule_format, OF k(3)] g2(1) bad by blast
qed

text \<open>
  Property C12. The thread pool is safe for every schedule, spurious wake-ups included: at most one
  thread is inside the mutex, no worker is in a segment outside an open round (so the rows the
  caller reads after the wait are no longer written), the calls that have returned are those a
  serial scan would have returned, row for row, and at the end all of them are and every worker
  has left.\<close>

theorem ple_pool_serial:
  assumes "table_ok (gc_weights cfg)" "0 < gc_pool_threads cfg" "gather_wf g" "calls_fit g calls" "length calls + 1 < 2 ^ 32"
    and p: "p = pool_run cfg es (qw_ple_pool_init g calls)"
  shows "(\<forall>i j. is_worker cfg i \<and> is_worker cfg j \<and> w_locked (w_pc p i) \<and> w_locked (w_pc p j) \<longrightarrow> i = j)
    \<and> (\<forall>i. is_worker cfg i \<and> w_locked (w_pc p i) \<longrightarrow> \<not> m_locked (m_pc p))
    \<and> (\<forall>i. is_worker cfg i \<and> w_busy (w_pc p i) \<longrightarrow> m_open (m_pc p))
    \<and> (\<exists>rest. m_results p @ rest = serial_calls cfg g calls)
    \<and> (m_pc p = M_End \<longrightarrow> m_results p = serial_calls cfg g calls \<and> (\<forall>i. is_worker cfg i \<longrightarrow> w_pc p i = W_Exit))"
proof -
  have inv: "pool_inv cfg (serial_calls cfg g calls) p"
    unfolding p by (intro pool_inv_run pool_inv_init assms)
  then have l: "lock_inv cfg p" and r: "round_inv cfg p" and x: "exit_inv cfg p" and d: "data_inv cfg (serial_calls cfg g calls) p"
    by (simp_all add: pool_inv_def)
  have "\<exists>rest. m_results p @ rest = serial_calls cfg g calls" using d by (auto simp: data_inv_def split: if_splits)
  moreover have "m_results p = serial_calls cfg g calls" if "m_pc p = M_End" using d that by (auto simp: data_inv_def)
  moreover have "i = j" if "is_worker cfg i" "is_worker cfg j" "w_locked (w_pc p i)" "w_locked (w_pc p j)" for i j
    using l that unfolding lock_inv_def by (metis option.inject)
  moreover have "\<not> m_locked (m_pc p)" if "is_worker cfg i" "w_locked (w_pc p i)" for i
    using l that unfolding lock_inv_def is_worker_def by (metis not_one_le_zero option.inject)
  moreover have "m_open (m_pc p)" if "is_worker cfg i" "w_busy (w_pc p i)" for i using round_invD(4) [OF r that] by blast
  moreover have "w_pc p i = W_Exit" if "is_worker cfg i" "m_pc p = M_End" for i using x that by (simp add: exit_inv_def)
  ultimately show ?thesis by blast
qed

theorem ple_pool_serial_witness:
  "\<exists>rest. m_results (pool_run demo_cfg [Main, Worker 1, Main, Worker 1, Wake 1] (qw_ple_pool_init (demo_gather 0) [replicate 64 3])) @ rest
      = serial_calls demo_cfg (demo_gather 0) [replicate 64 3]"
proof -
  have f: "calls_fit (demo_gather 0) [replicate 64 3]" by (rule demo_fit) simp
  show ?thesis using ple_pool_serial [OF demo_table_ok demo_gather_wf f _ refl] by simp
qed

text \<open>
  Property C13. Every fair schedule ends: if every thread runs again and again and only finitely
  many wake-ups are spurious, the caller returns from every call, shuts the pool down and joins
  every worker, with the results of the serial scan. No wake-up is lost and no thread waits for
  ever.\<close>

theorem ple_pool_ends:
  assumes "table_ok (gc_weights cfg)" "0 < gc_pool_threads cfg" "gather_wf g" "calls_fit g calls" "length calls + 1 < 2 ^ 32"
    and quiet: "\<forall>n \<ge> N. \<not> spurious (sched n)"
    and fair: "\<And>e n. pool_thread cfg e \<Longrightarrow> \<exists>m \<ge> n. sched m = e"
  shows "\<exists>n. let p = pool_run cfg (map sched [0..<n]) (qw_ple_pool_init g calls) in
      m_pc p = M_End \<and> m_results p = serial_calls cfg g calls \<and> (\<forall>i. is_worker cfg i \<longrightarrow> w_pc p i = W_Exit)"
proof -
  let ?p = "\<lambda>n. pool_run cfg (map sched [0..<n]) (qw_ple_pool_init g calls)"
  have inv: "pool_inv cfg (serial_calls cfg g calls) (qw_ple_pool_init g calls)" by (intro pool_inv_init assms)
  obtain n where n: "m_pc (?p n) = M_End"
    using fair_ends [OF inv assms(1,2) quiet fair order_refl] by blast
  have "pool_inv cfg (serial_calls cfg g calls) (?p n)" by (rule pool_inv_run [OF inv assms(1,2)])
  then have "m_results (?p n) = serial_calls cfg g calls" "\<forall>i. is_worker cfg i \<longrightarrow> w_pc (?p n) i = W_Exit"
    using n by (auto simp: pool_inv_def data_inv_def exit_inv_def)
  then show ?thesis using n by (intro exI [of _ n]) (simp add: Let_def)
qed

theorem ple_pool_ends_witness:
  "uses_pool demo_cfg (replicate 64 3) (demo_gather 0)
   \<and> (\<exists>n. m_results (pool_run demo_cfg (map round_robin [0..<n]) (qw_ple_pool_init (demo_gather 0) [replicate 64 3]))
        = serial_calls demo_cfg (demo_gather 0) [replicate 64 3])"
proof -
  have q: "\<forall>n \<ge> 0. \<not> spurious (round_robin n)" by (simp add: round_robin_def)
  have f: "calls_fit (demo_gather 0) [replicate 64 3]" by (rule demo_fit) simp
  show ?thesis
    using demo_uses_pool ple_pool_ends [OF demo_table_ok demo_gather_wf f _ q round_robin_fair] by (auto simp: Let_def)
qed

end
