(* ===== verification/Sample_Argmax.thy ===== *)
theory Sample_Argmax
  imports Mtp_Wf
begin

text \<open>
  The session's greedy pick and its list of best logits (\<open>ds4.c\<close>): the scan unrolled over eight
  lanes (\<open>argmax_f32_unrolled8_range\<close>), its variant that leaves one token out, and the insertion
  of \<open>ds4_session_top_logprobs\<close>. The unrolled scan is shown to be the plain one, and the plain one
  to be the argmax of the speculative cycle, so that serial and speculative decoding pick alike.
\<close>

subsection \<open>Scans\<close>

definition DS4_NEG_INF :: f32 where "DS4_NEG_INF = F32 (- 1000000015047466219876688855040)"

primrec argmax_scan :: "nat \<Rightarrow> nat \<times> f32 \<Rightarrow> f32 list \<Rightarrow> nat \<times> f32" where
  "argmax_scan i p [] = p"
| "argmax_scan i p (v # vs) = argmax_scan (Suc i) (if f32_gt v (snd p) then (i, v) else p) vs"

definition argmax_lane :: "nat \<Rightarrow> f32 \<Rightarrow> nat \<times> f32 \<Rightarrow> nat \<times> f32" where
  "argmax_lane i x p = (if f32_gt x (snd p) then (i, x) else p)"

definition argmax_lanes :: "f32 list \<Rightarrow> nat \<Rightarrow> (nat \<times> f32) list \<Rightarrow> (nat \<times> f32) list" where
  "argmax_lanes logits i lanes = map (\<lambda>k. argmax_lane (i + k) (logits ! (i + k)) (lanes ! k)) [0..<8]"

function argmax_blocks :: "f32 list \<Rightarrow> nat \<Rightarrow> nat \<Rightarrow> (nat \<times> f32) list \<Rightarrow> nat \<times> (nat \<times> f32) list" where
  "argmax_blocks logits stop i lanes =
     (if stop - i \<ge> 8 then argmax_blocks logits stop (i + 8) (argmax_lanes logits i lanes) else (i, lanes))"
  by pat_completeness auto

termination argmax_blocks by (relation "measure (\<lambda>(logits, stop, i, lanes). stop - i)") auto

declare argmax_blocks.simps [simp del]

definition argmax_merge :: "nat \<times> f32 \<Rightarrow> nat \<times> f32 \<Rightarrow> nat \<times> f32" where
  "argmax_merge best lane =
     (if f32_gt (snd lane) (snd best) \<or> (f32_eq (snd lane) (snd best) \<and> fst lane < fst best) then lane else best)"

text \<open>\<open>argmax_f32_unrolled8_range\<close>; every caller has \<open>begin \<le> end\<close>, so the difference does not wrap.\<close>

definition argmax_unrolled8_range :: "f32 list \<Rightarrow> nat \<Rightarrow> nat \<Rightarrow> nat \<times> f32 \<Rightarrow> nat \<times> f32" where
  "argmax_unrolled8_range logits start stop best =
     (case argmax_blocks logits stop start (replicate 8 best) of
        (i, lanes) \<Rightarrow> argmax_scan i (foldl argmax_merge best lanes) (drop i (take stop logits)))"

definition sample_argmax_unrolled8 :: "f32 list \<Rightarrow> nat \<Rightarrow> nat" where
  "sample_argmax_unrolled8 logits nv = fst (argmax_unrolled8_range logits 0 nv (0, DS4_NEG_INF))"

text \<open>\<open>sample_argmax\<close>; \<open>plain\<close> is whether \<open>DS4_CPU_DISABLE_UNROLLED_ARGMAX\<close> is set.\<close>

definition sample_argmax :: "bool \<Rightarrow> f32 list \<Rightarrow> nat \<Rightarrow> nat" where
  "sample_argmax plain logits nv =
     (if \<not> plain then sample_argmax_unrolled8 logits nv
      else fst (argmax_scan 0 (0, DS4_NEG_INF) (take nv logits)))"

definition argmax_excluding_unrolled8 :: "f32 list \<Rightarrow> nat \<Rightarrow> int \<Rightarrow> int" where
  "argmax_excluding_unrolled8 logits n excluded =
     (let first = (if excluded = 0 then 1 else 0) in
      if first \<ge> n then -1
      else
        let best = (first, logits ! first); start = first + 1 in
        if excluded \<ge> 0 \<and> nat excluded \<ge> start \<and> nat excluded < n then
          int (fst (argmax_unrolled8_range logits (nat excluded + 1) n
                 (argmax_unrolled8_range logits start (nat excluded) best)))
        else int (fst (argmax_unrolled8_range logits start n best)))"

subsection \<open>The best of a set of positions\<close>

text \<open>
  \<open>q\<close> is the best of the positions \<open>A\<close> over the start \<open>p\<close>: the start when nothing exceeds it,
  otherwise the lowest position of the greatest value. A NaN never exceeds anything.
\<close>

definition best_in :: "(nat \<Rightarrow> f32) \<Rightarrow> nat set \<Rightarrow> nat \<times> f32 \<Rightarrow> nat \<times> f32 \<Rightarrow> bool" where
  "best_in L A p q \<longleftrightarrow>
     (q = p \<and> (\<forall>a \<in> A. \<not> f32_lt (snd p) (L a)))
   \<or> (fst q \<in> A \<and> snd q = L (fst q) \<and> f32_lt (snd p) (snd q)
      \<and> (\<forall>a \<in> A. \<not> f32_lt (snd q) (L a) \<and> (a < fst q \<longrightarrow> \<not> f32_eq (L a) (snd q))))"

lemma f32_lt_cases: "a \<noteq> F32_NaN \<Longrightarrow> b \<noteq> F32_NaN \<Longrightarrow> f32_lt a b \<or> f32_eq a b \<or> f32_lt b a"
  by (cases a; cases b) auto

lemma f32_lt_not_nan: "f32_lt a b \<Longrightarrow> a \<noteq> F32_NaN \<and> b \<noteq> F32_NaN"
  by (cases a; cases b) auto

lemma f32_eq_eq: "f32_eq a b \<longleftrightarrow> a = b \<and> a \<noteq> F32_NaN"
  by (cases a; cases b) auto

lemma best_in_empty: "best_in L {} p p"
  by (simp add: best_in_def)

lemma best_in_unique: "best_in L A p q \<Longrightarrow> best_in L A p r \<Longrightarrow> q = r"
proof -
  assume q: "best_in L A p q" and r: "best_in L A p r"
  have "fst q = fst r \<and> snd q = snd r" if "fst q \<in> A" "fst r \<in> A" "snd q = L (fst q)" "snd r = L (fst r)"
    "f32_lt (snd p) (snd q)" "f32_lt (snd p) (snd r)"
    and q': "\<forall>a \<in> A. \<not> f32_lt (snd q) (L a) \<and> (a < fst q \<longrightarrow> \<not> f32_eq (L a) (snd q))"
    and r': "\<forall>a \<in> A. \<not> f32_lt (snd r) (L a) \<and> (a < fst r \<longrightarrow> \<not> f32_eq (L a) (snd r))"
  proof -
    have "f32_eq (snd q) (snd r)"
      using f32_lt_cases [of "snd q" "snd r"] f32_lt_not_nan that(1-6) q' r' by metis
    then have e: "snd q = snd r" by (simp add: f32_eq_eq)
    moreover have "f32_eq (snd q) (snd q)" using that(5) f32_lt_not_nan by (simp add: f32_eq_eq)
    ultimately have "\<not> fst q < fst r" "\<not> fst r < fst q" using q' r' that(1-4) by metis+
    then show ?thesis using e by simp
  qed
  then show "q = r" using q r unfolding best_in_def by (metis prod.collapse)
qed

lemma best_in_step:
  assumes "best_in L A p q" "\<forall>a \<in> A. a < i"
  shows "best_in L (insert i A) p (argmax_lane i (L i) q)"
proof (cases "f32_lt (snd q) (L i)")
  case True
  then have lt: "f32_lt (snd p) (L i)" using assms(1) f32_lt_trans unfolding best_in_def by metis
  have "\<not> f32_lt (L i) (L a) \<and> \<not> f32_eq (L a) (L i)" if "a \<in> A" for a
  proof -
    have "\<not> f32_lt (snd q) (L a)" using assms(1) that unfolding best_in_def by metis
    then show ?thesis using True f32_lt_trans [of "snd q" "L i" "L a"] f32_eq_eq [of "L a" "L i"] by metis
  qed
  then show ?thesis using True lt by (auto simp: best_in_def argmax_lane_def f32_gt_def)
next
  case False
  then show ?thesis using assms by (auto simp: best_in_def argmax_lane_def f32_gt_def)
qed

lemma best_in_merge:
  assumes q: "best_in L A p q" and r: "best_in L B p r" and nn: "snd p \<noteq> F32_NaN"
  shows "best_in L (A \<union> B) p (argmax_merge q r)"
proof -
  have nq: "snd q \<noteq> F32_NaN" "snd r \<noteq> F32_NaN" using q r nn f32_lt_not_nan unfolding best_in_def by metis+
  have pq: "\<not> f32_lt (snd q) (snd p)" "\<not> f32_lt (snd r) (snd p)"
    using q r f32_lt_trans f32_lt_irrefl unfolding best_in_def by metis+
  have mq: "\<not> f32_lt (snd q) (L a)" if "a \<in> A" for a using q that unfolding best_in_def by metis
  have mr: "\<not> f32_lt (snd r) (L a)" if "a \<in> B" for a using r that unfolding best_in_def by metis
  show ?thesis
  proof (cases "f32_lt (snd q) (snd r) \<or> f32_eq (snd r) (snd q) \<and> fst r < fst q")
    case True
    then have e: "argmax_merge q r = r" by (simp add: argmax_merge_def f32_gt_def)
    have "r \<noteq> p"
    proof
      assume "r = p"
      then have "f32_eq (snd p) (snd q)" "fst p < fst q" using True pq by auto
      then show False using q by (auto simp: best_in_def f32_eq_eq)
    qed
    then have rb: "fst r \<in> B" "snd r = L (fst r)" "f32_lt (snd p) (snd r)"
      "\<forall>a \<in> B. \<not> f32_lt (snd r) (L a) \<and> (a < fst r \<longrightarrow> \<not> f32_eq (L a) (snd r))" using r by (auto simp: best_in_def)
    have "\<not> f32_lt (snd r) (L a) \<and> (a < fst r \<longrightarrow> \<not> f32_eq (L a) (snd r))" if a: "a \<in> A" for a
    proof (cases "f32_lt (snd q) (snd r)")
      case True
      then show ?thesis using mq [OF a] f32_lt_trans f32_eq_eq by metis
    next
      case False
      then have eq: "snd r = snd q" "fst r < fst q" using \<open>f32_lt (snd q) (snd r) \<or> _\<close> by (auto simp: f32_eq_eq)
      have "q = p \<or> (\<forall>a \<in> A. a < fst q \<longrightarrow> \<not> f32_eq (L a) (snd q))" using q by (auto simp: best_in_def)
      moreover have "q \<noteq> p" using rb(3) eq(1) by auto
      ultimately show ?thesis using mq [OF a] eq a by auto
    qed
    then show ?thesis unfolding e using rb by (auto simp: best_in_def)
  next
    case False
    then have e: "argmax_merge q r = q" by (auto simp: argmax_merge_def f32_gt_def)
    have c: "f32_lt (snd r) (snd q) \<or> f32_eq (snd r) (snd q) \<and> fst q \<le> fst r"
      using False f32_lt_cases [OF nq(2,1)] by auto
    have b: "\<not> f32_lt (snd q) (L a)" if "a \<in> B" for a
      using mr [OF that] c f32_lt_trans [of "snd r" "snd q" "L a"] f32_eq_eq [of "snd r" "snd q"] by metis
    have low: "a < fst q \<longrightarrow> \<not> f32_eq (L a) (snd q)" if a: "a \<in> B" "q \<noteq> p" for a
    proof (intro impI notI)
      assume lt: "a < fst q" and eq: "f32_eq (L a) (snd q)"
      then have "\<not> f32_lt (snd r) (snd q)" using mr [OF a(1)] by (auto simp: f32_eq_eq)
      then have rq: "snd r = snd q" "fst q \<le> fst r" using c by (auto simp: f32_eq_eq)
      have "r \<noteq> p" using q a(2) rq(1) by (auto simp: best_in_def)
      then have "\<forall>a \<in> B. a < fst r \<longrightarrow> \<not> f32_eq (L a) (snd r)" using r by (auto simp: best_in_def)
      then show False using a(1) lt eq rq by auto
    qed
    show ?thesis unfolding e using q b low mq by (cases "q = p") (auto simp: best_in_def)
  qed
qed

lemma scan_best_in:
  "best_in L A p q \<Longrightarrow> \<forall>a \<in> A. a < i \<Longrightarrow> (\<And>k. k < length vs \<Longrightarrow> vs ! k = L (i + k)) \<Longrightarrow>
   best_in L (A \<union> {i..<i + length vs}) p (argmax_scan i q vs)"
proof (induction vs arbitrary: i q A)
  case (Cons v vs)
  have v: "v = L i" using Cons.prems(3) [of 0] by simp
  have r: "vs ! k = L (Suc i + k)" if "k < length vs" for k using Cons.prems(3) [of "Suc k"] that by simp
  have "best_in L (insert i A) p (argmax_lane i (L i) q)" by (rule best_in_step [OF Cons.prems(1,2)])
  then have b: "best_in L (insert i A) p (if f32_gt v (snd q) then (i, v) else q)" by (auto simp: argmax_lane_def v)
  have "best_in L (insert i A \<union> {Suc i..<Suc i + length vs}) p (argmax_scan (Suc i) (if f32_gt v (snd q) then (i, v) else q) vs)"
    by (rule Cons.IH [OF b _ r]) (use Cons.prems(2) in auto)
  moreover have "insert i A \<union> {Suc i..<Suc i + length vs} = A \<union> {i..<i + length (v # vs)}" by auto
  ultimately show ?case by simp
qed simp

definition lane_set :: "nat \<Rightarrow> nat \<Rightarrow> nat \<Rightarrow> nat set" where
  "lane_set start i k = {a. start \<le> a \<and> a < i \<and> (a - start) mod 8 = k}"

lemma lane_set_step:
  assumes "start \<le> i" "(i - start) mod 8 = 0" "k < 8"
  shows "lane_set start (i + 8) k = insert (i + k) (lane_set start i k)"
proof -
  have "(a - start) mod 8 = a - i" if "i \<le> a" "a < i + 8" for a
  proof -
    have "a - start = (i - start) + (a - i)" using assms(1) that(1) by simp
    then have "(a - start) mod 8 = (a - i) mod 8" using assms(2) by (metis mod_add_left_eq add_0)
    then show ?thesis using that by simp
  qed
  then show ?thesis using assms unfolding lane_set_def by (auto simp: not_less) (metis add_diff_inverse_nat linorder_not_le)+
qed

lemma blocks_best_in:
  assumes "argmax_blocks logits stop i lanes = (j, lanes')" "start \<le> i" "i \<le> stop" "(i - start) mod 8 = 0"
    "length lanes = 8" "\<forall>k < 8. best_in L (lane_set start i k) p (lanes ! k)"
    "\<forall>a. logits ! a = L a"
  shows "i \<le> j \<and> j \<le> stop \<and> length lanes' = 8 \<and> (\<forall>k < 8. best_in L (lane_set start j k) p (lanes' ! k))"
  using assms
proof (induction logits stop i lanes rule: argmax_blocks.induct)
  case (1 logits stop i lanes)
  show ?case
  proof (cases "stop - i \<ge> 8")
    case True
    have r: "argmax_blocks logits stop (i + 8) (argmax_lanes logits i lanes) = (j, lanes')"
      using "1.prems"(1) True by (simp add: argmax_blocks.simps [of logits stop i])
    have "best_in L (lane_set start (i + 8) k) p (argmax_lanes logits i lanes ! k)" if k: "k < 8" for k
    proof -
      have "best_in L (insert (i + k) (lane_set start i k)) p (argmax_lane (i + k) (L (i + k)) (lanes ! k))"
        using "1.prems"(6) k by (intro best_in_step) (auto simp: lane_set_def)
      then show ?thesis using k "1.prems"(7) lane_set_step [OF "1.prems"(2,4) k] by (simp add: argmax_lanes_def)
    qed
    moreover have "(i + 8 - start) mod 8 = 0" using "1.prems"(2,4) by presburger
    moreover have "i + 8 \<le> stop" using True by simp
    ultimately show ?thesis using "1.IH" [OF True r] "1.prems" by (simp add: argmax_lanes_def)
  next
    case False
    then show ?thesis using "1.prems" by (simp add: argmax_blocks.simps [of logits stop i])
  qed
qed

lemma foldl_merge_best_in:
  "snd p \<noteq> F32_NaN \<Longrightarrow> best_in L A p q \<Longrightarrow> \<forall>k < length ls. best_in L (f k) p (ls ! k) \<Longrightarrow>
   best_in L (A \<union> (\<Union>k < length ls. f k)) p (foldl argmax_merge q ls)"
proof (induction ls arbitrary: A q f)
  case (Cons l ls)
  have "best_in L (A \<union> f 0) p (argmax_merge q l)"
    using best_in_merge [OF Cons.prems(2) _ Cons.prems(1)] Cons.prems(3) by (metis length_Cons nth_Cons_0 zero_less_Suc)
  moreover have "\<forall>k < length ls. best_in L (f (Suc k)) p (ls ! k)" using Cons.prems(3) by (metis Suc_less_eq length_Cons nth_Cons_Suc)
  ultimately have "best_in L (A \<union> f 0 \<union> (\<Union>k < length ls. f (Suc k))) p (foldl argmax_merge (argmax_merge q l) ls)"
    using Cons.IH [OF Cons.prems(1), of "A \<union> f 0"] by simp
  moreover have "A \<union> f 0 \<union> (\<Union>k < length ls. f (Suc k)) = A \<union> (\<Union>k < length (l # ls). f k)"
    by (auto simp: lessThan_Suc_eq_insert_0)
  ultimately show ?case by simp
qed simp

text \<open>The unrolled range is the plain scan.\<close>

lemma unrolled8_range_scan:
  assumes nn: "snd best \<noteq> F32_NaN" and le: "start \<le> stop" "stop \<le> length logits"
  shows "argmax_unrolled8_range logits start stop best = argmax_scan start best (drop start (take stop logits))"
proof -
  let ?L = "(!) logits"
  obtain j lanes where b: "argmax_blocks logits stop start (replicate 8 best) = (j, lanes)"
    by (cases "argmax_blocks logits stop start (replicate 8 best)")
  have start: "\<forall>k < 8. best_in ?L (lane_set start start k) best (replicate 8 best ! k)"
    by (auto simp: lane_set_def best_in_def)
  have bl: "start \<le> j" "j \<le> stop" "length lanes = 8" "\<forall>k < 8. best_in ?L (lane_set start j k) best (lanes ! k)"
    using blocks_best_in [OF b order.refl le(1) _ _ start] by auto
  have "best_in ?L ({} \<union> (\<Union>k < length lanes. lane_set start j k)) best (foldl argmax_merge best lanes)"
    by (rule foldl_merge_best_in [OF nn best_in_empty]) (use bl in auto)
  moreover have "(\<Union>k < length lanes. lane_set start j k) = {start..<j}" unfolding bl(3) by (auto simp: lane_set_def)
  ultimately have m: "best_in ?L {start..<j} best (foldl argmax_merge best lanes)" by simp
  have "best_in ?L ({start..<j} \<union> {j..<j + length (drop j (take stop logits))}) best
      (argmax_scan j (foldl argmax_merge best lanes) (drop j (take stop logits)))"
    by (rule scan_best_in [OF m]) (use bl le in auto)
  moreover have "{start..<j} \<union> {j..<j + length (drop j (take stop logits))} = {start..<stop}" using bl le by auto
  moreover have "best_in ?L ({} \<union> {start..<start + length (drop start (take stop logits))}) best
      (argmax_scan start best (drop start (take stop logits)))"
    by (rule scan_best_in [OF best_in_empty]) (use le in auto)
  ultimately show ?thesis
    using b le best_in_unique by (simp add: argmax_unrolled8_range_def)
qed

lemma scan_argmax_from: "fst (argmax_scan i p vs) = argmax_from i (fst p) (snd p) vs"
  by (induction vs arbitrary: i p) simp_all

text \<open>
  From the session's floor or from the first logit: the same pick, unless the first logit is a
  NaN or none is above the floor.
\<close>

lemma scan_start:
  assumes "vs ! 0 \<noteq> F32_NaN" "\<exists>k < length vs. f32_lt DS4_NEG_INF (vs ! k)"
  shows "fst (argmax_scan 0 (0, DS4_NEG_INF) vs) = argmax_from 1 0 (vs ! 0) (drop 1 vs)"
proof -
  let ?p = "(0, DS4_NEG_INF)" and ?q = "(0, vs ! 0)" and ?L = "(!) vs"
  have "best_in ?L ({} \<union> {0..<0 + length vs}) ?p (argmax_scan 0 ?p vs)"
    by (rule scan_best_in [OF best_in_empty]) simp_all
  then have p: "best_in ?L {0..<length vs} ?p (argmax_scan 0 ?p vs)" by simp
  have "best_in ?L ({} \<union> {1..<1 + length (drop 1 vs)}) ?q (argmax_scan 1 ?q (drop 1 vs))"
    by (rule scan_best_in [OF best_in_empty]) (use assms(2) in auto)
  then have q: "best_in ?L {1..<length vs} ?q (argmax_scan 1 ?q (drop 1 vs))" using assms(2) by (cases vs) auto
  define r where "r = argmax_scan 1 ?q (drop 1 vs)"
  obtain k where k: "k < length vs" "f32_lt DS4_NEG_INF (vs ! k)" using assms(2) by blast
  have max: "\<not> f32_lt (snd r) (vs ! a)" if "a < length vs" for a
  proof (cases "a = 0")
    case True
    then show ?thesis using q f32_lt_trans [of "vs ! 0" "snd r" "vs ! 0"] unfolding r_def [symmetric] best_in_def
      by (metis f32_lt_irrefl snd_conv)
  next
    case False
    then show ?thesis using q that unfolding r_def [symmetric] best_in_def by (auto simp: not_le)
  qed
  have nn: "snd r \<noteq> F32_NaN" using q assms(1) f32_lt_not_nan unfolding r_def [symmetric] best_in_def by (metis snd_conv)
  have floor: "f32_lt DS4_NEG_INF (snd r)"
    using max [OF k(1)] k(2) f32_lt_cases [of "snd r" "vs ! k"] f32_lt_trans f32_lt_not_nan nn f32_eq_eq by metis
  have at: "fst r < length vs" "snd r = vs ! fst r" using q k(1) unfolding r_def [symmetric] best_in_def by auto
  have low: "\<not> f32_eq (vs ! a) (snd r)" if "a < fst r" for a
  proof -
    have "r \<noteq> ?q" using that by auto
    then have r1: "f32_lt (vs ! 0) (snd r)" "\<forall>a \<in> {1..<length vs}. a < fst r \<longrightarrow> \<not> f32_eq (vs ! a) (snd r)"
      using q unfolding r_def [symmetric] best_in_def by auto
    show ?thesis
    proof (cases "a = 0")
      case True
      then show ?thesis using r1(1) by (auto simp: f32_eq_eq)
    next
      case False
      then show ?thesis using r1(2) that at(1) by auto
    qed
  qed
  have "best_in ?L {0..<length vs} ?p r" unfolding best_in_def using at floor max low by auto
  then have "argmax_scan 0 ?p vs = r" using p best_in_unique by blast
  then show ?thesis unfolding r_def by (simp add: scan_argmax_from)
qed

text \<open>Logits on which the session's pick is that of the cycle.\<close>

definition pickable :: "f32 list \<Rightarrow> nat \<Rightarrow> bool" where
  "pickable l nv \<longleftrightarrow> nv \<le> length l \<and> l ! 0 \<noteq> F32_NaN \<and> (\<exists>k < nv. f32_lt DS4_NEG_INF (l ! k))"

lemma sample_argmax_plain: "nv \<le> length l \<Longrightarrow> sample_argmax plain l nv = fst (argmax_scan 0 (0, DS4_NEG_INF) (take nv l))"
  using unrolled8_range_scan [of "(0, DS4_NEG_INF)" 0 nv l]
  by (simp add: sample_argmax_def sample_argmax_unrolled8_def DS4_NEG_INF_def)

lemma sample_argmax_cycle:
  assumes "pickable l nv"
  shows "int (sample_argmax plain l nv) = mtp_argmax l nv"
proof -
  obtain k where k: "k < nv" "f32_lt DS4_NEG_INF (l ! k)" using assms by (auto simp: pickable_def)
  have "fst (argmax_scan 0 (0, DS4_NEG_INF) (take nv l)) = argmax_from 1 0 (take nv l ! 0) (drop 1 (take nv l))"
    using assms k by (intro scan_start) (auto simp: pickable_def intro!: exI [of _ k])
  then show ?thesis using assms k sample_argmax_plain [of nv l plain] by (simp add: pickable_def mtp_argmax_def)
qed

subsection \<open>The best logits\<close>

text \<open>
  \<open>ds4_session_top_logprobs\<close> without the log-probabilities: \<open>out\<close> holds \<open>k\<close> scores, identifiers
  \<open>-1\<close> where none was placed yet. Placing shifts the rest and drops the last.
\<close>

type_synonym token_score = "int \<times> f32"

fun f32_isfinite :: "f32 \<Rightarrow> bool" where
  "f32_isfinite (F32 _) = True"
| "f32_isfinite _ = False"

primrec top_place :: "int \<Rightarrow> f32 \<Rightarrow> token_score list \<Rightarrow> token_score list" where
  "top_place i v [] = []"
| "top_place i v (x # xs) =
     (if fst x < 0 \<or> f32_gt v (snd x) then (i, v) # butlast (x # xs) else x # top_place i v xs)"

primrec top_scan :: "nat \<Rightarrow> f32 list \<Rightarrow> token_score list \<Rightarrow> token_score list" where
  "top_scan i [] out = out"
| "top_scan i (v # vs) out = top_scan (Suc i) vs (if f32_isfinite v then top_place (int i) v out else out)"

text \<open>The greatest finite logit over the floor, whose finiteness the code tests afterwards.\<close>

definition max_logit :: "f32 list \<Rightarrow> f32" where
  "max_logit vs = foldl (\<lambda>m v. if f32_isfinite v \<and> f32_gt v m then v else m) DS4_NEG_INF vs"

definition session_top_logprobs :: "f32 list \<Rightarrow> nat \<Rightarrow> int \<Rightarrow> token_score list" where
  "session_top_logprobs logits nv k =
     (if k \<le> 0 then []
      else
        let kk = min (nat k) nv; out = top_scan 0 (take nv logits) (replicate kk (-1, DS4_NEG_INF))
        in if \<not> f32_isfinite (max_logit (take nv logits)) then [] else out)"

lemma max_logit_finite: "f32_isfinite (max_logit vs)"
proof -
  have "f32_isfinite m \<Longrightarrow> f32_isfinite (foldl (\<lambda>m v. if f32_isfinite v \<and> f32_gt v m then v else m) m vs)" for m
    by (induction vs arbitrary: m) auto
  then show ?thesis by (simp add: max_logit_def DS4_NEG_INF_def)
qed

lemma top_place_split:
  "top_place i v out = take (length out)
     (takeWhile (\<lambda>x. \<not> (fst x < 0 \<or> f32_gt v (snd x))) out @ (i, v) # dropWhile (\<lambda>x. \<not> (fst x < 0 \<or> f32_gt v (snd x))) out)"
proof (induction out)
  case (Cons x xs)
  then show ?case by (cases "fst x < 0 \<or> f32_gt v (snd x)") (auto simp: butlast_conv_take take_Cons')
qed simp

definition better :: "f32 list \<Rightarrow> nat \<Rightarrow> nat \<Rightarrow> bool" where
  "better L a b \<longleftrightarrow> f32_gt (L ! a) (L ! b) \<or> (L ! a = L ! b \<and> a < b)"

definition top_k :: "f32 list \<Rightarrow> nat set \<Rightarrow> nat \<Rightarrow> nat list \<Rightarrow> bool" where
  "top_k L F k T \<longleftrightarrow> sorted_wrt (better L) T \<and> set T \<subseteq> F \<and> length T = min k (card F)
     \<and> (\<forall>a \<in> F - set T. \<forall>b \<in> set T. better L b a)"

definition finite_below :: "f32 list \<Rightarrow> nat \<Rightarrow> nat set" where
  "finite_below L n = {a. a < n \<and> f32_isfinite (L ! a)}"

lemma finite_finite_below [simp]: "finite (finite_below L n)"
  by (simp add: finite_below_def)

lemma isfinite_iff: "f32_isfinite v \<longleftrightarrow> (\<exists>r. v = F32 r)"
  by (cases v) auto

lemma better_trans: "better L a b \<Longrightarrow> better L b c \<Longrightarrow> better L a c"
  unfolding better_def f32_gt_def by (metis f32_lt_trans order.strict_trans)

lemma top_k_distinct: "sorted_wrt (better L) T \<Longrightarrow> distinct T"
  by (induction T) (auto simp: better_def f32_gt_def)

lemma top_k_insert:
  assumes T: "top_k L F k T" and F: "finite F" "\<forall>a \<in> F. a < i \<and> f32_isfinite (L ! a)" and i: "f32_isfinite (L ! i)"
  defines "A \<equiv> takeWhile (\<lambda>x. \<not> f32_gt (L ! i) (L ! x)) T"
  defines "B \<equiv> dropWhile (\<lambda>x. \<not> f32_gt (L ! i) (L ! x)) T"
  shows "top_k L (insert i F) k (take k (A @ i # B))"
proof -
  have AB: "T = A @ B" by (simp add: A_def B_def)
  have s: "sorted_wrt (better L) (A @ B)" "set A \<subseteq> F" "set B \<subseteq> F" using T AB by (auto simp: top_k_def)
  have iF: "i \<notin> F" using F(2) by auto
  have a: "better L x i" if "x \<in> set A" for x
  proof -
    have "\<not> f32_gt (L ! i) (L ! x)" using that unfolding A_def by (metis set_takeWhileD)
    moreover have "f32_isfinite (L ! x)" "x < i" using F(2) s(2) that by auto
    ultimately show ?thesis using i by (cases "L ! i"; cases "L ! x") (auto simp: better_def f32_gt_def)
  qed
  have b: "better L i x" if "x \<in> set B" for x
  proof (cases B)
    case (Cons y ys)
    then have y: "f32_gt (L ! i) (L ! y)" using hd_dropWhile [of "\<lambda>x. \<not> f32_gt (L ! i) (L ! x)" T] unfolding B_def [symmetric] by simp
    then have "better L i y" by (simp add: better_def)
    moreover have "x = y \<or> better L y x" using s(1) that Cons by (auto simp: sorted_wrt_append)
    ultimately show ?thesis using better_trans by blast
  qed (use that in simp)
  have srt: "sorted_wrt (better L) (A @ i # B)" using s(1) a b by (auto simp: sorted_wrt_append)
  have len: "length (A @ i # B) = Suc (length T)" by (simp add: AB)
  show ?thesis unfolding top_k_def
  proof (intro conjI ballI)
    show "sorted_wrt (better L) (take k (A @ i # B))" by (rule sorted_wrt_take [OF srt])
    have "set (take k (A @ i # B)) \<subseteq> set (A @ i # B)" by (rule set_take_subset)
    then show "set (take k (A @ i # B)) \<subseteq> insert i F" using s by auto
    show "length (take k (A @ i # B)) = min k (card (insert i F))"
      using T iF F(1) len by (auto simp: top_k_def min_def)
    fix x y assume x: "x \<in> insert i F - set (take k (A @ i # B))" and y: "y \<in> set (take k (A @ i # B))"
    show "better L y x"
    proof (cases "x \<in> set (A @ i # B)")
      case True
      have sp: "A @ i # B = take k (A @ i # B) @ drop k (A @ i # B)" by (rule append_take_drop_id [symmetric])
      then have "x \<in> set (drop k (A @ i # B))" using True x by (metis DiffD2 Un_iff set_append)
      then show ?thesis using srt y sp by (metis sorted_wrt_append)
    next
      case False
      then have xF: "x \<in> F - set T" using x AB by auto
      then have "set T \<noteq> F" by blast
      then have "length T = k"
        using T F(1) top_k_distinct [of L T] distinct_card [of T] card_subset_eq [OF F(1), of "set T"]
        by (auto simp: top_k_def min_def split: if_splits)
      have w: "better L z x" if "z \<in> set T" for z using T xF that by (auto simp: top_k_def)
      show ?thesis
      proof (cases "y = i")
        case True
        have "B \<noteq> []"
        proof
          assume "B = []"
          then have "take k (A @ i # B) = T" using \<open>length T = k\<close> AB by simp
          then show False using y True T iF by (auto simp: top_k_def)
        qed
        then obtain z where "z \<in> set B" by (cases B) auto
        then have "better L i z" "better L z x" using b w [of z] AB by auto
        then show ?thesis using better_trans True by blast
      next
        case False
        then have "y \<in> set T" using in_set_takeD [OF y] AB by auto
        then show ?thesis by (rule w)
      qed
    qed
  qed
qed

definition as_scores :: "f32 list \<Rightarrow> nat \<Rightarrow> nat list \<Rightarrow> token_score list" where
  "as_scores L k T = map (\<lambda>a. (int a, L ! a)) T @ replicate (k - length T) (-1, DS4_NEG_INF)"

lemma while_tail:
  "takeWhile P ys = [] \<Longrightarrow> dropWhile P ys = ys \<Longrightarrow>
   takeWhile P (xs @ ys) = takeWhile P xs \<and> dropWhile P (xs @ ys) = dropWhile P xs @ ys"
  by (induction xs) simp_all

lemma take_scores:
  assumes "length X = Suc n" "n \<le> k"
  shows "take k (map g X @ replicate (k - n) e) = map g (take k X) @ replicate (k - length (take k X)) e"
proof -
  have "take k (map g X @ replicate (k - n) e) = map g (take k X) @ replicate (k - Suc n) e"
    using assms by (simp add: take_map min_def)
  then show ?thesis using assms by (simp add: min_def)
qed

lemma top_place_scores:
  assumes "length T \<le> k"
  shows "top_place (int i) (L ! i) (as_scores L k T) = as_scores L k
    (take k (takeWhile (\<lambda>x. \<not> f32_gt (L ! i) (L ! x)) T @ i # dropWhile (\<lambda>x. \<not> f32_gt (L ! i) (L ! x)) T))"
proof -
  let ?P = "\<lambda>x :: token_score. \<not> (fst x < 0 \<or> f32_gt (L ! i) (snd x))" and ?g = "\<lambda>a. (int a, L ! a)"
  let ?A = "takeWhile (\<lambda>x. \<not> f32_gt (L ! i) (L ! x)) T" and ?B = "dropWhile (\<lambda>x. \<not> f32_gt (L ! i) (L ! x)) T"
  let ?R = "replicate (k - length T) (-1 :: int, DS4_NEG_INF)"
  have c: "?P \<circ> ?g = (\<lambda>x. \<not> f32_gt (L ! i) (L ! x))" by (auto simp: fun_eq_iff)
  have R: "takeWhile ?P ?R = []" "dropWhile ?P ?R = ?R" by (cases "k - length T"; simp)+
  have tw: "takeWhile ?P (map ?g T @ ?R) = map ?g ?A" "dropWhile ?P (map ?g T @ ?R) = map ?g ?B @ ?R"
  proof -
    have t: "takeWhile ?P (map ?g T) = map ?g ?A" "dropWhile ?P (map ?g T) = map ?g ?B"
      unfolding takeWhile_map dropWhile_map c by (rule refl)+
    show "takeWhile ?P (map ?g T @ ?R) = map ?g ?A" "dropWhile ?P (map ?g T @ ?R) = map ?g ?B @ ?R"
      using while_tail [OF R, of "map ?g T"] unfolding t by blast+
  qed
  have l: "length T = length ?A + length ?B" by (metis length_append takeWhile_dropWhile_id)
  have len: "length (map ?g T @ ?R) = k" using assms by simp
  have "map ?g ?A @ ?g i # map ?g ?B @ ?R = map ?g (?A @ i # ?B) @ ?R" by simp
  then have "take k (map ?g ?A @ ?g i # map ?g ?B @ ?R) = as_scores L k (take k (?A @ i # ?B))"
    using take_scores [of "?A @ i # ?B" "length T" k ?g "(-1, DS4_NEG_INF)"] l assms unfolding as_scores_def by simp
  then show ?thesis unfolding top_place_split as_scores_def [of L k T] tw len by simp
qed

lemma top_scan_scores:
  "top_k L (finite_below L i) k T \<Longrightarrow> (\<And>m. m < length vs \<Longrightarrow> vs ! m = L ! (i + m)) \<Longrightarrow>
   \<exists>T'. top_scan i vs (as_scores L k T) = as_scores L k T' \<and> top_k L (finite_below L (i + length vs)) k T'"
proof (induction vs arbitrary: i T)
  case (Cons v vs)
  have v: "v = L ! i" using Cons.prems(2) [of 0] by simp
  have r: "vs ! m = L ! (Suc i + m)" if "m < length vs" for m using Cons.prems(2) [of "Suc m"] that by simp
  have l: "length T \<le> k" using Cons.prems(1) by (simp add: top_k_def)
  let ?T = "take k (takeWhile (\<lambda>x. \<not> f32_gt (L ! i) (L ! x)) T @ i # dropWhile (\<lambda>x. \<not> f32_gt (L ! i) (L ! x)) T)"
  show ?case
  proof (cases "f32_isfinite v")
    case True
    have "finite_below L (Suc i) = insert i (finite_below L i)" using True v by (auto simp: finite_below_def less_Suc_eq)
    moreover have "top_k L (insert i (finite_below L i)) k ?T"
      by (rule top_k_insert [OF Cons.prems(1)]) (use True v in \<open>auto simp: finite_below_def\<close>)
    ultimately have "top_k L (finite_below L (Suc i)) k ?T" by simp
    from Cons.IH [OF this r] show ?thesis using True v top_place_scores [OF l, of i L] by simp
  next
    case False
    then have "finite_below L (Suc i) = finite_below L i" using v by (auto simp: finite_below_def less_Suc_eq)
    then show ?thesis using Cons.IH [OF _ r, of T] Cons.prems(1) False by simp
  qed
qed (auto intro: exI [of _ T])

lemma top_logprobs_best:
  assumes "0 < k" "nv \<le> length l"
  shows "\<exists>T. session_top_logprobs l nv k = as_scores l (min (nat k) nv) T \<and> top_k l (finite_below l nv) (min (nat k) nv) T"
proof -
  let ?k = "min (nat k) nv"
  have "top_k l (finite_below l 0) ?k []" by (simp add: top_k_def finite_below_def)
  from top_scan_scores [OF this, of "take nv l"] assms(2)
  obtain T where "top_scan 0 (take nv l) (as_scores l ?k []) = as_scores l ?k T" "top_k l (finite_below l nv) ?k T" by auto
  then show ?thesis using assms(1) max_logit_finite by (auto simp: session_top_logprobs_def as_scores_def Let_def)
qed

subsection \<open>Properties\<close>

text \<open>
  Property C34. The session's greedy pick does not depend on how the scan is unrolled: the eight
  lanes and their merge give the lowest index of the greatest logit exactly as the plain loop
  does, NaNs included, and on logits with any value above the floor and no NaN in front both are
  the argmax of the speculative cycle.\<close>

theorem sample_argmax_exact:
  assumes "nv \<le> length l"
  shows "sample_argmax False l nv = sample_argmax True l nv
    \<and> (l ! 0 \<noteq> F32_NaN \<longrightarrow> (\<exists>k < nv. f32_lt DS4_NEG_INF (l ! k)) \<longrightarrow> int (sample_argmax False l nv) = mtp_argmax l nv)"
  using sample_argmax_plain [OF assms] sample_argmax_cycle [of l nv False] assms by (simp add: pickable_def)

theorem sample_argmax_exact_witness:
  "sample_argmax False (map (\<lambda>k. F32 (rat_of_nat (k mod 7))) [0..<20]) 20
     = sample_argmax True (map (\<lambda>k. F32 (rat_of_nat (k mod 7))) [0..<20]) 20"
  using sample_argmax_exact [of 20 "map (\<lambda>k. F32 (rat_of_nat (k mod 7))) [0..<20]"] by simp

text \<open>
  Property C35. The list of best logits is the list of best logits: sorted, ties by the lower
  token, as many as there are finite logits up to the number asked for, and no finite logit left
  out is better than one listed; the remaining places hold no token.\<close>

theorem session_top_logprobs_best:
  assumes "0 < k" "nv \<le> length l"
  shows "\<exists>T. session_top_logprobs l nv k = map (\<lambda>a. (int a, l ! a)) T @ replicate (min (nat k) nv - length T) (-1, DS4_NEG_INF)
    \<and> sorted_wrt (better l) T \<and> set T \<subseteq> finite_below l nv \<and> length T = min (min (nat k) nv) (card (finite_below l nv))
    \<and> (\<forall>a \<in> finite_below l nv - set T. \<forall>b \<in> set T. better l b a)"
  using top_logprobs_best [OF assms] by (auto simp: top_k_def as_scores_def)

theorem session_top_logprobs_best_witness:
  "\<exists>T. session_top_logprobs [F32 2, F32_NaN, F32 5, F32 5] 4 2 = map (\<lambda>a. (int a, [F32 2, F32_NaN, F32 5, F32 5] ! a)) T
     \<and> length T = 2 \<and> set T \<subseteq> finite_below [F32 2, F32_NaN, F32 5, F32 5] 4"
proof -
  let ?l = "[F32 2, F32_NaN, F32 5, F32 5]"
  have "finite_below ?l 4 = {0, 2, 3}"
    by (auto simp: finite_below_def less_Suc_eq numeral_eq_Suc)
  then have c: "card (finite_below ?l 4) = 3" by simp
  have "0 < (2 :: int)" "4 \<le> length ?l" by simp_all
  from session_top_logprobs_best [OF this] c show ?thesis by auto
qed

end
