(* ===== verification/Resident_Wire.thy ===== *)
theory Resident_Wire
  imports CLib "HOL-Library.Sublist"
begin

text \<open>
  The wire of the resident process, \<open>ds4_resident.c\<close>: the small request parser that scans a line
  for quoted keys, and the pieces its replies are written with. A line is the C string the code
  sees, without its newline and cut at a NUL.
\<close>

subsection \<open>The request parser\<close>

primrec strstr :: "string \<Rightarrow> string \<Rightarrow> string option" where
  "strstr pat [] = (if pat = [] then Some [] else None)"
| "strstr pat (c # cs) = (if prefix pat (c # cs) then Some (c # cs) else strstr pat cs)"

definition QUOTE :: char where "QUOTE = CHR 0x22"

definition skip_spaces :: "string \<Rightarrow> string" where
  "skip_spaces = dropWhile (\<lambda>c. c = CHR '' '')"

definition field :: "string \<Rightarrow> string \<Rightarrow> string option" where
  "field line key =
     (let pattern = QUOTE # key @ [QUOTE]
      in if length pattern \<ge> 64 then None
         else case strstr pattern line of
                None \<Rightarrow> None
              | Some hit \<Rightarrow>
                  let rest = skip_spaces (drop (length pattern) hit)
                  in if rest = [] \<or> hd rest \<noteq> CHR '':'' then None else Some (skip_spaces (tl rest)))"

definition field_string :: "string \<Rightarrow> string \<Rightarrow> nat \<Rightarrow> string option" where
  "field_string line key outlen =
     (case field line key of
        None \<Rightarrow> None
      | Some p \<Rightarrow>
          if p = [] \<or> hd p \<noteq> QUOTE then None
          else let body = takeWhile (\<lambda>c. c \<noteq> QUOTE) (tl p)
               in if length body \<ge> outlen \<or> length body = length (tl p) then None else Some body)"

definition field_int :: "string \<Rightarrow> string \<Rightarrow> int option" where
  "field_int line key =
     (case field line key of
        None \<Rightarrow> None
      | Some p \<Rightarrow> (case strtol p of (v, _, rest) \<Rightarrow> if rest = p then None else Some v))"

text \<open>The elements up to the closing bracket; \<open>None\<close> when the text is no list of integers.\<close>

function array_loop :: "string \<Rightarrow> int list \<Rightarrow> int list option" where
  "array_loop p acc =
     (if p = [] \<or> hd p = CHR '']'' then (if p = [] then None else Some acc)
      else
        let q = dropWhile (\<lambda>c. c = CHR '' '' \<or> c = CHR '','') p
        in if q = [] \<or> hd q = CHR '']'' then (if q = [] then None else Some acc)
           else case strtol q of (v, _, rest) \<Rightarrow>
                  if rest = q then None else array_loop (skip_spaces rest) (acc @ [cast_i32 v]))"
  by pat_completeness auto

lemma array_consumes:
  assumes "strtol (dropWhile P p) = (v, e, rest)" "rest \<noteq> dropWhile P p"
  shows "length (skip_spaces rest) < length p"
proof -
  have "length rest < length (dropWhile P p)" using strtol_rest [of "dropWhile P p"] assms by simp
  also have "\<dots> \<le> length p" by (rule length_dropWhile_le)
  finally show ?thesis
    unfolding skip_spaces_def using length_dropWhile_le [of "\<lambda>c. c = CHR '' ''" rest] by simp
qed

termination array_loop
  by (relation "measure (\<lambda>(p, acc). length p)") (auto dest!: array_consumes [OF sym])

declare array_loop.simps [simp del]

definition field_int_array :: "string \<Rightarrow> string \<Rightarrow> int list option" where
  "field_int_array line key =
     (case field line key of
        None \<Rightarrow> None
      | Some p \<Rightarrow> if p = [] \<or> hd p \<noteq> CHR ''['' then None else array_loop (tl p) [])"

subsection \<open>The reply writer\<close>

definition hex_digit :: "nat \<Rightarrow> char" where
  "hex_digit d = (if d < 10 then char_of (48 + d) else char_of (87 + d))"

definition json_char :: "char \<Rightarrow> string" where
  "json_char c =
     (let b = (of_char c :: nat)
      in if c = QUOTE then [CHR 0x5C, QUOTE]
         else if c = CHR 0x5C then [CHR 0x5C, CHR 0x5C]
         else if b = 10 then [CHR 0x5C, CHR ''n'']
         else if b = 13 then [CHR 0x5C, CHR ''r'']
         else if b = 9 then [CHR 0x5C, CHR ''t'']
         else if b < 32 then [CHR 0x5C, CHR ''u'', CHR ''0'', CHR ''0'', hex_digit (b div 16), hex_digit (b mod 16)]
         else [c])"

definition json_string :: "string \<Rightarrow> string" where
  "json_string s = QUOTE # concat (map json_char s) @ [QUOTE]"

text \<open>Integers with commas between them, as the reply loops print them.\<close>

fun json_ints :: "int list \<Rightarrow> string" where
  "json_ints [] = []"
| "json_ints [x] = dec_int x"
| "json_ints (x # xs) = dec_int x @ [CHR '',''] @ json_ints xs"

fun json_rounds :: "int list list \<Rightarrow> string" where
  "json_rounds [] = []"
| "json_rounds [r] = [CHR ''[''] @ json_ints r @ [CHR '']'']"
| "json_rounds (r # rs) = [CHR ''[''] @ json_ints r @ [CHR '']'', CHR '',''] @ json_rounds rs"

definition quoted :: "string \<Rightarrow> string" where
  "quoted s = QUOTE # s @ [QUOTE]"

subsection \<open>Requests as the client writes them\<close>

text \<open>A flat object, its members in any order, its keys and strings plain words.\<close>

datatype jval = Jint int | Jints "int list" | Jstr string

primrec jval_text :: "jval \<Rightarrow> string" where
  "jval_text (Jint i) = dec_int i"
| "jval_text (Jints xs) = [CHR ''[''] @ json_ints xs @ [CHR '']'']"
| "jval_text (Jstr w) = quoted w"

fun members :: "(string \<times> jval) list \<Rightarrow> string" where
  "members [] = []"
| "members [kv] = quoted (fst kv) @ [CHR '':''] @ jval_text (snd kv)"
| "members (kv # kvs) = quoted (fst kv) @ [CHR '':''] @ jval_text (snd kv) @ [CHR '',''] @ members kvs"

definition request :: "(string \<times> jval) list \<Rightarrow> string" where
  "request kvs = [CHR ''{''] @ members kvs @ [CHR ''}'']"

definition is_word :: "string \<Rightarrow> bool" where
  "is_word w \<longleftrightarrow> w \<noteq> [] \<and> list_all (\<lambda>c. 97 \<le> (of_char c :: nat) \<and> (of_char c :: nat) \<le> 122 \<or> c = CHR ''_'') w"

lemma word_no_quote: "is_word w \<Longrightarrow> list_all (\<lambda>c. c \<noteq> QUOTE) w"
  by (auto simp: is_word_def list_all_iff QUOTE_def)

lemma word_hd: "is_word w \<Longrightarrow> hd w \<noteq> CHR '':'' \<and> hd w \<noteq> CHR '','' \<and> hd w \<noteq> CHR ''}''"
  by (cases w) (auto simp: is_word_def)

lemma int_no_quote: "list_all (\<lambda>c. c \<noteq> QUOTE) (dec_int i)"
proof -
  have "isdigit c \<Longrightarrow> c \<noteq> QUOTE" for c by (auto simp: isdigit_def QUOTE_def)
  then have d: "list_all (\<lambda>c. c \<noteq> QUOTE) (dec n)" for n using dec_digits [of n] by (auto simp: list_all_iff)
  then show ?thesis by (auto simp: dec_int_def) (simp add: QUOTE_def)
qed

lemma ints_no_quote: "list_all (\<lambda>c. c \<noteq> QUOTE) (json_ints xs)"
proof -
  have "CHR '','' \<noteq> QUOTE" by (simp add: QUOTE_def)
  then show ?thesis by (induction xs rule: json_ints.induct) (simp_all add: int_no_quote)
qed

lemma strstr_no_quote:
  "list_all (\<lambda>c. c \<noteq> QUOTE) a \<Longrightarrow> strstr (quoted key) (a @ b) = strstr (quoted key) b"
  by (induction a) (auto simp: quoted_def)

lemma prefix_word:
  assumes "list_all (\<lambda>c. c \<noteq> QUOTE) key" "list_all (\<lambda>c. c \<noteq> QUOTE) w" "prefix (key @ [QUOTE]) (w @ QUOTE # b)"
  shows "key = w"
  using assms
proof (induction key arbitrary: w)
  case Nil
  then show ?case by (cases w) auto
next
  case (Cons c key)
  then show ?case by (cases w) auto
qed

lemma strstr_other_word:
  assumes "is_word key" "is_word w" "key \<noteq> w" "hd b \<noteq> hd key" "b \<noteq> []"
  shows "strstr (quoted key) (quoted w @ b) = strstr (quoted key) b"
proof -
  have nq: "list_all (\<lambda>c. c \<noteq> QUOTE) key" "list_all (\<lambda>c. c \<noteq> QUOTE) w" using assms word_no_quote by auto
  have "\<not> prefix (quoted key) (QUOTE # w @ QUOTE # b)"
    using prefix_word [OF nq] assms(3) by (auto simp: quoted_def)
  then have "strstr (quoted key) (quoted w @ b) = strstr (quoted key) (w @ QUOTE # b)" by (simp add: quoted_def)
  also have "\<dots> = strstr (quoted key) (QUOTE # b)" by (rule strstr_no_quote [OF nq(2)])
  also have "\<dots> = strstr (quoted key) b"
  proof -
    have "\<not> prefix (quoted key) (QUOTE # b)"
      using assms(1,4,5) by (cases key; cases b) (auto simp: quoted_def is_word_def)
    then show ?thesis by simp
  qed
  finally show ?thesis .
qed

lemma strstr_hit: "strstr (quoted key) (quoted key @ b) = Some (quoted key @ b)"
  by (simp add: quoted_def)

text \<open>No string value may be the key itself: the scan would stop at the value.\<close>

definition plain_members :: "string \<Rightarrow> (string \<times> jval) list \<Rightarrow> bool" where
  "plain_members key kvs \<longleftrightarrow> list_all (\<lambda>kv. is_word (fst kv) \<and>
     (case snd kv of Jstr w \<Rightarrow> is_word w \<and> w \<noteq> key | _ \<Rightarrow> True)) kvs"

lemma strstr_value:
  assumes "is_word key" "case v of Jstr w \<Rightarrow> is_word w \<and> w \<noteq> key | _ \<Rightarrow> True" "b \<noteq> []" "hd b = CHR '',''"
  shows "strstr (quoted key) (jval_text v @ b) = strstr (quoted key) b"
proof (cases v)
  case (Jint i)
  then show ?thesis using strstr_no_quote [OF int_no_quote] by simp
next
  case (Jints xs)
  have "list_all (\<lambda>c. c \<noteq> QUOTE) (jval_text v)" using ints_no_quote by (simp add: Jints) (simp add: QUOTE_def)
  then show ?thesis by (rule strstr_no_quote)
next
  case (Jstr w)
  then show ?thesis using strstr_other_word [OF assms(1), of w b] assms word_hd [OF assms(1)] by auto
qed

lemma strstr_members:
  assumes "is_word key" "plain_members key kvs" "map_of kvs key = Some v"
  shows "\<exists>rest. strstr (quoted key) (members kvs @ [CHR ''}'']) = Some (quoted key @ CHR '':'' # jval_text v @ rest)
    \<and> rest \<noteq> [] \<and> (hd rest = CHR '','' \<or> hd rest = CHR ''}'')"
  using assms(2,3)
proof (induction kvs rule: members.induct)
  case (2 kv)
  then show ?case using strstr_hit [of key] by (auto split: if_splits)
next
  case (3 kv kv2 kvs)
  show ?case
  proof (cases "fst kv = key")
    case True
    then have "v = snd kv" using "3.prems" by simp
    then show ?thesis using strstr_hit [of key] True by auto
  next
    case False
    let ?tail = "members (kv2 # kvs) @ [CHR ''}'']"
    have kv: "is_word (fst kv)" "case snd kv of Jstr w \<Rightarrow> is_word w \<and> w \<noteq> key | _ \<Rightarrow> True"
      using "3.prems"(1) by (simp_all add: plain_members_def)
    have "strstr (quoted key) (members (kv # kv2 # kvs) @ [CHR ''}''])
        = strstr (quoted key) (quoted (fst kv) @ CHR '':'' # jval_text (snd kv) @ CHR '','' # ?tail)"
      by simp
    also have "\<dots> = strstr (quoted key) (CHR '':'' # jval_text (snd kv) @ CHR '','' # ?tail)"
      by (rule strstr_other_word [OF assms(1) kv(1)]) (use False word_hd [OF assms(1)] in auto)
    also have "\<dots> = strstr (quoted key) (jval_text (snd kv) @ CHR '','' # ?tail)"
      by (simp add: quoted_def QUOTE_def)
    also have "\<dots> = strstr (quoted key) (CHR '','' # ?tail)"
      by (rule strstr_value [OF assms(1) kv(2)]) simp_all
    also have "\<dots> = strstr (quoted key) ?tail" by (simp add: quoted_def QUOTE_def)
    finally show ?thesis using "3.IH" "3.prems" False by (auto simp: plain_members_def)
  qed
qed simp

lemma dec_int_hd: "dec_int i \<noteq> [] \<and> hd (dec_int i) \<notin> {CHR '' '', CHR '','', CHR '']''}"
proof -
  have "isdigit c \<Longrightarrow> c \<notin> {CHR '' '', CHR '','', CHR '']''}" for c by (auto simp: isdigit_def)
  then show ?thesis using dec_hd_digit [of "nat i"] dec_not_Nil by (auto simp: dec_int_def)
qed

lemma field_request:
  assumes "is_word key" "length key < 60" "plain_members key kvs" "map_of kvs key = Some v"
  shows "\<exists>rest. field (request kvs) key = Some (jval_text v @ rest) \<and> rest \<noteq> [] \<and> (hd rest = CHR '','' \<or> hd rest = CHR ''}'')"
proof -
  obtain rest where r: "strstr (quoted key) (members kvs @ [CHR ''}'']) = Some (quoted key @ CHR '':'' # jval_text v @ rest)"
    and rest: "rest \<noteq> []" "hd rest = CHR '','' \<or> hd rest = CHR ''}''"
    using strstr_members [OF assms(1,3,4)] by blast
  have "strstr (quoted key) (request kvs) = strstr (quoted key) (members kvs @ [CHR ''}''])"
    by (simp add: request_def quoted_def QUOTE_def)
  moreover have "jval_text v \<noteq> [] \<and> hd (jval_text v) \<noteq> CHR '' ''"
    using dec_int_hd by (cases v) (auto simp: quoted_def QUOTE_def)
  then have sk: "skip_spaces (jval_text v @ rest) = jval_text v @ rest"
    by (cases "jval_text v") (simp_all add: skip_spaces_def)
  moreover have "length (quoted key) < 64" using assms(2) by (simp add: quoted_def)
  ultimately have "field (request kvs) key = Some (jval_text v @ rest)"
    using r by (simp add: field_def Let_def skip_spaces_def flip: quoted_def)
  then show ?thesis using rest by blast
qed

subsection \<open>Reading the values back\<close>

lemma strtol_dec_int:
  assumes "rest = [] \<or> \<not> isdigit (hd rest)" "LONG_MIN \<le> i" "i \<le> LONG_MAX"
  shows "strtol (dec_int i @ rest) = (i, False, rest)"
proof (cases "i < 0")
  case True
  have "strto_scan (CHR ''-'' # dec (nat (- i)) @ rest) = (True, dec (nat (- i)), rest)"
    using takeWhile_dec_append [OF assms(1), of "nat (- i)"] by (simp add: strto_scan_def isspace_def)
  then show ?thesis using True assms(2) by (simp add: strtol_def dec_int_def LONG_MAX_def)
next
  case False
  then show ?thesis using strtol_dec [OF assms(1), of "nat i"] assms(3) by (simp add: dec_int_def)
qed

lemma array_loop_ints:
  assumes "list_all (\<lambda>i. LONG_MIN \<le> i \<and> i \<le> LONG_MAX) xs"
  shows "array_loop (json_ints xs @ CHR '']'' # b) acc = Some (acc @ map cast_i32 xs)
    \<and> array_loop (CHR '','' # json_ints xs @ CHR '']'' # b) acc = Some (acc @ map cast_i32 xs)"
  using assms
proof (induction xs arbitrary: acc rule: json_ints.induct)
  case 1
  then show ?case by (simp add: array_loop.simps)
next
  case (2 x)
  have "\<not> isdigit CHR '']''" by (simp add: isdigit_def)
  then have st: "strtol (dec_int x @ CHR '']'' # b) = (x, False, CHR '']'' # b)" using strtol_dec_int "2.prems" by simp
  have "dropWhile (\<lambda>c. c = CHR '' '' \<or> c = CHR '','') (dec_int x @ CHR '']'' # b) = dec_int x @ CHR '']'' # b"
    using dec_int_hd [of x] by (cases "dec_int x") auto
  then show ?case using st dec_int_hd [of x]
    by (simp add: array_loop.simps [of "_ @ _"] array_loop.simps [of "CHR '','' # _"] array_loop.simps [of "CHR '']'' # _"] skip_spaces_def)
next
  case (3 x y ys)
  let ?t = "CHR '','' # json_ints (y # ys) @ CHR '']'' # b"
  have st: "strtol (dec_int x @ ?t) = (x, False, ?t)" using strtol_dec_int [of ?t x] "3.prems" by simp
  have "dropWhile (\<lambda>c. c = CHR '' '' \<or> c = CHR '','') (dec_int x @ ?t) = dec_int x @ ?t"
    using dec_int_hd [of x] by (cases "dec_int x") auto
  then show ?case using st dec_int_hd [of x] "3.IH" "3.prems"
    by (simp add: array_loop.simps [of "_ @ _"] array_loop.simps [of "CHR '','' # dec_int x @ _"] skip_spaces_def)
qed

text \<open>The values the protocol can carry: 64-bit integers, lists of 32-bit tokens, short words.\<close>

primrec reads_back :: "string \<Rightarrow> string \<Rightarrow> jval \<Rightarrow> bool" where
  "reads_back line key (Jint i) \<longleftrightarrow> (LONG_MIN \<le> i \<and> i \<le> LONG_MAX \<longrightarrow> field_int line key = Some i)"
| "reads_back line key (Jints xs) \<longleftrightarrow>
     (list_all (\<lambda>i. - 2147483648 \<le> i \<and> i \<le> INT32_MAX) xs \<longrightarrow> field_int_array line key = Some xs)"
| "reads_back line key (Jstr w) \<longleftrightarrow> (\<forall>n > length w. field_string line key n = Some w)"

lemma request_reads_back:
  assumes "is_word key" "length key < 60" "plain_members key kvs" "map_of kvs key = Some v"
  shows "reads_back (request kvs) key v"
proof -
  obtain rest where f: "field (request kvs) key = Some (jval_text v @ rest)"
    and rest: "rest \<noteq> []" "hd rest = CHR '','' \<or> hd rest = CHR ''}''"
    using field_request [OF assms] by blast
  have nd: "rest = [] \<or> \<not> isdigit (hd rest)" using rest(2) by (auto simp: isdigit_def)
  show ?thesis
  proof (cases v)
    case (Jint i)
    then show ?thesis using f strtol_dec_int [OF nd, of i] dec_int_hd [of i] by (simp add: field_int_def)
  next
    case (Jints xs)
    have "list_all (\<lambda>i. - 2147483648 \<le> i \<and> i \<le> INT32_MAX) xs \<Longrightarrow> map cast_i32 xs = xs"
      by (induction xs) (simp_all add: cast_i32_id)
    moreover have "list_all (\<lambda>i. - 2147483648 \<le> i \<and> i \<le> INT32_MAX) xs \<Longrightarrow>
        list_all (\<lambda>i. LONG_MIN \<le> i \<and> i \<le> LONG_MAX) xs"
      by (auto simp: list_all_iff LONG_MIN_def LONG_MAX_def INT32_MAX_def)
    ultimately show ?thesis using Jints f array_loop_ints [of xs rest "[]"] by (simp add: field_int_array_def)
  next
    case (Jstr w)
    have "is_word w" using assms(3) map_of_SomeD [OF assms(4)] Jstr by (auto simp: plain_members_def list_all_iff)
    then have "\<forall>c \<in> set w. c \<noteq> QUOTE" using word_no_quote by (simp add: list_all_iff)
    then have "takeWhile (\<lambda>c. c \<noteq> QUOTE) (w @ QUOTE # rest) = w" by (simp add: takeWhile_append2)
    then show ?thesis using Jstr f by (simp add: field_string_def quoted_def)
  qed
qed

end
