(* ===== verification/Draft_Head.thy ===== *)
theory Draft_Head
  imports CLib Graph_Session Sample_Argmax
begin

text \<open>
  The draft head of \<open>ds4_qwen4exp_mtp.c\<close> as the host sees it: the draft shortlist and its
  packed positions, set-up with every refusal, the margin scan, and the head cache that prefill
  seeds (\<open>seed_cache\<close>, \<open>retain_cache_tail\<close>, \<open>feed_cache_tail\<close>). The head's kernels are parameters:
  \<open>seed\<close> is the cache-only forward over the head's own cache slot; \<open>alloc\<close> is the device
  allocator, given the number of the call and the bytes.
\<close>

definition MTP_CACHE_SEED_MAX_ROWS :: nat where "MTP_CACHE_SEED_MAX_ROWS = 512"
definition DRAFT_VOCAB_TAIL_DEFAULT :: nat where "DRAFT_VOCAB_TAIL_DEFAULT = 276"
definition DRAFT_VOCAB_PREFIX_DEFAULT :: nat where "DRAFT_VOCAB_PREFIX_DEFAULT = 98308"

datatype head_error =
    Not_A_Count string string
  | Prefix_Exceeds nat nat
  | Tail_Exceeds nat nat
  | Ranges_Overlap nat nat nat
  | Hooks_Not_Bound
  | Mappings_Missing
  | Eh_Proj_Width nat nat
  | Head_Widths_Not_Positive
  | Bad_Seed_Capacity
  | Head_Scratch_Failed nat
  | Bad_Seed_Input
  | Bad_Seed_Token
  | Cache_Seed_Failed nat nat
  | Bad_Retained_Tail
  | Tail_Copy_Failed
  | Bad_Tail_Token
  | Tail_Position_Mismatch
  | Invalid_Screen_Winner

subsection \<open>The draft shortlist\<close>

definition mtp_env_u32 :: "environ \<Rightarrow> string \<Rightarrow> nat \<Rightarrow> (head_error, nat) result" where
  "mtp_env_u32 env name fallback =
     (case env name of
        None \<Rightarrow> Inr fallback
      | Some raw \<Rightarrow>
          if raw = [] then Inr fallback
          else case strtoul raw of (v, erange, rest) \<Rightarrow>
            if erange \<or> rest = raw \<or> rest \<noteq> [] \<or> v > 4294967295 then Inl (Not_A_Count name raw)
            else Inr v)"

text \<open>A minus sign passes: \<open>strtoul\<close> negates modulo \<open>2 ^ 64\<close> without an error.\<close>

lemma mtp_env_u32_negative:
  "env name = Some ''-18446744073709551615'' \<Longrightarrow> mtp_env_u32 env name fallback = Inr 1"
  by (simp add: mtp_env_u32_def strtoul_def strto_scan_def digits_val_def digit_val_def isdigit_def isspace_def ULONG_MAX_def)

definition mtp_head_draft_vocab :: "environ \<Rightarrow> nat \<Rightarrow> (head_error, nat \<times> nat) result" where
  "mtp_head_draft_vocab env nv =
     (case mtp_env_u32 env ''DS4_QWEN4EXP_DRAFT_VOCAB_PREFIX'' DRAFT_VOCAB_PREFIX_DEFAULT of
        Inl e \<Rightarrow> Inl e
      | Inr prefix0 \<Rightarrow>
          (case mtp_env_u32 env ''DS4_QWEN4EXP_DRAFT_VOCAB_TAIL'' DRAFT_VOCAB_TAIL_DEFAULT of
             Inl e \<Rightarrow> Inl e
           | Inr tail \<Rightarrow>
               let prefix = (if env ''DS4_QWEN4EXP_DRAFT_VOCAB_PREFIX'' = None
                                \<and> env ''DS4_QWEN4EXP_DRAFT_VOCAB_TAIL'' = None
                                \<and> prefix0 + tail > nv then 0 else prefix0)
               in if prefix = 0 then Inr (0, 0)
                  else if prefix > nv then Inl (Prefix_Exceeds prefix nv)
                  else if tail > nv then Inl (Tail_Exceeds tail nv)
                  else if prefix + tail > nv then Inl (Ranges_Overlap prefix tail nv)
                  else Inr (prefix, tail)))"

text \<open>The width of a packed logit row, and the token of a packed position.\<close>

definition draft_width :: "nat \<Rightarrow> nat \<Rightarrow> nat \<Rightarrow> nat" where
  "draft_width nv prefix tail = (if prefix \<noteq> 0 then prefix + tail else nv)"

definition draft_id :: "nat \<Rightarrow> nat \<Rightarrow> nat \<Rightarrow> nat \<Rightarrow> nat" where
  "draft_id nv prefix tail p = (if prefix \<noteq> 0 \<and> p \<ge> prefix then nv - tail + (p - prefix) else p)"

primrec head_unpack :: "nat \<Rightarrow> nat \<Rightarrow> nat \<Rightarrow> bool \<Rightarrow> nat list \<Rightarrow> (head_error, token list) result" where
  "head_unpack nv prefix tail screened [] = Inr []"
| "head_unpack nv prefix tail screened (p # ps) =
     (if screened \<and> p \<ge> nv then Inl Invalid_Screen_Winner
      else case head_unpack nv prefix tail screened ps of
             Inl e \<Rightarrow> Inl e
           | Inr xs \<Rightarrow> Inr (int (if screened then p else draft_id nv prefix tail p) # xs))"

text \<open>The packed row of a full row of logits: the prefix ids, then the tail ids.\<close>

definition packed_row :: "nat \<Rightarrow> nat \<Rightarrow> nat \<Rightarrow> f32 list \<Rightarrow> f32 list" where
  "packed_row nv prefix tail l =
     (if prefix \<noteq> 0 then take prefix l @ take tail (drop (nv - tail) l) else take nv l)"

subsection \<open>The margin of a draft\<close>

definition MARGIN_LIMIT :: f32 where "MARGIN_LIMIT = F32 300000000549775575777803994281145270272"
definition MARGIN_FLOOR :: f32 where "MARGIN_FLOOR = F32 (- 300000000549775575777803994281145270272)"

definition margin_skips :: "f32 \<Rightarrow> bool" where
  "margin_skips v \<longleftrightarrow> \<not> f32_eq v v \<or> f32_gt v MARGIN_LIMIT \<or> f32_lt v MARGIN_FLOOR"

primrec margin_scan :: "f32 list \<Rightarrow> f32 option \<Rightarrow> f32 option \<Rightarrow> f32 option \<times> f32 option" where
  "margin_scan [] v0 v1 = (v0, v1)"
| "margin_scan (v # vs) v0 v1 =
     (if margin_skips v then margin_scan vs v0 v1
      else if v0 = None \<or> f32_gt v (the v0) then margin_scan vs (Some v) (if v0 = None then v1 else v0)
      else if v1 = None \<or> f32_gt v (the v1) then margin_scan vs v0 (Some v)
      else margin_scan vs v0 v1)"

text \<open>\<open>sub\<close> is the subtraction of \<open>float\<close>.\<close>

definition head_margin :: "(f32 \<Rightarrow> f32 \<Rightarrow> f32) \<Rightarrow> f32 list \<Rightarrow> f32" where
  "head_margin sub row = (case margin_scan row None None of (Some v0, Some v1) \<Rightarrow> sub v0 v1 | _ \<Rightarrow> F32 (- 1))"

subsection \<open>Set-up\<close>

text \<open>
  \<open>head_hooks\<close>: the five kernels a forward cannot do without are bound; \<open>seed_hook\<close>: so is the
  cache-only one; \<open>native_init\<close> is bound with its two companions or not at all and returns a code,
  the scratch bytes and the candidate capacity.
\<close>

record 'v mtp_head =
  head_hooks :: bool
  seed_hook :: bool
  native_init :: "(nat \<Rightarrow> int \<times> nat \<times> nat) option"
  head_maps :: bool
  eh_proj_in_dim :: nat
  head_n_embd :: nat
  head_n_hc :: nat
  head_n_lowrank :: nat
  head_n_vocab :: nat
  max_tokens :: nat
  cache_seed_capacity :: nat
  t_cache_tail :: "'v option"
  cache_tail_pos :: nat
  cache_tail_next_token :: int
  cache_tail_valid :: bool
  native_capacity :: nat
  draft_vocab_prefix :: nat
  draft_vocab_tail :: nat

definition mtp_head_reset_cache :: "'v mtp_head \<Rightarrow> 'v mtp_head" where
  "mtp_head_reset_cache h = h\<lparr>cache_tail_valid := False, cache_tail_pos := 0, cache_tail_next_token := - 1\<rparr>"

definition mtp_head_free :: "'v mtp_head \<Rightarrow> 'v mtp_head" where
  "mtp_head_free h =
     (mtp_head_reset_cache (h\<lparr>t_cache_tail := None, cache_seed_capacity := 0\<rparr>))\<lparr>native_capacity := 0\<rparr>"

text \<open>The candidate screen: whether set-up failed, its two buffers and its capacity.\<close>

definition native_setup :: "'v mtp_head \<Rightarrow> bool \<times> nat list \<times> nat" where
  "native_setup h =
     (case native_init h of
        None \<Rightarrow> (True, [], native_capacity h)
      | Some f \<Rightarrow>
          if head_n_embd h = 2560 \<and> draft_vocab_prefix h \<noteq> 0 \<and> draft_vocab_tail h \<noteq> 0 then
            (case f (draft_vocab_prefix h + draft_vocab_tail h) of
               (rc, bytes, capacity) \<Rightarrow>
                 if rc < 0 then (False, [], native_capacity h)
                 else if rc > 0 \<and> bytes \<noteq> 0 \<and> capacity \<noteq> 0 \<and> capacity \<le> head_n_vocab h
                   then (True, [bytes, capacity * 4], capacity)
                 else (True, [], native_capacity h))
          else (True, [], native_capacity h))"

text \<open>The bytes of every buffer set-up asks for, in order.\<close>

definition head_buffers :: "'v mtp_head \<Rightarrow> nat list" where
  "head_buffers h =
     (let input_rows = max (cache_seed_capacity h) (max_tokens h); rows = max_tokens h;
          ne = head_n_embd h; hc = head_n_hc h * head_n_embd h
      in [input_rows * 4, input_rows * ne * 4, input_rows * ne * 4, input_rows * ne * 4,
          input_rows * hc * 4, input_rows * head_n_hc h * 2 * ne * 4, input_rows * hc * 4,
          rows * hc * 4, rows * head_n_lowrank h * 4, rows * hc * 4, rows * ne * 4, rows * head_n_vocab h * 4]
         @ (if draft_vocab_prefix h \<noteq> 0 \<and> draft_vocab_tail h \<noteq> 0
            then [rows * draft_vocab_prefix h * 4, rows * draft_vocab_tail h * 4] else [])
         @ fst (snd (native_setup h))
         @ (if cache_seed_capacity h \<noteq> 0 then [hc * 4] else [])
         @ [(rows + 1) * 4, (rows + 1) * 4])"

text \<open>\<open>junk\<close> is what a fresh buffer holds.\<close>

definition mtp_head_init ::
  "(nat \<Rightarrow> nat \<Rightarrow> bool) \<Rightarrow> 'v \<Rightarrow> environ \<Rightarrow> 'v mtp_head \<Rightarrow> 'v mtp_head \<times> head_error option" where
  "mtp_head_init alloc junk env h =
     (if \<not> head_hooks h then (h, Some Hooks_Not_Bound)
      else if \<not> head_maps h then (h, Some Mappings_Missing)
      else if eh_proj_in_dim h \<noteq> 2 * head_n_embd h then (h, Some (Eh_Proj_Width (eh_proj_in_dim h) (2 * head_n_embd h)))
      else if head_n_embd h = 0 \<or> head_n_hc h = 0 \<or> head_n_lowrank h = 0 \<or> head_n_vocab h = 0 \<or> max_tokens h = 0
        then (h, Some Head_Widths_Not_Positive)
      else case mtp_head_draft_vocab env (head_n_vocab h) of
        Inl e \<Rightarrow> (h, Some e)
      | Inr (prefix, tail) \<Rightarrow>
          let h1 = h\<lparr>draft_vocab_prefix := prefix, draft_vocab_tail := tail\<rparr>
          in if cache_seed_capacity h1 > MTP_CACHE_SEED_MAX_ROWS \<or> (cache_seed_capacity h1 \<noteq> 0 \<and> \<not> seed_hook h1)
               then (h1, Some Bad_Seed_Capacity)
             else
               let (native_ok, _, capacity) = native_setup h1;
                   h2 = h1\<lparr>native_capacity := capacity,
                           t_cache_tail := (if cache_seed_capacity h1 \<noteq> 0 then Some junk else t_cache_tail h1),
                           cache_tail_valid := False, cache_tail_next_token := - 1\<rparr>
               in if native_ok \<and> list_all (\<lambda>(i, b). alloc i b) (enumerate 0 (head_buffers h1)) then (h2, None)
                  else (mtp_head_free h2, Some (Head_Scratch_Failed (max_tokens h))))"

subsection \<open>The head cache\<close>

definition mtp_cache_source_range :: "'v mtp_head \<Rightarrow> nat \<Rightarrow> nat \<Rightarrow> bool" where
  "mtp_cache_source_range h first rows =
     (let hc = head_n_hc h * head_n_embd h; row_bytes = hc * 4
      in hc \<noteq> 0 \<and> hc \<le> UINT64_MAX div 4 \<and> first \<le> UINT64_MAX div row_bytes \<and> rows \<le> UINT64_MAX div row_bytes
         \<and> first * row_bytes \<le> UINT64_MAX - rows * row_bytes)"

type_synonym 'v seed_forward = "'v \<Rightarrow> token list \<Rightarrow> 'v list \<Rightarrow> nat \<Rightarrow> 'v \<times> bool"

definition mtp_head_seed_cache ::
  "'v seed_forward \<Rightarrow> 'v mtp_head \<Rightarrow> ('v, 'q) gsession \<Rightarrow> token list \<Rightarrow> 'v list \<Rightarrow> nat \<Rightarrow> nat \<Rightarrow>
     ('v, 'q) gsession \<times> head_error option" where
  "mtp_head_seed_cache seed h s next_tokens hyper first pos0 =
     (let n = length next_tokens
      in if \<not> seed_hook h \<or> cache_seed_capacity h = 0 \<or> n = 0 \<or> n > cache_seed_capacity h
            \<or> pos0 + n > UINT32_MAX \<or> \<not> mtp_cache_source_range h first n
           then (s, Some Bad_Seed_Input)
         else if \<not> list_all (\<lambda>x. 0 \<le> x \<and> x < int (head_n_vocab h)) next_tokens then (s, Some Bad_Seed_Token)
         else case seed (head_cache s) next_tokens (take n (drop first hyper)) pos0 of
           (c, ok) \<Rightarrow> (s\<lparr>state_dirty := True, head_cache := c\<rparr>, if ok then None else Some (Cache_Seed_Failed pos0 n)))"

definition mtp_head_retain_cache_tail ::
  "('v, 'q) fails \<Rightarrow> 'v mtp_head \<Rightarrow> ('v, 'q) gsession \<Rightarrow> nat \<Rightarrow> nat \<Rightarrow> int \<Rightarrow> 'v mtp_head \<times> head_error option" where
  "mtp_head_retain_cache_tail fails h s row pos known_next =
     (if t_cache_tail h = None \<or> known_next < - 1 \<or> (known_next \<ge> 0 \<and> known_next \<ge> int (head_n_vocab h))
         \<or> \<not> mtp_cache_source_range h row 1
        then (h, Some Bad_Retained_Tail)
      else if fails ''cache tail copy'' s then (h\<lparr>cache_tail_valid := False\<rparr>, Some Tail_Copy_Failed)
      else (h\<lparr>t_cache_tail := Some (g_hyper s ! row), cache_tail_pos := pos,
              cache_tail_next_token := known_next, cache_tail_valid := True\<rparr>, None))"

text \<open>The head, the session, whether the row was written anew, and the refusal.\<close>

definition mtp_head_feed_cache_tail ::
  "'v seed_forward \<Rightarrow> 'v mtp_head \<Rightarrow> ('v, 'q) gsession \<Rightarrow> token \<Rightarrow> nat \<Rightarrow>
     'v mtp_head \<times> ('v, 'q) gsession \<times> bool \<times> head_error option" where
  "mtp_head_feed_cache_tail seed h s tok pos =
     (if tok < 0 \<or> tok \<ge> int (head_n_vocab h) then (h, s, False, Some Bad_Tail_Token)
      else if cache_seed_capacity h = 0 \<or> \<not> cache_tail_valid h then (h, s, False, None)
      else if cache_tail_pos h + 1 \<noteq> pos then (h, s, False, Some Tail_Position_Mismatch)
      else if cache_tail_next_token h = tok then (h, s, False, None)
      else case mtp_head_seed_cache seed h s [tok] [the (t_cache_tail h)] 0 (cache_tail_pos h) of
             (s1, Some e) \<Rightarrow> (h, s1, False, Some e)
           | (s1, None) \<Rightarrow> (h\<lparr>cache_tail_next_token := tok\<rparr>, s1, True, None))"

subsection \<open>What a shortlisted draft is\<close>

lemma draft_vocab_ranges:
  "mtp_head_draft_vocab env nv = Inr (p, t) \<Longrightarrow> (p = 0 \<and> t = 0) \<or> (0 < p \<and> p + t \<le> nv)"
  by (auto simp: mtp_head_draft_vocab_def Let_def split: sum.splits if_splits)

lemma packed_row_nth:
  assumes "mtp_head_draft_vocab env nv = Inr (p, t)" "length l = nv"
  shows "length (packed_row nv p t l) = draft_width nv p t"
    "q < draft_width nv p t \<Longrightarrow> packed_row nv p t l ! q = l ! draft_id nv p t q \<and> draft_id nv p t q < nv"
  using draft_vocab_ranges [OF assms(1)] assms(2)
  by (auto simp: packed_row_def draft_width_def draft_id_def nth_append)

lemma draft_id_mono:
  assumes "mtp_head_draft_vocab env nv = Inr (p, t)" "a < b"
  shows "draft_id nv p t a < draft_id nv p t b"
  using draft_vocab_ranges [OF assms(1)] assms(2) by (auto simp: draft_id_def)

text \<open>
  Property C37. Drafting on a shortlist is drafting on the shortlisted logits: with any setting of the
  environment that set-up accepts, the packed positions are the prefix and the tail of the
  vocabulary in order and without overlap, and the token unpacked from the best packed position is
  a token of the vocabulary, no shortlisted token has a greater logit, and every shortlisted token
  before it has a smaller one.
\<close>

theorem draft_shortlist_exact:
  assumes "mtp_head_draft_vocab env nv = Inr (p, t)" "length l = nv" "0 < nv" "F32_NaN \<notin> set l"
  shows "\<exists>b. mtp_argmax (packed_row nv p t l) (draft_width nv p t) = int b \<and> b < draft_width nv p t
    \<and> head_unpack nv p t False [b] = Inr [int (draft_id nv p t b)] \<and> draft_id nv p t b < nv
    \<and> (\<forall>q < draft_width nv p t. \<not> f32_lt (l ! draft_id nv p t b) (l ! draft_id nv p t q))
    \<and> (\<forall>q < draft_width nv p t. draft_id nv p t q < draft_id nv p t b \<longrightarrow> f32_lt (l ! draft_id nv p t q) (l ! draft_id nv p t b))"
proof -
  let ?r = "packed_row nv p t l" and ?w = "draft_width nv p t"
  note nth = packed_row_nth [OF assms(1,2)]
  have ne: "?r \<noteq> []" using nth(1) assms(3) draft_vocab_ranges [OF assms(1)] by (auto simp: draft_width_def)
  have "set ?r \<subseteq> set l" by (auto simp: packed_row_def dest: in_set_takeD in_set_dropD)
  then have nn: "F32_NaN \<notin> set ?r" using assms(4) by blast
  define b where "b = nat (mtp_argmax ?r ?w)"
  have b: "b < ?w" "\<forall>j < ?w. \<not> f32_lt (?r ! b) (?r ! j)" "\<forall>j < b. f32_lt (?r ! j) (?r ! b)"
    using mtp_argmax_lowest_max [OF ne nth(1) nn] by (simp_all add: Let_def b_def)
  have "q < b" if "draft_id nv p t q < draft_id nv p t b" for q
    using draft_id_mono [OF assms(1), of b q] that by (cases "q < b") (auto simp: not_less le_less)
  moreover have "mtp_argmax ?r ?w = int b" by (simp add: b_def mtp_argmax_def)
  ultimately show ?thesis using b nth(2) by (intro exI [of _ b]) auto
qed

theorem draft_shortlist_exact_witness:
  "let env = (\<lambda>n. if n = ''DS4_QWEN4EXP_DRAFT_VOCAB_PREFIX'' then Some ''2'' else
                  if n = ''DS4_QWEN4EXP_DRAFT_VOCAB_TAIL'' then Some ''1'' else None);
       l = [F32 1, F32 2, F32 9, F32 9, F32 2]
   in mtp_head_draft_vocab env 5 = Inr (2, 1) \<and> mtp_argmax (packed_row 5 2 1 l) 3 = 1 \<and> \<not> f32_lt (l ! 1) (l ! 4)"
proof -
  define env :: environ where "env = (\<lambda>n. if n = ''DS4_QWEN4EXP_DRAFT_VOCAB_PREFIX'' then Some ''2'' else
      if n = ''DS4_QWEN4EXP_DRAFT_VOCAB_TAIL'' then Some ''1'' else None)"
  let ?l = "[F32 1, F32 2, F32 9, F32 9, F32 2]"
  have e: "mtp_head_draft_vocab env 5 = Inr (2, 1)"
    by (simp add: env_def mtp_head_draft_vocab_def mtp_env_u32_def strtoul_def strto_scan_def digits_val_def digit_val_def
        isdigit_def isspace_def ULONG_MAX_def)
  have a: "mtp_argmax (packed_row 5 2 1 ?l) 3 = 1" by code_simp
  have d: "draft_width 5 2 1 = 3" "draft_id 5 2 1 1 = 1" "draft_id 5 2 1 2 = 4" by (simp_all add: draft_width_def draft_id_def)
  have l: "length ?l = 5" "0 < (5 :: nat)" "F32_NaN \<notin> set ?l" by simp_all
  obtain b where "mtp_argmax (packed_row 5 2 1 ?l) 3 = int b"
    and best: "\<forall>q < 3. \<not> f32_lt (?l ! draft_id 5 2 1 b) (?l ! draft_id 5 2 1 q)"
    using draft_shortlist_exact [OF e l] unfolding d(1) by blast
  then have "b = 1" using a by simp
  moreover have "(2 :: nat) < 3" by simp
  ultimately have "\<not> f32_lt (?l ! draft_id 5 2 1 1) (?l ! draft_id 5 2 1 2)" using best by blast
  then have "\<not> f32_lt (?l ! 1) (?l ! 4)" unfolding d .
  then show ?thesis using e a unfolding env_def Let_def by blast
qed

end
