(* ===== verification/Qwen_Session.thy ===== *)
theory Qwen_Session
  imports Draft_Head Graph_Clean
begin

text \<open>
  The session verbs of \<open>ds4.c\<close> on the qwen4exp path: \<open>ds4_session_sync\<close>, \<open>eval\<close>, \<open>argmax\<close>,
  \<open>eval_speculative_argmax\<close>, \<open>invalidate\<close>, \<open>rewind\<close>, and under them the lazy set-up of the
  speculative machinery and the publication of prompt rows into the head's cache.

  The engine is a record: the kernels, the failures of device calls, the environment and the
  allocators are its parameters. A refusal is a value of \<open>session_error\<close>; \<open>No_Message\<close> is a
  refusal that leaves the caller's message buffer as it was. Not modelled: the tensor-parallel,
  distributed and image branches a qwen4exp session never takes, the progress callbacks, the
  words of a refusal (\<open>e_text\<close>), and the verifier of other model families that a session without a draft head falls through to
  (\<open>e_other_verifier\<close>, a parameter).
\<close>

subsection \<open>Engine and session\<close>

datatype session_error =
    No_Message
  | Seam_Refusal mtp_error
  | Head_Refusal head_error
  | Head_Block_Refusal
  | Batch_Exceeded nat
  | Serial_Buffer_Exceeded nat
  | Forward_Refused
  | Empty_Prompt
  | Prompt_Too_Long nat int
  | Interrupted

record ('v, 'q) qsession =
  q_graph :: "('v, 'q) gsession"
  q_spec :: "(('v, 'q) gsession, 'v) mtp_state"
  q_head :: "'v mtp_head"
  seam_bound :: bool
  head_slots :: "bool list"
  spec_ready :: bool
  spec_failed :: bool
  q_logits :: "f32 list"
  checkpoint :: "token list"
  checkpoint_valid :: bool
  q_ctx_size :: int

record ('v, 'q) qengine =
  e_kernels :: "('v, 'q) kernels"
  e_fails :: "('v, 'q) fails"
  e_seed :: "'v seed_forward"
  e_ratio :: nat
  e_zero :: 'v
  e_hist0 :: 'q
  e_env :: environ
  e_strtof :: "string \<Rightarrow> f32 \<times> nat"
  e_atoi :: "string \<Rightarrow> int"
  e_alloc :: "nat \<Rightarrow> nat \<Rightarrow> bool"
  e_junk :: 'v
  e_scratch :: "'v list option"
  e_scratch_logits :: "f32 list list option"
  e_mtp_ready :: bool
  e_mtp_draft_tokens :: int
  e_head :: "'v mtp_head"
  e_block_bound :: bool
  e_block_registered :: bool
  e_slot_alloc :: "nat \<Rightarrow> bool"
  e_norms_written :: bool
  e_cancelled :: bool
  e_text :: "session_error \<Rightarrow> string"
  e_other_verifier :: "('v, 'q) qsession \<Rightarrow> token \<Rightarrow> int \<Rightarrow> int \<Rightarrow> int \<Rightarrow> ('v, 'q) qsession \<times> (session_error, token list) result"

definition SERIAL_MAX_ROWS :: nat where "SERIAL_MAX_ROWS = 4096"

subsection \<open>Setting the speculative machinery up\<close>

text \<open>
  \<open>ds4_qwen4exp_session_add_head_block\<close>: the eight buffers of the head's block, of which the first
  marks the block as set up.
\<close>

definition add_head_block :: "('v, 'q) qengine \<Rightarrow> ('v, 'q) qsession \<Rightarrow> ('v, 'q) qsession \<times> bool" where
  "add_head_block E s =
     (if \<not> e_block_bound E then (s, False)
      else if head_slots s ! 0 then (s, True)
      else
        let s1 = s\<lparr>q_graph := (q_graph s)\<lparr>state_dirty := True\<rparr>\<rparr>
        in if \<not> e_block_registered E then (s1, False)
           else
             let s2 = s1\<lparr>head_slots := map (e_slot_alloc E) [0..<8], q_graph := (q_graph s1)\<lparr>head_cache := e_zero E\<rparr>\<rparr>
             in (s2, list_all id (head_slots s2) \<and> e_norms_written E))"

text \<open>A set-up that got its first buffer and failed later is not repeated: the next call reports success.\<close>

lemma add_head_block_retry:
  assumes "add_head_block E s = (s', False)" "e_block_bound E" "e_block_registered E" "e_slot_alloc E 0"
  shows "add_head_block E s' = (s', True)"
  using assms by (auto simp: add_head_block_def Let_def upt_rec split: if_splits)

definition spec_head :: "('v, 'q) qengine \<Rightarrow> ('v, 'q) qsession \<Rightarrow> 'v mtp_head" where
  "spec_head E s =
     (let h = (e_head E)\<lparr>cache_seed_capacity := 0, t_cache_tail := None, cache_tail_pos := 0,
                cache_tail_next_token := 0, cache_tail_valid := False, native_capacity := 0,
                draft_vocab_prefix := 0, draft_vocab_tail := 0\<rparr>
      in if e_env E ''DS4_MTP_NO_PREFILL_CACHE'' = None \<and> seed_hook h
         then h\<lparr>cache_seed_capacity := min (g_n_batch (q_graph s)) MTP_CACHE_SEED_MAX_ROWS\<rparr> else h)"

definition session_spec_init ::
  "('v, 'q) qengine \<Rightarrow> ('v, 'q) qsession \<Rightarrow> ('v, 'q) qsession \<times> session_error option" where
  "session_spec_init E s =
     (if spec_ready s then (s, None)
      else if spec_failed s then (s, Some No_Message)
      else
        let s0 = s\<lparr>spec_failed := True\<rparr>
        in case session_rollback_set (e_kernels E) (e_fails E) (e_ratio E) of
             Inl e \<Rightarrow> (s0, Some (Seam_Refusal e))
           | Inr S \<Rightarrow>
               (case add_head_block E (s0\<lparr>q_head := spec_head E s0\<rparr>) of
                  (s1, False) \<Rightarrow> (s1, Some Head_Block_Refusal)
                | (s1, True) \<Rightarrow>
                    (case mtp_head_init (e_alloc E) (e_junk E) (e_env E) (q_head s1) of
                       (h, Some e) \<Rightarrow> (s1\<lparr>q_head := h\<rparr>, Some (Head_Refusal e))
                     | (h, None) \<Rightarrow>
                         let s2 = s1\<lparr>q_head := h, seam_bound := True\<rparr>
                         in case mtp_depth_from_draft_tokens (e_mtp_draft_tokens E) of
                              Inl e \<Rightarrow> (s2, Some (Seam_Refusal e))
                            | Inr dep \<Rightarrow>
                                (case mtp_state_init (e_strtof E) (e_atoi E) (e_env E) (e_scratch E)
                                        (e_scratch_logits E) (int dep) (Some S) (k_hc_dim (e_kernels E))
                                        (k_n_vocab (e_kernels E)) of
                                   Inl e \<Rightarrow> (s2, Some (Seam_Refusal e))
                                 | Inr st \<Rightarrow>
                                     (s2\<lparr>q_spec := st, q_graph := (q_graph s2)\<lparr>last_margin := F32 (- 1)\<rparr>,
                                         spec_failed := False, spec_ready := True\<rparr>, None)))))"

text \<open>\<open>ds4_session_qwen4exp_spec_prepare\<close> runs the set-up early and takes a refusal back.\<close>

definition session_spec_prepare ::
  "('v, 'q) qengine \<Rightarrow> ('v, 'q) qsession \<Rightarrow> ('v, 'q) qsession \<times> session_error option" where
  "session_spec_prepare E s =
     (if \<not> e_mtp_ready E then (s, None)
      else case session_spec_init E s of
             (s1, None) \<Rightarrow> (s1, None)
           | (s1, Some e) \<Rightarrow> (s1\<lparr>spec_failed := False\<rparr>, Some e))"

subsection \<open>The head's cache\<close>

definition cache_feed_tail ::
  "('v, 'q) qengine \<Rightarrow> ('v, 'q) qsession \<Rightarrow> token \<Rightarrow> nat \<Rightarrow> ('v, 'q) qsession \<times> session_error option" where
  "cache_feed_tail E s tok pos =
     (if cache_seed_capacity (q_head s) = 0 then (s, None)
      else case mtp_head_feed_cache_tail (e_seed E) (q_head s) (q_graph s) tok pos of
        (h, g, changed, err) \<Rightarrow>
          let s1 = s\<lparr>q_head := h, q_graph := g\<rparr>
          in case err of
               Some e \<Rightarrow> (s1, Some (Head_Refusal e))
             | None \<Rightarrow> (if changed then s1\<lparr>q_spec := (q_spec s1)\<lparr>head_rows := pos\<rparr>\<rparr> else s1, None))"

text \<open>The rows before the last, in slices of the head's capacity.\<close>

function cache_rows_loop ::
  "('v, 'q) qengine \<Rightarrow> ('v, 'q) qsession \<Rightarrow> token list \<Rightarrow> nat \<Rightarrow> nat \<Rightarrow> ('v, 'q) qsession \<times> session_error option" where
  "cache_rows_loop E s toks pos0 i =
     (if i + 1 < length toks then
        let n = min (length toks - 1 - i) (cache_seed_capacity (q_head s))
        in case mtp_head_seed_cache (e_seed E) (q_head s) (q_graph s) (take n (drop (i + 1) toks))
                  (g_hyper (q_graph s)) i (pos0 + i) of
             (g, Some e) \<Rightarrow> (s\<lparr>q_graph := g\<rparr>, Some (Head_Refusal e))
           | (g, None) \<Rightarrow> cache_rows_loop E (s\<lparr>q_graph := g\<rparr>) toks pos0 (i + n)
      else (s, None))"
  by pat_completeness auto

lemma seed_cache_slice:
  "mtp_head_seed_cache seed h s (take n xs) hyper first pos0 = (s', None) \<Longrightarrow> 0 < n \<and> xs \<noteq> []"
  by (auto simp: mtp_head_seed_cache_def Let_def split: if_splits)

termination cache_rows_loop
  by (relation "measure (\<lambda>(E, s, toks, pos0, i). length toks - i)")
     (auto dest: seed_cache_slice [OF sym])

declare cache_rows_loop.simps [simp del]

definition cache_rows ::
  "('v, 'q) qengine \<Rightarrow> ('v, 'q) qsession \<Rightarrow> token list \<Rightarrow> nat \<Rightarrow> ('v, 'q) qsession \<times> session_error option" where
  "cache_rows E s toks pos0 =
     (if cache_seed_capacity (q_head s) = 0 then (s, None)
      else case cache_rows_loop E s toks pos0 0 of
             (s1, Some e) \<Rightarrow> (s1, Some e)
           | (s1, None) \<Rightarrow>
               (case mtp_head_retain_cache_tail (e_fails E) (q_head s1) (q_graph s1) (length toks - 1)
                       (pos0 + length toks - 1) (- 1) of
                  (h, Some e) \<Rightarrow> (s1\<lparr>q_head := h\<rparr>, Some (Head_Refusal e))
                | (h, None) \<Rightarrow>
                    (s1\<lparr>q_head := h, q_spec := (q_spec s1)\<lparr>head_rows := pos0 + length toks - 1\<rparr>\<rparr>, None)))"

subsection \<open>Serial rows\<close>

definition session_rows ::
  "('v, 'q) qengine \<Rightarrow> ('v, 'q) qsession \<Rightarrow> token list \<Rightarrow> ('v, 'q) qsession \<times> session_error option" where
  "session_rows E s toks =
     (if toks = [] \<or> length toks > g_n_batch (q_graph s) then (s, Some (Batch_Exceeded (length toks)))
      else if length toks > SERIAL_MAX_ROWS then (s, Some (Serial_Buffer_Exceeded (length toks)))
      else case (if e_mtp_ready E then session_spec_init E s else (s, None)) of
             (s1, Some e) \<Rightarrow> (s1, Some e)
           | (s1, None) \<Rightarrow>
               let pos0 = g_pos (q_graph s1)
               in case cache_feed_tail E s1 (hd toks) pos0 of
                    (s2, Some e) \<Rightarrow> (s2, Some e)
                  | (s2, None) \<Rightarrow>
                      (case graph_forward (e_kernels E) (e_fails E) (q_graph s2) toks
                              (snapshot_rows (length toks)) False of
                         (g, False) \<Rightarrow> (s2\<lparr>q_graph := g\<rparr>, Some Forward_Refused)
                       | (g, True) \<Rightarrow>
                           (case cache_rows E (s2\<lparr>q_graph := g, q_logits := g_logits g ! 0\<rparr>) toks pos0 of
                              (s3, Some e) \<Rightarrow> (s3, Some e)
                            | (s3, None) \<Rightarrow>
                                (s3\<lparr>checkpoint := checkpoint s3 @ toks, checkpoint_valid := True\<rparr>, None))))"

text \<open>Reset of the graph, the carried drafts, the head's tail and the tape.\<close>

definition session_invalidate :: "('v, 'q) qengine \<Rightarrow> ('v, 'q) qsession \<Rightarrow> ('v, 'q) qsession" where
  "session_invalidate E s =
     s\<lparr>q_graph := session_reset (e_zero E) (e_hist0 E) (q_graph s),
       q_spec := (mtp_invalidate (q_spec s))\<lparr>head_rows := 0\<rparr>,
       q_head := mtp_head_reset_cache (q_head s),
       checkpoint := [], checkpoint_valid := False\<rparr>"

text \<open>\<open>ds4_session_rewind\<close>: only to the start.\<close>

definition session_rewind :: "('v, 'q) qengine \<Rightarrow> ('v, 'q) qsession \<Rightarrow> int \<Rightarrow> ('v, 'q) qsession" where
  "session_rewind E s pos =
     (let p = min (max pos 0) (int (length (checkpoint s)))
      in if p = 0 then session_invalidate E s else s)"

lemma session_rows_nonempty: "session_rows E s toks = (s', None) \<Longrightarrow> toks \<noteq> []"
  by (auto simp: session_rows_def)

function sync_loop ::
  "('v, 'q) qengine \<Rightarrow> ('v, 'q) qsession \<Rightarrow> token list \<Rightarrow> nat \<Rightarrow> ('v, 'q) qsession \<times> session_error option" where
  "sync_loop E s prompt batch =
     (if prompt = [] then (s, None)
      else case session_rows E s (take batch prompt) of
             (s1, Some e) \<Rightarrow> (s1, Some e)
           | (s1, None) \<Rightarrow> sync_loop E s1 (drop batch prompt) batch)"
  by pat_completeness auto

termination sync_loop
  by (relation "measure (\<lambda>(E, s, prompt, batch). length prompt)")
     (auto dest!: session_rows_nonempty [OF sym])

declare sync_loop.simps [simp del]

definition session_sync ::
  "('v, 'q) qengine \<Rightarrow> ('v, 'q) qsession \<Rightarrow> token list \<Rightarrow> ('v, 'q) qsession \<times> session_error option" where
  "session_sync E s prompt =
     (if prompt = [] then (s, Some Empty_Prompt)
      else if int (length prompt) \<ge> q_ctx_size s then (s, Some (Prompt_Too_Long (length prompt) (q_ctx_size s)))
      else if e_cancelled E then (s, Some Interrupted)
      else sync_loop E (session_invalidate E s) prompt (g_n_batch (q_graph s)))"

definition session_eval ::
  "('v, 'q) qengine \<Rightarrow> ('v, 'q) qsession \<Rightarrow> token \<Rightarrow> ('v, 'q) qsession \<times> session_error option" where
  "session_eval E s tok = session_rows E (s\<lparr>q_spec := mtp_invalidate (q_spec s)\<rparr>) [tok]"

subsection \<open>The frontier\<close>

definition plain_argmax :: "('v, 'q) qengine \<Rightarrow> bool" where
  "plain_argmax E \<longleftrightarrow> e_env E ''DS4_CPU_DISABLE_UNROLLED_ARGMAX'' \<noteq> None"

definition session_argmax :: "('v, 'q) qengine \<Rightarrow> ('v, 'q) qsession \<Rightarrow> int" where
  "session_argmax E s =
     (if frontier_top1_valid (q_spec s) then frontier_top1 (q_spec s)
      else int (sample_argmax (plain_argmax E) (q_logits s) (k_n_vocab (e_kernels E))))"

definition session_materialize :: "('v, 'q) qengine \<Rightarrow> ('v, 'q) qsession \<Rightarrow> ('v, 'q) qsession \<times> bool" where
  "session_materialize E s =
     (if frontier_logits_deferred (q_spec s) then
        (if \<not> seam_bound s then (s, False)
         else case seam_read_logit_row (e_fails E) (q_graph s) (frontier_row (q_spec s)) of
                (g, None) \<Rightarrow> (s\<lparr>q_graph := g\<rparr>, False)
              | (g, Some l) \<Rightarrow>
                  (s\<lparr>q_graph := g, q_logits := l, q_spec := (q_spec s)\<lparr>frontier_logits_deferred := False\<rparr>\<rparr>, True))
      else (s, True))"

definition session_top ::
  "('v, 'q) qengine \<Rightarrow> ('v, 'q) qsession \<Rightarrow> int \<Rightarrow> ('v, 'q) qsession \<times> token_score list" where
  "session_top E s k =
     (if k \<le> 0 then (s, [])
      else case session_materialize E s of
             (s1, False) \<Rightarrow> (s1, [])
           | (s1, True) \<Rightarrow> (s1, session_top_logprobs (q_logits s1) (k_n_vocab (e_kernels E)) k))"

subsection \<open>The speculative verb\<close>

text \<open>The logit buffer after a round: untouched by the two refusals that come before it is looked at.\<close>

definition round_logits :: "f32 list \<Rightarrow> f32 list \<Rightarrow> (mtp_error, token list) result \<Rightarrow> f32 list" where
  "round_logits old lg r = (if r = Inl State_Not_Initialised \<or> r = Inl No_Logit_Buffer then old else lg)"

definition session_spec_cycle ::
  "('v, 'q) qengine \<Rightarrow> ('v, 'q) qsession \<Rightarrow> token \<Rightarrow> int \<Rightarrow> int \<Rightarrow>
     ('v, 'q) qsession \<times> (session_error, token list) result" where
  "session_spec_cycle E s first_token max_toks cap =
     (case session_spec_init E s of
        (s1, Some e) \<Rightarrow> (s1, Inl e)
      | (s1, None) \<Rightarrow>
          let pos = g_pos (q_graph s1)
          in case cache_feed_tail E s1 first_token pos of
               (s2, Some e) \<Rightarrow> (s2, Inl e)
             | (s2, None) \<Rightarrow>
                 (case mtp_cycle (qwen4exp_seam (e_kernels E) (e_fails E)) (q_spec s2) (q_graph s2) first_token
                         pos max_toks cap (Some (q_logits s2)) of
                    (st, g, lg, r) \<Rightarrow>
                      let s3 = s2\<lparr>q_spec := st, q_graph := g, q_logits := round_logits (q_logits s2) lg r\<rparr>
                      in case r of
                           Inl e \<Rightarrow> (s3, Inl (Seam_Refusal e))
                         | Inr acc \<Rightarrow>
                             (case (if acc \<noteq> [] \<and> cache_seed_capacity (q_head s3) \<noteq> 0
                                    then mtp_head_retain_cache_tail (e_fails E) (q_head s3) g (length acc - 1)
                                           (pos + length acc - 1) (pending_parent st)
                                    else (q_head s3, None)) of
                                (h, Some e) \<Rightarrow> (s3\<lparr>q_head := h\<rparr>, Inl (Head_Refusal e))
                              | (h, None) \<Rightarrow>
                                  (s3\<lparr>q_head := h, checkpoint := checkpoint s3 @ acc,
                                      checkpoint_valid := (acc \<noteq> [] \<or> checkpoint_valid s3)\<rparr>, Inr acc))))"

definition session_eval_speculative ::
  "('v, 'q) qengine \<Rightarrow> ('v, 'q) qsession \<Rightarrow> token \<Rightarrow> int \<Rightarrow> int \<Rightarrow> int \<Rightarrow>
     ('v, 'q) qsession \<times> (session_error, token list) result" where
  "session_eval_speculative E s first_token max_toks eos cap =
     (if e_mtp_ready E then session_spec_cycle E s first_token max_toks cap
      else e_other_verifier E s first_token max_toks eos cap)"

record spec_counters =
  sc_rounds :: nat
  sc_drafts :: nat
  sc_hits :: nat
  sc_committed :: nat
  sc_quenches :: nat
  sc_disagreements :: nat

definition session_spec_counters :: "('v, 'q) qsession \<Rightarrow> spec_counters" where
  "session_spec_counters s =
     (let c = counters (q_spec s)
      in \<lparr>sc_rounds = rounds c, sc_drafts = drafted c, sc_hits = accepted c, sc_committed = committed c,
          sc_quenches = quenches c, sc_disagreements = verify_replay_disagreements c\<rparr>)"

end
