(* ===== verification/Ds4_Shim.thy ===== *)
theory Ds4_Shim
  imports Qwen_Session
begin

text \<open>
  The C surface the resident process calls, \<open>ds4_shim.c\<close>: one handle that owns the engine and its
  session and keeps the text of the last failure, the verbs over it, and the warm-up that an open
  runs before the socket is bound.

  A verb returns the handle and its outcome; the \<open>int\<close> return codes of the C functions are the
  constructors of an option or a truth value. Loading the weights and creating the session are parameters of \<open>ds4s_open\<close>.
\<close>

record ('v, 'q) ds4s_handle =
  h_session :: "('v, 'q) qsession"
  h_err :: string
  h_vocab :: int
  h_eos :: int

subsection \<open>Failure texts\<close>

definition set_err :: "('v, 'q) ds4s_handle \<Rightarrow> string \<Rightarrow> ('v, 'q) ds4s_handle" where
  "set_err h msg = h\<lparr>h_err := take 511 msg\<rparr>"

text \<open>A verb's message buffer holds 255 characters; an empty one is replaced by the verb's own words.\<close>

definition refusal_text :: "('v, 'q) qengine \<Rightarrow> session_error \<Rightarrow> string \<Rightarrow> string" where
  "refusal_text E e fallback =
     (let m = (if e = No_Message then [] else take 255 (e_text E e)) in if m = [] then fallback else m)"

subsection \<open>The verbs\<close>

definition ds4s_invalidate :: "('v, 'q) qengine \<Rightarrow> ('v, 'q) ds4s_handle \<Rightarrow> ('v, 'q) ds4s_handle" where
  "ds4s_invalidate E h = h\<lparr>h_session := session_invalidate E (h_session h)\<rparr>"

definition ds4s_sync :: "('v, 'q) qengine \<Rightarrow> ('v, 'q) ds4s_handle \<Rightarrow> token list \<Rightarrow> ('v, 'q) ds4s_handle \<times> bool" where
  "ds4s_sync E h toks =
     (if toks = [] then (h, False)
      else case session_sync E (h_session h) toks of
             (s, None) \<Rightarrow> (h\<lparr>h_session := s\<rparr>, True)
           | (s, Some e) \<Rightarrow> (set_err (h\<lparr>h_session := s\<rparr>) (refusal_text E e ''ds4_session_sync failed''), False))"

definition ds4s_eval :: "('v, 'q) qengine \<Rightarrow> ('v, 'q) ds4s_handle \<Rightarrow> token \<Rightarrow> ('v, 'q) ds4s_handle \<times> bool" where
  "ds4s_eval E h tok =
     (case session_eval E (h_session h) tok of
        (s, None) \<Rightarrow> (h\<lparr>h_session := s\<rparr>, True)
      | (s, Some e) \<Rightarrow> (set_err (h\<lparr>h_session := s\<rparr>) (refusal_text E e ''ds4_session_eval failed''), False))"

definition ds4s_argmax :: "('v, 'q) qengine \<Rightarrow> ('v, 'q) ds4s_handle \<Rightarrow> int" where
  "ds4s_argmax E h = session_argmax E (h_session h)"

text \<open>\<open>fits n\<close>: the allocator can give \<open>n\<close> bytes; a score takes twelve.\<close>

definition ds4s_top_logits ::
  "(nat \<Rightarrow> bool) \<Rightarrow> ('v, 'q) qengine \<Rightarrow> ('v, 'q) ds4s_handle \<Rightarrow> int \<Rightarrow> ('v, 'q) ds4s_handle \<times> token_score list" where
  "ds4s_top_logits fits E h k =
     (if k \<le> 0 then (h, [])
      else if \<not> fits (nat k * 12) then (set_err h ''out of memory allocating the top-k buffer'', [])
      else case session_top E (h_session h) k of
        (s, scores) \<Rightarrow>
          let h1 = h\<lparr>h_session := s\<rparr>;
              h2 = (if scores = [] then set_err h1 ''ds4_session_top_logprobs returned no finite logits'' else h1)
          in (h2, takeWhile (\<lambda>c. 0 \<le> fst c) (take (nat k) scores)))"

definition ds4s_eval_speculative ::
  "('v, 'q) qengine \<Rightarrow> ('v, 'q) ds4s_handle \<Rightarrow> token \<Rightarrow> int \<Rightarrow> int \<Rightarrow> ('v, 'q) ds4s_handle \<times> token list option" where
  "ds4s_eval_speculative E h first_token budget cap =
     (if cap \<le> 0 \<or> budget \<le> 0 then (h, None)
      else
        let want = min (min cap 17) budget
        in case session_eval_speculative E (h_session h) first_token budget (- 1) want of
             (s, Inl e) \<Rightarrow>
               (set_err (h\<lparr>h_session := s\<rparr>) (refusal_text E e ''ds4_session_eval_speculative_argmax failed''), None)
           | (s, Inr acc) \<Rightarrow>
               let h1 = h\<lparr>h_session := s\<rparr>
               in if acc = [] then (set_err h1 ''ds4_session_eval_speculative_argmax failed'', None)
                  else (h1, Some (take (nat cap) acc)))"

definition ds4s_spec_counters :: "('v, 'q) ds4s_handle \<Rightarrow> spec_counters" where
  "ds4s_spec_counters h = session_spec_counters (h_session h)"

subsection \<open>Opening\<close>

definition WARM_PROMPT :: nat where "WARM_PROMPT = 1024"
definition WARM_ROUNDS :: nat where "WARM_ROUNDS = 16"
definition WARM_CAP :: int where "WARM_CAP = 8"
definition WARM_ROUNDS_CHAIN :: nat where "WARM_ROUNDS_CHAIN = 4"
definition WARM_PERIOD :: nat where "WARM_PERIOD = 17"
definition WARM_STRIDE :: int where "WARM_STRIDE = 7919"

definition warm_ids :: "int \<Rightarrow> token list" where
  "warm_ids vocab = map (\<lambda>i. 1 + (int (i mod WARM_PERIOD) * WARM_STRIDE) mod (vocab - 8)) [0..<WARM_PROMPT]"

text \<open>The consecutive rounds, each fed the last token of the round before.\<close>

primrec warm_chain :: "('v, 'q) qengine \<Rightarrow> ('v, 'q) ds4s_handle \<Rightarrow> token \<Rightarrow> nat \<Rightarrow> ('v, 'q) ds4s_handle \<times> token" where
  "warm_chain E h t 0 = (h, t)"
| "warm_chain E h t (Suc n) =
     (case ds4s_eval_speculative E h t 2 WARM_CAP of
        (h1, None) \<Rightarrow> (h1, t)
      | (h1, Some acc) \<Rightarrow> warm_chain E h1 (last acc) n)"

text \<open>The rounds that alternate between following and breaking the chain; \<open>n\<close> rounds are left.\<close>

primrec warm_mixed :: "('v, 'q) qengine \<Rightarrow> token list \<Rightarrow> ('v, 'q) ds4s_handle \<Rightarrow> token \<Rightarrow> nat \<Rightarrow> ('v, 'q) ds4s_handle" where
  "warm_mixed E ids h t 0 = h"
| "warm_mixed E ids h t (Suc n) =
     (case ds4s_eval_speculative E h t 2 WARM_CAP of
        (h1, None) \<Rightarrow> h1
      | (h1, Some acc) \<Rightarrow>
          let h2 = fst (ds4s_eval E h1 (last acc)); r = WARM_ROUNDS - Suc n
          in warm_mixed E ids h2 (if odd r then ds4s_argmax E h2 else ids ! ((r * 37 + 11) mod WARM_PROMPT)) n)"

definition warm_up :: "('v, 'q) qengine \<Rightarrow> int \<Rightarrow> ('v, 'q) ds4s_handle \<Rightarrow> ('v, 'q) ds4s_handle" where
  "warm_up E draft_tokens h =
     (let ids = warm_ids (h_vocab h)
      in case ds4s_sync E h ids of
           (h1, False) \<Rightarrow> h1
         | (h1, True) \<Rightarrow>
             let h2 = fst (ds4s_eval E h1 (ids ! (WARM_PROMPT - 1)))
             in if draft_tokens \<ge> 1
                then case warm_chain E h2 (ds4s_argmax E h2) WARM_ROUNDS_CHAIN of
                       (h3, t) \<Rightarrow> warm_mixed E ids h3 t WARM_ROUNDS
                else h2)"

datatype open_error = Bad_Open_Arguments | Handle_Memory | Engine_Open_Failed string | Session_Create_Failed int

text \<open>
  \<open>engine\<close> is the tokenizer's size and end token when the model loads, \<open>session\<close> the new session when
  it is created. A refusal to arm the drafter is logged and ignored.
\<close>

definition ds4s_open ::
  "(nat \<Rightarrow> bool) \<Rightarrow> ('v, 'q) qengine \<Rightarrow> string \<Rightarrow> int \<Rightarrow> int \<Rightarrow> (int \<times> int) option \<Rightarrow> ('v, 'q) qsession option \<Rightarrow>
     (open_error, ('v, 'q) ds4s_handle) result" where
  "ds4s_open fits E model_path draft_tokens ctx_size engine session =
     (if model_path = [] \<or> ctx_size \<le> 0 then Inl Bad_Open_Arguments
      else if \<not> fits 528 then Inl Handle_Memory
      else case engine of
        None \<Rightarrow> Inl (Engine_Open_Failed model_path)
      | Some (vocab, eos) \<Rightarrow>
          (case session of
             None \<Rightarrow> Inl (Session_Create_Failed ctx_size)
           | Some s \<Rightarrow>
               let h = \<lparr>h_session = fst (session_spec_prepare E s), h_err = [], h_vocab = vocab, h_eos = eos\<rparr>
               in Inr (if e_env E ''DS4_SHIM_NO_WARMUP'' = None
                       then ds4s_invalidate E (if vocab > 16 \<and> fits (WARM_PROMPT * 4) then warm_up E draft_tokens h else h)
                       else h)))"

end
