(* ===== verification/Resident.thy ===== *)
theory Resident
  imports Resident_Wire Ds4_Shim
begin

text \<open>
  The resident process, \<open>ds4_resident.c\<close>: one request line in, one reply line out, and around it
  the connection, which is one phase and starts with a reset, and the accept loop.

  \<open>serve_line\<close> returns the handle, the reply without its newline, and whether the connection is
  kept; \<open>None\<close> for the reply means that not even an error line could be built. Parameters: \<open>fits n\<close>
  says whether a host buffer can grow to \<open>n\<close> bytes, \<open>g9\<close> prints a \<open>float\<close> with \<open>%.9g\<close>. What the
  system calls of a connection do is a list of events; \<open>sends i\<close> says whether the write of the
  \<open>i\<close>-th reply goes through. Not modelled: the log, the creation of the socket and of the ready file,
  and \<open>exit(2)\<close> on a setting that is no integer.
\<close>

definition RESIDENT_MAX_TOP_K :: int where "RESIDENT_MAX_TOP_K = 64"
definition RESIDENT_MAX_SPEC :: int where "RESIDENT_MAX_SPEC = 17"
definition RESIDENT_MAX_RUN :: int where "RESIDENT_MAX_RUN = 65536"

record resident =
  r_ident :: string
  r_model_path :: string
  r_mtp_head_path :: string
  r_draft_tokens :: int
  r_ctx_size :: int
  r_load_epoch :: nat
  r_spec_run :: bool

subsection \<open>Replies\<close>

definition json_bool :: "bool \<Rightarrow> string" where
  "json_bool b = (if b then ''true'' else ''false'')"

definition error_reply :: "string \<Rightarrow> string" where
  "error_reply why = ''{\"ok\":false,\"error\":'' @ json_string why @ ''}''"

definition token_reply :: "int \<Rightarrow> string" where
  "token_reply t = ''{\"ok\":true,\"token\":'' @ dec_int t @ ''}''"

definition ok_reply :: string where
  "ok_reply = ''{\"ok\":true}''"

definition hello_reply :: "resident \<Rightarrow> ('v, 'q) ds4s_handle \<Rightarrow> string" where
  "hello_reply r h =
     ''{\"ok\":true,\"vocab_size\":'' @ dec_int (h_vocab h) @ '',\"eos_token\":'' @ dec_int (h_eos h)
     @ '',\"mtp_armed\":'' @ json_bool (r_draft_tokens r \<ge> 2)
     @ '',\"draft_tokens\":'' @ dec_int (r_draft_tokens r) @ '',\"ctx_size\":'' @ dec_int (r_ctx_size r)
     @ '',\"load_epoch\":'' @ dec (r_load_epoch r) @ '',\"spec_run\":'' @ json_bool (r_spec_run r)
     @ '',\"ident\":'' @ json_string (r_ident r) @ '',\"model_path\":'' @ json_string (r_model_path r)
     @ '',\"mtp_head_path\":'' @ json_string (r_mtp_head_path r) @ ''}''"

fun comma_join :: "string list \<Rightarrow> string" where
  "comma_join [] = []"
| "comma_join [x] = x"
| "comma_join (x # xs) = x @ '','' @ comma_join xs"

definition top_reply :: "(f32 \<Rightarrow> string) \<Rightarrow> token_score list \<Rightarrow> string" where
  "top_reply g9 scores =
     ''{\"ok\":true,\"ids\":['' @ json_ints (map fst scores) @ ''],\"logits\":[''
     @ comma_join (map (\<lambda>c. g9 (snd c)) scores) @ '']}''"

definition round_reply :: "token list \<Rightarrow> int \<Rightarrow> string" where
  "round_reply acc t = ''{\"ok\":true,\"tokens\":['' @ json_ints acc @ ''],\"token\":'' @ dec_int t @ ''}''"

definition run_reply :: "token list list \<Rightarrow> token list \<Rightarrow> int \<Rightarrow> string" where
  "run_reply rs fs t =
     ''{\"ok\":true,\"rounds\":['' @ json_rounds rs @ ''],\"frontiers\":['' @ json_ints fs
     @ ''],\"token\":'' @ dec_int t @ ''}''"

definition counters_reply :: "spec_counters \<Rightarrow> string" where
  "counters_reply c =
     ''{\"ok\":true,\"drafts\":'' @ dec (sc_drafts c) @ '',\"hits\":'' @ dec (sc_hits c)
     @ '',\"quenches\":'' @ dec (sc_quenches c) @ '',\"disagreements\":'' @ dec (sc_disagreements c) @ ''}''"

text \<open>A line with its newline and the terminating NUL has to fit.\<close>

definition send_error :: "(nat \<Rightarrow> bool) \<Rightarrow> string \<Rightarrow> string option" where
  "send_error fits why = (let t = error_reply why in if fits (length t + 2) then Some t else None)"

definition send_built :: "(nat \<Rightarrow> bool) \<Rightarrow> string \<Rightarrow> string option" where
  "send_built fits t =
     (if \<not> fits (length t + 1) then send_error fits ''the server could not build its response''
      else if fits (length t + 2) then Some t else None)"

subsection \<open>The free run\<close>

datatype run_outcome = Run_Refused | Run_Not_Built | Run_Done "token list list" "token list"

definition run_fits :: "(nat \<Rightarrow> bool) \<Rightarrow> token list list \<Rightarrow> token list \<Rightarrow> bool" where
  "run_fits fits rs fs \<longleftrightarrow> fits (length ''{\"ok\":true,\"rounds\":['' + length (json_rounds rs) + 1) \<and> fits (length (json_ints fs) + 1)"

text \<open>\<open>left\<close> tokens are still wanted; \<open>rs\<close> and \<open>fs\<close> are the rounds and frontiers so far.\<close>

function spec_rounds ::
  "(nat \<Rightarrow> bool) \<Rightarrow> ('v, 'q) qengine \<Rightarrow> ('v, 'q) ds4s_handle \<Rightarrow> token \<Rightarrow> int \<Rightarrow> token list list \<Rightarrow> token list \<Rightarrow>
     ('v, 'q) ds4s_handle \<times> run_outcome" where
  "spec_rounds fits E h pend left rs fs =
     (if left \<le> 0 then (h, Run_Done rs fs)
      else case ds4s_eval_speculative E h pend left RESIDENT_MAX_SPEC of
             (h1, None) \<Rightarrow> (h1, Run_Refused)
           | (h1, Some acc) \<Rightarrow>
               let frontier = ds4s_argmax E h1; rs' = rs @ [acc]; fs' = fs @ [frontier]
               in if \<not> run_fits fits rs' fs' then (h1, Run_Not_Built)
                  else if acc = [] \<or> hd acc \<noteq> pend then (h1, Run_Done rs' fs')
                  else spec_rounds fits E h1 frontier (left - int (length acc)) rs' fs')"
  by pat_completeness auto

termination spec_rounds
  by (relation "measure (\<lambda>(fits, E, h, pend, left, rs, fs). nat left)") auto

declare spec_rounds.simps [simp del]

subsection \<open>One request\<close>

definition serve_sync ::
  "(nat \<Rightarrow> bool) \<Rightarrow> ('v, 'q) qengine \<Rightarrow> ('v, 'q) ds4s_handle \<Rightarrow> string \<Rightarrow> ('v, 'q) ds4s_handle \<times> string option" where
  "serve_sync fits E h line =
     (case field_int_array line ''tokens'' of
        None \<Rightarrow> (h, send_error fits ''sync needs a \"tokens\" integer array'')
      | Some toks \<Rightarrow>
          if \<not> fits (4 * length toks) then (h, send_error fits ''sync needs a \"tokens\" integer array'')
          else case ds4s_sync E h toks of
                 (h1, False) \<Rightarrow> (h1, send_error fits (h_err h1))
               | (h1, True) \<Rightarrow> (h1, send_built fits (token_reply (ds4s_argmax E h1))))"

definition serve_eval ::
  "(nat \<Rightarrow> bool) \<Rightarrow> ('v, 'q) qengine \<Rightarrow> ('v, 'q) ds4s_handle \<Rightarrow> string \<Rightarrow> ('v, 'q) ds4s_handle \<times> string option" where
  "serve_eval fits E h line =
     (case field_int line ''token'' of
        None \<Rightarrow> (h, send_error fits ''eval needs a \"token\" integer'')
      | Some tok \<Rightarrow>
          (case ds4s_eval E h (cast_i32 tok) of
             (h1, False) \<Rightarrow> (h1, send_error fits (h_err h1))
           | (h1, True) \<Rightarrow> (h1, send_built fits (token_reply (ds4s_argmax E h1)))))"

definition serve_top_logits ::
  "(nat \<Rightarrow> bool) \<Rightarrow> (f32 \<Rightarrow> string) \<Rightarrow> ('v, 'q) qengine \<Rightarrow> ('v, 'q) ds4s_handle \<Rightarrow> string \<Rightarrow>
     ('v, 'q) ds4s_handle \<times> string option" where
  "serve_top_logits fits g9 E h line =
     (case field_int line ''k'' of
        None \<Rightarrow> (h, send_error fits ''top_logits needs a \"k\" integer in 1..64'')
      | Some k \<Rightarrow>
          if k \<le> 0 \<or> k > RESIDENT_MAX_TOP_K then (h, send_error fits ''top_logits needs a \"k\" integer in 1..64'')
          else case ds4s_top_logits fits E h k of
                 (h1, scores) \<Rightarrow> (h1, send_built fits (top_reply g9 scores)))"

definition serve_eval_speculative ::
  "(nat \<Rightarrow> bool) \<Rightarrow> ('v, 'q) qengine \<Rightarrow> ('v, 'q) ds4s_handle \<Rightarrow> string \<Rightarrow> ('v, 'q) ds4s_handle \<times> string option" where
  "serve_eval_speculative fits E h line =
     (case (field_int line ''first_token'', field_int line ''budget'') of
        (Some first, Some budget) \<Rightarrow>
          (case ds4s_eval_speculative E h (cast_i32 first) (cast_i32 budget) RESIDENT_MAX_SPEC of
             (h1, None) \<Rightarrow> (h1, send_error fits (h_err h1))
           | (h1, Some acc) \<Rightarrow> (h1, send_built fits (round_reply acc (ds4s_argmax E h1))))
      | _ \<Rightarrow> (h, send_error fits ''eval_speculative needs \"first_token\" and \"budget\"''))"

definition serve_spec_run ::
  "(nat \<Rightarrow> bool) \<Rightarrow> ('v, 'q) qengine \<Rightarrow> resident \<Rightarrow> ('v, 'q) ds4s_handle \<Rightarrow> string \<Rightarrow>
     ('v, 'q) ds4s_handle \<times> string option" where
  "serve_spec_run fits E r h line =
     (if \<not> r_spec_run r then (h, send_error fits ''spec_run is not offered (DS4_RESIDENT_NO_SPEC_RUN)'')
      else case (field_int line ''first_token'', field_int line ''count'') of
        (Some first, Some count) \<Rightarrow>
          if count \<le> 0 \<or> count > RESIDENT_MAX_RUN
          then (h, send_error fits ''spec_run needs \"first_token\" and a \"count\" in 1..65536'')
          else (case spec_rounds fits E h (cast_i32 first) count [] [] of
                  (h1, Run_Refused) \<Rightarrow> (h1, send_error fits (h_err h1))
                | (h1, Run_Not_Built) \<Rightarrow> (h1, send_error fits ''the server could not build its response'')
                | (h1, Run_Done rs fs) \<Rightarrow> (h1, send_built fits (run_reply rs fs (ds4s_argmax E h1))))
      | _ \<Rightarrow> (h, send_error fits ''spec_run needs \"first_token\" and a \"count\" in 1..65536''))"

definition serve_line ::
  "(nat \<Rightarrow> bool) \<Rightarrow> (f32 \<Rightarrow> string) \<Rightarrow> ('v, 'q) qengine \<Rightarrow> resident \<Rightarrow> ('v, 'q) ds4s_handle \<Rightarrow> string \<Rightarrow>
     ('v, 'q) ds4s_handle \<times> string option \<times> bool" where
  "serve_line fits g9 E r h line =
     (case field_string line ''op'' 32 of
        None \<Rightarrow> (h, send_error fits ''request carries no \"op\" string'', True)
      | Some op \<Rightarrow>
          if op = ''hello'' then (h, send_built fits (hello_reply r h), True)
          else if op = ''invalidate'' then (ds4s_invalidate E h, send_built fits ok_reply, True)
          else if op = ''sync'' then (case serve_sync fits E h line of (h1, t) \<Rightarrow> (h1, t, True))
          else if op = ''eval'' then (case serve_eval fits E h line of (h1, t) \<Rightarrow> (h1, t, True))
          else if op = ''argmax'' then (h, send_built fits (token_reply (ds4s_argmax E h)), True)
          else if op = ''top_logits'' then (case serve_top_logits fits g9 E h line of (h1, t) \<Rightarrow> (h1, t, True))
          else if op = ''eval_speculative'' then (case serve_eval_speculative fits E h line of (h1, t) \<Rightarrow> (h1, t, True))
          else if op = ''spec_run'' then (case serve_spec_run fits E r h line of (h1, t) \<Rightarrow> (h1, t, True))
          else if op = ''spec_counters'' then (h, send_built fits (counters_reply (ds4s_spec_counters h)), True)
          else if op = ''bye'' then
            (h, send_built fits ok_reply, \<not> fits (length ok_reply + 1))
          else (h, send_error fits (take 95 (''unknown op \"'' @ op @ [QUOTE])), True))"

subsection \<open>One phase\<close>

datatype io_event =
    Chunk string
  | Idle
  | Poll_Interrupted
  | Poll_Failed
  | No_Memory
  | Read_Interrupted
  | Read_Failed
  | Stop_Signal

definition NEWLINE :: char where "NEWLINE = CHR 0x0A"

definition c_string :: "string \<Rightarrow> string" where
  "c_string = takeWhile (\<lambda>c. c \<noteq> CHR 0x00)"

definition first_line :: "string \<Rightarrow> (string \<times> string) option" where
  "first_line s =
     (let l = takeWhile (\<lambda>c. c \<noteq> NEWLINE) s
      in if length l < length s then Some (l, drop (Suc (length l)) s) else None)"

lemma first_line_shorter: "first_line s = Some (l, rest) \<Longrightarrow> length rest < length s"
  by (auto simp: first_line_def Let_def split: if_splits)

text \<open>The loop of a connection: \<open>buf\<close> is what was read and not yet served, \<open>out\<close> the replies sent.\<close>

function serve_loop ::
  "(nat \<Rightarrow> bool) \<Rightarrow> (f32 \<Rightarrow> string) \<Rightarrow> (nat \<Rightarrow> bool) \<Rightarrow> ('v, 'q) qengine \<Rightarrow> resident \<Rightarrow> ('v, 'q) ds4s_handle \<Rightarrow> bool \<Rightarrow>
     string \<Rightarrow> io_event list \<Rightarrow> string list \<Rightarrow> ('v, 'q) ds4s_handle \<times> bool \<times> string list" where
  "serve_loop fits g9 sends E r h stop buf evs out =
     (case first_line buf of
        Some (line, rest) \<Rightarrow>
          (case serve_line fits g9 E r h (c_string line) of
             (h1, None, keep) \<Rightarrow> (h1, stop, out)
           | (h1, Some reply, keep) \<Rightarrow>
               if \<not> sends (length out) then (h1, stop, out)
               else if keep then serve_loop fits g9 sends E r h1 stop rest evs (out @ [reply])
               else (h1, stop, out @ [reply]))
      | None \<Rightarrow>
          (case evs of
             [] \<Rightarrow> (h, stop, out)
           | Chunk s # es \<Rightarrow> if s = [] then (h, stop, out) else serve_loop fits g9 sends E r h stop (buf @ s) es out
           | Poll_Interrupted # es \<Rightarrow> if stop then (h, stop, out) else serve_loop fits g9 sends E r h stop buf es out
           | Read_Interrupted # es \<Rightarrow> serve_loop fits g9 sends E r h stop buf es out
           | Stop_Signal # es \<Rightarrow> serve_loop fits g9 sends E r h True buf es out
           | _ # es \<Rightarrow> (h, stop, out)))"
  by pat_completeness auto

termination serve_loop
  by (relation "inv_image (less_than <*lex*> less_than)
       (\<lambda>(fits, g9, sends, E, r, h, stop, buf, evs, out). (length evs, length buf))")
     (auto dest: first_line_shorter)

declare serve_loop.simps [simp del]

definition serve_connection ::
  "(nat \<Rightarrow> bool) \<Rightarrow> (f32 \<Rightarrow> string) \<Rightarrow> (nat \<Rightarrow> bool) \<Rightarrow> ('v, 'q) qengine \<Rightarrow> resident \<Rightarrow> ('v, 'q) ds4s_handle \<Rightarrow> bool \<Rightarrow>
     io_event list \<Rightarrow> ('v, 'q) ds4s_handle \<times> bool \<times> string list" where
  "serve_connection fits g9 sends E r h stop evs = serve_loop fits g9 sends E r (ds4s_invalidate E h) stop [] evs []"

text \<open>The accept loop: the phases, each with the replies it got.\<close>

datatype accept_event = Accepted "nat \<Rightarrow> bool" "io_event list" | Accept_Interrupted | Accept_Failed | Accept_Signal

primrec accept_loop ::
  "(nat \<Rightarrow> bool) \<Rightarrow> (f32 \<Rightarrow> string) \<Rightarrow> ('v, 'q) qengine \<Rightarrow> resident \<Rightarrow> ('v, 'q) ds4s_handle \<Rightarrow> bool \<Rightarrow> accept_event list \<Rightarrow>
     ('v, 'q) ds4s_handle \<times> string list list" where
  "accept_loop fits g9 E r h stop [] = (h, [])"
| "accept_loop fits g9 E r h stop (a # as) =
     (if stop then (h, [])
      else case a of
             Accept_Failed \<Rightarrow> (h, [])
           | Accept_Interrupted \<Rightarrow> accept_loop fits g9 E r h stop as
           | Accept_Signal \<Rightarrow> accept_loop fits g9 E r h True as
           | Accepted sends evs \<Rightarrow>
               (case serve_connection fits g9 sends E r h stop evs of
                  (h1, stop1, out) \<Rightarrow>
                    (case accept_loop fits g9 E r h1 stop1 as of (h2, outs) \<Rightarrow> (h2, out # outs))))"

end
