(* ===== verification/Qwen_Exact.thy ===== *)
theory Qwen_Exact
  imports Qwen_Session
begin

text \<open>
  The session verbs implement the token-serial target: a verb that succeeds leaves the session
  in sync with the target fed the same tokens and its greedy pick at the frontier, whether the
  tokens went through serial rows or through the speculative cycle; a verb that fails keeps the
  invariant under which the next reset restores the empty session.
\<close>

subsection \<open>What publishing into the head's cache leaves alone\<close>

definition head_only :: "('v, 'q) gsession \<Rightarrow> ('v, 'q) gsession \<Rightarrow> bool" where
  "head_only g g' \<longleftrightarrow> (\<exists>b c mg. g' = g\<lparr>state_dirty := b, head_cache := c, last_margin := mg\<rparr> \<and>
     (\<not> b \<longrightarrow> \<not> state_dirty g \<and> c = head_cache g))"

lemma head_only_refl [simp]: "head_only g g"
  unfolding head_only_def by (rule exI [of _ "state_dirty g"], rule exI [of _ "head_cache g"], rule exI [of _ "last_margin g"]) simp

lemma head_only_upd [simp]: "head_only g (g\<lparr>state_dirty := True, head_cache := c\<rparr>)"
  "head_only g (g\<lparr>state_dirty := True\<rparr>)" "head_only g (g\<lparr>last_margin := mg\<rparr>)"
proof -
  show "head_only g (g\<lparr>state_dirty := True, head_cache := c\<rparr>)"
    unfolding head_only_def by (rule exI [of _ True], rule exI [of _ c], rule exI [of _ "last_margin g"]) simp
  show "head_only g (g\<lparr>state_dirty := True\<rparr>)"
    unfolding head_only_def by (rule exI [of _ True], rule exI [of _ "head_cache g"], rule exI [of _ "last_margin g"]) simp
  show "head_only g (g\<lparr>last_margin := mg\<rparr>)"
    unfolding head_only_def by (rule exI [of _ "state_dirty g"], rule exI [of _ "head_cache g"], rule exI [of _ mg]) simp
qed

lemma head_only_trans:
  assumes "head_only a b" "head_only b c"
  shows "head_only a c"
proof -
  obtain d h mg where b: "b = a\<lparr>state_dirty := d, head_cache := h, last_margin := mg\<rparr>"
    "\<not> d \<longrightarrow> \<not> state_dirty a \<and> h = head_cache a"
    using assms(1) by (auto simp: head_only_def)
  obtain d' h' mg' where c: "c = b\<lparr>state_dirty := d', head_cache := h', last_margin := mg'\<rparr>"
    "\<not> d' \<longrightarrow> \<not> state_dirty b \<and> h' = head_cache b"
    using assms(2) by (auto simp: head_only_def)
  have "c = a\<lparr>state_dirty := d', head_cache := h', last_margin := mg'\<rparr>" using b(1) c(1) by simp
  moreover have "\<not> d' \<longrightarrow> \<not> state_dirty a \<and> h' = head_cache a" using b c(2) by simp
  ultimately show ?thesis unfolding head_only_def by blast
qed

lemma head_only_fields:
  assumes "head_only g g'"
  shows "g_pos g' = g_pos g" "g_n_batch g' = g_n_batch g" "g_n_ctx g' = g_n_ctx g" "g_hyper g' = g_hyper g" "g_logits g' = g_logits g"
    "in_sync (graph_holds K) g' t \<longleftrightarrow> in_sync (graph_holds K) g t"
    "clean_ok zero q0 g \<Longrightarrow> clean_ok zero q0 g'"
proof -
  obtain d h mg where b: "g' = g\<lparr>state_dirty := d, head_cache := h, last_margin := mg\<rparr>"
    "\<not> d \<longrightarrow> \<not> state_dirty g \<and> h = head_cache g"
    using assms by (auto simp: head_only_def)
  show "g_pos g' = g_pos g" "g_n_batch g' = g_n_batch g" "g_n_ctx g' = g_n_ctx g" "g_hyper g' = g_hyper g" "g_logits g' = g_logits g"
    unfolding b(1) by simp_all
  show "in_sync (graph_holds K) g' t \<longleftrightarrow> in_sync (graph_holds K) g t"
    unfolding b(1) in_sync_graph by (simp add: adopt_ok_def eff_state_def eff_conv_def slot_state_def)
  show "clean_ok zero q0 g \<Longrightarrow> clean_ok zero q0 g'" using b by (simp add: clean_ok_def)
qed

lemma seed_cache_head_only: "mtp_head_seed_cache seed h g xs hy f p = (g', r) \<Longrightarrow> head_only g g'"
  by (auto simp: mtp_head_seed_cache_def Let_def split: if_splits prod.splits)

lemma feed_tail_head_only:
  "mtp_head_feed_cache_tail seed h g tok pos = (h', g', ch, r) \<Longrightarrow> head_only g g'"
  by (auto simp: mtp_head_feed_cache_tail_def split: if_splits prod.splits option.splits dest: seed_cache_head_only)

text \<open>The head, its cache and the number of its rows may change, nothing else.\<close>

definition publishes :: "('v, 'q) qsession \<Rightarrow> ('v, 'q) qsession \<Rightarrow> bool" where
  "publishes s s' \<longleftrightarrow> (\<exists>h g r. s' = s\<lparr>q_head := h, q_graph := g, q_spec := (q_spec s)\<lparr>head_rows := r\<rparr>\<rparr> \<and> head_only (q_graph s) g)"

lemma publishesI:
  "head_only (q_graph s) g \<Longrightarrow> publishes s (s\<lparr>q_head := h, q_graph := g\<rparr>)"
  "head_only (q_graph s) g \<Longrightarrow> publishes s (s\<lparr>q_head := h, q_graph := g, q_spec := (q_spec s)\<lparr>head_rows := r\<rparr>\<rparr>)"
  "head_only (q_graph s) g \<Longrightarrow> publishes s (s\<lparr>q_graph := g\<rparr>)"
  "publishes s (s\<lparr>q_head := h\<rparr>)" "publishes s s"
proof -
  have e: "(q_spec s)\<lparr>head_rows := head_rows (q_spec s)\<rparr> = q_spec s" by simp
  show "head_only (q_graph s) g \<Longrightarrow> publishes s (s\<lparr>q_head := h, q_graph := g\<rparr>)"
    unfolding publishes_def by (rule exI [of _ h], rule exI [of _ g], rule exI [of _ "head_rows (q_spec s)"]) simp
  show "head_only (q_graph s) g \<Longrightarrow> publishes s (s\<lparr>q_head := h, q_graph := g, q_spec := (q_spec s)\<lparr>head_rows := r\<rparr>\<rparr>)"
    unfolding publishes_def by blast
  show "head_only (q_graph s) g \<Longrightarrow> publishes s (s\<lparr>q_graph := g\<rparr>)"
    unfolding publishes_def by (rule exI [of _ "q_head s"], rule exI [of _ g], rule exI [of _ "head_rows (q_spec s)"]) simp
  show "publishes s (s\<lparr>q_head := h\<rparr>)"
    unfolding publishes_def by (rule exI [of _ h], rule exI [of _ "q_graph s"], rule exI [of _ "head_rows (q_spec s)"]) simp
  show "publishes s s"
    unfolding publishes_def by (rule exI [of _ "q_head s"], rule exI [of _ "q_graph s"], rule exI [of _ "head_rows (q_spec s)"]) simp
qed

lemma publishes_trans: "publishes a b \<Longrightarrow> publishes b c \<Longrightarrow> publishes a c"
  unfolding publishes_def by (auto dest: head_only_trans) (metis (no_types, lifting) head_only_trans)

lemma publishes_fields:
  assumes "publishes s s'"
  shows "head_only (q_graph s) (q_graph s')" "q_logits s' = q_logits s" "checkpoint s' = checkpoint s"
    "spec_ready s' = spec_ready s" "seam_bound s' = seam_bound s" "head_slots s' = head_slots s"
    "q_ctx_size s' = q_ctx_size s" "\<exists>r. q_spec s' = (q_spec s)\<lparr>head_rows := r\<rparr>"
  using assms by (auto simp: publishes_def)

lemma cache_feed_tail_publishes: "cache_feed_tail E s tok pos = (s', r) \<Longrightarrow> publishes s s'"
  by (auto simp: cache_feed_tail_def Let_def split: if_splits prod.splits option.splits
      dest!: feed_tail_head_only intro: publishesI)

lemma cache_rows_loop_publishes: "cache_rows_loop E s toks pos0 i = (s', r) \<Longrightarrow> publishes s s'"
proof (induction E s toks pos0 i arbitrary: s' r rule: cache_rows_loop.induct)
  case (1 E s toks pos0 i)
  let ?n = "min (length toks - 1 - i) (cache_seed_capacity (q_head s))"
  obtain g e where g: "mtp_head_seed_cache (e_seed E) (q_head s) (q_graph s) (take ?n (drop (i + 1) toks))
      (g_hyper (q_graph s)) i (pos0 + i) = (g, e)" by (meson surj_pair)
  have p: "publishes s (s\<lparr>q_graph := g\<rparr>)" using seed_cache_head_only [OF g] by (rule publishesI)
  show ?case
  proof (cases "i + 1 < length toks \<and> e = None")
    case True
    then have "cache_rows_loop E (s\<lparr>q_graph := g\<rparr>) toks pos0 (i + ?n) = (s', r)"
      using "1.prems" g by (subst (asm) cache_rows_loop.simps) (simp add: Let_def)
    then show ?thesis using "1.IH" [of ?n] True g p publishes_trans by (metis (no_types, lifting))
  next
    case False
    then show ?thesis using "1.prems" g p
      by (subst (asm) cache_rows_loop.simps) (auto simp: Let_def intro: publishesI split: option.splits if_splits)
  qed
qed

lemma cache_rows_publishes:
  assumes "cache_rows E s toks pos0 = (s', r)"
  shows "publishes s s'"
proof (cases "cache_seed_capacity (q_head s) = 0")
  case True
  then show ?thesis using assms by (auto simp: cache_rows_def intro: publishesI)
next
  case False
  obtain s1 e where l: "cache_rows_loop E s toks pos0 0 = (s1, e)" by (meson surj_pair)
  obtain h e2 where t: "mtp_head_retain_cache_tail (e_fails E) (q_head s1) (q_graph s1) (length toks - 1)
      (pos0 + length toks - 1) (- 1) = (h, e2)" by (meson surj_pair)
  have p1: "publishes s s1" by (rule cache_rows_loop_publishes [OF l])
  have "publishes s1 (s1\<lparr>q_head := h\<rparr>)" "publishes s1 (s1\<lparr>q_head := h, q_spec := (q_spec s1)\<lparr>head_rows := n\<rparr>\<rparr>)" for n
    using publishesI(4) [of s1 h] publishesI(2) [where s = s1 and g = "q_graph s1" and h = h and r = n] by simp_all
  then show ?thesis
    using assms False l t p1 publishes_trans [OF p1]
    by (cases e; cases e2) (auto simp: cache_rows_def)
qed

subsection \<open>The invariant\<close>

definition session_inv :: "('v, 'q) qengine \<Rightarrow> ('v, 'q) qsession \<Rightarrow> bool" where
  "session_inv E s \<longleftrightarrow> clean_ok (e_zero E) (e_hist0 E) (q_graph s) \<and>
     (if spec_ready s
      then mtp_wf (q_spec s) \<and> n_vocab (q_spec s) = k_n_vocab (e_kernels E) \<and> hc_dim (q_spec s) = k_hc_dim (e_kernels E)
        \<and> session_rollback_set (e_kernels E) (e_fails E) (e_ratio E) = Inr (rollback (q_spec s)) \<and> seam_bound s
      else \<not> frontier_top1_valid (q_spec s) \<and> \<not> frontier_logits_deferred (q_spec s))"

lemma inv_clean: "session_inv E s \<Longrightarrow> clean_ok (e_zero E) (e_hist0 E) (q_graph s)"
  by (simp add: session_inv_def)

lemma publishes_inv: "publishes s s' \<Longrightarrow> session_inv E s \<Longrightarrow> session_inv E s'"
  unfolding publishes_def session_inv_def
  by (auto simp: head_only_fields(7) intro: mtp_wf_upd split: if_splits)

lemma inv_graph: "session_inv E s \<Longrightarrow> clean_ok (e_zero E) (e_hist0 E) g \<Longrightarrow> session_inv E (s\<lparr>q_graph := g\<rparr>)"
  by (simp add: session_inv_def)

lemma inv_irrelevant [simp]:
  "session_inv E (s\<lparr>q_logits := l\<rparr>) = session_inv E s"
  "session_inv E (s\<lparr>checkpoint := c, checkpoint_valid := v\<rparr>) = session_inv E s"
  "session_inv E (s\<lparr>q_head := h\<rparr>) = session_inv E s"
  "session_inv E (s\<lparr>spec_failed := b\<rparr>) = session_inv E s"
  by (simp_all add: session_inv_def)

lemma add_head_block_ok:
  assumes "add_head_block E s = (s', ok)"
  shows "\<exists>g sl. s' = s\<lparr>q_graph := g, head_slots := sl\<rparr> \<and> head_only (q_graph s) g"
proof -
  have "s' = s\<lparr>q_graph := q_graph s', head_slots := head_slots s'\<rparr>" "head_only (q_graph s) (q_graph s')"
    using assms by (auto simp: add_head_block_def Let_def split: if_splits)
  then show ?thesis by blast
qed

lemma rollback_set_accepted: "\<exists>S. session_rollback_set K fails ratio = Inr S \<and> rollback_complete S"
proof -
  have "\<not> isl (session_rollback_set K fails ratio)"
    by (simp add: session_rollback_set_def session_objects_def rollback_register_def state_ids
        state_kind_def rollback_init_def rollback_check_def eval_nat_numeral)
  then obtain S where S: "session_rollback_set K fails ratio = Inr S"
    by (cases "session_rollback_set K fails ratio") auto
  then show ?thesis using rollback_set_objects(1) by blast
qed

subsection \<open>The engine's contract\<close>

text \<open>
  Kernels that are batch invariant; every row of logits they produce has a value above the floor
  \<open>DS4_NEG_INF\<close> and no NaN in front, as the greedy scan of the session requires; scratch
  blocks of the sizes asked for; and a verifier of other families that keeps the invariant.
\<close>

locale qwen_engine =
  fixes E :: "('v, 'q) qengine" and row :: "'v row_forward"
  assumes kernels: "qwen_kernels (e_kernels E) row"
    and logits_sane: "l \<in> set (k_logits (e_kernels E) hs) \<Longrightarrow> pickable l (k_n_vocab (e_kernels E))"
    and scratch: "e_scratch E = Some rs \<Longrightarrow> length rs = MTP_HC_ROWS"
    and scratch_logits: "e_scratch_logits E = Some ls \<Longrightarrow> length ls = MTP_MAX_COMMIT"
    and other_keeps: "session_inv E s \<Longrightarrow> session_inv E (fst (e_other_verifier E s x b eos c))"
begin

definition synced :: "('v, 'q) qsession \<Rightarrow> ('v, 'q) target \<Rightarrow> bool" where
  "synced s t \<longleftrightarrow> in_sync (graph_holds (e_kernels E)) (q_graph s) t"

definition feed :: "('v, 'q) target \<Rightarrow> token list \<Rightarrow> ('v, 'q) target" where
  "feed = foldl (target_step (e_kernels E) row)"

definition best :: "('v, 'q) target \<Rightarrow> token" where
  "best = target_pick (e_kernels E)"

lemma synced_pos: "synced s t \<Longrightarrow> g_pos (q_graph s) = target_pos t"
  by (simp add: synced_def in_sync_graph target_pos_def)

lemma publishes_synced: "publishes s s' \<Longrightarrow> synced s' t \<longleftrightarrow> synced s t"
  using publishes_fields(1) [of s s'] by (simp add: synced_def head_only_fields(6))

lemma renders_sample:
  assumes "renders (e_kernels E) l t"
  shows "int (sample_argmax b l (k_n_vocab (e_kernels E))) = best t"
proof -
  have "pickable l (k_n_vocab (e_kernels E))" using assms logits_sane by (auto simp: renders_def)
  then have "int (sample_argmax b l (k_n_vocab (e_kernels E))) = mtp_argmax l (k_n_vocab (e_kernels E))"
    by (rule sample_argmax_cycle)
  then show ?thesis using assms by (simp add: renders_def best_def)
qed

lemma spec_init_cases:
  assumes "session_spec_init E s = (s', r)" "session_inv E s"
  shows "session_inv E s' \<and> head_only (q_graph s) (q_graph s') \<and> q_logits s' = q_logits s \<and> checkpoint s' = checkpoint s
    \<and> (r = None \<longrightarrow> spec_ready s') \<and> (s' = s \<or> \<not> frontier_top1_valid (q_spec s'))"
proof (cases "spec_ready s \<or> spec_failed s")
  case True
  then show ?thesis using assms by (auto simp: session_spec_init_def split: if_splits)
next
  case False
  define s0 where "s0 = s\<lparr>spec_failed := True, q_head := spec_head E (s\<lparr>spec_failed := True\<rparr>)\<rparr>"
  have i0: "session_inv E s0" "\<not> spec_ready s0" "\<not> frontier_top1_valid (q_spec s0)" "q_graph s0 = q_graph s"
    using assms(2) False by (simp_all add: s0_def session_inv_def)
  obtain S where S: "session_rollback_set (e_kernels E) (e_fails E) (e_ratio E) = Inr S" "rollback_complete S"
    using rollback_set_accepted by blast
  obtain s1 ok where b: "add_head_block E s0 = (s1, ok)" by (meson surj_pair)
  obtain g sl where s1: "s1 = s0\<lparr>q_graph := g, head_slots := sl\<rparr>" "head_only (q_graph s) g"
    using add_head_block_ok [OF b] i0(4) by auto
  obtain h e where h: "mtp_head_init (e_alloc E) (e_junk E) (e_env E) (q_head s1) = (h, e)" by (meson surj_pair)
  have nr: "\<not> spec_ready s1" using s1(1) i0(2) by simp
  have cl: "clean_ok (e_zero E) (e_hist0 E) g" by (rule head_only_fields(7) [OF s1(2) inv_clean [OF assms(2)]])
  have fl: "\<not> frontier_top1_valid (q_spec s)" "\<not> frontier_logits_deferred (q_spec s)"
    using assms(2) False by (simp_all add: session_inv_def)
  have un: "session_spec_init E s = (case add_head_block E s0 of
      (s1, False) \<Rightarrow> (s1, Some Head_Block_Refusal)
    | (s1, True) \<Rightarrow>
        (case mtp_head_init (e_alloc E) (e_junk E) (e_env E) (q_head s1) of
           (h, Some e) \<Rightarrow> (s1\<lparr>q_head := h\<rparr>, Some (Head_Refusal e))
         | (h, None) \<Rightarrow>
             let s2 = s1\<lparr>q_head := h, seam_bound := True\<rparr>
             in case mtp_depth_from_draft_tokens (e_mtp_draft_tokens E) of
                  Inl e \<Rightarrow> (s2, Some (Seam_Refusal e))
                | Inr dep \<Rightarrow>
                    (case mtp_state_init (e_strtof E) (e_atoi E) (e_env E) (e_scratch E) (e_scratch_logits E)
                            (int dep) (Some S) (k_hc_dim (e_kernels E)) (k_n_vocab (e_kernels E)) of
                       Inl e \<Rightarrow> (s2, Some (Seam_Refusal e))
                     | Inr st \<Rightarrow> (s2\<lparr>q_spec := st, q_graph := (q_graph s2)\<lparr>last_margin := F32 (- 1)\<rparr>,
                                     spec_failed := False, spec_ready := True\<rparr>, None))))"
    using False S unfolding session_spec_init_def Let_def s0_def by simp
  show ?thesis
  proof (cases "spec_ready s'")
    case False
    have "\<exists>h sb. s' = s1\<lparr>q_head := h, seam_bound := sb\<rparr> \<and> r \<noteq> None"
    proof (rule exI [of _ "q_head s'"], rule exI [of _ "seam_bound s'"])
      show "s' = s1\<lparr>q_head := q_head s', seam_bound := seam_bound s'\<rparr> \<and> r \<noteq> None"
        using assms(1) False unfolding un b prod.case
        by (auto simp: Let_def h split: if_splits option.splits sum.splits bool.splits prod.splits)
    qed
    then obtain h sb where s': "s' = s1\<lparr>q_head := h, seam_bound := sb\<rparr>" "r \<noteq> None" by blast
    show ?thesis using s1 cl fl False s'(2) unfolding s'(1) by (simp add: session_inv_def s0_def)
  next
    case True
    then have okh: "ok" "e = None"
      using assms(1) nr True unfolding un b prod.case
      by (auto simp: h split: if_splits option.splits sum.splits bool.splits)
    obtain dep st where st: "mtp_state_init (e_strtof E) (e_atoi E) (e_env E) (e_scratch E) (e_scratch_logits E)
            (int dep) (Some S) (k_hc_dim (e_kernels E)) (k_n_vocab (e_kernels E)) = Inr st"
      and s': "s' = s1\<lparr>q_head := h, seam_bound := True, q_spec := st, q_graph := (q_graph s1)\<lparr>last_margin := F32 (- 1)\<rparr>,
          spec_failed := False, spec_ready := True\<rparr>" and r: "r = None"
      using assms(1) nr True unfolding un b prod.case
      by (auto simp: h okh Let_def split: sum.splits)
    have wf: "mtp_wf st \<and> hc_dim st = k_hc_dim (e_kernels E) \<and> n_vocab st = k_n_vocab (e_kernels E) \<and> rollback st = S"
      using mtp_state_init_wf [OF st] S(2) scratch scratch_logits by (auto simp: rollback_complete_def)
    have fr: "\<not> frontier_top1_valid st"
      using st by (auto simp: mtp_state_init_def Let_def mtp_invalidate_def split: option.splits if_splits)
    have ho: "head_only (q_graph s) (q_graph s')"
      using head_only_trans [OF s1(2) head_only_upd(3)] by (simp add: s' s1(1))
    then have "clean_ok (e_zero E) (e_hist0 E) (q_graph s')" by (rule head_only_fields(7) [OF _ inv_clean [OF assms(2)]])
    then show ?thesis using wf fr ho S r unfolding s' by (simp add: session_inv_def s1(1) s0_def)
  qed
qed

subsection \<open>Serial verbs\<close>

text \<open>The common prefix of every verb: set-up and the retained tail.\<close>

lemma arm_cases:
  assumes "(if b then session_spec_init E s else (s, None)) = (s1, None)" "cache_feed_tail E s1 tok pos = (s2, r)"
    "session_inv E s"
  shows "session_inv E s2 \<and> head_only (q_graph s) (q_graph s2) \<and> checkpoint s2 = checkpoint s \<and> q_logits s2 = q_logits s
    \<and> (b \<longrightarrow> spec_ready s2) \<and> (\<not> frontier_top1_valid (q_spec s) \<longrightarrow> \<not> frontier_top1_valid (q_spec s2))"
proof -
  have 1: "session_inv E s1 \<and> head_only (q_graph s) (q_graph s1) \<and> checkpoint s1 = checkpoint s \<and> q_logits s1 = q_logits s
      \<and> (b \<longrightarrow> spec_ready s1) \<and> (s1 = s \<or> \<not> frontier_top1_valid (q_spec s1))"
    using spec_init_cases [of s s1 None] assms(1,3) by (cases b) simp_all
  have p: "publishes s1 s2" by (rule cache_feed_tail_publishes [OF assms(2)])
  have "frontier_top1_valid (q_spec s2) = frontier_top1_valid (q_spec s1)"
    using publishes_fields(8) [OF p] by auto
  then show ?thesis
    using 1 publishes_inv [OF p] publishes_fields(1-4) [OF p] head_only_trans by metis
qed

lemma session_rows_inv:
  assumes "session_rows E s toks = (s', r)" "session_inv E s"
  shows "session_inv E s'"
proof (cases "toks = [] \<or> length toks > g_n_batch (q_graph s) \<or> length toks > SERIAL_MAX_ROWS")
  case True
  then show ?thesis using assms by (auto simp: session_rows_def split: if_splits)
next
  case False
  obtain s1 e1 where i: "(if e_mtp_ready E then session_spec_init E s else (s, None)) = (s1, e1)" by (meson surj_pair)
  define pos0 where "pos0 = g_pos (q_graph s1)"
  have eq: "session_rows E s toks = (case e1 of Some e \<Rightarrow> (s1, Some e) | None \<Rightarrow>
      (case cache_feed_tail E s1 (hd toks) pos0 of
         (s2, Some e) \<Rightarrow> (s2, Some e)
       | (s2, None) \<Rightarrow>
           (case graph_forward (e_kernels E) (e_fails E) (q_graph s2) toks (snapshot_rows (length toks)) False of
              (g, False) \<Rightarrow> (s2\<lparr>q_graph := g\<rparr>, Some Forward_Refused)
            | (g, True) \<Rightarrow>
                (case cache_rows E (s2\<lparr>q_graph := g, q_logits := g_logits g ! 0\<rparr>) toks pos0 of
                   (s3, Some e) \<Rightarrow> (s3, Some e)
                 | (s3, None) \<Rightarrow> (s3\<lparr>checkpoint := checkpoint s3 @ toks, checkpoint_valid := True\<rparr>, None)))))"
    using False i unfolding session_rows_def Let_def pos0_def by simp
  show ?thesis
  proof (cases e1)
    case (Some e)
    then show ?thesis using assms(1) eq spec_init_cases [of s s1 e1] assms(2) i by (cases "e_mtp_ready E") auto
  next
    case None
    obtain s2 e2 where t: "cache_feed_tail E s1 (hd toks) pos0 = (s2, e2)" by (meson surj_pair)
    have a: "session_inv E s2" using arm_cases [OF i [unfolded None] t assms(2)] by blast
    obtain g ok where f: "graph_forward (e_kernels E) (e_fails E) (q_graph s2) toks (snapshot_rows (length toks)) False = (g, ok)"
      by (meson surj_pair)
    have "session_inv E (s2\<lparr>q_graph := g\<rparr>)"
      by (rule inv_graph [OF a clean_cases [OF inv_clean [OF a] forward_dirty [OF f]]])
    then have ig: "session_inv E (s2\<lparr>q_graph := g, q_logits := l\<rparr>)" "session_inv E (s2\<lparr>q_graph := g\<rparr>)" for l by simp_all
    obtain s3 e3 where c: "cache_rows E (s2\<lparr>q_graph := g, q_logits := g_logits g ! 0\<rparr>) toks pos0 = (s3, e3)" by (meson surj_pair)
    have "session_inv E s3" by (rule publishes_inv [OF cache_rows_publishes [OF c] ig(1)])
    then show ?thesis
      using assms(1) a ig(2) unfolding eq by (cases e2; cases ok; cases e3) (auto simp: None t f c)
  qed
qed

lemma session_rows_exact:
  assumes "session_rows E s toks = (s', None)" "session_inv E s" "synced s t" "\<not> frontier_top1_valid (q_spec s)"
  shows "synced s' (feed t toks) \<and> checkpoint s' = checkpoint s @ toks \<and> session_argmax E s' = best (feed t toks)
    \<and> \<not> frontier_top1_valid (q_spec s') \<and> (e_mtp_ready E \<longrightarrow> spec_ready s')"
proof -
  obtain s1 s2 g s3 where i: "(if e_mtp_ready E then session_spec_init E s else (s, None)) = (s1, None)"
    and t: "cache_feed_tail E s1 (hd toks) (g_pos (q_graph s1)) = (s2, None)"
    and f: "graph_forward (e_kernels E) (e_fails E) (q_graph s2) toks (snapshot_rows (length toks)) False = (g, True)"
    and c: "cache_rows E (s2\<lparr>q_graph := g, q_logits := g_logits g ! 0\<rparr>) toks (g_pos (q_graph s1)) = (s3, None)"
    and s': "s' = s3\<lparr>checkpoint := checkpoint s3 @ toks, checkpoint_valid := True\<rparr>"
    using assms(1) unfolding session_rows_def Let_def
    by (auto split: if_splits prod.splits option.splits bool.splits)
  note a = arm_cases [OF i t assms(2)]
  have "in_sync (graph_holds (e_kernels E)) (q_graph s2) t"
    using a assms(3) head_only_fields(6) by (auto simp: synced_def)
  note fw = qwen_kernels.forward_serial [OF kernels f this]
  have p: "publishes (s2\<lparr>q_graph := g, q_logits := g_logits g ! 0\<rparr>) s3" by (rule cache_rows_publishes [OF c])
  note pf = publishes_fields [OF p]
  have sy: "synced s' (feed t toks)"
    using fw(1) pf(1) head_only_fields(6) by (auto simp: synced_def feed_def s')
  have ft: "\<not> frontier_top1_valid (q_spec s')" using pf(8) a assms(4) by (auto simp: s')
  have "session_argmax E s' = best (feed t toks)"
    using ft renders_sample [OF fw(3)] pf(2) by (simp add: session_argmax_def s' feed_def)
  then show ?thesis using sy ft a pf(3,4) by (simp add: s')
qed

lemma sync_loop_inv:
  "sync_loop E s prompt batch = (s', r) \<Longrightarrow> session_inv E s \<Longrightarrow> session_inv E s'"
proof (induction "length prompt" arbitrary: s prompt rule: less_induct)
  case less
  obtain s1 e where c: "session_rows E s (take batch prompt) = (s1, e)" by (meson surj_pair)
  note un = less.prems(1) [unfolded sync_loop.simps [of E s prompt batch]]
  have i1: "session_inv E s1" by (rule session_rows_inv [OF c less.prems(2)])
  show ?case
  proof (cases "prompt = [] \<or> e \<noteq> None")
    case True
    then show ?thesis using un c i1 less.prems(2) by (auto split: if_splits)
  next
    case False
    then have "0 < batch" using c session_rows_nonempty [of E s "take batch prompt" s1] by auto
    then have "length (drop batch prompt) < length prompt" using False by simp
    moreover have "sync_loop E s1 (drop batch prompt) batch = (s', r)" using un c False by simp
    ultimately show ?thesis using less.hyps i1 by blast
  qed
qed

lemma sync_loop_exact:
  "sync_loop E s prompt batch = (s', None) \<Longrightarrow> session_inv E s \<Longrightarrow> synced s t \<Longrightarrow> \<not> frontier_top1_valid (q_spec s) \<Longrightarrow>
     prompt \<noteq> [] \<Longrightarrow>
     synced s' (feed t prompt) \<and> checkpoint s' = checkpoint s @ prompt \<and> session_argmax E s' = best (feed t prompt)
     \<and> \<not> frontier_top1_valid (q_spec s') \<and> (e_mtp_ready E \<longrightarrow> spec_ready s')"
proof (induction "length prompt" arbitrary: s prompt t rule: less_induct)
  case less
  note un = less.prems(1) [unfolded sync_loop.simps [of E s prompt batch]]
  obtain s1 where c: "session_rows E s (take batch prompt) = (s1, None)"
    and l: "sync_loop E s1 (drop batch prompt) batch = (s', None)"
    using un less.prems(5) by (auto split: prod.splits option.splits)
  have r: "synced s1 (feed t (take batch prompt))" "checkpoint s1 = checkpoint s @ take batch prompt"
    "session_argmax E s1 = best (feed t (take batch prompt))" "\<not> frontier_top1_valid (q_spec s1)" "e_mtp_ready E \<longrightarrow> spec_ready s1"
    using session_rows_exact [OF c less.prems(2,3,4)] by blast+
  have i1: "session_inv E s1" by (rule session_rows_inv [OF c less.prems(2)])
  have app: "feed (feed t (take batch prompt)) (drop batch prompt) = feed t prompt"
    unfolding feed_def by (metis append_take_drop_id foldl_append)
  show ?case
  proof (cases "drop batch prompt = []")
    case True
    then have "s' = s1" using l by (subst (asm) sync_loop.simps) simp
    moreover have "take batch prompt = prompt" using True by simp
    ultimately show ?thesis using r by simp
  next
    case False
    have "0 < batch" using session_rows_nonempty [OF c] by auto
    then have "length (drop batch prompt) < length prompt" using less.prems(5) by simp
    from less.hyps [OF this l i1 r(1,4) False] show ?thesis using r(2) unfolding app by simp
  qed
qed

subsection \<open>Reset, sync and eval\<close>

definition start :: "('v, 'q) target" where
  "start = empty_target (e_zero E) (e_hist0 E) (e_zero E)"

lemma invalidate_resets:
  assumes "session_inv E s"
  shows "session_inv E (session_invalidate E s) \<and> synced (session_invalidate E s) start
    \<and> checkpoint (session_invalidate E s) = [] \<and> \<not> frontier_top1_valid (q_spec (session_invalidate E s))
    \<and> n_pending (q_spec (session_invalidate E s)) = 0"
proof -
  note r = reset_empty [OF inv_clean [OF assms], of "e_kernels E" "e_zero E"]
  have "session_inv E (session_invalidate E s)"
    using r assms mtp_invalidate_wf [of "q_spec s"]
    by (auto simp: session_inv_def session_invalidate_def frame_simps mtp_invalidate_def intro: mtp_wf_upd)
  then show ?thesis
    using r by (simp add: session_invalidate_def synced_def start_def mtp_invalidate_def)
qed

lemma session_sync_inv: "session_sync E s prompt = (s', r) \<Longrightarrow> session_inv E s \<Longrightarrow> session_inv E s'"
  using sync_loop_inv invalidate_resets by (auto simp: session_sync_def split: if_splits)

lemma session_sync_exact:
  assumes "session_sync E s prompt = (s', None)" "session_inv E s"
  shows "synced s' (feed start prompt) \<and> checkpoint s' = prompt \<and> session_argmax E s' = best (feed start prompt)
    \<and> session_inv E s' \<and> (e_mtp_ready E \<longrightarrow> spec_ready s')"
proof -
  have l: "sync_loop E (session_invalidate E s) prompt (g_n_batch (q_graph s)) = (s', None)" "prompt \<noteq> []"
    using assms(1) by (auto simp: session_sync_def split: if_splits)
  note v = invalidate_resets [OF assms(2)]
  show ?thesis using sync_loop_exact [OF l(1) _ _ _ l(2), of start] sync_loop_inv [OF l(1)] v by simp
qed

lemma eval_start:
  assumes "session_inv E s"
  shows "session_inv E (s\<lparr>q_spec := mtp_invalidate (q_spec s)\<rparr>)"
    "\<not> frontier_top1_valid (q_spec (s\<lparr>q_spec := mtp_invalidate (q_spec s)\<rparr>))"
  using assms mtp_invalidate_wf [of "q_spec s"] by (auto simp: session_inv_def frame_simps mtp_invalidate_def)

lemma session_eval_inv: "session_eval E s tok = (s', r) \<Longrightarrow> session_inv E s \<Longrightarrow> session_inv E s'"
  unfolding session_eval_def by (rule session_rows_inv [OF _ eval_start(1)])

lemma session_eval_exact:
  assumes "session_eval E s tok = (s', None)" "session_inv E s" "synced s t"
  shows "synced s' (feed t [tok]) \<and> checkpoint s' = checkpoint s @ [tok] \<and> session_argmax E s' = best (feed t [tok])
    \<and> session_inv E s' \<and> (e_mtp_ready E \<longrightarrow> spec_ready s')"
proof -
  have "synced (s\<lparr>q_spec := mtp_invalidate (q_spec s)\<rparr>) t" using assms(3) by (simp add: synced_def)
  from session_rows_exact [OF assms(1) [unfolded session_eval_def] eval_start(1) [OF assms(2)] this eval_start(2) [OF assms(2)]]
  show ?thesis using session_eval_inv [OF assms(1,2)] by simp
qed

subsection \<open>The speculative verb\<close>

lemma spec_cycle_inv:
  assumes "session_spec_cycle E s x budget cap = (s', r)" "session_inv E s"
  shows "session_inv E s'"
proof -
  obtain s1 e1 where i: "session_spec_init E s = (s1, e1)" by (meson surj_pair)
  note i1 = spec_init_cases [OF i assms(2)]
  show ?thesis
  proof (cases e1)
    case (Some e)
    then show ?thesis using assms(1) i i1 by (simp add: session_spec_cycle_def)
  next
    case None
    obtain s2 e2 where t: "cache_feed_tail E s1 x (g_pos (q_graph s1)) = (s2, e2)" by (meson surj_pair)
    have p: "publishes s1 s2" by (rule cache_feed_tail_publishes [OF t])
    have i2: "session_inv E s2" "spec_ready s2"
      using publishes_inv [OF p] i1 None publishes_fields(4) [OF p] by auto
    let ?c = "mtp_cycle (qwen4exp_seam (e_kernels E) (e_fails E)) (q_spec s2) (q_graph s2) x (g_pos (q_graph s1)) budget cap
      (Some (q_logits s2))"
    obtain st g lg r2 where c: "?c = (st, g, lg, r2)" using prod_cases4 by blast
    have rs: "session_rollback_set (e_kernels E) (e_fails E) (e_ratio E) = Inr (rollback (q_spec s2))"
      and wf: "mtp_wf (q_spec s2)" and cl: "clean_ok (e_zero E) (e_hist0 E) (q_graph s2)"
      using i2 by (simp_all add: session_inv_def)
    have "round_keeps (q_spec s2) (clean_ok (e_zero E) (e_hist0 E)) ?c"
      by (rule cycle_keeps [OF seam_keeps_clean [OF rs] cl wf seam_rows_fit [OF kernels]])
    then have i3: "session_inv E (s2\<lparr>q_spec := st, q_graph := g, q_logits := l\<rparr>)" for l
      using i2 unfolding c by (simp add: round_keeps_def same_setup_def session_inv_def)
    show ?thesis
    proof (cases "e2 = None")
      case False
      then show ?thesis using assms(1) i None t i2 by (auto simp: session_spec_cycle_def)
    next
      case True
      define s3 where "s3 = s2\<lparr>q_spec := st, q_graph := g, q_logits := round_logits (q_logits s2) lg r2\<rparr>"
      have "\<exists>h ck v. s' = s3\<lparr>q_head := h, checkpoint := ck, checkpoint_valid := v\<rparr>"
      proof (rule exI [of _ "q_head s'"], rule exI [of _ "checkpoint s'"], rule exI [of _ "checkpoint_valid s'"])
        have "s' = s3 \<or> (\<exists>h. s' = s3\<lparr>q_head := h\<rparr>) \<or>
            (\<exists>h acc. s' = s3\<lparr>q_head := h, checkpoint := checkpoint s3 @ acc, checkpoint_valid := (acc \<noteq> [] \<or> checkpoint_valid s3)\<rparr>)"
          using assms(1) unfolding session_spec_cycle_def Let_def i None t True prod.case option.case c s3_def
          by (auto split: sum.splits prod.splits option.splits)
        then show "s' = s3\<lparr>q_head := q_head s', checkpoint := checkpoint s', checkpoint_valid := checkpoint_valid s'\<rparr>" by auto
      qed
      then show ?thesis using i3 by (auto simp: s3_def)
    qed
  qed
qed

lemma spec_cycle_exact:
  assumes "session_spec_cycle E s x budget cap = (s', Inr acc)" "session_inv E s" "synced s t"
  shows "acc \<noteq> [] \<and> int (length acc) \<le> budget \<and> int (length acc) \<le> cap
    \<and> acc = greedy (target_step (e_kernels E) row) best t x (length acc)
    \<and> synced s' (feed t acc) \<and> checkpoint s' = checkpoint s @ acc \<and> session_argmax E s' = best (feed t acc)"
proof -
  obtain s1 where i: "session_spec_init E s = (s1, None)"
    using assms(1) by (auto simp: session_spec_cycle_def split: prod.splits option.splits)
  obtain s2 where tl: "cache_feed_tail E s1 x (g_pos (q_graph s1)) = (s2, None)"
    using assms(1) i by (auto simp: session_spec_cycle_def Let_def split: prod.splits option.splits)
  have i': "(if True then session_spec_init E s else (s, None)) = (s1, None)" using i by simp
  note a = arm_cases [OF i' tl assms(2)]
  have i2: "session_inv E s2" "spec_ready s2" using a by auto
  have ho: "head_only (q_graph s) (q_graph s1)" using spec_init_cases [OF i assms(2)] by blast
  have pos: "g_pos (q_graph s1) = target_pos t"
    using head_only_fields(1) [OF ho] synced_pos [OF assms(3)] by simp
  have sy: "in_sync (graph_holds (e_kernels E)) (q_graph s2) t"
    using a assms(3) head_only_fields(6) by (auto simp: synced_def)
  obtain st g lg where c: "mtp_cycle (qwen4exp_seam (e_kernels E) (e_fails E)) (q_spec s2) (q_graph s2) x
      (target_pos t) budget cap (Some (q_logits s2)) = (st, g, lg, Inr acc)"
    and s': "\<exists>h. s' = s2\<lparr>q_spec := st, q_graph := g, q_logits := lg, q_head := h, checkpoint := checkpoint s2 @ acc,
       checkpoint_valid := (acc \<noteq> [] \<or> checkpoint_valid s2)\<rparr>"
    using assms(1) unfolding session_spec_cycle_def Let_def i prod.case option.case pos tl [unfolded pos]
    by (auto simp: round_logits_def split: prod.splits option.splits sum.splits)
  obtain h where s': "s' = s2\<lparr>q_spec := st, q_graph := g, q_logits := lg, q_head := h, checkpoint := checkpoint s2 @ acc,
       checkpoint_valid := (acc \<noteq> [] \<or> checkpoint_valid s2)\<rparr>"
    using s' by blast
  define S where "S = rollback (q_spec s2)"
  have gs: "graph_seam (e_kernels E) row (e_fails E) (e_ratio E) S"
    using i2 kernels by (simp add: graph_seam_def graph_seam_axioms_def session_inv_def S_def)
  note seam = graph_seam.axioms_seam [OF gs]
  have nv: "n_vocab (q_spec s2) = k_n_vocab (e_kernels E)" "mtp_wf (q_spec s2)" using i2 by (simp_all add: session_inv_def)
  have rd: "mtp_seam.ready (qwen4exp_seam (e_kernels E) (e_fails E)) S (q_spec s2)"
    unfolding mtp_seam.ready_def [OF seam] using nv by (simp add: S_def qwen4exp_seam_def)
  note ex = mtp_seam.cycle_exact [OF seam c rd sy]
  have ro: "mtp_seam.round_ok (qwen4exp_seam (e_kernels E) (e_fails E)) S (graph_holds (e_kernels E)) device_row
      (target_step (e_kernels E) row) (target_pick (e_kernels E)) (renders (e_kernels E)) (q_spec s2) t x st g lg acc"
    using ex by blast
  note ro = ro [unfolded mtp_seam.round_ok_def [OF seam] mtp_seam.frontier_ok_def [OF seam]]
  have "session_argmax E s' = best (feed t acc)"
  proof (cases "frontier_top1_valid st")
    case True
    then have "frontier_top1 st = best (feed t acc)"
      using ro [THEN conjunct2, THEN conjunct2, THEN conjunct2, THEN conjunct1] by (simp add: best_def feed_def)
    then show ?thesis using True by (simp add: session_argmax_def s')
  next
    case False
    then have "\<not> frontier_logits_deferred st" using ro by blast
    moreover have "renders (e_kernels E) (if frontier_logits_deferred st then device_row (frontier_row st) g else lg) (feed t acc)"
      using ro unfolding feed_def by blast
    ultimately have "renders (e_kernels E) lg (feed t acc)" by simp
    then show ?thesis using False renders_sample by (simp add: session_argmax_def s')
  qed
  moreover have "acc \<noteq> [] \<and> int (length acc) \<le> budget \<and> int (length acc) \<le> cap
      \<and> acc = greedy (target_step (e_kernels E) row) best t x (length acc)"
    using ex ro unfolding best_def by blast
  moreover have "synced s' (feed t acc)" using ro by (simp add: s' synced_def feed_def del: greedy.simps)
  moreover have "checkpoint s' = checkpoint s @ acc" using a by (simp add: s')
  ultimately show ?thesis by blast
qed

lemma eval_speculative_inv: "session_inv E s \<Longrightarrow> session_inv E (fst (session_eval_speculative E s x b eos c))"
  using spec_cycle_inv [of s x b c] other_keeps [of s x b eos c]
  by (cases "session_spec_cycle E s x b c") (auto simp: session_eval_speculative_def)

lemma materialize_inv: "session_inv E s \<Longrightarrow> session_inv E (fst (session_materialize E s))"
  by (auto simp: session_materialize_def session_inv_def mtp_wf_def seam_read_logit_row_def
      split: prod.splits option.splits if_splits)

lemma session_top_inv: "session_inv E s \<Longrightarrow> session_inv E (fst (session_top E s k))"
  using materialize_inv [of s] by (auto simp: session_top_def split: prod.splits bool.splits)

end

end
