(* ===== verification/Resident_Exact.thy ===== *)
theory Resident_Exact
  imports Resident Qwen_Exact
begin

text \<open>
  What the resident's clients may rely on: every verb, phase and failure keeps the session's
  invariant, so that the reset at the start of the next phase restores the empty session; and a
  free run commits the target's greedy stream, whatever the drafts were.
\<close>

subsection \<open>Replies\<close>

definition reply_ok :: "string \<Rightarrow> bool" where
  "reply_ok t \<longleftrightarrow> prefix ''{\"ok\":true'' t"

lemma send_error_not_ok: "send_error fits w = Some t \<Longrightarrow> \<not> reply_ok t"
  by (auto simp: send_error_def error_reply_def reply_ok_def Let_def split: if_splits)

lemma send_built_ok: "send_built fits t = Some t' \<Longrightarrow> reply_ok t' \<Longrightarrow> t' = t"
  using send_error_not_ok by (auto simp: send_built_def split: if_splits)

lemma serve_loop_keeps:
  "\<forall>h line. P h \<longrightarrow> P (fst (serve_line fits g9 E r h line)) \<Longrightarrow> P h \<Longrightarrow>
     P (fst (serve_loop fits g9 sends E r h stop buf evs out))"
proof (induction fits g9 sends E r h stop buf evs out rule: serve_loop.induct)
  case (1 fits g9 sends E r h stop buf evs out)
  show ?case
  proof (cases "first_line buf")
    case None
    show ?thesis
    proof (cases evs)
      case Nil
      then show ?thesis using None "1.prems"(2) by (subst serve_loop.simps) simp
    next
      case (Cons e es)
      then show ?thesis using None "1.prems" "1.IH"(1) [OF None] "1.IH"(2) [OF None] "1.IH"(3) [OF None] "1.IH"(4) [OF None]
        by (subst serve_loop.simps) (cases e; simp)
    qed
  next
    case (Some p)
    obtain line rest where p: "p = (line, rest)" by (cases p)
    obtain h1 t keep where l: "serve_line fits g9 E r h (c_string line) = (h1, t, keep)" using prod_cases3 by blast
    have "P h1" using "1.prems" l by (metis fst_conv)
    then show ?thesis using "1.IH"(5) [OF Some p [symmetric] l [symmetric] refl] "1.prems"(1) Some l
      by (subst serve_loop.simps) (auto simp: p split: option.splits)
  qed
qed

context qwen_engine
begin

subsection \<open>The invariant under every verb\<close>

abbreviation inv :: "('v, 'q) ds4s_handle \<Rightarrow> bool" where
  "inv h \<equiv> session_inv E (h_session h)"

lemma set_err_session [simp]: "h_session (set_err h m) = h_session h"
  by (simp add: set_err_def)

lemma shim_invalidate_inv: "inv h \<Longrightarrow> inv (ds4s_invalidate E h)"
  using invalidate_resets by (simp add: ds4s_invalidate_def)

lemma shim_sync_inv: "ds4s_sync E h toks = (h', ok) \<Longrightarrow> inv h \<Longrightarrow> inv h'"
  by (auto simp: ds4s_sync_def split: if_splits prod.splits option.splits dest: session_sync_inv)

lemma shim_eval_inv: "ds4s_eval E h tok = (h', ok) \<Longrightarrow> inv h \<Longrightarrow> inv h'"
  by (auto simp: ds4s_eval_def split: prod.splits option.splits dest: session_eval_inv)

lemma shim_top_inv: "ds4s_top_logits fits E h k = (h', sc) \<Longrightarrow> inv h \<Longrightarrow> inv h'"
  using session_top_inv [of "h_session h" k]
  by (auto simp: ds4s_top_logits_def Let_def split: if_splits prod.splits)

lemma shim_speculative_inv: "ds4s_eval_speculative E h x b c = (h', r) \<Longrightarrow> inv h \<Longrightarrow> inv h'"
  using eval_speculative_inv [of "h_session h" x b "- 1" "min (min c 17) b"]
  by (auto simp: ds4s_eval_speculative_def Let_def split: if_splits prod.splits sum.splits)

lemma warm_chain_inv: "inv h \<Longrightarrow> inv (fst (warm_chain E h t n))"
  by (induction n arbitrary: h t) (auto split: prod.splits option.splits dest: shim_speculative_inv)

lemma warm_mixed_inv: "inv h \<Longrightarrow> inv (warm_mixed E ids h t n)"
proof (induction n arbitrary: h t)
  case (Suc n)
  obtain h1 r where s: "ds4s_eval_speculative E h t 2 WARM_CAP = (h1, r)" by (meson surj_pair)
  obtain h2 ok where e: "ds4s_eval E h1 (last (the r)) = (h2, ok)" by (meson surj_pair)
  have "inv h1" by (rule shim_speculative_inv [OF s Suc.prems])
  moreover from this have "inv h2" by (rule shim_eval_inv [OF e])
  ultimately show ?case using s e Suc.IH by (cases r) (auto simp: Let_def)
qed simp

lemma warm_up_inv:
  assumes "inv h"
  shows "inv (warm_up E d h)"
proof -
  let ?ids = "warm_ids (h_vocab h)"
  obtain h1 ok where s: "ds4s_sync E h ?ids = (h1, ok)" by (meson surj_pair)
  obtain h2 ok2 where e: "ds4s_eval E h1 (?ids ! (WARM_PROMPT - 1)) = (h2, ok2)" by (meson surj_pair)
  obtain h3 t where c: "warm_chain E h2 (ds4s_argmax E h2) WARM_ROUNDS_CHAIN = (h3, t)" by (meson surj_pair)
  have i: "inv h1" "inv h2" using shim_sync_inv [OF s assms] shim_eval_inv [OF e] by auto
  have "inv h3" using warm_chain_inv [OF i(2), of "ds4s_argmax E h2" WARM_ROUNDS_CHAIN] c by simp
  then show ?thesis using i warm_mixed_inv s e c by (cases ok) (auto simp: warm_up_def Let_def)
qed

lemma prepare_inv: "session_inv E s \<Longrightarrow> session_inv E (fst (session_spec_prepare E s))"
  by (auto simp: session_spec_prepare_def split: prod.splits option.splits dest: spec_init_cases)

lemma open_inv:
  assumes "ds4s_open fits E mp d ctx en (Some s) = Inr h" "session_inv E s"
  shows "inv h \<and> (e_env E ''DS4_SHIM_NO_WARMUP'' = None \<longrightarrow>
    synced (h_session h) start \<and> checkpoint (h_session h) = [] \<and> n_pending (q_spec (h_session h)) = 0)"
proof -
  define h0 :: "('v, 'q) ds4s_handle" where
    "h0 = \<lparr>h_session = fst (session_spec_prepare E s), h_err = [], h_vocab = fst (the en), h_eos = snd (the en)\<rparr>"
  have i0: "inv h0" using prepare_inv [OF assms(2)] by (simp add: h0_def)
  have i1: "inv (if b then warm_up E d h0 else h0)" for b using warm_up_inv [OF i0] i0 by simp
  have "h = (if e_env E ''DS4_SHIM_NO_WARMUP'' = None
      then ds4s_invalidate E (if fst (the en) > 16 \<and> fits (WARM_PROMPT * 4) then warm_up E d h0 else h0) else h0)"
    using assms(1) by (auto simp: ds4s_open_def h0_def Let_def split: if_splits option.splits)
  then show ?thesis using i0 i1 invalidate_resets [OF i1] by (auto simp: ds4s_invalidate_def)
qed

lemma spec_rounds_inv: "spec_rounds fits E h x left rs fs = (h', r) \<Longrightarrow> inv h \<Longrightarrow> inv h'"
proof (induction "nat left" arbitrary: h x left rs fs rule: less_induct)
  case less
  obtain h1 a where s: "ds4s_eval_speculative E h x left RESIDENT_MAX_SPEC = (h1, a)" by (meson surj_pair)
  have i1: "inv h1" by (rule shim_speculative_inv [OF s less.prems(2)])
  note un = less.prems(1) [unfolded spec_rounds.simps [of fits E h x left rs fs]]
  show ?case
  proof (cases "\<exists>acc. 0 < left \<and> a = Some acc \<and> acc \<noteq> [] \<and> hd acc = x \<and> run_fits fits (rs @ [acc]) (fs @ [ds4s_argmax E h1])")
    case True
    then obtain acc where a: "0 < left" "a = Some acc" "acc \<noteq> []"
      "spec_rounds fits E h1 (ds4s_argmax E h1) (left - int (length acc)) (rs @ [acc]) (fs @ [ds4s_argmax E h1]) = (h', r)"
      using un s by (auto simp: Let_def)
    have "nat (left - int (length acc)) < nat left" using a(1,3) by auto
    from less.hyps [OF this a(4) i1] show ?thesis .
  next
    case False
    then show ?thesis using un s i1 less.prems(2) by (auto simp: Let_def split: if_splits option.splits)
  qed
qed

lemma serve_verbs_inv:
  assumes "inv h"
  shows "inv (fst (serve_sync fits E h line))" "inv (fst (serve_eval fits E h line))"
    "inv (fst (serve_top_logits fits g9 E h line))" "inv (fst (serve_eval_speculative fits E h line))"
    "inv (fst (serve_spec_run fits E r h line))"
proof -
  show "inv (fst (serve_sync fits E h line))"
    using assms by (auto simp: serve_sync_def split: option.splits prod.splits bool.splits dest: shim_sync_inv)
  show "inv (fst (serve_eval fits E h line))"
    using assms by (auto simp: serve_eval_def split: option.splits prod.splits bool.splits dest: shim_eval_inv)
  show "inv (fst (serve_top_logits fits g9 E h line))"
    using assms by (auto simp: serve_top_logits_def split: option.splits prod.splits dest: shim_top_inv)
  show "inv (fst (serve_eval_speculative fits E h line))"
    using assms by (auto simp: serve_eval_speculative_def split: option.splits prod.splits dest: shim_speculative_inv)
  show "inv (fst (serve_spec_run fits E r h line))"
    using assms by (auto simp: serve_spec_run_def split: option.splits prod.splits run_outcome.splits dest: spec_rounds_inv)
qed

lemma serve_line_inv:
  assumes "serve_line fits g9 E r h line = (h', t, keep)" "inv h"
  shows "inv h'"
  using assms(1) serve_verbs_inv [OF assms(2)] shim_invalidate_inv [OF assms(2)] assms(2)
  unfolding serve_line_def
  by (cases "field_string line ''op'' 32") (auto split: if_splits prod.splits, (metis fst_conv)+)


lemma connection_inv:
  assumes "inv h"
  shows "inv (fst (serve_connection fits g9 sends E r h stop evs))"
  unfolding serve_connection_def
  using serve_line_inv by (intro serve_loop_keeps [where P = inv, OF _ shim_invalidate_inv [OF assms]]) (metis prod.exhaust fst_conv)

lemma accept_loop_inv: "inv h \<Longrightarrow> inv (fst (accept_loop fits g9 E r h stop as))"
proof (induction as arbitrary: h stop)
  case (Cons a as)
  show ?case
  proof (cases a)
    case (Accepted sends evs)
    obtain h1 stop1 out where c: "serve_connection fits g9 sends E r h stop evs = (h1, stop1, out)" using prod_cases3 by blast
    have "inv h1" using connection_inv [OF Cons.prems, of fits g9 sends r stop evs] c by simp
    then show ?thesis using Cons.IH [of h1 stop1] Cons.prems c by (auto simp: Accepted split: prod.splits)
  qed (use Cons in auto)
qed simp

subsection \<open>The free run is the greedy stream\<close>

abbreviation stream :: "('v, 'q) target \<Rightarrow> token \<Rightarrow> nat \<Rightarrow> token list" where
  "stream \<equiv> greedy (target_step (e_kernels E) row) best"

primrec frontiers_of :: "('v, 'q) target \<Rightarrow> token list list \<Rightarrow> token list" where
  "frontiers_of t [] = []"
| "frontiers_of t (q # qs) = best (feed t q) # frontiers_of (feed t q) qs"

lemma stream_append: "stream t x (n + k) = stream t x n @ stream (feed t (stream t x n)) (best (feed t (stream t x n))) k"
  if "0 < n" using greedy_append [OF that] by (simp add: Let_def feed_def)

lemma shim_speculative_exact:
  assumes "ds4s_eval_speculative E h x b c = (h', Some acc)" "inv h" "synced (h_session h) t" "e_mtp_ready E"
  shows "acc \<noteq> [] \<and> int (length acc) \<le> b \<and> int (length acc) \<le> c \<and> length acc \<le> 17 \<and> acc = stream t x (length acc)
    \<and> synced (h_session h') (feed t acc) \<and> checkpoint (h_session h') = checkpoint (h_session h) @ acc
    \<and> ds4s_argmax E h' = best (feed t acc) \<and> inv h'"
proof -
  obtain s a where s: "session_spec_cycle E (h_session h) x b (min (min c 17) b) = (s, Inr a)"
    and h': "h' = h\<lparr>h_session := s\<rparr>" and acc: "acc = take (nat c) a"
    using assms(1,4) by (auto simp: ds4s_eval_speculative_def session_eval_speculative_def Let_def
        split: if_splits prod.splits sum.splits)
  note e = spec_cycle_exact [OF s assms(2,3)]
  have "int (length a) \<le> c" using e by simp
  then have "acc = a" unfolding acc by simp
  then show ?thesis using e spec_cycle_inv [OF s assms(2)] by (simp add: h' ds4s_argmax_def)
qed

lemma spec_rounds_exact:
  "spec_rounds fits E h x left rs fs = (h', Run_Done rs' fs') \<Longrightarrow> inv h \<Longrightarrow> synced (h_session h) t \<Longrightarrow> e_mtp_ready E \<Longrightarrow>
     0 \<le> left \<Longrightarrow>
     \<exists>qs. rs' = rs @ qs \<and> fs' = fs @ frontiers_of t qs \<and> concat qs = stream t x (nat left)
       \<and> list_all (\<lambda>q. q \<noteq> [] \<and> length q \<le> 17) qs \<and> synced (h_session h') (feed t (concat qs))
       \<and> checkpoint (h_session h') = checkpoint (h_session h) @ concat qs
       \<and> (0 < left \<longrightarrow> ds4s_argmax E h' = best (feed t (concat qs)))"
proof (induction "nat left" arbitrary: h x left rs fs t rule: less_induct)
  case less
  note un = less.prems(1) [unfolded spec_rounds.simps [of fits E h x left rs fs]]
  show ?case
  proof (cases "left = 0")
    case True
    then show ?thesis using un less.prems(3) by (auto simp: feed_def)
  next
    case False
    then have pos: "0 < left" using less.prems(5) by simp
    obtain h1 acc where s: "ds4s_eval_speculative E h x left RESIDENT_MAX_SPEC = (h1, Some acc)"
      using un pos by (auto split: prod.splits option.splits)
    have e: "acc \<noteq> []" "int (length acc) \<le> left" "length acc \<le> 17" "acc = stream t x (length acc)"
      "synced (h_session h1) (feed t acc)" "checkpoint (h_session h1) = checkpoint (h_session h) @ acc"
      "ds4s_argmax E h1 = best (feed t acc)" "inv h1"
      using shim_speculative_exact [OF s less.prems(2,3,4)] by blast+
    have hd: "hd acc = x" using e(1,4) by (cases "length acc") (metis length_0_conv, metis greedy.simps(2) list.sel(1))
    let ?l = "left - int (length acc)"
    have r: "spec_rounds fits E h1 (best (feed t acc)) ?l (rs @ [acc]) (fs @ [best (feed t acc)]) = (h', Run_Done rs' fs')"
      using un s pos e(1,7) hd by (auto simp: Let_def split: if_splits)
    have lt: "nat ?l < nat left" using e(1) pos by auto
    have nn: "0 \<le> ?l" using e(2) by simp
    from less.hyps [OF lt r e(8,5) less.prems(4) nn] obtain qs where
      qs: "rs' = (rs @ [acc]) @ qs" "fs' = (fs @ [best (feed t acc)]) @ frontiers_of (feed t acc) qs"
      "concat qs = stream (feed t acc) (best (feed t acc)) (nat ?l)" "list_all (\<lambda>q. q \<noteq> [] \<and> length q \<le> 17) qs"
      "synced (h_session h') (feed (feed t acc) (concat qs))" "checkpoint (h_session h') = checkpoint (h_session h1) @ concat qs"
      "0 < ?l \<longrightarrow> ds4s_argmax E h' = best (feed (feed t acc) (concat qs))"
      by blast
    have app: "feed (feed t acc) ys = feed t (acc @ ys)" for ys by (simp add: feed_def)
    have "nat left = length acc + nat ?l" using e(2) by simp
    then have st: "stream t x (nat left) = acc @ concat qs"
      using stream_append [of "length acc" t x "nat ?l"] e(1,4) qs(3) by (metis length_greater_0_conv)
    have "ds4s_argmax E h' = best (feed t (acc @ concat qs))"
    proof (cases "0 < ?l")
      case True
      then show ?thesis using qs(7) by (simp add: app)
    next
      case False
      then have "h' = h1" using r by (subst (asm) spec_rounds.simps) simp
      moreover have "acc @ concat qs = acc" using False qs(3) by (simp del: concat_eq_Nil_conv)
      ultimately show ?thesis using e(7) by metis
    qed
    then show ?thesis using qs(1,2,4,5,6) e(1,3,6) st by (intro exI [of _ "acc # qs"]) (simp add: app)
  qed
qed

subsection \<open>The two requests of a leg\<close>

lemma frontiers_of_map: "frontiers_of t qs = map (\<lambda>i. best (feed t (concat (take (Suc i) qs)))) [0..<length qs]"
proof (induction qs arbitrary: t)
  case (Cons q qs)
  have "[0..<length (q # qs)] = 0 # map Suc [0..<length qs]" by (simp add: map_Suc_upt upt_conv_Cons del: upt_Suc)
  then show ?case using Cons.IH [of "feed t q"] by (simp add: feed_def del: upt_Suc)
qed simp

lemma sync_line_exact:
  assumes "serve_line fits g9 E r h line = (h', Some reply, k)" "reply_ok reply" "inv h"
    and "field_string line ''op'' 32 = Some ''sync''" "field_int_array line ''tokens'' = Some toks"
  shows "reply = token_reply (best (feed start toks)) \<and> inv h' \<and> synced (h_session h') (feed start toks)
    \<and> checkpoint (h_session h') = toks"
proof -
  have v: "serve_sync fits E h line = (h', Some reply)"
    using assms(1,4) by (auto simp: serve_line_def split: prod.splits)
  obtain hx ok where d: "ds4s_sync E h toks = (hx, ok)" by (meson surj_pair)
  have "ok \<and> h' = hx \<and> send_built fits (token_reply (ds4s_argmax E hx)) = Some reply"
  proof (cases "fits (4 * length toks) \<and> ok")
    case True
    then show ?thesis using v assms(5) d by (auto simp: serve_sync_def)
  next
    case False
    then have "\<exists>w. send_error fits w = Some reply" using v assms(5) d by (cases "fits (4 * length toks)") (auto simp: serve_sync_def)
    then show ?thesis using send_error_not_ok assms(2) by blast
  qed
  then have o: "ds4s_sync E h toks = (h', True)" "send_built fits (token_reply (ds4s_argmax E h')) = Some reply" using d by auto
  obtain s where s: "session_sync E (h_session h) toks = (s, None)" "h' = h\<lparr>h_session := s\<rparr>"
    using o(1) by (auto simp: ds4s_sync_def split: if_splits prod.splits option.splits)
  show ?thesis using session_sync_exact [OF s(1) assms(3)] send_built_ok [OF o(2) assms(2)] by (simp add: s(2) ds4s_argmax_def)
qed

lemma run_line_exact:
  assumes "serve_line fits g9 E r h line = (h', Some reply, k)" "reply_ok reply" "inv h" "synced (h_session h) t" "e_mtp_ready E"
    and "field_string line ''op'' 32 = Some ''spec_run''" "field_int line ''first_token'' = Some x" "field_int line ''count'' = Some n"
  shows "\<exists>rs. reply = run_reply rs (frontiers_of t rs) (best (feed t (concat rs))) \<and> concat rs = stream t (cast_i32 x) (nat n)
    \<and> list_all (\<lambda>q. q \<noteq> [] \<and> length q \<le> 17) rs \<and> checkpoint (h_session h') = checkpoint (h_session h) @ concat rs
    \<and> synced (h_session h') (feed t (concat rs)) \<and> 0 < n \<and> n \<le> RESIDENT_MAX_RUN"
proof -
  have "serve_spec_run fits E r h line = (h', Some reply)"
    using assms(1,6) by (auto simp: serve_line_def split: prod.splits)
  then obtain rs fs where rounds: "spec_rounds fits E h (cast_i32 x) n [] [] = (h', Run_Done rs fs)"
    and sent: "send_built fits (run_reply rs fs (ds4s_argmax E h')) = Some reply" and n: "0 < n" "n \<le> RESIDENT_MAX_RUN"
    using assms(2,7,8) send_error_not_ok
    by (auto simp: serve_spec_run_def split: if_splits prod.splits run_outcome.splits)
  have "0 \<le> n" using n by simp
  from spec_rounds_exact [OF rounds assms(3,4,5) this] obtain qs where q: "rs = [] @ qs" "fs = [] @ frontiers_of t qs"
    "concat qs = stream t (cast_i32 x) (nat n)" "list_all (\<lambda>q. q \<noteq> [] \<and> length q \<le> 17) qs"
    "synced (h_session h') (feed t (concat qs))" "checkpoint (h_session h') = checkpoint (h_session h) @ concat qs"
    "0 < n \<longrightarrow> ds4s_argmax E h' = best (feed t (concat qs))"
    by blast
  have "reply = run_reply qs (frontiers_of t qs) (best (feed t (concat qs)))"
    using send_built_ok [OF sent assms(2)] q(1,2,7) n by simp
  then show ?thesis using q n by blast
qed

end

end
