(* ===== verification/Resident_Framing.thy ===== *)
theory Resident_Framing
  imports Resident
begin

text \<open>
  The connection as a sequence of requests: however the bytes arrive, the replies are those of the
  complete lines, served one after another in the order they came.
\<close>

subsection \<open>The specification of a phase\<close>

text \<open>One request after another; \<open>n\<close> replies were sent before. The rest is dropped once the connection ends.\<close>

fun run_lines ::
  "(nat \<Rightarrow> bool) \<Rightarrow> (f32 \<Rightarrow> string) \<Rightarrow> (nat \<Rightarrow> bool) \<Rightarrow> ('v, 'q) qengine \<Rightarrow> resident \<Rightarrow> ('v, 'q) ds4s_handle \<Rightarrow> nat \<Rightarrow>
     string list \<Rightarrow> ('v, 'q) ds4s_handle \<times> string list" where
  "run_lines fits g9 sends E r h n [] = (h, [])"
| "run_lines fits g9 sends E r h n (l # ls) =
     (case serve_line fits g9 E r h l of
        (h1, Some t, keep) \<Rightarrow>
          if \<not> sends n then (h1, [])
          else if keep then (case run_lines fits g9 sends E r h1 (Suc n) ls of (h2, ts) \<Rightarrow> (h2, t # ts))
          else (h1, [t])
      | (h1, None, keep) \<Rightarrow> (h1, []))"

definition wire_lines :: "string list \<Rightarrow> string" where
  "wire_lines ls = concat (map (\<lambda>l. l @ [NEWLINE]) ls)"

definition is_line :: "string \<Rightarrow> bool" where
  "is_line l \<longleftrightarrow> list_all (\<lambda>c. c \<noteq> NEWLINE \<and> c \<noteq> CHR 0x00) l"

subsection \<open>Chunks\<close>

lemma first_line_append: "first_line a = Some (l, rest) \<Longrightarrow> first_line (a @ b) = Some (l, rest @ b)"
proof -
  assume f: "first_line a = Some (l, rest)"
  then have l: "l = takeWhile (\<lambda>c. c \<noteq> NEWLINE) a" "length l < length a" "rest = drop (Suc (length l)) a"
    by (auto simp: first_line_def Let_def split: if_splits)
  have "\<exists>x \<in> set a. \<not> x \<noteq> NEWLINE"
    using l(1,2) by (metis (mono_tags, lifting) takeWhile_eq_all_conv order_less_irrefl)
  then have "takeWhile (\<lambda>c. c \<noteq> NEWLINE) (a @ b) = l" using l(1) by (auto simp: takeWhile_append1)
  then show ?thesis using l(2,3) by (simp add: first_line_def)
qed

lemma first_line_wire: "list_all (\<lambda>c. c \<noteq> NEWLINE) l \<Longrightarrow> first_line (l @ NEWLINE # b) = Some (l, b)"
proof -
  assume "list_all (\<lambda>c. c \<noteq> NEWLINE) l"
  then have "takeWhile (\<lambda>c. c \<noteq> NEWLINE) (l @ NEWLINE # b) = l" by (simp add: takeWhile_append2 list_all_iff)
  then show ?thesis by (simp add: first_line_def)
qed


lemma serve_loop_chunk:
  assumes "c \<noteq> []"
  shows "serve_loop fits g9 sends E r h stop buf (Chunk c # es) out = serve_loop fits g9 sends E r h stop (buf @ c) es out"
proof (induction "length buf" arbitrary: h buf out rule: less_induct)
  case less
  show ?case
  proof (cases "first_line buf")
    case None
    then show ?thesis using assms by (subst serve_loop.simps) simp
  next
    case (Some p)
    obtain line rest where p: "first_line buf = Some (line, rest)" using Some by (cases p) simp
    have ih: "serve_loop fits g9 sends E r h1 stop rest (Chunk c # es) o1 = serve_loop fits g9 sends E r h1 stop (rest @ c) es o1"
      for h1 o1 using less first_line_shorter [OF p] by blast
    have p2: "first_line (buf @ c) = Some (line, rest @ c)" by (rule first_line_append [OF p])
    show ?thesis
      by (subst (1 2) serve_loop.simps) (simp only: p p2 option.case prod.case ih)
  qed
qed

lemma serve_loop_chunks:
  "list_all (\<lambda>c. c \<noteq> []) cs \<Longrightarrow>
     serve_loop fits g9 sends E r h stop buf (map Chunk cs @ es) out
       = serve_loop fits g9 sends E r h stop (buf @ concat cs) es out"
  by (induction cs arbitrary: buf) (simp_all add: serve_loop_chunk)

text \<open>What ends a connection that is waiting for bytes.\<close>

definition hangs_up :: "io_event \<Rightarrow> bool" where
  "hangs_up e \<longleftrightarrow> e \<in> {Chunk [], Idle, Poll_Failed, No_Memory, Read_Failed}"

lemma serve_loop_wire:
  assumes "list_all is_line ls" "is_line part" "hangs_up e"
  shows "serve_loop fits g9 sends E r h stop (wire_lines ls @ part) (e # es) out =
    (case run_lines fits g9 sends E r h (length out) ls of (h', ts) \<Rightarrow> (h', stop, out @ ts))"
  using assms(1)
proof (induction ls arbitrary: h out)
  case Nil
  have tw: "takeWhile (\<lambda>c. c \<noteq> NEWLINE) part = part" using assms(2) by (simp add: is_line_def list_all_iff)
  have "first_line part = None" unfolding first_line_def tw by simp
  then show ?case using assms(3) by (subst serve_loop.simps) (auto simp: wire_lines_def hangs_up_def)
next
  case (Cons l ls)
  obtain h1 t keep where s: "serve_line fits g9 E r h l = (h1, t, keep)" using prod_cases3 by blast
  have "is_line l" using Cons.prems by simp
  then have c: "c_string l = l" and nl: "list_all (\<lambda>c. c \<noteq> NEWLINE) l"
    by (auto simp: is_line_def c_string_def list_all_iff)
  have f: "first_line (wire_lines (l # ls) @ part) = Some (l, wire_lines ls @ part)"
    using first_line_wire [OF nl, of "wire_lines ls @ part"] by (simp add: wire_lines_def)
  show ?case
    by (subst serve_loop.simps) (use Cons in \<open>simp add: f c s split: option.splits prod.splits\<close>)
qed

subsection \<open>Properties\<close>

text \<open>
  Property C9. One reply per request, strictly in order, whatever the framing: the bytes of a
  connection may arrive in any pieces, several requests at once or one cut in two; the replies and the
  engine's state are those of serving the complete lines one after another from a reset session,
  up to the request after which the connection ends, and an unfinished last line is dropped.
\<close>

theorem connection_in_order:
  assumes "list_all is_line ls" "is_line part" "list_all (\<lambda>c. c \<noteq> []) cs" "concat cs = wire_lines ls @ part" "hangs_up e"
  shows "serve_connection fits g9 sends E r h stop (map Chunk cs @ e # es) =
    (case run_lines fits g9 sends E r (ds4s_invalidate E h) 0 ls of (h', ts) \<Rightarrow> (h', stop, ts))"
proof -
  have "serve_connection fits g9 sends E r h stop (map Chunk cs @ e # es)
      = serve_loop fits g9 sends E r (ds4s_invalidate E h) stop (wire_lines ls @ part) (e # es) []"
    unfolding serve_connection_def serve_loop_chunks [OF assms(3)] assms(4) by simp
  also have "\<dots> = (case run_lines fits g9 sends E r (ds4s_invalidate E h) 0 ls of (h', ts) \<Rightarrow> (h', stop, ts))"
    using serve_loop_wire [OF assms(1,2,5), where out = "[]"] by simp
  finally show ?thesis .
qed

end
