(* ===== verification/Qwen_Engines.thy ===== *)
theory Qwen_Engines
  imports Qwen_Exact Ref_Kernels
begin

text \<open>
  Two engines that satisfy the contract of \<open>Qwen_Exact\<close>: the reduced reference model the repository
  checks the cycle against, and the trace machine, small enough to evaluate requests on. Their
  head publishes nothing into its cache, their device calls and allocations succeed, and no environment variable is set.
\<close>

definition plain_head :: "nat \<Rightarrow> 'v mtp_head" where
  "plain_head nv = \<lparr>head_hooks = True, seed_hook = False, native_init = None, head_maps = True, eh_proj_in_dim = 2,
     head_n_embd = 1, head_n_hc = 1, head_n_lowrank = 1, head_n_vocab = nv, max_tokens = 7,
     cache_seed_capacity = 0, t_cache_tail = None, cache_tail_pos = 0, cache_tail_next_token = 0, cache_tail_valid = False,
     native_capacity = 0, draft_vocab_prefix = 0, draft_vocab_tail = 0\<rparr>"

definition host_engine :: "('v, 'q) kernels \<Rightarrow> 'v \<Rightarrow> 'q \<Rightarrow> ('v, 'q) qengine" where
  "host_engine K z q0 = \<lparr>e_kernels = K, e_fails = never_fails, e_seed = (\<lambda>c xs hs p. (c, True)), e_ratio = 4,
     e_zero = z, e_hist0 = q0, e_env = (\<lambda>_. None), e_strtof = (\<lambda>_. (F32 0, 0)), e_atoi = (\<lambda>_. 0),
     e_alloc = (\<lambda>_ _. True), e_junk = z, e_scratch = Some (replicate MTP_HC_ROWS z),
     e_scratch_logits = Some (replicate MTP_MAX_COMMIT []), e_mtp_ready = True, e_mtp_draft_tokens = 3,
     e_head = plain_head (k_n_vocab K), e_block_bound = True, e_block_registered = True, e_slot_alloc = (\<lambda>_. True),
     e_norms_written = True, e_cancelled = False, e_text = (\<lambda>_. ''refused''),
     e_other_verifier = (\<lambda>s x b eos c. (s, Inl No_Message))\<rparr>"

lemma host_engine_contract:
  assumes "qwen_kernels K row" "\<And>l hs. l \<in> set (k_logits K hs) \<Longrightarrow> pickable l (k_n_vocab K)"
  shows "qwen_engine (host_engine K z q0) row"
  using assms by (auto simp: qwen_engine_def host_engine_def)

definition ref_engine :: "(u64 list, u64 list) qengine" where
  "ref_engine = host_engine ref_kernels [0] []"

definition trace_engine :: "(int list, int list) qengine" where
  "trace_engine = host_engine trace_kernels [] []"

lemma ref_pickable: "pickable (ref_logits h) REF_VOCAB"
proof -
  have "length (ref_logits h) = REF_VOCAB" by (simp add: ref_logits_def)
  moreover have "0 \<le> (unsigned w :: rat)" for w :: u64 by (metis of_nat_0_le_iff of_nat_unat)
  then have "ref_logits h ! 0 \<noteq> F32_NaN \<and> f32_lt DS4_NEG_INF (ref_logits h ! 0)"
    by (simp add: ref_logits_def REF_VOCAB_def Let_def DS4_NEG_INF_def) (rule order.strict_trans2 [of _ 0], simp_all)
  ultimately show ?thesis by (auto simp: pickable_def REF_VOCAB_def intro!: exI [of _ 0])
qed

lemma trace_pickable: "pickable (trace_logits h) 5"
  by (auto simp: pickable_def trace_logits_def DS4_NEG_INF_def intro!: exI [of _ 0])

interpretation refe: qwen_engine ref_engine ref_step
  unfolding ref_engine_def
  by (rule host_engine_contract [OF refk.qwen_kernels_axioms]) (auto simp: ref_kernels_def ref_pickable)

interpretation tracee: qwen_engine trace_engine trace_row
  unfolding trace_engine_def
  by (rule host_engine_contract [OF tracek.qwen_kernels_axioms]) (auto simp: trace_kernels_def trace_pickable)

text \<open>A session of the trace engine with the speculative machinery already set up.\<close>

definition trace_armed :: "(int list, int list) qsession" where
  "trace_armed = \<lparr>q_graph = trace_session, q_spec = trace_state 2, q_head = plain_head 5, seam_bound = True,
     head_slots = replicate 8 True, spec_ready = True, spec_failed = False, q_logits = [], checkpoint = [],
     checkpoint_valid = False, q_ctx_size = 100\<rparr>"

lemma trace_armed_inv: "session_inv trace_engine trace_armed"
proof -
  have "mtp_wf (trace_state 2)" by (rule trace_state_wf) simp
  moreover have "clean_ok [] [] trace_session" by (simp add: clean_ok_def trace_session_def)
  ultimately show ?thesis
    using trace_set_ok
    by (simp add: session_inv_def trace_armed_def trace_engine_def host_engine_def trace_state_def mtp_invalidate_def trace_kernels_def)
qed

text \<open>The set-up itself succeeds on a fresh session of either engine.\<close>

definition fresh_session :: "('v, 'q) gsession \<Rightarrow> ('v, 'q) qsession" where
  "fresh_session g = \<lparr>q_graph = g,
     q_spec = \<lparr>rollback = rollback_init, depth = 0, pending = [], n_pending = 0, pending_parent = 0, pending_margin = [],
       stop_margin = F32 0, drop_margin = F32 0, drop_keep = 0, head_rows = 0, hc_scratch = None, logits_rows = None,
       hc_dim = 0, n_vocab = 0, frontier_top1 = 0, frontier_row = 0, frontier_top1_valid = False,
       frontier_logits_deferred = False, counters = counters_zero\<rparr>,
     q_head = plain_head 0, seam_bound = False, head_slots = replicate 8 False, spec_ready = False, spec_failed = False,
     q_logits = [], checkpoint = [], checkpoint_valid = False, q_ctx_size = 100\<rparr>"

lemma fresh_inv: "clean_ok (e_zero E) (e_hist0 E) g \<Longrightarrow> session_inv E (fresh_session g)"
  by (simp add: session_inv_def fresh_session_def)

lemma host_armed:
  assumes "0 < k_n_vocab K" "k_n_vocab K < 98584" "0 < k_hc_dim K"
  shows "\<exists>s. session_spec_init (host_engine K z q0) (fresh_session g) = (s, None) \<and> spec_ready s"
proof -
  let ?E = "host_engine K z q0"
  let ?h = "spec_head ?E ((fresh_session g)\<lparr>spec_failed := True\<rparr>)"
  obtain S where S: "session_rollback_set K never_fails 4 = Inr S" "rollback_check S = None"
    using rollback_set_accepted [of K never_fails 4] by (auto simp: rollback_complete_def)
  have h: "?h = plain_head (k_n_vocab K)"
    by (simp add: spec_head_def host_engine_def plain_head_def)
  have v: "mtp_head_draft_vocab (\<lambda>_. None) (k_n_vocab K) = Inr (0, 0)"
    using assms(2) by (simp add: mtp_head_draft_vocab_def mtp_env_u32_def DRAFT_VOCAB_PREFIX_DEFAULT_def DRAFT_VOCAB_TAIL_DEFAULT_def)
  have "list_all (\<lambda>(i, b). True) xs" for xs :: "(nat \<times> nat) list" by (simp add: list_all_iff case_prod_unfold)
  then have i: "\<exists>h'. mtp_head_init (\<lambda>_ _. True) z (\<lambda>_. None) (plain_head (k_n_vocab K)) = (h', None)"
    using assms(1) v by (auto simp: mtp_head_init_def plain_head_def native_setup_def Let_def)
  have b: "\<exists>s1. add_head_block ?E ((fresh_session g)\<lparr>spec_failed := True, q_head := ?h\<rparr>) = (s1, True) \<and> q_head s1 = ?h"
    by (simp add: add_head_block_def host_engine_def fresh_session_def Let_def list_all_iff)
  have d: "mtp_depth_from_draft_tokens 3 = Inr 2"
    by (simp add: mtp_depth_from_draft_tokens_def mtp_consts)
  have st: "\<exists>st. mtp_state_init f a (\<lambda>_. None) (Some x) (Some y) (int 2) (Some S) (k_hc_dim K) (k_n_vocab K) = Inr st" for f a x y
    using S(2) assms(1,3) by (simp add: mtp_state_init_def Let_def mtp_consts)
  have fields: "e_kernels ?E = K" "e_fails ?E = never_fails" "e_ratio ?E = 4" "e_alloc ?E = (\<lambda>_ _. True)" "e_junk ?E = z"
    "e_env ?E = (\<lambda>_. None)" "e_mtp_draft_tokens ?E = 3" "\<exists>x y. e_scratch ?E = Some x \<and> e_scratch_logits ?E = Some y"
    by (simp_all add: host_engine_def)
  obtain s1 h' x y where o: "add_head_block ?E ((fresh_session g)\<lparr>spec_failed := True, q_head := ?h\<rparr>) = (s1, True)"
    "q_head s1 = ?h" "mtp_head_init (\<lambda>_ _. True) z (\<lambda>_. None) ?h = (h', None)"
    "e_scratch ?E = Some x" "e_scratch_logits ?E = Some y"
    using b i fields(8) h by auto
  obtain st0 where "mtp_state_init (e_strtof ?E) (e_atoi ?E) (\<lambda>_. None) (Some x) (Some y) (int 2) (Some S) (k_hc_dim K) (k_n_vocab K) = Inr st0"
    using st by blast
  moreover have "\<not> spec_ready (fresh_session g)" "\<not> spec_failed (fresh_session g)" by (simp_all add: fresh_session_def)
  ultimately show ?thesis using o S(1) d by (simp add: session_spec_init_def Let_def fields)
qed

lemma trace_fresh_armed: "\<exists>s. session_spec_init trace_engine (fresh_session trace_session) = (s, None) \<and> spec_ready s"
  unfolding trace_engine_def by (rule host_armed) (simp_all add: trace_kernels_def)

lemma trace_sync: "snd (session_sync trace_engine trace_armed [1, 2]) = None
   \<and> session_argmax trace_engine (fst (session_sync trace_engine trace_armed [1, 2])) = 2"
  by code_simp

end
