(* ===== verification/Resident_Properties.thy ===== *)
theory Resident_Properties
  imports Resident_Exact Resident_Framing Qwen_Engines
begin

text \<open>
  The properties of the resident process and of the session verbs under it: the stream of a free run,
  the isolation of phases, the verbs as steps of the token-serial target, and the parsing of requests.
\<close>

subsection \<open>Requests\<close>

definition plain_request :: "string list \<Rightarrow> (string \<times> jval) list \<Rightarrow> bool" where
  "plain_request keys kvs \<longleftrightarrow> list_all (\<lambda>k. is_word k \<and> length k < 60 \<and> plain_members k kvs) keys"

lemma plain_request_reads:
  "plain_request ks kvs \<Longrightarrow> k \<in> set ks \<Longrightarrow> map_of kvs k = Some v \<Longrightarrow> reads_back (request kvs) k v"
  by (rule request_reads_back) (auto simp: plain_request_def list_all_iff)

text \<open>
  Property C36. A request reads back. Of any flat object the client writes (members in any order, keys and
  strings plain words, no string value equal to the key looked for) the small parser recovers every
  member exactly: 64-bit integers, lists of 32-bit tokens, and strings that fit the buffer.
\<close>

theorem request_round_trip:
  assumes "plain_request [key] kvs" "map_of kvs key = Some v"
  shows "case v of
    Jint i \<Rightarrow> LONG_MIN \<le> i \<and> i \<le> LONG_MAX \<longrightarrow> field_int (request kvs) key = Some i
  | Jints xs \<Rightarrow> list_all (\<lambda>i. - 2147483648 \<le> i \<and> i \<le> INT32_MAX) xs \<longrightarrow> field_int_array (request kvs) key = Some xs
  | Jstr w \<Rightarrow> \<forall>n > length w. field_string (request kvs) key n = Some w"
  using request_reads_back [of key kvs v] assms by (cases v) (auto simp: plain_request_def)

definition sample_run :: "(string \<times> jval) list" where
  "sample_run = [(''count'', Jint 1), (''op'', Jstr ''spec_run''), (''first_token'', Jint 2)]"

definition sample_sync :: "(string \<times> jval) list" where
  "sample_sync = [(''op'', Jstr ''sync''), (''tokens'', Jints [1, 2])]"

lemma sample_plain: "plain_request [''op'', ''first_token'', ''count''] sample_run"
  "plain_request [''op'', ''tokens''] sample_sync" "plain_request [''tokens''] sample_sync"
  by (simp_all add: plain_request_def plain_members_def is_word_def sample_run_def sample_sync_def)

lemma sample_members:
  "map_of sample_sync ''op'' = Some (Jstr ''sync'')" "map_of sample_sync ''tokens'' = Some (Jints [1, 2])"
  "map_of sample_run ''op'' = Some (Jstr ''spec_run'')" "map_of sample_run ''first_token'' = Some (Jint 2)"
  "map_of sample_run ''count'' = Some (Jint 1)"
  by (simp_all add: sample_sync_def sample_run_def)

theorem request_round_trip_witness:
  "field_int_array (request sample_sync) ''tokens'' = Some [1, 2]"
  using request_round_trip [OF sample_plain(3), of "Jints [1, 2]"] by (simp add: sample_sync_def INT32_MAX_def)

subsection \<open>The session verbs\<close>

text \<open>
  Property C4. The session verbs implement the token-serial target. With batch-invariant kernels and
  from any session in sync with the target fed some tokens: a reset gives the empty target, a sync that
  succeeds the empty target fed the prompt, an eval one more token, a speculative verb the
  target's greedy stream from the token fed; each leaves the session in sync, its tape extended by
  exactly these tokens and its argmax the target's choice.
\<close>

theorem session_verbs_refine:
  assumes "qwen_engine E row" "session_inv E s" "in_sync (graph_holds (e_kernels E)) (q_graph s) t"
  shows "let step = target_step (e_kernels E) row; pick = target_pick (e_kernels E);
      t0 = empty_target (e_zero E) (e_hist0 E) (e_zero E);
      ok = (\<lambda>s' t' tape. session_inv E s' \<and> in_sync (graph_holds (e_kernels E)) (q_graph s') t' \<and> checkpoint s' = tape \<and>
              (tape \<noteq> [] \<longrightarrow> session_argmax E s' = pick t'))
    in ok (session_invalidate E s) t0 []
     \<and> (\<forall>prompt s'. session_sync E s prompt = (s', None) \<longrightarrow> ok s' (foldl step t0 prompt) prompt)
     \<and> (\<forall>x s'. session_eval E s x = (s', None) \<longrightarrow> ok s' (step t x) (checkpoint s @ [x]))
     \<and> (\<forall>x b c s' acc. session_spec_cycle E s x b c = (s', Inr acc) \<longrightarrow>
          acc \<noteq> [] \<and> int (length acc) \<le> min b c \<and> acc = greedy step pick t x (length acc) \<and>
          ok s' (foldl step t acc) (checkpoint s @ acc))"
proof -
  note q = assms(1)
  note syn = qwen_engine.synced_def [OF q] and fd = qwen_engine.feed_def [OF q]
    and bs = qwen_engine.best_def [OF q] and st = qwen_engine.start_def [OF q]
  have sy: "qwen_engine.synced E s t" using assms(3) by (simp add: syn)
  have i: "session_inv E (session_invalidate E s) \<and> checkpoint (session_invalidate E s) = [] \<and>
      in_sync (graph_holds (e_kernels E)) (q_graph (session_invalidate E s)) (empty_target (e_zero E) (e_hist0 E) (e_zero E))"
    using qwen_engine.invalidate_resets [OF q assms(2)] by (simp add: syn st)
  have y: "session_inv E s' \<and> in_sync (graph_holds (e_kernels E)) (q_graph s')
        (foldl (target_step (e_kernels E) row) (empty_target (e_zero E) (e_hist0 E) (e_zero E)) prompt) \<and> checkpoint s' = prompt \<and>
      session_argmax E s' = target_pick (e_kernels E) (foldl (target_step (e_kernels E) row) (empty_target (e_zero E) (e_hist0 E) (e_zero E)) prompt)"
    if "session_sync E s prompt = (s', None)" for prompt s'
    using qwen_engine.session_sync_exact [OF q that assms(2)] by (simp add: syn fd bs st)
  have e: "session_inv E s' \<and> in_sync (graph_holds (e_kernels E)) (q_graph s') (target_step (e_kernels E) row t x) \<and>
      checkpoint s' = checkpoint s @ [x] \<and> session_argmax E s' = target_pick (e_kernels E) (target_step (e_kernels E) row t x)"
    if "session_eval E s x = (s', None)" for x s'
    using qwen_engine.session_eval_exact [OF q that assms(2) sy] by (simp add: syn fd bs)
  have c: "acc \<noteq> [] \<and> int (length acc) \<le> min b c \<and>
      acc = greedy (target_step (e_kernels E) row) (target_pick (e_kernels E)) t x (length acc) \<and> session_inv E s' \<and>
      in_sync (graph_holds (e_kernels E)) (q_graph s') (foldl (target_step (e_kernels E) row) t acc) \<and>
      checkpoint s' = checkpoint s @ acc \<and>
      session_argmax E s' = target_pick (e_kernels E) (foldl (target_step (e_kernels E) row) t acc)"
    if "session_spec_cycle E s x b c = (s', Inr acc)" for x b c s' acc
    using qwen_engine.spec_cycle_exact [OF q that assms(2) sy] qwen_engine.spec_cycle_inv [OF q that assms(2)]
    unfolding syn fd bs by simp
  show ?thesis unfolding Let_def using i y e c by simp
qed

text \<open>The trace machine, in sync with its empty target.\<close>

lemma trace_armed_facts:
  "qwen_engine trace_engine trace_row" "session_inv trace_engine trace_armed"
  "in_sync (graph_holds (e_kernels trace_engine)) (q_graph trace_armed) trace_target"
proof -
  show "qwen_engine trace_engine trace_row" by (rule tracee.qwen_engine_axioms)
  show "session_inv trace_engine trace_armed" by (rule trace_armed_inv)
  show "in_sync (graph_holds (e_kernels trace_engine)) (q_graph trace_armed) trace_target"
    using trace_session_sync by (simp add: trace_engine_def host_engine_def trace_armed_def)
qed

theorem session_verbs_refine_witness:
  "\<exists>s'. session_sync trace_engine trace_armed [1, 2] = (s', None) \<and> checkpoint s' = [1, 2] \<and>
     session_argmax trace_engine s' = 2"
proof -
  obtain s' where s: "session_sync trace_engine trace_armed [1, 2] = (s', None)" "session_argmax trace_engine s' = 2"
    using trace_sync by (metis prod.collapse)
  from session_verbs_refine [OF trace_armed_facts] have "checkpoint s' = [1, 2]" using s(1) unfolding Let_def by blast
  then show ?thesis using s by blast
qed

subsection \<open>Phases and free runs\<close>

text \<open>
  Property C7. No phase inherits anything from an earlier one. From an opened process, after any sequence
  of connections with any requests, refusals, failures of device calls, hang-ups and signals, the
  reset at the start of the next connection leaves the session in sync with the empty target, with an
  empty tape, no carried draft and no stale frontier token.
\<close>

theorem resident_phases_isolated:
  assumes "qwen_engine E row" "session_inv E s0"
    and "ds4s_open fits E model_path draft_tokens ctx engine (Some s0) = Inr h0"
    and "accept_loop fits g9 E r h0 stop as = (h, outs)"
  shows "let s = h_session (ds4s_invalidate E h)
    in in_sync (graph_holds (e_kernels E)) (q_graph s) (empty_target (e_zero E) (e_hist0 E) (e_zero E))
       \<and> checkpoint s = [] \<and> n_pending (q_spec s) = 0 \<and> \<not> frontier_top1_valid (q_spec s) \<and> session_inv E s"
proof -
  have "session_inv E (h_session h0)" using qwen_engine.open_inv [OF assms(1,3,2)] by blast
  then have i: "session_inv E (h_session h)"
    using qwen_engine.accept_loop_inv [OF assms(1), of h0 fits g9 r stop as] assms(4) by simp
  show ?thesis
    using qwen_engine.invalidate_resets [OF assms(1) i]
    by (simp add: ds4s_invalidate_def qwen_engine.synced_def [OF assms(1)] qwen_engine.start_def [OF assms(1)])
qed

definition trace_resident :: resident where
  "trace_resident = \<lparr>r_ident = ''ds4'', r_model_path = ''m'', r_mtp_head_path = [], r_draft_tokens = 3, r_ctx_size = 100,
     r_load_epoch = 1, r_spec_run = True\<rparr>"

definition trace_handle :: "(int list, int list) ds4s_handle" where
  "trace_handle = \<lparr>h_session = trace_armed, h_err = [], h_vocab = 5, h_eos = 0\<rparr>"

theorem resident_phases_isolated_witness:
  "\<exists>h0 h outs. ds4s_open (\<lambda>_. True) trace_engine ''m'' 3 100 (Some (5, 0)) (Some (fresh_session trace_session)) = Inr h0 \<and>
     accept_loop (\<lambda>_. True) (\<lambda>_. []) trace_engine trace_resident h0 False
       [Accepted (\<lambda>_. True) [Chunk (request sample_sync @ [NEWLINE]), Idle]] = (h, outs) \<and>
     checkpoint (h_session (ds4s_invalidate trace_engine h)) = []"
proof -
  have c: "session_inv trace_engine (fresh_session trace_session)"
    by (rule fresh_inv) (simp add: clean_ok_def trace_session_def trace_engine_def host_engine_def)
  obtain h0 where o: "ds4s_open (\<lambda>_. True) trace_engine ''m'' 3 100 (Some (5, 0)) (Some (fresh_session trace_session)) = Inr h0"
    by (auto simp: ds4s_open_def Let_def)
  obtain h outs where a: "accept_loop (\<lambda>_. True) (\<lambda>_. []) trace_engine trace_resident h0 False
      [Accepted (\<lambda>_. True) [Chunk (request sample_sync @ [NEWLINE]), Idle]] = (h, outs)" by (meson surj_pair)
  from resident_phases_isolated [OF trace_armed_facts(1) c o a] show ?thesis using o a unfolding Let_def by blast
qed

text \<open>
  Property C1. A free run is the target's greedy stream. If a sync request and then a spec_run request
  are answered with success, whatever the draft head proposed, whatever the depth, the margins and the
  lengths of the rounds, then the sync reply is the target's choice after the prompt, and
  the rounds of the run reply join to exactly \<open>count\<close> tokens, those a serial greedy feed
  from \<open>first_token\<close> commits; every round has 1 to 17 tokens, every frontier is the target's choice
  after the rounds so far, and the session's tape is the prompt and the run.
\<close>

theorem resident_free_run_exact:
  assumes "qwen_engine E row" "e_mtp_ready E" "session_inv E (h_session h)"
    and "plain_request [''op'', ''tokens''] sync" "map_of sync ''op'' = Some (Jstr ''sync'')"
    and "map_of sync ''tokens'' = Some (Jints toks)" "list_all (\<lambda>x. - 2147483648 \<le> x \<and> x \<le> INT32_MAX) toks"
    and "plain_request [''op'', ''first_token'', ''count''] run" "map_of run ''op'' = Some (Jstr ''spec_run'')"
    and "map_of run ''first_token'' = Some (Jint first)" "- 2147483648 \<le> first \<and> first \<le> INT32_MAX"
    and "map_of run ''count'' = Some (Jint count)" "LONG_MIN \<le> count \<and> count \<le> LONG_MAX"
    and "serve_line fits g9 E r h (request sync) = (h1, Some reply1, keep1)" "reply_ok reply1"
    and "serve_line fits g9 E r h1 (request run) = (h2, Some reply2, keep2)" "reply_ok reply2"
  shows "let step = target_step (e_kernels E) row; pick = target_pick (e_kernels E);
      t = foldl step (empty_target (e_zero E) (e_hist0 E) (e_zero E)) toks
    in reply1 = token_reply (pick t) \<and>
      (\<exists>rs. reply2 = run_reply rs (map (\<lambda>i. pick (foldl step t (concat (take (Suc i) rs)))) [0..<length rs])
               (pick (foldl step t (concat rs)))
         \<and> concat rs = greedy step pick t first (nat count) \<and> list_all (\<lambda>q. q \<noteq> [] \<and> length q \<le> 17) rs
         \<and> checkpoint (h_session h2) = toks @ concat rs)"
proof -
  note q = assms(1)
  note r1 = plain_request_reads [OF assms(4)] and r2 = plain_request_reads [OF assms(8)]
  have f1: "field_string (request sync) ''op'' 32 = Some ''sync''" "field_int_array (request sync) ''tokens'' = Some toks"
    using r1 [OF _ assms(5)] r1 [OF _ assms(6)] assms(7) by simp_all
  have f2: "field_string (request run) ''op'' 32 = Some ''spec_run''" "field_int (request run) ''first_token'' = Some first"
    "field_int (request run) ''count'' = Some count"
    using r2 [OF _ assms(9)] r2 [OF _ assms(10)] r2 [OF _ assms(12)] assms(11,13)
    by (simp_all add: INT32_MAX_def LONG_MIN_def LONG_MAX_def)
  have x: "cast_i32 first = first" using assms(11) by (simp add: cast_i32_id)
  let ?t = "qwen_engine.feed E row (qwen_engine.start E) toks"
  have s: "reply1 = token_reply (qwen_engine.best E ?t)" "session_inv E (h_session h1)" "qwen_engine.synced E (h_session h1) ?t"
    "checkpoint (h_session h1) = toks"
    using qwen_engine.sync_line_exact [OF q assms(14,15,3) f1] by blast+
  obtain rs where "reply2 = run_reply rs (qwen_engine.frontiers_of E row ?t rs) (qwen_engine.best E (qwen_engine.feed E row ?t (concat rs)))"
    "concat rs = greedy (target_step (e_kernels E) row) (qwen_engine.best E) ?t first (nat count)"
    "list_all (\<lambda>q. q \<noteq> [] \<and> length q \<le> 17) rs" "checkpoint (h_session h2) = toks @ concat rs"
    using qwen_engine.run_line_exact [OF q assms(16,17) s(2,3) assms(2) f2] unfolding s(4) x by blast
  then show ?thesis
    using s(1) unfolding Let_def qwen_engine.frontiers_of_map [OF q] qwen_engine.feed_def [OF q] qwen_engine.best_def [OF q] qwen_engine.start_def [OF q]
    by blast
qed

lemma trace_sync_reply:
  "\<exists>s1. session_sync trace_engine trace_armed [1, 2] = (s1, None) \<and>
     serve_line (\<lambda>_. True) (\<lambda>_. []) trace_engine trace_resident trace_handle (request sample_sync)
       = (trace_handle\<lparr>h_session := s1\<rparr>, Some (token_reply 2), True)"
proof -
  obtain s1 where s: "session_sync trace_engine trace_armed [1, 2] = (s1, None)" "session_argmax trace_engine s1 = 2"
    using trace_sync by (metis prod.collapse)
  have "field_string (request sample_sync) ''op'' 32 = Some ''sync''" "field_int_array (request sample_sync) ''tokens'' = Some [1, 2]"
    using plain_request_reads [OF sample_plain(2) _ sample_members(1)] plain_request_reads [OF sample_plain(2) _ sample_members(2)]
    by (simp_all add: INT32_MAX_def)
  then show ?thesis using s
    by (simp add: serve_line_def serve_sync_def ds4s_sync_def ds4s_argmax_def send_built_def trace_handle_def)
qed

lemma trace_run_round: "snd (session_spec_cycle trace_engine (fst (session_sync trace_engine trace_armed [1, 2])) 2 1 1) = Inr [2]"
  by code_simp

lemma trace_run_reply:
  assumes "session_sync trace_engine trace_armed [1, 2] = (s1, None)"
  shows "\<exists>h2 t. serve_line (\<lambda>_. True) (\<lambda>_. []) trace_engine trace_resident (trace_handle\<lparr>h_session := s1\<rparr>) (request sample_run)
    = (h2, Some (run_reply [[2]] [t] t), True)"
proof -
  obtain s2 where s: "session_spec_cycle trace_engine s1 2 1 1 = (s2, Inr [2])"
    using trace_run_round assms by (metis fst_conv prod.collapse)
  have m: "e_mtp_ready trace_engine" by (simp add: trace_engine_def host_engine_def)
  have f: "field_string (request sample_run) ''op'' 32 = Some ''spec_run''" "field_int (request sample_run) ''first_token'' = Some 2"
    "field_int (request sample_run) ''count'' = Some 1"
    using plain_request_reads [OF sample_plain(1) _ sample_members(3)] plain_request_reads [OF sample_plain(1) _ sample_members(4)]
      plain_request_reads [OF sample_plain(1) _ sample_members(5)]
    by (simp_all add: LONG_MIN_def LONG_MAX_def)
  let ?h = "trace_handle\<lparr>h_session := s1\<rparr>" and ?h2 = "trace_handle\<lparr>h_session := s2\<rparr>"
  have "ds4s_eval_speculative trace_engine ?h 2 1 RESIDENT_MAX_SPEC = (?h2, Some [2])"
    using s m by (simp add: ds4s_eval_speculative_def session_eval_speculative_def RESIDENT_MAX_SPEC_def)
  then have "spec_rounds (\<lambda>_. True) trace_engine ?h 2 1 [] [] = (?h2, Run_Done [[2]] [ds4s_argmax trace_engine ?h2])"
    by (simp add: spec_rounds.simps run_fits_def)
  moreover have "cast_i32 2 = 2" by (simp add: cast_i32_def)
  ultimately show ?thesis using f
    by (auto simp: serve_line_def serve_spec_run_def send_built_def RESIDENT_MAX_RUN_def trace_resident_def)
qed

lemma trace_stream: "greedy (target_step trace_kernels trace_row) (target_pick trace_kernels)
    (foldl (target_step trace_kernels trace_row) (empty_target [] [] []) [1, 2]) 2 1 = [2]"
  by simp

theorem resident_free_run_exact_witness:
  "\<exists>h1 h2 keep1 keep2 reply2 rs.
     serve_line (\<lambda>_. True) (\<lambda>_. []) trace_engine trace_resident trace_handle (request sample_sync) = (h1, Some (token_reply 2), keep1) \<and>
     serve_line (\<lambda>_. True) (\<lambda>_. []) trace_engine trace_resident h1 (request sample_run) = (h2, Some reply2, keep2) \<and>
     (\<exists>fs t. reply2 = run_reply rs fs t) \<and> concat rs = [2] \<and> checkpoint (h_session h2) = [1, 2, 2]"
proof -
  obtain h1 where s: "serve_line (\<lambda>_. True) (\<lambda>_. []) trace_engine trace_resident trace_handle (request sample_sync)
      = (h1, Some (token_reply 2), True)"
    and "\<exists>h2 t. serve_line (\<lambda>_. True) (\<lambda>_. []) trace_engine trace_resident h1 (request sample_run)
      = (h2, Some (run_reply [[2]] [t] t), True)"
    using trace_sync_reply trace_run_reply by blast
  then obtain h2 t2 where r: "serve_line (\<lambda>_. True) (\<lambda>_. []) trace_engine trace_resident h1 (request sample_run)
      = (h2, Some (run_reply [[2]] [t2] t2), True)" by blast
  have h: "e_mtp_ready trace_engine" "session_inv trace_engine (h_session trace_handle)" "reply_ok (token_reply 2)"
    "reply_ok (run_reply [[2]] [t2] t2)"
    using trace_armed_inv by (simp_all add: trace_engine_def host_engine_def trace_handle_def reply_ok_def token_reply_def run_reply_def)
  have b: "list_all (\<lambda>x. - 2147483648 \<le> x \<and> x \<le> INT32_MAX) [1, 2 :: int]" "- 2147483648 \<le> (2 :: int) \<and> 2 \<le> INT32_MAX"
    "LONG_MIN \<le> 1 \<and> 1 \<le> LONG_MAX"
    by (simp_all add: INT32_MAX_def LONG_MIN_def LONG_MAX_def)
  have e: "e_kernels trace_engine = trace_kernels" "e_zero trace_engine = []" "e_hist0 trace_engine = []"
    by (simp_all add: trace_engine_def host_engine_def)
  note x = resident_free_run_exact [OF trace_armed_facts(1) h(1,2) sample_plain(2) sample_members(1,2) b(1) sample_plain(1) sample_members(3,4) b(2) sample_members(5) b(3) s h(3) r h(4)]
  have n1: "nat 1 = 1" by simp
  from x obtain rs fs t where "run_reply [[2]] [t2] t2 = run_reply rs fs t" "concat rs = [2]" "checkpoint (h_session h2) = [1, 2] @ concat rs"
    unfolding Let_def e n1 trace_stream by blast
  then show ?thesis using s r by (metis append_Cons append_Nil)
qed

text \<open>Two requests and half of a third, cut in the middle of the second.\<close>

theorem connection_in_order_witness:
  "let l1 = ''{}''; l2 = request sample_sync
   in serve_connection (\<lambda>_. True) (\<lambda>_. []) (\<lambda>_. True) trace_engine trace_resident trace_handle False
        (map Chunk [l1 @ NEWLINE # take 5 l2, drop 5 l2 @ [NEWLINE, CHR ''x'']] @ Idle # []) =
      (case run_lines (\<lambda>_. True) (\<lambda>_. []) (\<lambda>_. True) trace_engine trace_resident (ds4s_invalidate trace_engine trace_handle) 0 [l1, l2] of
         (h', ts) \<Rightarrow> (h', False, ts))"
proof -
  let ?l2 = "request sample_sync"
  have l: "list_all is_line [''{}'', ?l2]" "is_line ''x''" by code_simp+
  have c: "list_all (\<lambda>c. c \<noteq> []) [''{}'' @ NEWLINE # take 5 ?l2, drop 5 ?l2 @ [NEWLINE, CHR ''x'']]" by simp
  have w: "concat [''{}'' @ NEWLINE # take 5 ?l2, drop 5 ?l2 @ [NEWLINE, CHR ''x'']] = wire_lines [''{}'', ?l2] @ ''x''"
    by (simp add: wire_lines_def flip: append_assoc)
  have e: "hangs_up Idle" by (simp add: hangs_up_def)
  from connection_in_order [OF l c w e] show ?thesis unfolding Let_def .
qed

end
