(* ===== verification/Server_Json.thy ===== *)
theory Server_Json
  imports Prelude
begin

text \<open>
  The JSON reader and writer of the HTTP server (\<open>ds4_server.c\<close>): the string reader with its
  escapes, surrogate pairs and UTF-8 encoder, the recursive skip of a value with its nesting
  limit, the minifier and the escaping writer. A text is a list of bytes; the reader stops at a
  NUL as at the end of the list, and \<open>None\<close> is a refusal (the position after one is not used).

  The loops over the members of an array or an object are \<open>partial_function\<close>s whose outer option
  says whether they return; the skip is shown to return on every input. \<open>strtod\<close> is a parameter:
  the number of bytes it consumes, 0 when it finds no number.
\<close>

unbundle bit_operations_syntax

subsection \<open>Characters\<close>

definition CH_QUOTE :: byte where "CH_QUOTE = 0x22"
definition CH_BACKSLASH :: byte where "CH_BACKSLASH = 0x5C"
definition CH_COMMA :: byte where "CH_COMMA = 0x2C"
definition CH_COLON :: byte where "CH_COLON = 0x3A"
definition CH_LBRACK :: byte where "CH_LBRACK = 0x5B"
definition CH_RBRACK :: byte where "CH_RBRACK = 0x5D"
definition CH_LBRACE :: byte where "CH_LBRACE = 0x7B"
definition CH_RBRACE :: byte where "CH_RBRACE = 0x7D"

lemmas json_chars = CH_QUOTE_def CH_BACKSLASH_def CH_COMMA_def CH_COLON_def CH_LBRACK_def CH_RBRACK_def
  CH_LBRACE_def CH_RBRACE_def

text \<open>\<open>isspace\<close> of an unsigned byte in the C locale, the byte a pointer is at, and the rest.\<close>

definition is_space :: "byte \<Rightarrow> bool" where
  "is_space c \<longleftrightarrow> c = 0x20 \<or> (0x09 \<le> c \<and> c \<le> 0x0D)"

definition at_byte :: "bytes \<Rightarrow> byte" where
  "at_byte p = (case p of [] \<Rightarrow> 0 | c # _ \<Rightarrow> c)"

lemma at_byte_simps [simp]: "at_byte [] = 0" "at_byte (c # p) = c"
  by (simp_all add: at_byte_def)

definition json_ws :: "bytes \<Rightarrow> bytes" where
  "json_ws p = dropWhile is_space p"

definition json_lit :: "bytes \<Rightarrow> bytes \<Rightarrow> bytes option" where
  "json_lit p lit = (if take (length lit) p = lit then Some (drop (length lit) p) else None)"

definition json_hex :: "byte \<Rightarrow> u32 option" where
  "json_hex c =
     (if 0x30 \<le> c \<and> c \<le> 0x39 then Some (ucast c - 0x30)
      else if 0x61 \<le> c \<and> c \<le> 0x66 then Some (10 + ucast c - 0x61)
      else if 0x41 \<le> c \<and> c \<le> 0x46 then Some (10 + ucast c - 0x41)
      else None)"

subsection \<open>Strings\<close>

definition utf8_put :: "u32 \<Rightarrow> bytes" where
  "utf8_put cp0 =
     (let cp = (if cp0 > 0x10FFFF \<or> (0xD800 \<le> cp0 \<and> cp0 \<le> 0xDFFF) then 0xFFFD else cp0) in
      if cp \<le> 0x7F then [ucast cp]
      else if cp \<le> 0x7FF then [ucast (0xC0 OR drop_bit 6 cp), ucast (0x80 OR (cp AND 0x3F))]
      else if cp \<le> 0xFFFF then
        [ucast (0xE0 OR drop_bit 12 cp), ucast (0x80 OR (drop_bit 6 cp AND 0x3F)), ucast (0x80 OR (cp AND 0x3F))]
      else
        [ucast (0xF0 OR drop_bit 18 cp), ucast (0x80 OR (drop_bit 12 cp AND 0x3F)),
         ucast (0x80 OR (drop_bit 6 cp AND 0x3F)), ucast (0x80 OR (cp AND 0x3F))])"

text \<open>The four digits, most significant first.\<close>

fun json_hex4 :: "u32 \<Rightarrow> bytes \<Rightarrow> u32 option" where
  "json_hex4 cp [] = Some cp"
| "json_hex4 cp (c # cs) =
     (case json_hex c of None \<Rightarrow> None | Some h \<Rightarrow> json_hex4 (push_bit 4 cp OR h) cs)"

definition json_u16 :: "bytes \<Rightarrow> (u32 \<times> bytes) option" where
  "json_u16 p =
     (if at_byte p \<noteq> CH_BACKSLASH \<or> at_byte (tl p) \<noteq> 0x75 then None
      else if length p < 6 then None
      else map_option (\<lambda>cp. (cp, drop 6 p)) (json_hex4 0 (take 4 (drop 2 p))))"

text \<open>The escape at \<open>p\<close>, whose first byte is the backslash: what it appends and the rest.\<close>

definition json_escape_char :: "byte \<Rightarrow> byte option" where
  "json_escape_char c =
     (if c = CH_QUOTE \<or> c = CH_BACKSLASH \<or> c = 0x2F then Some c
      else if c = 0x62 then Some 0x08
      else if c = 0x66 then Some 0x0C
      else if c = 0x6E then Some 0x0A
      else if c = 0x72 then Some 0x0D
      else if c = 0x74 then Some 0x09
      else None)"

definition json_unicode :: "bytes \<Rightarrow> (bytes \<times> bytes) option" where
  "json_unicode p =
     (case json_u16 p of
        None \<Rightarrow> None
      | Some (cp, p1) \<Rightarrow>
          if 0xD800 \<le> cp \<and> cp \<le> 0xDBFF then
            (case json_u16 p1 of
               Some (lo, p2) \<Rightarrow>
                 if 0xDC00 \<le> lo \<and> lo \<le> 0xDFFF
                 then Some (utf8_put (0x10000 + push_bit 10 (cp - 0xD800) + (lo - 0xDC00)), p2)
                 else Some (utf8_put 0xFFFD, p1)
             | None \<Rightarrow> Some (utf8_put 0xFFFD, p1))
          else Some (utf8_put cp, p1))"

definition json_escaped :: "bytes \<Rightarrow> (bytes \<times> bytes) option" where
  "json_escaped p =
     (let c = at_byte (tl p) in
      if c = 0x75 then json_unicode p
      else map_option (\<lambda>x. ([x], tl (tl p))) (json_escape_char c))"

lemma json_u16_shorter: "json_u16 p = Some (cp, q) \<Longrightarrow> length q < length p"
  by (auto simp: json_u16_def split: if_splits)

lemma json_unicode_shorter: "json_unicode p = Some (x, q) \<Longrightarrow> length q < length p"
  by (auto simp: json_unicode_def split: option.splits if_splits dest!: json_u16_shorter)

lemma json_escape_char_0 [simp]: "json_escape_char 0 = None"
  by (simp add: json_escape_char_def json_chars)

lemma json_escaped_shorter: "json_escaped p = Some (x, q) \<Longrightarrow> length q < length p"
  by (cases p) (auto simp: json_escaped_def Let_def split: if_splits dest: json_unicode_shorter)

text \<open>The loop after the opening quote; \<open>b\<close> is the buffer.\<close>

function json_string_loop :: "bytes \<Rightarrow> bytes \<Rightarrow> (bytes \<times> bytes) option" where
  "json_string_loop p b =
     (if at_byte p = 0 then None
      else if at_byte p = CH_QUOTE then Some (b, tl p)
      else if at_byte p \<noteq> CH_BACKSLASH then json_string_loop (tl p) (b @ [at_byte p])
      else (case json_escaped p of
              None \<Rightarrow> None
            | Some (x, q) \<Rightarrow> json_string_loop q (b @ x)))"
  by pat_completeness auto

termination json_string_loop
  by (relation "measure (\<lambda>(p, b). length p)")
    (auto simp: at_byte_def split: list.splits dest!: json_escaped_shorter)

declare json_string_loop.simps [simp del]

definition json_string :: "bytes \<Rightarrow> (bytes \<times> bytes) option" where
  "json_string p =
     (let p1 = json_ws p in
      if at_byte p1 \<noteq> CH_QUOTE then None else json_string_loop (tl p1) [])"

subsection \<open>Skipping a value\<close>

definition JSON_MAX_NESTING :: nat where "JSON_MAX_NESTING = 256"

text \<open>
  The members after an opening bracket. \<open>value\<close> skips one value: \<open>None\<close> when it does not return,
  \<open>Some None\<close> when it refuses.
\<close>

partial_function (option) json_elements :: "(bytes \<Rightarrow> bytes option option) \<Rightarrow> bytes \<Rightarrow> bytes option option" where
  "json_elements value p =
     (case value p of
        None \<Rightarrow> None
      | Some None \<Rightarrow> Some None
      | Some (Some q) \<Rightarrow>
          (let r = json_ws q in
           if at_byte r = CH_RBRACK then Some (Some (tl r))
           else if at_byte r \<noteq> CH_COMMA then Some None
           else json_elements value (tl r)))"

partial_function (option) json_members :: "(bytes \<Rightarrow> bytes option option) \<Rightarrow> bytes \<Rightarrow> bytes option option" where
  "json_members value p =
     (case json_string p of
        None \<Rightarrow> Some None
      | Some (key, q) \<Rightarrow>
          (let r = json_ws q in
           if at_byte r \<noteq> CH_COLON then Some None
           else (case value (tl r) of
                   None \<Rightarrow> None
                 | Some None \<Rightarrow> Some None
                 | Some (Some q2) \<Rightarrow>
                     (let r2 = json_ws q2 in
                      if at_byte r2 = CH_RBRACE then Some (Some (tl r2))
                      else if at_byte r2 \<noteq> CH_COMMA then Some None
                      else json_members value (tl r2)))))"

definition json_skip_array :: "(bytes \<Rightarrow> bytes option option) \<Rightarrow> bytes \<Rightarrow> bytes option option" where
  "json_skip_array value p =
     (let p1 = json_ws p in
      if at_byte p1 \<noteq> CH_LBRACK then Some None
      else (let p2 = json_ws (tl p1) in
            if at_byte p2 = CH_RBRACK then Some (Some (tl p2)) else json_elements value p2))"

definition json_skip_object :: "(bytes \<Rightarrow> bytes option option) \<Rightarrow> bytes \<Rightarrow> bytes option option" where
  "json_skip_object value p =
     (let p1 = json_ws p in
      if at_byte p1 \<noteq> CH_LBRACE then Some None
      else (let p2 = json_ws (tl p1) in
            if at_byte p2 = CH_RBRACE then Some (Some (tl p2)) else json_members value p2))"

definition json_number :: "(bytes \<Rightarrow> nat) \<Rightarrow> bytes \<Rightarrow> bytes option" where
  "json_number strtod p =
     (let p1 = json_ws p; n = strtod p1 in if n = 0 then None else Some (drop n p1))"

definition LIT_TRUE :: bytes where "LIT_TRUE = [0x74, 0x72, 0x75, 0x65]"
definition LIT_FALSE :: bytes where "LIT_FALSE = [0x66, 0x61, 0x6C, 0x73, 0x65]"
definition LIT_NULL :: bytes where "LIT_NULL = [0x6E, 0x75, 0x6C, 0x6C]"

definition json_scalar :: "(bytes \<Rightarrow> nat) \<Rightarrow> bytes \<Rightarrow> bytes option" where
  "json_scalar strtod p =
     (case json_lit p LIT_TRUE of Some q \<Rightarrow> Some q | None \<Rightarrow>
      case json_lit p LIT_FALSE of Some q \<Rightarrow> Some q | None \<Rightarrow>
      case json_lit p LIT_NULL of Some q \<Rightarrow> Some q | None \<Rightarrow> json_number strtod p)"

text \<open>
  \<open>json_skip_value_depth\<close>; the argument is the nesting left, \<open>JSON_MAX_NESTING - depth\<close>, so that
  an array or an object at the limit is the case 0.
\<close>

primrec json_skip_nested :: "(bytes \<Rightarrow> nat) \<Rightarrow> nat \<Rightarrow> bytes \<Rightarrow> bytes option option" where
  "json_skip_nested strtod 0 p =
     (let p1 = json_ws p in
      if at_byte p1 = CH_QUOTE then Some (map_option snd (json_string p1))
      else if at_byte p1 = CH_LBRACE \<or> at_byte p1 = CH_LBRACK then Some None
      else Some (json_scalar strtod p1))"
| "json_skip_nested strtod (Suc left) p =
     (let p1 = json_ws p in
      if at_byte p1 = CH_QUOTE then Some (map_option snd (json_string p1))
      else if at_byte p1 = CH_LBRACE then json_skip_object (json_skip_nested strtod left) p1
      else if at_byte p1 = CH_LBRACK then json_skip_array (json_skip_nested strtod left) p1
      else Some (json_scalar strtod p1))"

definition json_skip_value :: "(bytes \<Rightarrow> nat) \<Rightarrow> bytes \<Rightarrow> bytes option option" where
  "json_skip_value strtod p = json_skip_nested strtod JSON_MAX_NESTING p"

subsection \<open>Minifying\<close>

fun json_minify_loop :: "bool \<Rightarrow> bool \<Rightarrow> bytes \<Rightarrow> bytes" where
  "json_minify_loop in_string escape [] = []"
| "json_minify_loop in_string escape (c # s) =
     (if in_string then
        c # (if escape then json_minify_loop True False s
             else if c = CH_BACKSLASH then json_minify_loop True True s
             else json_minify_loop (c \<noteq> CH_QUOTE) False s)
      else if c = CH_QUOTE then c # json_minify_loop True escape s
      else if \<not> is_space c then c # json_minify_loop False escape s
      else json_minify_loop False escape s)"

definition json_minify_raw_value :: "(bytes \<Rightarrow> nat) \<Rightarrow> bytes \<Rightarrow> bytes option" where
  "json_minify_raw_value strtod json =
     (let start = json_ws json in
      case json_skip_value strtod start of
        None \<Rightarrow> None
      | Some None \<Rightarrow> Some json
      | Some (Some end_) \<Rightarrow> Some (json_minify_loop False False (take (length start - length end_) start)))"

subsection \<open>Writing\<close>

definition hex_digit :: "byte \<Rightarrow> byte" where
  "hex_digit n = (if n < 10 then 0x30 + n else 0x57 + n)"

definition json_escape_byte :: "byte \<Rightarrow> bytes" where
  "json_escape_byte c =
     (if c = CH_QUOTE \<or> c = CH_BACKSLASH then [CH_BACKSLASH, c]
      else if c = 0x0A then [CH_BACKSLASH, 0x6E]
      else if c = 0x0D then [CH_BACKSLASH, 0x72]
      else if c = 0x09 then [CH_BACKSLASH, 0x74]
      else if c < 0x20 then [CH_BACKSLASH, 0x75, 0x30, 0x30, hex_digit (drop_bit 4 c), hex_digit (c AND 0x0F)]
      else [c])"

definition json_escape_fragment :: "bytes \<Rightarrow> bytes" where
  "json_escape_fragment s = concat (map json_escape_byte s)"

definition json_escape :: "bytes \<Rightarrow> bytes" where
  "json_escape s = [CH_QUOTE] @ json_escape_fragment (takeWhile (\<lambda>c. c \<noteq> 0) s) @ [CH_QUOTE]"

subsection \<open>Reading back what was written\<close>

lemma string_loop_plain:
  "c \<noteq> 0 \<Longrightarrow> c \<noteq> CH_QUOTE \<Longrightarrow> c \<noteq> CH_BACKSLASH \<Longrightarrow> json_string_loop (c # p) b = json_string_loop p (b @ [c])"
  by (subst json_string_loop.simps) simp

lemma string_loop_escape:
  "json_escaped (CH_BACKSLASH # p) = Some (x, q) \<Longrightarrow> json_string_loop (CH_BACKSLASH # p) b = json_string_loop q (b @ x)"
  by (subst json_string_loop.simps) (simp add: json_chars)

lemma string_loop_quote: "json_string_loop (CH_QUOTE # p) b = Some (b, p)"
  by (subst json_string_loop.simps) (simp add: json_chars)

lemma control_cases:
  fixes c :: byte
  assumes "c < 0x20"
  shows "c \<in> {0, 1, 2, 3, 4, 5, 6, 7, 8, 9, 10, 11, 12, 13, 14, 15, 16, 17, 18, 19, 20, 21, 22, 23, 24, 25, 26, 27, 28, 29, 30, 31}"
proof -
  have "unat c < 32" using assms by (simp add: word_less_nat_alt)
  then have "unat c \<in> {0..<32}" by simp
  then have "unat c \<in> set [0..<32]" by simp
  then have "(of_nat (unat c) :: byte) \<in> of_nat ` set [0..<32]" by (rule imageI)
  then show ?thesis by (simp add: upt_rec del: set_upt)
qed

lemma escaped_control:
  assumes "c < 0x20"
  shows "json_escaped ([CH_BACKSLASH, 0x75, 0x30, 0x30, hex_digit (drop_bit 4 c), hex_digit (c AND 0x0F)] @ p) = Some ([c], p)"
  using control_cases [OF assms]
  by (elim insertE emptyE) (simp_all add: json_escaped_def json_unicode_def json_u16_def json_chars hex_digit_def json_hex_def utf8_put_def,
      simp_all add: word_le_nat_alt)

lemma escape_byte_read:
  assumes "c \<noteq> 0"
  shows "json_string_loop (json_escape_byte c @ p) b = json_string_loop p (b @ [c])"
proof -
  consider "c = CH_QUOTE \<or> c = CH_BACKSLASH" | "c \<in> {0x0A, 0x0D, 0x09}" | "c < 0x20" "c \<notin> {0x0A, 0x0D, 0x09}"
    | "\<not> c < 0x20" "c \<noteq> CH_QUOTE" "c \<noteq> CH_BACKSLASH" by blast
  then show ?thesis
  proof cases
    case 1
    have "json_escaped (CH_BACKSLASH # c # p) = Some ([c], p)"
      using 1 by (auto simp: json_escaped_def json_escape_char_def json_chars)
    from string_loop_escape [OF this] show ?thesis using 1 by (auto simp: json_escape_byte_def)
  next
    case 2
    then have "c \<noteq> CH_QUOTE" "c \<noteq> CH_BACKSLASH" by (auto simp: json_chars)
    moreover obtain e where "json_escape_byte c = [CH_BACKSLASH, e]" "json_escaped (CH_BACKSLASH # e # p) = Some ([c], p)"
      using 2 by (auto simp: json_escaped_def json_escape_char_def json_escape_byte_def json_chars)
    ultimately show ?thesis using string_loop_escape by simp
  next
    case 3
    have "c \<noteq> CH_QUOTE" "c \<noteq> CH_BACKSLASH" using 3 by (auto simp: json_chars)
    then have e: "json_escape_byte c = [CH_BACKSLASH, 0x75, 0x30, 0x30, hex_digit (drop_bit 4 c), hex_digit (c AND 0x0F)]"
      using 3 by (simp add: json_escape_byte_def)
    from string_loop_escape [OF escaped_control [OF 3(1), unfolded append_Cons]] show ?thesis unfolding e by simp
  next
    case 4
    then have "c \<noteq> 0x0A" "c \<noteq> 0x0D" "c \<noteq> 0x09" by auto
    with 4 have "json_escape_byte c = [c]" by (simp add: json_escape_byte_def)
    then show ?thesis using string_loop_plain [OF assms 4(2,3)] by simp
  qed
qed

lemma escape_read:
  "0 \<notin> set s \<Longrightarrow> json_string_loop (json_escape_fragment s @ CH_QUOTE # p) b = Some (b @ s, p)"
proof (induction s arbitrary: b)
  case Nil
  then show ?case by (simp add: json_escape_fragment_def string_loop_quote)
next
  case (Cons c s)
  then have "c \<noteq> 0" by auto
  from escape_byte_read [OF this, of "json_escape_fragment s @ CH_QUOTE # p" b] Cons show ?case
    by (simp add: json_escape_fragment_def)
qed

lemma json_ws_quote [simp]: "json_ws (CH_QUOTE # p) = CH_QUOTE # p"
  by (simp add: json_ws_def is_space_def json_chars)

lemma json_string_escape:
  assumes "0 \<notin> set s"
  shows "json_string (json_escape s @ p) = Some (s, p)"
proof -
  have t: "takeWhile (\<lambda>c. c \<noteq> 0) s = s" using assms by (metis (mono_tags, lifting) takeWhile_eq_all_conv)
  show ?thesis using escape_read [OF assms, of p "[]"] unfolding json_escape_def t by (simp add: json_string_def Let_def)
qed

subsection \<open>Texts of values\<close>

text \<open>The grammar of strings: plain bytes, escapes and code units.\<close>

datatype sitem = S_Plain byte | S_Esc byte | S_Uni bytes

fun sitem_ok :: "sitem \<Rightarrow> bool" where
  "sitem_ok (S_Plain c) \<longleftrightarrow> c \<noteq> 0 \<and> c \<noteq> CH_QUOTE \<and> c \<noteq> CH_BACKSLASH"
| "sitem_ok (S_Esc c) \<longleftrightarrow> json_escape_char c \<noteq> None"
| "sitem_ok (S_Uni ds) \<longleftrightarrow> length ds = 4 \<and> list_all (\<lambda>d. json_hex d \<noteq> None) ds"

fun sitem_text :: "sitem \<Rightarrow> bytes" where
  "sitem_text (S_Plain c) = [c]"
| "sitem_text (S_Esc c) = [CH_BACKSLASH, c]"
| "sitem_text (S_Uni ds) = CH_BACKSLASH # 0x75 # ds"

definition items_text :: "sitem list \<Rightarrow> bytes" where
  "items_text xs = concat (map sitem_text xs)"

definition string_text :: "sitem list \<Rightarrow> bytes" where
  "string_text xs = CH_QUOTE # items_text xs @ [CH_QUOTE]"

text \<open>The grammar of values, every place for white space included.\<close>

datatype jtext =
    T_Lit bytes | T_Num bytes | T_String "sitem list"
  | T_Array bytes jelems | T_Object bytes jmembers
and jelems = E_Nil | E_Cons bytes jtext bytes jelems
and jmembers = M_Nil | M_Cons bytes "sitem list" bytes bytes jtext bytes jmembers

primrec jprint :: "jtext \<Rightarrow> bytes" and jprint_elems :: "jelems \<Rightarrow> bytes" and jprint_members :: "jmembers \<Rightarrow> bytes" where
  "jprint (T_Lit s) = s"
| "jprint (T_Num s) = s"
| "jprint (T_String xs) = string_text xs"
| "jprint (T_Array w es) = CH_LBRACK # w @ jprint_elems es"
| "jprint (T_Object w ms) = CH_LBRACE # w @ jprint_members ms"
| "jprint_elems E_Nil = [CH_RBRACK]"
| "jprint_elems (E_Cons a v b es) = a @ jprint v @ b @ (if es = E_Nil then [CH_RBRACK] else CH_COMMA # jprint_elems es)"
| "jprint_members M_Nil = [CH_RBRACE]"
| "jprint_members (M_Cons a k b c v d ms) =
     a @ string_text k @ b @ CH_COLON # c @ jprint v @ d @ (if ms = M_Nil then [CH_RBRACE] else CH_COMMA # jprint_members ms)"

primrec jdepth :: "jtext \<Rightarrow> nat" and jdepth_elems :: "jelems \<Rightarrow> nat" and jdepth_members :: "jmembers \<Rightarrow> nat" where
  "jdepth (T_Lit s) = 0"
| "jdepth (T_Num s) = 0"
| "jdepth (T_String xs) = 0"
| "jdepth (T_Array w es) = Suc (jdepth_elems es)"
| "jdepth (T_Object w ms) = Suc (jdepth_members ms)"
| "jdepth_elems E_Nil = 0"
| "jdepth_elems (E_Cons a v b es) = max (jdepth v) (jdepth_elems es)"
| "jdepth_members M_Nil = 0"
| "jdepth_members (M_Cons a k b c v d ms) = max (jdepth v) (jdepth_members ms)"

definition delimited :: "bytes \<Rightarrow> bool" where
  "delimited p \<longleftrightarrow> at_byte p \<in> {0, CH_COMMA, CH_RBRACK, CH_RBRACE} \<or> is_space (at_byte p)"

text \<open>What the reader needs of \<open>strtod\<close>: it reads a number up to a delimiter.\<close>

definition number_ok :: "(bytes \<Rightarrow> nat) \<Rightarrow> bytes \<Rightarrow> bool" where
  "number_ok strtod s \<longleftrightarrow> s \<noteq> [] \<and> (hd s = 0x2D \<or> 0x30 \<le> hd s \<and> hd s \<le> 0x39)
     \<and> list_all (\<lambda>c. \<not> is_space c \<and> c \<noteq> CH_QUOTE) s \<and> (\<forall>p. delimited p \<longrightarrow> strtod (s @ p) = length s)"

abbreviation all_space :: "bytes \<Rightarrow> bool" where
  "all_space w \<equiv> list_all is_space w"

primrec jok :: "(bytes \<Rightarrow> nat) \<Rightarrow> jtext \<Rightarrow> bool" and jok_elems :: "(bytes \<Rightarrow> nat) \<Rightarrow> jelems \<Rightarrow> bool"
  and jok_members :: "(bytes \<Rightarrow> nat) \<Rightarrow> jmembers \<Rightarrow> bool" where
  "jok sd (T_Lit s) \<longleftrightarrow> s \<in> {LIT_TRUE, LIT_FALSE, LIT_NULL}"
| "jok sd (T_Num s) \<longleftrightarrow> number_ok sd s"
| "jok sd (T_String xs) \<longleftrightarrow> list_all sitem_ok xs"
| "jok sd (T_Array w es) \<longleftrightarrow> all_space w \<and> jok_elems sd es"
| "jok sd (T_Object w ms) \<longleftrightarrow> all_space w \<and> jok_members sd ms"
| "jok_elems sd E_Nil \<longleftrightarrow> True"
| "jok_elems sd (E_Cons a v b es) \<longleftrightarrow> all_space a \<and> jok sd v \<and> all_space b \<and> jok_elems sd es"
| "jok_members sd M_Nil \<longleftrightarrow> True"
| "jok_members sd (M_Cons a k b c v d ms) \<longleftrightarrow> all_space a \<and> list_all sitem_ok k \<and> all_space b \<and> all_space c \<and> jok sd v
     \<and> all_space d \<and> jok_members sd ms"

primrec jstrip :: "jtext \<Rightarrow> jtext" and jstrip_elems :: "jelems \<Rightarrow> jelems" and jstrip_members :: "jmembers \<Rightarrow> jmembers" where
  "jstrip (T_Lit s) = T_Lit s"
| "jstrip (T_Num s) = T_Num s"
| "jstrip (T_String xs) = T_String xs"
| "jstrip (T_Array w es) = T_Array [] (jstrip_elems es)"
| "jstrip (T_Object w ms) = T_Object [] (jstrip_members ms)"
| "jstrip_elems E_Nil = E_Nil"
| "jstrip_elems (E_Cons a v b es) = E_Cons [] (jstrip v) [] (jstrip_elems es)"
| "jstrip_members M_Nil = M_Nil"
| "jstrip_members (M_Cons a k b c v d ms) = M_Cons [] k [] [] (jstrip v) [] (jstrip_members ms)"

subsection \<open>The reader on a text\<close>

lemma json_ws_all: "all_space w \<Longrightarrow> json_ws (w @ p) = json_ws p"
  by (induction w) (simp_all add: json_ws_def)

lemma json_ws_at: "\<not> is_space (at_byte p) \<Longrightarrow> json_ws p = p"
  by (cases p) (simp_all add: json_ws_def)

lemma hex4_ok: "list_all (\<lambda>d. json_hex d \<noteq> None) ds \<Longrightarrow> \<exists>v. json_hex4 cp ds = Some v"
  by (induction ds arbitrary: cp) auto

lemma u16_ok:
  assumes "sitem_ok (S_Uni ds)"
  shows "\<exists>cp. json_u16 (sitem_text (S_Uni ds) @ p) = Some (cp, p)"
proof -
  obtain v where "json_hex4 0 ds = Some v" using hex4_ok assms by fastforce
  then show ?thesis using assms by (auto simp: json_u16_def numeral_2_eq_2)
qed

lemma items_text_Cons: "items_text (x # xs) = sitem_text x @ items_text xs"
  by (simp add: items_text_def)

text \<open>A code unit read inside a string is an item of it.\<close>

lemma u16_item:
  assumes ok: "list_all sitem_ok xs" and u: "json_u16 (items_text xs @ CH_QUOTE # p) = Some (cp, q)"
  obtains ds ys where "xs = S_Uni ds # ys" "q = items_text ys @ CH_QUOTE # p"
proof -
  have h: "at_byte (items_text xs @ CH_QUOTE # p) = CH_BACKSLASH" "at_byte (tl (items_text xs @ CH_QUOTE # p)) = 0x75"
    using u by (auto simp: json_u16_def split: if_splits)
  obtain x ys where xs: "xs = x # ys"
    using h(1) by (cases xs) (auto simp: items_text_def json_chars)
  show thesis
  proof (cases x)
    case (S_Plain c)
    then show thesis using h(1) ok xs by (simp add: items_text_Cons)
  next
    case (S_Esc c)
    then have "c = 0x75" using h(2) xs by (simp add: items_text_Cons)
    then show thesis using ok xs S_Esc by (simp add: json_escape_char_def json_chars)
  next
    case (S_Uni ds)
    then obtain v where "json_u16 (sitem_text x @ items_text ys @ CH_QUOTE # p) = Some (v, items_text ys @ CH_QUOTE # p)"
      using u16_ok [of ds "items_text ys @ CH_QUOTE # p"] ok xs by auto
    then show thesis using that u xs S_Uni by (simp add: items_text_Cons)
  qed
qed

lemma string_loop_items:
  "list_all sitem_ok xs \<Longrightarrow> \<exists>v. json_string_loop (items_text xs @ CH_QUOTE # p) b = Some (v, p)"
proof (induction "length xs" arbitrary: xs b rule: less_induct)
  case less
  show ?case
  proof (cases xs)
    case Nil
    then show ?thesis by (simp add: items_text_def string_loop_quote)
  next
    case (Cons x ys)
    have ok: "sitem_ok x" "list_all sitem_ok ys" using less.prems Cons by simp_all
    have IH: "\<exists>v. json_string_loop (items_text zs @ CH_QUOTE # p) b' = Some (v, p)"
      if "length zs < length xs" "list_all sitem_ok zs" for zs b' by (rule less.hyps [OF that])
    show ?thesis
    proof (cases x)
      case (S_Plain c)
      then show ?thesis using ok IH [of ys "b @ [c]"] Cons by (simp add: items_text_Cons string_loop_plain)
    next
      case (S_Esc c)
      obtain y where y: "json_escape_char c = Some y" using ok S_Esc by auto
      have "c \<noteq> 0x75" using y by (auto simp: json_escape_char_def json_chars)
      then have "json_escaped (CH_BACKSLASH # c # items_text ys @ CH_QUOTE # p) = Some ([y], items_text ys @ CH_QUOTE # p)"
        by (simp add: json_escaped_def y)
      from string_loop_escape [OF this] show ?thesis using IH [of ys] ok S_Esc Cons by (simp add: items_text_Cons)
    next
      case (S_Uni ds)
      let ?p = "items_text ys @ CH_QUOTE # p"
      have oku: "sitem_ok (S_Uni ds)" using ok S_Uni by simp
      obtain cp where cp: "json_u16 (sitem_text (S_Uni ds) @ ?p) = Some (cp, ?p)" using u16_ok [OF oku] by blast
      obtain z zs where z: "json_unicode (sitem_text (S_Uni ds) @ ?p) = Some (z, items_text zs @ CH_QUOTE # p)"
        "length zs < length xs" "list_all sitem_ok zs"
      proof (cases "0xD800 \<le> cp \<and> cp \<le> 0xDBFF \<and> (\<exists>lo q. json_u16 ?p = Some (lo, q) \<and> 0xDC00 \<le> lo \<and> lo \<le> 0xDFFF)")
        case True
        then obtain lo q where lo: "json_u16 ?p = Some (lo, q)" "0xDC00 \<le> lo" "lo \<le> 0xDFFF" by blast
        obtain ds' zs where "ys = S_Uni ds' # zs" "q = items_text zs @ CH_QUOTE # p" by (rule u16_item [OF ok(2) lo(1)])
        then show thesis using that True lo cp ok Cons by (simp add: json_unicode_def)
      next
        case False
        then have "\<exists>z. json_unicode (sitem_text (S_Uni ds) @ ?p) = Some (z, ?p)"
          using cp by (auto simp: json_unicode_def split: option.splits if_splits)
        then show thesis using that [of _ ys] ok Cons by auto
      qed
      have "json_escaped (CH_BACKSLASH # 0x75 # ds @ ?p) = Some (z, items_text zs @ CH_QUOTE # p)"
        using z(1) by (simp add: json_escaped_def)
      from string_loop_escape [OF this, of b] IH [OF z(2,3), of "b @ z"] show ?thesis
        using Cons S_Uni by (simp add: items_text_Cons)
    qed
  qed
qed

lemma json_string_text: "list_all sitem_ok xs \<Longrightarrow> all_space w \<Longrightarrow> \<exists>v. json_string (w @ string_text xs @ p) = Some (v, p)"
  using string_loop_items [of xs p "[]"] by (simp add: json_string_def string_text_def json_ws_all Let_def)

lemma delimited_space: "all_space w \<Longrightarrow> delimited p \<Longrightarrow> delimited (w @ p)"
  by (cases w) (simp_all add: delimited_def)

lemma delimited_close [simp]: "delimited (CH_COMMA # p)" "delimited (CH_RBRACK # p)" "delimited (CH_RBRACE # p)"
  by (simp_all add: delimited_def)

lemma lit_scalar:
  assumes "s \<in> {LIT_TRUE, LIT_FALSE, LIT_NULL}"
  shows "json_scalar sd (s @ p) = Some p" "\<not> is_space (at_byte (s @ p))" "at_byte (s @ p) \<notin> {CH_QUOTE, CH_LBRACE, CH_LBRACK}"
  using assms by (auto simp: json_scalar_def json_lit_def LIT_TRUE_def LIT_FALSE_def LIT_NULL_def is_space_def json_chars word_le_nat_alt)

lemma number_scalar:
  assumes "number_ok sd s" "delimited p"
  shows "json_scalar sd (s @ p) = Some p" "\<not> is_space (at_byte (s @ p))" "at_byte (s @ p) \<notin> {CH_QUOTE, CH_LBRACE, CH_LBRACK}"
proof -
  obtain c s' where s: "s = c # s'" using assms by (cases s) (auto simp: number_ok_def)
  have c: "c = 0x2D \<or> 0x30 \<le> c \<and> c \<le> 0x39" and ns: "\<not> is_space c" using assms(1) by (auto simp: number_ok_def s)
  show n: "\<not> is_space (at_byte (s @ p))" using ns by (simp add: s)
  have ne: "c \<noteq> 0x74" "c \<noteq> 0x66" "c \<noteq> 0x6E" "c \<notin> {CH_QUOTE, CH_LBRACE, CH_LBRACK}"
    using c by (auto simp: json_chars word_le_nat_alt)
  then show "at_byte (s @ p) \<notin> {CH_QUOTE, CH_LBRACE, CH_LBRACK}" by (simp add: s)
  have "json_number sd (s @ p) = Some p"
    using assms by (simp add: json_number_def json_ws_at [OF n] Let_def number_ok_def)
  then show "json_scalar sd (s @ p) = Some p"
    using ne by (simp add: json_scalar_def json_lit_def LIT_TRUE_def LIT_FALSE_def LIT_NULL_def s)
qed

lemma skip_unfold:
  "json_skip_nested sd left p =
     (let p1 = json_ws p in
      if at_byte p1 = CH_QUOTE then Some (map_option snd (json_string p1))
      else if at_byte p1 = CH_LBRACE then (case left of 0 \<Rightarrow> Some None | Suc k \<Rightarrow> json_skip_object (json_skip_nested sd k) p1)
      else if at_byte p1 = CH_LBRACK then (case left of 0 \<Rightarrow> Some None | Suc k \<Rightarrow> json_skip_array (json_skip_nested sd k) p1)
      else Some (json_scalar sd p1))"
  by (cases left) (simp_all add: Let_def)

lemma skip_scalar:
  assumes "json_scalar sd (s @ p) = Some p" "\<not> is_space (at_byte (s @ p))" "at_byte (s @ p) \<notin> {CH_QUOTE, CH_LBRACE, CH_LBRACK}" "all_space w"
  shows "json_skip_nested sd left (w @ s @ p) = Some (Some p)"
  using assms by (simp add: skip_unfold json_ws_all json_ws_at Let_def)

text \<open>
  A value is skipped exactly when its nesting is within what is left, and then to its end.
\<close>

abbreviation skips :: "nat \<Rightarrow> nat \<Rightarrow> bytes \<Rightarrow> bytes option option" where
  "skips depth left p \<equiv> Some (if depth \<le> left then Some p else None)"

lemma brack_spaces: "\<not> is_space CH_LBRACK" "\<not> is_space CH_LBRACE" "\<not> is_space CH_RBRACK" "\<not> is_space CH_RBRACE"
  "\<not> is_space CH_COMMA" "\<not> is_space CH_COLON" "\<not> is_space CH_QUOTE"
  by (simp_all add: is_space_def json_chars word_le_nat_alt)

lemma char_distinct: "CH_COMMA \<noteq> CH_RBRACK" "CH_COMMA \<noteq> CH_RBRACE" "CH_QUOTE \<noteq> CH_LBRACK" "CH_QUOTE \<noteq> CH_LBRACE"
  "CH_LBRACE \<noteq> CH_LBRACK" "CH_LBRACK \<noteq> CH_LBRACE" "CH_LBRACK \<noteq> CH_QUOTE" "CH_LBRACE \<noteq> CH_QUOTE" "CH_QUOTE \<noteq> CH_RBRACE"
  "CH_QUOTE \<noteq> CH_BACKSLASH" "CH_RBRACE \<noteq> CH_COMMA"
  by (simp_all add: json_chars)

text \<open>The value after an opening bracket or a comma, then the closing bracket or the next comma.\<close>

lemma elements_step:
  assumes v: "\<And>t. delimited t \<Longrightarrow> value (a @ jprint v @ t) = skips (jdepth v) left t" and b: "all_space b"
  shows "json_elements value (a @ jprint v @ b @ CH_RBRACK # p) = skips (jdepth v) left p"
    and "json_elements value (a @ jprint v @ b @ CH_COMMA # p) = (if jdepth v \<le> left then json_elements value p else Some None)"
proof -
  have w: "json_ws (b @ CH_RBRACK # p) = CH_RBRACK # p" "json_ws (b @ CH_COMMA # p) = CH_COMMA # p"
    by (simp_all add: json_ws_all [OF b] json_ws_at brack_spaces)
  have s: "value (a @ jprint v @ b @ CH_RBRACK # p) = skips (jdepth v) left (b @ CH_RBRACK # p)"
    "value (a @ jprint v @ b @ CH_COMMA # p) = skips (jdepth v) left (b @ CH_COMMA # p)"
    by (rule v, rule delimited_space [OF b], simp)+
  show "json_elements value (a @ jprint v @ b @ CH_RBRACK # p) = skips (jdepth v) left p"
    by (subst json_elements.simps) (simp only: s, simp add: w)
  show "json_elements value (a @ jprint v @ b @ CH_COMMA # p) = (if jdepth v \<le> left then json_elements value p else Some None)"
    by (subst json_elements.simps) (simp only: s, simp add: w char_distinct)
qed

lemma members_step:
  assumes v: "\<And>t. delimited t \<Longrightarrow> value (c @ jprint v @ t) = skips (jdepth v) left t"
    and k: "list_all sitem_ok k" and ws: "all_space a" "all_space b" "all_space d"
  shows "json_members value (a @ string_text k @ b @ CH_COLON # c @ jprint v @ d @ CH_RBRACE # p) = skips (jdepth v) left p"
    and "json_members value (a @ string_text k @ b @ CH_COLON # c @ jprint v @ d @ CH_COMMA # p)
      = (if jdepth v \<le> left then json_members value p else Some None)"
proof -
  have w: "json_ws (d @ CH_RBRACE # p) = CH_RBRACE # p" "json_ws (d @ CH_COMMA # p) = CH_COMMA # p"
    "json_ws (b @ CH_COLON # q) = CH_COLON # q" for q
    by (simp_all add: json_ws_all [OF ws(3)] json_ws_all [OF ws(2)] json_ws_at brack_spaces)
  have s: "value (c @ jprint v @ d @ CH_RBRACE # p) = skips (jdepth v) left (d @ CH_RBRACE # p)"
    "value (c @ jprint v @ d @ CH_COMMA # p) = skips (jdepth v) left (d @ CH_COMMA # p)"
    by (rule v, rule delimited_space [OF ws(3)], simp)+
  have key: "\<exists>x. json_string (a @ string_text k @ q) = Some (x, q)" for q by (rule json_string_text [OF k ws(1)])
  obtain x where x: "json_string (a @ string_text k @ b @ CH_COLON # c @ jprint v @ d @ CH_RBRACE # p)
      = Some (x, b @ CH_COLON # c @ jprint v @ d @ CH_RBRACE # p)" using key by blast
  obtain y where y: "json_string (a @ string_text k @ b @ CH_COLON # c @ jprint v @ d @ CH_COMMA # p)
      = Some (y, b @ CH_COLON # c @ jprint v @ d @ CH_COMMA # p)" using key by blast
  show "json_members value (a @ string_text k @ b @ CH_COLON # c @ jprint v @ d @ CH_RBRACE # p) = skips (jdepth v) left p"
    by (subst json_members.simps) (simp only: x option.case prod.case w Let_def at_byte_simps list.sel s, simp add: w)
  show "json_members value (a @ string_text k @ b @ CH_COLON # c @ jprint v @ d @ CH_COMMA # p)
      = (if jdepth v \<le> left then json_members value p else Some None)"
    by (subst json_members.simps) (simp only: y option.case prod.case w Let_def at_byte_simps list.sel s, simp add: w char_distinct)
qed

lemma json_ws_idem [simp]: "json_ws (json_ws p) = json_ws p"
  by (simp add: json_ws_def)

lemma skip_ws: "json_skip_nested sd k (json_ws p) = json_skip_nested sd k p"
  by (simp only: skip_unfold [of sd k] json_ws_idem)

lemma elements_ws: "json_elements (json_skip_nested sd k) (json_ws p) = json_elements (json_skip_nested sd k) p"
  by (subst (1 2) json_elements.simps) (simp only: skip_ws)

lemma members_ws: "json_members value (json_ws p) = json_members value p"
  by (subst (1 2) json_members.simps) (simp only: json_string_def json_ws_idem)

lemma first_byte:
  assumes "jok sd v" "delimited q"
  shows "\<not> is_space (at_byte (jprint v @ q))" "at_byte (jprint v @ q) \<noteq> CH_RBRACK"
proof -
  have "\<not> is_space (at_byte (jprint v @ q)) \<and> at_byte (jprint v @ q) \<noteq> CH_RBRACK"
  proof (cases v)
    case (T_Lit s)
    then show ?thesis using assms
      by (auto simp: LIT_TRUE_def LIT_FALSE_def LIT_NULL_def is_space_def json_chars word_le_nat_alt)
  next
    case (T_Num s)
    then obtain c s' where "s = c # s'" using assms by (cases s) (auto simp: number_ok_def)
    then show ?thesis using assms T_Num by (auto simp: number_ok_def json_chars word_le_nat_alt)
  qed (simp_all add: string_text_def brack_spaces, simp_all add: json_chars)
  then show "\<not> is_space (at_byte (jprint v @ q))" "at_byte (jprint v @ q) \<noteq> CH_RBRACK" by blast+
qed

lemma delimited_tail: "all_space b \<Longrightarrow> delimited (b @ (if c then CH_RBRACK # p else CH_COMMA # q))"
  by (rule delimited_space) simp_all

lemma skip_array_text:
  assumes u: "all_space u" "jok_elems sd es"
    and IH: "es \<noteq> E_Nil \<Longrightarrow> json_elements (json_skip_nested sd k) (u @ jprint_elems es @ p) = skips (jdepth_elems es) k p"
  shows "json_skip_array (json_skip_nested sd k) (CH_LBRACK # u @ jprint_elems es @ p) = skips (jdepth_elems es) k p"
proof -
  have ws: "json_ws (CH_LBRACK # q) = CH_LBRACK # q" for q by (simp add: json_ws_at brack_spaces)
  show ?thesis
  proof (cases es)
    case E_Nil
    have "json_ws (u @ CH_RBRACK # p) = CH_RBRACK # p" by (simp add: json_ws_all [OF u(1)] json_ws_at brack_spaces)
    then show ?thesis by (simp add: json_skip_array_def ws E_Nil)
  next
    case (E_Cons a v b es')
    define q where "q = b @ (if es' = E_Nil then CH_RBRACK # p else CH_COMMA # jprint_elems es' @ p)"
    have a: "all_space a" "jok sd v" "all_space b" using u(2) E_Cons by simp_all
    have d: "delimited q" unfolding q_def by (rule delimited_tail [OF a(3)])
    have e: "u @ jprint_elems es @ p = u @ a @ jprint v @ q" by (simp add: E_Cons q_def)
    have w: "json_ws (u @ jprint_elems es @ p) = jprint v @ q"
      unfolding e by (simp only: json_ws_all [OF u(1)] json_ws_all [OF a(1)] json_ws_at [OF first_byte(1) [OF a(2) d]])
    have "json_elements (json_skip_nested sd k) (json_ws (u @ jprint_elems es @ p)) = skips (jdepth_elems es) k p"
      unfolding elements_ws using IH E_Cons by simp
    then show ?thesis using first_byte(2) [OF a(2) d]
      unfolding json_skip_array_def ws Let_def at_byte_simps list.sel by (simp add: w)
  qed
qed

lemma skip_object_text:
  assumes u: "all_space u" "jok_members sd ms"
    and IH: "ms \<noteq> M_Nil \<Longrightarrow> json_members value (u @ jprint_members ms @ p) = skips (jdepth_members ms) k p"
  shows "json_skip_object value (CH_LBRACE # u @ jprint_members ms @ p) = skips (jdepth_members ms) k p"
proof -
  have ws: "json_ws (CH_LBRACE # q) = CH_LBRACE # q" for q by (simp add: json_ws_at brack_spaces)
  show ?thesis
  proof (cases ms)
    case M_Nil
    have "json_ws (u @ CH_RBRACE # p) = CH_RBRACE # p" by (simp add: json_ws_all [OF u(1)] json_ws_at brack_spaces)
    then show ?thesis by (simp add: json_skip_object_def ws M_Nil)
  next
    case (M_Cons a x b c v d ms')
    have a: "all_space a" using u(2) M_Cons by simp
    have w: "at_byte (json_ws (u @ jprint_members ms @ p)) = CH_QUOTE"
      by (simp add: M_Cons json_ws_all [OF u(1)] json_ws_all [OF a] string_text_def)
    have "json_members value (json_ws (u @ jprint_members ms @ p)) = skips (jdepth_members ms) k p"
      unfolding members_ws using IH M_Cons by simp
    then show ?thesis unfolding json_skip_object_def ws Let_def at_byte_simps list.sel w by (simp add: char_distinct)
  qed
qed

lemma skip_text:
  "jok sd t \<Longrightarrow> all_space w \<Longrightarrow> delimited p \<Longrightarrow> json_skip_nested sd left (w @ jprint t @ p) = skips (jdepth t) left p"
  "jok_elems sd es \<Longrightarrow> es \<noteq> E_Nil \<Longrightarrow> all_space w \<Longrightarrow>
    json_elements (json_skip_nested sd left) (w @ jprint_elems es @ p) = skips (jdepth_elems es) left p"
  "jok_members sd ms \<Longrightarrow> ms \<noteq> M_Nil \<Longrightarrow> all_space w \<Longrightarrow>
    json_members (json_skip_nested sd left) (w @ jprint_members ms @ p) = skips (jdepth_members ms) left p"
proof (induction t and es and ms arbitrary: w p left and w p left and w p left)
  case (T_Lit s)
  have "s \<in> {LIT_TRUE, LIT_FALSE, LIT_NULL}" using T_Lit(1) by simp
  from skip_scalar [OF lit_scalar [OF this] T_Lit(2)] show ?case by simp
next
  case (T_Num s)
  have "number_ok sd s" using T_Num(1) by simp
  from skip_scalar [OF number_scalar [OF this T_Num(3)] T_Num(2)] show ?case by simp
next
  case (T_String xs)
  obtain v where v: "json_string (string_text xs @ p) = Some (v, p)"
    using json_string_text [of xs "[]" p] T_String(1) by auto
  have "json_ws (w @ string_text xs @ p) = string_text xs @ p" "at_byte (string_text xs @ p) = CH_QUOTE"
    by (simp_all add: json_ws_all [OF T_String(2)] string_text_def)
  then show ?case using v by (simp add: skip_unfold Let_def)
next
  case (T_Array u es)
  have u: "all_space u" "jok_elems sd es" using T_Array.prems by simp_all
  have ws: "json_ws (w @ CH_LBRACK # u @ jprint_elems es @ p) = CH_LBRACK # u @ jprint_elems es @ p"
    by (simp add: json_ws_all [OF T_Array.prems(2)] json_ws_at brack_spaces)
  have e: "json_skip_nested sd left (w @ jprint (T_Array u es) @ p) =
      (case left of 0 \<Rightarrow> Some None | Suc k \<Rightarrow> json_skip_array (json_skip_nested sd k) (CH_LBRACK # u @ jprint_elems es @ p))"
    unfolding jprint.simps append_Cons append_assoc
    by (simp only: skip_unfold [of sd left] ws Let_def at_byte_simps char_distinct if_False if_True simp_thms)
  show ?case unfolding e using skip_array_text [OF u T_Array.IH [OF u(2) _ u(1)]] by (cases left) simp_all
next
  case (T_Object u ms)
  have u: "all_space u" "jok_members sd ms" using T_Object.prems by simp_all
  have ws: "json_ws (w @ CH_LBRACE # u @ jprint_members ms @ p) = CH_LBRACE # u @ jprint_members ms @ p"
    by (simp add: json_ws_all [OF T_Object.prems(2)] json_ws_at brack_spaces)
  have e: "json_skip_nested sd left (w @ jprint (T_Object u ms) @ p) =
      (case left of 0 \<Rightarrow> Some None | Suc k \<Rightarrow> json_skip_object (json_skip_nested sd k) (CH_LBRACE # u @ jprint_members ms @ p))"
    unfolding jprint.simps append_Cons append_assoc
    by (simp only: skip_unfold [of sd left] ws Let_def at_byte_simps char_distinct if_False if_True simp_thms)
  show ?case unfolding e using skip_object_text [OF u T_Object.IH [OF u(2) _ u(1)]] by (cases left) simp_all
next
  case E_Nil
  then show ?case by simp
next
  case (E_Cons a v b es)
  have a: "all_space (w @ a)" "jok sd v" "all_space b" "jok_elems sd es" using E_Cons.prems by simp_all
  have v: "json_skip_nested sd left ((w @ a) @ jprint v @ t) = skips (jdepth v) left t" if "delimited t" for t
    by (rule E_Cons.IH(1) [OF a(2,1) that])
  note st = elements_step [OF v a(3)]
  show ?case
  proof (cases "es = E_Nil")
    case True
    then show ?thesis using st(1) [of p] by simp
  next
    case False
    have "json_elements (json_skip_nested sd left) (jprint_elems es @ p) = skips (jdepth_elems es) left p"
      using E_Cons.IH(2) [OF a(4) False, of "[]"] by simp
    then show ?thesis using st(2) [of "jprint_elems es @ p"] False by simp
  qed
next
  case M_Nil
  then show ?case by simp
next
  case (M_Cons a k b c v d ms)
  have a: "all_space (w @ a)" "list_all sitem_ok k" "all_space b" "all_space c" "jok sd v" "all_space d" "jok_members sd ms"
    using M_Cons.prems by simp_all
  have v: "json_skip_nested sd left (c @ jprint v @ t) = skips (jdepth v) left t" if "delimited t" for t
    by (rule M_Cons.IH(1) [OF a(5,4) that])
  note st = members_step [OF v a(2,1,3,6)]
  show ?case
  proof (cases "ms = M_Nil")
    case True
    then show ?thesis using st(1) [of p] by simp
  next
    case False
    have "json_members (json_skip_nested sd left) (jprint_members ms @ p) = skips (jdepth_members ms) left p"
      using M_Cons.IH(2) [OF a(7) False, of "[]"] by simp
    then show ?thesis using st(2) [of "jprint_members ms @ p"] False by simp
  qed
qed

subsection \<open>The skip returns\<close>

lemma json_ws_shorter: "length (json_ws p) \<le> length p"
  by (simp add: json_ws_def length_dropWhile_le)

lemma string_loop_shorter: "json_string_loop p b = Some (v, q) \<Longrightarrow> length q < length p"
proof (induction p b rule: json_string_loop.induct)
  case (1 p b)
  have ne: "p \<noteq> []" using 1(3) by (subst (asm) json_string_loop.simps) (auto split: if_splits)
  then have l: "length (tl p) < length p" by simp
  show ?case
  proof (cases "at_byte p = CH_QUOTE \<or> at_byte p \<noteq> CH_BACKSLASH")
    case True
    then show ?thesis using 1 l by (subst (asm) (3) json_string_loop.simps) (fastforce split: if_splits)
  next
    case False
    then obtain x r where x: "json_escaped p = Some (x, r)" "json_string_loop r (b @ x) = Some (v, q)" "at_byte p \<noteq> 0"
      using 1(3) by (subst (asm) json_string_loop.simps) (auto split: if_splits option.splits)
    have "length q < length r" using 1(2) False x by auto
    then show ?thesis using json_escaped_shorter [OF x(1)] by simp
  qed
qed

lemma json_string_shorter: "json_string p = Some (v, q) \<Longrightarrow> length q < length p"
  using json_ws_shorter [of p] string_loop_shorter
  by (cases "json_ws p") (fastforce simp: json_string_def Let_def split: if_splits)+

definition value_returns :: "(bytes \<Rightarrow> bytes option option) \<Rightarrow> bool" where
  "value_returns value \<longleftrightarrow> (\<forall>p. \<exists>r. value p = Some r \<and> (\<forall>q. r = Some q \<longrightarrow> length q < length p))"

lemma value_cases:
  assumes "value_returns value"
  obtains "value p = Some None" | q where "value p = Some (Some q)" "length q < length p"
  using assms unfolding value_returns_def by (metis option.exhaust)

lemma at_byte_cons: "at_byte p = c \<Longrightarrow> c \<noteq> 0 \<Longrightarrow> length (tl p) < length p"
  by (cases p) auto

lemma char_nonzero: "CH_RBRACK \<noteq> 0" "CH_RBRACE \<noteq> 0" "CH_COMMA \<noteq> 0" "CH_COLON \<noteq> 0" "CH_LBRACK \<noteq> 0" "CH_LBRACE \<noteq> 0"
  by (simp_all add: json_chars)

lemma elements_return:
  assumes v: "value_returns value"
  shows "\<exists>r. json_elements value p = Some r \<and> (\<forall>q. r = Some q \<longrightarrow> length q < length p)"
proof (induction "length p" arbitrary: p rule: less_induct)
  case less
  show ?case
  proof (rule value_cases [OF v, of p])
    assume "value p = Some None"
    then show ?thesis by (subst (1) json_elements.simps) simp
  next
    fix q assume q: "value p = Some (Some q)" "length q < length p"
    have l: "length (json_ws q) < length p" using q(2) json_ws_shorter [of q] by simp
    then have t: "length (tl (json_ws q)) < length p" by simp
    show ?thesis using less [OF t] t by (subst (1) json_elements.simps) (auto simp: q(1) Let_def)
  qed
qed

lemma members_return:
  assumes v: "value_returns value"
  shows "\<exists>r. json_members value p = Some r \<and> (\<forall>q. r = Some q \<longrightarrow> length q < length p)"
proof (induction "length p" arbitrary: p rule: less_induct)
  case less
  show ?case
  proof (cases "json_string p")
    case None
    then show ?thesis by (subst (1) json_members.simps) simp
  next
    case (Some kq)
    obtain k q where kq: "json_string p = Some (k, q)" using Some by (cases kq) auto
    have l: "length (tl (json_ws q)) < length p" using json_string_shorter [OF kq] json_ws_shorter [of q] by simp
    show ?thesis
    proof (rule value_cases [OF v, of "tl (json_ws q)"])
      assume "value (tl (json_ws q)) = Some None"
      then show ?thesis by (subst (1) json_members.simps) (simp add: kq Let_def)
    next
      fix q2 assume q2: "value (tl (json_ws q)) = Some (Some q2)" "length q2 < length (tl (json_ws q))"
      have t: "length (tl (json_ws q2)) < length p" using q2(2) l json_ws_shorter [of q2] by simp
      show ?thesis using less [OF t] t by (subst (1) json_members.simps) (auto simp: kq q2(1) Let_def)
    qed
  qed
qed

lemma scalar_shorter:
  assumes "\<And>p. sd p \<le> length p" "json_scalar sd p = Some q"
  shows "length q < length p"
proof -
  have lit: "length q < length p" if "json_lit p s = Some q" "s \<noteq> []" for s
  proof -
    have "take (length s) p = s" "q = drop (length s) p" using that by (simp_all add: json_lit_def split: if_splits)
    then show ?thesis using that(2) by (cases p) (auto dest: sym)
  qed
  have "length q < length p" if "json_number sd p = Some q"
  proof -
    let ?n = "sd (json_ws p)"
    have "0 < ?n" "q = drop ?n (json_ws p)" "?n \<le> length (json_ws p)"
      using that assms(1) [of "json_ws p"] by (auto simp: json_number_def Let_def split: if_splits)
    then show ?thesis using json_ws_shorter [of p] by simp
  qed
  then show ?thesis using assms(2) lit
    by (auto simp: json_scalar_def LIT_TRUE_def LIT_FALSE_def LIT_NULL_def split: option.splits)
qed

lemma skip_returns:
  assumes sd: "\<And>p. sd p \<le> length p"
  shows "value_returns (json_skip_nested sd left)"
proof (induction left)
  case 0
  have "\<exists>r. json_skip_nested sd 0 p = Some r \<and> (\<forall>q. r = Some q \<longrightarrow> length q < length p)" for p
  proof -
    have "length q < length p" if "json_string (json_ws p) = Some (v, q)" for v q
      using json_string_shorter [OF that] json_ws_shorter [of p] by simp
    moreover have "length q < length p" if "json_scalar sd (json_ws p) = Some q" for q
      using scalar_shorter [OF sd that] json_ws_shorter [of p] by simp
    ultimately show ?thesis by (auto simp: Let_def)
  qed
  then show ?case unfolding value_returns_def by blast
next
  case (Suc k)
  have "\<exists>r. json_skip_nested sd (Suc k) p = Some r \<and> (\<forall>q. r = Some q \<longrightarrow> length q < length p)" for p
  proof -
    let ?p = "json_ws p"
    have l: "length ?p \<le> length p" by (rule json_ws_shorter)
    have 1: "length q < length p" if "json_string ?p = Some (v, q)" for v q
      using json_string_shorter [OF that] l by simp
    have 2: "length q < length p" if "json_scalar sd ?p = Some q" for q
      using scalar_shorter [OF sd that] l by simp
    have inner: "length (json_ws (tl ?p)) < length p" if "at_byte ?p = c" "c \<noteq> 0" for c
      using at_byte_cons [OF that] json_ws_shorter [of "tl ?p"] l by linarith
    have 3: "\<exists>r. json_skip_array (json_skip_nested sd k) ?p = Some r \<and> (\<forall>q. r = Some q \<longrightarrow> length q < length p)"
      if "at_byte ?p = CH_LBRACK"
    proof -
      have o: "length (json_ws (tl ?p)) < length p" by (rule inner [OF that char_nonzero(5)])
      obtain r where "json_elements (json_skip_nested sd k) (json_ws (tl ?p)) = Some r"
        "\<forall>q. r = Some q \<longrightarrow> length q < length (json_ws (tl ?p))" using elements_return [OF Suc] by blast
      then show ?thesis using o by (auto simp: json_skip_array_def Let_def that)
    qed
    have 4: "\<exists>r. json_skip_object (json_skip_nested sd k) ?p = Some r \<and> (\<forall>q. r = Some q \<longrightarrow> length q < length p)"
      if "at_byte ?p = CH_LBRACE"
    proof -
      have o: "length (json_ws (tl ?p)) < length p" by (rule inner [OF that char_nonzero(6)])
      obtain r where "json_members (json_skip_nested sd k) (json_ws (tl ?p)) = Some r"
        "\<forall>q. r = Some q \<longrightarrow> length q < length (json_ws (tl ?p))" using members_return [OF Suc] by blast
      then show ?thesis using o by (auto simp: json_skip_object_def Let_def that)
    qed
    show ?thesis using 1 2 3 4 by (auto simp: Let_def)
  qed
  then show ?case unfolding value_returns_def by blast
qed

subsection \<open>Minifying a text\<close>

lemma minify_space: "all_space w \<Longrightarrow> json_minify_loop False False (w @ p) = json_minify_loop False False p"
  by (induction w) (auto simp: brack_spaces)

lemma minify_plain:
  "list_all (\<lambda>c. \<not> is_space c \<and> c \<noteq> CH_QUOTE) s \<Longrightarrow> json_minify_loop False False (s @ p) = s @ json_minify_loop False False p"
  by (induction s) auto

lemma minify_inside: "list_all (\<lambda>c. c \<noteq> CH_BACKSLASH \<and> c \<noteq> CH_QUOTE) s \<Longrightarrow>
    json_minify_loop True False (s @ p) = s @ json_minify_loop True False p"
  by (induction s) auto

lemma minify_items:
  "list_all sitem_ok xs \<Longrightarrow>
   json_minify_loop True False (items_text xs @ CH_QUOTE # p) = items_text xs @ CH_QUOTE # json_minify_loop False False p"
proof (induction xs)
  case Nil
  then show ?case by (simp add: items_text_def char_distinct)
next
  case (Cons x xs)
  let ?p = "items_text xs @ CH_QUOTE # p"
  have "json_minify_loop True False (sitem_text x @ ?p) = sitem_text x @ json_minify_loop True False ?p"
  proof (cases x)
    case (S_Uni ds)
    have h: "json_hex CH_BACKSLASH = None" "json_hex CH_QUOTE = None"
      by (simp_all add: json_hex_def json_chars word_le_nat_alt)
    have "list_all (\<lambda>c. c \<noteq> CH_BACKSLASH \<and> c \<noteq> CH_QUOTE) ds"
      using Cons.prems S_Uni h by (auto simp: list_all_iff)
    then show ?thesis using S_Uni minify_inside by simp
  qed (use Cons.prems in auto)
  then show ?case using Cons by (simp add: items_text_Cons)
qed

lemma minify_string:
  "list_all sitem_ok xs \<Longrightarrow> json_minify_loop False False (string_text xs @ p) = string_text xs @ json_minify_loop False False p"
  using minify_items by (simp add: string_text_def)

lemma strip_Nil [simp]: "jstrip_elems es = E_Nil \<longleftrightarrow> es = E_Nil" "jstrip_members ms = M_Nil \<longleftrightarrow> ms = M_Nil"
  by (cases es; simp) (cases ms; simp)

lemma minify_text:
  "jok sd t \<Longrightarrow> json_minify_loop False False (jprint t @ p) = jprint (jstrip t) @ json_minify_loop False False p"
  "jok_elems sd es \<Longrightarrow> json_minify_loop False False (jprint_elems es @ p) = jprint_elems (jstrip_elems es) @ json_minify_loop False False p"
  "jok_members sd ms \<Longrightarrow> json_minify_loop False False (jprint_members ms @ p)
     = jprint_members (jstrip_members ms) @ json_minify_loop False False p"
proof (induction t and es and ms arbitrary: p and p and p)
  case (T_Lit s)
  then have "list_all (\<lambda>c. \<not> is_space c \<and> c \<noteq> CH_QUOTE) s"
    by (auto simp: LIT_TRUE_def LIT_FALSE_def LIT_NULL_def is_space_def json_chars word_le_nat_alt)
  then show ?case using minify_plain by simp
next
  case (T_Num s)
  then show ?case using minify_plain by (simp add: number_ok_def)
qed (simp_all add: minify_space minify_string brack_spaces char_distinct [symmetric], simp_all add: json_chars)

lemma strip_ok:
  "jok sd t \<Longrightarrow> jok sd (jstrip t) \<and> jdepth (jstrip t) = jdepth t \<and> jstrip (jstrip t) = jstrip t"
  "jok_elems sd es \<Longrightarrow> jok_elems sd (jstrip_elems es) \<and> jdepth_elems (jstrip_elems es) = jdepth_elems es
     \<and> jstrip_elems (jstrip_elems es) = jstrip_elems es"
  "jok_members sd ms \<Longrightarrow> jok_members sd (jstrip_members ms) \<and> jdepth_members (jstrip_members ms) = jdepth_members ms
     \<and> jstrip_members (jstrip_members ms) = jstrip_members ms"
  by (induction t and es and ms) simp_all

lemma minify_value:
  assumes ok: "jok sd t" and w: "all_space w" and p: "delimited p"
  shows "json_minify_raw_value sd (w @ jprint t @ p) = Some (if jdepth t \<le> JSON_MAX_NESTING then jprint (jstrip t) else w @ jprint t @ p)"
proof -
  have s: "json_ws (w @ jprint t @ p) = jprint t @ p"
    by (simp only: json_ws_all [OF w] json_ws_at [OF first_byte(1) [OF ok p]])
  have "json_skip_value sd (jprint t @ p) = skips (jdepth t) JSON_MAX_NESTING p"
    using skip_text(1) [OF ok _ p, of "[]" JSON_MAX_NESTING] by (simp add: json_skip_value_def)
  moreover have "json_minify_loop False False (jprint t) = jprint (jstrip t)" using minify_text(1) [OF ok, of "[]"] by simp
  ultimately show ?thesis by (simp add: json_minify_raw_value_def s)
qed

subsection \<open>A small text\<close>

definition demo_strtod :: "bytes \<Rightarrow> nat" where
  "demo_strtod p = length (takeWhile (\<lambda>c. 0x30 \<le> c \<and> c \<le> 0x39) p)"

text \<open>\<open>{"a": [1 ,<newline>true]}\<close>\<close>

definition demo_text :: jtext where
  "demo_text = T_Object [] (M_Cons [] [S_Plain 0x61] [] [0x20]
     (T_Array [] (E_Cons [] (T_Num [0x31]) [0x20] (E_Cons [0x0A] (T_Lit LIT_TRUE) [] E_Nil))) [] M_Nil)"

lemma demo_strtod_le: "demo_strtod p \<le> length p"
  by (simp add: demo_strtod_def length_takeWhile_le)

lemma demo_number: "number_ok demo_strtod [0x31]"
proof -
  have "takeWhile (\<lambda>c. 0x30 \<le> c \<and> c \<le> 0x39) p = []" if "delimited p" for p
    using that by (cases p) (auto simp: delimited_def is_space_def json_chars word_le_nat_alt)
  then show ?thesis by (simp add: number_ok_def demo_strtod_def is_space_def json_chars word_le_nat_alt)
qed

lemma demo_ok: "jok demo_strtod demo_text" "jdepth demo_text = 2"
  using demo_number by (simp_all add: demo_text_def is_space_def json_chars)

subsection \<open>Properties\<close>

text \<open>
  Property C38. What the server writes as a JSON string its own reader reads back byte for byte,
  for every text without a NUL: control characters, quotes and backslashes are escaped and every
  other byte is passed through. The written string has no control character, so that a newline in
  generated text cannot end a line of the event stream.\<close>

theorem json_string_round_trip:
  assumes "0 \<notin> set s" "all_space w"
  shows "json_string (w @ json_escape s @ p) = Some (s, p) \<and> list_all (\<lambda>c. 0x20 \<le> c) (json_escape s)"
proof -
  have "json_string (w @ json_escape s @ p) = json_string (json_escape s @ p)"
    by (simp only: json_string_def json_ws_all [OF assms(2)])
  moreover have "list_all (\<lambda>c. 0x20 \<le> c) (json_escape_byte c)" for c
  proof (cases "c < 0x20")
    case True
    from control_cases [OF True] show ?thesis
      by (elim insertE emptyE) (simp_all add: json_escape_byte_def hex_digit_def json_chars word_le_nat_alt word_less_nat_alt)
  qed (auto simp: json_escape_byte_def json_chars word_le_nat_alt word_less_nat_alt)
  then have "list_all (\<lambda>c. 0x20 \<le> c) (json_escape s)"
    by (auto simp: json_escape_def json_escape_fragment_def list_all_iff json_chars word_le_nat_alt)
  ultimately show ?thesis using json_string_escape [OF assms(1)] by simp
qed

theorem json_string_round_trip_witness:
  "json_string ([0x20] @ json_escape [0x61, 0x22, 0x0A, 0x01, 0xE2] @ [0x2C]) = Some ([0x61, 0x22, 0x0A, 0x01, 0xE2], [0x2C])"
  using json_string_round_trip [of "[0x61, 0x22, 0x0A, 0x01, 0xE2]" "[0x20]" "[0x2C]"] by (simp add: is_space_def)

text \<open>
  Property C39. Skipping a value returns on every input. On the text of a value, whatever its white
  space, its escapes and its surrogate pairs, it consumes exactly that text when arrays and
  objects nest at most 256 deep, and refuses it when they nest deeper: the recursion never goes
  below the limit.\<close>

theorem json_skip_exact:
  assumes "\<And>q. strtod q \<le> length q" and "jok strtod t" "all_space w" "delimited p"
  shows "json_skip_value strtod q \<noteq> None
    \<and> json_skip_value strtod (w @ jprint t @ p) = Some (if jdepth t \<le> 256 then Some p else None)"
proof -
  have "value_returns (json_skip_value strtod)" unfolding json_skip_value_def using skip_returns [OF assms(1)] by simp
  then have "json_skip_value strtod q \<noteq> None" unfolding value_returns_def by (metis option.distinct(1))
  then show ?thesis using skip_text(1) [OF assms(2-4), of JSON_MAX_NESTING]
    by (simp add: json_skip_value_def JSON_MAX_NESTING_def)
qed

theorem json_skip_exact_witness:
  "json_skip_value demo_strtod (jprint demo_text @ [CH_COMMA]) = Some (Some [CH_COMMA])"
  using json_skip_exact [OF demo_strtod_le demo_ok(1), of "[]" "[CH_COMMA]"] demo_ok(2) by simp

text \<open>
  Minifying a value yields its text with all white space outside strings removed and
  nothing else changed, so that two layouts of one value minify alike and minifying twice changes
  nothing; a value nested too deeply is returned as it is.\<close>

lemma json_minify_exact:
  assumes "jok strtod t" "all_space w" "delimited p" "jdepth t \<le> 256"
  shows "json_minify_raw_value strtod (w @ jprint t @ p) = Some (jprint (jstrip t))
    \<and> json_minify_raw_value strtod (jprint (jstrip t)) = Some (jprint (jstrip t))"
proof -
  note s = strip_ok(1) [OF assms(1)]
  have "json_minify_raw_value strtod ([] @ jprint (jstrip t) @ []) = Some (jprint (jstrip (jstrip t)))"
    using minify_value [of strtod "jstrip t" "[]" "[]"] s assms(4) by (simp add: delimited_def JSON_MAX_NESTING_def)
  then show ?thesis using minify_value [OF assms(1-3)] s assms(4) by (simp add: JSON_MAX_NESTING_def)
qed

text \<open>A NUL may be written as an escape; the C string the callers keep then ends there.\<close>

lemma json_string_nul: "json_string [CH_QUOTE, CH_BACKSLASH, 0x75, 0x30, 0x30, 0x30, 0x30, 0x78, CH_QUOTE] = Some ([0, 0x78], [])"
proof -
  have u: "json_u16 [CH_BACKSLASH, 0x75, 0x30, 0x30, 0x30, 0x30, 0x78, CH_QUOTE] = Some (0, [0x78, CH_QUOTE])"
    by (simp add: json_u16_def json_chars json_hex_def)
  have "json_escaped (CH_BACKSLASH # [0x75, 0x30, 0x30, 0x30, 0x30, 0x78, CH_QUOTE]) = Some ([0], [0x78, CH_QUOTE])"
    by (simp add: json_escaped_def json_unicode_def u utf8_put_def word_le_nat_alt)
  from string_loop_escape [OF this, of "[]"] have
    "json_string_loop [CH_BACKSLASH, 0x75, 0x30, 0x30, 0x30, 0x30, 0x78, CH_QUOTE] [] = json_string_loop [0x78, CH_QUOTE] [0]" by simp
  also have "\<dots> = Some ([0, 0x78], [])"
    using string_loop_plain [where c = "0x78" and p = "[CH_QUOTE]" and b = "[0]"] string_loop_quote [where p = "[]" and b = "[0, 0x78]"] by (simp add: json_chars)
  finally show ?thesis unfolding json_string_def json_ws_quote Let_def at_byte_simps list.sel by simp
qed

end
