(* ===== verification/Server_Stream.thy ===== *)
theory Server_Stream
  imports Server_Json
begin

text \<open>
  The text of a reply in the HTTP server (\<open>ds4_server.c\<close>): the list of stop strings of a request,
  the search for them in the growing text, and the plain streaming of the text as deltas, which
  holds back what may still become a stop string or the end of a character.

  The loop is given the texts of the tokens in the order they are generated; \<open>send\<close> says for the
  deltas sent so far whether the next write succeeds. Sampling, the session, the structured
  streams and the tool-call markers are left out: this is the path of a request without tools.
  \<open>F_Length\<close> stands for the end of the tokens, whether the limit or the model's own stop token ended
  them; \<open>F_Stop\<close> is a stop string.
\<close>

subsection \<open>Stop strings\<close>

record stop_list =
  sl_v :: "bytes list"
  sl_max_len :: nat

definition stop_list_clear :: stop_list where
  "stop_list_clear = \<lparr> sl_v = [], sl_max_len = 0 \<rparr>"

definition c_bytes :: "bytes \<Rightarrow> bytes" where
  "c_bytes s = takeWhile (\<lambda>c. c \<noteq> 0) s"

definition stop_list_push :: "stop_list \<Rightarrow> bytes \<Rightarrow> stop_list" where
  "stop_list_push stops s =
     (let cs = c_bytes s in
      if cs = [] then stops
      else \<lparr> sl_v = sl_v stops @ [cs], sl_max_len = (if length cs > sl_max_len stops then length cs else sl_max_len stops) \<rparr>)"

text \<open>The loop over the elements of a list of stops; elements that are not strings are skipped.\<close>

definition skip_comma :: "bytes \<Rightarrow> bytes" where
  "skip_comma p = json_ws (if at_byte p = CH_COMMA then tl p else p)"

partial_function (option) parse_stop_loop :: "(bytes \<Rightarrow> nat) \<Rightarrow> stop_list \<Rightarrow> bytes \<Rightarrow> (stop_list \<times> bytes) option option" where
  "parse_stop_loop strtod out p =
     (if at_byte p = 0 then Some None
      else if at_byte p = CH_RBRACK then Some (Some (out, tl p))
      else if at_byte p = CH_QUOTE then
        (case json_string p of
           None \<Rightarrow> Some None
         | Some (s, q) \<Rightarrow> parse_stop_loop strtod (stop_list_push out s) (skip_comma (json_ws q)))
      else
        (case json_skip_value strtod p of
           None \<Rightarrow> None
         | Some None \<Rightarrow> Some None
         | Some (Some q) \<Rightarrow> parse_stop_loop strtod out (skip_comma (json_ws q))))"

definition parse_stop :: "(bytes \<Rightarrow> nat) \<Rightarrow> bytes \<Rightarrow> (stop_list \<times> bytes) option option" where
  "parse_stop strtod p0 =
     (let p = json_ws p0 in
      if at_byte p = CH_QUOTE then
        Some (map_option (\<lambda>(s, q). (stop_list_push stop_list_clear s, q)) (json_string p))
      else if at_byte p \<noteq> CH_LBRACK then
        map_option (map_option (\<lambda>q. (stop_list_clear, q))) (json_skip_value strtod p)
      else parse_stop_loop strtod stop_list_clear (json_ws (tl p)))"

definition c_strstr :: "bytes \<Rightarrow> bytes \<Rightarrow> nat option" where
  "c_strstr hay needle =
     (let h = c_bytes hay in
      find (\<lambda>i. take (length needle) (drop i h) = needle) [0..<Suc (length h)])"

fun stop_best :: "bytes \<Rightarrow> nat \<Rightarrow> (nat \<times> nat) option \<Rightarrow> bytes list \<Rightarrow> (nat \<times> nat) option" where
  "stop_best text start best [] = best"
| "stop_best text start best (s # ss) =
     (case c_strstr (drop start text) s of
        None \<Rightarrow> stop_best text start best ss
      | Some i \<Rightarrow>
          (let ppos = start + i in
           stop_best text start
             (case best of None \<Rightarrow> Some (ppos, length s) | Some (bpos, blen) \<Rightarrow> if ppos < bpos then Some (ppos, length s) else best) ss))"

definition stop_list_find_from :: "stop_list \<Rightarrow> bytes \<Rightarrow> nat \<Rightarrow> (nat \<times> nat) option" where
  "stop_list_find_from stops text start = stop_best text start None (sl_v stops)"

definition stop_list_stream_safe_len :: "stop_list \<Rightarrow> nat \<Rightarrow> nat" where
  "stop_list_stream_safe_len stops text_len =
     (if sl_v stops = [] \<or> sl_max_len stops \<le> 1 then text_len
      else (let hold = sl_max_len stops - 1 in if text_len > hold then text_len - hold else 0))"

subsection \<open>Character boundaries\<close>

definition utf8_expected_len :: "byte \<Rightarrow> nat" where
  "utf8_expected_len c =
     (if c < 0x80 then 1
      else if 0xC2 \<le> c \<and> c \<le> 0xDF then 2
      else if 0xE0 \<le> c \<and> c \<le> 0xEF then 3
      else if 0xF0 \<le> c \<and> c \<le> 0xF4 then 4
      else 1)"

definition is_cont :: "byte \<Rightarrow> bool" where
  "is_cont c \<longleftrightarrow> c AND 0xC0 = 0x80"

text \<open>The loop that steps back over continuation bytes, four at most.\<close>

fun utf8_back :: "bytes \<Rightarrow> nat \<Rightarrow> nat \<Rightarrow> nat \<Rightarrow> nat" where
  "utf8_back s start p 0 = p"
| "utf8_back s start p (Suc n) = (if p > start \<and> is_cont (s ! (p - 1)) then utf8_back s start (p - 1) n else p)"

definition utf8_stream_safe_len :: "bytes \<Rightarrow> nat \<Rightarrow> nat \<Rightarrow> bool \<Rightarrow> nat" where
  "utf8_stream_safe_len s start limit final =
     (if final \<or> limit \<le> start then limit
      else (let p = utf8_back s start limit 4 in
            if p = limit then (if utf8_expected_len (s ! (limit - 1)) > 1 then limit - 1 else limit)
            else if p = start \<and> is_cont (s ! p) then start
            else (let lead = p - 1; need = utf8_expected_len (s ! lead) in
                  if limit - lead < need then lead else limit)))"

subsection \<open>Streaming\<close>

datatype finish = F_Length | F_Stop | F_Error

record stream_state =
  ss_text :: bytes
  ss_pos :: nat
  ss_scan :: nat
  ss_sent :: "bytes list"
  ss_finish :: finish

definition stream_init :: stream_state where
  "stream_init = \<lparr> ss_text = [], ss_pos = 0, ss_scan = 0, ss_sent = [], ss_finish = F_Length \<rparr>"

text \<open>A delta is passed as a C string. \<open>False\<close> is a failed write, which cancels the job.\<close>

definition stream_send :: "(bytes list \<Rightarrow> bool) \<Rightarrow> nat \<Rightarrow> stream_state \<Rightarrow> stream_state \<times> bool" where
  "stream_send send len st =
     (let delta = take (len - ss_pos st) (drop (ss_pos st) (ss_text st)) in
      if send (ss_sent st) then (st\<lparr> ss_sent := ss_sent st @ [c_bytes delta], ss_pos := len \<rparr>, True)
      else (st\<lparr> ss_finish := F_Error \<rparr>, False))"

text \<open>One token's text: the state and whether decoding stops.\<close>

definition stream_piece :: "stop_list \<Rightarrow> bool \<Rightarrow> (bytes list \<Rightarrow> bool) \<Rightarrow> bytes \<Rightarrow> stream_state \<Rightarrow> stream_state \<times> bool" where
  "stream_piece stops streaming send piece st0 =
     (let st1 = st0\<lparr> ss_text := ss_text st0 @ piece \<rparr>;
          n = length (ss_text st1);
          hit = stop_list_find_from stops (ss_text st1) (ss_scan st1);
          len0 = (case hit of Some (pos, _) \<Rightarrow> pos | None \<Rightarrow> stop_list_stream_safe_len stops n);
          len1 = (if len0 > n then n else len0);
          len = utf8_stream_safe_len (ss_text st1) (ss_pos st1) len1 (hit \<noteq> None);
          st2 = (if hit = None \<and> sl_max_len stops > 1 then
                   st1\<lparr> ss_scan := (let hold = sl_max_len stops - 1 in if n > hold then n - hold else 0) \<rparr>
                 else st1)
      in case (if streaming \<and> len > ss_pos st2 then stream_send send len st2 else (st2, True)) of
           (st3, False) \<Rightarrow> (st3, True)
         | (st3, True) \<Rightarrow>
             (case hit of
                Some (pos, _) \<Rightarrow> (st3\<lparr> ss_finish := F_Stop, ss_text := take pos (ss_text st3) \<rparr>, True)
              | None \<Rightarrow> (st3, False)))"

fun stream_pieces :: "stop_list \<Rightarrow> bool \<Rightarrow> (bytes list \<Rightarrow> bool) \<Rightarrow> bytes list \<Rightarrow> stream_state \<Rightarrow> stream_state" where
  "stream_pieces stops streaming send [] st = st"
| "stream_pieces stops streaming send (piece # pieces) st =
     (case stream_piece stops streaming send piece st of
        (st', True) \<Rightarrow> st'
      | (st', False) \<Rightarrow> stream_pieces stops streaming send pieces st')"

text \<open>The flush of what was held back; a cancelled job returns before it.\<close>

definition stream_reply :: "stop_list \<Rightarrow> bool \<Rightarrow> (bytes list \<Rightarrow> bool) \<Rightarrow> bytes list \<Rightarrow> stream_state" where
  "stream_reply stops streaming send pieces =
     (let st = stream_pieces stops streaming send pieces stream_init in
      if ss_finish st \<noteq> F_Error \<and> streaming \<and> length (ss_text st) > ss_pos st
      then fst (stream_send send (length (ss_text st)) st) else st)"

subsection \<open>Occurrences of stop strings\<close>

definition occ :: "bytes \<Rightarrow> nat \<Rightarrow> bytes \<Rightarrow> bool" where
  "occ text i s \<longleftrightarrow> take (length s) (drop i text) = s"

definition stop_at :: "bytes list \<Rightarrow> bytes \<Rightarrow> nat \<Rightarrow> bool" where
  "stop_at ss text i \<longleftrightarrow> (\<exists>s \<in> set ss. occ text i s)"

text \<open>The least position of any stop string.\<close>

definition stop_pos :: "bytes list \<Rightarrow> bytes \<Rightarrow> nat option" where
  "stop_pos ss text = find (stop_at ss text) [0..<Suc (length text)]"

text \<open>
  What is promised of a list of stops: none is empty or holds a NUL, and \<open>sl_max_len\<close> is at least
  the length of each and 0 for no stops at all.
\<close>

definition stops_wf :: "stop_list \<Rightarrow> bool" where
  "stops_wf stops \<longleftrightarrow> list_all (\<lambda>s. s \<noteq> [] \<and> 0 \<notin> set s \<and> length s \<le> sl_max_len stops) (sl_v stops)
     \<and> (sl_v stops = [] \<longrightarrow> sl_max_len stops = 0)"

lemma find_upt: "find P [0..<n] = Some i \<longleftrightarrow> i < n \<and> P i \<and> (\<forall>j < i. \<not> P j)"
  by (auto simp: find_Some_iff)

lemma find_upt_None: "find P [0..<n] = None \<longleftrightarrow> (\<forall>i < n. \<not> P i)"
  by (auto simp: find_None_iff)

lemma c_bytes_id: "0 \<notin> set s \<Longrightarrow> c_bytes s = s"
  by (metis (mono_tags, lifting) c_bytes_def takeWhile_eq_all_conv)

lemma c_bytes_no_nul: "0 \<notin> set (c_bytes s)"
  by (auto simp: c_bytes_def dest: set_takeWhileD)

lemma occ_length: "occ text i s \<Longrightarrow> s \<noteq> [] \<Longrightarrow> i + length s \<le> length text"
proof -
  assume "occ text i s" "s \<noteq> []"
  then have "length s \<le> length (drop i text)" "0 < length s" unfolding occ_def by (metis length_take min.cobounded1, simp)
  then show ?thesis unfolding length_drop by linarith
qed

lemma occ_append: "occ (a @ b) i s \<Longrightarrow> i + length s \<le> length a \<Longrightarrow> occ a i s"
  by (simp add: occ_def)

lemma occ_prefix: "occ a i s \<Longrightarrow> s \<noteq> [] \<Longrightarrow> occ (a @ b) i s"
  using occ_length [of a i s] by (simp add: occ_def)

lemma stops_wfD: "stops_wf stops \<Longrightarrow> s \<in> set (sl_v stops) \<Longrightarrow> s \<noteq> [] \<and> 0 \<notin> set s \<and> length s \<le> sl_max_len stops"
  by (simp add: stops_wf_def list_all_iff)

lemma stop_at_length:
  assumes "stops_wf stops" "stop_at (sl_v stops) text i"
  shows "i < length text" "i \<le> length text"
proof -
  obtain s where s: "s \<in> set (sl_v stops)" "occ text i s" using assms(2) by (auto simp: stop_at_def)
  then show "i < length text" using occ_length [OF s(2)] stops_wfD [OF assms(1) s(1)]
    by (metis add_lessD1 length_greater_0_conv less_add_same_cancel1 order_less_le_trans)
  then show "i \<le> length text" by simp
qed

lemma stop_pos_Some:
  "stops_wf stops \<Longrightarrow> stop_pos (sl_v stops) text = Some i \<longleftrightarrow>
     stop_at (sl_v stops) text i \<and> (\<forall>j < i. \<not> stop_at (sl_v stops) text j)"
  using stop_at_length(2) [of stops "text" i] by (simp only: stop_pos_def find_upt less_Suc_eq_le) blast

lemma stop_pos_None:
  "stops_wf stops \<Longrightarrow> stop_pos (sl_v stops) text = None \<longleftrightarrow> (\<forall>i. \<not> stop_at (sl_v stops) text i)"
  using stop_at_length(2) [of stops "text"] by (simp only: stop_pos_def find_upt_None less_Suc_eq_le) blast

text \<open>Text in which no stop occurs, grown by a piece: a stop cannot start in the part before the hold.\<close>

lemma stop_at_new:
  assumes wf: "stops_wf stops" and none: "stop_pos (sl_v stops) text = None"
    and at: "stop_at (sl_v stops) (text @ piece) i"
  shows "length text - (sl_max_len stops - 1) \<le> i"
proof -
  obtain s where s: "s \<in> set (sl_v stops)" "occ (text @ piece) i s" using at by (auto simp: stop_at_def)
  note w = stops_wfD [OF wf s(1)]
  have "\<not> i + length s \<le> length text"
    using none s occ_append [OF s(2)] stop_pos_None [OF wf] by (auto simp: stop_at_def)
  then show ?thesis using w by linarith
qed

lemma stop_pos_take:
  assumes wf: "stops_wf stops" and p: "stop_pos (sl_v stops) text = Some i"
  shows "stop_pos (sl_v stops) (take i text) = None"
proof -
  have "\<not> stop_at (sl_v stops) (take i text) j" for j
  proof
    assume a: "stop_at (sl_v stops) (take i text) j"
    have "j < i" using stop_at_length(1) [OF wf a] by simp
    obtain s where s: "s \<in> set (sl_v stops)" "occ (take i text) j s" using a by (auto simp: stop_at_def)
    have "occ (take i text @ drop i text) j s" using occ_prefix [OF s(2)] stops_wfD [OF wf s(1)] by blast
    then have "stop_at (sl_v stops) text j" using s(1) by (auto simp: stop_at_def)
    then show False using p \<open>j < i\<close> stop_pos_Some [OF wf] by blast
  qed
  then show ?thesis using stop_pos_None [OF wf] by blast
qed

subsection \<open>The search\<close>

lemma strstr_Some:
  assumes "0 \<notin> set text" "start \<le> length text"
  shows "c_strstr (drop start text) s = Some i \<longleftrightarrow>
    start + i \<le> length text \<and> occ text (start + i) s \<and> (\<forall>j < i. \<not> occ text (start + j) s)"
proof -
  have "c_bytes (drop start text) = drop start text" using assms(1) by (intro c_bytes_id) (meson in_set_dropD)
  then show ?thesis using assms(2) by (simp only: c_strstr_def Let_def find_upt occ_def) (auto simp: add.commute)
qed

lemma strstr_None:
  assumes "0 \<notin> set text" "start \<le> length text" "s \<noteq> []"
  shows "c_strstr (drop start text) s = None \<longleftrightarrow> (\<forall>i \<ge> start. \<not> occ text i s)"
proof -
  have "c_bytes (drop start text) = drop start text" using assms(1) by (intro c_bytes_id) (meson in_set_dropD)
  then have "c_strstr (drop start text) s = None \<longleftrightarrow> (\<forall>i < Suc (length text - start). \<not> occ text (i + start) s)"
    by (simp only: c_strstr_def Let_def find_upt_None occ_def drop_drop length_drop)
  also have "\<dots> \<longleftrightarrow> (\<forall>i \<ge> start. \<not> occ text i s)"
  proof (intro iffI allI impI notI)
    fix i assume a: "\<forall>i < Suc (length text - start). \<not> occ text (i + start) s" and i: "start \<le> i" "occ text i s"
    then have "i - start < Suc (length text - start)" "i - start + start = i" using occ_length [OF i(2) assms(3)] by simp_all
    then show False using a i(2) by metis
  qed auto
  finally show ?thesis .
qed

lemma best_None: "stop_best text start best ss = None \<longleftrightarrow> best = None \<and> (\<forall>s \<in> set ss. c_strstr (drop start text) s = None)"
  by (induction ss arbitrary: best) (auto simp: Let_def split: option.splits)

lemma best_Some:
  "stop_best text start best ss = Some (p, l) \<Longrightarrow>
    (best = Some (p, l) \<or> (\<exists>s \<in> set ss. \<exists>i. c_strstr (drop start text) s = Some i \<and> p = start + i))
    \<and> (\<forall>s \<in> set ss. \<forall>i. c_strstr (drop start text) s = Some i \<longrightarrow> p \<le> start + i)
    \<and> (\<forall>bp bl. best = Some (bp, bl) \<longrightarrow> p \<le> bp)"
proof (induction ss arbitrary: best)
  case (Cons s ss)
  show ?case
  proof (cases "c_strstr (drop start text) s")
    case None
    then show ?thesis using Cons.IH [of best] Cons.prems by auto
  next
    case (Some i)
    let ?b = "case best of None \<Rightarrow> Some (start + i, length s)
      | Some (bpos, blen) \<Rightarrow> if start + i < bpos then Some (start + i, length s) else best"
    have "stop_best text start ?b ss = Some (p, l)" using Cons.prems Some by (simp add: Let_def)
    note h = Cons.IH [OF this]
    consider "best = None" | bp bl where "best = Some (bp, bl)" "start + i < bp" | bp bl where "best = Some (bp, bl)" "\<not> start + i < bp"
      by (cases best) force+
    then show ?thesis
    proof cases
      case 1 then show ?thesis using h Some by auto
    next
      case 2 then show ?thesis using h Some by force
    next
      case 3 then show ?thesis using h Some by force
    qed
  qed
qed simp

lemma find_from_exact:
  assumes wf: "stops_wf stops" and nul: "0 \<notin> set text" and start: "start \<le> length text"
    and before: "\<And>i. stop_at (sl_v stops) text i \<Longrightarrow> start \<le> i"
  shows "map_option fst (stop_list_find_from stops text start) = stop_pos (sl_v stops) text"
proof (cases "stop_list_find_from stops text start")
  case None
  have "\<not> stop_at (sl_v stops) text i" for i
  proof
    assume a: "stop_at (sl_v stops) text i"
    then obtain s where s: "s \<in> set (sl_v stops)" "occ text i s" by (auto simp: stop_at_def)
    have "c_strstr (drop start text) s = None" using None s(1) by (simp add: stop_list_find_from_def best_None)
    then show False using s(2) before [OF a] strstr_None [OF nul start] stops_wfD [OF wf s(1)] by blast
  qed
  then have "stop_pos (sl_v stops) text = None" using stop_pos_None [OF wf] by blast
  then show ?thesis using None by simp
next
  case (Some pl)
  obtain p l where pl: "pl = (p, l)" by (cases pl)
  note b = best_Some [OF Some [unfolded pl stop_list_find_from_def]]
  obtain s i where s: "s \<in> set (sl_v stops)" "c_strstr (drop start text) s = Some i" "p = start + i" using b by auto
  have "stop_at (sl_v stops) text p" using s strstr_Some [OF nul start] by (auto simp: stop_at_def)
  moreover have "\<not> stop_at (sl_v stops) text j" if j: "j < p" for j
  proof
    assume a: "stop_at (sl_v stops) text j"
    then obtain t where t: "t \<in> set (sl_v stops)" "occ text j t" by (auto simp: stop_at_def)
    then obtain k where k: "c_strstr (drop start text) t = Some k"
      using before [OF a] strstr_None [OF nul start] stops_wfD [OF wf t(1)] by (metis option.exhaust)
    have "start + k \<le> j"
    proof (rule ccontr)
      assume "\<not> start + k \<le> j"
      then have "j - start < k" "start + (j - start) = j" using before [OF a] by simp_all
      then show False using strstr_Some [OF nul start, of t k] k t(2) by metis
    qed
    then show False using b k t(1) j by force
  qed
  ultimately have "stop_pos (sl_v stops) text = Some p" using stop_pos_Some [OF wf] by blast
  then show ?thesis using Some pl by simp
qed


subsection \<open>The reply without its deltas\<close>

text \<open>
  The text of the tokens up to the first one after which a stop string is present, cut at the
  least position of one.
\<close>

fun stop_cut :: "bytes list \<Rightarrow> bytes list \<Rightarrow> bytes \<Rightarrow> bytes \<times> finish" where
  "stop_cut ss [] prev = (prev, F_Length)"
| "stop_cut ss (piece # pieces) prev =
     (case stop_pos ss (prev @ piece) of
        None \<Rightarrow> stop_cut ss pieces (prev @ piece)
      | Some i \<Rightarrow> (take i (prev @ piece), F_Stop))"

lemma stop_cut_clean:
  "stops_wf stops \<Longrightarrow> stop_pos (sl_v stops) prev = None \<Longrightarrow> stop_pos (sl_v stops) (fst (stop_cut (sl_v stops) pieces prev)) = None"
proof (induction pieces arbitrary: prev)
  case (Cons piece pieces)
  then show ?case using stop_pos_take [OF Cons.prems(1)] by (cases "stop_pos (sl_v stops) (prev @ piece)") (auto simp del: take_append)
qed simp

lemma stop_cut_finish:
  "stops_wf stops \<Longrightarrow> snd (stop_cut (sl_v stops) pieces prev) = F_Length \<Longrightarrow>
    fst (stop_cut (sl_v stops) pieces prev) = prev @ concat pieces"
  by (induction pieces arbitrary: prev) (auto split: option.splits)

text \<open>With one stop string the cut does not depend on how the text is cut into tokens.\<close>

lemma stop_pos_single_append:
  assumes wf: "stops_wf stops" and one: "sl_v stops = [s]" and p: "stop_pos [s] a = Some i"
  shows "stop_pos [s] (a @ b) = Some i"
proof -
  have w: "s \<noteq> []" using stops_wfD [OF wf] one by simp
  note char = stop_pos_Some [OF wf, unfolded one]
  have i: "occ a i s" "\<forall>j < i. \<not> occ a j s" using p char by (auto simp: stop_at_def)
  have "\<not> occ (a @ b) j s" if "j < i" for j
    using occ_append [of a b j s] occ_length [OF i(1) w] i(2) that by auto
  then show ?thesis using char occ_prefix [OF i(1) w] by (auto simp: stop_at_def)
qed

lemma stop_cut_single:
  assumes wf: "stops_wf stops" and one: "sl_v stops = [s]" and none: "stop_pos [s] prev = None"
  shows "fst (stop_cut [s] pieces prev) =
    (case stop_pos [s] (prev @ concat pieces) of None \<Rightarrow> prev @ concat pieces | Some i \<Rightarrow> take i (prev @ concat pieces))"
  using none
proof (induction pieces arbitrary: prev)
  case (Cons piece pieces)
  show ?case
  proof (cases "stop_pos [s] (prev @ piece)")
    case None
    have "(prev @ piece) @ concat pieces = prev @ concat (piece # pieces)" by simp
    with None show ?thesis using Cons.IH [OF None] by (simp only: stop_cut.simps option.case)
  next
    case (Some i)
    have "i \<le> length (prev @ piece)"
      using stop_at_length(2) [OF wf, of "prev @ piece" i] stop_pos_Some [OF wf, of "prev @ piece" i] Some one by simp
    then show ?thesis using stop_pos_single_append [OF wf one Some, of "concat pieces"] Some by simp
  qed
qed simp

subsection \<open>Streaming keeps to that text\<close>

definition hold :: "stop_list \<Rightarrow> nat" where
  "hold stops = sl_max_len stops - 1"

lemma safe_len: "stops_wf stops \<Longrightarrow> stop_list_stream_safe_len stops n = n - hold stops"
  by (auto simp: stop_list_stream_safe_len_def stops_wf_def hold_def Let_def)

text \<open>
  While no stop has been found: nothing but the text before the hold is sent, and the scan starts
  before anything a stop could start at.
\<close>

definition stream_inv :: "stop_list \<Rightarrow> bool \<Rightarrow> bytes \<Rightarrow> stream_state \<Rightarrow> bool" where
  "stream_inv stops streaming prev st \<longleftrightarrow> ss_text st = prev \<and> ss_finish st = F_Length
     \<and> ss_pos st \<le> length prev - hold stops \<and> ss_scan st \<le> length prev - hold stops
     \<and> concat (ss_sent st) = take (ss_pos st) prev \<and> (\<not> streaming \<longrightarrow> ss_pos st = 0)
     \<and> stop_pos (sl_v stops) prev = None"

lemma utf8_back_le: "utf8_back s start p n \<le> p"
proof (induction n arbitrary: p)
  case (Suc n)
  then show ?case using le_trans [OF Suc.IH [of "p - 1"] diff_le_self [of p 1]] by simp
qed simp

lemma utf8_safe_le: "utf8_stream_safe_len s start limit final \<le> limit"
  using utf8_back_le [of s start limit 4] by (auto simp: utf8_stream_safe_len_def Let_def simp del: utf8_back.simps)

lemma utf8_safe_final [simp]: "utf8_stream_safe_len s start limit True = limit"
  by (simp add: utf8_stream_safe_len_def)


lemma stream_find:
  assumes wf: "stops_wf stops" and inv: "stream_inv stops streaming prev st" and nul: "0 \<notin> set (prev @ piece)"
  shows "map_option fst (stop_list_find_from stops (prev @ piece) (ss_scan st)) = stop_pos (sl_v stops) (prev @ piece)"
proof (rule find_from_exact [OF wf nul])
  have "ss_scan st \<le> length prev - hold stops" using inv by (simp add: stream_inv_def)
  then show "ss_scan st \<le> length (prev @ piece)" unfolding length_append by linarith
  fix i assume "stop_at (sl_v stops) (prev @ piece) i"
  then show "ss_scan st \<le> i"
    using stop_at_new [OF wf _, of prev piece i] inv by (auto simp: stream_inv_def hold_def)
qed

text \<open>The two outcomes of a token, by whether a stop string is now present.\<close>

lemma stream_piece_none:
  assumes wf: "stops_wf stops" and inv: "stream_inv stops streaming prev st" and nul: "0 \<notin> set (prev @ piece)"
    and none: "stop_pos (sl_v stops) (prev @ piece) = None"
    and st2: "st2 = st\<lparr> ss_text := prev @ piece,
      ss_scan := (if sl_max_len stops > 1 then length (prev @ piece) - hold stops else ss_scan st) \<rparr>"
    and len: "len = utf8_stream_safe_len (prev @ piece) (ss_pos st) (length (prev @ piece) - hold stops) False"
  shows "stream_piece stops streaming send piece st =
    (if streaming \<and> len > ss_pos st then
       if send (ss_sent st) then
         (st2\<lparr> ss_sent := ss_sent st @ [c_bytes (take (len - ss_pos st) (drop (ss_pos st) (prev @ piece)))], ss_pos := len \<rparr>, False)
       else (st2\<lparr> ss_finish := F_Error \<rparr>, True)
     else (st2, False))"
proof -
  have hit: "stop_list_find_from stops (prev @ piece) (ss_scan st) = None"
    using stream_find [OF wf inv nul] none by simp
  have t: "ss_text st = prev" using inv by (simp add: stream_inv_def)
  have m: "(if length (prev @ piece) - hold stops > length (prev @ piece) then length (prev @ piece)
    else length (prev @ piece) - hold stops) = length (prev @ piece) - hold stops"
    by (rule if_not_P) (simp only: not_less diff_le_self)
  obtain pos scan sent fin where st: "st = \<lparr> ss_text = prev, ss_pos = pos, ss_scan = scan, ss_sent = sent, ss_finish = fin \<rparr>"
    using t by (cases st) simp
  show ?thesis
    using hit len st2 m
    by (simp only: stream_piece_def Let_def st stream_state.simps safe_len [OF wf] option.simps simp_thms if_False if_True)
      (simp add: stream_send_def hold_def Let_def)
qed

lemma stream_piece_hit:
  assumes wf: "stops_wf stops" and inv: "stream_inv stops streaming prev st" and nul: "0 \<notin> set (prev @ piece)"
    and hit: "stop_pos (sl_v stops) (prev @ piece) = Some i"
  shows "stream_piece stops streaming send piece st =
    (if streaming \<and> i > ss_pos st then
       if send (ss_sent st) then
         (st\<lparr> ss_text := take i (prev @ piece), ss_finish := F_Stop,
              ss_sent := ss_sent st @ [c_bytes (take (i - ss_pos st) (drop (ss_pos st) (prev @ piece)))], ss_pos := i \<rparr>, True)
       else (st\<lparr> ss_text := prev @ piece, ss_finish := F_Error \<rparr>, True)
     else (st\<lparr> ss_text := take i (prev @ piece), ss_finish := F_Stop \<rparr>, True))"
proof -
  obtain l where h: "stop_list_find_from stops (prev @ piece) (ss_scan st) = Some (i, l)"
    using stream_find [OF wf inv nul] hit by auto
  have t: "ss_text st = prev" using inv by (simp add: stream_inv_def)
  have "i \<le> length (prev @ piece)"
    using stop_at_length(2) [OF wf] hit stop_pos_Some [OF wf] by blast
  then have m: "(if i > length (prev @ piece) then length (prev @ piece) else i) = i" by simp
  obtain pos scan sent fin where st: "st = \<lparr> ss_text = prev, ss_pos = pos, ss_scan = scan, ss_sent = sent, ss_finish = fin \<rparr>"
    using t by (cases st) simp
  show ?thesis
    using h m
    by (simp only: stream_piece_def Let_def st stream_state.simps option.simps prod.case simp_thms if_False if_True utf8_safe_final)
      (simp add: stream_send_def Let_def)
qed


lemma stop_cut_keeps:
  "stops_wf stops \<Longrightarrow> stop_pos (sl_v stops) prev = None \<Longrightarrow> k \<le> length prev - hold stops \<Longrightarrow>
    k \<le> length (fst (stop_cut (sl_v stops) pieces prev)) \<and> take k (fst (stop_cut (sl_v stops) pieces prev)) = take k prev"
proof (induction pieces arbitrary: prev)
  case Nil
  then show ?case by simp
next
  case (Cons piece pieces)
  have kp: "k \<le> length prev" using Cons.prems(3) by linarith
  show ?case
  proof (cases "stop_pos (sl_v stops) (prev @ piece)")
    case None
    have "k \<le> length (prev @ piece) - hold stops" using Cons.prems(3) unfolding length_append by linarith
    from Cons.IH [OF Cons.prems(1) None this] show ?thesis using None kp by simp
  next
    case (Some i)
    have at: "stop_at (sl_v stops) (prev @ piece) i" using Some stop_pos_Some [OF Cons.prems(1)] by blast
    have "k \<le> i" using stop_at_new [OF Cons.prems(1,2) at] Cons.prems(3) unfolding hold_def by linarith
    then show ?thesis using Some kp stop_at_length(2) [OF Cons.prems(1) at] by (simp add: min_def)
  qed
qed

lemma send_extends:
  "concat sent = take pos a \<Longrightarrow> pos \<le> len \<Longrightarrow> concat (sent @ [take (len - pos) (drop pos a)]) = take len a"
  using take_add [of pos "len - pos" a] by simp

lemma no_nul_part: "0 \<notin> set a \<Longrightarrow> c_bytes (take n (drop m a)) = take n (drop m a)"
  by (rule c_bytes_id) (meson in_set_dropD in_set_takeD)

text \<open>One step keeps the invariant, unless the write fails.\<close>

lemma stream_step:
  assumes wf: "stops_wf stops" and inv: "stream_inv stops streaming prev st" and nul: "0 \<notin> set (prev @ piece)"
    and none: "stop_pos (sl_v stops) (prev @ piece) = None"
  obtains st' where "stream_piece stops streaming send piece st = (st', False)" "stream_inv stops streaming (prev @ piece) st'"
      "ss_sent st' = ss_sent st \<and> ss_pos st' = ss_pos st
       \<or> ss_pos st' = utf8_stream_safe_len (prev @ piece) (ss_pos st) (length (prev @ piece) - hold stops) False
         \<and> ss_pos st < ss_pos st'
         \<and> ss_sent st' = ss_sent st @ [take (ss_pos st' - ss_pos st) (drop (ss_pos st) (prev @ piece))]"
    | st' where "stream_piece stops streaming send piece st = (st', True)" "ss_finish st' = F_Error" "ss_sent st' = ss_sent st"
        "ss_pos st' = ss_pos st"
proof -
  let ?t = "prev @ piece"
  define st2 where "st2 = st\<lparr> ss_text := ?t,
      ss_scan := (if sl_max_len stops > 1 then length ?t - hold stops else ss_scan st) \<rparr>"
  define len where "len = utf8_stream_safe_len ?t (ss_pos st) (length ?t - hold stops) False"
  note step = stream_piece_none [OF wf inv nul none st2_def len_def, of send]
  have grow: "k \<le> length prev - hold stops \<Longrightarrow> k \<le> length ?t - hold stops" for k
    unfolding length_append by linarith
  have i: "ss_pos st \<le> length prev - hold stops" "ss_scan st \<le> length prev - hold stops"
    "concat (ss_sent st) = take (ss_pos st) prev" "\<not> streaming \<Longrightarrow> ss_pos st = 0" "ss_finish st = F_Length"
    using inv by (simp_all add: stream_inv_def)
  have pp: "ss_pos st \<le> length prev" using i(1) by linarith
  have cat: "concat (ss_sent st) = take (ss_pos st) ?t" using i(3) pp by simp
  have st2: "ss_text st2 = ?t" "ss_pos st2 = ss_pos st" "ss_sent st2 = ss_sent st" "ss_finish st2 = F_Length"
    "ss_scan st2 \<le> length ?t - hold stops"
    using i(5) grow [OF i(2)] by (simp_all add: st2_def)
  show ?thesis
  proof (cases "streaming \<and> len > ss_pos st")
    case False
    have "stream_piece stops streaming send piece st = (st2, False)" using step False by simp
    moreover have "stream_inv stops streaming ?t st2"
      using st2 grow [OF i(1)] cat i(4) none unfolding stream_inv_def by (simp del: length_append append_assoc)
    ultimately show ?thesis using st2 that(1) by blast
  next
    case True
    show ?thesis
    proof (cases "send (ss_sent st)")
      case True1: True
      define st3 where "st3 = st2\<lparr> ss_sent := ss_sent st @ [take (len - ss_pos st) (drop (ss_pos st) ?t)], ss_pos := len \<rparr>"
      have "stream_piece stops streaming send piece st = (st3, False)"
        using True True1 unfolding step st3_def no_nul_part [OF nul] by presburger
      moreover have "stream_inv stops streaming ?t st3"
        using st2 True none send_extends [OF cat, of len]
          utf8_safe_le [of ?t "ss_pos st" "length ?t - hold stops" False, folded len_def]
        unfolding stream_inv_def st3_def by (simp del: length_append append_assoc concat_append)
      moreover have "ss_pos st3 = len" "ss_sent st3 = ss_sent st @ [take (len - ss_pos st) (drop (ss_pos st) ?t)]"
        by (simp_all add: st3_def)
      ultimately show ?thesis using that(1) [of st3] True len_def by metis
    next
      case False
      have "stream_piece stops streaming send piece st = (st2\<lparr> ss_finish := F_Error \<rparr>, True)" using step True False by simp
      moreover have "ss_finish (st2\<lparr> ss_finish := F_Error \<rparr>) = F_Error" "ss_sent (st2\<lparr> ss_finish := F_Error \<rparr>) = ss_sent st"
        "ss_pos (st2\<lparr> ss_finish := F_Error \<rparr>) = ss_pos st"
        using st2 by simp_all
      ultimately show ?thesis using that(2) by blast
    qed
  qed
qed


text \<open>The loop: where it ends, and what was sent by then.\<close>

definition stream_ended :: "bool \<Rightarrow> bytes \<times> finish \<Rightarrow> stream_state \<Rightarrow> bool" where
  "stream_ended streaming result st \<longleftrightarrow> concat (ss_sent st) = take (ss_pos st) (fst result) \<and> ss_pos st \<le> length (fst result)
     \<and> (\<not> streaming \<longrightarrow> ss_pos st = 0)
     \<and> (ss_finish st = F_Error \<or> ss_text st = fst result \<and> ss_finish st = snd result)"

lemma pieces_exact:
  assumes wf: "stops_wf stops"
  shows "stream_inv stops streaming prev st \<Longrightarrow> 0 \<notin> set (prev @ concat pieces) \<Longrightarrow>
    stream_ended streaming (stop_cut (sl_v stops) pieces prev) (stream_pieces stops streaming send pieces st)"
proof (induction pieces arbitrary: prev st)
  case Nil
  then show ?case by (auto simp: stream_inv_def stream_ended_def)
next
  case (Cons piece pieces)
  note inv = Cons.prems(1)
  have nul: "0 \<notin> set (prev @ piece)" "0 \<notin> set ((prev @ piece) @ concat pieces)" using Cons.prems(2) by auto
  have i: "ss_pos st \<le> length prev - hold stops" "concat (ss_sent st) = take (ss_pos st) prev" "\<not> streaming \<Longrightarrow> ss_pos st = 0"
    "ss_finish st = F_Length" "stop_pos (sl_v stops) prev = None"
    using inv by (simp_all add: stream_inv_def)
  have keep: "ss_pos st \<le> length (fst (stop_cut (sl_v stops) ps prev))
      \<and> take (ss_pos st) (fst (stop_cut (sl_v stops) ps prev)) = take (ss_pos st) prev" for ps
    using stop_cut_keeps [OF wf i(5) i(1)] .
  show ?case
  proof (cases "stop_pos (sl_v stops) (prev @ piece)")
    case None
    show ?thesis
    proof (rule stream_step [OF wf inv nul(1) None, of send])
      fix st' assume st': "stream_piece stops streaming send piece st = (st', False)" "stream_inv stops streaming (prev @ piece) st'"
      then show ?thesis using Cons.IH [OF st'(2) nul(2)] None by simp
    next
      fix st' assume st': "stream_piece stops streaming send piece st = (st', True)" "ss_finish st' = F_Error" "ss_sent st' = ss_sent st"
        "ss_pos st' = ss_pos st"
      then have p: "stream_pieces stops streaming send (piece # pieces) st = st'" by simp
      show ?thesis unfolding p stream_ended_def using keep [of "piece # pieces"] i st' by metis
    qed
  next
    case (Some k)
    let ?r = "take k (prev @ piece)"
    have r: "stop_cut (sl_v stops) (piece # pieces) prev = (?r, F_Stop)" using Some by simp
    have k: "length ?r = k"
      using stop_at_length(2) [OF wf] Some stop_pos_Some [OF wf] by (simp only: length_take min_absorb2)
    have e: "ss_pos st \<le> k" "concat (ss_sent st) = take (ss_pos st) ?r" using keep [of "piece # pieces"] i(2) unfolding r fst_conv k by metis+
    have sent: "concat (ss_sent st @ [c_bytes (take (k - ss_pos st) (drop (ss_pos st) (prev @ piece)))]) = ?r"
    proof -
      have "concat (ss_sent st) = take (ss_pos st) (prev @ piece)" using e by (simp only: take_take min_absorb1)
      from send_extends [OF this e(1)] show ?thesis by (simp only: no_nul_part [OF nul(1)])
    qed
    note step = stream_piece_hit [OF wf inv nul(1) Some, of send]
    have t: "take k ?r = ?r" by (simp only: take_take min.idem)
    show ?thesis
    proof (cases "streaming \<and> k > ss_pos st")
      case True
      then show ?thesis using step sent e k i(3) t
        by (cases "send (ss_sent st)") (simp_all only: stream_pieces.simps r stream_ended_def if_True if_False prod.case bool.case, simp_all del: take_append)
    next
      case False
      then show ?thesis using step e k i(3)
        by (simp only: stream_pieces.simps r stream_ended_def if_False prod.case bool.case) (simp del: take_append)
    qed
  qed
qed


lemma stream_init_inv: "stops_wf stops \<Longrightarrow> stream_inv stops streaming [] stream_init"
  using stop_pos_None [of stops "[]"] stop_at_length(1) [of stops "[]"]
  by (auto simp: stream_inv_def stream_init_def)

lemma reply_exact:
  assumes wf: "stops_wf stops" and nul: "0 \<notin> set (concat pieces)"
    and r: "(text, fin) = stop_cut (sl_v stops) pieces []" and st: "st = stream_reply stops streaming send pieces"
  shows "\<exists>rest. concat (ss_sent st) @ rest = text"
    and "ss_finish st \<noteq> F_Error \<Longrightarrow> ss_text st = text \<and> ss_finish st = fin \<and> concat (ss_sent st) = (if streaming then text else [])"
proof -
  define st1 where "st1 = stream_pieces stops streaming send pieces stream_init"
  have e: "concat (ss_sent st1) = take (ss_pos st1) text" "ss_pos st1 \<le> length text" "\<not> streaming \<Longrightarrow> ss_pos st1 = 0"
    "ss_finish st1 = F_Error \<or> ss_text st1 = text \<and> ss_finish st1 = fin"
    using pieces_exact [OF wf stream_init_inv [OF wf], of pieces streaming send] nul
    by (simp_all add: stream_ended_def r [symmetric] st1_def)
  have "0 \<notin> set text"
  proof -
    have "set (fst (stop_cut ss ps prev)) \<subseteq> set (prev @ concat ps)" for ss ps prev
    proof (induction ps arbitrary: prev)
      case (Cons p ps)
      show ?case
      proof (cases "stop_pos ss (prev @ p)")
        case None
        then show ?thesis using Cons.IH [of "prev @ p"] by simp
      next
        case (Some i)
        then show ?thesis using set_take_subset [of i "prev @ p"] by (auto simp del: take_append)
      qed
    qed simp
    from this [of "sl_v stops" pieces "[]"] show ?thesis using nul unfolding r [symmetric] by auto
  qed
  note tail = no_nul_part [OF this, of "length text - ss_pos st1" "ss_pos st1"]
  note all = send_extends [OF e(1,2)]
  consider "st = st1" "ss_finish st1 = F_Error \<or> \<not> streaming \<or> length (ss_text st1) \<le> ss_pos st1"
    | "st = fst (stream_send send (length text) st1)" "streaming" "ss_finish st1 \<noteq> F_Error"
    using e(4) unfolding st stream_reply_def st1_def [symmetric] Let_def by (metis not_le)
  note cases = this
  show "\<exists>rest. concat (ss_sent st) @ rest = text"
  proof (cases rule: cases)
    case 1
    then show ?thesis using e(1) append_take_drop_id by metis
  next
    case 2
    have "concat (ss_sent st) = take (ss_pos st1) text \<or> concat (ss_sent st) = text"
      using 2 e all tail by (auto simp: stream_send_def Let_def)
    then show ?thesis using append_take_drop_id by (metis append_Nil2)
  qed
  assume ok: "ss_finish st \<noteq> F_Error"
  show "ss_text st = text \<and> ss_finish st = fin \<and> concat (ss_sent st) = (if streaming then text else [])"
  proof (cases rule: cases)
    case 1
    then show ?thesis using ok e by (cases streaming) auto
  next
    case 2
    then show ?thesis using ok e all tail by (auto simp: stream_send_def Let_def split: if_splits)
  qed
qed


subsection \<open>Reading the stops of a request\<close>

lemma push_wf: "stops_wf stops \<Longrightarrow> stops_wf (stop_list_push stops s)"
  using c_bytes_no_nul [of s] by (auto simp: stops_wf_def stop_list_push_def Let_def list_all_iff)

lemma clear_wf: "stops_wf stop_list_clear"
  by (simp add: stops_wf_def stop_list_clear_def)

lemma stop_loop_wf:
  assumes "parse_stop_loop sd out p = Some r"
  shows "stops_wf out \<longrightarrow> (\<forall>o' q. r = Some (o', q) \<longrightarrow> stops_wf o')"
  using _ assms
proof (rule parse_stop_loop.raw_induct)
  fix loop :: "(bytes \<Rightarrow> nat) \<Rightarrow> stop_list \<Rightarrow> bytes \<Rightarrow> (stop_list \<times> bytes) option option" and sd out p r
  assume IH: "\<And>sd out p r. loop sd out p = Some r \<Longrightarrow> stops_wf out \<longrightarrow> (\<forall>o' q. r = Some (o', q) \<longrightarrow> stops_wf o')"
    and r: "(if at_byte p = 0 then Some None
      else if at_byte p = CH_RBRACK then Some (Some (out, tl p))
      else if at_byte p = CH_QUOTE then
        (case json_string p of
           None \<Rightarrow> Some None
         | Some (s, q) \<Rightarrow> loop sd (stop_list_push out s) (skip_comma (json_ws q)))
      else
        (case json_skip_value sd p of
           None \<Rightarrow> None
         | Some None \<Rightarrow> Some None
         | Some (Some q) \<Rightarrow> loop sd out (skip_comma (json_ws q)))) = Some r"
  show "stops_wf out \<longrightarrow> (\<forall>o' q. r = Some (o', q) \<longrightarrow> stops_wf o')"
  proof
    assume o: "stops_wf out"
    have 1: "\<forall>o' q. r = Some (o', q) \<longrightarrow> stops_wf o'" if "loop sd (stop_list_push out s) x = Some r" for s x
      using IH [OF that] push_wf [OF o] by blast
    have 2: "\<forall>o' q. r = Some (o', q) \<longrightarrow> stops_wf o'" if "loop sd out x = Some r" for x
      using IH [OF that] o by blast
    consider "at_byte p = 0" | "at_byte p \<noteq> 0" "at_byte p = CH_RBRACK" | "at_byte p \<noteq> 0" "at_byte p \<noteq> CH_RBRACK" "at_byte p = CH_QUOTE"
      | "at_byte p \<noteq> 0" "at_byte p \<noteq> CH_RBRACK" "at_byte p \<noteq> CH_QUOTE" by blast
    then show "\<forall>o' q. r = Some (o', q) \<longrightarrow> stops_wf o'"
    proof cases
      case 1
      then show ?thesis using r by simp
    next
      case 2
      then show ?thesis using r o by auto
    next
      case 3
      then show ?thesis using r 1 by (auto split: option.splits prod.splits)
    next
      case 4
      then show ?thesis using r 2 by (auto split: option.splits)
    qed
  qed
qed

lemma parse_stop_wf: "parse_stop sd p = Some (Some (stops, q)) \<Longrightarrow> stops_wf stops"
  using stop_loop_wf [of sd stop_list_clear "json_ws (tl (json_ws p))" "Some (stops, q)"] clear_wf push_wf [OF clear_wf]
  by (auto simp: parse_stop_def Let_def split: if_splits option.splits)

lemma skip_comma_shorter: "length (skip_comma p) \<le> length p"
  using json_ws_shorter [of p] json_ws_shorter [of "tl p"] by (auto simp: skip_comma_def intro: le_trans)

lemma stop_loop_returns:
  assumes sd: "\<And>p. sd p \<le> length p"
  shows "\<exists>r. parse_stop_loop sd out p = Some r"
proof (induction "length p" arbitrary: out p rule: less_induct)
  case less
  have v: "value_returns (json_skip_value sd)" unfolding json_skip_value_def using skip_returns [OF sd] by simp
  have short: "length (skip_comma (json_ws q)) < length p" if "length q < length p" for q
    using that skip_comma_shorter [of "json_ws q"] json_ws_shorter [of q] by linarith
  show ?case
  proof (cases "json_string p")
    case None
    show ?thesis
      by (rule value_cases [OF v, of p]; subst parse_stop_loop.simps) (use None less [OF short] in auto)
  next
    case (Some sq)
    obtain s q where sq: "json_string p = Some (s, q)" using Some by (cases sq) auto
    show ?thesis
      by (rule value_cases [OF v, of p]; subst parse_stop_loop.simps)
        (use sq less [OF short] less [OF short [OF json_string_shorter [OF sq]]] in auto)
  qed
qed

lemma parse_stop_returns:
  assumes sd: "\<And>p. sd p \<le> length p"
  shows "parse_stop sd p \<noteq> None"
proof -
  have "value_returns (json_skip_value sd)" unfolding json_skip_value_def using skip_returns [OF sd] by simp
  then have "json_skip_value sd q \<noteq> None" for q unfolding value_returns_def by (metis option.distinct(1))
  moreover have "parse_stop_loop sd out q \<noteq> None" for out q using stop_loop_returns [OF sd, of out q] by auto
  ultimately show ?thesis by (simp add: parse_stop_def Let_def)
qed

text \<open>A list of written strings, with white space after each and after each comma.\<close>

fun stop_items :: "(bytes \<times> bytes \<times> bytes) list \<Rightarrow> bytes" where
  "stop_items [] = []"
| "stop_items ((s, a, b) # xs) = json_escape s @ a @ (if xs = [] then [] else CH_COMMA # b) @ stop_items xs"

lemma escape_head: "json_escape s @ p = CH_QUOTE # tl (json_escape s @ p)"
  by (simp add: json_escape_def)

lemma items_head: "\<not> is_space (at_byte (stop_items xs @ CH_RBRACK # p))"
  using brack_spaces by (cases xs) (auto simp: json_escape_def is_space_def json_chars word_le_nat_alt)

lemma stop_loop_items:
  "list_all (\<lambda>(s, a, b). 0 \<notin> set s \<and> all_space a \<and> all_space b) xs \<Longrightarrow>
    parse_stop_loop sd out (stop_items xs @ CH_RBRACK # p) = Some (Some (foldl stop_list_push out (map fst xs), p))"
proof (induction xs arbitrary: out)
  case Nil
  show ?case by (subst parse_stop_loop.simps) (simp add: json_chars)
next
  case (Cons x xs)
  obtain s a b where x: "x = (s, a, b)" by (cases x)
  then have ok: "0 \<notin> set s" "all_space a" "all_space b"
    "list_all (\<lambda>(s, a, b). 0 \<notin> set s \<and> all_space a \<and> all_space b) xs" using Cons.prems by auto
  let ?r = "stop_items xs @ CH_RBRACK # p"
  let ?t = "a @ (if xs = [] then [] else CH_COMMA # b) @ ?r"
  have t: "stop_items (x # xs) @ CH_RBRACK # p = json_escape s @ ?t" by (simp add: x)
  have h: "at_byte (json_escape s @ ?t) = CH_QUOTE" by (simp add: json_escape_def)
  have "skip_comma (json_ws ?t) = ?r"
  proof (cases "xs = []")
    case True
    then show ?thesis using ok(2) brack_spaces by (simp add: json_ws_all json_ws_at skip_comma_def json_chars)
  next
    case False
    have "json_ws (b @ ?r) = ?r" by (simp only: json_ws_all [OF ok(3)] json_ws_at [OF items_head])
    moreover have "json_ws (a @ CH_COMMA # b @ ?r) = CH_COMMA # b @ ?r"
      by (simp only: json_ws_all [OF ok(2)]) (rule json_ws_at, simp add: is_space_def json_chars word_le_nat_alt)
    ultimately show ?thesis using False by (simp add: skip_comma_def)
  qed
  then have "parse_stop_loop sd out (json_escape s @ ?t) = parse_stop_loop sd (stop_list_push out s) ?r"
    by (subst parse_stop_loop.simps) (simp only: h json_string_escape [OF ok(1)] option.case prod.case, simp add: json_chars)
  then show ?case using Cons.IH [OF ok(4)] by (simp only: t) (simp add: x)
qed

lemma stops_pushed:
  "list_all (\<lambda>s. 0 \<notin> set s) ss \<Longrightarrow> foldl stop_list_push out ss =
    \<lparr> sl_v = sl_v out @ filter (\<lambda>s. s \<noteq> []) ss, sl_max_len = foldl max (sl_max_len out) (map length ss) \<rparr>"
proof (induction ss arbitrary: out)
  case (Cons s ss)
  then show ?case by (auto simp: stop_list_push_def c_bytes_id Let_def max_def)
qed simp

end
