(* ===== verification/Server_Stream_Utf8.thy ===== *)
theory Server_Stream_Utf8
  imports Server_Stream
begin

text \<open>
  The deltas of a streamed reply end between characters, and the properties of the text of a
  reply: the reading of the stop strings, the cut at a stop, and the whole characters.
\<close>

subsection \<open>Whole characters\<close>

definition char_ok :: "bytes \<Rightarrow> bool" where
  "char_ok c \<longleftrightarrow> c \<noteq> [] \<and> \<not> is_cont (hd c) \<and> length c = utf8_expected_len (hd c) \<and> list_all is_cont (tl c)"

definition whole :: "bytes \<Rightarrow> bool" where
  "whole t \<longleftrightarrow> (\<exists>cs. list_all char_ok cs \<and> t = concat cs)"

text \<open>A position between two characters of \<open>t\<close>.\<close>

definition between :: "bytes \<Rightarrow> nat \<Rightarrow> bool" where
  "between t i \<longleftrightarrow> i \<le> length t \<and> (i < length t \<longrightarrow> \<not> is_cont (t ! i))"

lemma whole_Nil [simp]: "whole []"
  unfolding whole_def by (rule exI [of _ "[]"]) simp

lemma whole_append: "whole a \<Longrightarrow> whole b \<Longrightarrow> whole (a @ b)"
  unfolding whole_def by (metis concat_append list_all_append)

lemma char_cont: "char_ok c \<Longrightarrow> 0 < i \<Longrightarrow> i < length c \<Longrightarrow> is_cont (c ! i)"
  by (cases c) (auto simp: char_ok_def list_all_length nth_Cons')

lemma whole_cut:
  assumes "whole t" "between t i"
  shows "whole (take i t) \<and> whole (drop i t)"
proof -
  obtain cs where "list_all char_ok cs" "t = concat cs" using assms(1) by (auto simp: whole_def)
  then show ?thesis using assms(2)
  proof (induction cs arbitrary: t i)
    case (Cons c cs)
    have t: "t = c @ concat cs" and c: "char_ok c" and cs: "list_all char_ok cs" using Cons.prems by auto
    have wc: "whole c" unfolding whole_def using c by (intro exI [of _ "[c]"]) simp
    have wcs: "whole (concat cs)" unfolding whole_def using cs by blast
    consider "i = 0" | "0 < i" "i < length c" | "length c \<le> i" by linarith
    then show ?case
    proof cases
      case 1
      then show ?thesis using whole_append [OF wc wcs] t by simp
    next
      case 2
      then show ?thesis using char_cont [OF c 2] Cons.prems(3) t by (simp add: between_def nth_append)
    next
      case 3
      have "between (concat cs) (i - length c)" using 3 Cons.prems(3) t by (auto simp: between_def nth_append)
      then show ?thesis using Cons.IH [OF cs refl] whole_append [OF wc] 3 t by simp
    qed
  qed simp
qed

lemma whole_part:
  assumes "whole t" "between t i" "between t j" "i \<le> j"
  shows "whole (take (j - i) (drop i t))"
proof -
  have "between (drop i t) (j - i)" using assms(3,4) by (auto simp: between_def)
  then show ?thesis using whole_cut [OF conjunct2 [OF whole_cut [OF assms(1,2)]]] by blast
qed

text \<open>From a first byte the character is as long as that byte says.\<close>

lemma whole_char:
  assumes "whole t" "t \<noteq> []"
  shows "\<not> is_cont (hd t)" "between t (utf8_expected_len (hd t))"
proof -
  obtain cs where cs: "list_all char_ok cs" "t = concat cs" using assms(1) by (auto simp: whole_def)
  then obtain c ds where c: "cs = c # ds" using assms(2) by (cases cs) auto
  then have ok: "char_ok c" "c \<noteq> []" "t = c @ concat ds" using cs by (auto simp: char_ok_def)
  then have h: "hd t = hd c" by simp
  then show "\<not> is_cont (hd t)" using ok by (simp add: char_ok_def)
  have "between t (length c)"
  proof (cases "concat ds = []")
    case True
    then show ?thesis using ok by (simp add: between_def)
  next
    case False
    have "\<not> is_cont (hd (concat ds))" if "list_all char_ok ds" "concat ds \<noteq> []"
      using that by (induction ds) (auto simp: char_ok_def)
    then show ?thesis using ok(3) False cs(1) c by (simp add: between_def nth_append hd_conv_nth)
  qed
  then show "between t (utf8_expected_len (hd t))" using ok h by (simp add: char_ok_def)
qed

lemma expected_len: "1 \<le> utf8_expected_len c" "utf8_expected_len c \<le> 4"
  by (simp_all add: utf8_expected_len_def)

text \<open>Stepping back ends after the last first byte.\<close>

lemma utf8_back_exact:
  assumes "start \<le> l" "\<not> is_cont (s ! l)"
  shows "(\<And>k. l < k \<Longrightarrow> k < p \<Longrightarrow> is_cont (s ! k)) \<Longrightarrow> l < p \<Longrightarrow> p - Suc l \<le> n \<Longrightarrow> utf8_back s start p n = Suc l"
proof (induction n arbitrary: p)
  case (Suc n)
  show ?case
  proof (cases "p = Suc l")
    case True
    then show ?thesis using assms by simp
  next
    case False
    then have p: "l < p - 1" "p - 1 < p" using Suc.prems(2) by simp_all
    have "utf8_back s start (p - 1) n = Suc l"
      by (rule Suc.IH) (use Suc.prems p in auto)
    then show ?thesis using Suc.prems(1) [OF p] assms(1) p by simp
  qed
qed simp

lemma last_lead:
  assumes "start < (limit :: nat)" "\<not> is_cont (s ! start)"
  obtains l where "start \<le> l" "l < limit" "\<not> is_cont (s ! l)" "\<And>k. l < k \<Longrightarrow> k < limit \<Longrightarrow> is_cont (s ! k)"
proof -
  let ?P = "\<lambda>l. start \<le> l \<and> l < limit \<and> \<not> is_cont (s ! l)"
  have "?P start" using assms by simp
  moreover have "\<forall>y. ?P y \<longrightarrow> y \<le> limit" by auto
  ultimately have g: "?P (Greatest ?P)" "\<And>y. ?P y \<Longrightarrow> y \<le> Greatest ?P"
    using GreatestI_nat [of ?P start limit] Greatest_le_nat [of ?P _ limit] by blast+
  have "is_cont (s ! k)" if "Greatest ?P < k" "k < limit" for k
  proof (rule ccontr)
    assume "\<not> is_cont (s ! k)"
    then have "?P k" using g(1) that by auto
    then show False using g(2) that(1) by (meson not_le)
  qed
  then show ?thesis using that [of "Greatest ?P"] g(1) by blast
qed

lemma utf8_safe_between:
  assumes t: "whole t" and start: "between t start" and limit: "start < limit" "limit \<le> n" "n \<le> length t"
  shows "between t (utf8_stream_safe_len (take n t) start limit False)"
proof -
  let ?s = "take n t"
  have lead: "\<not> is_cont (?s ! start)" using start limit by (simp add: between_def)
  obtain l where l: "start \<le> l" "l < limit" "\<not> is_cont (?s ! l)" "\<And>k. l < k \<Longrightarrow> k < limit \<Longrightarrow> is_cont (?s ! k)"
    using last_lead [OF limit(1) lead] by blast
  have bl: "between t l" using l limit by (simp add: between_def)
  have w: "whole (drop l t)" "drop l t \<noteq> []" "hd (drop l t) = ?s ! l"
    using whole_cut [OF t bl] l(2) limit by (simp_all add: hd_drop_conv_nth)
  define m where "m = utf8_expected_len (?s ! l)"
  have b: "between (drop l t) m" using whole_char(2) [OF w(1,2)] w(3) by (simp add: m_def)
  have m: "1 \<le> m" "m \<le> 4" unfolding m_def by (rule expected_len)+
  have lm: "limit \<le> l + m"
  proof (rule ccontr)
    assume a: "\<not> limit \<le> l + m"
    then have "is_cont (?s ! (l + m))" using l(4) m by simp
    then show False using b a limit by (auto simp: between_def)
  qed
  have p: "utf8_back ?s start limit 4 = Suc l" by (rule utf8_back_exact [OF l(1,3,4,2)]) (use lm m in auto)
  have end_: "between t limit" if "limit = l + m" using b that l limit by (auto simp: between_def)
  have "utf8_stream_safe_len ?s start limit False = (if limit - l < m then l else limit)"
  proof (cases "Suc l = limit")
    case True
    then have "limit - 1 = l" "limit - l = 1" by auto
    moreover have "utf8_expected_len (t ! l) = m" using l(2) limit by (simp add: m_def)
    ultimately show ?thesis using limit True p m unfolding utf8_stream_safe_len_def Let_def by simp
  next
    case False
    then have "Suc l \<noteq> start" "Suc l \<noteq> limit" using l by auto
    then show ?thesis using limit unfolding utf8_stream_safe_len_def Let_def p by (simp add: m_def)
  qed
  then show ?thesis
  proof (cases "limit - l < m")
    case False
    then have "limit = l + m" using lm l(2) by linarith
    from end_ [OF this] show ?thesis using \<open>utf8_stream_safe_len ?s start limit False = _\<close> False by simp
  qed (use bl in simp)
qed


text \<open>A stop that begins a character occurs between characters.\<close>

lemma stop_between:
  assumes wf: "stops_wf stops" and heads: "list_all (\<lambda>s. \<not> is_cont (hd s)) (sl_v stops)"
    and at: "stop_at (sl_v stops) (take n t) i" and n: "n \<le> length t"
  shows "between t i"
proof -
  obtain s where s: "s \<in> set (sl_v stops)" "occ (take n t) i s" using at by (auto simp: stop_at_def)
  note w = stops_wfD [OF wf s(1)]
  have i: "i < length (take n t)" by (rule stop_at_length(1) [OF wf at])
  have "hd (take (length s) (drop i (take n t))) = hd (drop i (take n t))" using w by (intro hd_take) simp
  then have "hd s = hd (drop i (take n t))" using s(2) by (simp only: occ_def)
  then have "t ! i = hd s" using i n by (simp add: hd_drop_conv_nth del: drop_take)
  then show ?thesis using heads s(1) i n by (auto simp: between_def list_all_iff)
qed

lemma stop_cut_between:
  assumes wf: "stops_wf stops" and heads: "list_all (\<lambda>s. \<not> is_cont (hd s)) (sl_v stops)"
  shows "prev @ concat pieces @ rest = t \<Longrightarrow> stop_cut (sl_v stops) pieces prev = (r, F_Stop) \<Longrightarrow> between t (length r)"
proof (induction pieces arbitrary: prev)
  case (Cons piece pieces)
  obtain n where p: "prev @ piece = take n t" "n \<le> length t"
    by (rule that [of "length (prev @ piece)"]; unfold Cons.prems(1) [symmetric]; simp)
  show ?case
  proof (cases "stop_pos (sl_v stops) (prev @ piece)")
    case None
    then show ?thesis using Cons.IH [of "prev @ piece"] Cons.prems by simp
  next
    case (Some k)
    have at: "stop_at (sl_v stops) (prev @ piece) k" using Some stop_pos_Some [OF wf] by blast
    have "r = take k (prev @ piece)" using Cons.prems(2) Some by (simp del: take_append)
    then have "length r = k" using stop_at_length(2) [OF wf at] by (simp only: length_take min_absorb2)
    then show ?thesis using stop_between [OF wf heads _ p(2)] at p(1) by simp
  qed
qed simp

text \<open>The loop again: the deltas are whole, and the position is between characters.\<close>

definition whole_sent :: "bytes \<Rightarrow> stream_state \<Rightarrow> bool" where
  "whole_sent t st \<longleftrightarrow> list_all whole (ss_sent st) \<and> between t (ss_pos st)"

lemma whole_sent_add:
  assumes t: "whole t" and st: "whole_sent t st" and p: "p = take n t" and k: "ss_pos st \<le> k" "k \<le> n" "between t k"
    and sent: "ss_sent st' = ss_sent st @ [take (k - ss_pos st) (drop (ss_pos st) p)]" "ss_pos st' = k"
  shows "whole_sent t st'"
proof -
  have "take (k - ss_pos st) (drop (ss_pos st) p) = take (k - ss_pos st) (drop (ss_pos st) t)"
    using k(1,2) by (simp add: p drop_take min_absorb1)
  then show ?thesis using whole_part [OF t _ k(3,1)] st sent k(3) by (simp add: whole_sent_def)
qed

lemma pieces_whole:
  assumes wf: "stops_wf stops" and heads: "list_all (\<lambda>s. \<not> is_cont (hd s)) (sl_v stops)" and t: "whole t" and nul: "0 \<notin> set t"
  shows "stream_inv stops streaming prev st \<Longrightarrow> whole_sent t st \<Longrightarrow> prev @ concat pieces @ rest = t \<Longrightarrow>
    whole_sent t (stream_pieces stops streaming send pieces st)"
proof (induction pieces arbitrary: prev st)
  case (Cons piece pieces)
  note inv = Cons.prems(1)
  let ?p = "prev @ piece"
  obtain n where p: "?p = take n t" "n \<le> length t" "n = length ?p"
    by (rule that [of "length ?p"]; unfold Cons.prems(3) [symmetric]; simp)
  have nulp: "0 \<notin> set ?p" using nul Cons.prems(3) by auto
  have b0: "between t (ss_pos st)" using Cons.prems(2) by (simp add: whole_sent_def)
  show ?case
  proof (cases "stop_pos (sl_v stops) ?p")
    case None
    show ?thesis
    proof (rule stream_step [OF wf inv nulp None, of send])
      fix st' assume st': "stream_piece stops streaming send piece st = (st', False)" "stream_inv stops streaming ?p st'"
        and ext: "ss_sent st' = ss_sent st \<and> ss_pos st' = ss_pos st
          \<or> ss_pos st' = utf8_stream_safe_len ?p (ss_pos st) (length ?p - hold stops) False \<and> ss_pos st < ss_pos st'
            \<and> ss_sent st' = ss_sent st @ [take (ss_pos st' - ss_pos st) (drop (ss_pos st) ?p)]"
      have "whole_sent t st'"
      proof (cases "ss_sent st' = ss_sent st \<and> ss_pos st' = ss_pos st")
        case True
        then show ?thesis using Cons.prems(2) by (simp add: whole_sent_def)
      next
        case False
        then have e: "ss_pos st' = utf8_stream_safe_len ?p (ss_pos st) (length ?p - hold stops) False" "ss_pos st < ss_pos st'"
          "ss_sent st' = ss_sent st @ [take (ss_pos st' - ss_pos st) (drop (ss_pos st) ?p)]" using ext by blast+
        have le: "ss_pos st' \<le> length ?p - hold stops" unfolding e(1) by (rule utf8_safe_le)
        have "between t (utf8_stream_safe_len (take n t) (ss_pos st) (length ?p - hold stops) False)"
          using e(2) le p(2,3) by (intro utf8_safe_between [OF t b0]) linarith+
        then have b: "between t (ss_pos st')" using e(1) p(1) by simp
        show ?thesis by (rule whole_sent_add [OF t Cons.prems(2) p(1) _ _ b e(3) refl]) (use e(2) le p(3) in linarith)+
      qed
      from Cons.IH [OF st'(2) this] show ?thesis using Cons.prems(3) st'(1) by simp
    next
      fix st' assume "stream_piece stops streaming send piece st = (st', True)" "ss_sent st' = ss_sent st" "ss_pos st' = ss_pos st"
      then show ?thesis using Cons.prems(2) by (simp add: whole_sent_def)
    qed
  next
    case (Some k)
    have at: "stop_at (sl_v stops) ?p k" using Some stop_pos_Some [OF wf] by blast
    have "stop_at (sl_v stops) (take n t) k" using at by (simp only: p(1))
    note b = stop_between [OF wf heads this p(2)]
    have kn: "k \<le> n" unfolding p(3) by (rule stop_at_length(2) [OF wf at])
    define st3 where "st3 = st\<lparr> ss_text := take k ?p, ss_finish := F_Stop,
              ss_sent := ss_sent st @ [take (k - ss_pos st) (drop (ss_pos st) ?p)], ss_pos := k \<rparr>"
    have "whole_sent t st3" if "ss_pos st \<le> k"
      by (rule whole_sent_add [OF t Cons.prems(2) p(1) that kn b]) (simp_all add: st3_def del: take_append drop_append)
    moreover have "whole_sent t (st\<lparr> ss_text := x, ss_finish := y \<rparr>)" for x y using Cons.prems(2) by (simp add: whole_sent_def)
    ultimately show ?thesis
      unfolding stream_pieces.simps stream_piece_hit [OF wf inv nulp Some, of send] no_nul_part [OF nulp] st3_def [symmetric]
      by (auto simp del: take_append)
  qed
qed simp


lemma stop_cut_prefix: "\<exists>r. fst (stop_cut ss pieces prev) @ r = prev @ concat pieces"
proof (induction pieces arbitrary: prev)
  case (Cons piece pieces)
  show ?case
  proof (cases "stop_pos ss (prev @ piece)")
    case None
    then show ?thesis using Cons.IH [of "prev @ piece"] by simp
  next
    case (Some i)
    have "take i (prev @ piece) @ drop i (prev @ piece) @ concat pieces = prev @ concat (piece # pieces)"
      by (metis append.assoc append_take_drop_id concat.simps(2))
    with Some show ?thesis by (simp only: stop_cut.simps option.case fst_conv) (rule exI)
  qed
qed simp

lemma reply_whole:
  assumes wf: "stops_wf stops" and heads: "list_all (\<lambda>s. \<not> is_cont (hd s)) (sl_v stops)"
    and t: "whole t" "concat pieces @ rest = t" and nul: "0 \<notin> set t"
    and st: "st = stream_reply stops streaming send pieces"
  shows "list_all whole (butlast (ss_sent st))"
    and "between t (length (fst (stop_cut (sl_v stops) pieces []))) \<Longrightarrow> list_all whole (ss_sent st)"
proof -
  define st1 where "st1 = stream_pieces stops streaming send pieces stream_init"
  define body where "body = fst (stop_cut (sl_v stops) pieces [])"
  have "between t 0" using whole_char(1) [OF t(1)] by (cases t) (auto simp: between_def)
  then have w: "whole_sent t st1"
    unfolding st1_def using pieces_whole [OF wf heads t(1) nul stream_init_inv [OF wf], where streaming = streaming and pieces = pieces and rest = rest and send = send] t(2)
    by (simp add: whole_sent_def stream_init_def)
  have nulp: "0 \<notin> set (concat pieces)" using nul t(2) by auto
  have e: "ss_finish st1 = F_Error \<or> ss_text st1 = body" "ss_pos st1 \<le> length body"
    using pieces_exact [OF wf stream_init_inv [OF wf], of pieces streaming send] nulp
    by (auto simp: stream_ended_def st1_def body_def)
  obtain r where "body @ r = concat pieces" using stop_cut_prefix [of "sl_v stops" pieces "[]"] by (auto simp: body_def)
  then have "body @ r @ rest = t" using t(2) by (metis append.assoc)
  then have p: "body = take (length body) t" and nult: "0 \<notin> set body" using nul by auto
  have butlast: "list_all whole (butlast xs)" if "list_all whole xs" for xs using that by (auto simp: list_all_iff dest: in_set_butlastD)
  have ws: "list_all whole (ss_sent st1)" using w by (simp add: whole_sent_def)
  have "ss_sent st = ss_sent st1 \<or> ss_sent st = ss_sent st1 @ [take (length body - ss_pos st1) (drop (ss_pos st1) body)]"
    using e(1) no_nul_part [OF nult] c_bytes_id [of "drop (ss_pos st1) body"] nult in_set_dropD [of 0 "ss_pos st1" body] unfolding st stream_reply_def st1_def [symmetric] Let_def stream_send_def
    by (cases "ss_finish st1 = F_Error"; cases "send (ss_sent st1)") auto
  then consider "ss_sent st = ss_sent st1"
    | "ss_sent st = ss_sent st1 @ [take (length body - ss_pos st1) (drop (ss_pos st1) body)]" by blast
  note cases = this
  show "list_all whole (butlast (ss_sent st))" by (cases rule: cases) (simp_all add: butlast ws)
  assume b: "between t (length (fst (stop_cut (sl_v stops) pieces [])))"
  show "list_all whole (ss_sent st)"
  proof (cases rule: cases)
    case 2
    define st2 where "st2 = st1\<lparr> ss_sent := ss_sent st, ss_pos := length body \<rparr>"
    have "whole_sent t st2"
      by (rule whole_sent_add [OF t(1) w p e(2) le_refl b [folded body_def]]) (simp_all add: st2_def 2)
    then show ?thesis by (simp add: whole_sent_def st2_def)
  qed (simp add: ws)
qed

lemma sends_finish:
  assumes "\<And>sent. send sent"
  shows "ss_finish st \<noteq> F_Error \<Longrightarrow> ss_finish (stream_pieces stops streaming send pieces st) \<noteq> F_Error"
proof (induction pieces arbitrary: st)
  case (Cons piece pieces)
  obtain st' stop where p: "stream_piece stops streaming send piece st = (st', stop)" by (cases "stream_piece stops streaming send piece st")
  then have "ss_finish st' \<noteq> F_Error"
    using Cons.prems assms by (auto simp: stream_piece_def stream_send_def Let_def split: if_splits option.splits prod.splits)
  then show ?case using Cons.IH [of st'] p by (cases stop) simp_all
qed simp

lemma reply_finishes: "(\<And>sent. send sent) \<Longrightarrow> ss_finish (stream_reply stops streaming send pieces) \<noteq> F_Error"
  using sends_finish [of send stream_init stops streaming pieces]
  by (auto simp: stream_reply_def stream_send_def Let_def stream_init_def)


lemma parse_stop_items:
  assumes ok: "list_all (\<lambda>(s, a, b). 0 \<notin> set s \<and> all_space a \<and> all_space b) xs" "all_space v" "all_space w"
  shows "parse_stop sd (v @ [CH_LBRACK] @ w @ stop_items xs @ CH_RBRACK # rest)
    = Some (Some (\<lparr> sl_v = filter (\<lambda>s. s \<noteq> []) (map fst xs), sl_max_len = foldl max 0 (map (length \<circ> fst) xs) \<rparr>, rest))"
proof -
  have 1: "json_ws (v @ CH_LBRACK # w @ stop_items xs @ CH_RBRACK # rest) = CH_LBRACK # w @ stop_items xs @ CH_RBRACK # rest"
    using ok brack_spaces by (simp add: json_ws_all json_ws_at)
  have 2: "json_ws (w @ stop_items xs @ CH_RBRACK # rest) = stop_items xs @ CH_RBRACK # rest"
    using ok by (simp only: json_ws_all json_ws_at [OF items_head])
  have "list_all (\<lambda>s. 0 \<notin> set s) (map fst xs)" using ok by (auto simp: list_all_iff)
  then show ?thesis
    using ok 1 2 char_distinct by (simp add: parse_stop_def stop_loop_items stops_pushed stop_list_clear_def)
qed

subsection \<open>A small reply\<close>

text \<open>A list of the stop "END" and an empty string, and a text in which it falls across two tokens.\<close>

definition demo_stops_text :: bytes where
  "demo_stops_text = [CH_LBRACK] @ stop_items [([0x45, 0x4E, 0x44], [], [0x20]), ([], [], [])] @ [CH_RBRACK]"

definition demo_stops :: stop_list where
  "demo_stops = \<lparr> sl_v = [[0x45, 0x4E, 0x44]], sl_max_len = 3 \<rparr>"

definition demo_pieces :: "bytes list" where
  "demo_pieces = [[0x61, 0xC3], [0xA9, 0x62, 0x63], [0x45], [0x4E, 0x44, 0x78]]"

subsection \<open>Properties\<close>

text \<open>
  Property C40. Reading the stop strings of a request returns on every input. A list it accepts
  holds no empty string and no NUL, and no string longer than the length kept for the hold-back;
  a list written with the server's own writer, with any white space, is read back as its nonempty
  strings in order and the greatest length.\<close>

theorem parse_stop_exact:
  assumes "\<And>q. strtod q \<le> length q"
  shows "parse_stop strtod p \<noteq> None
    \<and> (\<forall>stops q. parse_stop strtod p = Some (Some (stops, q)) \<longrightarrow> stops_wf stops)
    \<and> (list_all (\<lambda>(s, a, b). 0 \<notin> set s \<and> all_space a \<and> all_space b) xs \<and> all_space v \<and> all_space w \<longrightarrow>
        parse_stop strtod (v @ [CH_LBRACK] @ w @ stop_items xs @ CH_RBRACK # rest)
          = Some (Some (\<lparr> sl_v = filter (\<lambda>s. s \<noteq> []) (map fst xs), sl_max_len = foldl max 0 (map (length \<circ> fst) xs) \<rparr>, rest)))"
proof (intro conjI impI allI)
  assume "list_all (\<lambda>(s, a, b). 0 \<notin> set s \<and> all_space a \<and> all_space b) xs \<and> all_space v \<and> all_space w"
  then show "parse_stop strtod (v @ [CH_LBRACK] @ w @ stop_items xs @ CH_RBRACK # rest)
      = Some (Some (\<lparr> sl_v = filter (\<lambda>s. s \<noteq> []) (map fst xs), sl_max_len = foldl max 0 (map (length \<circ> fst) xs) \<rparr>, rest))"
    using parse_stop_items by blast
qed (use parse_stop_returns [OF assms] parse_stop_wf in blast)+

theorem parse_stop_exact_witness: "parse_stop demo_strtod demo_stops_text = Some (Some (demo_stops, []))"
  using parse_stop_exact [OF demo_strtod_le, THEN conjunct2, THEN conjunct2,
      of "[([0x45, 0x4E, 0x44], [], [0x20]), ([], [], [])]" "[]" "[]" "[]"]
  by (simp add: demo_stops_text_def demo_stops_def is_space_def)

text \<open>
  Property C18. The text of a reply is the text of the tokens up to the first one that completes a
  stop string, cut at the least position of one: no stop string is in it, with one stop string
  the cut does not depend on the tokens, and without a stop nothing is cut. What was sent to a
  streaming client is at every moment a beginning of that text, so that no part of a stop string
  was sent, and it is all of it unless a write failed.\<close>

theorem stream_reply_exact:
  assumes stops: "stops = stop_list_clear \<or> parse_stop strtod req = Some (Some (stops, q))"
    and nul: "0 \<notin> set (concat pieces)"
    and r: "(body, fin) = stop_cut (sl_v stops) pieces []" and st: "st = stream_reply stops streaming send pieces"
  shows "(\<forall>s \<in> set (sl_v stops). \<forall>i. \<not> occ body i s)
    \<and> (\<exists>rest. concat (ss_sent st) @ rest = body)
    \<and> (ss_finish st \<noteq> F_Error \<longrightarrow> ss_text st = body \<and> ss_finish st = fin \<and> concat (ss_sent st) = (if streaming then body else []))
    \<and> ((\<forall>sent. send sent) \<longrightarrow> ss_finish st \<noteq> F_Error)
    \<and> (fin = F_Length \<longrightarrow> body = concat pieces)
    \<and> (\<forall>s. sl_v stops = [s] \<longrightarrow>
        body = (case stop_pos [s] (concat pieces) of None \<Rightarrow> concat pieces | Some i \<Rightarrow> take i (concat pieces)))"
proof -
  have wf: "stops_wf stops" using stops clear_wf parse_stop_wf by blast
  have none: "stop_pos (sl_v stops) [] = None" using stream_init_inv [OF wf] by (simp add: stream_inv_def)
  have body: "body = fst (stop_cut (sl_v stops) pieces [])" "fin = snd (stop_cut (sl_v stops) pieces [])"
    using r by (metis fst_conv, metis snd_conv)
  have "stop_pos (sl_v stops) body = None" using stop_cut_clean [OF wf none] body by simp
  then have 1: "\<forall>s \<in> set (sl_v stops). \<forall>i. \<not> occ body i s" using stop_pos_None [OF wf] by (auto simp: stop_at_def)
  have 2: "fin = F_Length \<longrightarrow> body = concat pieces" using stop_cut_finish [OF wf, of pieces "[]"] body by simp
  have 3: "(\<forall>sent. send sent) \<longrightarrow> ss_finish st \<noteq> F_Error" using reply_finishes st by blast
  have 4: "\<forall>s. sl_v stops = [s] \<longrightarrow>
      body = (case stop_pos [s] (concat pieces) of None \<Rightarrow> concat pieces | Some i \<Rightarrow> take i (concat pieces))"
    using stop_cut_single [OF wf, of _ "[]" pieces] none body unfolding append_Nil by auto
  show ?thesis using 1 2 3 4 reply_exact [OF wf nul r st] by blast
qed

theorem stream_reply_exact_witness:
  "ss_sent (stream_reply demo_stops True (\<lambda>_. True) demo_pieces) \<noteq> []
   \<and> concat (ss_sent (stream_reply demo_stops True (\<lambda>_. True) demo_pieces)) = [0x61, 0xC3, 0xA9, 0x62, 0x63]"
proof -
  have p: "parse_stop demo_strtod demo_stops_text = Some (Some (demo_stops, []))"
    using parse_stop_items [of "[([0x45, 0x4E, 0x44], [], [0x20]), ([], [], [])]" "[]" "[]" demo_strtod "[]"]
    by (simp add: demo_stops_text_def demo_stops_def is_space_def)
  have r: "([0x61, 0xC3, 0xA9, 0x62, 0x63], F_Stop) = stop_cut (sl_v demo_stops) demo_pieces []"
    by (simp add: demo_stops_def demo_pieces_def stop_pos_def stop_at_def occ_def upt_rec)
  have "concat (ss_sent (stream_reply demo_stops True (\<lambda>_. True) demo_pieces)) = [0x61, 0xC3, 0xA9, 0x62, 0x63]"
    using stream_reply_exact [OF disjI2 [OF p] _ r refl, of True "\<lambda>_. True"] by (simp add: demo_pieces_def)
  then show ?thesis by auto
qed

text \<open>
  Property C19. A delta never ends inside a character: if the tokens spell whole characters,
  or would with the text that was still to come, and the stop strings are whole characters, every
  delta but the last is a sequence of whole characters, however the characters are cut into
  tokens; the last one is too unless the generation itself ended inside a character.\<close>

theorem stream_whole_characters:
  assumes stops: "stops = stop_list_clear \<or> parse_stop strtod req = Some (Some (stops, q))" "list_all whole (sl_v stops)"
    and t: "whole (concat pieces @ rest)" "0 \<notin> set (concat pieces @ rest)"
    and st: "st = stream_reply stops streaming send pieces"
  shows "list_all whole (butlast (ss_sent st))
    \<and> (ss_finish st = F_Stop \<or> whole (concat pieces) \<longrightarrow> list_all whole (ss_sent st))"
proof -
  have wf: "stops_wf stops" using stops(1) clear_wf parse_stop_wf by blast
  have heads: "list_all (\<lambda>s. \<not> is_cont (hd s)) (sl_v stops)"
    using stops(2) stops_wfD [OF wf] whole_char(1) by (auto simp: list_all_iff)
  obtain body fin where r: "stop_cut (sl_v stops) pieces [] = (body, fin)" by fastforce
  have nul: "0 \<notin> set (concat pieces)" using t(2) by auto
  note w = reply_whole [OF wf heads _ _ _ st]
  have "list_all whole (ss_sent st)" if "ss_finish st = F_Stop"
  proof -
    have "fin = F_Stop" using reply_exact(2) [OF wf nul r [symmetric] st] that by simp
    then have "between (concat pieces @ rest) (length body)" using stop_cut_between [OF wf heads, of "[]" pieces rest _ body] r by simp
    then show ?thesis using w(2) [OF t(1) refl t(2)] r by simp
  qed
  moreover have "list_all whole (ss_sent st)" if p: "whole (concat pieces)"
  proof -
    have "between (concat pieces) (length body)"
    proof (cases "fin = F_Length")
      case True
      then have "body = concat pieces" using stop_cut_finish [OF wf, of pieces "[]"] r by simp
      then show ?thesis by (simp add: between_def)
    next
      case False
      have "fin \<noteq> F_Error"
      proof -
        have "snd (stop_cut ss ps prev) \<noteq> F_Error" for ss ps prev by (induction ps arbitrary: prev) (auto split: option.splits)
        from this [of "sl_v stops" pieces "[]"] show ?thesis using r by simp
      qed
      with False have "fin = F_Stop" by (cases fin) simp_all
      then show ?thesis using stop_cut_between [OF wf heads, of "[]" pieces "[]" _ body] r by simp
    qed
    then show ?thesis using w(2) [OF p _ nul, of "[]"] r by simp
  qed
  ultimately show ?thesis using w(1) [OF t(1) refl t(2)] by blast
qed

theorem stream_whole_characters_witness:
  "list_all whole (butlast (ss_sent (stream_reply stop_list_clear True (\<lambda>_. True) demo_pieces)))"
proof -
  have "whole (concat demo_pieces)" unfolding whole_def
    by (rule exI [of _ "[[0x61], [0xC3, 0xA9], [0x62], [0x63], [0x45], [0x4E], [0x44], [0x78]]"])
      (simp add: demo_pieces_def char_ok_def is_cont_def utf8_expected_len_def word_le_nat_alt word_less_nat_alt)
  then show ?thesis
    using stream_whole_characters [of stop_list_clear demo_strtod "[]" "[]" demo_pieces "[]" _ True "\<lambda>_. True"]
    by (simp add: stop_list_clear_def demo_pieces_def)
qed

end
