(* ===== verification/Spec2Isabelle.thy ===== *)
theory Spec2Isabelle
  imports Mtp_Properties Layer_Pack Gpu_Args Ssd Kv_Store_Load Ple_Pool_Live Sample_Argmax Resident_Properties Server_Stream_Utf8
begin

text \<open>
  A verification of the host code around the qwen4exp model of the ds4 inference engine
  (\<open>src/ds4/\<close>) and of the resident process that serves it (\<open>src/harness/protocol-adapter/ds4_shim/\<close>).

  \<^bold>\<open>The program.\<close> A client sends request lines to the resident process (\<open>ds4_resident.c\<close>), which calls
  a small C surface over one engine and one session (\<open>ds4_shim.c\<close>), which calls the session verbs of
  \<open>ds4.c\<close>. A session feeds tokens to the model: row by row (\<open>sync\<close>, \<open>eval\<close>), or through the
  speculative cycle (\<open>ds4_qwen4exp_mtp.c\<close>), where a draft head proposes tokens, one forward
  verifies them together, and a rejected tail is undone. The cycle sees the session only through
  callbacks (the seam) and through a set of rollback objects; behind them the graph session
  (\<open>ds4_qwen4exp_graph.inc\<close>) keeps the recurrent and convolution states, the key/value caches, the
  n-gram history and the bookkeeping that makes an undo cheap. Every forward gathers n-gram rows
  from a memory-mapped table (\<open>ds4_qwen4exp_ple.c\<close>), wide ones with a pool of threads. Beside this
  stand the checkpoint store (\<open>ds4_kvstore.c\<close>), the placement of layers on devices
  (\<open>ds4_layer_pack.c\<close>, \<open>ds4_gpu_args.c\<close>), the streaming options (\<open>ds4_ssd.c\<close>) and the HTTP server
  (\<open>ds4_server.c\<close>).

  The main statement is end to end: the tokens a client receives for a free run are the greedy
  stream of the target fed one token at a time, whatever the drafts were, however many rows were
  verified together and whatever earlier connections did (\<open>resident_free_run_exact\<close>). It is composed
  of one statement per layer, each proved under the contract of the layer below.

  \<^bold>\<open>Conventions\<close> (\<open>Prelude\<close>, \<open>CLib\<close>). A struct is a record, an enum a datatype, a refusal a
  constructor of an error type or \<open>None\<close>, a C \<open>int\<close> an \<open>int\<close> with the narrowing casts written out,
  a fixed-width unsigned integer a word where its wrap-around is reachable and a \<open>nat\<close> where the
  code keeps it from its bound. Buffers are lists of bytes. Binary32 logits are bit patterns seen
  through the comparisons of C. \<open>CLib\<close> has the decimal conversions of \<open>printf\<close> and \<open>strtol\<close>.

  \<^bold>\<open>The speculative path.\<close>
  \<^item> \<open>Mtp_Rollback\<close>: the seven carried objects, their classes, registration, the completeness check
    and the two sweeps (\<open>ds4_qwen4exp_rollback_*\<close>).
  \<^item> \<open>Mtp_Cycle\<close>: argmax, depth envelope, state and counters, the draft chain with head-cache seeding
    and the margin gates, and \<open>mtp_cycle\<close> (\<open>ds4_qwen4exp_mtp_cycle\<close>) on every branch. The model seam is
    a record of callbacks.
  \<^item> \<open>Mtp_Wf\<close>, \<open>Mtp_Counters\<close>, \<open>Mtp_Keeps\<close>: what a round keeps for any callbacks: well-formedness,
    consistent counters, returning, and what holds after a failing round.
  \<^item> \<open>Mtp_Exact\<close>: the locale \<open>mtp_seam\<close>, whose laws are what \<open>ds4_qwen4exp_mtp.h\<close> asks of the
    callbacks, and exactness of a round under it.
  \<^item> \<open>Graph_Session\<close>: the graph session: slots adopted instead of copied, the settling copy, the
    checkpoint/replay controller (\<open>ds4_qwen4exp_gdn_replay.h\<close>), forward, verify, reset, the rollback
    objects, and the seam callbacks of \<open>ds4.c\<close>. The device is a record of kernels.
  \<^item> \<open>Graph_Exact\<close>: the locale \<open>qwen_kernels\<close> (a forward of \<open>n\<close> rows is \<open>n\<close> forwards of one row) and,
    by \<open>sublocale\<close>, that the graph session satisfies \<open>mtp_seam\<close>. \<open>Graph_Clean\<close>: the dirty bit is sound.
  \<^item> \<open>Ref_Kernels\<close>: two models of \<open>qwen_kernels\<close>: the reduced reference model of
    \<open>tests/test_qwen4exp_mtp.c\<close> and a trace machine that can be evaluated.
  \<^item> \<open>Mtp_Properties\<close>: the properties of this group.
  \<^item> \<open>Sample_Argmax\<close>: the unrolled argmax of \<open>ds4.c\<close> equals the plain one and that of the cycle, and
    the list of best logits. \<open>Draft_Head\<close>: shortlist, set-up and cache of the draft head.

  \<^bold>\<open>Session, shim and resident.\<close>
  \<^item> \<open>Qwen_Session\<close>: the session verbs with lazy set-up and retry. \<open>Qwen_Exact\<close>: the locale
    \<open>qwen_engine\<close> (what is assumed of kernels, failures and allocators) and the refinement of the
    token-serial target by every verb. \<open>Qwen_Engines\<close>: its two models.
  \<^item> \<open>Ds4_Shim\<close>: every function of the shim, the open with its warm-up. \<open>Resident_Wire\<close>: the request
    scanner and the reply writer. \<open>Resident\<close>: the eleven verbs, a connection, the accept loop.
  \<^item> \<open>Resident_Framing\<close>: replies do not depend on how the bytes are cut into reads. \<open>Resident_Exact\<close>,
    \<open>Resident_Properties\<close>: the stream of a free run, isolation of connections, request parsing.

  \<^bold>\<open>The n-gram table.\<close>
  \<^item> \<open>Ple_Gguf\<close>, \<open>Ple_Scan\<close>, \<open>Ple_Round\<close>: the header walk and its round trip. \<open>Ple_Constants\<close>: the shard
    set and the checks of the hash constants. \<open>Ple_Hash\<close>: row ids against a reference over unbounded
    integers. \<open>Ple_Rule\<close>: the reference derivation of the constants. \<open>Ple_Dequant\<close>: exact products.
  \<^item> \<open>Ple_Table\<close>, \<open>Ple_Hot\<close>, \<open>Ple_Serve\<close>: the hot set with links, buckets and arena; the locale
    \<open>lru_server\<close> is its contract (a least-recently-used list of exact rows), interpreted on it.
  \<^item> \<open>Ple_Gather\<close>: the gather of the graph on its serial, armed and cut paths. \<open>Ple_Pool\<close>: its thread
    pool as a step function over schedules, with the invariants of the protocol and of the data.
    \<open>Ple_Pool_Live\<close>: progress under fairness, and the properties of the gather.

  \<^bold>\<open>The store, the options and the server.\<close>
  \<^item> \<open>Sha1\<close>, \<open>Kv_Format\<close>, \<open>Kvstore\<close>, \<open>Kv_Evict\<close>, \<open>Kv_Store_Load\<close>: the checkpoint store over an explicit
    disk: hash, header, scan, eviction (within the budget, or up to a checkpoint that cannot be
    unlinked), store that never damages another checkpoint, longest-prefix lookup, sound load.
  \<^item> \<open>Layer_Pack\<close>, \<open>Gpu_Args\<close>, \<open>Ssd\<close>: placement with its optimality, option parsers with their texts,
    the cache plan and the memory lock.
  \<^item> \<open>Server_Json\<close>: the JSON reader and writer of the HTTP server. \<open>Server_Stream\<close>,
    \<open>Server_Stream_Utf8\<close>: stop strings and the plain stream of a reply, which sends nothing of a
    stop string and no part of a character.

  \<^bold>\<open>Bounds and termination.\<close> No loop of the model is cut short by fuel: loops are structural or
  have a measure. Two kinds are partial functions whose \<open>None\<close> is "does not return": the walks
  along a hash bucket (shown to return on every represented hot set) and the loops over JSON members
  and stop strings (shown to return on every input, with the nesting limit 256 of the code). Counters of
  rounds are naturals, as \<open>2 ^ 64\<close> rounds are out of reach; the generation of the thread pool is
  kept modulo \<open>2 ^ 32\<close>, and its properties ask for fewer calls than that. A depth is at most 6.

  \<^bold>\<open>Parameters.\<close> What is not under \<open>src/\<close> or not host code is an argument: the kernels and the
  failures of device calls, the allocators (\<open>alloc\<close>, \<open>fits\<close>), the operating system behind a mapping
  (\<open>ple_os\<close>), a disk (\<open>kv_io\<close>) and a socket (\<open>sends\<close>), \<open>strtod\<close>, the printer of a \<open>float\<close> (\<open>g9\<close>), the
  decay of a checkpoint's score, the words of a refusal (\<open>e_text\<close>) and the verifier of sessions
  without a draft head (\<open>e_other_verifier\<close>).

  \<^bold>\<open>Not modelled.\<close> The CUDA, ROCm and Metal kernels are floating-point device code: they enter as
  the contract \<open>qwen_kernels\<close>, which is not proved of them. Of \<open>ds4.c\<close>, the tokenizer, the weight
  loader, the graphs of the other model families and the random samplers are left out: the first
  three are not on the path from a request to a token of a loaded qwen4exp engine, the last are
  floating point. Of the HTTP server, sockets, templates, tool-call grammars and the
  structured event streams are text glue; the
  agent, the command line, the web client, the evaluation drivers and the image decoder are input
  and output; the distributed and tensor-parallel runtimes are network transport of other
  deployments; linenoise and rax are third-party code. Inside the modelled parts, log lines,
  wall-clock counters, graph capture, the test-only forced drafts and the release of heap memory
  are left out.
\<close>

end
